(* ===== verification/XV6_Prelude.thy ===== *)
theory XV6_Prelude
  imports Main "HOL-Library.Word"
begin

unbundle bit_operations_syntax

text \<open>
  The shared base of the development: the C integer types, the names of the kernel's
  locks and sleep channels, the operation type that every kernel function of the model
  has, its weakest-precondition calculus, the loop combinators, and the generic lemmas
  on words and byte-addressed memory that the components use.
\<close>

section \<open>C types\<close>

type_synonym uchar = "8 word"
type_synonym ushort = "16 word"
type_synonym uint = "32 word"
type_synonym uint64 = "64 word"
type_synonym addr = "64 word"

text \<open>
  A C pointer to characters is modelled by the array it points into, seen from the
  pointer: \<open>p i\<close> is the byte \<open>p[i]\<close>.
\<close>

type_synonym cstr = "nat \<Rightarrow> uchar"

section \<open>Names of locks and sleep channels\<close>

text \<open>
  The spin locks and sleep locks of the kernel are static objects, so each has a name
  here; the sleep lock of a buffer or an inode has an inner spin lock of its own.
  A sleep channel is the address of an object that nothing else shares.
\<close>

datatype sleeplockid = SL_buf nat | SL_inode nat

datatype lockid =
    L_kmem | L_pid | L_proc nat | L_ticks | L_bcache | L_icache | L_log | L_ftable
  | L_pipe addr | L_cons | L_uart_tx | L_pr | L_vdisk | L_sleep sleeplockid

datatype chan =
    C_proc nat | C_ticks | C_pipe_nread addr | C_pipe_nwrite addr | C_log
  | C_buf nat | C_sleeplock sleeplockid | C_cons_r | C_uart_tx_r | C_disk_free

section \<open>Operations\<close>

text \<open>
  A kernel function runs on a state until one of four things happens: it returns, it
  calls \<open>panic\<close>, it calls \<open>swtch\<close>, or it spins for ever at this state. \<open>Swtch s k\<close> is
  the state at the call of \<open>swtch\<close> and the rest of the function, which runs from the
  state in which another thread switches back.
\<close>

datatype ('s, 'a) outcome = Ret 'a 's | Panic string | Swtch 's "'s \<Rightarrow> ('s, 'a) outcome" | Spin

type_synonym ('s, 'a) op = "'s \<Rightarrow> ('s, 'a) outcome"

definition ret :: "'a \<Rightarrow> ('s, 'a) op" where
  "ret a s = Ret a s"

definition panic :: "string \<Rightarrow> ('s, 'a) op" where
  "panic msg s = Panic msg"

definition spin :: "('s, 'a) op" where
  "spin s = Spin"

definition swtch :: "('s, unit) op" where
  "swtch s = Swtch s (Ret ())"

primrec andthen :: "('s, 'a) outcome \<Rightarrow> ('a \<Rightarrow> ('s, 'b) op) \<Rightarrow> ('s, 'b) outcome" where
  "andthen (Ret a s) f = f a s"
| "andthen (Panic e) f = Panic e"
| "andthen (Swtch s k) f = Swtch s (\<lambda>s'. andthen (k s') f)"
| "andthen Spin f = Spin"

definition bind :: "('s, 'a) op \<Rightarrow> ('a \<Rightarrow> ('s, 'b) op) \<Rightarrow> ('s, 'b) op" where
  "bind m f s = andthen (m s) f"

definition reads :: "('s \<Rightarrow> 'a) \<Rightarrow> ('s, 'a) op" where
  "reads f s = Ret (f s) s"

definition modify :: "('s \<Rightarrow> 's) \<Rightarrow> ('s, unit) op" where
  "modify f s = Ret () (f s)"

text \<open>
  Loops over a table: \<open>for_each\<close> runs the body on every element in order; \<open>for_first\<close>
  stops at the first element whose body returns a value (a \<open>break\<close> or an early
  \<open>return\<close> inside a C \<open>for\<close> loop) and returns None when the loop runs to its end.
\<close>

fun for_each :: "'i list \<Rightarrow> ('i \<Rightarrow> ('s, unit) op) \<Rightarrow> ('s, unit) op" where
  "for_each [] body = ret ()"
| "for_each (i # is) body = bind (body i) (\<lambda>_. for_each is body)"

fun for_first :: "'i list \<Rightarrow> ('i \<Rightarrow> ('s, 'a option) op) \<Rightarrow> ('s, 'a option) op" where
  "for_first [] body = ret None"
| "for_first (i # is) body =
     bind (body i) (\<lambda>r. case r of Some a \<Rightarrow> ret (Some a) | None \<Rightarrow> for_first is body)"

subsection \<open>Running an operation\<close>

named_theorems op_defs \<comment> \<open>the definitions of the operation combinators\<close>

declare ret_def [op_defs] panic_def [op_defs] spin_def [op_defs] swtch_def [op_defs]
  bind_def [op_defs] reads_def [op_defs] modify_def [op_defs]

lemma bind_ret_left [simp]: "bind (ret a) f = f a"
  by (rule ext) (simp add: op_defs)

lemma andthen_ret [simp]: "andthen m Ret = m" "andthen m ret = m"
  by (induction m) (simp_all add: ret_def)

lemma andthen_unit [simp]: "andthen m (\<lambda>_. Ret ()) = m" "andthen m (\<lambda>_. ret ()) = m"
  by (induction m) (simp_all add: ret_def)

lemma andthen_assoc: "andthen (andthen m f) g = andthen m (\<lambda>a s. andthen (f a s) g)"
  by (induction m) simp_all

lemma andthen_split:
  "P (andthen m f) \<longleftrightarrow>
     (\<forall>a s. m = Ret a s \<longrightarrow> P (f a s)) \<and> (\<forall>e. m = Panic e \<longrightarrow> P (Panic e)) \<and>
     (\<forall>s k. m = Swtch s k \<longrightarrow> P (Swtch s (\<lambda>s'. andthen (k s') f))) \<and> (m = Spin \<longrightarrow> P Spin)"
  by (cases m) simp_all

lemma andthen_RetD: "andthen m f = Ret b t \<Longrightarrow> \<exists>a s. m = Ret a s \<and> f a s = Ret b t"
  by (cases m) simp_all

lemma bind_RetD: "bind m f s = Ret b t \<Longrightarrow> \<exists>a u. m s = Ret a u \<and> f a u = Ret b t"
  by (simp add: bind_def andthen_RetD)

lemma bind_ret_right [simp]: "bind m ret = m"
  by (rule ext) (simp add: bind_def)

lemma bind_assoc: "bind (bind m f) g = bind m (\<lambda>a. bind (f a) g)"
  by (rule ext) (simp add: bind_def [abs_def] andthen_assoc)

lemma bind_panic [simp]: "bind (panic e) f = panic e"
  by (rule ext) (simp add: op_defs)

lemma for_first_append:
  "for_first (xs @ ys) body =
     bind (for_first xs body) (\<lambda>r. case r of Some a \<Rightarrow> ret (Some a) | None \<Rightarrow> for_first ys body)"
proof (induction xs)
  case Nil
  show ?case by simp
next
  case (Cons x xs)
  have "bind (case r of None \<Rightarrow> for_first xs body | Some a \<Rightarrow> ret (Some a))
          (\<lambda>r. case r of None \<Rightarrow> for_first ys body | Some a \<Rightarrow> ret (Some a))
        = (case r of None \<Rightarrow> for_first (xs @ ys) body | Some a \<Rightarrow> ret (Some a))" for r
    by (cases r) (simp_all add: Cons.IH)
  then show ?case by (simp add: bind_assoc)
qed

lemma case_option_ret [simp]:
  "(case r of None \<Rightarrow> ret None | Some a \<Rightarrow> ret (Some a)) = ret r"
  "case_option (ret None) (\<lambda>a. ret (Some a)) = ret"
  by (auto split: option.split)

lemma for_first_snoc:
  "for_first (xs @ [x]) body =
     bind (for_first xs body) (\<lambda>r. case r of Some a \<Rightarrow> ret (Some a) | None \<Rightarrow> body x)"
  by (simp add: for_first_append cong: option.case_cong)

lemma for_first_skip:
  "(\<And>x. x \<in> set xs \<Longrightarrow> body x s = Ret None s) \<Longrightarrow> for_first (xs @ ys) body s = for_first ys body s"
  by (induction xs) (simp_all add: bind_def)

lemma for_first_none:
  "(\<And>x. x \<in> set xs \<Longrightarrow> body x s = Ret None s) \<Longrightarrow> for_first xs body s = Ret None s"
  using for_first_skip[of xs body s "[]"] by (simp add: ret_def)

lemma for_first_hit:
  assumes "\<And>x. x \<in> set xs \<Longrightarrow> body x s = Ret None s" "body y s = Ret (Some a) t"
  shows "for_first (xs @ y # ys) body s = Ret (Some a) t"
  using for_first_skip[of xs body s "y # ys"] assms by (simp add: bind_def ret_def)

lemma for_each_append:
  "for_each (xs @ ys) body = bind (for_each xs body) (\<lambda>_. for_each ys body)"
  by (induction xs) (simp_all add: bind_assoc)

lemma for_each_snoc:
  "for_each (xs @ [x]) body = bind (for_each xs body) (\<lambda>_. body x)"
proof -
  have "bind (body x) (\<lambda>_. ret ()) = body x"
    by (rule ext) (simp add: bind_def)
  then show ?thesis by (simp add: for_each_append)
qed

subsection \<open>Weakest preconditions\<close>

text \<open>
  \<open>wp m Q s\<close>: from \<open>s\<close> the operation returns (it neither panics, nor spins, nor gives
  up the CPU) and its result and final state satisfy \<open>Q\<close>.
\<close>

definition wp :: "('s, 'a) op \<Rightarrow> ('a \<Rightarrow> 's \<Rightarrow> bool) \<Rightarrow> 's \<Rightarrow> bool" where
  "wp m Q s = (case m s of Ret a s' \<Rightarrow> Q a s' | _ \<Rightarrow> False)"

named_theorems wp_simps \<comment> \<open>weakest preconditions of operations, as rewrite rules\<close>

lemma wp_ret [wp_simps]: "wp (ret a) Q s = Q a s"
  by (simp add: wp_def op_defs)

lemma wp_panic [wp_simps]: "wp (panic e) Q s = False"
  by (simp add: wp_def op_defs)

lemma wp_bind [wp_simps]: "wp (bind m f) Q s = wp m (\<lambda>a. wp (f a) Q) s"
  by (cases "m s") (simp_all add: wp_def bind_def)

lemma wp_reads [wp_simps]: "wp (reads f) Q s = Q (f s) s"
  by (simp add: wp_def op_defs)

lemma wp_modify [wp_simps]: "wp (modify f) Q s = Q () (f s)"
  by (simp add: wp_def op_defs)

lemma wp_if [wp_simps]: "wp (if c then m else n) Q s = (if c then wp m Q s else wp n Q s)"
  by simp

lemma wp_mono: "wp m Q s \<Longrightarrow> (\<And>a s'. Q a s' \<Longrightarrow> R a s') \<Longrightarrow> wp m R s"
  by (auto simp: wp_def split: outcome.splits)

lemma wp_conjI: "wp m Q s \<Longrightarrow> wp m R s \<Longrightarrow> wp m (\<lambda>a s'. Q a s' \<and> R a s') s"
  by (auto simp: wp_def split: outcome.splits)

lemma wp_Ret: "wp m Q s \<longleftrightarrow> (\<exists>a s'. m s = Ret a s' \<and> Q a s')"
  by (auto simp: wp_def split: outcome.splits)

lemma wpI: "m s = Ret a s' \<Longrightarrow> Q a s' \<Longrightarrow> wp m Q s"
  by (simp add: wp_def)

lemma wp_RetD: "wp m Q s \<Longrightarrow> m s = Ret a s' \<Longrightarrow> Q a s'"
  by (simp add: wp_def)

lemma wp_bind_mono:
  "wp m Q s \<Longrightarrow> (\<And>a s'. Q a s' \<Longrightarrow> wp (f a) R s') \<Longrightarrow> wp (bind m f) R s"
  by (simp add: wp_bind) (erule wp_mono, simp)

text \<open>A loop over a table keeps an invariant indexed by the elements already visited.\<close>

lemma wp_for_each:
  assumes "I [] s"
    and "\<And>before i rest s'. xs = before @ i # rest \<Longrightarrow> I before s' \<Longrightarrow>
           wp (body i) (\<lambda>_. I (before @ [i])) s'"
    and "\<And>s'. I xs s' \<Longrightarrow> Q () s'"
  shows "wp (for_each xs body) Q s"
proof -
  have "xs = before @ rest \<Longrightarrow> I before s' \<Longrightarrow> wp (for_each rest body) (\<lambda>_. I xs) s'"
    for before rest s'
  proof (induction rest arbitrary: before s')
    case Nil
    then show ?case by (simp add: wp_simps)
  next
    case (Cons i rest)
    from assms(2)[OF Cons.prems] have "wp (body i) (\<lambda>_. I (before @ [i])) s'" .
    moreover have "I (before @ [i]) t \<Longrightarrow> wp (for_each rest body) (\<lambda>_. I xs) t" for t
      using Cons.IH[of "before @ [i]" t] Cons.prems(1) by simp
    ultimately show ?case by (auto simp: wp_bind elim: wp_mono)
  qed
  from this[of "[]" xs s] assms(1) have "wp (for_each xs body) (\<lambda>_. I xs) s" by simp
  then show ?thesis by (rule wp_mono) (simp add: assms(3))
qed

lemma bind_apply: "bind (modify g) k s = k () (g s)" "bind (reads h) l s = l (h s) s" "bind (ret a) l = l a"
  by (simp_all add: bind_def modify_def reads_def)

lemma bind_unit_RetD: "bind m k s = Ret b t \<Longrightarrow> \<exists>u. m s = Ret () u \<and> k () u = Ret b t"
  using bind_RetD[of m k s b t] by simp

subsection \<open>What operations keep\<close>

text \<open>\<open>keeps f m\<close>: when \<open>m\<close> returns, \<open>f\<close> of the state is as before.\<close>

definition keeps :: "('s \<Rightarrow> 'b) \<Rightarrow> ('s, 'a) op \<Rightarrow> bool" where
  "keeps f m \<longleftrightarrow> (\<forall>s a t. m s = Ret a t \<longrightarrow> f t = f s)"

named_theorems keeps_rules \<comment> \<open>what the operations keep\<close>

lemma keepsD: "keeps f m \<Longrightarrow> m s = Ret a t \<Longrightarrow> f t = f s"
  by (simp add: keeps_def)

lemma keeps_bind [keeps_rules]: "keeps f m \<Longrightarrow> (\<And>a. keeps f (k a)) \<Longrightarrow> keeps f (bind m k)"
  unfolding keeps_def bind_def by (metis andthen_RetD)

lemma keeps_basic [keeps_rules]:
  "keeps f (ret a)" "keeps f (panic e)" "keeps f spin" "keeps f swtch" "keeps f (reads g)"
  by (simp_all add: keeps_def op_defs)

lemma keeps_modify: "(\<And>s. f (g s) = f s) \<Longrightarrow> keeps f (modify g)"
  by (simp add: keeps_def modify_def)

lemma keeps_if [keeps_rules]: "(c \<Longrightarrow> keeps f m) \<Longrightarrow> (\<not> c \<Longrightarrow> keeps f n) \<Longrightarrow> keeps f (if c then m else n)"
  by simp

lemma keeps_option [keeps_rules]:
  "keeps f m \<Longrightarrow> (\<And>a. keeps f (k a)) \<Longrightarrow> keeps f (case r of None \<Rightarrow> m | Some a \<Rightarrow> k a)"
  by (cases r) simp_all

lemma keeps_for_each [keeps_rules]: "(\<And>i. keeps f (body i)) \<Longrightarrow> keeps f (for_each xs body)"
  by (induction xs) (auto intro: keeps_rules)

lemma keeps_for_first [keeps_rules]: "(\<And>i. keeps f (body i)) \<Longrightarrow> keeps f (for_first xs body)"
  by (induction xs) (auto intro!: keeps_rules)

section \<open>Words and byte-addressed memory\<close>

text \<open>
  Memory is a function from 64-bit addresses to bytes. A 64-bit load or store accesses
  eight consecutive bytes, least significant first, as RISC-V does.
\<close>

type_synonym memory = "addr \<Rightarrow> uchar"

definition load64 :: "memory \<Rightarrow> addr \<Rightarrow> uint64" where
  "load64 m a =
     ucast (m a) OR push_bit 8 (ucast (m (a + 1))) OR push_bit 16 (ucast (m (a + 2)))
     OR push_bit 24 (ucast (m (a + 3))) OR push_bit 32 (ucast (m (a + 4)))
     OR push_bit 40 (ucast (m (a + 5))) OR push_bit 48 (ucast (m (a + 6)))
     OR push_bit 56 (ucast (m (a + 7)))"

definition store64 :: "memory \<Rightarrow> addr \<Rightarrow> uint64 \<Rightarrow> memory" where
  "store64 m a v = (\<lambda>x. if x - a < 8 then ucast (drop_bit (8 * unat (x - a)) v) else m x)"

lemma bit_load64:
  "bit (load64 m a) n \<longleftrightarrow> n < 64 \<and> bit (m (a + of_nat (n div 8))) (n mod 8)"
proof (cases "n < 64")
  case True
  define q where "q = n div 8"
  define r where "r = n mod 8"
  have n: "n = 8 * q + r" and r: "r < 8" by (auto simp: q_def r_def)
  have q: "q < 8" using True by (auto simp: q_def)
  have lt8: "bit (x :: 8 word) k \<Longrightarrow> k < 8" for x k
    using bit_imp_le_length[of x k] by simp
  have "bit (load64 m a) (8 * q + r) = bit (m (a + of_nat q)) r"
    using q r lt8
    apply (simp only: less_Suc_eq numeral_nat less_nat_zero_code simp_thms)
    apply (elim disjE; auto simp: load64_def bit_or_iff bit_push_bit_iff bit_ucast_iff dest: lt8)
    done
  then show ?thesis using True unfolding q_def r_def by simp
next
  case False
  then show ?thesis using bit_imp_le_length[of "load64 m a" n] by auto
qed

lemma load64_store64_same [simp]: "load64 (store64 m a v) a = v"
proof (rule bit_eqI)
  fix n assume "possible_bit TYPE(64 word) n"
  then have n: "n < 64" by simp
  have "of_nat (n div 8) < (8 :: 64 word)"
    using n by (simp add: word_less_nat_alt unat_of_nat)
  moreover have "unat (of_nat (n div 8) :: 64 word) = n div 8"
    using n by (simp add: unat_of_nat)
  ultimately show "bit (load64 (store64 m a v) a) n = bit v n"
    using n by (simp add: bit_load64 store64_def bit_ucast_iff bit_drop_bit_eq)
qed

lemma load64_cong:
  assumes "\<And>i. i < 8 \<Longrightarrow> m (a + i) = m' (a + i)"
  shows "load64 m a = load64 m' a"
  using assms[of 0] assms[of 1] assms[of 2] assms[of 3] assms[of 4] assms[of 5]
    assms[of 6] assms[of 7]
  by (simp add: load64_def)

lemma load64_store64_disjoint:
  assumes "8 \<le> b - a" and "8 \<le> a - b"
  shows "load64 (store64 m a v) b = load64 m b"
proof (rule load64_cong)
  fix i :: "64 word" assume i: "i < 8"
  have "\<not> b + i - a < 8"
  proof
    assume "b + i - a < 8"
    then have lt: "(b - a) + i < 8" by (simp add: algebra_simps)
    have "a - b = - (b - a)" by simp
    with lt assms i show False by unat_arith
  qed
  then show "store64 m a v (b + i) = m (b + i)" by (simp add: store64_def)
qed

text \<open>Cells aligned to a power of two are disjoint.\<close>

lemma dvd_unat_diff:
  fixes a b :: "64 word"
  assumes "2 ^ k dvd unat a" "2 ^ k dvd unat b" "k \<le> 64"
  shows "2 ^ k dvd unat (a - b)"
proof -
  have "unat (a - b) = nat ((uint a - uint b) mod 2 ^ 64)"
    by (simp add: unat_eq_nat_uint uint_word_ariths(2))
  moreover have "(2::int) ^ k dvd uint a" "(2::int) ^ k dvd uint b"
    using assms(1,2) by (simp_all add: int_dvd_int_iff [symmetric])
  moreover have "(2::int) ^ k dvd 2 ^ 64" using assms(3) by (rule le_imp_power_dvd)
  ultimately have "int (2 ^ k) dvd int (unat (a - b))"
    by (simp add: dvd_mod)
  then show ?thesis by (simp only: int_dvd_int_iff)
qed

lemma unat_pow2:
  assumes "k < 64"
  shows "unat ((2 :: 64 word) ^ k) = 2 ^ k"
proof -
  have "(2::nat) ^ k < 2 ^ 64" using assms by (rule power_strict_increasing) simp
  then have "unat (of_nat (2 ^ k) :: 64 word) = 2 ^ k" by (simp add: unat_of_nat del: of_nat_power)
  then show ?thesis by simp
qed

lemma aligned_diff_ge:
  fixes a b :: "64 word"
  assumes "2 ^ k dvd unat a" "2 ^ k dvd unat b" "k < 64" "a \<noteq> b"
  shows "2 ^ k \<le> a - b"
proof -
  have "2 ^ k dvd unat (a - b)" using assms by (intro dvd_unat_diff) auto
  moreover have "unat (a - b) \<noteq> 0" using assms(4) by (simp add: unat_eq_0)
  ultimately have "2 ^ k \<le> unat (a - b)" by (auto dest: dvd_imp_le)
  then show ?thesis using assms(3) by (simp add: word_le_nat_alt unat_pow2)
qed

lemma load64_store64_other:
  assumes "8 dvd unat a" "8 dvd unat b" "a \<noteq> b"
  shows "load64 (store64 m a v) b = load64 m b"
  using aligned_diff_ge[of 3 a b] aligned_diff_ge[of 3 b a] assms
  by (intro load64_store64_disjoint) simp_all

lemma store64_outside: "8 \<le> x - a \<Longrightarrow> store64 m a v x = m x"
  by (auto simp: store64_def dest: leD)

text \<open>Offsets from an address, as natural numbers.\<close>

lemma eq_of_nat_iff:
  fixes y :: "64 word"
  shows "n < 2 ^ 64 \<Longrightarrow> y = of_nat n \<longleftrightarrow> unat y = n"
  by (auto simp: unat_of_nat)

lemma eq_plus_of_nat_iff:
  fixes x d :: "64 word"
  assumes "n < 2 ^ 64"
  shows "x = d + of_nat n \<longleftrightarrow> unat (x - d) = n"
proof -
  have "x = d + of_nat n \<longleftrightarrow> x - d = of_nat n" by (auto simp: algebra_simps)
  then show ?thesis using eq_of_nat_iff[OF assms] by simp
qed

lemma unat_sub_Suc:
  fixes x d :: "64 word"
  assumes "x \<noteq> d"
  shows "unat (x - d) = Suc (unat (x - (d + 1)))"
proof -
  have "x - d \<noteq> 0" using assms by simp
  then have "unat (x - d - 1) = unat (x - d) - 1" by (rule unat_minus_one)
  moreover have "unat (x - d) \<noteq> 0" using assms by (simp add: unat_eq_0)
  ultimately show ?thesis by (simp add: algebra_simps)
qed

lemma unat_minus_one_word: "unat (- 1 :: 64 word) = 2 ^ 64 - 1"
  by (simp add: unsigned_minus_1_eq_mask mask_eq_exp_minus_1)

lemma unat_sub_wrap:
  fixes a b :: "64 word"
  assumes "a < b"
  shows "unat (a - b) = 2 ^ 64 + unat a - unat b"
proof -
  have le: "unat a < unat b" "unat b < 2 ^ 64"
    using assms unsigned_less[of b] by (simp_all add: word_less_nat_alt)
  have "unat (a - b) + unat b = unat a + 2 ^ 64 \<or> unat (a - b) + unat b = unat a"
  proof -
    have "unat (a - b + b) = (unat (a - b) + unat b) mod 2 ^ 64"
      by (simp only: unat_word_ariths) simp
    then have "unat a = (unat (a - b) + unat b) mod 2 ^ 64" by simp
    moreover have "unat (a - b) < 2 ^ 64" using unsigned_less[of "a - b"] by simp
    ultimately show ?thesis using le by (auto simp: mod_if)
  qed
  then show ?thesis using le by auto
qed

lemma unat_add_nowrap:
  fixes a b :: uint64
  assumes "unat a + unat b < 2 ^ 64"
  shows "unat (a + b) = unat a + unat b"
  using assms by (simp add: unat_word_ariths)

lemma unat_base_offset:
  fixes a p :: uint64
  assumes "unat p + unat (a - p) < 2 ^ 64"
  shows "unat a = unat p + unat (a - p)"
  using unat_add_nowrap[OF assms] by simp

end
