(* ===== verification/RiscV.thy ===== *)
theory RiscV
  imports XV6_Prelude
begin

unbundle bit_operations_syntax

text \<open>
  The constants and macros of \<open>kernel/riscv.h\<close> and \<open>kernel/memlayout.h\<close>: page
  arithmetic, page-table entries, the three 9-bit indices of an Sv39 address, and the
  fixed places of the address space. The lemmas give their arithmetic meaning.
\<close>

section \<open>Pages\<close>

definition PGSIZE :: uint64 where
  "PGSIZE = 4096"

definition PGROUNDUP :: "uint64 \<Rightarrow> uint64" where
  "PGROUNDUP sz = (sz + PGSIZE - 1) AND NOT (PGSIZE - 1)"

definition PGROUNDDOWN :: "uint64 \<Rightarrow> uint64" where
  "PGROUNDDOWN a = a AND NOT (PGSIZE - 1)"

definition page_aligned :: "uint64 \<Rightarrow> bool" where
  "page_aligned a \<longleftrightarrow> a mod PGSIZE = 0"

section \<open>Page-table entries\<close>

definition PTE_V :: uint64 where "PTE_V = 1"
definition PTE_R :: uint64 where "PTE_R = 2"
definition PTE_W :: uint64 where "PTE_W = 4"
definition PTE_X :: uint64 where "PTE_X = 8"
definition PTE_U :: uint64 where "PTE_U = 16"

definition PA2PTE :: "uint64 \<Rightarrow> uint64" where
  "PA2PTE pa = push_bit 10 (drop_bit 12 pa)"

definition PTE2PA :: "uint64 \<Rightarrow> uint64" where
  "PTE2PA pte = push_bit 12 (drop_bit 10 pte)"

definition PTE_FLAGS :: "uint64 \<Rightarrow> uint64" where
  "PTE_FLAGS pte = pte AND 0x3FF"

definition PXSHIFT :: "nat \<Rightarrow> nat" where
  "PXSHIFT level = 12 + 9 * level"

definition PX :: "nat \<Rightarrow> uint64 \<Rightarrow> uint64" where
  "PX level va = drop_bit (PXSHIFT level) va AND 0x1FF"

definition MAXVA :: uint64 where
  "MAXVA = push_bit (9 + 9 + 9 + 12 - 1) 1"

definition SATP_SV39 :: uint64 where
  "SATP_SV39 = push_bit 60 8"

definition MAKE_SATP :: "uint64 \<Rightarrow> uint64" where
  "MAKE_SATP pagetable = SATP_SV39 OR drop_bit 12 pagetable"

section \<open>Memory layout\<close>

definition KERNBASE :: uint64 where "KERNBASE = 0x80000000"
definition PHYSTOP :: uint64 where "PHYSTOP = KERNBASE + 128 * 1024 * 1024"
definition UART0 :: uint64 where "UART0 = 0x10000000"
definition VIRTIO0 :: uint64 where "VIRTIO0 = 0x10001000"
definition CLINT :: uint64 where "CLINT = 0x2000000"
definition PLIC :: uint64 where "PLIC = 0x0c000000"
definition TRAMPOLINE :: uint64 where "TRAMPOLINE = MAXVA - PGSIZE"
definition TRAPFRAME :: uint64 where "TRAPFRAME = TRAMPOLINE - PGSIZE"

definition KSTACK :: "nat \<Rightarrow> uint64" where
  "KSTACK p = TRAMPOLINE - (of_nat p + 1) * 2 * PGSIZE"

named_theorems page_consts \<comment> \<open>the numeric constants of riscv.h and memlayout.h\<close>

declare PGSIZE_def [page_consts] PTE_V_def [page_consts] PTE_R_def [page_consts]
  PTE_W_def [page_consts] PTE_X_def [page_consts] PTE_U_def [page_consts]
  MAXVA_def [page_consts] KERNBASE_def [page_consts] PHYSTOP_def [page_consts]
  TRAMPOLINE_def [page_consts] TRAPFRAME_def [page_consts] SATP_SV39_def [page_consts]

section \<open>Page arithmetic\<close>

lemma take_bit_64_unat [simp]: "take_bit 64 (unat (a :: uint64)) = unat a"
proof -
  have "unat a < 2 ^ 64" using unsigned_less[of a] by simp
  then show ?thesis by (rule take_bit_nat_eq_self)
qed

lemma and_not_mask_unat:
  fixes a :: uint64
  shows "unat (a AND NOT (mask n)) = 2 ^ n * (unat a div 2 ^ n)"
proof -
  have "a AND NOT (mask n) = push_bit n (drop_bit n a)"
    by (rule bit_eqI) (auto simp: bit_and_iff bit_not_iff bit_mask_iff bit_push_bit_iff bit_drop_bit_eq)
  moreover have "unat (push_bit n (drop_bit n a)) = (2 ^ n * (unat a div 2 ^ n)) mod 2 ^ 64"
  proof -
    have "unat (push_bit n (drop_bit n a)) = take_bit 64 (push_bit n (drop_bit n (unat a)))"
      by (simp add: unsigned_push_bit_eq unsigned_drop_bit_eq)
    then show ?thesis
      by (simp add: push_bit_eq_mult drop_bit_eq_div take_bit_eq_mod mult.commute)
  qed
  moreover have "2 ^ n * (unat a div 2 ^ n) < 2 ^ 64"
  proof (rule le_less_trans)
    show "2 ^ n * (unat a div 2 ^ n) \<le> unat a" by simp
    show "unat a < 2 ^ 64" using unsigned_less[of a] by simp
  qed
  ultimately show ?thesis by (simp only: mod_less)
qed

lemma page_mask: "(PGSIZE - 1 :: uint64) = mask 12"
  by (simp add: PGSIZE_def mask_eq_exp_minus_1)

lemma unat_PGROUNDDOWN: "unat (PGROUNDDOWN a) = 4096 * (unat a div 4096)"
  using and_not_mask_unat[of a 12] by (simp add: PGROUNDDOWN_def page_mask)

lemma page_aligned_dvd: "page_aligned a \<longleftrightarrow> 4096 dvd unat a"
  by (simp add: page_aligned_def PGSIZE_def word_unat_eq_iff unat_mod mod_eq_0_iff_dvd)

lemma PGROUNDDOWN_aligned [simp]: "page_aligned (PGROUNDDOWN a)"
  by (simp add: page_aligned_dvd unat_PGROUNDDOWN)

lemma PGROUNDUP_aligned [simp]: "page_aligned (PGROUNDUP a)"
  using PGROUNDDOWN_aligned[of "a + PGSIZE - 1"] by (simp add: PGROUNDUP_def PGROUNDDOWN_def)

lemma PGROUNDDOWN_id [simp]: "page_aligned a \<Longrightarrow> PGROUNDDOWN a = a"
  by (auto simp: word_unat_eq_iff unat_PGROUNDDOWN page_aligned_dvd)

lemma PGROUNDDOWN_le: "PGROUNDDOWN a \<le> a"
  by (simp add: word_le_nat_alt unat_PGROUNDDOWN)

lemma PGROUNDDOWN_diff: "unat (a - PGROUNDDOWN a) = unat a mod 4096"
proof -
  have "unat (a - PGROUNDDOWN a) = unat a - unat (PGROUNDDOWN a)"
    by (rule unat_sub) (rule PGROUNDDOWN_le)
  then show ?thesis by (simp add: unat_PGROUNDDOWN minus_mult_div_eq_mod)
qed

text \<open>Rounding up is exact as long as it does not wrap at the top of the address space.\<close>

lemma unat_PGROUNDUP:
  assumes "unat a \<le> 2 ^ 64 - 4096"
  shows "unat (PGROUNDUP a) = 4096 * ((unat a + 4095) div 4096)"
proof -
  have "unat (a + PGSIZE - 1) = unat a + 4095"
  proof -
    have "a + PGSIZE - 1 = a + (PGSIZE - 1)" by (simp only: add_diff_eq)
    also have "\<dots> = a + 4095" by (simp add: PGSIZE_def)
    finally have eq: "a + PGSIZE - 1 = a + 4095" .
    have "unat (a + 4095) = unat a + unat (4095::uint64)"
      using assms by (subst unat_add_lem [symmetric]) simp
    then show ?thesis unfolding eq by simp
  qed
  then show ?thesis using and_not_mask_unat[of "a + PGSIZE - 1" 12]
    by (simp add: PGROUNDUP_def page_mask)
qed


section \<open>Entries and indices\<close>

text \<open>
  A page-table entry built from a page-aligned physical address and flag bits gives the
  address back, whatever the flags; and the flags back, whatever the address.
\<close>

lemma PTE_FLAGS_mask: "PTE_FLAGS pte = take_bit 10 pte"
proof -
  have "(0x3FF :: uint64) = mask 10" by (simp add: mask_eq_exp_minus_1)
  then show ?thesis by (simp add: PTE_FLAGS_def take_bit_eq_mask)
qed

lemma flags_high_bits: "PTE_FLAGS f = f \<Longrightarrow> 10 \<le> n \<Longrightarrow> \<not> bit f n"
  by (metis PTE_FLAGS_mask bit_take_bit_iff not_less)

lemma aligned_low_bits:
  assumes "page_aligned pa" "n < 12"
  shows "\<not> bit pa n"
proof -
  have "take_bit 12 pa = 0"
    using assms(1) by (simp add: page_aligned_def PGSIZE_def take_bit_eq_mod)
  then show ?thesis using assms(2) by (metis bit_take_bit_iff bit_0_eq bot_apply bot_bool_def)
qed

lemma PTE2PA_PA2PTE:
  assumes "page_aligned pa" "PTE_FLAGS f = f"
  shows "PTE2PA (PA2PTE pa OR f) = pa"
proof (rule bit_eqI)
  fix n assume "possible_bit TYPE(64 word) n"
  then have n: "n < 64" by simp
  have "\<not> bit f (10 + (n - 12))" using assms(2) by (intro flags_high_bits) auto
  moreover have "n < 12 \<Longrightarrow> \<not> bit pa n" using assms(1) by (intro aligned_low_bits)
  ultimately show "bit (PTE2PA (PA2PTE pa OR f)) n = bit pa n"
    using n by (cases "n < 12")
      (auto simp: PTE2PA_def PA2PTE_def bit_push_bit_iff bit_drop_bit_eq bit_or_iff)
qed

lemma PTE_FLAGS_PA2PTE: "PTE_FLAGS (PA2PTE pa OR f) = PTE_FLAGS f"
  by (rule bit_eqI)
    (auto simp: PTE_FLAGS_mask PA2PTE_def bit_take_bit_iff bit_or_iff bit_push_bit_iff)

lemma PTE_flag_test:
  assumes "PTE_FLAGS b = b"
  shows "(PA2PTE pa OR f) AND b = f AND b"
proof (rule bit_eqI)
  fix n assume "possible_bit TYPE(64 word) n"
  show "bit ((PA2PTE pa OR f) AND b) n = bit (f AND b) n"
    using flags_high_bits[OF assms, of n]
    by (cases "10 \<le> n") (auto simp: bit_and_iff bit_or_iff PA2PTE_def bit_push_bit_iff)
qed

lemma PTE2PA_aligned [simp]: "page_aligned (PTE2PA pte)"
proof -
  have "take_bit 12 (PTE2PA pte) = 0"
    by (rule bit_eqI) (auto simp: PTE2PA_def bit_take_bit_iff bit_push_bit_iff)
  then show ?thesis by (simp add: page_aligned_def PGSIZE_def take_bit_eq_mod)
qed

lemma PX_bound: "unat (PX level va) < 512"
proof -
  have "(0x1FF :: uint64) = mask 9" by (simp add: mask_eq_exp_minus_1)
  then have "PX level va = take_bit 9 (drop_bit (PXSHIFT level) va)"
    by (simp add: PX_def take_bit_eq_mask)
  then have "unat (PX level va) = take_bit 9 (unat (drop_bit (PXSHIFT level) va))"
    by (simp add: unsigned_take_bit_eq)
  also have "\<dots> < 2 ^ 9" by (rule take_bit_nat_less_exp)
  finally show ?thesis by simp
qed

lemma unat_PX: "unat (PX level va) = (unat va div 2 ^ (12 + 9 * level)) mod 512"
proof -
  have "(0x1FF :: uint64) = mask 9" by (simp add: mask_eq_exp_minus_1)
  then have "PX level va = take_bit 9 (drop_bit (PXSHIFT level) va)"
    by (simp add: PX_def take_bit_eq_mask)
  then have "unat (PX level va) = take_bit 9 (drop_bit (PXSHIFT level) (unat va))"
    by (simp add: unsigned_take_bit_eq unsigned_drop_bit_eq)
  then show ?thesis by (simp add: take_bit_eq_mod drop_bit_eq_div PXSHIFT_def)
qed

text \<open>
  The three indices and the page offset determine an address below \<open>MAXVA\<close>: two
  page-aligned addresses with the same indices are the same address.
\<close>

lemma unat_MAXVA: "unat MAXVA = 2 ^ 38"
  by (simp add: MAXVA_def push_bit_eq_mult)

lemma PX_inj:
  assumes "va < MAXVA" "vb < MAXVA" "page_aligned va" "page_aligned vb"
    and "PX 2 va = PX 2 vb" "PX 1 va = PX 1 vb" "PX 0 va = PX 0 vb"
  shows "va = vb"
proof -
  define a where "a = unat va"
  define b where "b = unat vb"
  have lt: "a < 2 ^ 38" "b < 2 ^ 38"
    using assms(1,2) unat_MAXVA by (simp_all add: word_less_nat_alt a_def b_def)
  have al: "a mod 4096 = 0" "b mod 4096 = 0"
    using assms(3,4) by (simp_all add: page_aligned_dvd a_def b_def)
  have px: "a div 2 ^ 30 mod 512 = b div 2 ^ 30 mod 512" "a div 2 ^ 21 mod 512 = b div 2 ^ 21 mod 512"
    "a div 2 ^ 12 mod 512 = b div 2 ^ 12 mod 512"
    using arg_cong[OF assms(5), of unat] arg_cong[OF assms(6), of unat]
      arg_cong[OF assms(7), of unat]
    by (simp_all add: unat_PX a_def b_def)
  define A where "A = a div 4096"
  define B where "B = b div 4096"
  have ab: "a = 4096 * A" "b = 4096 * B" using al by (auto simp: A_def B_def)
  have p0: "A mod 512 = B mod 512" using px(3) by (simp add: A_def B_def)
  have p1: "A div 512 mod 512 = B div 512 mod 512"
    using px(2) by (simp add: A_def B_def div_mult2_eq [symmetric])
  have p2: "A div 512 div 512 mod 512 = B div 512 div 512 mod 512"
    using px(1) by (simp add: A_def B_def div_mult2_eq [symmetric])
  have "A div 512 div 512 < 512" "B div 512 div 512 < 512" using lt ab by auto
  with p2 have "A div 512 div 512 = B div 512 div 512" by simp
  with p1 have "A div 512 = B div 512" by (metis div_mult_mod_eq)
  with p0 have "A = B" by (metis div_mult_mod_eq)
  then have "a = b" using ab by simp
  then show ?thesis by (simp add: a_def b_def word_unat_eq_iff)
qed

end
