(* ===== verification/Spinlock.thy ===== *)
theory Spinlock
  imports RiscV
begin

unbundle bit_operations_syntax

text \<open>
  The machine under the kernel and \<open>kernel/spinlock.c\<close>: physical memory, the control
  registers of each hart, the per-CPU structures and the spin locks. The code runs on
  the hart whose number is in the register \<open>tp\<close>; an interleaving of several harts is
  a sequence of steps, each made with some value of \<open>tp\<close>.
\<close>

section \<open>State\<close>

text \<open>\<open>struct context\<close> of \<open>kernel/proc.h\<close>: the registers that \<open>swtch\<close> saves.\<close>

record kcontext =
  ctx_ra :: uint64
  ctx_sp :: uint64
  ctx_s0 :: uint64
  ctx_s1 :: uint64
  ctx_s2 :: uint64
  ctx_s3 :: uint64
  ctx_s4 :: uint64
  ctx_s5 :: uint64
  ctx_s6 :: uint64
  ctx_s7 :: uint64
  ctx_s8 :: uint64
  ctx_s9 :: uint64
  ctx_s10 :: uint64
  ctx_s11 :: uint64

text \<open>\<open>struct cpu\<close>; a \<open>struct proc *\<close> is an index into the process table, None for 0.\<close>

record cpu =
  cpu_proc :: "nat option"
  cpu_context :: kcontext
  noff :: nat
  intena :: bool

text \<open>The supervisor control registers of a hart that the kernel reads and writes.\<close>

record hart =
  sstatus :: uint64
  sepc :: uint64
  scause :: uint64
  stval :: uint64
  stvec :: uint64
  sip :: uint64
  satp :: uint64

text \<open>\<open>struct spinlock\<close>, without its debugging name; \<open>lk_cpu\<close> is None for a null pointer.\<close>

record spinlock =
  locked :: bool
  lk_cpu :: "nat option"

text \<open>
  The machine: memory, the hart that executes, the harts' registers, \<open>cpus[]\<close>, the
  locks, and the addresses that the linker script provides (\<open>end\<close>, \<open>etext\<close>) or that
  assembly files define (\<open>trampoline\<close>).
\<close>

record machine =
  mem :: memory
  tp :: nat
  harts :: "nat \<Rightarrow> hart"
  cpus :: "nat \<Rightarrow> cpu"
  locks :: "lockid \<Rightarrow> spinlock"
  kend :: addr
  etext :: addr
  trampoline :: addr

section \<open>Control registers\<close>

definition SSTATUS_SPP :: uint64 where "SSTATUS_SPP = push_bit 8 1"
definition SSTATUS_SPIE :: uint64 where "SSTATUS_SPIE = push_bit 5 1"
definition SSTATUS_SIE :: uint64 where "SSTATUS_SIE = push_bit 1 1"

definition r_sstatus :: "('z machine_scheme, uint64) op" where
  "r_sstatus = reads (\<lambda>s. sstatus (harts s (tp s)))"

definition w_sstatus :: "uint64 \<Rightarrow> ('z machine_scheme, unit) op" where
  "w_sstatus x = modify (\<lambda>s. s\<lparr>harts := (harts s)(tp s := (harts s (tp s))\<lparr>sstatus := x\<rparr>)\<rparr>)"

definition intr_on :: "('z machine_scheme, unit) op" where
  "intr_on = bind r_sstatus (\<lambda>x. w_sstatus (x OR SSTATUS_SIE))"

definition intr_off :: "('z machine_scheme, unit) op" where
  "intr_off = bind r_sstatus (\<lambda>x. w_sstatus (x AND NOT SSTATUS_SIE))"

definition intr_get :: "('z machine_scheme, bool) op" where
  "intr_get = bind r_sstatus (\<lambda>x. ret (x AND SSTATUS_SIE \<noteq> 0))"

section \<open>Per-CPU data\<close>

definition cpuid :: "('z machine_scheme, nat) op" where
  "cpuid = reads tp"

definition mycpu :: "('z machine_scheme, cpu) op" where
  "mycpu = bind cpuid (\<lambda>id. reads (\<lambda>s. cpus s id))"

definition update_mycpu :: "(cpu \<Rightarrow> cpu) \<Rightarrow> ('z machine_scheme, unit) op" where
  "update_mycpu f = modify (\<lambda>s. s\<lparr>cpus := (cpus s)(tp s := f (cpus s (tp s)))\<rparr>)"

section \<open>push_off and pop_off\<close>

definition push_off :: "('z machine_scheme, unit) op" where
  "push_off =
     bind intr_get (\<lambda>old.
     bind intr_off (\<lambda>_.
     bind mycpu (\<lambda>c.
     bind (if noff c = 0 then update_mycpu (\<lambda>c. c\<lparr>intena := old\<rparr>) else ret ()) (\<lambda>_.
     update_mycpu (\<lambda>c. c\<lparr>noff := noff c + 1\<rparr>)))))"

definition pop_off :: "('z machine_scheme, unit) op" where
  "pop_off =
     bind intr_get (\<lambda>i.
     if i then panic ''pop_off - interruptible'' else
     bind mycpu (\<lambda>c.
     if noff c < 1 then panic ''pop_off'' else
     bind (update_mycpu (\<lambda>c. c\<lparr>noff := noff c - 1\<rparr>)) (\<lambda>_.
     bind mycpu (\<lambda>c.
     if noff c = 0 \<and> intena c then intr_on else ret ()))))"

section \<open>Spin locks\<close>

definition initlock :: "lockid \<Rightarrow> ('z machine_scheme, unit) op" where
  "initlock lk = modify (\<lambda>s. s\<lparr>locks := (locks s)(lk := \<lparr>locked = False, lk_cpu = None\<rparr>)\<rparr>)"

definition holding :: "lockid \<Rightarrow> ('z machine_scheme, bool) op" where
  "holding lk =
     bind cpuid (\<lambda>id. reads (\<lambda>s. locked (locks s lk) \<and> lk_cpu (locks s lk) = Some id))"

text \<open>
  \<open>__sync_lock_test_and_set(&lk->locked, 1)\<close> is one instruction: it reads the old value and
  stores the new one.
\<close>

definition test_and_set :: "lockid \<Rightarrow> ('z machine_scheme, bool) op" where
  "test_and_set lk s = Ret (locked (locks s lk)) (s\<lparr>locks := (locks s)(lk := (locks s lk)\<lparr>locked := True\<rparr>)\<rparr>)"

text \<open>
  \<open>acquire\<close> and \<open>release\<close> are lists of statements, between which other CPUs run. A statement
  returns whether it is executed again, which the condition of the \<open>while\<close> loop does as long as the
  lock was taken. A test of \<open>holding\<close> is one statement: no other CPU stores this CPU in \<open>lk->cpu\<close>.
\<close>

definition acquire_code :: "lockid \<Rightarrow> ('z machine_scheme, bool) op list" where
  "acquire_code lk =
     [bind push_off (\<lambda>_. ret False),
      bind (holding lk) (\<lambda>h. if h then panic ''acquire'' else ret False),
      test_and_set lk,
      bind (modify (\<lambda>s. s\<lparr>locks := (locks s)(lk := (locks s lk)\<lparr>lk_cpu := Some (tp s)\<rparr>)\<rparr>)) (\<lambda>_. ret False)]"

definition release_code :: "lockid \<Rightarrow> ('z machine_scheme, bool) op list" where
  "release_code lk =
     [bind (holding lk) (\<lambda>h. if \<not> h then panic ''release'' else ret False),
      bind (modify (\<lambda>s. s\<lparr>locks := (locks s)(lk := (locks s lk)\<lparr>lk_cpu := None\<rparr>)\<rparr>)) (\<lambda>_. ret False),
      bind (modify (\<lambda>s. s\<lparr>locks := (locks s)(lk := (locks s lk)\<lparr>locked := False\<rparr>)\<rparr>)) (\<lambda>_. ret False),
      bind pop_off (\<lambda>_. ret False)]"

text \<open>
  The statements run without another CPU in between. A statement that would be executed
  again can then only wait for a step of another CPU.
\<close>

primrec run_code :: "('s, bool) op list \<Rightarrow> ('s, unit) op" where
  "run_code [] = ret ()"
| "run_code (m # ms) = bind m (\<lambda>again. if again then spin else run_code ms)"

definition acquire :: "lockid \<Rightarrow> ('z machine_scheme, unit) op" where
  "acquire lk = run_code (acquire_code lk)"

definition release :: "lockid \<Rightarrow> ('z machine_scheme, unit) op" where
  "release lk = run_code (release_code lk)"

lemma bind_test_and_set:
  "bind (test_and_set lk) (\<lambda>again. if again then spin
        else modify (\<lambda>s. s\<lparr>locks := (locks s)(lk := (locks s lk)\<lparr>lk_cpu := Some (tp s)\<rparr>)\<rparr>))
      = bind (reads (\<lambda>s. locked (locks s lk))) (\<lambda>l. if l then spin else
          modify (\<lambda>s. s\<lparr>locks := (locks s)(lk := \<lparr>locked = True, lk_cpu = Some (tp s)\<rparr>)\<rparr>))"
proof -
  have q: "q\<lparr>locked := True, lk_cpu := c\<rparr> = \<lparr>locked = True, lk_cpu = c\<rparr>" for q :: spinlock and c by (cases q) simp
  show ?thesis by (rule ext) (simp add: bind_def test_and_set_def reads_def modify_def spin_def q)
qed

lemma acquire_unfold:
  "acquire lk =
     bind push_off (\<lambda>_.
     bind (holding lk) (\<lambda>h.
     if h then panic ''acquire'' else
     bind (reads (\<lambda>s. locked (locks s lk))) (\<lambda>l.
     if l then spin else
     modify (\<lambda>s. s\<lparr>locks := (locks s)(lk := \<lparr>locked = True, lk_cpu = Some (tp s)\<rparr>)\<rparr>))))"
  by (simp add: acquire_def acquire_code_def bind_assoc if_distrib[of "\<lambda>m. bind m f" for f]
      bind_test_and_set cong: if_cong)

lemma release_unfold:
  "release lk =
     bind (holding lk) (\<lambda>h.
     if \<not> h then panic ''release'' else
     bind (modify (\<lambda>s. s\<lparr>locks := (locks s)(lk := (locks s lk)\<lparr>lk_cpu := None\<rparr>)\<rparr>)) (\<lambda>_.
     bind (modify (\<lambda>s. s\<lparr>locks := (locks s)(lk := (locks s lk)\<lparr>locked := False\<rparr>)\<rparr>)) (\<lambda>_.
     pop_off)))"
  by (simp add: release_def release_code_def bind_assoc if_distrib[of "\<lambda>m. bind m f" for f] cong: if_cong)

text \<open>\<open>myproc\<close> of \<open>kernel/proc.c\<close>: the process running on this CPU.\<close>

definition myproc :: "('z machine_scheme, nat option) op" where
  "myproc =
     bind push_off (\<lambda>_.
     bind mycpu (\<lambda>c.
     bind pop_off (\<lambda>_.
     ret (cpu_proc c))))"

section \<open>The interrupt flag and the lock count\<close>

named_theorems lock_defs \<comment> \<open>definitions of the primitives of this theory\<close>

declare r_sstatus_def [lock_defs] w_sstatus_def [lock_defs] intr_on_def [lock_defs]
  intr_off_def [lock_defs] intr_get_def [lock_defs] cpuid_def [lock_defs] mycpu_def [lock_defs]
  update_mycpu_def [lock_defs] push_off_def [lock_defs] pop_off_def [lock_defs]
  holding_def [lock_defs] acquire_unfold [lock_defs] release_unfold [lock_defs]

definition free_lock :: spinlock where
  "free_lock = \<lparr>locked = False, lk_cpu = None\<rparr>"

definition held_lock :: "nat \<Rightarrow> spinlock" where
  "held_lock h = \<lparr>locked = True, lk_cpu = Some h\<rparr>"

definition intr_of :: "'z machine_scheme \<Rightarrow> bool" where
  "intr_of s \<longleftrightarrow> sstatus (harts s (tp s)) AND SSTATUS_SIE \<noteq> 0"

definition curproc :: "'z machine_scheme \<Rightarrow> nat option" where
  "curproc s = cpu_proc (cpus s (tp s))"

definition noff_of :: "'z machine_scheme \<Rightarrow> nat" where
  "noff_of s = noff (cpus s (tp s))"

text \<open>
  Between critical sections the interrupt bookkeeping of the executing CPU is settled:
  with no push in force \<open>intena\<close> records the interrupt flag, and with one in force
  interrupts are off.
\<close>

definition cpu_ok :: "'z machine_scheme \<Rightarrow> bool" where
  "cpu_ok s \<longleftrightarrow> (if noff_of s = 0 then intena (cpus s (tp s)) = intr_of s else \<not> intr_of s)"

lemma bit_SIE: "bit SSTATUS_SIE n \<longleftrightarrow> n = 1"
  by (auto simp: SSTATUS_SIE_def bit_2_iff)

lemma SIE_test: "(x::uint64) AND SSTATUS_SIE \<noteq> 0 \<longleftrightarrow> bit x (Suc 0)"
  by (auto simp: bit_eq_iff [of "x AND SSTATUS_SIE"] bit_and_iff bit_SIE)

lemma SIE_off: "\<not> bit x (Suc 0) \<Longrightarrow> (x::uint64) AND NOT SSTATUS_SIE = x"
  by (rule bit_eqI) (auto simp: bit_and_iff bit_not_iff bit_SIE)

lemma SIE_off_on: "bit x (Suc 0) \<Longrightarrow> ((x::uint64) AND NOT SSTATUS_SIE) OR SSTATUS_SIE = x"
  by (rule bit_eqI) (auto simp: bit_and_iff bit_or_iff bit_not_iff bit_SIE)

lemma SIE_bits: "\<not> bit (x AND NOT SSTATUS_SIE :: uint64) (Suc 0)" "bit (x OR SSTATUS_SIE :: uint64) (Suc 0)"
  by (auto simp: bit_and_iff bit_or_iff bit_not_iff bit_SIE)

text \<open>The effect of \<open>push_off\<close> and of a successful \<open>acquire\<close>, as state functions.\<close>

definition pushed :: "'z machine_scheme \<Rightarrow> 'z machine_scheme" where
  "pushed s = s\<lparr>harts := (harts s)(tp s := (harts s (tp s))
                   \<lparr>sstatus := sstatus (harts s (tp s)) AND NOT SSTATUS_SIE\<rparr>),
       cpus := (cpus s)(tp s := (cpus s (tp s))
                   \<lparr>intena := (if noff_of s = 0 then intr_of s else intena (cpus s (tp s))),
                    noff := noff_of s + 1\<rparr>)\<rparr>"

definition acq :: "lockid \<Rightarrow> 'z machine_scheme \<Rightarrow> 'z machine_scheme" where
  "acq lk s = (pushed s)\<lparr>locks := (locks s)(lk := held_lock (tp s))\<rparr>"

lemma push_off_eq: "push_off s = Ret () (pushed s)"
  by (simp add: lock_defs op_defs pushed_def noff_of_def intr_of_def)

lemma intena_id:
  "intena (cpus s (tp s)) = b \<Longrightarrow> s\<lparr>cpus := (cpus s)(tp s := (cpus s (tp s))\<lparr>intena := b\<rparr>)\<rparr> = s"
  by (erule subst) simp

lemma pop_off_pushed:
  assumes "cpu_ok s"
  shows "pop_off (pushed s) = Ret () s"
  using assms
  by (auto simp: lock_defs op_defs pushed_def cpu_ok_def intr_of_def SIE_test SIE_bits SIE_off
      SIE_off_on noff_of_def intena_id)

lemma acquire_eq: "locks s lk = free_lock \<Longrightarrow> acquire lk s = Ret () (acq lk s)"
proof -
  assume "locks s lk = free_lock"
  moreover have "tp (pushed s) = tp s" "locks (pushed s) = locks s" by (simp_all add: pushed_def)
  ultimately show ?thesis
    by (simp add: acquire_unfold holding_def cpuid_def op_defs push_off_eq acq_def free_lock_def
        held_lock_def)
qed

lemma release_acq:
  assumes "cpu_ok s" "locks s lk = free_lock"
  shows "release lk (acq lk s) = Ret () s"
proof -
  have tp: "tp (pushed s) = tp s" "locks (pushed s) = locks s" by (simp_all add: pushed_def)
  have "(pushed s)\<lparr>locks := (locks s)(lk := free_lock)\<rparr> = pushed s"
    using assms(2) tp(2) by (metis fun_upd_triv machine.surjective machine.update_convs(5))
  then show ?thesis using pop_off_pushed[OF assms(1)] tp
    by (simp add: release_unfold holding_def cpuid_def op_defs acq_def held_lock_def free_lock_def)
qed

lemma myproc_eq: "cpu_ok s \<Longrightarrow> myproc s = Ret (curproc s) s"
proof -
  assume "cpu_ok s"
  moreover have "cpu_proc (cpus (pushed s) (tp (pushed s))) = curproc s"
    by (simp add: pushed_def curproc_def)
  ultimately show ?thesis
    by (simp add: myproc_def mycpu_def cpuid_def op_defs push_off_eq pop_off_pushed)
qed

text \<open>
  A held lock shows in the lock table, in the lock count and in the interrupt flag, and
  in nothing else of the machine; updates of other fields commute with it. Components
  add their own fields to this collection.
\<close>

named_theorems acq_simps \<comment> \<open>state components seen through a held lock\<close>

lemma acq_fields [acq_simps, simp]:
  "mem (acq lk s) = mem s" "tp (acq lk s) = tp s" "kend (acq lk s) = kend s"
  "etext (acq lk s) = etext s" "trampoline (acq lk s) = trampoline s"
  "curproc (acq lk s) = curproc s" "machine.more (acq lk s) = machine.more s"
  "noff_of (acq lk s) = Suc (noff_of s)" "\<not> intr_of (acq lk s)" "cpu_ok (acq lk s)"
  "locks (acq lk s) = (locks s)(lk := held_lock (tp s))"
  using SIE_bits(1) SIE_test
  by (simp_all add: acq_def pushed_def curproc_def noff_of_def intr_of_def cpu_ok_def)

lemma acq_mem_update [acq_simps, simp]: "(acq lk s)\<lparr>mem := m\<rparr> = acq lk (s\<lparr>mem := m\<rparr>)"
  by (simp add: acq_def pushed_def noff_of_def intr_of_def)

lemma mem_update_frame [simp]:
  "cpu_ok (s\<lparr>mem := m\<rparr>) = cpu_ok s" "noff_of (s\<lparr>mem := m\<rparr>) = noff_of s"
  "intr_of (s\<lparr>mem := m\<rparr>) = intr_of s" "curproc (s\<lparr>mem := m\<rparr>) = curproc s"
  by (simp_all add: cpu_ok_def noff_of_def intr_of_def curproc_def)

lemma held_lock_neq_free [simp]: "held_lock h \<noteq> free_lock" "free_lock \<noteq> held_lock h"
  by (simp_all add: held_lock_def free_lock_def)

lemma held_lock_inj [simp]: "held_lock h = held_lock h' \<longleftrightarrow> h = h'"
  by (simp add: held_lock_def)

section \<open>Several harts\<close>

text \<open>
  What a hart is doing: running other code, or at a statement of \<open>acquire\<close> or \<open>release\<close>.
\<close>

datatype activity = Idle | Acquiring lockid nat | Releasing lockid nat

text \<open>
  The harts execute their statements in any order. \<open>H h\<close> is the set of locks that hart
  \<open>h\<close> has, as its code sees it: from the return of \<open>acquire\<close> to the call of \<open>release\<close>. A hart
  that panics makes no more steps.
\<close>

type_synonym 'z harts_state = "'z machine_scheme \<times> (nat \<Rightarrow> activity) \<times> (nat \<Rightarrow> lockid set)"

inductive lock_step :: "'z harts_state \<Rightarrow> 'z harts_state \<Rightarrow> bool" where
  call_acquire: "a h = Idle \<Longrightarrow> lock_step (s, a, H) (s, a(h := Acquiring lk 0), H)"
| step_acquire: "a h = Acquiring lk n \<Longrightarrow> n < length (acquire_code lk :: ('z machine_scheme, bool) op list) \<Longrightarrow>
    (acquire_code lk ! n) (s\<lparr>tp := h\<rparr>) = Ret again t \<Longrightarrow>
    lock_step (s, a, H) (t, a(h := Acquiring lk (if again then n else Suc n)), H)"
| return_acquire: "a h = Acquiring lk (length (acquire_code lk :: ('z machine_scheme, bool) op list)) \<Longrightarrow>
    lock_step (s, a, H) (s, a(h := Idle), H(h := insert lk (H h)))"
| call_release: "a h = Idle \<Longrightarrow> lk \<in> H h \<Longrightarrow> lock_step (s, a, H) (s, a(h := Releasing lk 0), H(h := H h - {lk}))"
| step_release: "a h = Releasing lk n \<Longrightarrow> n < length (release_code lk :: ('z machine_scheme, bool) op list) \<Longrightarrow>
    (release_code lk ! n) (s\<lparr>tp := h\<rparr>) = Ret again t \<Longrightarrow>
    lock_step (s, a, H) (t, a(h := Releasing lk (if again then n else Suc n)), H)"
| return_release: "a h = Releasing lk (length (release_code lk :: ('z machine_scheme, bool) op list)) \<Longrightarrow> lock_step (s, a, H) (s, a(h := Idle), H)"

definition locks_init :: "'z machine_scheme \<Rightarrow> bool" where
  "locks_init s \<longleftrightarrow> (\<forall>lk. locks s lk = free_lock) \<and> (\<forall>h. noff (cpus s h) = 0)"

inductive lock_reach :: "'z harts_state \<Rightarrow> bool" where
  reach_init: "locks_init s \<Longrightarrow> lock_reach (s, \<lambda>_. Idle, \<lambda>_. {})"
| reach_step: "lock_reach x \<Longrightarrow> lock_step x y \<Longrightarrow> lock_reach y"

definition hart_intr :: "'z machine_scheme \<Rightarrow> nat \<Rightarrow> bool" where
  "hart_intr s h \<longleftrightarrow> sstatus (harts s h) AND SSTATUS_SIE \<noteq> 0"

text \<open>
  A hart that does \<open>x\<close> and has the locks \<open>L\<close> has set \<open>lk->locked\<close> and not cleared it, or has stored
  itself in \<open>lk->cpu\<close> and not cleared it; and the pushes that \<open>L\<close> does not account for.
\<close>

definition past_swap :: "activity \<Rightarrow> lockid set \<Rightarrow> lockid \<Rightarrow> bool" where
  "past_swap x L lk \<longleftrightarrow> lk \<in> L \<or> x \<in> {Acquiring lk 3, Acquiring lk 4, Releasing lk 0, Releasing lk 1, Releasing lk 2}"

definition recorded :: "activity \<Rightarrow> lockid set \<Rightarrow> lockid \<Rightarrow> bool" where
  "recorded x L lk \<longleftrightarrow> lk \<in> L \<or> x \<in> {Acquiring lk 4, Releasing lk 0, Releasing lk 1}"

fun extra_push :: "activity \<Rightarrow> nat" where
  "extra_push Idle = 0"
| "extra_push (Acquiring lk n) = (if n = 0 then 0 else 1)"
| "extra_push (Releasing lk n) = (if n = 4 then 0 else 1)"

fun sane :: "activity \<Rightarrow> lockid set \<Rightarrow> bool" where
  "sane Idle L \<longleftrightarrow> True"
| "sane (Acquiring lk n) L \<longleftrightarrow> n \<le> 4 \<and> (2 \<le> n \<longrightarrow> lk \<notin> L)"
| "sane (Releasing lk n) L \<longleftrightarrow> n \<le> 4 \<and> lk \<notin> L"

definition locks_inv :: "'z harts_state \<Rightarrow> bool" where
  "locks_inv = (\<lambda>(s, a, H).
     (\<forall>lk h h'. past_swap (a h) (H h) lk \<longrightarrow> past_swap (a h') (H h') lk \<longrightarrow> h = h') \<and>
     (\<forall>lk. locked (locks s lk) \<longleftrightarrow> (\<exists>h. past_swap (a h) (H h) lk)) \<and>
     (\<forall>lk h. lk_cpu (locks s lk) = Some h \<longleftrightarrow> recorded (a h) (H h) lk) \<and>
     (\<forall>h. finite (H h) \<and> noff (cpus s h) = card (H h) + extra_push (a h) \<and> sane (a h) (H h)) \<and>
     (\<forall>h. 0 < noff (cpus s h) \<longrightarrow> \<not> hart_intr s h))"

lemma code_len [simp]: "length (acquire_code lk) = 4" "length (release_code lk) = 4"
  by (simp_all add: acquire_code_def release_code_def)

lemma less4_cases: "(n :: nat) < 4 \<Longrightarrow> n = 0 \<or> n = 1 \<or> n = 2 \<or> n = 3"
  by linarith

text \<open>The effect of each statement.\<close>

lemma acquire_stmts:
  "(acquire_code lk ! 0) s = Ret False (pushed s)"
  "(acquire_code lk ! 1) s = (if locked (locks s lk) \<and> lk_cpu (locks s lk) = Some (tp s) then Panic ''acquire'' else Ret False s)"
  "(acquire_code lk ! 2) s = Ret (locked (locks s lk)) (s\<lparr>locks := (locks s)(lk := (locks s lk)\<lparr>locked := True\<rparr>)\<rparr>)"
  "(acquire_code lk ! 3) s = Ret False (s\<lparr>locks := (locks s)(lk := (locks s lk)\<lparr>lk_cpu := Some (tp s)\<rparr>)\<rparr>)"
  by (simp_all add: acquire_code_def bind_def push_off_eq holding_def cpuid_def op_defs test_and_set_def numeral_eq_Suc)

definition popped :: "'z machine_scheme \<Rightarrow> 'z machine_scheme" where
  "popped s = (let t = s\<lparr>cpus := (cpus s)(tp s := (cpus s (tp s))\<lparr>noff := noff_of s - 1\<rparr>)\<rparr> in
     if noff_of s = 1 \<and> intena (cpus s (tp s)) then
       t\<lparr>harts := (harts s)(tp s := (harts s (tp s))\<lparr>sstatus := sstatus (harts s (tp s)) OR SSTATUS_SIE\<rparr>)\<rparr> else t)"

lemma pop_off_eq: "pop_off s = (if intr_of s then Panic ''pop_off - interruptible'' else if noff_of s < 1 then Panic ''pop_off''
    else Ret () (popped s))"
  by (simp add: lock_defs op_defs popped_def noff_of_def intr_of_def Let_def)

lemma release_stmts:
  "(release_code lk ! 0) s = (if locked (locks s lk) \<and> lk_cpu (locks s lk) = Some (tp s) then Ret False s else Panic ''release'')"
  "(release_code lk ! 1) s = Ret False (s\<lparr>locks := (locks s)(lk := (locks s lk)\<lparr>lk_cpu := None\<rparr>)\<rparr>)"
  "(release_code lk ! 2) s = Ret False (s\<lparr>locks := (locks s)(lk := (locks s lk)\<lparr>locked := False\<rparr>)\<rparr>)"
  "(release_code lk ! 3) s = (if intr_of s then Panic ''pop_off - interruptible'' else if noff_of s < 1 then Panic ''pop_off''
     else Ret False (popped s))"
  by (simp_all add: release_code_def bind_def pop_off_eq holding_def cpuid_def op_defs numeral_eq_Suc)

lemma recorded_past: "recorded x L lk \<Longrightarrow> past_swap x L lk"
  by (auto simp: recorded_def past_swap_def)

text \<open>A step of hart \<open>h\<close> keeps the invariant when it changes its own part only.\<close>

lemma locks_inv_move:
  assumes inv: "locks_inv (s, a, H)" and x: "finite L" "sane x L"
    and p: "\<And>lk. past_swap x L lk \<Longrightarrow> past_swap (a h) (H h) lk \<or> \<not> locked (locks s lk)"
    and l: "\<And>lk. locked (locks t lk) = (if past_swap x L lk = past_swap (a h) (H h) lk then locked (locks s lk) else past_swap x L lk)"
    and c: "\<And>lk. lk_cpu (locks t lk) = (if recorded x L lk = recorded (a h) (H h) lk then lk_cpu (locks s lk)
       else if recorded x L lk then Some h else None)"
    and n: "noff (cpus t h) = card L + extra_push x" "\<And>g. g \<noteq> h \<Longrightarrow> noff (cpus t g) = noff (cpus s g)"
    and i: "0 < noff (cpus t h) \<Longrightarrow> \<not> hart_intr t h" "\<And>g. g \<noteq> h \<Longrightarrow> hart_intr t g = hart_intr s g"
  shows "locks_inv (t, a(h := x), H(h := L))"
proof -
  let ?a = "a(h := x)" and ?H = "H(h := L)"
  note I = inv[unfolded locks_inv_def prod.case]
  note one = I[THEN conjunct1, rule_format]
  note lk = I[THEN conjunct2, THEN conjunct1, rule_format]
  note rc = I[THEN conjunct2, THEN conjunct2, THEN conjunct1, rule_format]
  note own = I[THEN conjunct2, THEN conjunct2, THEN conjunct2, THEN conjunct1, rule_format]
  note off = I[THEN conjunct2, THEN conjunct2, THEN conjunct2, THEN conjunct2, rule_format]
  have fresh: "past_swap x L lk \<Longrightarrow> g \<noteq> h \<Longrightarrow> \<not> past_swap (a g) (H g) lk" for lk g
    using p[of lk] one[of h lk g] lk[of lk] by blast
  have "\<forall>lk g g'. past_swap (?a g) (?H g) lk \<longrightarrow> past_swap (?a g') (?H g') lk \<longrightarrow> g = g'"
  proof (intro allI impI)
    fix lk' g g' assume "past_swap (?a g) (?H g) lk'" "past_swap (?a g') (?H g') lk'"
    then show "g = g'" using one[of g lk' g'] fresh[of lk' g] fresh[of lk' g'] by (cases "g = h"; cases "g' = h") simp_all
  qed
  moreover have "\<forall>lk. locked (locks t lk) \<longleftrightarrow> (\<exists>g. past_swap (?a g) (?H g) lk)"
  proof
    fix lk'
    define E where "E \<longleftrightarrow> (\<exists>g. g \<noteq> h \<and> past_swap (a g) (H g) lk')"
    have "locked (locks s lk') \<longleftrightarrow> past_swap (a h) (H h) lk' \<or> E" unfolding E_def lk by metis
    moreover have "past_swap (a h) (H h) lk' \<Longrightarrow> \<not> E" unfolding E_def using one[of h lk'] by blast
    ultimately have "locked (locks t lk') \<longleftrightarrow> past_swap x L lk' \<or> E" unfolding l[of lk'] by argo
    then show "locked (locks t lk') \<longleftrightarrow> (\<exists>g. past_swap (?a g) (?H g) lk')" unfolding E_def by auto
  qed
  moreover have "\<forall>lk g. lk_cpu (locks t lk) = Some g \<longleftrightarrow> recorded (?a g) (?H g) lk"
  proof (intro allI)
    fix lk' g
    have "recorded (a g) (H g) lk' \<Longrightarrow> g \<noteq> h \<Longrightarrow> \<not> recorded x L lk' \<and> \<not> recorded (a h) (H h) lk'"
      using fresh[of lk' g] recorded_past one[of h lk' g] by blast
    then show "lk_cpu (locks t lk') = Some g \<longleftrightarrow> recorded (?a g) (?H g) lk'"
      unfolding c using rc[of lk' g] by (cases "g = h") auto
  qed
  moreover have "\<forall>g. finite (?H g) \<and> noff (cpus t g) = card (?H g) + extra_push (?a g) \<and> sane (?a g) (?H g)"
    using own x n by simp
  moreover have "\<forall>g. 0 < noff (cpus t g) \<longrightarrow> \<not> hart_intr t g" using off n(2) i by metis
  ultimately show ?thesis unfolding locks_inv_def prod.case by (intro conjI)
qed

lemma pushed_hart:
  "locks (pushed (s\<lparr>tp := h\<rparr>)) = locks s"
  "noff (cpus (pushed (s\<lparr>tp := h\<rparr>)) g) = (if g = h then Suc (noff (cpus s h)) else noff (cpus s g))"
  "hart_intr (pushed (s\<lparr>tp := h\<rparr>)) g = (g \<noteq> h \<and> hart_intr s g)"
  using SIE_bits(1) SIE_test by (auto simp: pushed_def noff_of_def hart_intr_def)

lemma popped_hart:
  "locks (popped (s\<lparr>tp := h\<rparr>)) = locks s"
  "noff (cpus (popped (s\<lparr>tp := h\<rparr>)) g) = (if g = h then noff (cpus s h) - 1 else noff (cpus s g))"
  "g \<noteq> h \<or> 1 < noff (cpus s h) \<Longrightarrow> hart_intr (popped (s\<lparr>tp := h\<rparr>)) g = hart_intr s g"
  by (auto simp: popped_def noff_of_def hart_intr_def Let_def)

lemma locks_inv_hart:
  assumes "locks_inv (s, a, H)"
  shows "finite (H h)" "noff (cpus s h) = card (H h) + extra_push (a h)" "sane (a h) (H h)"
    "0 < noff (cpus s h) \<Longrightarrow> \<not> hart_intr s h" "past_swap (a h) (H h) lk \<Longrightarrow> locked (locks s lk)"
    "lk_cpu (locks s lk) = Some h \<longleftrightarrow> recorded (a h) (H h) lk"
  using assms unfolding locks_inv_def by auto

lemma locks_inv_acquire:
  assumes inv: "locks_inv (s, a, H)" and ah: "a h = Acquiring lk n" "n < 4"
    and step: "(acquire_code lk ! n) (s\<lparr>tp := h\<rparr>) = Ret again t"
  shows "locks_inv (t, a(h := Acquiring lk (if again then n else Suc n)), H(h := H h))"
proof -
  note i = locks_inv_hart[OF inv, where h = h]
  consider "n = 0" | "n = 1" | "n = 2" | "n = 3" using ah(2) by linarith
  then show ?thesis
  proof cases
    case 1
    then have t: "again = False" "t = pushed (s\<lparr>tp := h\<rparr>)" using step by (simp_all add: acquire_stmts)
    show ?thesis using i(1-4) ah 1 unfolding t
      by (intro locks_inv_move[OF inv]) (auto simp: pushed_hart past_swap_def recorded_def)
  next
    case 2
    then have t: "again = False" "t = s\<lparr>tp := h\<rparr>" "\<not> (locked (locks s lk) \<and> lk_cpu (locks s lk) = Some h)"
      using step acquire_stmts(2)[of lk "s\<lparr>tp := h\<rparr>"] by (auto split: if_splits)
    have "lk \<notin> H h"
    proof
      assume "lk \<in> H h"
      then have "past_swap (a h) (H h) lk" "recorded (a h) (H h) lk" by (simp_all add: past_swap_def recorded_def)
      then show False using i(5,6)[where lk = lk] t(3) by blast
    qed
    then show ?thesis using i(1-4) ah 2 unfolding t
      by (intro locks_inv_move[OF inv]) (auto simp: past_swap_def recorded_def hart_intr_def)
  next
    case 3
    then have t: "again = locked (locks s lk)" "t = s\<lparr>tp := h, locks := (locks s)(lk := (locks s lk)\<lparr>locked := True\<rparr>)\<rparr>"
      using step by (simp_all add: acquire_stmts)
    show ?thesis using i(1-4) ah 3 unfolding t
      by (intro locks_inv_move[OF inv]) (auto simp: past_swap_def recorded_def hart_intr_def)
  next
    case 4
    then have t: "again = False" "t = s\<lparr>tp := h, locks := (locks s)(lk := (locks s lk)\<lparr>lk_cpu := Some h\<rparr>)\<rparr>"
      using step by (simp_all add: acquire_stmts)
    show ?thesis using i(1-4) ah 4 unfolding t
      by (intro locks_inv_move[OF inv]) (auto simp: past_swap_def recorded_def hart_intr_def)
  qed
qed

lemma locks_inv_release:
  assumes inv: "locks_inv (s, a, H)" and ah: "a h = Releasing lk n" "n < 4"
    and step: "(release_code lk ! n) (s\<lparr>tp := h\<rparr>) = Ret again t"
  shows "locks_inv (t, a(h := Releasing lk (if again then n else Suc n)), H(h := H h))"
proof -
  note i = locks_inv_hart[OF inv, where h = h]
  consider "n = 0" | "n = 1" | "n = 2" | "n = 3" using ah(2) by linarith
  then show ?thesis
  proof cases
    case 1
    then have t: "again = False" "t = s\<lparr>tp := h\<rparr>" using step by (auto simp: release_stmts split: if_splits)
    show ?thesis using i(1-4) ah 1 unfolding t
      by (intro locks_inv_move[OF inv]) (auto simp: past_swap_def recorded_def hart_intr_def)
  next
    case 2
    then have t: "again = False" "t = s\<lparr>tp := h, locks := (locks s)(lk := (locks s lk)\<lparr>lk_cpu := None\<rparr>)\<rparr>"
      using step release_stmts(2)[of lk "s\<lparr>tp := h\<rparr>"] by auto
    show ?thesis using i(1-4) ah 2 unfolding t
      by (intro locks_inv_move[OF inv]) (auto simp: past_swap_def recorded_def hart_intr_def)
  next
    case 3
    then have t: "again = False" "t = s\<lparr>tp := h, locks := (locks s)(lk := (locks s lk)\<lparr>locked := False\<rparr>)\<rparr>"
      using step by (simp_all add: release_stmts)
    show ?thesis using i(1-4) ah 3 unfolding t
      by (intro locks_inv_move[OF inv]) (auto simp: past_swap_def recorded_def hart_intr_def)
  next
    case 4
    then have t: "again = False" "t = popped (s\<lparr>tp := h\<rparr>)" using step by (auto simp: release_stmts split: if_splits)
    show ?thesis using i(1-4) ah 4 unfolding t
      by (intro locks_inv_move[OF inv]) (auto simp: popped_hart past_swap_def recorded_def)
  qed
qed

lemma locks_inv_step: "lock_step x y \<Longrightarrow> locks_inv x \<Longrightarrow> locks_inv y"
proof (induction rule: lock_step.induct)
  case (call_acquire a h s H lk)
  from locks_inv_move[OF call_acquire(2), of "H h" "Acquiring lk 0" h s] show ?case
    using locks_inv_hart(1-4)[OF call_acquire(2), of h] call_acquire(1) by (simp add: past_swap_def recorded_def)
next
  case (step_acquire a h lk n s again t H)
  then show ?case using locks_inv_acquire[of s a H h lk n again t] by simp
next
  case (return_acquire a h lk s H)
  note i = locks_inv_hart(1-4)[OF return_acquire(2), of h]
  show ?case using i return_acquire(1)
    by (intro locks_inv_move[OF return_acquire(2)]) (auto simp: past_swap_def recorded_def)
next
  case (call_release a h lk H s)
  note i = locks_inv_hart(1-4)[OF call_release(3), of h]
  have "0 < card (H h)" using i(1) call_release(2) by (auto simp: card_gt_0_iff)
  then show ?case using i call_release(1,2)
    by (intro locks_inv_move[OF call_release(3)]) (auto simp: past_swap_def recorded_def)
next
  case (step_release a h lk n s again t H)
  then show ?case using locks_inv_release[of s a H h lk n again t] by simp
next
  case (return_release a h lk s H)
  from locks_inv_move[OF return_release(2), of "H h" Idle h s] show ?case
    using locks_inv_hart(1-4)[OF return_release(2), of h] return_release(1) by (simp add: past_swap_def recorded_def)
qed

lemma lock_reach_inv: "lock_reach x \<Longrightarrow> locks_inv x"
proof (induction rule: lock_reach.induct)
  case (reach_init s)
  then show ?case by (simp add: locks_inv_def locks_init_def past_swap_def recorded_def free_lock_def)
qed (rule locks_inv_step)

lemma acquire_RetD:
  assumes "acquire lk s = Ret () t"
  shows "\<not> locked (locks s lk) \<and> t = acq lk s"
proof -
  have p: "tp (pushed s) = tp s" "locks (pushed s) = locks s" by (simp_all add: pushed_def)
  show ?thesis using assms
    by (auto simp: acquire_unfold holding_def cpuid_def op_defs push_off_eq acq_def held_lock_def p
        split: if_splits)
qed

lemma release_RetD:
  assumes "release lk s = Ret () t"
  shows "locks s lk = held_lock (tp s)"
    and "locks t = (locks s)(lk := free_lock)"
    and "cpus t = (cpus s)(tp s := (cpus s (tp s))\<lparr>noff := noff_of s - 1\<rparr>)"
    and "h \<noteq> tp s \<Longrightarrow> harts t h = harts s h" and "0 < noff_of s"
    and "1 < noff_of s \<Longrightarrow> harts t (tp s) = harts s (tp s)"
  using assms
  by (auto simp: release_unfold holding_def cpuid_def op_defs pop_off_def intr_get_def r_sstatus_def
      mycpu_def update_mycpu_def intr_on_def w_sstatus_def held_lock_def free_lock_def noff_of_def
      split: if_splits)


text \<open>
  C1. Mutual exclusion of spin locks. The harts execute the statements of \<open>acquire\<close> and
  \<open>release\<close> in any order, the swap being one step. In every state they reach no two harts are
  between the return of \<open>acquire(lk)\<close> and the call of \<open>release(lk)\<close>; a hart that is there is the one
  recorded in the lock and has interrupts off; a second hart that executes the swap meanwhile
  stays in its loop, and the same hart panics when it acquires the lock again. A hart that
  releases a lock it has never panics, one that releases another lock does. The lock count
  of a hart is the number of its locks, and one more while it waits in \<open>acquire\<close>.
\<close>

theorem spinlock_mutual_exclusion:
  assumes "lock_reach (s, a, H)"
  shows "(lk \<in> H h \<and> lk \<in> H h' \<longrightarrow> h = h')
    \<and> (lk \<in> H h \<longrightarrow> locks s lk = held_lock h \<and> \<not> hart_intr s h)
    \<and> (lk \<in> H h \<and> a h' = Acquiring lk 2 \<longrightarrow> h' \<noteq> h \<and> (\<exists>t. (acquire_code lk ! 2) (s\<lparr>tp := h'\<rparr>) = Ret True t))
    \<and> (lk \<in> H h \<and> a h = Acquiring lk 1 \<longrightarrow> (acquire_code lk ! 1) (s\<lparr>tp := h\<rparr>) = Panic ''acquire'')
    \<and> (\<forall>n<4. a h = Releasing lk n \<longrightarrow> (\<exists>t. (release_code lk ! n) (s\<lparr>tp := h\<rparr>) = Ret False t))
    \<and> (a h = Idle \<and> lk \<notin> H h \<longrightarrow> release lk (s\<lparr>tp := h\<rparr>) = Panic ''release'')
    \<and> (a h = Idle \<longrightarrow> noff (cpus s h) = card (H h))
    \<and> (\<forall>n. a h = Acquiring lk n \<longrightarrow> noff (cpus s h) = card (H h) + (if n = 0 then 0 else 1))"
proof -
  note inv = lock_reach_inv[OF assms]
  note i = locks_inv_hart[OF inv]
  have past: "past_swap (a g) (H g) lk" "recorded (a g) (H g) lk" if "lk \<in> H g" for g
    using that by (simp_all add: past_swap_def recorded_def)
  have held: "locks s lk = held_lock g" if "past_swap (a g) (H g) lk" "recorded (a g) (H g) lk" for g
    using i(5)[OF that(1)] i(6)[of lk g] that(2) by (cases "locks s lk") (simp add: held_lock_def)
  have one: "lk \<in> H h \<and> lk \<in> H h' \<longrightarrow> h = h'" 
    using past(1)[of h] past(1)[of h'] inv[unfolded locks_inv_def prod.case, THEN conjunct1, rule_format, of h lk h'] by blast
  have off: "\<not> hart_intr s g" if "lk \<in> H g" for g
  proof -
    have "0 < card (H g)" using i(1)[of g] that by (auto simp: card_gt_0_iff)
    then show ?thesis using i(2,4)[of g] by simp
  qed
  have waits: "h' \<noteq> h \<and> (\<exists>t. (acquire_code lk ! 2) (s\<lparr>tp := h'\<rparr>) = Ret True t)" if "lk \<in> H h" "a h' = Acquiring lk 2"
    using i(3)[of h'] that i(5)[OF past(1)[OF that(1)]] by (auto simp: acquire_stmts)
  have rel: "\<exists>t. (release_code lk ! n) (s\<lparr>tp := h\<rparr>) = Ret False t" if r: "n < 4" "a h = Releasing lk n" for n
  proof -
    have "noff (cpus s h) = card (H h) + 1" "\<not> hart_intr s h" using i(2,4)[of h] r by simp_all
    then have p: "\<not> intr_of (s\<lparr>tp := h\<rparr>)" "\<not> noff_of (s\<lparr>tp := h\<rparr>) < 1"
      by (simp_all add: intr_of_def hart_intr_def noff_of_def)
    have "locks s lk = held_lock h" if "n = 0" using r that by (intro held) (simp_all add: past_swap_def recorded_def)
    moreover have "n = 0 \<or> n = 1 \<or> n = 2 \<or> n = 3" using r(1) by (rule less4_cases)
    ultimately show ?thesis
      using p release_stmts(2)[of lk "s\<lparr>tp := h\<rparr>"] by (auto simp: release_stmts held_lock_def)
  qed
  have "release lk (s\<lparr>tp := h\<rparr>) = Panic ''release''" if "a h = Idle" "lk \<notin> H h"
  proof -
    have "\<not> recorded (a h) (H h) lk" using that by (simp add: recorded_def)
    then show ?thesis using i(6)[of lk h] by (simp add: release_unfold holding_def cpuid_def op_defs)
  qed
  moreover have "(acquire_code lk ! 1) (s\<lparr>tp := h\<rparr>) = Panic ''acquire''" if "lk \<in> H h"
    using held[OF past[OF that]] acquire_stmts(2)[of lk "s\<lparr>tp := h\<rparr>"] by (simp add: held_lock_def)
  ultimately show ?thesis using one off waits rel held past i(2)[of h] by simp
qed

section \<open>Nesting\<close>

lemma pushes_eq: "for_each [0..<n] (\<lambda>_. push_off) s = Ret () ((pushed ^^ n) s)"
proof (induction n)
  case 0
  show ?case by (simp add: op_defs)
next
  case (Suc n)
  then show ?case by (simp add: for_each_snoc bind_def push_off_eq)
qed

lemma pushed_ok: "cpu_ok (pushed s)" "\<not> intr_of (pushed s)" "noff_of (pushed s) = Suc (noff_of s)"
  using SIE_bits(1) SIE_test by (simp_all add: cpu_ok_def noff_of_def pushed_def intr_of_def)

text \<open>The state with the interrupt flag saved, as the outermost \<open>push_off\<close> leaves it behind.\<close>

definition saved :: "'z machine_scheme \<Rightarrow> 'z machine_scheme" where
  "saved s = s\<lparr>cpus := (cpus s)(tp s := (cpus s (tp s))
     \<lparr>intena := (if noff_of s = 0 then intr_of s else intena (cpus s (tp s)))\<rparr>)\<rparr>"

lemma saved_ok [simp]: "noff_of (saved s) = noff_of s" "intr_of (saved s) = intr_of s"
  by (simp_all add: saved_def noff_of_def intr_of_def)

lemma pop_off_saved:
  assumes "noff_of s = 0 \<or> \<not> intr_of s"
  shows "pop_off (pushed s) = Ret () (saved s)"
  using assms
  by (auto simp: lock_defs op_defs pushed_def saved_def intr_of_def SIE_test SIE_bits SIE_off SIE_off_on noff_of_def)

lemma pops_eq:
  assumes "noff_of s = 0 \<or> \<not> intr_of s"
  shows "k \<le> n \<Longrightarrow> for_each [0..<k] (\<lambda>_. pop_off) ((pushed ^^ n) s) =
    Ret () (if k < n \<or> n = 0 then (pushed ^^ (n - k)) s else saved s)"
proof (induction k)
  case 0
  then show ?case by (cases n) (simp_all add: op_defs)
next
  case (Suc k)
  have "(pushed ^^ (n - k)) s = pushed ((pushed ^^ (n - Suc k)) s)"
    using Suc.prems by (metis Suc_diff_le comp_apply diff_Suc_Suc funpow.simps(2))
  moreover have "pop_off (pushed ((pushed ^^ (n - Suc k)) s)) = Ret () (if Suc k < n then (pushed ^^ (n - Suc k)) s else saved s)"
  proof (cases "Suc k < n")
    case True
    then obtain m where "n - Suc k = Suc m" by (cases "n - Suc k") auto
    then show ?thesis using True pop_off_pushed[OF pushed_ok(1), of "(pushed ^^ m) s"] by simp
  qed (use Suc.prems pop_off_saved[OF assms] in simp)
  ultimately show ?case using Suc by (simp add: for_each_snoc bind_def)
qed

text \<open>
  C2. \<open>push_off\<close> and \<open>pop_off\<close> are matched. From a state without a push in force, whatever
  \<open>intena\<close> holds, or with interrupts off: after \<open>n\<close> pushes \<open>k \<le> n\<close> pops succeed; while pushes are left
  interrupts stay off; and with the last pop the interrupt flag is what it was before
  the first push, and nothing but \<open>intena\<close> has changed. With no push in force a further pop panics.
\<close>

theorem push_pop_matched:
  assumes "noff_of s = 0 \<or> \<not> intr_of s"
  shows "(k \<le> n \<longrightarrow> (\<exists>t. bind (for_each [0..<n] (\<lambda>_. push_off)) (\<lambda>_. for_each [0..<k] (\<lambda>_. pop_off)) s = Ret () t
      \<and> noff_of t = noff_of s + (n - k) \<and> intr_of t = (k = n \<and> intr_of s)
      \<and> (k = n \<longrightarrow> (\<exists>b. t = s\<lparr>cpus := (cpus s)(tp s := (cpus s (tp s))\<lparr>intena := b\<rparr>)\<rparr>))))
    \<and> (noff_of s = 0 \<longrightarrow> (\<exists>e. bind (for_each [0..<n] (\<lambda>_. push_off)) (\<lambda>_. for_each [0..<Suc n] (\<lambda>_. pop_off)) s = Panic e))"
proof (intro conjI impI)
  let ?t = "\<lambda>k. if k < n \<or> n = 0 then (pushed ^^ (n - k)) s else saved s"
  have run: "bind (for_each [0..<n] (\<lambda>_. push_off)) (\<lambda>_. for_each [0..<k] (\<lambda>_. pop_off)) s = Ret () (?t k)" if "k \<le> n" for k
    using pushes_eq[of n s] pops_eq[OF assms that] by (simp add: bind_def)
  have cnt: "noff_of ((pushed ^^ j) s) = noff_of s + j" for j by (induction j) (simp_all add: pushed_ok)
  assume k: "k \<le> n"
  have "intr_of (?t k) = (k = n \<and> intr_of s)" using k pushed_ok(2) by (cases "n - k") auto
  moreover have "\<exists>b. ?t k = s\<lparr>cpus := (cpus s)(tp s := (cpus s (tp s))\<lparr>intena := b\<rparr>)\<rparr>" if "k = n"
  proof (cases "n = 0")
    case True
    then show ?thesis using that intena_id[of s "intena (cpus s (tp s))"]
      by (intro exI[of _ "intena (cpus s (tp s))"]) simp
  next
    case False
    then have "?t k = saved s" using that by simp
    then show ?thesis unfolding saved_def by blast
  qed
  ultimately show "\<exists>t. bind (for_each [0..<n] (\<lambda>_. push_off)) (\<lambda>_. for_each [0..<k] (\<lambda>_. pop_off)) s = Ret () t
      \<and> noff_of t = noff_of s + (n - k) \<and> intr_of t = (k = n \<and> intr_of s)
      \<and> (k = n \<longrightarrow> (\<exists>b. t = s\<lparr>cpus := (cpus s)(tp s := (cpus s (tp s))\<lparr>intena := b\<rparr>)\<rparr>))"
    using run[OF k] cnt[of "n - k"] k by (intro exI[of _ "?t k"]) auto
next
  assume z: "noff_of s = 0"
  have "\<exists>e. pop_off t = Panic e" if "noff_of t = 0" for t :: "'a machine_scheme" using that by (simp add: pop_off_eq)
  moreover have "noff_of (if n = 0 then s else saved s) = 0" using z by simp
  ultimately have "\<exists>e. pop_off (if n = 0 then s else saved s) = Panic e" by blast
  then show "\<exists>e. bind (for_each [0..<n] (\<lambda>_. push_off)) (\<lambda>_. for_each [0..<Suc n] (\<lambda>_. pop_off)) s = Panic e"
    using pushes_eq[of n s] pops_eq[OF assms, of n n] by (auto simp: for_each_snoc bind_def split: if_splits)
qed


text \<open>A concrete machine to run the definitions on: hart 0, interrupts on, no lock held.\<close>

definition cpu0 :: cpu where
  "cpu0 = \<lparr>cpu_proc = None,
     cpu_context = \<lparr>ctx_ra = 0, ctx_sp = 0, ctx_s0 = 0, ctx_s1 = 0, ctx_s2 = 0, ctx_s3 = 0,
       ctx_s4 = 0, ctx_s5 = 0, ctx_s6 = 0, ctx_s7 = 0, ctx_s8 = 0, ctx_s9 = 0, ctx_s10 = 0,
       ctx_s11 = 0\<rparr>,
     noff = 0, intena = True\<rparr>"

definition hart0 :: hart where
  "hart0 = \<lparr>sstatus = SSTATUS_SIE, sepc = 0, scause = 0, stval = 0, stvec = 0, sip = 0, satp = 0\<rparr>"

definition machine0 :: machine where
  "machine0 = \<lparr>mem = (\<lambda>_. 0), tp = 0, harts = (\<lambda>_. hart0), cpus = (\<lambda>_. cpu0),
     locks = (\<lambda>_. free_lock), kend = KERNBASE + 0x20000, etext = KERNBASE + 0x8000,
     trampoline = KERNBASE + 0x7000\<rparr>"

lemma machine0_ok: "cpu_ok machine0" "locks_init machine0" "locks machine0 lk = free_lock"
  by (simp_all add: cpu_ok_def noff_of_def intr_of_def locks_init_def machine0_def cpu0_def
      hart0_def SSTATUS_SIE_def)


text \<open>The statements of \<open>acquire\<close> in a row, without a step of another hart.\<close>

lemma reach_acquire:
  assumes "lock_reach (s, a, H)" "a h = Acquiring lk n" "n < 4" "(acquire_code lk ! n) (s\<lparr>tp := h\<rparr>) = Ret False t"
  shows "lock_reach (t, a(h := Acquiring lk (Suc n)), H)"
proof (rule reach_step[OF assms(1)])
  show "lock_step (s, a, H) (t, a(h := Acquiring lk (Suc n)), H)"
    using step_acquire[where a = a and h = h and again = False, OF assms(2) _ assms(4)] assms(3) by simp
qed

lemma acquire_alone:
  assumes "lock_reach (s, a, H)" "a h = Idle" "locks s lk = free_lock"
  shows "lock_reach (acq lk (s\<lparr>tp := h\<rparr>), a, H(h := insert lk (H h)))"
proof -
  let ?p = "pushed (s\<lparr>tp := h\<rparr>)"
  let ?w = "?p\<lparr>locks := (locks ?p)(lk := (locks ?p lk)\<lparr>locked := True\<rparr>)\<rparr>"
  let ?a = "\<lambda>n. a(h := Acquiring lk n)"
  have l: "locks ?p = locks s" "tp ?p = h" by (simp_all add: pushed_def)
  have tp: "?p\<lparr>tp := h\<rparr> = ?p" "?w\<lparr>tp := h\<rparr> = ?w" by (simp_all add: pushed_def)
  have fin: "acq lk (s\<lparr>tp := h\<rparr>) = ?w\<lparr>locks := (locks ?w)(lk := (locks ?w lk)\<lparr>lk_cpu := Some (tp ?w)\<rparr>)\<rparr>"
    using assms(3) l by (simp add: acq_def held_lock_def free_lock_def)
  have "lock_reach (s, ?a 0, H)" by (rule reach_step[OF assms(1)], rule call_acquire) (rule assms(2))
  then have "lock_reach (?p, (?a 0)(h := Acquiring lk (Suc 0)), H)"
    by (rule reach_acquire) (simp_all add: acquire_stmts)
  then have 1: "lock_reach (?p, ?a 1, H)" by simp
  have c: "(acquire_code lk ! 1) (?p\<lparr>tp := h\<rparr>) = Ret False ?p" "(acquire_code lk ! 2) (?p\<lparr>tp := h\<rparr>) = Ret False ?w"
    "(acquire_code lk ! 3) (?w\<lparr>tp := h\<rparr>) = Ret False (acq lk (s\<lparr>tp := h\<rparr>))"
    unfolding tp fin acquire_stmts using assms(3) l by (simp_all add: free_lock_def)
  have "lock_reach (?p, (?a 1)(h := Acquiring lk (Suc 1)), H)" by (rule reach_acquire[OF 1 _ _ c(1)]) simp_all
  then have 2: "lock_reach (?p, ?a 2, H)" by (simp add: numeral_2_eq_2)
  have "lock_reach (?w, (?a 2)(h := Acquiring lk (Suc 2)), H)" by (rule reach_acquire[OF 2 _ _ c(2)]) simp_all
  then have 3: "lock_reach (?w, ?a 3, H)" by (simp add: numeral_3_eq_3)
  have "lock_reach (acq lk (s\<lparr>tp := h\<rparr>), (?a 3)(h := Acquiring lk (Suc 3)), H)" by (rule reach_acquire[OF 3 _ _ c(3)]) simp_all
  then have r: "lock_reach (acq lk (s\<lparr>tp := h\<rparr>), ?a 4, H)" by simp
  have "(?a 4)(h := Idle) = a" using assms(2) by auto
  moreover have "lock_step (acq lk (s\<lparr>tp := h\<rparr>), ?a 4, H) (acq lk (s\<lparr>tp := h\<rparr>), (?a 4)(h := Idle), H(h := insert lk (H h)))"
    by (rule return_acquire) simp
  ultimately show ?thesis using reach_step[OF r] by metis
qed

theorem spinlock_mutual_exclusion_witness:
  "\<exists>(s :: machine) a H t. lock_reach (s, a, H) \<and> L_kmem \<in> H 0 \<and> locks s L_kmem = held_lock 0 \<and> a 1 = Acquiring L_kmem 2
     \<and> (acquire_code L_kmem ! 2) (s\<lparr>tp := 1\<rparr>) = Ret True t \<and> noff (cpus s 0) = 1 \<and> noff (cpus s 1) = 1"
proof -
  let ?s = "acq L_kmem (machine0\<lparr>tp := 0\<rparr>)" and ?H = "(\<lambda>_. {})(0 := {L_kmem})"
  have 1: "lock_reach (?s, \<lambda>_. Idle, ?H)"
    using acquire_alone[OF reach_init[OF machine0_ok(2)], where h = 0 and lk = L_kmem] machine0_ok(3) by simp
  let ?p = "pushed (?s\<lparr>tp := 1\<rparr>)"
  have p: "?p\<lparr>tp := 1\<rparr> = ?p" "locks ?p = locks ?s" "tp ?p = 1" by (simp_all add: pushed_def)
  let ?a = "\<lambda>n. (\<lambda>_. Idle)(1 := Acquiring L_kmem n)"
  have "lock_reach (?s, ?a 0, ?H)" by (rule reach_step[OF 1], rule call_acquire) (rule refl)
  then have "lock_reach (?p, (?a 0)(1 := Acquiring L_kmem (Suc 0)), ?H)" by (rule reach_acquire) (simp_all add: acquire_stmts)
  then have 2: "lock_reach (?p, ?a 1, ?H)" by simp
  have c: "(acquire_code L_kmem ! 1) (?p\<lparr>tp := 1\<rparr>) = Ret False ?p"
    unfolding p(1) acquire_stmts using p(2,3) by (simp add: held_lock_def)
  have "lock_reach (?p, (?a 1)(1 := Acquiring L_kmem (Suc 1)), ?H)" by (rule reach_acquire[OF 2 _ _ c]) simp_all
  then have 4: "lock_reach (?p, ?a 2, ?H)" by (simp add: numeral_2_eq_2)
  from spinlock_mutual_exclusion[OF 4, where lk = L_kmem and h = 0 and h' = 1] spinlock_mutual_exclusion[OF 4, where lk = L_kmem and h = 1 and h' = 1]
  show ?thesis using 4 by - (rule exI[of _ ?p], rule exI[of _ "(\<lambda>_. Idle)(1 := Acquiring L_kmem 2)"], rule exI[of _ ?H], auto)
qed

theorem push_pop_matched_witness:
  "\<exists>t e. bind (for_each [0..<2] (\<lambda>_. push_off)) (\<lambda>_. for_each [0..<2] (\<lambda>_. pop_off))
      (machine0\<lparr>cpus := (\<lambda>_. cpu0\<lparr>intena := False\<rparr>)\<rparr>) = Ret () t \<and> intr_of t
    \<and> bind (for_each [0..<2] (\<lambda>_. push_off)) (\<lambda>_. for_each [0..<Suc 2] (\<lambda>_. pop_off)) machine0 = Panic e"
proof -
  let ?m = "machine0\<lparr>cpus := (\<lambda>_. cpu0\<lparr>intena := False\<rparr>)\<rparr>"
  have "intr_of ?m" "noff_of ?m = 0" "noff_of machine0 = 0"
    by (simp_all add: intr_of_def noff_of_def machine0_def hart0_def cpu0_def SSTATUS_SIE_def)
  then show ?thesis using push_pop_matched[of ?m 2 2] push_pop_matched[of machine0 2 2] by auto
qed

end
