(* ===== verification/CString.thy ===== *)
theory CString
  imports XV6_Prelude
begin

unbundle bit_operations_syntax

text \<open>
  \<open>kernel/string.c\<close>. The routines that may see overlapping regions (\<open>memset\<close>,
  \<open>memmove\<close>) act on memory; the others act on the arrays their pointers point into.
  \<open>char\<close> is unsigned on RISC-V. A count argument is a natural number: the callers'
  counts are below \<open>2 ^ 31\<close>, where the C \<open>int\<close> and \<open>uint\<close> counters agree with it.
\<close>

section \<open>The routines\<close>

text \<open>\<open>for (i = 0; i < n; i++) cdst[i] = c\<close>: the last of n iterations writes at n - 1.\<close>

fun memset :: "memory \<Rightarrow> addr \<Rightarrow> uchar \<Rightarrow> nat \<Rightarrow> memory" where
  "memset m dst c 0 = m"
| "memset m dst c (Suc n) = (memset m dst c n)(dst + of_nat n := c)"

fun memcmp :: "cstr \<Rightarrow> cstr \<Rightarrow> nat \<Rightarrow> int" where
  "memcmp s1 s2 0 = 0"
| "memcmp s1 s2 (Suc n) =
     (if s1 0 \<noteq> s2 0 then uint (s1 0) - uint (s2 0)
      else memcmp (\<lambda>i. s1 (Suc i)) (\<lambda>i. s2 (Suc i)) n)"

fun memmove_fwd :: "memory \<Rightarrow> addr \<Rightarrow> addr \<Rightarrow> nat \<Rightarrow> memory" where
  "memmove_fwd m d s 0 = m"
| "memmove_fwd m d s (Suc n) = memmove_fwd (m(d := m s)) (d + 1) (s + 1) n"

fun memmove_bwd :: "memory \<Rightarrow> addr \<Rightarrow> addr \<Rightarrow> nat \<Rightarrow> memory" where
  "memmove_bwd m d s 0 = m"
| "memmove_bwd m d s (Suc n) = memmove_bwd (m(d - 1 := m (s - 1))) (d - 1) (s - 1) n"

definition memmove :: "memory \<Rightarrow> addr \<Rightarrow> addr \<Rightarrow> nat \<Rightarrow> memory" where
  "memmove m dst src n =
     (if src < dst \<and> src + of_nat n > dst
      then memmove_bwd m (dst + of_nat n) (src + of_nat n) n
      else memmove_fwd m dst src n)"

fun strncmp :: "cstr \<Rightarrow> cstr \<Rightarrow> nat \<Rightarrow> int" where
  "strncmp p q 0 = 0"
| "strncmp p q (Suc n) =
     (if p 0 \<noteq> 0 \<and> p 0 = q 0 then strncmp (\<lambda>i. p (Suc i)) (\<lambda>i. q (Suc i)) n
      else uint (p 0) - uint (q 0))"

text \<open>
  \<open>strncpy\<close> and \<open>safestrcpy\<close> at position \<open>i\<close> of both strings with \<open>n\<close> characters of
  room left. After copying a NUL, \<open>strncpy\<close> fills the rest with zeros; \<open>safestrcpy\<close>
  stops and stores one more NUL, and always leaves room for it.
\<close>

fun zero_fill :: "cstr \<Rightarrow> nat \<Rightarrow> nat \<Rightarrow> cstr" where
  "zero_fill d i 0 = d"
| "zero_fill d i (Suc n) = zero_fill (d(i := 0)) (Suc i) n"

fun strncpy_from :: "cstr \<Rightarrow> cstr \<Rightarrow> nat \<Rightarrow> nat \<Rightarrow> cstr" where
  "strncpy_from d t i 0 = d"
| "strncpy_from d t i (Suc n) =
     (if t i \<noteq> 0 then strncpy_from (d(i := t i)) t (Suc i) n
      else zero_fill (d(i := t i)) (Suc i) n)"

definition strncpy :: "cstr \<Rightarrow> cstr \<Rightarrow> nat \<Rightarrow> cstr" where
  "strncpy s t n = strncpy_from s t 0 n"

fun safestrcpy_from :: "cstr \<Rightarrow> cstr \<Rightarrow> nat \<Rightarrow> nat \<Rightarrow> cstr" where
  "safestrcpy_from d t i 0 = d(i := 0)"
| "safestrcpy_from d t i (Suc n) =
     (if t i \<noteq> 0 then safestrcpy_from (d(i := t i)) t (Suc i) n
      else (d(i := t i))(Suc i := 0))"

definition safestrcpy :: "cstr \<Rightarrow> cstr \<Rightarrow> nat \<Rightarrow> cstr" where
  "safestrcpy s t n = (if n = 0 then s else safestrcpy_from s t 0 (n - 1))"

text \<open>\<open>strlen\<close> runs off the array when there is no NUL: it may not return.\<close>

partial_function (option) strlen_from :: "cstr \<Rightarrow> nat \<Rightarrow> nat option" where
  "strlen_from s n = (if s n = 0 then Some n else strlen_from s (Suc n))"

definition strlen :: "cstr \<Rightarrow> nat option" where
  "strlen s = strlen_from s 0"

section \<open>Filling and copying memory\<close>

lemma memset_apply:
  assumes "n \<le> 2 ^ 64"
  shows "memset m dst c n x = (if unat (x - dst) < n then c else m x)"
  using assms
proof (induction n)
  case 0
  then show ?case by simp
next
  case (Suc n)
  then have "x = dst + of_nat n \<longleftrightarrow> unat (x - dst) = n"
    by (intro eq_plus_of_nat_iff) simp
  with Suc show ?case by (auto simp: less_Suc_eq)
qed

text \<open>What a copy should do: \<open>n\<close> bytes from \<open>s\<close> appear at \<open>d\<close>, nothing else changes.\<close>

definition copied :: "memory \<Rightarrow> addr \<Rightarrow> addr \<Rightarrow> nat \<Rightarrow> memory" where
  "copied m d s n = (\<lambda>x. if unat (x - d) < n then m (s + (x - d)) else m x)"

lemma memmove_fwd_copied:
  assumes "d = s \<or> n \<le> unat (d - s)" "n \<le> 2 ^ 64"
  shows "memmove_fwd m d s n = copied m d s n"
  using assms
proof (induction n arbitrary: m d s)
  case 0
  then show ?case by (simp add: copied_def)
next
  case (Suc n)
  have IH: "memmove_fwd (m(d := m s)) (d + 1) (s + 1) n = copied (m(d := m s)) (d + 1) (s + 1) n"
    using Suc.prems by (intro Suc.IH) auto
  show ?case
  proof (rule ext)
    fix x
    show "memmove_fwd m d s (Suc n) x = copied m d s (Suc n) x"
    proof (cases "x = d")
      case True
      have "\<not> unat (d - (d + 1)) < n" using Suc.prems(2) by (simp add: unat_minus_one_word)
      then show ?thesis using True IH by (simp add: copied_def)
    next
      case False
      have step: "unat (x - d) = Suc (unat (x - (d + 1)))"
        using False by (intro unat_sub_Suc)
      have "s + (x - d) \<noteq> d" if "unat (x - d) < Suc n"
      proof
        assume "s + (x - d) = d"
        then have "x - d = d - s" by (simp add: algebra_simps)
        with that Suc.prems(1) False show False by auto
      qed
      then show ?thesis using False IH step by (auto simp: copied_def algebra_simps)
    qed
  qed
qed

lemma memmove_bwd_copied:
  assumes "d = s \<or> n \<le> unat (s - d)" "n \<le> 2 ^ 64"
  shows "memmove_bwd m (d + of_nat n) (s + of_nat n) n = copied m d s n"
  using assms
proof (induction n arbitrary: m)
  case 0
  then show ?case by (simp add: copied_def)
next
  case (Suc n)
  let ?m = "m(d + of_nat n := m (s + of_nat n))"
  have "memmove_bwd ?m (d + of_nat n) (s + of_nat n) n = copied ?m d s n"
    using Suc.prems by (intro Suc.IH) auto
  then have IH: "memmove_bwd m (d + of_nat (Suc n)) (s + of_nat (Suc n)) (Suc n) = copied ?m d s n"
    by (simp add: algebra_simps)
  have n: "n < 2 ^ 64" using Suc.prems by simp
  show ?case
  proof (rule ext)
    fix x
    have at: "x = d + of_nat n \<longleftrightarrow> unat (x - d) = n" using n by (rule eq_plus_of_nat_iff)
    have src: "s + (x - d) \<noteq> d + of_nat n" if "unat (x - d) < n"
    proof
      assume eq: "s + (x - d) = d + of_nat n"
      show False
      proof (cases "d = s")
        case True
        with eq at that show False by (simp add: algebra_simps)
      next
        case False
        then have "Suc n \<le> unat (s - d)" using Suc.prems by simp
        moreover have "s - d = of_nat (n - unat (x - d))"
          using eq that by (simp add: of_nat_diff algebra_simps)
        ultimately show False using n by (simp add: unat_of_nat)
      qed
    qed
    show "memmove_bwd m (d + of_nat (Suc n)) (s + of_nat (Suc n)) (Suc n) x = copied m d s (Suc n) x"
      unfolding IH using at src by (auto simp: copied_def less_Suc_eq)
  qed
qed

text \<open>
  \<open>memmove\<close> copies correctly whether or not the regions overlap, when neither region
  wraps around the end of the address space.
\<close>

lemma memmove_copied:
  assumes "unat dst + n \<le> 2 ^ 64" "unat src + n < 2 ^ 64"
  shows "memmove m dst src n = copied m dst src n"
proof (cases "src < dst \<and> src + of_nat n > dst")
  case True
  then have lt: "unat src < unat dst" by (simp add: word_less_nat_alt)
  have "n \<le> unat (src - dst)"
  proof -
    have "unat (src - dst) = 2 ^ 64 + unat src - unat dst"
      using True by (intro unat_sub_wrap) simp
    then show ?thesis using assms by simp
  qed
  then have "memmove_bwd m (dst + of_nat n) (src + of_nat n) n = copied m dst src n"
    using assms by (intro memmove_bwd_copied) auto
  with True show ?thesis by (simp add: memmove_def)
next
  case False
  have "dst = src \<or> n \<le> unat (dst - src)"
  proof (cases "src \<le> dst")
    case True
    then have d: "unat (dst - src) = unat dst - unat src" by (rule unat_sub)
    have "unat (src + of_nat n) = unat src + n"
      using assms(2) by (simp add: unat_word_ariths unat_of_nat)
    moreover have "dst = src \<or> \<not> dst < src + of_nat n" using False True by (auto simp: order_le_less)
    ultimately have "dst = src \<or> unat src + n \<le> unat dst" by (metis word_less_nat_alt not_less)
    with d show ?thesis by auto
  next
    case False
    then have "unat (dst - src) = 2 ^ 64 + unat dst - unat src" by (intro unat_sub_wrap) simp
    then have "n \<le> unat (dst - src)" using assms by linarith
    then show ?thesis by simp
  qed
  then have "memmove_fwd m dst src n = copied m dst src n"
    using assms by (intro memmove_fwd_copied) auto
  with False show ?thesis unfolding memmove_def by (simp only: if_False)
qed

text \<open>
  The interface of a copy routine, shared by the kernel's \<open>memmove\<close> and the one of the
  user library: its promise is \<open>copied\<close>.
\<close>

locale mem_copy =
  fixes copy :: "memory \<Rightarrow> addr \<Rightarrow> addr \<Rightarrow> nat \<Rightarrow> memory"
  assumes copy_copied:
    "unat dst + n \<le> 2 ^ 64 \<Longrightarrow> unat src + n < 2 ^ 64 \<Longrightarrow> copy m dst src n = copied m dst src n"
begin

lemma copy_read:
  assumes "unat dst + n \<le> 2 ^ 64" "unat src + n < 2 ^ 64" "i < n"
  shows "copy m dst src n (dst + of_nat i) = m (src + of_nat i)"
  using assms by (simp add: copy_copied copied_def unat_of_nat)

lemma copy_frame:
  assumes "unat dst + n \<le> 2 ^ 64" "unat src + n < 2 ^ 64" "n \<le> unat (x - dst)"
  shows "copy m dst src n x = m x"
  using assms by (simp add: copy_copied copied_def)

lemma copy_self: "unat p + n < 2 ^ 64 \<Longrightarrow> copy m p p n = m"
  by (rule ext) (simp add: copy_copied copied_def)

end

interpretation kmemmove: mem_copy memmove
  by unfold_locales (rule memmove_copied)

section \<open>Strings\<close>

text \<open>
  \<open>cstr_len s k\<close>: the C string at \<open>s\<close> has length \<open>k\<close>, its first NUL is at \<open>k\<close>.
\<close>

definition cstr_len :: "cstr \<Rightarrow> nat \<Rightarrow> bool" where
  "cstr_len s k \<longleftrightarrow> s k = 0 \<and> (\<forall>i<k. s i \<noteq> 0)"

lemma strlen_from_Some:
  assumes "s k = 0" "n \<le> k" "\<forall>i. n \<le> i \<and> i < k \<longrightarrow> s i \<noteq> 0"
  shows "strlen_from s n = Some k"
  using assms(2,3)
proof (induction "k - n" arbitrary: n)
  case 0
  then have "n = k" by simp
  then show ?case using assms(1) by (subst strlen_from.simps) simp
next
  case (Suc d)
  have "strlen_from s (Suc n) = Some k" by (rule Suc.hyps(1)) (use Suc.hyps(2) Suc.prems in auto)
  moreover have "s n \<noteq> 0" using Suc.hyps(2) Suc.prems by simp
  ultimately show ?case by (simp add: strlen_from.simps [of s n])
qed

lemma strlen_len: "cstr_len s k \<Longrightarrow> strlen s = Some k"
  unfolding strlen_def cstr_len_def by (intro strlen_from_Some) auto

lemma strlen_from_SomeD:
  assumes "strlen_from s n = Some k"
  shows "s k = 0 \<and> n \<le> k \<and> (\<forall>i. n \<le> i \<and> i < k \<longrightarrow> s i \<noteq> 0)"
proof (rule strlen_from.raw_induct [where
      P = "\<lambda>s n k. s k = 0 \<and> n \<le> k \<and> (\<forall>i. n \<le> i \<and> i < k \<longrightarrow> s i \<noteq> 0)", OF _ assms])
  fix f :: "cstr \<Rightarrow> nat \<Rightarrow> nat option" and s n k
  assume IH: "\<And>s n k. f s n = Some k \<Longrightarrow> s k = 0 \<and> n \<le> k \<and> (\<forall>i. n \<le> i \<and> i < k \<longrightarrow> s i \<noteq> 0)"
    and eq: "(if s n = 0 then Some n else f s (Suc n)) = Some k"
  show "s k = 0 \<and> n \<le> k \<and> (\<forall>i. n \<le> i \<and> i < k \<longrightarrow> s i \<noteq> 0)"
  proof (cases "s n = 0")
    case True
    with eq show ?thesis by auto
  next
    case False
    with eq IH[of s "Suc n" k] have h: "s k = 0" "Suc n \<le> k"
      "\<And>i. Suc n \<le> i \<Longrightarrow> i < k \<Longrightarrow> s i \<noteq> 0" by auto
    have "s i \<noteq> 0" if "n \<le> i" "i < k" for i
      using h(3)[of i] that False by (cases "i = n") auto
    with h show ?thesis by auto
  qed
qed

lemma strlen_iff: "strlen s = Some k \<longleftrightarrow> cstr_len s k"
proof
  assume "strlen s = Some k"
  then show "cstr_len s k" using strlen_from_SomeD[of s 0 k] by (simp add: strlen_def cstr_len_def)
qed (rule strlen_len)

lemma strlen_returns:
  assumes "s k = 0"
  shows "\<exists>j \<le> k. strlen s = Some j"
proof -
  have "s (LEAST j. s j = 0) = 0" using assms by (rule LeastI)
  moreover have "(LEAST j. s j = 0) \<le> k" using assms by (rule Least_le)
  moreover have "s i \<noteq> 0" if "i < (LEAST j. s j = 0)" for i
    using not_less_Least[OF that] .
  ultimately have "cstr_len s (LEAST j. s j = 0)" "(LEAST j. s j = 0) \<le> k"
    unfolding cstr_len_def by blast+
  then show ?thesis unfolding strlen_iff by blast
qed

lemma all_less_Suc_shift: "(\<forall>i < Suc n. P i) \<longleftrightarrow> P 0 \<and> (\<forall>i < n. P (Suc i))"
  by (auto simp: less_Suc_eq_0_disj)

text \<open>Equality of C strings up to \<open>n\<close> characters: what \<open>strncmp\<close> decides.\<close>

definition cstr_eq_upto :: "cstr \<Rightarrow> cstr \<Rightarrow> nat \<Rightarrow> bool" where
  "cstr_eq_upto p q n \<longleftrightarrow> (\<forall>i<n. (\<forall>j<i. p j \<noteq> 0) \<longrightarrow> p i = q i)"

lemma strncmp_zero_iff: "strncmp p q n = 0 \<longleftrightarrow> cstr_eq_upto p q n"
proof (induction n arbitrary: p q)
  case 0
  show ?case by (simp add: cstr_eq_upto_def)
next
  case (Suc n)
  show ?case
  proof (cases "p 0 \<noteq> 0 \<and> p 0 = q 0")
    case True
    then have "cstr_eq_upto p q (Suc n) \<longleftrightarrow> cstr_eq_upto (\<lambda>i. p (Suc i)) (\<lambda>i. q (Suc i)) n"
      by (auto simp: cstr_eq_upto_def all_less_Suc_shift)
    with True Suc.IH show ?thesis by auto
  next
    case False
    have "cstr_eq_upto p q (Suc n) \<longleftrightarrow> p 0 = q 0"
      using False by (auto simp: cstr_eq_upto_def less_Suc_eq_0_disj)
    with False show ?thesis by (auto simp: word_uint_eq_iff)
  qed
qed

lemma zero_fill_apply: "zero_fill d i n j = (if i \<le> j \<and> j < i + n then 0 else d j)"
  by (induction n arbitrary: d i) auto

lemma strncpy_from_apply:
  "strncpy_from d t i n j =
     (if i \<le> j \<and> j < i + n then (if \<exists>k. i \<le> k \<and> k < j \<and> t k = 0 then 0 else t j) else d j)"
proof (induction n arbitrary: d i)
  case 0
  show ?case by auto
next
  case (Suc n)
  show ?case
  proof (cases "t i = 0")
    case True
    then have "i < j \<Longrightarrow> \<exists>k. i \<le> k \<and> k < j \<and> t k = 0" by auto
    with True show ?thesis by (cases "i < j") (auto simp: zero_fill_apply)
  next
    case False
    have "(\<exists>k. i \<le> k \<and> k < j \<and> t k = 0) \<longleftrightarrow> (\<exists>k. Suc i \<le> k \<and> k < j \<and> t k = 0)"
      using False by (metis Suc_leD Suc_le_eq order_le_less)
    with False show ?thesis by (auto simp: Suc.IH)
  qed
qed

text \<open>
  \<open>strncpy\<close>: the copy is the source up to its first NUL and zeros from there to \<open>n\<close>;
  it writes exactly the first \<open>n\<close> characters.
\<close>

lemma strncpy_apply:
  "strncpy d t n j = (if j < n then (if \<exists>k<j. t k = 0 then 0 else t j) else d j)"
  by (simp add: strncpy_def strncpy_from_apply)

lemma safestrcpy_from_spec:
  fixes d t i n
  defines "r \<equiv> safestrcpy_from d t i n"
  shows "(\<exists>k. i \<le> k \<and> k \<le> i + n \<and> r k = 0 \<and> (\<forall>j. i \<le> j \<and> j < k \<longrightarrow> r j = t j \<and> t j \<noteq> 0)
           \<and> (k < i + n \<longrightarrow> t k = 0))
         \<and> (\<forall>j. j < i \<or> i + n < j \<longrightarrow> r j = d j)"
  unfolding r_def
proof (induction n arbitrary: d i)
  case 0
  show ?case by auto
next
  case (Suc n)
  show ?case
  proof (cases "t i = 0")
    case True
    then show ?thesis by (auto intro!: exI[of _ i])
  next
    case False
    let ?d = "d(i := t i)"
    have eq: "safestrcpy_from d t i (Suc n) = safestrcpy_from ?d t (Suc i) n" using False by simp
    from Suc.IH[of "Suc i" ?d] obtain k where
      k: "Suc i \<le> k" "k \<le> Suc i + n" "safestrcpy_from ?d t (Suc i) n k = 0"
      "\<forall>j. Suc i \<le> j \<and> j < k \<longrightarrow> safestrcpy_from ?d t (Suc i) n j = t j \<and> t j \<noteq> 0"
      "k < Suc i + n \<longrightarrow> t k = 0"
      and fr: "\<forall>j. j < Suc i \<or> Suc i + n < j \<longrightarrow> safestrcpy_from ?d t (Suc i) n j = ?d j"
      by blast
    have at: "safestrcpy_from ?d t (Suc i) n i = t i" using fr by simp
    have "safestrcpy_from ?d t (Suc i) n j = t j \<and> t j \<noteq> 0" if "i \<le> j" "j < k" for j
      using that k(4) at False by (cases "j = i") auto
    moreover have "safestrcpy_from ?d t (Suc i) n j = d j" if "j < i \<or> i + Suc n < j" for j
      using that fr by auto
    ultimately show ?thesis unfolding eq using k(1-3,5)
      by (intro conjI exI[of _ k]) auto
  qed
qed

text \<open>
  \<open>safestrcpy\<close> into an array of \<open>n\<close> characters: the result is NUL-terminated inside
  the array, agrees with the source up to its end or until the array is full, and
  nothing outside the array is written.
\<close>

lemma safestrcpy_spec:
  assumes "0 < n"
  shows "\<exists>k<n. cstr_len (safestrcpy d t n) k \<and> (\<forall>j<k. safestrcpy d t n j = t j)
           \<and> (k < n - 1 \<longrightarrow> t k = 0) \<and> (\<forall>j\<ge>n. safestrcpy d t n j = d j)"
proof -
  have eq: "safestrcpy d t n = safestrcpy_from d t 0 (n - 1)"
    using assms by (simp add: safestrcpy_def)
  show ?thesis using safestrcpy_from_spec[of 0 "n - 1" d t] assms unfolding eq cstr_len_def
    by (elim conjE exE) (rule_tac x = k in exI, auto)
qed

end
