(* ===== verification/Kalloc.thy ===== *)
theory Kalloc
  imports Spinlock CString
begin

unbundle bit_operations_syntax

text \<open>
  \<open>kernel/kalloc.c\<close>: the allocator of physical pages. The free pages form a linked
  list whose links are stored in the pages themselves, in physical memory.
\<close>

section \<open>State and operations\<close>

text \<open>\<open>kmem\<close>: the lock is \<open>L_kmem\<close>; \<open>freelist\<close> points to the first \<open>struct run\<close>.\<close>

record kmem = machine +
  freelist :: addr

definition memset_op :: "addr \<Rightarrow> uchar \<Rightarrow> nat \<Rightarrow> ('z machine_scheme, unit) op" where
  "memset_op dst c n = modify (\<lambda>s. s\<lparr>mem := memset (mem s) dst c n\<rparr>)"

definition kfree :: "addr \<Rightarrow> ('z kmem_scheme, unit) op" where
  "kfree pa =
     bind (reads kend) (\<lambda>end.
     if pa mod PGSIZE \<noteq> 0 \<or> pa < end \<or> pa \<ge> PHYSTOP then panic ''kfree'' else
     bind (memset_op pa 1 4096) (\<lambda>_.
     bind (acquire L_kmem) (\<lambda>_.
     bind (modify (\<lambda>s. s\<lparr>mem := store64 (mem s) pa (freelist s)\<rparr>)) (\<lambda>_.
     bind (modify (\<lambda>s. s\<lparr>freelist := pa\<rparr>)) (\<lambda>_.
     release L_kmem)))))"

definition kalloc :: "('z kmem_scheme, addr) op" where
  "kalloc =
     bind (acquire L_kmem) (\<lambda>_.
     bind (reads freelist) (\<lambda>r.
     bind (if r \<noteq> 0 then modify (\<lambda>s. s\<lparr>freelist := load64 (mem s) r\<rparr>) else ret ()) (\<lambda>_.
     bind (release L_kmem) (\<lambda>_.
     bind (if r \<noteq> 0 then memset_op r 5 4096 else ret ()) (\<lambda>_.
     ret r)))))"

text \<open>The address \<open>i\<close> pages after \<open>p\<close>.\<close>

definition page_at :: "addr \<Rightarrow> nat \<Rightarrow> addr" where
  "page_at p i = p + of_nat (4096 * i)"

text \<open>
  The pages that the loop \<open>for (; p + PGSIZE <= pa_end; p += PGSIZE)\<close> visits, in its
  order.
\<close>

definition pages_between :: "addr \<Rightarrow> addr \<Rightarrow> addr list" where
  "pages_between p pa_end = map (page_at p) [0..<(unat pa_end - unat p) div 4096]"

definition freerange :: "addr \<Rightarrow> addr \<Rightarrow> ('z kmem_scheme, unit) op" where
  "freerange pa_start pa_end = for_each (pages_between (PGROUNDUP pa_start) pa_end) kfree"

definition kinit :: "('z kmem_scheme, unit) op" where
  "kinit =
     bind (initlock L_kmem) (\<lambda>_.
     bind (reads kend) (\<lambda>end.
     freerange end PHYSTOP))"

section \<open>Pages in memory\<close>

definition in_page :: "addr \<Rightarrow> addr \<Rightarrow> bool" where
  "in_page p a \<longleftrightarrow> unat (a - p) < 4096"

lemma aligned_no_wrap:
  assumes "page_aligned p"
  shows "unat p + 4096 \<le> 2 ^ 64"
proof -
  obtain k where k: "unat p = 4096 * k" using assms by (auto simp: page_aligned_dvd)
  have "unat p < 2 ^ 64" using unsigned_less[of p] by simp
  then show ?thesis unfolding k by simp
qed

lemma in_page_round:
  assumes "page_aligned p" "in_page p a"
  shows "PGROUNDDOWN a = p"
proof -
  define k where "k = unat (a - p)"
  have k: "k < 4096" using assms(2) by (simp add: in_page_def k_def)
  have "unat p + unat (a - p) < 2 ^ 64"
    using aligned_no_wrap[OF assms(1)] k by (simp add: k_def)
  then have a: "unat a = unat p + k" unfolding k_def by (rule unat_base_offset)
  obtain j where "unat p = 4096 * j" using assms(1) by (auto simp: page_aligned_dvd)
  then have "4096 * (unat a div 4096) = unat p" using a k by simp
  then show ?thesis by (simp add: word_unat_eq_iff unat_PGROUNDDOWN)
qed

lemma in_page_unique: "page_aligned p \<Longrightarrow> page_aligned q \<Longrightarrow> in_page p a \<Longrightarrow> in_page q a \<Longrightarrow> p = q"
  using in_page_round by metis

lemma memset_page: "memset m p c 4096 a = (if in_page p a then c else m a)"
  by (simp add: memset_apply in_page_def)

text \<open>A 64-bit cell that lies inside a page reads bytes of that page only.\<close>

definition cell_in_page :: "addr \<Rightarrow> addr \<Rightarrow> bool" where
  "cell_in_page p a \<longleftrightarrow> unat (a - p) + 8 \<le> 4096"

lemma cell_bytes:
  assumes "cell_in_page p a" "i < 8"
  shows "in_page p (a + i)"
proof -
  have "unat i < 8" using assms(2) by (simp add: word_less_nat_alt)
  then have "unat ((a - p) + i) = unat (a - p) + unat i"
    using assms(1) by (intro unat_add_nowrap) (simp add: cell_in_page_def)
  moreover have "a + i - p = (a - p) + i" by (simp add: algebra_simps)
  ultimately show ?thesis
    using assms(1) \<open>unat i < 8\<close> by (simp only: in_page_def cell_in_page_def)
qed

lemma load64_page_cong:
  assumes "cell_in_page p a" "\<And>b. in_page p b \<Longrightarrow> m b = m' b"
  shows "load64 m a = load64 m' a"
  using assms cell_bytes by (intro load64_cong) blast

lemma cell_base [simp]: "cell_in_page p p"
  by (simp add: cell_in_page_def)

lemma load64_memset_other:
  assumes "page_aligned p" "page_aligned q" "p \<noteq> q" "cell_in_page q a"
  shows "load64 (memset m p c 4096) a = load64 m a"
  using assms(4)
proof (rule load64_page_cong)
  fix b assume "in_page q b"
  then have "\<not> in_page p b" using assms in_page_unique by blast
  then show "memset m p c 4096 b = m b" by (simp add: memset_page)
qed

lemma store64_in_page:
  assumes "cell_in_page p a" "\<not> in_page p b"
  shows "store64 m a v b = m b"
proof -
  have "\<not> b - a < 8"
    using cell_bytes[OF assms(1), of "b - a"] assms(2) by auto
  then show ?thesis by (simp add: store64_def)
qed

lemma load64_store64_page:
  assumes "page_aligned p" "page_aligned q" "p \<noteq> q" "cell_in_page p a" "cell_in_page q b"
  shows "load64 (store64 m a v) b = load64 m b"
  using assms(5)
proof (rule load64_page_cong)
  fix x assume "in_page q x"
  then have "\<not> in_page p x" using assms in_page_unique by blast
  then show "store64 m a v x = m x" using assms(4) by (rule store64_in_page [rotated])
qed

section \<open>Closed forms\<close>

lemma freelist_frame [acq_simps, simp]:
  "freelist (acq lk s) = freelist s"
  "(acq lk s)\<lparr>freelist := p\<rparr> = acq lk (s\<lparr>freelist := p\<rparr>)"
  "cpu_ok (s\<lparr>freelist := p\<rparr>) = cpu_ok s" "curproc (s\<lparr>freelist := p\<rparr>) = curproc s"
  by (simp_all add: acq_def pushed_def noff_of_def intr_of_def cpu_ok_def curproc_def)

definition kmem_free :: "'z machine_scheme \<Rightarrow> bool" where
  "kmem_free s \<longleftrightarrow> cpu_ok s \<and> locks s L_kmem = free_lock"

definition kernel_page :: "'z machine_scheme \<Rightarrow> addr \<Rightarrow> bool" where
  "kernel_page s p \<longleftrightarrow> page_aligned p \<and> kend s \<le> p \<and> p < PHYSTOP"

definition after_kfree :: "addr \<Rightarrow> 'z kmem_scheme \<Rightarrow> 'z kmem_scheme" where
  "after_kfree p s = s\<lparr>mem := store64 (memset (mem s) p 1 4096) p (freelist s), freelist := p\<rparr>"

definition after_kalloc :: "'z kmem_scheme \<Rightarrow> 'z kmem_scheme" where
  "after_kalloc s = (if freelist s = 0 then s else
     s\<lparr>mem := memset (mem s) (freelist s) 5 4096, freelist := load64 (mem s) (freelist s)\<rparr>)"

lemma page_aligned_mod: "page_aligned p \<longleftrightarrow> p mod PGSIZE = 0"
  by (simp add: page_aligned_def)

lemma kfree_eq:
  assumes "kmem_free s"
  shows "kfree p s = (if kernel_page s p then Ret () (after_kfree p s) else Panic ''kfree'')"
proof -
  have "locks (after_kfree p s) L_kmem = free_lock" "cpu_ok (after_kfree p s)"
    using assms by (simp_all add: after_kfree_def kmem_free_def)
  then have "release L_kmem (acq L_kmem (after_kfree p s)) = Ret () (after_kfree p s)"
    by (intro release_acq)
  then show ?thesis using assms
    by (auto simp: kfree_def op_defs memset_op_def acquire_eq kmem_free_def kernel_page_def
        page_aligned_mod after_kfree_def not_le not_less)
qed

lemma kalloc_eq:
  assumes "kmem_free s"
  shows "kalloc s = Ret (freelist s) (after_kalloc s)"
  using assms
  by (simp add: kalloc_def op_defs memset_op_def acquire_eq kmem_free_def after_kalloc_def
      release_acq)

lemma kmem_free_after [simp]:
  "kmem_free (after_kfree p s) = kmem_free s" "kmem_free (after_kalloc s) = kmem_free s"
  by (simp_all add: kmem_free_def after_kfree_def after_kalloc_def)

section \<open>The free list\<close>

text \<open>\<open>flist m p ps\<close>: the run list that starts at \<open>p\<close> in memory \<open>m\<close> is \<open>ps\<close>.\<close>

fun flist :: "memory \<Rightarrow> addr \<Rightarrow> addr list \<Rightarrow> bool" where
  "flist m p [] \<longleftrightarrow> p = 0"
| "flist m p (q # qs) \<longleftrightarrow> p = q \<and> q \<noteq> 0 \<and> flist m (load64 m q) qs"

lemma flist_cong:
  "(\<And>q. q \<in> set ps \<Longrightarrow> load64 m q = load64 m' q) \<Longrightarrow> flist m p ps = flist m' p ps"
  by (induction ps arbitrary: p) auto

definition kmem_inv :: "'z kmem_scheme \<Rightarrow> addr list \<Rightarrow> bool" where
  "kmem_inv s ps \<longleftrightarrow> flist (mem s) (freelist s) ps \<and> distinct ps \<and>
     (\<forall>p \<in> set ps. kernel_page s p) \<and> kend s \<noteq> 0"

text \<open>The list is a function of the state.\<close>

lemma flist_unique: "flist m p ps \<Longrightarrow> flist m p qs \<Longrightarrow> ps = qs"
proof (induction ps arbitrary: p qs)
  case Nil
  then show ?case by (cases qs) auto
next
  case (Cons a ps)
  then show ?case by (cases qs) auto
qed

lemma kmem_inv_kfree:
  assumes "kmem_inv s ps" "kernel_page s p" "p \<notin> set ps"
  shows "kmem_inv (after_kfree p s) (p # ps)"
proof -
  have "load64 (store64 (memset (mem s) p 1 4096) p (freelist s)) q = load64 (mem s) q"
    if "q \<in> set ps" for q
  proof -
    have "p \<noteq> q" "page_aligned p" "page_aligned q"
      using assms that by (auto simp: kmem_inv_def kernel_page_def)
    then show ?thesis by (simp add: load64_store64_page[of p q] load64_memset_other[of p q])
  qed
  then have "flist (store64 (memset (mem s) p 1 4096) p (freelist s)) (freelist s) ps"
    using assms(1) flist_cong[of ps "store64 (memset (mem s) p 1 4096) p (freelist s)" "mem s"]
    by (simp add: kmem_inv_def)
  moreover have "p \<noteq> 0" using assms by (auto simp: kmem_inv_def kernel_page_def)
  ultimately show ?thesis using assms
    by (simp add: kmem_inv_def after_kfree_def kernel_page_def)
qed

lemma kmem_inv_kalloc:
  assumes "kmem_inv s (p # ps)"
  shows "freelist s = p" "p \<noteq> 0" "p \<notin> set ps" "kernel_page s p" "kmem_inv (after_kalloc s) ps"
proof -
  show p: "freelist s = p" "p \<noteq> 0" "p \<notin> set ps" "kernel_page s p"
    using assms by (auto simp: kmem_inv_def)
  have "load64 (memset (mem s) p 5 4096) q = load64 (mem s) q" if "q \<in> set ps" for q
  proof -
    have "p \<noteq> q" "page_aligned p" "page_aligned q"
      using assms that by (auto simp: kmem_inv_def kernel_page_def)
    then show ?thesis by (simp add: load64_memset_other[of p q])
  qed
  then have "flist (memset (mem s) p 5 4096) (load64 (mem s) p) ps"
    using assms flist_cong[of ps "memset (mem s) p 5 4096" "mem s"]
    by (simp add: kmem_inv_def)
  then show "kmem_inv (after_kalloc s) ps" using assms p
    by (simp add: kmem_inv_def after_kalloc_def kernel_page_def)
qed

lemma kmem_inv_Nil: "kmem_inv s [] \<Longrightarrow> freelist s = 0 \<and> after_kalloc s = s"
  by (simp add: kmem_inv_def after_kalloc_def)

section \<open>Building the free list\<close>

lemma unat_PHYSTOP: "unat PHYSTOP = 2281701376"
  by (simp add: PHYSTOP_def KERNBASE_def)

lemma page_aligned_PHYSTOP: "4096 dvd unat PHYSTOP"
  by (simp add: unat_PHYSTOP)

lemma unat_page_at:
  assumes "unat p + 4096 * i < 2 ^ 64"
  shows "unat (page_at p i) = unat p + 4096 * i"
proof -
  have "unat (of_nat (4096 * i) :: addr) = 4096 * i"
    using assms by (simp only: unat_of_nat) (simp add: take_bit_eq_mod)
  then show ?thesis
    unfolding page_at_def using assms unat_add_nowrap[of p "of_nat (4096 * i)"] by (simp only:)
qed

lemma unat_pages_between:
  fixes p e :: addr
  assumes "i < (unat e - unat p) div 4096"
  shows "unat (page_at p i) = unat p + 4096 * i"
proof -
  have "4096 * i < unat e - unat p" using assms by linarith
  moreover have "unat e < 2 ^ 64" using unsigned_less[of e] by simp
  ultimately show ?thesis by (intro unat_page_at) linarith
qed

lemma distinct_pages_between: "distinct (pages_between p e)"
proof -
  have "inj_on (page_at p) {0..<(unat e - unat p) div 4096}"
  proof (rule inj_onI)
    fix i j
    assume i: "i \<in> {0..<(unat e - unat p) div 4096}" and j: "j \<in> {0..<(unat e - unat p) div 4096}"
      and eq: "page_at p i = page_at p j"
    have "unat (page_at p i) = unat p + 4096 * i"
      by (rule unat_pages_between[of i e p]) (use i in simp)
    moreover have "unat (page_at p j) = unat p + 4096 * j"
      by (rule unat_pages_between[of j e p]) (use j in simp)
    ultimately have "unat p + 4096 * i = unat p + 4096 * j" unfolding eq by (rule trans [OF sym])
    then show "i = j" by simp
  qed
  then show ?thesis by (simp add: pages_between_def distinct_map)
qed

lemma set_pages_between:
  assumes "page_aligned p" "4096 dvd unat e"
  shows "set (pages_between p e) = {q. page_aligned q \<and> p \<le> q \<and> q < e}"
proof (intro set_eqI iffI)
  fix q assume "q \<in> set (pages_between p e)"
  then obtain i where i: "i < (unat e - unat p) div 4096" and q: "q = page_at p i"
    by (auto simp: pages_between_def)
  have uq: "unat q = unat p + 4096 * i" unfolding q by (rule unat_pages_between[OF i])
  then have "unat q < unat e" using i by linarith
  then show "q \<in> {q. page_aligned q \<and> p \<le> q \<and> q < e}"
    using assms(1) uq by (simp add: page_aligned_dvd word_le_nat_alt word_less_nat_alt)
next
  fix q assume "q \<in> {q. page_aligned q \<and> p \<le> q \<and> q < e}"
  then have al: "page_aligned q" and pq: "unat p \<le> unat q" and qe: "unat q < unat e"
    by (auto simp: word_le_nat_alt word_less_nat_alt)
  obtain a b c where abc: "unat p = 4096 * a" "unat q = 4096 * b" "unat e = 4096 * c"
    using assms al unfolding page_aligned_dvd by (auto elim!: dvdE)
  have i: "b - a < (unat e - unat p) div 4096" using pq qe unfolding abc by simp
  have "unat q = unat (page_at p (b - a))"
    using unat_pages_between[OF i] pq unfolding abc by (simp add: diff_mult_distrib2)
  then have "q = page_at p (b - a)" by (simp only: word_unat_eq_iff)
  then show "q \<in> set (pages_between p e)" using i unfolding pages_between_def by auto
qed

lemma freerange_loop:
  assumes "kmem_free s" "kmem_inv s ps" "distinct qs" "set ps \<inter> set qs = {}"
    "\<forall>q \<in> set qs. kernel_page s q"
  shows "wp (for_each qs kfree) (\<lambda>_ t. kmem_free t \<and> kmem_inv t (rev qs @ ps) \<and> kend t = kend s) s"
  using assms
proof (induction qs arbitrary: s ps)
  case Nil
  then show ?case by (simp add: wp_simps)
next
  case (Cons q qs)
  have "kfree q s = Ret () (after_kfree q s)" using Cons.prems by (simp add: kfree_eq)
  moreover have "kmem_inv (after_kfree q s) (q # ps)"
    using Cons.prems by (intro kmem_inv_kfree) auto
  moreover have kend: "kend (after_kfree q s) = kend s" by (simp add: after_kfree_def)
  ultimately have "wp (for_each qs kfree)
      (\<lambda>_ t. kmem_free t \<and> kmem_inv t (rev qs @ q # ps) \<and> kend t = kend s) (after_kfree q s)"
    using Cons.IH[of "after_kfree q s" "q # ps"] Cons.prems by (auto simp: kernel_page_def)
  with \<open>kfree q s = _\<close> show ?case by (simp add: wp_bind wp_def[of "kfree q"])
qed

lemma PGROUNDUP_le_iff:
  assumes "page_aligned p" "unat a \<le> 2 ^ 64 - 4096"
  shows "PGROUNDUP a \<le> p \<longleftrightarrow> a \<le> p"
proof -
  obtain k where k: "unat p = 4096 * k" using assms(1) by (auto simp: page_aligned_dvd)
  have "unat (PGROUNDUP a) = 4096 * ((unat a + 4095) div 4096)"
    using unat_PGROUNDUP[OF assms(2)] by simp
  moreover have "(unat a + 4095) div 4096 < Suc k \<longleftrightarrow> unat a + 4095 < Suc k * 4096"
    by (rule div_less_iff_less_mult) simp
  ultimately show ?thesis unfolding word_le_nat_alt k by simp linarith
qed

lemma kinit_pages:
  assumes "kend s \<le> PHYSTOP"
  shows "set (pages_between (PGROUNDUP (kend s)) PHYSTOP) = Collect (kernel_page s)"
proof -
  have "unat (kend s) \<le> 2281701376"
    using assms by (simp add: word_le_nat_alt unat_PHYSTOP)
  then have "unat (kend s) \<le> 2 ^ 64 - 4096" by simp
  then show ?thesis
    by (auto simp: set_pages_between page_aligned_PHYSTOP kernel_page_def PGROUNDUP_le_iff)
qed

section \<open>The allocator as an interface\<close>

text \<open>
  What the rest of the kernel relies on. \<open>inv s ps\<close> says that the free pages of \<open>s\<close> are
  \<open>ps\<close>, \<open>pages\<close> are the pages the allocator manages, and \<open>wr A s t\<close> that \<open>t\<close> is \<open>s\<close> after
  writes into the pages in \<open>A\<close>.
\<close>

locale page_pool =
  fixes alloc :: "('s, addr) op"
    and free :: "addr \<Rightarrow> ('s, unit) op"
    and inv :: "'s \<Rightarrow> addr list \<Rightarrow> bool"
    and pages :: "addr set"
    and wr :: "addr set \<Rightarrow> 's \<Rightarrow> 's \<Rightarrow> bool"
  assumes alloc_empty: "inv s [] \<Longrightarrow> alloc s = Ret 0 s"
    and alloc_cons: "inv s (p # ps) \<Longrightarrow> \<exists>t. alloc s = Ret p t \<and> inv t ps"
    and free_page: "inv s ps \<Longrightarrow> p \<in> pages \<Longrightarrow> p \<notin> set ps \<Longrightarrow> \<exists>t. free p s = Ret () t \<and> inv t (p # ps)"
    and wr_pages: "inv s ps \<Longrightarrow> A \<subseteq> pages \<Longrightarrow> set ps \<inter> A = {} \<Longrightarrow> wr A s t \<Longrightarrow> inv t ps"
    and inv_pages: "inv s ps \<Longrightarrow> set ps \<subseteq> pages \<and> distinct ps \<and> 0 \<notin> pages"

text \<open>
  A run of the clients of an allocator: they allocate, free pages they own, and write
  into pages they own. The second and the fourth argument are the pages owned.
\<close>

inductive pool_run ::
  "('s, addr) op \<Rightarrow> (addr \<Rightarrow> ('s, unit) op) \<Rightarrow> (addr set \<Rightarrow> 's \<Rightarrow> 's \<Rightarrow> bool) \<Rightarrow> 's \<Rightarrow> 's \<Rightarrow> addr set \<Rightarrow> bool"
  for al fr wr s0 where
  run_start: "pool_run al fr wr s0 s0 {}"
| run_alloc: "pool_run al fr wr s0 s A \<Longrightarrow> al s = Ret p t \<Longrightarrow>
    pool_run al fr wr s0 t (if p = 0 then A else insert p A)"
| run_free: "pool_run al fr wr s0 s A \<Longrightarrow> p \<in> A \<Longrightarrow> fr p s = Ret () t \<Longrightarrow>
    pool_run al fr wr s0 t (A - {p})"
| run_write: "pool_run al fr wr s0 s A \<Longrightarrow> wr A s t \<Longrightarrow> pool_run al fr wr s0 t A"

context page_pool
begin

lemma alloc_cases:
  assumes "inv s ps" "alloc s = Ret p t"
  shows "p = 0 \<and> ps = [] \<and> t = s \<or> p \<noteq> 0 \<and> (\<exists>qs. ps = p # qs \<and> inv t qs)"
proof (cases ps)
  case Nil
  then show ?thesis using alloc_empty assms by auto
next
  case (Cons q qs)
  then have "q \<noteq> 0" using inv_pages[OF assms(1)] by auto
  then show ?thesis using Cons alloc_cons assms by fastforce
qed

lemma run_partition:
  assumes "pool_run alloc free wr s0 s A" "inv s0 ps0"
  shows "\<exists>ps. inv s ps \<and> set ps \<inter> A = {} \<and> set ps \<union> A = set ps0"
  using assms
proof (induction rule: pool_run.induct)
  case run_start
  then show ?case by auto
next
  case (run_alloc s A p t)
  then obtain ps where ps: "inv s ps" "set ps \<inter> A = {}" "set ps \<union> A = set ps0" by auto
  have "distinct ps" using inv_pages ps(1) by blast
  then show ?case using alloc_cases[OF ps(1) run_alloc.hyps(2)] ps by auto
next
  case (run_free s A p t)
  then obtain ps where ps: "inv s ps" "set ps \<inter> A = {}" "set ps \<union> A = set ps0" by auto
  have "A \<subseteq> pages" using ps(3) inv_pages[OF run_free.prems] by auto
  then have "inv t (p # ps)" using free_page[OF ps(1), of p] run_free.hyps ps by auto
  then show ?case using ps run_free.hyps(2) by (intro exI[of _ "p # ps"]) auto
next
  case (run_write s A t)
  then obtain ps where ps: "inv s ps" "set ps \<inter> A = {}" "set ps \<union> A = set ps0" by auto
  have "A \<subseteq> pages" using ps(3) inv_pages[OF run_write.prems] by auto
  then show ?case using wr_pages[OF ps(1) _ ps(2) run_write.hyps(2)] ps by auto
qed

lemma run_progress:
  assumes "pool_run alloc free wr s0 s A" "inv s0 ps0"
  shows "\<exists>p t. alloc s = Ret p t \<and> (p = 0 \<longleftrightarrow> A = set ps0) \<and> (p \<noteq> 0 \<longrightarrow> p \<in> set ps0 - A)"
    and "p \<in> A \<Longrightarrow> \<exists>t. free p s = Ret () t"
proof -
  obtain ps where ps: "inv s ps" "set ps \<inter> A = {}" "set ps \<union> A = set ps0"
    using run_partition[OF assms] by auto
  have pg: "set ps0 \<subseteq> pages" "0 \<notin> pages" using inv_pages assms(2) by auto
  show "\<exists>p t. alloc s = Ret p t \<and> (p = 0 \<longleftrightarrow> A = set ps0) \<and> (p \<noteq> 0 \<longrightarrow> p \<in> set ps0 - A)"
  proof (cases ps)
    case Nil
    then show ?thesis using alloc_empty ps by auto
  next
    case (Cons q qs)
    then have "q \<noteq> 0" "q \<in> set ps0" "q \<notin> A" using ps pg by auto
    moreover obtain t where "alloc s = Ret q t" using Cons alloc_cons ps(1) by blast
    ultimately show ?thesis by auto
  qed
  show "\<exists>t. free p s = Ret () t" if "p \<in> A"
    using that ps pg free_page[OF ps(1), of p] by blast
qed

end

definition wr_pages :: "addr set \<Rightarrow> 'z kmem_scheme \<Rightarrow> 'z kmem_scheme \<Rightarrow> bool" where
  "wr_pages A s t \<longleftrightarrow>
     (\<exists>m. t = s\<lparr>mem := m\<rparr> \<and> (\<forall>a. (\<forall>p \<in> A. \<not> in_page p a) \<longrightarrow> m a = mem s a))"

lemma kernel_page_after [simp]:
  "kernel_page (after_kfree p s) = kernel_page s" "kernel_page (after_kalloc s) = kernel_page s"
  "kernel_page (s\<lparr>mem := m\<rparr>) = kernel_page s"
  by (auto simp: kernel_page_def after_kfree_def after_kalloc_def)

lemma kmem_inv_write:
  assumes "kmem_inv s ps" "\<forall>p \<in> A. kernel_page s p" "set ps \<inter> A = {}" "wr_pages A s t"
  shows "kmem_inv t ps"
proof -
  obtain m where m: "t = s\<lparr>mem := m\<rparr>" "\<And>a. \<forall>p \<in> A. \<not> in_page p a \<Longrightarrow> m a = mem s a"
    using assms(4) by (auto simp: wr_pages_def)
  have "load64 m q = load64 (mem s) q" if "q \<in> set ps" for q
  proof (rule load64_page_cong[OF cell_base])
    fix b assume b: "in_page q b"
    have "\<not> in_page p b" if "p \<in> A" for p
      using in_page_unique[of p q b] b that \<open>q \<in> set ps\<close> assms
      by (auto simp: kmem_inv_def kernel_page_def)
    then show "m b = mem s b" using m(2) by blast
  qed
  then have "flist m (freelist s) ps"
    using assms(1) flist_cong[of ps m "mem s"] by (simp add: kmem_inv_def)
  then show ?thesis using assms(1) by (simp add: kmem_inv_def m(1))
qed

text \<open>\<open>kalloc\<close> and \<open>kfree\<close> implement the interface.\<close>

interpretation kpool: page_pool kalloc kfree
  "\<lambda>s ps. kmem_free s \<and> kmem_inv s ps \<and> U = Collect (kernel_page s)" U wr_pages
  for U
proof (unfold_locales, goal_cases)
  case (1 s)
  then show ?case by (simp add: kalloc_eq kmem_inv_Nil)
next
  case (2 s p ps)
  then show ?case
    using kmem_inv_kalloc[of s p ps]
    by (simp add: kalloc_eq)
next
  case (3 s ps p)
  then show ?case
    using kmem_inv_kfree[of s ps p] by (simp add: kfree_eq)
next
  case (4 s ps A t)
  then have "kmem_inv t ps" using kmem_inv_write[of s ps A t] by auto
  moreover have "kmem_free t" "kernel_page t = kernel_page s"
    using 4 by (auto simp: wr_pages_def kmem_free_def)
  ultimately show ?case using 4 by simp
next
  case (5 s ps)
  then show ?case by (auto simp: kmem_inv_def kernel_page_def)
qed

text \<open>
  C3. \<open>kinit\<close> builds a free list that holds every page between the end of the kernel
  and the top of physical memory exactly once, and leaves the allocator's lock free.
\<close>

theorem kinit_frees_all_pages:
  assumes "cpu_ok s" "freelist s = 0" "kend s \<noteq> 0" "kend s \<le> PHYSTOP"
  shows "\<exists>t ps. kinit s = Ret () t \<and> locks t L_kmem = free_lock \<and> flist (mem t) (freelist t) ps \<and>
     distinct ps \<and> set ps = {p. page_aligned p \<and> kend s \<le> p \<and> p < PHYSTOP}"
proof -
  let ?s = "s\<lparr>locks := (locks s)(L_kmem := free_lock)\<rparr>"
  let ?qs = "pages_between (PGROUNDUP (kend s)) PHYSTOP"
  have init: "initlock L_kmem s = Ret () ?s" by (simp add: initlock_def modify_def free_lock_def)
  have pg: "set ?qs = Collect (kernel_page s)" using kinit_pages[OF assms(4)] .
  have "wp (for_each ?qs kfree)
          (\<lambda>_ t. kmem_free t \<and> kmem_inv t (rev ?qs @ []) \<and> kend t = kend ?s) ?s"
    using assms pg
    by (intro freerange_loop)
      (auto simp: kmem_inv_def kmem_free_def cpu_ok_def noff_of_def intr_of_def kernel_page_def
        distinct_pages_between)
  then obtain t where t: "kinit s = Ret () t" "kmem_free t" "kmem_inv t (rev ?qs)"
    by (auto simp: wp_Ret kinit_def bind_def init reads_def freerange_def)
  then show ?thesis using pg
    by (intro exI[of _ t] exI[of _ "rev ?qs"])
      (auto simp: kmem_inv_def kmem_free_def kernel_page_def)
qed

text \<open>
  C4. Ownership of physical pages. Let clients allocate, free pages they own and write
  anything into pages they own, in any order, from a state whose free list is \<open>ps\<close>.
  Then the pages they own are always pages of \<open>ps\<close>; \<open>kalloc\<close> returns, it returns 0
  exactly when every page is owned, and otherwise a page nobody owns; and \<open>kfree\<close> of an
  owned page returns.
\<close>

theorem page_ownership:
  assumes "pool_run kalloc kfree wr_pages s0 s A"
    and "kmem_free s0" and "kmem_inv s0 ps"
  shows "A \<subseteq> set ps
    \<and> (\<exists>p t. kalloc s = Ret p t \<and> (p = 0 \<longleftrightarrow> A = set ps) \<and> (p \<noteq> 0 \<longrightarrow> p \<in> set ps - A))
    \<and> (\<forall>p \<in> A. \<exists>t. kfree p s = Ret () t)"
proof -
  let ?U = "Collect (kernel_page s0)"
  have i: "kmem_free s0 \<and> kmem_inv s0 ps \<and> ?U = Collect (kernel_page s0)" using assms by simp
  show ?thesis
    using kpool.run_partition[of s0 s A ps ?U, OF assms(1) i]
      kpool.run_progress[of s0 s A ps ?U, OF assms(1) i] by blast
qed

section \<open>A concrete machine\<close>

definition kmem0 :: kmem where
  "kmem0 = machine.extend machine0 (kmem.fields 0)"

lemma kmem0_ok:
  "cpu_ok kmem0" "kmem_free kmem0" "kmem_inv kmem0 []" "freelist kmem0 = 0"
  "kend kmem0 = KERNBASE + 0x20000" "locks kmem0 lk = free_lock"
  by (simp_all add: kmem0_def machine.defs kmem.defs machine0_def cpu_ok_def noff_of_def intr_of_def
      cpu0_def hart0_def SSTATUS_SIE_def kmem_free_def kmem_inv_def KERNBASE_def)

theorem kinit_frees_all_pages_witness:
  "\<exists>t ps. kinit kmem0 = Ret () t \<and> flist (mem t) (freelist t) ps \<and> KERNBASE + 0x20000 \<in> set ps"
proof -
  have a: "kend kmem0 \<noteq> 0" "kend kmem0 \<le> PHYSTOP"
    by (simp_all add: kmem0_ok KERNBASE_def PHYSTOP_def)
  have "page_aligned (KERNBASE + 0x20000)" "KERNBASE + 0x20000 < PHYSTOP"
    by (simp_all add: page_aligned_def PGSIZE_def KERNBASE_def PHYSTOP_def)
  then show ?thesis
    using kinit_frees_all_pages[OF kmem0_ok(1,4) a] by (auto simp: kmem0_ok(5))
qed

theorem page_ownership_witness:
  "\<exists>t. kalloc (after_kalloc (after_kfree (KERNBASE + 0x20000) kmem0)) = Ret 0 t"
proof -
  let ?p = "KERNBASE + 0x20000 :: addr" and ?s = "after_kfree (KERNBASE + 0x20000) kmem0"
  have pg: "kernel_page kmem0 ?p"
    by (simp add: kernel_page_def kmem0_ok page_aligned_def PGSIZE_def KERNBASE_def PHYSTOP_def)
  have inv: "kmem_free ?s" "kmem_inv ?s [?p]"
    using kmem_inv_kfree[OF kmem0_ok(3) pg] kmem0_ok(2) by simp_all
  have al: "kalloc ?s = Ret ?p (after_kalloc ?s)"
    using kalloc_eq[OF inv(1)] kmem_inv_kalloc(1)[OF inv(2)] by simp
  have "pool_run kalloc kfree wr_pages ?s ?s {}" by (rule run_start)
  from run_alloc[OF this al] have "pool_run kalloc kfree wr_pages ?s (after_kalloc ?s) {?p}"
    using kmem_inv_kalloc(2)[OF inv(2)] by simp
  from page_ownership[OF this inv] show ?thesis by auto
qed

end
