(* ===== verification/Vm.thy ===== *)
theory Vm
  imports Kalloc
begin

unbundle bit_operations_syntax

text \<open>
  \<open>kernel/vm.c\<close>: three-level Sv39 page tables stored in physical memory, and the copies
  between kernel and user memory that go through them.
\<close>

section \<open>State and operations\<close>

record kvm = kmem +
  kernel_pagetable :: addr

definition load_op :: "addr \<Rightarrow> ('z machine_scheme, uint64) op" where
  "load_op a = reads (\<lambda>s. load64 (mem s) a)"

definition store_op :: "addr \<Rightarrow> uint64 \<Rightarrow> ('z machine_scheme, unit) op" where
  "store_op a v = modify (\<lambda>s. s\<lparr>mem := store64 (mem s) a v\<rparr>)"

text \<open>\<open>&pagetable[i]\<close>.\<close>

definition pte_addr :: "addr \<Rightarrow> uint64 \<Rightarrow> addr" where
  "pte_addr pagetable i = pagetable + 8 * i"

text \<open>The loop of \<open>walk\<close> from a level down to 0.\<close>

fun walk_from :: "nat \<Rightarrow> addr \<Rightarrow> uint64 \<Rightarrow> bool \<Rightarrow> ('z kmem_scheme, addr) op" where
  "walk_from 0 pagetable va alloc = ret (pte_addr pagetable (PX 0 va))"
| "walk_from (Suc level) pagetable va alloc =
     bind (load_op (pte_addr pagetable (PX (Suc level) va))) (\<lambda>pte.
     if pte AND PTE_V \<noteq> 0 then walk_from level (PTE2PA pte) va alloc
     else if \<not> alloc then ret 0 else
     bind kalloc (\<lambda>page.
     if page = 0 then ret 0 else
     bind (memset_op page 0 4096) (\<lambda>_.
     bind (store_op (pte_addr pagetable (PX (Suc level) va)) (PA2PTE page OR PTE_V)) (\<lambda>_.
     walk_from level page va alloc))))"

definition walk :: "addr \<Rightarrow> uint64 \<Rightarrow> bool \<Rightarrow> ('z kmem_scheme, addr) op" where
  "walk pagetable va alloc =
     (if va \<ge> MAXVA then panic ''walk'' else walk_from 2 pagetable va alloc)"

definition walkaddr :: "addr \<Rightarrow> uint64 \<Rightarrow> ('z kmem_scheme, uint64) op" where
  "walkaddr pagetable va =
     (if va \<ge> MAXVA then ret 0 else
      bind (walk pagetable va False) (\<lambda>pte.
      if pte = 0 then ret 0 else
      bind (load_op pte) (\<lambda>v.
      if v AND PTE_V = 0 then ret 0
      else if v AND PTE_U = 0 then ret 0
      else ret (PTE2PA v))))"

text \<open>
  One pass of the loop of \<open>mappages\<close>, for the page at \<open>a + i * PGSIZE\<close>. The loop ends
  when \<open>a\<close> equals \<open>last\<close>; both are page aligned, so it makes \<open>(last - a) / PGSIZE + 1\<close>
  passes (modulo 2^64).
\<close>

definition mappages_pass :: "addr \<Rightarrow> uint64 \<Rightarrow> uint64 \<Rightarrow> uint64 \<Rightarrow> nat \<Rightarrow> ('z kmem_scheme, int option) op" where
  "mappages_pass pagetable a pa perm i =
     bind (walk pagetable (page_at a i) True) (\<lambda>pte.
     if pte = 0 then ret (Some (-1)) else
     bind (load_op pte) (\<lambda>v.
     if v AND PTE_V \<noteq> 0 then panic ''remap'' else
     bind (store_op pte (PA2PTE (page_at pa i) OR perm OR PTE_V)) (\<lambda>_.
     ret None)))"

definition mappages :: "addr \<Rightarrow> uint64 \<Rightarrow> uint64 \<Rightarrow> uint64 \<Rightarrow> uint64 \<Rightarrow> ('z kmem_scheme, int) op" where
  "mappages pagetable va sz pa perm =
     (let a = PGROUNDDOWN va; last = PGROUNDDOWN (va + sz - 1) in
      bind (for_first [0..<Suc (unat (last - a) div 4096)] (mappages_pass pagetable a pa perm)) (\<lambda>r.
      case r of Some e \<Rightarrow> ret e | None \<Rightarrow> ret 0))"

definition kvmmap :: "uint64 \<Rightarrow> uint64 \<Rightarrow> uint64 \<Rightarrow> uint64 \<Rightarrow> ('z kvm_scheme, unit) op" where
  "kvmmap va pa sz perm =
     bind (reads kernel_pagetable) (\<lambda>pt.
     bind (mappages pt va sz pa perm) (\<lambda>r.
     if r \<noteq> 0 then panic ''kvmmap'' else ret ()))"

definition kvminit :: "('z kvm_scheme, unit) op" where
  "kvminit =
     bind kalloc (\<lambda>page.
     bind (modify (\<lambda>s. s\<lparr>kernel_pagetable := page\<rparr>)) (\<lambda>_.
     bind (memset_op page 0 4096) (\<lambda>_.
     bind (kvmmap UART0 UART0 PGSIZE (PTE_R OR PTE_W)) (\<lambda>_.
     bind (kvmmap VIRTIO0 VIRTIO0 PGSIZE (PTE_R OR PTE_W)) (\<lambda>_.
     bind (kvmmap CLINT CLINT 0x10000 (PTE_R OR PTE_W)) (\<lambda>_.
     bind (kvmmap PLIC PLIC 0x400000 (PTE_R OR PTE_W)) (\<lambda>_.
     bind (reads etext) (\<lambda>et.
     bind (kvmmap KERNBASE KERNBASE (et - KERNBASE) (PTE_R OR PTE_X)) (\<lambda>_.
     bind (kvmmap et et (PHYSTOP - et) (PTE_R OR PTE_W)) (\<lambda>_.
     bind (reads trampoline) (\<lambda>tr.
     kvmmap TRAMPOLINE tr PGSIZE (PTE_R OR PTE_X))))))))))))"

text \<open>\<open>sfence_vma\<close> orders the page-table writes with translation and changes no state here.\<close>

definition kvminithart :: "('z kvm_scheme, unit) op" where
  "kvminithart = modify (\<lambda>s. s\<lparr>harts := (harts s)(tp s :=
     (harts s (tp s))\<lparr>satp := MAKE_SATP (kernel_pagetable s)\<rparr>)\<rparr>)"

definition kvmpa :: "uint64 \<Rightarrow> ('z kvm_scheme, uint64) op" where
  "kvmpa va =
     (let off = va mod PGSIZE in
      bind (reads kernel_pagetable) (\<lambda>pt.
      bind (walk pt va False) (\<lambda>pte.
      if pte = 0 then panic ''kvmpa'' else
      bind (load_op pte) (\<lambda>v.
      if v AND PTE_V = 0 then panic ''kvmpa''
      else ret (PTE2PA v + off)))))"

definition uvmunmap_pass :: "addr \<Rightarrow> bool \<Rightarrow> uint64 \<Rightarrow> ('z kmem_scheme, unit) op" where
  "uvmunmap_pass pagetable do_free a =
     bind (walk pagetable a False) (\<lambda>pte.
     if pte = 0 then panic ''uvmunmap: walk'' else
     bind (load_op pte) (\<lambda>v.
     if v AND PTE_V = 0 then panic ''uvmunmap: not mapped''
     else if PTE_FLAGS v = PTE_V then panic ''uvmunmap: not a leaf''
     else
     bind (if do_free then kfree (PTE2PA v) else ret ()) (\<lambda>_.
     store_op pte 0)))"

definition uvmunmap :: "addr \<Rightarrow> uint64 \<Rightarrow> uint64 \<Rightarrow> bool \<Rightarrow> ('z kmem_scheme, unit) op" where
  "uvmunmap pagetable va npages do_free =
     (if va mod PGSIZE \<noteq> 0 then panic ''uvmunmap: not aligned'' else
      for_each (pages_between va (va + npages * PGSIZE)) (uvmunmap_pass pagetable do_free))"

definition uvmcreate :: "('z kmem_scheme, addr) op" where
  "uvmcreate =
     bind kalloc (\<lambda>pagetable.
     if pagetable = 0 then ret 0 else
     bind (memset_op pagetable 0 4096) (\<lambda>_.
     ret pagetable))"

text \<open>A copy from a kernel object, seen as an array of bytes, into physical memory.\<close>

definition write_bytes :: "memory \<Rightarrow> addr \<Rightarrow> cstr \<Rightarrow> nat \<Rightarrow> memory" where
  "write_bytes m dst src n = (\<lambda>a. if unat (a - dst) < n then src (unat (a - dst)) else m a)"

definition write_op :: "addr \<Rightarrow> cstr \<Rightarrow> nat \<Rightarrow> ('z machine_scheme, unit) op" where
  "write_op dst src n = modify (\<lambda>s. s\<lparr>mem := write_bytes (mem s) dst src n\<rparr>)"

definition uvminit :: "addr \<Rightarrow> cstr \<Rightarrow> uint \<Rightarrow> ('z kmem_scheme, unit) op" where
  "uvminit pagetable src sz =
     (if unat sz \<ge> 4096 then panic ''inituvm: more than a page'' else
      bind kalloc (\<lambda>page.
      bind (memset_op page 0 4096) (\<lambda>_.
      bind (mappages pagetable 0 PGSIZE page (PTE_W OR PTE_R OR PTE_X OR PTE_U)) (\<lambda>_.
      write_op page src (unat sz)))))"

definition uvmdealloc :: "addr \<Rightarrow> uint64 \<Rightarrow> uint64 \<Rightarrow> ('z kmem_scheme, uint64) op" where
  "uvmdealloc pagetable oldsz newsz =
     (if newsz \<ge> oldsz then ret oldsz else
      bind (if PGROUNDUP newsz < PGROUNDUP oldsz
            then let npages = (PGROUNDUP oldsz - PGROUNDUP newsz) div PGSIZE in
                 uvmunmap pagetable (PGROUNDUP newsz) (scast (ucast npages :: uint)) True
            else ret ()) (\<lambda>_.
      ret newsz))"

text \<open>The values of \<open>a\<close> in the loop \<open>for (a = start; a < limit; a += PGSIZE)\<close>.\<close>

definition page_steps :: "uint64 \<Rightarrow> uint64 \<Rightarrow> uint64 list" where
  "page_steps start limit = map (page_at start) [0..<(unat limit - unat start + 4095) div 4096]"

definition uvmalloc_pass :: "addr \<Rightarrow> uint64 \<Rightarrow> uint64 \<Rightarrow> ('z kmem_scheme, uint64 option) op" where
  "uvmalloc_pass pagetable oldsz a =
     bind kalloc (\<lambda>page.
     if page = 0 then
       bind (uvmdealloc pagetable a oldsz) (\<lambda>_. ret (Some 0))
     else
     bind (memset_op page 0 4096) (\<lambda>_.
     bind (mappages pagetable a PGSIZE page (PTE_W OR PTE_X OR PTE_R OR PTE_U)) (\<lambda>r.
     if r \<noteq> 0 then
       bind (kfree page) (\<lambda>_.
       bind (uvmdealloc pagetable a oldsz) (\<lambda>_. ret (Some 0)))
     else ret None)))"

definition uvmalloc :: "addr \<Rightarrow> uint64 \<Rightarrow> uint64 \<Rightarrow> ('z kmem_scheme, uint64) op" where
  "uvmalloc pagetable oldsz newsz =
     (if newsz < oldsz then ret oldsz else
      bind (for_first (page_steps (PGROUNDUP oldsz) newsz) (uvmalloc_pass pagetable (PGROUNDUP oldsz))) (\<lambda>r.
      case r of Some e \<Rightarrow> ret e | None \<Rightarrow> ret newsz))"

text \<open>
  \<open>freewalk\<close> calls itself on every lower table. The first argument bounds the depth of
  the calls: an Sv39 table has three levels.
\<close>

definition freewalk_entry :: "(addr \<Rightarrow> ('z kmem_scheme, unit) op) \<Rightarrow> addr \<Rightarrow> nat \<Rightarrow> ('z kmem_scheme, unit) op" where
  "freewalk_entry rec pagetable i =
     bind (load_op (pte_addr pagetable (of_nat i))) (\<lambda>pte.
     if pte AND PTE_V \<noteq> 0 \<and> pte AND (PTE_R OR PTE_W OR PTE_X) = 0 then
       bind (rec (PTE2PA pte)) (\<lambda>_.
       store_op (pte_addr pagetable (of_nat i)) 0)
     else if pte AND PTE_V \<noteq> 0 then panic ''freewalk: leaf''
     else ret ())"

fun freewalk_at :: "nat \<Rightarrow> addr \<Rightarrow> ('z kmem_scheme, unit) op" where
  "freewalk_at 0 pagetable = spin"
| "freewalk_at (Suc depth) pagetable =
     bind (for_each [0..<512] (freewalk_entry (freewalk_at depth) pagetable)) (\<lambda>_.
     kfree pagetable)"

definition freewalk :: "addr \<Rightarrow> ('z kmem_scheme, unit) op" where
  "freewalk pagetable = freewalk_at 3 pagetable"

definition uvmfree :: "addr \<Rightarrow> uint64 \<Rightarrow> ('z kmem_scheme, unit) op" where
  "uvmfree pagetable sz =
     bind (if sz > 0 then uvmunmap pagetable 0 (PGROUNDUP sz div PGSIZE) True else ret ()) (\<lambda>_.
     freewalk pagetable)"

definition uvmcopy_pass :: "addr \<Rightarrow> addr \<Rightarrow> uint64 \<Rightarrow> ('z kmem_scheme, uint64 option) op" where
  "uvmcopy_pass old new i =
     bind (walk old i False) (\<lambda>pte.
     if pte = 0 then panic ''uvmcopy: pte should exist'' else
     bind (load_op pte) (\<lambda>v.
     if v AND PTE_V = 0 then panic ''uvmcopy: page not present'' else
     let pa = PTE2PA v; flags = PTE_FLAGS v in
     bind kalloc (\<lambda>page.
     if page = 0 then ret (Some i) else
     bind (modify (\<lambda>s. s\<lparr>mem := memmove (mem s) page pa 4096\<rparr>)) (\<lambda>_.
     bind (mappages new i PGSIZE page flags) (\<lambda>r.
     if r \<noteq> 0 then bind (kfree page) (\<lambda>_. ret (Some i)) else ret None)))))"

text \<open>A pass that fails returns the \<open>i\<close> with which the code jumps to \<open>err\<close>.\<close>

definition uvmcopy :: "addr \<Rightarrow> addr \<Rightarrow> uint64 \<Rightarrow> ('z kmem_scheme, int) op" where
  "uvmcopy old new sz =
     bind (for_first (page_steps 0 sz) (uvmcopy_pass old new)) (\<lambda>r.
     case r of
       None \<Rightarrow> ret 0
     | Some i \<Rightarrow> bind (uvmunmap new 0 (i div PGSIZE) True) (\<lambda>_. ret (-1)))"

definition uvmclear :: "addr \<Rightarrow> uint64 \<Rightarrow> ('z kmem_scheme, unit) op" where
  "uvmclear pagetable va =
     bind (walk pagetable va False) (\<lambda>pte.
     if pte = 0 then panic ''uvmclear'' else
     bind (load_op pte) (\<lambda>v.
     store_op pte (v AND NOT PTE_U)))"

section \<open>Copies between kernel and user memory\<close>

text \<open>The part of a copy that stays inside the page of \<open>va\<close>.\<close>

definition chunk :: "uint64 \<Rightarrow> uint64 \<Rightarrow> uint64" where
  "chunk va len = (let n = PGSIZE - (va - PGROUNDDOWN va) in if n > len then len else n)"

lemma chunk_pos: "len \<noteq> 0 \<Longrightarrow> 0 < unat (chunk va len) \<and> unat (chunk va len) \<le> unat len"
proof -
  assume len: "len \<noteq> 0"
  have "unat (va - PGROUNDDOWN va) < 4096" by (simp add: PGROUNDDOWN_diff)
  then have "PGSIZE - (va - PGROUNDDOWN va) \<noteq> 0" by (auto simp: PGSIZE_def)
  then have "0 < unat (PGSIZE - (va - PGROUNDDOWN va))" by (simp add: unat_gt_0)
  then show ?thesis using len by (simp add: chunk_def Let_def unat_gt_0 word_le_nat_alt not_less)
qed

function copyout :: "addr \<Rightarrow> uint64 \<Rightarrow> cstr \<Rightarrow> uint64 \<Rightarrow> ('z kmem_scheme, int) op" where
  "copyout pagetable dstva src len =
     (if len = 0 then ret 0 else
      let va0 = PGROUNDDOWN dstva; n = chunk dstva len in
      bind (walkaddr pagetable va0) (\<lambda>pa0.
      if pa0 = 0 then ret (-1) else
      bind (write_op (pa0 + (dstva - va0)) src (unat n)) (\<lambda>_.
      copyout pagetable (va0 + PGSIZE) (\<lambda>i. src (unat n + i)) (len - n))))"
  by pat_completeness auto

termination copyout
proof (relation "measure (\<lambda>(_, _, _, len). unat len)", goal_cases)
  case 1
  show ?case by simp
next
  case (2 pagetable dstva src len va0 n pa0 u)
  then show ?case using chunk_pos[of len dstva] by (simp add: unat_sub word_le_nat_alt)
qed

text \<open>\<open>copyin\<close> returns its result together with the destination array.\<close>

function copyin_at :: "addr \<Rightarrow> cstr \<Rightarrow> nat \<Rightarrow> uint64 \<Rightarrow> uint64 \<Rightarrow> ('z kmem_scheme, int \<times> cstr) op" where
  "copyin_at pagetable dst d srcva len =
     (if len = 0 then ret (0, dst) else
      let va0 = PGROUNDDOWN srcva; n = chunk srcva len in
      bind (walkaddr pagetable va0) (\<lambda>pa0.
      if pa0 = 0 then ret (-1, dst) else
      bind (reads mem) (\<lambda>m.
      copyin_at pagetable
        (\<lambda>i. if d \<le> i \<and> i < d + unat n then m (pa0 + (srcva - va0) + of_nat (i - d)) else dst i)
        (d + unat n) (va0 + PGSIZE) (len - n))))"
  by pat_completeness auto

termination copyin_at
proof (relation "measure (\<lambda>(_, _, _, _, len). unat len)", goal_cases)
  case 1
  show ?case by simp
next
  case (2 pagetable dst d srcva len va0 n pa0 u)
  then show ?case using chunk_pos[of len srcva] by (simp add: unat_sub word_le_nat_alt)
qed

definition copyin :: "addr \<Rightarrow> cstr \<Rightarrow> uint64 \<Rightarrow> uint64 \<Rightarrow> ('z kmem_scheme, int \<times> cstr) op" where
  "copyin pagetable dst srcva len = copyin_at pagetable dst 0 srcva len"

text \<open>The inner loop of \<open>copyinstr\<close>: at most \<open>n\<close> bytes from \<open>p\<close>, up to a null byte.\<close>

fun copyinstr_bytes :: "memory \<Rightarrow> addr \<Rightarrow> nat \<Rightarrow> cstr \<Rightarrow> nat \<Rightarrow> cstr \<times> nat \<times> bool" where
  "copyinstr_bytes m p 0 dst d = (dst, d, False)"
| "copyinstr_bytes m p (Suc n) dst d =
     (if m p = 0 then (dst(d := 0), d, True)
      else copyinstr_bytes m (p + 1) n (dst(d := m p)) (d + 1))"

function copyinstr_at :: "addr \<Rightarrow> cstr \<Rightarrow> nat \<Rightarrow> uint64 \<Rightarrow> uint64 \<Rightarrow> ('z kmem_scheme, int \<times> cstr) op" where
  "copyinstr_at pagetable dst d srcva maxn =
     (if maxn = 0 then ret (-1, dst) else
      let va0 = PGROUNDDOWN srcva; n = chunk srcva maxn in
      bind (walkaddr pagetable va0) (\<lambda>pa0.
      if pa0 = 0 then ret (-1, dst) else
      bind (reads mem) (\<lambda>m.
      case copyinstr_bytes m (pa0 + (srcva - va0)) (unat n) dst d of (dst', d', got_null) \<Rightarrow>
        if got_null then ret (0, dst')
        else copyinstr_at pagetable dst' d' (va0 + PGSIZE) (maxn - n))))"
  by pat_completeness auto

termination copyinstr_at
proof (relation "measure (\<lambda>(_, _, _, _, maxn). unat maxn)", goal_cases)
  case 1
  show ?case by simp
next
  case (2 pagetable dst d srcva maxn va0 n pa0)
  then show ?case using chunk_pos[of maxn srcva] by (simp add: unat_sub word_le_nat_alt)
qed

definition copyinstr :: "addr \<Rightarrow> cstr \<Rightarrow> uint64 \<Rightarrow> uint64 \<Rightarrow> ('z kmem_scheme, int \<times> cstr) op" where
  "copyinstr pagetable dst srcva maxn = copyinstr_at pagetable dst 0 srcva maxn"

declare copyout.simps [simp del] copyin_at.simps [simp del] copyinstr_at.simps [simp del]

end
