(* ===== verification/PageTable.thy ===== *)
theory PageTable
  imports Vm
begin

unbundle bit_operations_syntax

text \<open>
  The meaning of the page tables of \<open>kernel/vm.c\<close>: a table of some level is a tree of
  pages in memory, and the tree stands for the function that gives each virtual
  address its leaf entry (0 where there is none).
\<close>

section \<open>Trees of table pages\<close>

definition pt_child :: "memory \<Rightarrow> addr \<Rightarrow> nat \<Rightarrow> addr option" where
  "pt_child m pt i = (let v = load64 m (pte_addr pt (of_nat i)) in
     if v AND PTE_V \<noteq> 0 then Some (PTE2PA v) else None)"

text \<open>The pages of a table and of the tables below it, and the part below one entry.\<close>

fun pt_pages :: "memory \<Rightarrow> nat \<Rightarrow> addr \<Rightarrow> addr set" where
  "pt_pages m 0 pt = {pt}"
| "pt_pages m (Suc l) pt =
     insert pt (\<Union>i \<in> {..<512}. case pt_child m pt i of None \<Rightarrow> {} | Some c \<Rightarrow> pt_pages m l c)"

definition pt_sub :: "memory \<Rightarrow> nat \<Rightarrow> addr \<Rightarrow> nat \<Rightarrow> addr set" where
  "pt_sub m l pt i = (case pt_child m pt i of None \<Rightarrow> {} | Some c \<Rightarrow> pt_pages m l c)"

text \<open>
  A well-formed table: page aligned, an entry of an inner table has no permission bits,
  and no page occurs twice in the tree.
\<close>

fun pt_ok :: "memory \<Rightarrow> nat \<Rightarrow> addr \<Rightarrow> bool" where
  "pt_ok m 0 pt \<longleftrightarrow> page_aligned pt"
| "pt_ok m (Suc l) pt \<longleftrightarrow> page_aligned pt \<and>
     (\<forall>i < 512. pt \<notin> pt_sub m l pt i) \<and>
     (\<forall>i < 512. \<forall>j < 512. i \<noteq> j \<longrightarrow> pt_sub m l pt i \<inter> pt_sub m l pt j = {}) \<and>
     (\<forall>i < 512. case pt_child m pt i of None \<Rightarrow> True
        | Some c \<Rightarrow> load64 m (pte_addr pt (of_nat i)) AND (PTE_R OR PTE_W OR PTE_X) = 0 \<and> pt_ok m l c)"

text \<open>The address of the leaf entry, and its value.\<close>

fun pt_walk :: "memory \<Rightarrow> nat \<Rightarrow> addr \<Rightarrow> uint64 \<Rightarrow> addr option" where
  "pt_walk m 0 pt va = Some (pte_addr pt (PX 0 va))"
| "pt_walk m (Suc l) pt va =
     (case pt_child m pt (unat (PX (Suc l) va)) of None \<Rightarrow> None | Some c \<Rightarrow> pt_walk m l c va)"

definition pt_leaf :: "memory \<Rightarrow> nat \<Rightarrow> addr \<Rightarrow> uint64 \<Rightarrow> uint64" where
  "pt_leaf m l pt va = (case pt_walk m l pt va of None \<Rightarrow> 0 | Some a \<Rightarrow> load64 m a)"

lemma pt_leaf_Suc:
  "pt_leaf m (Suc l) pt va =
     (case pt_child m pt (unat (PX (Suc l) va)) of None \<Rightarrow> 0 | Some c \<Rightarrow> pt_leaf m l c va)"
  by (simp add: pt_leaf_def split: option.split)

lemma pt_pages_Suc: "pt_pages m (Suc l) pt = insert pt (\<Union>i \<in> {..<512}. pt_sub m l pt i)"
  by (simp add: pt_sub_def)

declare pt_pages.simps(2) [simp del]

lemma pt_self [simp]: "pt \<in> pt_pages m l pt"
  by (cases l) (simp_all add: pt_pages_Suc)

lemma pt_sub_subset: "i < 512 \<Longrightarrow> pt_sub m l pt i \<subseteq> pt_pages m (Suc l) pt"
  by (auto simp: pt_pages_Suc)

lemma pt_sub_Some: "pt_child m pt i = Some c \<Longrightarrow> pt_sub m l pt i = pt_pages m l c"
  by (simp add: pt_sub_def)

lemma pt_sub_None: "pt_child m pt i = None \<Longrightarrow> pt_sub m l pt i = {}"
  by (simp add: pt_sub_def)

lemma pt_ok_aligned: "pt_ok m l pt \<Longrightarrow> p \<in> pt_pages m l pt \<Longrightarrow> page_aligned p"
proof (induction l arbitrary: pt)
  case 0
  then show ?case by simp
next
  case (Suc l)
  show ?case
  proof (cases "p = pt")
    case True
    then show ?thesis using Suc.prems(1) by simp
  next
    case False
    then obtain i where i: "i < 512" "p \<in> pt_sub m l pt i"
      using Suc.prems(2) by (auto simp: pt_pages_Suc)
    then obtain c where c: "pt_child m pt i = Some c" "p \<in> pt_pages m l c"
      by (auto simp: pt_sub_def split: option.splits)
    then have "pt_ok m l c" using Suc.prems(1) i by (auto split: option.splits)
    then show ?thesis using Suc.IH c(2) by blast
  qed
qed

section \<open>Entries and memory outside a tree\<close>

lemma cell_pte_addr: "unat i < 512 \<Longrightarrow> cell_in_page pt (pte_addr pt i)"
proof -
  assume i: "unat i < 512"
  have "unat (8 * i) = 8 * unat i"
    using i by (simp add: unat_word_ariths)
  then show ?thesis using i by (simp add: cell_in_page_def pte_addr_def)
qed

lemma cell_pte_addr_nat: "i < 512 \<Longrightarrow> cell_in_page pt (pte_addr pt (of_nat i))"
  by (rule cell_pte_addr) (simp add: unat_of_nat take_bit_eq_mod)

definition agree :: "addr set \<Rightarrow> memory \<Rightarrow> memory \<Rightarrow> bool" where
  "agree P m m' \<longleftrightarrow> (\<forall>p \<in> P. \<forall>b. in_page p b \<longrightarrow> m' b = m b)"

lemma agree_mono: "agree P m m' \<Longrightarrow> Q \<subseteq> P \<Longrightarrow> agree Q m m'"
  by (auto simp: agree_def)

lemma agree_load: "agree P m m' \<Longrightarrow> p \<in> P \<Longrightarrow> cell_in_page p a \<Longrightarrow> load64 m' a = load64 m a"
  by (rule load64_page_cong[of p a]) (auto simp: agree_def)

lemma agree_child: "agree P m m' \<Longrightarrow> pt \<in> P \<Longrightarrow> i < 512 \<Longrightarrow> pt_child m' pt i = pt_child m pt i"
  by (simp add: pt_child_def agree_load[OF _ _ cell_pte_addr_nat])

lemma agree_tree:
  assumes "agree (pt_pages m l pt) m m'"
  shows "pt_pages m' l pt = pt_pages m l pt"
    and "pt_ok m' l pt = pt_ok m l pt"
    and "pt_walk m' l pt va = pt_walk m l pt va"
    and "pt_leaf m' l pt va = pt_leaf m l pt va"
proof -
  have "pt_pages m' l pt = pt_pages m l pt \<and> pt_ok m' l pt = pt_ok m l pt
      \<and> pt_walk m' l pt va = pt_walk m l pt va \<and> pt_leaf m' l pt va = pt_leaf m l pt va"
    using assms
  proof (induction l arbitrary: pt)
    case 0
    then show ?case
      using agree_load[OF 0 _ cell_pte_addr[OF PX_bound[of 0 va]], of pt] by (simp add: pt_leaf_def)
  next
    case (Suc l)
    have ch: "pt_child m' pt i = pt_child m pt i" if "i < 512" for i
      using agree_child[OF Suc.prems _ that, of pt] by simp
    have IH: "pt_pages m' l c = pt_pages m l c \<and> pt_ok m' l c = pt_ok m l c
        \<and> pt_walk m' l c va = pt_walk m l c va \<and> pt_leaf m' l c va = pt_leaf m l c va"
      if "i < 512" "pt_child m pt i = Some c" for i c
      using Suc.IH[of c] agree_mono[OF Suc.prems, of "pt_pages m l c"]
        pt_sub_subset[OF that(1), of m l pt] pt_sub_Some[OF that(2), of l] by simp
    have sub: "pt_sub m' l pt i = pt_sub m l pt i" if "i < 512" for i
      using ch[OF that] IH[OF that] by (auto simp: pt_sub_def split: option.splits)
    have ld: "load64 m' (pte_addr pt (of_nat i)) = load64 m (pte_addr pt (of_nat i))" if "i < 512" for i
      using agree_load[OF Suc.prems _ cell_pte_addr_nat[OF that], of pt] by simp
    have "pt_ok m' (Suc l) pt = pt_ok m (Suc l) pt"
      using ch IH sub ld by (auto split: option.splits)
    moreover have "pt_pages m' (Suc l) pt = pt_pages m (Suc l) pt"
      using sub by (simp add: pt_pages_Suc)
    moreover have "pt_walk m' (Suc l) pt va = pt_walk m (Suc l) pt va
        \<and> pt_leaf m' (Suc l) pt va = pt_leaf m (Suc l) pt va"
      using ch[OF PX_bound] IH[OF PX_bound] by (auto simp: pt_leaf_Suc split: option.splits)
    ultimately show ?case by blast
  qed
  then show "pt_pages m' l pt = pt_pages m l pt" "pt_ok m' l pt = pt_ok m l pt"
    "pt_walk m' l pt va = pt_walk m l pt va" "pt_leaf m' l pt va = pt_leaf m l pt va" by blast+
qed

text \<open>A page of zeros is an empty table of any level.\<close>

lemma load64_zero: "(\<And>b. in_page p b \<Longrightarrow> m b = 0) \<Longrightarrow> cell_in_page p a \<Longrightarrow> load64 m a = 0"
  using load64_page_cong[of p a m "\<lambda>_. 0"] by (simp add: load64_def)

lemma empty_table:
  assumes "page_aligned pt" "\<And>b. in_page pt b \<Longrightarrow> m b = 0"
  shows "pt_pages m l pt = {pt}" "pt_ok m l pt" "pt_leaf m l pt va = 0"
    "i < 512 \<Longrightarrow> pt_child m pt i = None"
proof -
  have ch: "pt_child m pt i = None" if "i < 512" for i
    using load64_zero[OF assms(2) cell_pte_addr_nat[OF that]] by (simp add: pt_child_def)
  then show "i < 512 \<Longrightarrow> pt_child m pt i = None" .
  show "pt_pages m l pt = {pt}" "pt_ok m l pt"
    using ch assms(1) by (cases l; simp add: pt_pages_Suc pt_sub_def)+
  show "pt_leaf m l pt va = 0"
    using ch[OF PX_bound] load64_zero[OF assms(2) cell_pte_addr[OF PX_bound]]
    by (cases l) (simp_all add: pt_leaf_def)
qed

section \<open>Adding tables\<close>

definition same_but_mem :: "'z kmem_scheme \<Rightarrow> 'z kmem_scheme \<Rightarrow> bool" where
  "same_but_mem s t \<longleftrightarrow> (\<exists>m f. t = s\<lparr>mem := m, freelist := f\<rparr>)"

lemma same_but_mem_refl [simp]: "same_but_mem s s"
  unfolding same_but_mem_def by (rule exI[of _ "mem s"], rule exI[of _ "freelist s"]) simp

lemma same_but_mem_trans: "same_but_mem s t \<Longrightarrow> same_but_mem t u \<Longrightarrow> same_but_mem s u"
  unfolding same_but_mem_def by (elim exE, hypsubst, intro exI) simp

lemma same_but_mem_upd [simp]: "same_but_mem s (s\<lparr>mem := m\<rparr>)" "same_but_mem s (s\<lparr>freelist := f\<rparr>)"
  "same_but_mem s (s\<lparr>mem := m, freelist := f\<rparr>)"
proof -
  show "same_but_mem s (s\<lparr>mem := m\<rparr>)"
    unfolding same_but_mem_def by (rule exI[of _ m], rule exI[of _ "freelist s"]) simp
  show "same_but_mem s (s\<lparr>freelist := f\<rparr>)"
    unfolding same_but_mem_def by (rule exI[of _ "mem s"], rule exI[of _ f]) simp
  show "same_but_mem s (s\<lparr>mem := m, freelist := f\<rparr>)" by (auto simp: same_but_mem_def)
qed

lemma same_but_mem_after [simp]: "same_but_mem s (after_kalloc s)" "same_but_mem s (after_kfree p s)"
  by (simp_all add: after_kalloc_def after_kfree_def)

lemma same_but_memD:
  assumes "same_but_mem s t"
  shows "kend t = kend s" "cpu_ok t = cpu_ok s" "locks t = locks s" "tp t = tp s"
    "curproc t = curproc s" "kmem_free t = kmem_free s" "kernel_page t = kernel_page s"
    "kmem.more t = kmem.more s"
  using assms by (auto simp: same_but_mem_def kmem_free_def kernel_page_def)

text \<open>
  \<open>pt_ext l pt s ps t qs\<close>: from \<open>s\<close> with free pages \<open>ps\<close> to \<open>t\<close> with free pages \<open>qs\<close> some free
  pages have become tables of the tree of \<open>pt\<close>; no leaf entry has changed, and memory
  has changed only in the tree and in free pages.
\<close>

definition pt_ext :: "nat \<Rightarrow> addr \<Rightarrow> 'z kmem_scheme \<Rightarrow> addr list \<Rightarrow> 'z kmem_scheme \<Rightarrow> addr list \<Rightarrow> bool" where
  "pt_ext l pt s ps t qs \<longleftrightarrow> same_but_mem s t \<and> kmem_inv t qs \<and> set qs \<subseteq> set ps \<and>
     pt_ok (mem t) l pt \<and> pt_pages (mem s) l pt \<subseteq> pt_pages (mem t) l pt \<and>
     pt_pages (mem t) l pt \<union> set qs = pt_pages (mem s) l pt \<union> set ps \<and>
     pt_pages (mem t) l pt \<inter> set qs = {} \<and>
     (\<forall>va. pt_leaf (mem t) l pt va = pt_leaf (mem s) l pt va) \<and>
     (\<forall>b. (\<forall>p \<in> pt_pages (mem s) l pt \<union> set ps. \<not> in_page p b) \<longrightarrow> mem t b = mem s b)"

lemma pt_extD:
  assumes "pt_ext l pt s ps t qs"
  shows "same_but_mem s t" "kmem_inv t qs" "set qs \<subseteq> set ps" "pt_ok (mem t) l pt"
    "pt_pages (mem s) l pt \<subseteq> pt_pages (mem t) l pt"
    "pt_pages (mem t) l pt \<union> set qs = pt_pages (mem s) l pt \<union> set ps"
    "pt_pages (mem t) l pt \<inter> set qs = {}"
    "pt_leaf (mem t) l pt va = pt_leaf (mem s) l pt va"
    "\<forall>p \<in> pt_pages (mem s) l pt \<union> set ps. \<not> in_page p b \<Longrightarrow> mem t b = mem s b"
  using assms unfolding pt_ext_def by simp_all

lemma pt_ext_refl:
  "kmem_inv s ps \<Longrightarrow> pt_ok (mem s) l pt \<Longrightarrow> pt_pages (mem s) l pt \<inter> set ps = {} \<Longrightarrow> pt_ext l pt s ps s ps"
  by (simp add: pt_ext_def)

lemma pt_ext_trans:
  assumes "pt_ext l pt s ps t qs" "pt_ext l pt t qs u rs"
  shows "pt_ext l pt s ps u rs"
  using assms same_but_mem_trans[of s t u] unfolding pt_ext_def by simp blast

lemma pt_ext_kernel:
  assumes "pt_ext l pt s ps t qs" "kmem_inv s ps" "\<forall>p \<in> pt_pages (mem s) l pt. kernel_page s p"
  shows "\<forall>p \<in> pt_pages (mem t) l pt. kernel_page t p"
proof
  fix p assume "p \<in> pt_pages (mem t) l pt"
  then have "p \<in> pt_pages (mem s) l pt \<union> set ps" using pt_extD(6)[OF assms(1)] by blast
  then show "kernel_page t p"
    using assms(2,3) same_but_memD(7)[OF pt_extD(1)[OF assms(1)]] by (auto simp: kmem_inv_def)
qed

text \<open>Outside its own pages and the free pages an extension changes nothing.\<close>

lemma pt_ext_agree:
  assumes "pt_ext l c s ps t qs" "pt_ok (mem s) l c" "kmem_inv s ps"
    and "P \<inter> (pt_pages (mem s) l c \<union> set ps) = {}" "\<forall>p \<in> P. page_aligned p"
  shows "agree P (mem s) (mem t)"
  unfolding agree_def
proof (intro ballI allI impI)
  fix p b assume p: "p \<in> P" "in_page p b"
  have "\<not> in_page q b" if "q \<in> pt_pages (mem s) l c \<union> set ps" for q
  proof -
    have "page_aligned q"
      using that pt_ok_aligned[OF assms(2)] assms(3) by (auto simp: kmem_inv_def kernel_page_def)
    then show ?thesis using in_page_unique[of p q b] p that assms(4,5) by blast
  qed
  then show "mem t b = mem s b" using assms(1) by (auto simp: pt_ext_def)
qed

text \<open>
  A change of memory that replaces the subtree below one entry by another tree with the
  same root, whose further pages are new.
\<close>

lemma pt_graft:
  assumes ok: "pt_ok m (Suc l) pt" and i: "i < 512" and c: "pt_child m pt i = Some c"
    and ag: "agree (pt_pages m (Suc l) pt - pt_pages m l c) m m'"
    and ok': "pt_ok m' l c" and sup: "pt_pages m l c \<subseteq> pt_pages m' l c"
    and new: "pt_pages m' l c \<subseteq> pt_pages m l c \<union> N" "N \<inter> pt_pages m (Suc l) pt = {}"
  shows "pt_ok m' (Suc l) pt"
    and "pt_pages m' (Suc l) pt = pt_pages m (Suc l) pt \<union> pt_pages m' l c"
    and "pt_child m' pt i = Some c"
    and "pt_leaf m' (Suc l) pt va =
           (if unat (PX (Suc l) va) = i then pt_leaf m' l c va else pt_leaf m (Suc l) pt va)"
proof -
  have sub_i: "pt_sub m l pt i = pt_pages m l c" using c by (rule pt_sub_Some)
  have dj: "pt_sub m l pt j \<inter> pt_sub m l pt k = {}" if "j < 512" "k < 512" "j \<noteq> k" for j k
    using ok that by simp
  have npt: "pt \<notin> pt_sub m l pt j" if "j < 512" for j using ok that by simp
  have subs: "pt_sub m l pt j \<subseteq> pt_pages m (Suc l) pt" if "j < 512" for j
    using pt_sub_subset[OF that] .
  have agpt: "agree {pt} m m'"
    using agree_mono[OF ag, of "{pt}"] npt[OF i] sub_i by simp
  have ch: "pt_child m' pt j = pt_child m pt j" if "j < 512" for j
    using agree_child[OF agpt _ that] by simp
  have ld: "load64 m' (pte_addr pt (of_nat j)) = load64 m (pte_addr pt (of_nat j))"
    if "j < 512" for j using agree_load[OF agpt _ cell_pte_addr_nat[OF that]] by simp
  have sib: "agree (pt_pages m l d) m m'" if "j < 512" "j \<noteq> i" "pt_child m pt j = Some d" for j d
    using agree_mono[OF ag, of "pt_pages m l d"] subs[OF that(1)] pt_sub_Some[OF that(3), of l]
      dj[OF that(1) i that(2)] sub_i by auto
  have sub: "pt_sub m' l pt j = (if j = i then pt_pages m' l c else pt_sub m l pt j)" if "j < 512" for j
    using ch[OF that] c agree_tree(1)[OF sib[OF that]] by (auto simp: pt_sub_def split: option.splits)
  show "pt_child m' pt i = Some c" using ch[OF i] c by simp
  have other: "pt_pages m' l c \<inter> Q = {}" if "Q \<subseteq> pt_pages m (Suc l) pt" "pt_pages m l c \<inter> Q = {}" for Q
    using new that by blast
  show "pt_pages m' (Suc l) pt = pt_pages m (Suc l) pt \<union> pt_pages m' l c"
    using sub i sup sub_i unfolding pt_pages_Suc by (auto split: if_splits)
  have "pt \<notin> pt_sub m' l pt j" if "j < 512" for j
    using sub[OF that] npt[OF i] npt[OF that] other[of "{pt}"] sub_i by auto
  moreover have "pt_sub m' l pt j \<inter> pt_sub m' l pt k = {}" if "j < 512" "k < 512" "j \<noteq> k" for j k
    using sub[OF that(1)] sub[OF that(2)] dj[OF that] other[OF subs[OF that(1)]] other[OF subs[OF that(2)]]
      dj[OF i that(2)] dj[OF i that(1)] sub_i that(3) by (auto split: if_splits)
  moreover have "case pt_child m' pt j of None \<Rightarrow> True
      | Some d \<Rightarrow> load64 m' (pte_addr pt (of_nat j)) AND (PTE_R OR PTE_W OR PTE_X) = 0 \<and> pt_ok m' l d"
    if "j < 512" for j
    using that ok ch[OF that] ld[OF that] agree_tree(2)[OF sib[OF that]] ok' c
    by (cases "j = i") (auto split: option.splits)
  ultimately show "pt_ok m' (Suc l) pt" using ok by simp
  show "pt_leaf m' (Suc l) pt va =
          (if unat (PX (Suc l) va) = i then pt_leaf m' l c va else pt_leaf m (Suc l) pt va)"
    using ch[OF PX_bound[of "Suc l" va]] c agree_tree(4)[OF sib[OF PX_bound[of "Suc l" va]], of _ va]
    by (cases "pt_child m pt (unat (PX (Suc l) va))") (auto simp: pt_leaf_Suc)
qed

text \<open>An extension of the table below an entry extends the whole tree.\<close>

lemma pt_ext_child:
  assumes ok: "pt_ok (mem s) (Suc l) pt" and inv: "kmem_inv s ps"
    and disj: "pt_pages (mem s) (Suc l) pt \<inter> set ps = {}"
    and i: "i < 512" and c: "pt_child (mem s) pt i = Some c"
    and ext: "pt_ext l c s ps t qs"
  shows "pt_ext (Suc l) pt s ps t qs" "pt_child (mem t) pt i = Some c"
proof -
  have okc: "pt_ok (mem s) l c" using ok i c by (auto split: option.splits)
  note E = pt_extD[OF ext]
  have "agree (pt_pages (mem s) (Suc l) pt - pt_pages (mem s) l c) (mem s) (mem t)"
    by (rule pt_ext_agree[OF ext okc inv]) (use disj pt_ok_aligned[OF ok] in auto)
  note g' = pt_graft[OF ok i c this E(4,5), of "set ps"]
  have new: "pt_pages (mem t) l c \<subseteq> pt_pages (mem s) l c \<union> set ps" using E(6) by blast
  have sub: "pt_pages (mem s) l c \<subseteq> pt_pages (mem s) (Suc l) pt"
    using pt_sub_subset[OF i, of "mem s" l pt] pt_sub_Some[OF c, of l] by simp
  have "set ps \<inter> pt_pages (mem s) (Suc l) pt = {}" using disj by blast
  note g = g'[OF new this]
  show "pt_child (mem t) pt i = Some c" by (rule g(3))
  have "pt_leaf (mem t) (Suc l) pt va = pt_leaf (mem s) (Suc l) pt va" for va
    using g(4)[of va] E(8)[of va] c by (simp add: pt_leaf_Suc)
  moreover have "pt_pages (mem t) (Suc l) pt \<union> set qs = pt_pages (mem s) (Suc l) pt \<union> set ps"
    unfolding g(2) using E(6) sub by (auto simp: set_eq_iff)
  moreover have "pt_pages (mem t) (Suc l) pt \<inter> set qs = {}"
    unfolding g(2) using E(3,7) disj by auto
  moreover have "mem t b = mem s b" if "\<forall>p \<in> pt_pages (mem s) (Suc l) pt \<union> set ps. \<not> in_page p b" for b
    using E(9)[of b] that sub by blast
  ultimately show "pt_ext (Suc l) pt s ps t qs"
    using E(1,2,3) g(1,2) unfolding pt_ext_def by (simp del: pt_ok.simps)
qed

text \<open>Linking an empty page below a free entry.\<close>

lemma pt_link:
  assumes ok: "pt_ok m (Suc l) pt" and i: "i < 512" and c: "pt_child m pt i = None"
    and pg: "page_aligned pg" "pg \<notin> pt_pages m (Suc l) pt" "\<And>b. in_page pg b \<Longrightarrow> m' b = 0"
    and ag: "agree (pt_pages m (Suc l) pt - {pt}) m m'"
    and old: "\<And>j. j < 512 \<Longrightarrow> j \<noteq> i \<Longrightarrow>
      load64 m' (pte_addr pt (of_nat j)) = load64 m (pte_addr pt (of_nat j))"
    and new: "load64 m' (pte_addr pt (of_nat i)) = PA2PTE pg OR PTE_V"
  shows "pt_ok m' (Suc l) pt" and "pt_pages m' (Suc l) pt = insert pg (pt_pages m (Suc l) pt)"
    and "pt_child m' pt i = Some pg" and "pt_leaf m' (Suc l) pt va = pt_leaf m (Suc l) pt va"
proof -
  have V: "PTE_FLAGS PTE_V = PTE_V" by (simp add: PTE_FLAGS_def PTE_V_def)
  have RWX: "PTE_FLAGS (PTE_R OR PTE_W OR PTE_X) = PTE_R OR PTE_W OR PTE_X"
    by (simp add: PTE_FLAGS_def page_consts)
  have ci: "pt_child m' pt i = Some pg"
    using PTE_flag_test[OF V, of pg PTE_V] PTE2PA_PA2PTE[OF pg(1) V] new
    by (simp add: pt_child_def PTE_V_def)
  then show "pt_child m' pt i = Some pg" .
  have fl: "load64 m' (pte_addr pt (of_nat i)) AND (PTE_R OR PTE_W OR PTE_X) = 0"
    using PTE_flag_test[OF RWX, of pg PTE_V] new by (simp add: page_consts)
  have ch: "pt_child m' pt j = pt_child m pt j" if "j < 512" "j \<noteq> i" for j
    using old[OF that] by (simp add: pt_child_def)
  have npt: "pt \<notin> pt_sub m l pt j" if "j < 512" for j using ok that by simp
  have subs: "pt_sub m l pt j \<subseteq> pt_pages m (Suc l) pt" if "j < 512" for j
    using pt_sub_subset[OF that] .
  have sib: "agree (pt_pages m l d) m m'" if "j < 512" "pt_child m pt j = Some d" for j d
    using agree_mono[OF ag, of "pt_pages m l d"] subs[OF that(1)] pt_sub_Some[OF that(2), of l]
      npt[OF that(1)] by auto
  note e = empty_table[OF pg(1) pg(3)]
  have sub: "pt_sub m' l pt j = (if j = i then {pg} else pt_sub m l pt j)" if "j < 512" for j
    using ch[OF that] ci agree_tree(1)[OF sib[OF that]] e(1)[where l = l]
    by (auto simp: pt_sub_def split: option.splits)
  have "pg \<notin> pt_sub m l pt j" if "j < 512" for j using subs[OF that] pg(2) by blast
  then have "pt_sub m' l pt j \<inter> pt_sub m' l pt k = {}" if "j < 512" "k < 512" "j \<noteq> k" for j k
    using sub[OF that(1)] sub[OF that(2)] ok that by (auto split: if_splits)
  moreover have "pt \<notin> pt_sub m' l pt j" if "j < 512" for j
    using sub[OF that] npt[OF that] pg(2) by (auto simp: pt_pages_Suc)
  moreover have "case pt_child m' pt j of None \<Rightarrow> True
      | Some d \<Rightarrow> load64 m' (pte_addr pt (of_nat j)) AND (PTE_R OR PTE_W OR PTE_X) = 0 \<and> pt_ok m' l d"
    if "j < 512" for j
    using that ok ch[OF that] old[OF that] agree_tree(2)[OF sib[OF that]] ci fl e(2)[where l = l]
    by (cases "j = i") (auto split: option.splits)
  ultimately show "pt_ok m' (Suc l) pt" using ok by simp
  show "pt_pages m' (Suc l) pt = insert pg (pt_pages m (Suc l) pt)"
    using sub i pt_sub_None[OF c] unfolding pt_pages_Suc by (auto split: if_splits)
  show "pt_leaf m' (Suc l) pt va = pt_leaf m (Suc l) pt va"
    using ch[OF PX_bound[of "Suc l" va]] ci c e(3)[where l = l and va = va]
      agree_tree(4)[OF sib[OF PX_bound[of "Suc l" va]], of _ va]
    by (cases "pt_child m pt (unat (PX (Suc l) va))"; cases "unat (PX (Suc l) va) = i")
      (auto simp: pt_leaf_Suc)
qed

lemma unat_pte_addr:
  assumes "page_aligned pt" "unat i < 512"
  shows "unat (pte_addr pt i) = unat pt + 8 * unat i"
proof -
  have "unat (8 * i) = 8 * unat i" using assms(2) by (simp add: unat_word_ariths)
  moreover have "unat pt + 8 * unat i < 2 ^ 64"
    using aligned_no_wrap[OF assms(1)] assms(2) by simp
  ultimately show ?thesis using unat_add_nowrap[of pt "8 * i"] by (simp add: pte_addr_def)
qed

lemma pte_addr_nonzero:
  assumes "kernel_page s p" "kend s \<noteq> 0" "unat i < 512"
  shows "pte_addr p i \<noteq> 0"
proof -
  have "p \<noteq> 0" using assms(1,2) by (auto simp: kernel_page_def)
  then have "unat (pte_addr p i) \<noteq> 0"
    using unat_pte_addr[OF _ assms(3), of p] assms(1) by (simp add: kernel_page_def unat_eq_0)
  then show ?thesis by (auto simp: unat_eq_0)
qed

lemma load64_pte_other:
  assumes "page_aligned pt" "unat i < 512" "unat j < 512" "i \<noteq> j"
  shows "load64 (store64 m (pte_addr pt i) v) (pte_addr pt j) = load64 m (pte_addr pt j)"
proof -
  obtain k where k: "unat pt = 4096 * k" using assms(1) by (auto simp: page_aligned_dvd)
  have u: "unat (pte_addr pt i) = 8 * (512 * k + unat i)" "unat (pte_addr pt j) = 8 * (512 * k + unat j)"
    using unat_pte_addr assms k by simp_all
  have "pte_addr pt i \<noteq> pte_addr pt j"
    using assms(4) u by (auto simp: word_unat_eq_iff)
  then show ?thesis using u by (intro load64_store64_other) simp_all
qed

lemma pt_ext_new:
  assumes ok: "pt_ok (mem s) (Suc l) pt" and inv: "kmem_inv s (pg # qs)"
    and disj: "pt_pages (mem s) (Suc l) pt \<inter> set (pg # qs) = {}"
    and kp: "\<forall>p \<in> pt_pages (mem s) (Suc l) pt. kernel_page s p"
    and i: "unat i < 512" and c: "pt_child (mem s) pt (unat i) = None"
    and t: "t = (after_kalloc s)\<lparr>mem := store64 (memset (mem (after_kalloc s)) pg 0 4096) (pte_addr pt i)
                  (PA2PTE pg OR PTE_V)\<rparr>"
  shows "pt_ext (Suc l) pt s (pg # qs) t qs" "pt_child (mem t) pt (unat i) = Some pg"
proof -
  note K = kmem_inv_kalloc[OF inv]
  have al: "page_aligned p" if "p \<in> pt_pages (mem s) (Suc l) pt" for p by (rule pt_ok_aligned[OF ok that])
  have pg: "page_aligned pg" "pg \<notin> pt_pages (mem s) (Suc l) pt" "pg \<noteq> pt"
    using K(4) disj pt_self[of pt "mem s" "Suc l"] by (auto simp: kernel_page_def)
  have M: "mem (after_kalloc s) = memset (mem s) pg 5 4096" using K(1,2) by (auto simp: after_kalloc_def)
  have mt: "mem t = store64 (memset (memset (mem s) pg 5 4096) pg 0 4096) (pte_addr pt i) (PA2PTE pg OR PTE_V)"
    by (simp add: t M)
  have same: "mem t b = mem s b" if "\<not> in_page pt b" "\<not> in_page pg b" for b
    using that store64_in_page[OF cell_pte_addr[OF i], of pt b] by (simp add: mt memset_page)
  have zero: "mem t b = 0" if "in_page pg b" for b
  proof -
    have "\<not> in_page pt b" using that in_page_unique[OF pg(1) al, of pt b] pg(3) by auto
    then show ?thesis
      using that store64_in_page[OF cell_pte_addr[OF i], of pt b] by (simp add: mt memset_page)
  qed
  have old: "load64 (mem t) (pte_addr pt (of_nat j)) = load64 (mem s) (pte_addr pt (of_nat j))"
    if "j < 512" "j \<noteq> unat i" for j
  proof -
    have uj: "unat (of_nat j :: uint64) = j" using that(1) by (simp add: unat_of_nat take_bit_eq_mod)
    then have "load64 (mem t) (pte_addr pt (of_nat j))
        = load64 (memset (memset (mem s) pg 5 4096) pg 0 4096) (pte_addr pt (of_nat j))"
      unfolding mt using that i al[OF pt_self] by (intro load64_pte_other) auto
    then show ?thesis
      using load64_memset_other[OF pg(1) al[OF pt_self] pg(3) cell_pte_addr_nat[OF that(1)]] by simp
  qed
  have "agree (pt_pages (mem s) (Suc l) pt - {pt}) (mem s) (mem t)"
    unfolding agree_def using same in_page_unique[OF _ al] al pg(1,2) by (metis DiffE pt_self singletonI)
  moreover have "load64 (mem t) (pte_addr pt (of_nat (unat i))) = PA2PTE pg OR PTE_V" by (simp add: mt)
  ultimately have g: "pt_ok (mem t) (Suc l) pt"
    "pt_pages (mem t) (Suc l) pt = insert pg (pt_pages (mem s) (Suc l) pt)"
    "pt_child (mem t) pt (unat i) = Some pg"
    "\<And>va. pt_leaf (mem t) (Suc l) pt va = pt_leaf (mem s) (Suc l) pt va"
    using pt_link[OF ok i c pg(1,2) zero _ old] by blast+
  show "pt_child (mem t) pt (unat i) = Some pg" by (rule g(3))
  have "kmem_inv t qs"
  proof (rule kmem_inv_write[OF K(5)])
    show "\<forall>p \<in> {pt, pg}. kernel_page (after_kalloc s) p" using kp K(4) by simp
    show "set qs \<inter> {pt, pg} = {}" using disj K(3) pt_self[of pt "mem s" "Suc l"] by (simp del: pt_self) blast
    show "wr_pages {pt, pg} (after_kalloc s) t"
      unfolding wr_pages_def t using same[unfolded mt] by (intro exI conjI[OF refl]) (auto simp: M memset_page mt)
  qed
  moreover have "same_but_mem s t"
    unfolding t by (rule same_but_mem_trans[OF same_but_mem_after(1)]) simp
  ultimately show "pt_ext (Suc l) pt s (pg # qs) t qs"
    unfolding pt_ext_def using g(1,2,4) disj K(3) same by (auto simp del: pt_ok.simps)
qed

section \<open>walk\<close>

lemma walk_from_lookup:
  "walk_from l pt va False s = Ret (case pt_walk (mem s) l pt va of None \<Rightarrow> 0 | Some a \<Rightarrow> a) s"
  by (induction l arbitrary: pt) (simp_all add: op_defs load_op_def pt_child_def)

lemma pt_walk_cell:
  "pt_walk m l pt va = Some a \<Longrightarrow> \<exists>p \<in> pt_pages m l pt. \<exists>i. unat i < 512 \<and> a = pte_addr p i"
proof (induction l arbitrary: pt)
  case 0
  then show ?case using PX_bound by auto
next
  case (Suc l)
  then obtain c where c: "pt_child m pt (unat (PX (Suc l) va)) = Some c" "pt_walk m l c va = Some a"
    by (auto split: option.splits)
  have "pt_pages m l c \<subseteq> pt_pages m (Suc l) pt"
    using pt_sub_subset[OF PX_bound, of m l pt "Suc l" va] pt_sub_Some[OF c(1), of l] by simp
  then show ?case using Suc.IH[OF c(2)] by blast
qed

text \<open>
  With \<open>alloc\<close> set, \<open>walk\<close> extends the tree; it returns 0 only when it ran out of pages,
  and otherwise the address of the leaf entry in the extended tree.
\<close>

lemma walk_from_alloc:
  assumes "kmem_free s" "kmem_inv s ps" "pt_ok (mem s) l pt" "pt_pages (mem s) l pt \<inter> set ps = {}"
    and "\<forall>p \<in> pt_pages (mem s) l pt. kernel_page s p"
  shows "\<exists>a t qs. walk_from l pt va True s = Ret a t \<and> pt_ext l pt s ps t qs \<and>
           (if a = 0 then qs = [] \<and> length ps < l else pt_walk (mem t) l pt va = Some a)"
  using assms
proof (induction l arbitrary: pt s ps)
  case 0
  have "pte_addr pt (PX 0 va) \<noteq> 0"
    using 0 by (intro pte_addr_nonzero[of s] PX_bound) (auto simp: kmem_inv_def)
  then show ?case using 0 pt_ext_refl[of s ps 0 pt] by (auto simp: op_defs)
next
  case (Suc l)
  let ?i = "PX (Suc l) va" and ?e = "pte_addr pt (PX (Suc l) va)"
  have step: ?case
    if u: "kmem_free u" "kmem_inv u rs" "pt_ok (mem u) (Suc l) pt"
      "pt_pages (mem u) (Suc l) pt \<inter> set rs = {}" "\<forall>p \<in> pt_pages (mem u) (Suc l) pt. kernel_page u p"
      and su: "pt_ext (Suc l) pt s ps u rs" and c: "pt_child (mem u) pt (unat ?i) = Some c"
      and run: "walk_from (Suc l) pt va True s = walk_from l c va True u"
      and ln: "length ps \<le> Suc (length rs)" for u rs c
  proof -
    have sub: "pt_pages (mem u) l c \<subseteq> pt_pages (mem u) (Suc l) pt"
      using pt_sub_subset[OF PX_bound, of "mem u" l pt "Suc l" va] pt_sub_Some[OF c, of l] by simp
    have "pt_ok (mem u) l c" using u(3) c PX_bound[of "Suc l" va] by (auto split: option.splits)
    then obtain a t qs where w: "walk_from l c va True u = Ret a t" "pt_ext l c u rs t qs"
        "if a = 0 then qs = [] \<and> length rs < l else pt_walk (mem t) l c va = Some a"
      using Suc.IH[OF u(1,2), of c] u(4,5) sub by blast
    note e = pt_ext_child[OF u(3,2,4) PX_bound c w(2)]
    show ?thesis using pt_ext_trans[OF su e(1)] e(2) w(1,3) run ln by (auto split: if_splits)
  qed
  show ?case
  proof (cases "pt_child (mem s) pt (unat ?i)")
    case (Some c)
    have "walk_from (Suc l) pt va True s = walk_from l c va True s"
      using Some by (auto simp: op_defs load_op_def pt_child_def Let_def split: if_splits)
    then show ?thesis using step[OF Suc.prems pt_ext_refl Some _ le_SucI[OF le_refl]] Suc.prems by blast
  next
    case None
    then have nv: "load64 (mem s) ?e AND PTE_V = 0" by (auto simp: pt_child_def Let_def split: if_splits)
    show ?thesis
    proof (cases ps)
      case Nil
      then have "walk_from (Suc l) pt va True s = Ret 0 s"
        using nv Suc.prems(1,2) kmem_inv_Nil[of s] by (simp add: op_defs load_op_def kalloc_eq)
      then show ?thesis using pt_ext_refl[of s ps "Suc l" pt] Suc.prems Nil
        by (intro exI[of _ 0] exI[of _ s] exI[of _ "[]"]) (simp del: pt_ok.simps)
    next
      case (Cons pg qs)
      let ?t = "(after_kalloc s)\<lparr>mem := store64 (memset (mem (after_kalloc s)) pg 0 4096) ?e (PA2PTE pg OR PTE_V)\<rparr>"
      note K = kmem_inv_kalloc[OF Suc.prems(2)[unfolded Cons]]
      have run: "walk_from (Suc l) pt va True s = walk_from l pg va True ?t"
        using nv K(1,2) kalloc_eq[OF Suc.prems(1)]
        by (simp add: op_defs load_op_def memset_op_def store_op_def)
      note E = pt_ext_new[OF Suc.prems(3) Suc.prems(2)[unfolded Cons] Suc.prems(4)[unfolded Cons] Suc.prems(5) PX_bound None refl]
      note D = pt_extD[OF E(1)]
      have kp: "\<forall>p \<in> pt_pages (mem ?t) (Suc l) pt. kernel_page ?t p"
        using pt_ext_kernel[OF E(1) Suc.prems(2)[unfolded Cons] Suc.prems(5)] .
      show ?thesis
        using step[OF _ D(2,4,7) kp E(1)[folded Cons] E(2) run] Suc.prems(1) same_but_memD(6)[OF D(1)] Cons by simp
    qed
  qed
qed

section \<open>Setting a leaf entry\<close>

lemma pt_store:
  assumes "pt_ok m l pt" "pt_walk m l pt va = Some a"
  shows "pt_ok (store64 m a v) l pt \<and> pt_pages (store64 m a v) l pt = pt_pages m l pt \<and>
    pt_leaf (store64 m a v) l pt vb = (if \<forall>k \<le> l. PX k vb = PX k va then v else pt_leaf m l pt vb)"
  using assms
proof (induction l arbitrary: pt)
  case 0
  then show ?case
    using load64_pte_other[OF _ PX_bound PX_bound, of pt 0 va 0 vb] by (auto simp: pt_leaf_def)
next
  case (Suc l)
  let ?m = "store64 m a v"
  obtain c where c: "pt_child m pt (unat (PX (Suc l) va)) = Some c" and w: "pt_walk m l c va = Some a"
    using Suc.prems(2) by (auto split: option.splits)
  have okc: "pt_ok m l c" using Suc.prems(1) c PX_bound[of "Suc l" va] by (auto split: option.splits)
  note IH = Suc.IH[OF okc w]
  obtain p i where p: "p \<in> pt_pages m l c" and i: "unat i < 512" and a: "a = pte_addr p i"
    using pt_walk_cell[OF w] by blast
  have alp: "page_aligned p" by (rule pt_ok_aligned[OF okc p])
  have ag: "agree (pt_pages m (Suc l) pt - pt_pages m l c) m ?m"
    unfolding agree_def
  proof (intro ballI allI impI)
    fix q b assume q: "q \<in> pt_pages m (Suc l) pt - pt_pages m l c" "in_page q b"
    have "\<not> in_page p b"
      using in_page_unique[OF alp pt_ok_aligned[OF Suc.prems(1)], of q b] q p by blast
    then show "?m b = m b" unfolding a by (rule store64_in_page[OF cell_pte_addr[OF i]])
  qed
  have okc': "pt_ok ?m l c" and pgs: "pt_pages ?m l c = pt_pages m l c" using IH by blast+
  note g = pt_graft[OF Suc.prems(1) PX_bound c ag okc', of "{}", unfolded pgs, OF subset_refl _ Int_empty_left]
  have "(\<forall>k \<le> Suc l. PX k vb = PX k va) \<longleftrightarrow> PX (Suc l) vb = PX (Suc l) va \<and> (\<forall>k \<le> l. PX k vb = PX k va)"
    by (auto simp: le_Suc_eq)
  moreover have "pt_leaf m (Suc l) pt vb = pt_leaf m l c vb" if "PX (Suc l) vb = PX (Suc l) va"
    using that c by (simp add: pt_leaf_Suc)
  ultimately have "pt_leaf ?m (Suc l) pt vb =
      (if \<forall>k \<le> Suc l. PX k vb = PX k va then v else pt_leaf m (Suc l) pt vb)"
    using g(4)[of vb] IH by (auto simp: word_unat_eq_iff)
  moreover have "pt_pages m l c \<subseteq> pt_pages m (Suc l) pt"
    using pt_sub_subset[OF PX_bound, of m l pt "Suc l" va] pt_sub_Some[OF c, of l] by simp
  ultimately show ?case using g(1,2) by (auto simp del: pt_ok.simps)
qed

lemma PX_page: "PX k (PGROUNDDOWN va) = PX k va"
proof -
  have "unat (PGROUNDDOWN va) div 2 ^ (12 + 9 * k) = unat va div 2 ^ (12 + 9 * k)"
    by (simp add: unat_PGROUNDDOWN power_add div_mult2_eq)
  then show ?thesis by (simp add: word_unat_eq_iff unat_PX)
qed

lemma PX_page_iff:
  assumes "va < MAXVA" "vb < MAXVA"
  shows "(\<forall>k \<le> 2. PX k vb = PX k va) \<longleftrightarrow> PGROUNDDOWN vb = PGROUNDDOWN va"
proof
  assume a: "\<forall>k \<le> 2. PX k vb = PX k va"
  have "PX 0 vb = PX 0 va" "PX 1 vb = PX 1 va" "PX 2 vb = PX 2 va"
    using spec[OF a, of 0] spec[OF a, of 1] spec[OF a, of 2] by simp_all
  then have "PX 2 (PGROUNDDOWN vb) = PX 2 (PGROUNDDOWN va)"
    "PX 1 (PGROUNDDOWN vb) = PX 1 (PGROUNDDOWN va)" "PX 0 (PGROUNDDOWN vb) = PX 0 (PGROUNDDOWN va)"
    by (simp_all only: PX_page)
  moreover have "PGROUNDDOWN va < MAXVA" "PGROUNDDOWN vb < MAXVA"
    using le_less_trans[OF PGROUNDDOWN_le assms(1)] le_less_trans[OF PGROUNDDOWN_le assms(2)] .
  ultimately show "PGROUNDDOWN vb = PGROUNDDOWN va"
    using PX_inj[of "PGROUNDDOWN vb" "PGROUNDDOWN va"] by simp
next
  assume eq: "PGROUNDDOWN vb = PGROUNDDOWN va"
  have "PX k vb = PX k va" for k using PX_page[of k vb] PX_page[of k va] unfolding eq by simp
  then show "\<forall>k \<le> 2. PX k vb = PX k va" by blast
qed

section \<open>Address spaces\<close>

text \<open>
  The map that a table stands for, and an address space \<open>vmspace s pt ps F\<close>: the
  allocator has free pages \<open>ps\<close> and the tree of \<open>pt\<close> stands for \<open>F\<close>.
\<close>

definition pt_map :: "memory \<Rightarrow> addr \<Rightarrow> uint64 \<Rightarrow> uint64" where
  "pt_map m pt va = (if va < MAXVA then pt_leaf m 2 pt va else 0)"

text \<open>
  The upper half of the root table serves addresses from \<open>MAXVA\<close> on, which \<open>walk\<close>
  refuses, so it stays empty.
\<close>

definition pt_upper :: "memory \<Rightarrow> addr \<Rightarrow> bool" where
  "pt_upper m pt \<longleftrightarrow> (\<forall>va. 256 \<le> unat (PX 2 va) \<longrightarrow> pt_leaf m 2 pt va = 0)"

definition vmspace :: "'z kmem_scheme \<Rightarrow> addr \<Rightarrow> addr list \<Rightarrow> (uint64 \<Rightarrow> uint64) \<Rightarrow> bool" where
  "vmspace s pt ps F \<longleftrightarrow> kmem_free s \<and> kmem_inv s ps \<and> pt_ok (mem s) 2 pt \<and>
     pt_pages (mem s) 2 pt \<inter> set ps = {} \<and> (\<forall>p \<in> pt_pages (mem s) 2 pt. kernel_page s p) \<and>
     pt_map (mem s) pt = F \<and> pt_upper (mem s) pt"

definition pt_frame :: "addr \<Rightarrow> 'z kmem_scheme \<Rightarrow> addr list \<Rightarrow> 'z kmem_scheme \<Rightarrow> addr list \<Rightarrow> bool" where
  "pt_frame pt s ps t qs \<longleftrightarrow> same_but_mem s t \<and> set qs \<subseteq> set ps \<and>
     pt_pages (mem s) 2 pt \<subseteq> pt_pages (mem t) 2 pt \<and>
     pt_pages (mem t) 2 pt \<union> set qs = pt_pages (mem s) 2 pt \<union> set ps \<and>
     (\<forall>b. (\<forall>p \<in> pt_pages (mem s) 2 pt \<union> set ps. \<not> in_page p b) \<longrightarrow> mem t b = mem s b)"

lemma pt_frame_refl [simp]: "pt_frame pt s ps s ps"
  by (simp add: pt_frame_def)

lemma pt_frame_trans: "pt_frame pt s ps t qs \<Longrightarrow> pt_frame pt t qs u rs \<Longrightarrow> pt_frame pt s ps u rs"
  using same_but_mem_trans[of s t u] unfolding pt_frame_def by simp blast

lemma pt_ext_vmspace:
  assumes "pt_ext 2 pt s ps t qs" "vmspace s pt ps F"
  shows "vmspace t pt qs F" "pt_frame pt s ps t qs"
proof -
  note D = pt_extD[OF assms(1)]
  have "pt_map (mem t) pt = pt_map (mem s) pt" by (rule ext) (simp add: pt_map_def D(8))
  moreover have "pt_upper (mem t) pt = pt_upper (mem s) pt" by (simp add: pt_upper_def D(8))
  ultimately show "vmspace t pt qs F"
    using assms(2) D(2,4,7) same_but_memD(6)[OF D(1)] pt_ext_kernel[OF assms(1)]
    by (auto simp: vmspace_def)
  show "pt_frame pt s ps t qs" using D(1,3,5,6,9) by (auto simp: pt_frame_def)
qed

lemma walk_alloc:
  assumes "vmspace s pt ps F" "va < MAXVA"
  shows "\<exists>a t qs. walk pt va True s = Ret a t \<and> vmspace t pt qs F \<and> pt_frame pt s ps t qs \<and>
           (if a = 0 then qs = [] \<and> length ps < 2 else pt_walk (mem t) 2 pt va = Some a)"
proof -
  obtain a t qs where w: "walk_from 2 pt va True s = Ret a t" "pt_ext 2 pt s ps t qs"
      "if a = 0 then qs = [] \<and> length ps < 2 else pt_walk (mem t) 2 pt va = Some a"
    using walk_from_alloc[of s ps 2 pt va] assms(1) by (auto simp: vmspace_def)
  then show ?thesis
    using pt_ext_vmspace[OF w(2) assms(1)] assms(2) by (auto simp: walk_def not_le)
qed

lemma vmspace_walk_nonzero:
  assumes "vmspace s pt ps F" "pt_walk (mem s) 2 pt va = Some a"
  shows "a \<noteq> 0"
proof -
  obtain p i where "p \<in> pt_pages (mem s) 2 pt" "unat i < 512" "a = pte_addr p i"
    using pt_walk_cell[OF assms(2)] by blast
  then show ?thesis using assms(1) pte_addr_nonzero[of s p i] by (auto simp: vmspace_def kmem_inv_def)
qed

definition leaf_upd :: "(uint64 \<Rightarrow> uint64) \<Rightarrow> uint64 \<Rightarrow> uint64 \<Rightarrow> uint64 \<Rightarrow> uint64" where
  "leaf_upd F va v = (\<lambda>vb. if PGROUNDDOWN vb = PGROUNDDOWN va then v else F vb)"

lemma same_page_MAXVA:
  assumes "PGROUNDDOWN vb = PGROUNDDOWN va" "va < MAXVA"
  shows "vb < MAXVA"
proof -
  have "unat vb div 4096 = unat va div 4096"
    using assms(1) unat_PGROUNDDOWN[of va] unat_PGROUNDDOWN[of vb] by simp
  moreover have "x < 274877906944 \<longleftrightarrow> x div 4096 < 67108864" for x :: nat
    using div_less_iff_less_mult[of 4096 x 67108864] by simp
  ultimately show ?thesis using assms(2) by (simp add: word_less_nat_alt unat_MAXVA)
qed

lemma PX_lower: "va < MAXVA \<Longrightarrow> unat (PX 2 va) < 256"
proof -
  assume "va < MAXVA"
  then have "unat va < 256 * 2 ^ 30" by (simp add: word_less_nat_alt unat_MAXVA)
  then have "unat va div 2 ^ 30 < 256" by (simp only: div_less_iff_less_mult zero_less_power zero_less_numeral)
  then show ?thesis by (simp add: unat_PX)
qed

lemma vmspace_store:
  assumes vs: "vmspace s pt ps F" and va: "va < MAXVA" and w: "pt_walk (mem s) 2 pt va = Some a"
  shows "vmspace (s\<lparr>mem := store64 (mem s) a v\<rparr>) pt ps (leaf_upd F va v)"
    and "pt_frame pt s ps (s\<lparr>mem := store64 (mem s) a v\<rparr>) ps"
proof -
  have ok: "pt_ok (mem s) 2 pt" using vs by (simp add: vmspace_def)
  note st = pt_store[OF ok w, of v]
  obtain p i where p: "p \<in> pt_pages (mem s) 2 pt" and i: "unat i < 512" and a: "a = pte_addr p i"
    using pt_walk_cell[OF w] by blast
  have out: "store64 (mem s) a v b = mem s b" if "\<not> in_page p b" for b
    unfolding a by (rule store64_in_page[OF cell_pte_addr[OF i] that])
  have "kmem_inv (s\<lparr>mem := store64 (mem s) a v\<rparr>) ps"
  proof (rule kmem_inv_write)
    show "kmem_inv s ps" "\<forall>q \<in> {p}. kernel_page s q" "set ps \<inter> {p} = {}"
      using vs p by (auto simp: vmspace_def)
    show "wr_pages {p} s (s\<lparr>mem := store64 (mem s) a v\<rparr>)"
      using out by (auto simp: wr_pages_def)
  qed
  moreover have "pt_map (store64 (mem s) a v) pt = leaf_upd (pt_map (mem s) pt) va v"
    using st PX_page_iff[OF va] same_page_MAXVA[OF _ va]
    by (auto simp: pt_map_def leaf_upd_def fun_eq_iff)
  moreover have "kmem_free (s\<lparr>mem := store64 (mem s) a v\<rparr>)"
    using vs by (simp add: vmspace_def kmem_free_def)
  moreover have "pt_upper (store64 (mem s) a v) pt"
    using vs st PX_lower[OF va] by (auto simp: vmspace_def pt_upper_def)
  ultimately show "vmspace (s\<lparr>mem := store64 (mem s) a v\<rparr>) pt ps (leaf_upd F va v)"
    using vs st by (simp add: vmspace_def)
  show "pt_frame pt s ps (s\<lparr>mem := store64 (mem s) a v\<rparr>) ps"
    using st p out by (auto simp: pt_frame_def)
qed

end
