(* ===== verification/AddrSpace.thy ===== *)
theory AddrSpace
  imports PageTable
begin

unbundle bit_operations_syntax

text \<open>
  The operations of \<open>kernel/vm.c\<close> on whole address spaces, stated over the map that a
  page table stands for: \<open>mappages\<close>, \<open>uvmunmap\<close>, \<open>uvmcreate\<close>, \<open>uvmalloc\<close>,
  \<open>uvmdealloc\<close> and the copies between kernel and user memory.
\<close>

section \<open>Looking up an entry\<close>

lemma vmspace_load:
  assumes "vmspace s pt ps F" "va < MAXVA" "pt_walk (mem s) 2 pt va = Some a"
  shows "load64 (mem s) a = F va"
  using assms by (auto simp: vmspace_def pt_map_def pt_leaf_def)

lemma walk_lookup:
  assumes "vmspace s pt ps F" "va < MAXVA"
  shows "\<exists>a. walk pt va False s = Ret a s \<and>
           (if a = 0 then F va = 0 else pt_walk (mem s) 2 pt va = Some a)"
proof (cases "pt_walk (mem s) 2 pt va")
  case None
  then have "F va = 0" using assms by (auto simp: vmspace_def pt_map_def pt_leaf_def)
  then show ?thesis using None assms(2) by (simp add: walk_def walk_from_lookup not_le [symmetric])
next
  case (Some a)
  then show ?thesis using vmspace_walk_nonzero[OF assms(1)] assms(2)
    by (simp add: walk_def walk_from_lookup not_le [symmetric])
qed

lemma walk_mapped:
  assumes "vmspace s pt ps F" "va < MAXVA" "F va AND PTE_V \<noteq> 0"
  shows "\<exists>a. walk pt va False s = Ret a s \<and> a \<noteq> 0 \<and> pt_walk (mem s) 2 pt va = Some a \<and>
           load64 (mem s) a = F va"
proof -
  obtain a where a: "walk pt va False s = Ret a s"
      "if a = 0 then F va = 0 else pt_walk (mem s) 2 pt va = Some a"
    using walk_lookup[OF assms(1,2)] by blast
  then have "a \<noteq> 0" using assms(3) by (cases "a = 0") auto
  then show ?thesis using a vmspace_load[OF assms(1,2)] by auto
qed

lemma walkaddr_eq:
  assumes "vmspace s pt ps F"
  shows "walkaddr pt va s = Ret (if va < MAXVA \<and> F va AND PTE_V \<noteq> 0 \<and> F va AND PTE_U \<noteq> 0
                                  then PTE2PA (F va) else 0) s"
proof (cases "va < MAXVA")
  case True
  then obtain a where a: "walk pt va False s = Ret a s"
      "if a = 0 then F va = 0 else pt_walk (mem s) 2 pt va = Some a"
    using walk_lookup[OF assms] by blast
  then show ?thesis
    using True vmspace_load[OF assms True, of a]
    by (auto simp: walkaddr_def op_defs load_op_def not_le)
next
  case False
  moreover have "MAXVA \<le> va" using False by simp
  ultimately show ?thesis by (simp only: walkaddr_def) (simp add: op_defs)
qed

section \<open>mappages\<close>

definition map_pte :: "uint64 \<Rightarrow> uint64 \<Rightarrow> uint64" where
  "map_pte pa perm = PA2PTE pa OR perm OR PTE_V"

text \<open>The map after \<open>n\<close> passes of the loop of \<open>mappages\<close>.\<close>

fun map_leaves :: "(uint64 \<Rightarrow> uint64) \<Rightarrow> uint64 \<Rightarrow> uint64 \<Rightarrow> uint64 \<Rightarrow> nat \<Rightarrow> uint64 \<Rightarrow> uint64" where
  "map_leaves F a pa perm 0 = F"
| "map_leaves F a pa perm (Suc n) =
     leaf_upd (map_leaves F a pa perm n) (page_at a n) (map_pte (page_at pa n) perm)"

lemma mappages_pass_cases:
  assumes vs: "vmspace s pt ps F" and va: "page_at a i < MAXVA"
    and free: "F (page_at a i) AND PTE_V = 0"
  shows "\<exists>r t qs. mappages_pass pt a pa perm i s = Ret r t \<and> pt_frame pt s ps t qs \<and>
     (if r = None
      then vmspace t pt qs (leaf_upd F (page_at a i) (map_pte (page_at pa i) perm))
      else r = Some (-1) \<and> qs = [] \<and> length ps < 2 \<and> vmspace t pt qs F)"
proof -
  let ?va = "page_at a i" and ?v = "map_pte (page_at pa i) perm"
  obtain e t qs where w: "walk pt ?va True s = Ret e t" "vmspace t pt qs F" "pt_frame pt s ps t qs"
      "if e = 0 then qs = [] \<and> length ps < 2 else pt_walk (mem t) 2 pt ?va = Some e"
    using walk_alloc[OF vs va] by blast
  show ?thesis
  proof (cases "e = 0")
    case True
    then have "mappages_pass pt a pa perm i s = Ret (Some (-1)) t"
      by (simp only: mappages_pass_def bind_def w(1)) (simp add: op_defs)
    then show ?thesis using w(2-4) True by auto
  next
    case False
    then have pw: "pt_walk (mem t) 2 pt ?va = Some e" using w(4) by simp
    have "load64 (mem t) e AND PTE_V = 0" using vmspace_load[OF w(2) va pw] free by simp
    then have "mappages_pass pt a pa perm i s = Ret None (t\<lparr>mem := store64 (mem t) e ?v\<rparr>)"
      using False by (simp only: mappages_pass_def bind_def w(1)) (simp add: op_defs load_op_def store_op_def map_pte_def)
    then show ?thesis
      using vmspace_store[OF w(2) va pw, of ?v] pt_frame_trans[OF w(3)] by (metis (no_types, lifting))
  qed
qed

lemma unat_page_step:
  fixes a :: uint64
  assumes "unat a + 4096 * n \<le> 2 ^ 38" "i < n"
  shows "unat (page_at a i) = unat a + 4096 * i"
proof -
  have "4096 * i < 4096 * n" using assms(2) by simp
  then show ?thesis using assms(1) by (intro unat_page_at) simp
qed

lemma page_step_MAXVA:
  assumes "unat a + 4096 * n \<le> 2 ^ 38" "i < n"
  shows "page_at a i < MAXVA"
  using unat_page_step[OF assms] assms by (simp add: word_less_nat_alt unat_MAXVA)

lemma page_step_aligned:
  assumes "page_aligned a" "unat a + 4096 * n \<le> 2 ^ 38" "i < n"
  shows "page_aligned (page_at a i)"
  using unat_page_step[OF assms(2,3)] assms(1) by (simp add: page_aligned_dvd)

text \<open>Closed form of the map after the loop.\<close>

lemma map_leaves_apply:
  assumes "page_aligned a" "unat a + 4096 * n \<le> 2 ^ 38"
  shows "map_leaves F a pa perm n va =
     (if a \<le> va \<and> unat va < unat a + 4096 * n
      then map_pte (page_at pa ((unat va - unat a) div 4096)) perm else F va)"
  using assms(2)
proof (induction n)
  case 0
  then show ?case by (auto simp: word_le_nat_alt)
next
  case (Suc n)
  have u: "unat (page_at a n) = unat a + 4096 * n"
    using unat_page_step[OF Suc.prems] by simp
  obtain k where k: "unat a = 4096 * k" using assms(1) by (auto simp: page_aligned_dvd)
  have rd: "PGROUNDDOWN (page_at a n) = page_at a n"
    using page_step_aligned[OF assms(1) Suc.prems] by (simp add: PGROUNDDOWN_id)
  have eq: "PGROUNDDOWN va = page_at a n \<longleftrightarrow> unat va div 4096 = k + n"
    by (simp only: word_unat_eq_iff unat_PGROUNDDOWN u k) linarith
  show ?case
  proof (cases "unat va div 4096 = k + n")
    case True
    define r where "r = unat va mod 4096"
    have "unat va = 4096 * k + (r + 4096 * n)" "r < 4096"
      using True mult_div_mod_eq[of 4096 "unat va"] by (simp_all add: r_def)
    moreover have "(r + 4096 * n) div 4096 = n" using calculation(2) by simp
    ultimately show ?thesis using True eq rd k by (simp add: leaf_upd_def word_le_nat_alt)
  next
    case False
    have "unat va < 4096 * k + 4096 * m \<longleftrightarrow> unat va div 4096 < k + m" for m
      using div_less_iff_less_mult[of 4096 "unat va" "k + m"] by (simp add: algebra_simps)
    then have "(unat va < 4096 * k + 4096 * Suc n) = (unat va < 4096 * k + 4096 * n)"
      using False by (simp only: less_Suc_eq add_Suc_right) simp
    moreover have "map_leaves F a pa perm (Suc n) va = map_leaves F a pa perm n va"
      using False eq rd by (simp add: leaf_upd_def)
    ultimately show ?thesis using Suc.IH Suc.prems unfolding k by (simp only:) simp
  qed
qed

lemma map_loop:
  assumes al: "page_aligned a" and vs: "vmspace s pt ps F"
  shows "unat a + 4096 * n \<le> 2 ^ 38 \<Longrightarrow> (\<And>i. i < n \<Longrightarrow> F (page_at a i) AND PTE_V = 0) \<Longrightarrow>
    \<exists>r t qs. for_first [0..<n] (mappages_pass pt a pa perm) s = Ret r t \<and> pt_frame pt s ps t qs \<and>
     (if r = None then vmspace t pt qs (map_leaves F a pa perm n)
      else r = Some (-1) \<and> qs = [] \<and> (\<exists>k < n. vmspace t pt qs (map_leaves F a pa perm k)))"
proof (induction n)
  case 0
  show ?case using vs pt_frame_refl[of pt s ps] by (auto simp: op_defs simp del: pt_frame_refl)
next
  case (Suc n)
  then obtain r t qs where l: "for_first [0..<n] (mappages_pass pt a pa perm) s = Ret r t" "pt_frame pt s ps t qs"
      "if r = None then vmspace t pt qs (map_leaves F a pa perm n)
       else r = Some (-1) \<and> qs = [] \<and> (\<exists>k < n. vmspace t pt qs (map_leaves F a pa perm k))"
    by auto
  have app: "for_first [0..<Suc n] (mappages_pass pt a pa perm) s =
      (case r of Some e \<Rightarrow> Ret (Some e) t
       | None \<Rightarrow> bind (mappages_pass pt a pa perm n) ret t)"
    using l(1) by (simp add: for_first_snoc bind_def ret_def split: option.split)
  show ?case
  proof (cases r)
    case (Some e)
    then show ?thesis using l app by (auto simp: less_Suc_eq)
  next
    case None
    then have vt: "vmspace t pt qs (map_leaves F a pa perm n)" using l(3) by simp
    have u: "unat (page_at a n) = unat a + 4096 * n"
      using unat_page_step[OF Suc.prems(1)] by simp
    have "map_leaves F a pa perm n (page_at a n) = F (page_at a n)"
      using map_leaves_apply[OF al, of n F pa perm] Suc.prems(1) u by simp
    then have fr: "map_leaves F a pa perm n (page_at a n) AND PTE_V = 0"
      using Suc.prems(2)[of n] by simp
    from mappages_pass_cases[OF vt page_step_MAXVA[OF Suc.prems(1)] fr, of pa perm,
        folded map_leaves.simps(2)]
    obtain r' u' qs' where b: "mappages_pass pt a pa perm n t = Ret r' u'" "pt_frame pt t qs u' qs'"
      "if r' = None then vmspace u' pt qs' (map_leaves F a pa perm (Suc n))
       else r' = Some (-1) \<and> qs' = [] \<and> length qs < 2 \<and> vmspace u' pt qs' (map_leaves F a pa perm n)" by blast
    then show ?thesis using None app pt_frame_trans[OF l(2) b(2)]
      by (intro exI[of _ r'] exI[of _ u'] exI[of _ qs']) (auto simp del: map_leaves.simps)
  qed
qed

text \<open>The number of pages that \<open>va .. va + sz - 1\<close> touches.\<close>

definition page_count :: "uint64 \<Rightarrow> uint64 \<Rightarrow> nat" where
  "page_count va sz = Suc (unat (PGROUNDDOWN (va + sz - 1) - PGROUNDDOWN va) div 4096)"

lemma page_count_bound:
  assumes "sz \<noteq> 0" "unat va + unat sz \<le> 2 ^ 38"
  shows "unat (PGROUNDDOWN va) + 4096 * page_count va sz \<le> 2 ^ 38"
    and "unat (PGROUNDDOWN va) + 4096 * page_count va sz = 4096 * ((unat va + unat sz - 1) div 4096) + 4096"
proof -
  have sz: "unat sz \<noteq> 0" using assms(1) by (simp add: unat_eq_0)
  then have "unat (sz - 1) = unat sz - 1" using unat_minus_one[OF assms(1)] by simp
  moreover have eq: "va + sz - 1 = va + (sz - 1)" by simp
  ultimately have e: "unat (va + sz - 1) = unat va + unat sz - 1"
    unfolding eq using unat_add_nowrap[of va "sz - 1"] assms(2) sz by simp
  let ?a = "unat va div 4096" and ?b = "(unat va + unat sz - 1) div 4096"
  have ab: "?a \<le> ?b" by (rule div_le_mono) (use sz in simp)
  have "PGROUNDDOWN va \<le> PGROUNDDOWN (va + sz - 1)"
    unfolding word_le_nat_alt unat_PGROUNDDOWN e using ab by simp
  then have "unat (PGROUNDDOWN (va + sz - 1) - PGROUNDDOWN va) = 4096 * (?b - ?a)"
    by (simp only: unat_sub unat_PGROUNDDOWN e diff_mult_distrib2)
  then have n: "page_count va sz = Suc (?b - ?a)" by (simp add: page_count_def)
  show eq: "unat (PGROUNDDOWN va) + 4096 * page_count va sz = 4096 * ?b + 4096"
    unfolding n unat_PGROUNDDOWN using ab by (simp add: diff_mult_distrib2)
  have "unat va + unat sz - 1 < 67108864 * 4096" using assms(2) sz by simp
  then have "?b < 67108864" by (simp only: div_less_iff_less_mult zero_less_numeral)
  then have "4096 * ?b + 4096 \<le> 274877906944" by linarith
  moreover have "(2::nat) ^ 38 = 274877906944" by simp
  ultimately show "unat (PGROUNDDOWN va) + 4096 * page_count va sz \<le> 2 ^ 38" by (simp only: eq)
qed

lemma mappages_cases:
  assumes "vmspace s pt ps F" "sz \<noteq> 0" "unat va + unat sz \<le> 2 ^ 38"
    and "\<And>i. i < page_count va sz \<Longrightarrow> F (page_at (PGROUNDDOWN va) i) AND PTE_V = 0"
  shows "\<exists>r t qs. mappages pt va sz pa perm s = Ret r t \<and> pt_frame pt s ps t qs \<and>
     (if r = 0 then vmspace t pt qs (map_leaves F (PGROUNDDOWN va) pa perm (page_count va sz))
      else r = -1 \<and> qs = [] \<and>
        (\<exists>k < page_count va sz. vmspace t pt qs (map_leaves F (PGROUNDDOWN va) pa perm k)))"
proof -
  obtain r t qs where l:
    "for_first [0..<page_count va sz] (mappages_pass pt (PGROUNDDOWN va) pa perm) s = Ret r t"
    "pt_frame pt s ps t qs"
    "if r = None then vmspace t pt qs (map_leaves F (PGROUNDDOWN va) pa perm (page_count va sz))
     else r = Some (-1) \<and> qs = [] \<and>
       (\<exists>k < page_count va sz. vmspace t pt qs (map_leaves F (PGROUNDDOWN va) pa perm k))"
    using map_loop[OF PGROUNDDOWN_aligned assms(1) page_count_bound(1)[OF assms(2,3)] assms(4)] by blast
  have "mappages pt va sz pa perm s = Ret (case r of None \<Rightarrow> 0 | Some e \<Rightarrow> e) t"
    using l(1) unfolding mappages_def Let_def page_count_def[symmetric]
    by (simp add: bind_def ret_def split: option.split)
  then show ?thesis using l(2,3) by (cases r) auto
qed

text \<open>The case of one page, which the callers outside \<open>kvminit\<close> use.\<close>

lemma page_count_one: "page_aligned va \<Longrightarrow> page_count va PGSIZE = 1"
proof -
  assume al: "page_aligned va"
  obtain k where k: "unat va = 4096 * k" using al by (auto simp: page_aligned_dvd)
  have "unat va + 4096 \<le> 2 ^ 64" by (rule aligned_no_wrap[OF al])
  then have "unat (va + 4095) = unat va + 4095" using unat_add_nowrap[of va 4095] by simp
  then have "unat (va + 4095) div 4096 = k" using k by simp
  then have "unat (PGROUNDDOWN (va + 4095)) = unat va" by (simp add: unat_PGROUNDDOWN k)
  then have e1: "PGROUNDDOWN (va + 4095) = PGROUNDDOWN va"
    using al by (simp add: word_unat_eq_iff PGROUNDDOWN_id)
  have e2: "va + PGSIZE - 1 = va + 4095" by (simp add: PGSIZE_def)
  show ?thesis unfolding page_count_def e2 e1 by simp
qed

lemma mappages_one:
  assumes "vmspace s pt ps F" "page_aligned va" "va < MAXVA" "F va AND PTE_V = 0"
  shows "\<exists>r t qs. mappages pt va PGSIZE pa perm s = Ret r t \<and> pt_frame pt s ps t qs \<and>
     (if r = 0 then vmspace t pt qs (leaf_upd F va (map_pte pa perm))
      else r = -1 \<and> qs = [] \<and> length ps < 2 \<and> vmspace t pt qs F)"
proof -
  have p0: "page_at va 0 = va" "page_at pa 0 = pa" by (simp_all add: page_at_def)
  note one = page_count_one[OF assms(2)] PGROUNDDOWN_id[OF assms(2)]
  obtain r t qs where c: "mappages_pass pt va pa perm 0 s = Ret r t" "pt_frame pt s ps t qs"
      "if r = None then vmspace t pt qs (leaf_upd F va (map_pte pa perm))
       else r = Some (-1) \<and> qs = [] \<and> length ps < 2 \<and> vmspace t pt qs F"
    using mappages_pass_cases[OF assms(1), of va 0 pa perm] assms(3,4) unfolding p0 by blast
  have "mappages pt va PGSIZE pa perm s = Ret (case r of None \<Rightarrow> 0 | Some e \<Rightarrow> e) t"
    using c(1) unfolding mappages_def Let_def page_count_def[symmetric] one(1) unfolding one(2)
    by (simp add: bind_def ret_def split: option.split)
  then show ?thesis using c(2,3)
    by (intro exI[of _ "case r of None \<Rightarrow> 0 | Some e \<Rightarrow> e"] exI[of _ t] exI[of _ qs])
      (auto split: option.splits if_splits)
qed

section \<open>Writing outside the tables\<close>

text \<open>A change of memory confined to a set of pages.\<close>

definition mem_frame :: "addr set \<Rightarrow> 'z kmem_scheme \<Rightarrow> 'z kmem_scheme \<Rightarrow> bool" where
  "mem_frame A s t \<longleftrightarrow> same_but_mem s t \<and> (\<forall>b. (\<forall>p \<in> A. \<not> in_page p b) \<longrightarrow> mem t b = mem s b)"

lemma mem_frame_refl [simp]: "mem_frame A s s"
  by (simp add: mem_frame_def)

lemma mem_frame_trans: "mem_frame A s t \<Longrightarrow> mem_frame A t u \<Longrightarrow> mem_frame A s u"
  using same_but_mem_trans[of s t u] by (auto simp: mem_frame_def)

lemma mem_frame_mono: "mem_frame A s t \<Longrightarrow> A \<subseteq> B \<Longrightarrow> mem_frame B s t"
  by (auto simp: mem_frame_def)

lemma pt_frame_mem: "pt_frame pt s ps t qs \<Longrightarrow> mem_frame (pt_pages (mem s) 2 pt \<union> set ps) s t"
  by (simp add: pt_frame_def mem_frame_def)

lemma frame_agree:
  assumes "\<And>b. \<forall>p \<in> A. \<not> in_page p b \<Longrightarrow> m' b = m b" "\<forall>p \<in> A. page_aligned p"
    "\<forall>p \<in> P. page_aligned p" "A \<inter> P = {}"
  shows "agree P m m'"
  unfolding agree_def
proof (intro ballI allI impI)
  fix p b assume p: "p \<in> P" "in_page p b"
  have "\<not> in_page q b" if "q \<in> A" for q using in_page_unique[of q p b] p that assms(2-4) by blast
  then show "m' b = m b" using assms(1) by blast
qed

lemma vmspace_write:
  assumes vs: "vmspace s pt ps F" and A: "\<forall>p \<in> A. kernel_page s p"
    "A \<inter> (set ps \<union> pt_pages (mem s) 2 pt) = {}"
    and m: "\<And>b. \<forall>p \<in> A. \<not> in_page p b \<Longrightarrow> m b = mem s b"
  shows "vmspace (s\<lparr>mem := m\<rparr>) pt ps F" "pt_pages m 2 pt = pt_pages (mem s) 2 pt"
proof -
  have "agree (pt_pages (mem s) 2 pt) (mem s) m"
  proof (rule frame_agree[of A])
    show "\<forall>p \<in> A. page_aligned p" "\<forall>p \<in> pt_pages (mem s) 2 pt. page_aligned p"
      using A(1) vs by (simp_all add: kernel_page_def vmspace_def)
    show "A \<inter> pt_pages (mem s) 2 pt = {}" using A(2) by blast
  qed (rule m)
  note t = agree_tree[OF this]
  show "pt_pages m 2 pt = pt_pages (mem s) 2 pt" by (rule t(1))
  have "kmem_inv (s\<lparr>mem := m\<rparr>) ps"
  proof (rule kmem_inv_write[of s ps A])
    show "kmem_inv s ps" using vs by (simp add: vmspace_def)
    show "set ps \<inter> A = {}" using A(2) by blast
    show "wr_pages A s (s\<lparr>mem := m\<rparr>)" unfolding wr_pages_def using m by (intro exI[of _ m]) simp
  qed (rule A(1))
  moreover have "pt_map m pt = pt_map (mem s) pt" by (rule ext) (simp add: pt_map_def t(4))
  moreover have "pt_upper m pt = pt_upper (mem s) pt" by (simp add: pt_upper_def t(4))
  ultimately show "vmspace (s\<lparr>mem := m\<rparr>) pt ps F"
    using vs t(1,2) by (simp add: vmspace_def kmem_free_def)
qed

lemma vmspace_kfree:
  assumes vs: "vmspace s pt ps F" and p: "kernel_page s p" "p \<notin> set ps" "p \<notin> pt_pages (mem s) 2 pt"
  shows "vmspace (after_kfree p s) pt (p # ps) F"
    "pt_pages (mem (after_kfree p s)) 2 pt = pt_pages (mem s) 2 pt" "mem_frame {p} s (after_kfree p s)"
proof -
  have m: "mem (after_kfree p s) b = mem s b" if "\<not> in_page p b" for b
    using that store64_in_page[OF cell_base that] by (simp add: after_kfree_def memset_page)
  then show "mem_frame {p} s (after_kfree p s)" by (simp add: mem_frame_def)
  have "agree (pt_pages (mem s) 2 pt) (mem s) (mem (after_kfree p s))"
    by (rule frame_agree[of "{p}"]) (use m p vs in \<open>auto simp: kernel_page_def vmspace_def\<close>)
  note t = agree_tree[OF this]
  show "pt_pages (mem (after_kfree p s)) 2 pt = pt_pages (mem s) 2 pt" by (rule t(1))
  moreover have "pt_map (mem (after_kfree p s)) pt = pt_map (mem s) pt"
    "pt_upper (mem (after_kfree p s)) pt = pt_upper (mem s) pt"
    by (simp_all add: fun_eq_iff pt_map_def pt_upper_def t(4))
  ultimately show "vmspace (after_kfree p s) pt (p # ps) F"
    using vs t(2) kmem_inv_kfree[of s ps p] p by (simp add: vmspace_def)
qed

lemma vmspace_kalloc:
  assumes vs: "vmspace s pt (p # ps) F"
  shows "vmspace (after_kalloc s) pt ps F" "kalloc s = Ret p (after_kalloc s)"
    "pt_pages (mem (after_kalloc s)) 2 pt = pt_pages (mem s) 2 pt" "mem_frame {p} s (after_kalloc s)"
    "kernel_page s p" "p \<noteq> 0" "p \<notin> set ps" "p \<notin> pt_pages (mem s) 2 pt"
proof -
  have inv: "kmem_inv s (p # ps)" "kmem_free s" using vs by (simp_all add: vmspace_def)
  note K = kmem_inv_kalloc[OF inv(1)]
  show "kernel_page s p" "p \<noteq> 0" "p \<notin> set ps" using K by auto
  show np: "p \<notin> pt_pages (mem s) 2 pt" using vs by (auto simp: vmspace_def)
  show "kalloc s = Ret p (after_kalloc s)" using kalloc_eq[OF inv(2)] K(1) by simp
  have m: "mem (after_kalloc s) b = mem s b" if "\<not> in_page p b" for b
    using that K(1) by (simp add: after_kalloc_def memset_page)
  then show "mem_frame {p} s (after_kalloc s)" by (simp add: mem_frame_def)
  have "agree (pt_pages (mem s) 2 pt) (mem s) (mem (after_kalloc s))"
    by (rule frame_agree[of "{p}"]) (use m np vs K(4) in \<open>auto simp: kernel_page_def vmspace_def\<close>)
  note t = agree_tree[OF this]
  show "pt_pages (mem (after_kalloc s)) 2 pt = pt_pages (mem s) 2 pt" by (rule t(1))
  moreover have "pt_map (mem (after_kalloc s)) pt = pt_map (mem s) pt"
    "pt_upper (mem (after_kalloc s)) pt = pt_upper (mem s) pt"
    by (simp_all add: fun_eq_iff pt_map_def pt_upper_def t(4))
  ultimately show "vmspace (after_kalloc s) pt ps F"
    using vs t(2) K(5) by (auto simp: vmspace_def)
qed

section \<open>User memory\<close>

text \<open>
  \<open>owns s pt ps F I\<close>: the user pages with numbers in \<open>I\<close> are mapped to pairwise different
  physical pages, which are neither free nor page-table pages.
\<close>

definition upage :: "nat \<Rightarrow> uint64" where
  "upage i = page_at 0 i"

definition pframe :: "(uint64 \<Rightarrow> uint64) \<Rightarrow> nat \<Rightarrow> addr" where
  "pframe F i = PTE2PA (F (upage i))"

definition owns :: "'z kmem_scheme \<Rightarrow> addr \<Rightarrow> addr list \<Rightarrow> (uint64 \<Rightarrow> uint64) \<Rightarrow> nat set \<Rightarrow> bool" where
  "owns s pt ps F I \<longleftrightarrow> vmspace s pt ps F \<and> inj_on (pframe F) I \<and>
     (\<forall>i \<in> I. i < 2 ^ 26 \<and> F (upage i) AND PTE_V \<noteq> 0 \<and> PTE_FLAGS (F (upage i)) \<noteq> PTE_V \<and>
        kernel_page s (pframe F i) \<and> pframe F i \<notin> set ps \<and> pframe F i \<notin> pt_pages (mem s) 2 pt)"

lemma unat_upage: "i \<le> 2 ^ 26 \<Longrightarrow> unat (upage i) = 4096 * i"
proof -
  assume "i \<le> 2 ^ 26"
  then have "4096 * i \<le> 4096 * 2 ^ 26" by (rule mult_le_mono2)
  then have "unat (0::uint64) + 4096 * i < 2 ^ 64" by simp
  then show ?thesis unfolding upage_def by (simp only: unat_page_at) simp
qed

lemma upage_MAXVA: "i < 2 ^ 26 \<Longrightarrow> upage i < MAXVA"
  by (simp add: word_less_nat_alt unat_MAXVA unat_upage)

lemma upage_aligned: "i \<le> 2 ^ 26 \<Longrightarrow> page_aligned (upage i)"
  by (simp add: page_aligned_dvd unat_upage)

lemma upage_inj: "i \<le> 2 ^ 26 \<Longrightarrow> j \<le> 2 ^ 26 \<Longrightarrow> upage i = upage j \<longleftrightarrow> i = j"
  by (simp add: word_unat_eq_iff unat_upage)

lemma leaf_upd_upage:
  "i < 2 ^ 26 \<Longrightarrow> j < 2 ^ 26 \<Longrightarrow> leaf_upd F (upage i) v (upage j) = (if j = i then v else F (upage j))"
  using upage_inj[of j i] by (simp add: leaf_upd_def PGROUNDDOWN_id upage_aligned)

lemma pframe_upd_other:
  "i < 2 ^ 26 \<Longrightarrow> j < 2 ^ 26 \<Longrightarrow> j \<noteq> i \<Longrightarrow> pframe (leaf_upd F (upage i) v) j = pframe F j"
  by (simp add: pframe_def leaf_upd_upage)

lemma owns_vmspace: "owns s pt ps F I \<Longrightarrow> vmspace s pt ps F"
  by (simp add: owns_def)

lemma owns_subset: "owns s pt ps F I \<Longrightarrow> J \<subseteq> I \<Longrightarrow> owns s pt ps F J"
  unfolding owns_def using inj_on_subset by blast

subsection \<open>uvmunmap\<close>

lemma uvmunmap_pass_eq:
  assumes own: "owns s pt ps F I" and i: "i \<in> I"
  shows "\<exists>t. uvmunmap_pass pt True (upage i) s = Ret () t \<and>
     owns t pt (pframe F i # ps) (leaf_upd F (upage i) 0) (I - {i}) \<and>
     pt_pages (mem t) 2 pt = pt_pages (mem s) 2 pt \<and>
     mem_frame (insert (pframe F i) (pt_pages (mem s) 2 pt)) s t"
proof -
  let ?p = "pframe F i" and ?u = "after_kfree (pframe F i) s"
  have vs: "vmspace s pt ps F" and lt: "i < 2 ^ 26" and v: "F (upage i) AND PTE_V \<noteq> 0"
    and fl: "PTE_FLAGS (F (upage i)) \<noteq> PTE_V"
    and p: "kernel_page s ?p" "?p \<notin> set ps" "?p \<notin> pt_pages (mem s) 2 pt"
    using own i by (auto simp: owns_def)
  obtain e where e: "walk pt (upage i) False s = Ret e s" and e0: "e \<noteq> 0"
      and pw: "pt_walk (mem s) 2 pt (upage i) = Some e" and ld: "load64 (mem s) e = F (upage i)"
    using walk_mapped[OF vs upage_MAXVA[OF lt] v] by blast
  note kf = vmspace_kfree[OF vs p]
  have "pt_walk (mem ?u) 2 pt (upage i) = pt_walk (mem s) 2 pt (upage i)"
    by (rule agree_tree(3)[OF frame_agree[of "{?p}"]])
      (use kf(3) p vs in \<open>auto simp: mem_frame_def kernel_page_def vmspace_def\<close>)
  then have pw': "pt_walk (mem ?u) 2 pt (upage i) = Some e" using pw by simp
  note st = vmspace_store[OF kf(1) upage_MAXVA[OF lt] pw', of 0]
  let ?t = "?u\<lparr>mem := store64 (mem ?u) e 0\<rparr>"
  have run: "uvmunmap_pass pt True (upage i) s = Ret () ?t"
    using e e0 ld v fl p vs unfolding uvmunmap_pass_def pframe_def
    by (simp add: op_defs load_op_def store_op_def kfree_eq vmspace_def)
  have pg: "pt_pages (mem ?t) 2 pt = pt_pages (mem s) 2 pt"
    using pt_store[of "mem ?u" 2 pt "upage i" e 0] pw' kf(1,2) by (simp add: vmspace_def)
  have "mem_frame (insert ?p (pt_pages (mem s) 2 pt)) ?u ?t"
    using pt_walk_cell[OF pw'] kf(2) store64_in_page[OF cell_pte_addr] by (fastforce simp: mem_frame_def)
  then have "mem_frame (insert ?p (pt_pages (mem s) 2 pt)) s ?t"
    using mem_frame_trans[OF mem_frame_mono[OF kf(3)]] by blast
  moreover have "owns ?t pt (?p # ps) (leaf_upd F (upage i) 0) (I - {i})"
    unfolding owns_def
  proof (intro conjI ballI)
    have sub: "j < 2 ^ 26" if "j \<in> I" for j using own that by (auto simp: owns_def)
    have fr: "pframe (leaf_upd F (upage i) 0) j = pframe F j" if "j \<in> I - {i}" for j
      using that by (intro pframe_upd_other lt sub) auto
    show "inj_on (pframe (leaf_upd F (upage i) 0)) (I - {i})"
      using own fr unfolding owns_def inj_on_def by simp
    fix j assume j: "j \<in> I - {i}"
    have "pframe F j \<noteq> ?p" using own j i by (auto simp: owns_def inj_on_def)
    then show "j < 2 ^ 26" "leaf_upd F (upage i) 0 (upage j) AND PTE_V \<noteq> 0"
      "PTE_FLAGS (leaf_upd F (upage i) 0 (upage j)) \<noteq> PTE_V"
      "kernel_page ?t (pframe (leaf_upd F (upage i) 0) j)"
      "pframe (leaf_upd F (upage i) 0) j \<notin> set (?p # ps)"
      "pframe (leaf_upd F (upage i) 0) j \<notin> pt_pages (mem ?t) 2 pt"
      unfolding pg fr[OF j] using own j lt sub by (simp_all add: owns_def leaf_upd_upage)
  qed (rule st(1))
  ultimately show ?thesis using run pg by blast
qed

text \<open>The map without the pages \<open>m\<close> to \<open>n - 1\<close>.\<close>

definition unmap_range :: "(uint64 \<Rightarrow> uint64) \<Rightarrow> nat \<Rightarrow> nat \<Rightarrow> uint64 \<Rightarrow> uint64" where
  "unmap_range F m n va = (if m \<le> unat va div 4096 \<and> unat va div 4096 < n then 0 else F va)"

lemma same_upage: "i < 2 ^ 26 \<Longrightarrow> PGROUNDDOWN va = PGROUNDDOWN (upage i) \<longleftrightarrow> unat va div 4096 = i"
  by (simp add: word_unat_eq_iff unat_PGROUNDDOWN unat_upage)

lemma unmap_range_Suc:
  "m \<le> n \<Longrightarrow> n < 2 ^ 26 \<Longrightarrow> leaf_upd (unmap_range F m n) (upage n) 0 = unmap_range F m (Suc n)"
  by (rule ext) (auto simp: leaf_upd_def same_upage unmap_range_def)

lemma unmap_range_refl [simp]: "unmap_range F m m = F"
  by (rule ext) (auto simp: unmap_range_def)

lemma pages_between_upage:
  assumes "m + k \<le> 2 ^ 26"
  shows "pages_between (upage m) (upage m + of_nat k * PGSIZE) = map upage [m..<m + k]"
proof -
  have eq: "upage m + of_nat k * PGSIZE = upage (m + k)"
    by (simp add: upage_def page_at_def PGSIZE_def algebra_simps)
  have "(unat (upage (m + k)) - unat (upage m)) div 4096 = k"
    using assms unat_upage[of m] unat_upage[of "m + k"] by simp
  moreover have "map (page_at (upage m)) [0..<k] = map upage [m..<m + k]"
    by (rule nth_equalityI) (simp_all add: upage_def page_at_def algebra_simps)
  ultimately show ?thesis unfolding eq pages_between_def by simp
qed

lemma unmap_loop:
  assumes "owns s pt ps F I" "{m..<m + k} \<subseteq> I"
  shows "\<exists>t. for_each (map upage [m..<m + k]) (uvmunmap_pass pt True) s = Ret () t \<and>
     owns t pt (rev (map (pframe F) [m..<m + k]) @ ps) (unmap_range F m (m + k)) (I - {m..<m + k}) \<and>
     pt_pages (mem t) 2 pt = pt_pages (mem s) 2 pt \<and>
     mem_frame (pframe F ` {m..<m + k} \<union> pt_pages (mem s) 2 pt) s t"
  using assms(2)
proof (induction k)
  case 0
  then show ?case using assms(1) by (simp add: op_defs)
next
  case (Suc k)
  let ?n = "m + k"
  have "{m..<?n} \<subseteq> {m..<m + Suc k}" by auto
  then have pre: "{m..<?n} \<subseteq> I" using Suc.prems by (rule subset_trans)
  obtain t where t: "for_each (map upage [m..<?n]) (uvmunmap_pass pt True) s = Ret () t"
      "owns t pt (rev (map (pframe F) [m..<?n]) @ ps) (unmap_range F m ?n) (I - {m..<?n})"
      "pt_pages (mem t) 2 pt = pt_pages (mem s) 2 pt"
      "mem_frame (pframe F ` {m..<?n} \<union> pt_pages (mem s) 2 pt) s t"
    using Suc.IH[OF pre] by blast
  have n: "?n \<in> I - {m..<?n}" using Suc.prems by auto
  have lt: "?n < 2 ^ 26" using t(2) n by (auto simp: owns_def)
  have fr: "pframe (unmap_range F m ?n) ?n = pframe F ?n"
    using lt by (simp add: pframe_def unmap_range_def unat_upage)
  obtain u where u: "uvmunmap_pass pt True (upage ?n) t = Ret () u"
      "owns u pt (pframe F ?n # rev (map (pframe F) [m..<?n]) @ ps)
         (unmap_range F m (Suc ?n)) (I - {m..<?n} - {?n})"
      "pt_pages (mem u) 2 pt = pt_pages (mem t) 2 pt"
      "mem_frame (insert (pframe F ?n) (pt_pages (mem t) 2 pt)) t u"
    using uvmunmap_pass_eq[OF t(2) n] unfolding fr unmap_range_Suc[OF le_add1 lt] by blast
  have I: "I - {m..<?n} - {?n} = I - {m..<m + Suc k}" by auto
  have "mem_frame (pframe F ` {m..<m + Suc k} \<union> pt_pages (mem s) 2 pt) s u"
    using mem_frame_trans[OF mem_frame_mono[OF t(4)] mem_frame_mono[OF u(4)], of "pframe F ` {m..<m + Suc k} \<union> pt_pages (mem s) 2 pt"]
    unfolding t(3) by fastforce
  moreover have "for_each (map upage [m..<m + Suc k]) (uvmunmap_pass pt True) s = Ret () u"
    using t(1) u(1) by (simp add: for_each_snoc bind_def)
  ultimately show ?case using u(2,3) t(3) unfolding I by simp
qed

lemma uvmunmap_eq:
  assumes "owns s pt ps F I" "{m..<m + k} \<subseteq> I" "m + k \<le> 2 ^ 26"
  shows "\<exists>t. uvmunmap pt (upage m) (of_nat k) True s = Ret () t \<and>
     owns t pt (rev (map (pframe F) [m..<m + k]) @ ps) (unmap_range F m (m + k)) (I - {m..<m + k}) \<and>
     pt_pages (mem t) 2 pt = pt_pages (mem s) 2 pt \<and>
     mem_frame (pframe F ` {m..<m + k} \<union> pt_pages (mem s) 2 pt) s t"
proof -
  have "upage m mod PGSIZE = 0" using upage_aligned[of m] assms(3) by (simp add: page_aligned_def)
  then show ?thesis using unmap_loop[OF assms(1,2)] pages_between_upage[OF assms(3)]
    by (simp add: uvmunmap_def)
qed

subsection \<open>uvmdealloc\<close>

definition npages_of :: "uint64 \<Rightarrow> nat" where
  "npages_of sz = (unat sz + 4095) div 4096"

lemma npages_of_le: "unat sz \<le> 2 ^ 38 \<Longrightarrow> npages_of sz \<le> 2 ^ 26"
proof -
  assume "unat sz \<le> 2 ^ 38"
  then have "unat sz + 4095 < 67108865 * 4096" by simp
  then have "npages_of sz < 67108865" unfolding npages_of_def
    by (simp only: div_less_iff_less_mult zero_less_numeral)
  then show ?thesis by simp
qed

lemma npages_of_mono: "a \<le> b \<Longrightarrow> npages_of a \<le> npages_of b"
  unfolding npages_of_def word_le_nat_alt by (rule div_le_mono) simp

lemma PGROUNDUP_upage:
  assumes "unat sz \<le> 2 ^ 38"
  shows "PGROUNDUP sz = upage (npages_of sz)"
proof -
  have "unat (PGROUNDUP sz) = 4096 * npages_of sz"
    using unat_PGROUNDUP[of sz] assms by (simp add: npages_of_def)
  then show ?thesis using unat_upage[OF npages_of_le[OF assms]] by (simp add: word_unat_eq_iff)
qed

lemma upage_less: "i \<le> 2 ^ 26 \<Longrightarrow> j \<le> 2 ^ 26 \<Longrightarrow> upage i < upage j \<longleftrightarrow> i < j"
  by (simp add: word_less_nat_alt unat_upage)

lemma upage_diff_div:
  assumes "i \<le> j" "j \<le> 2 ^ 26"
  shows "(upage j - upage i) div PGSIZE = of_nat (j - i)"
proof -
  have ij: "unat (upage i) = 4096 * i" "unat (upage j) = 4096 * j" using assms unat_upage by simp_all
  then have "unat (upage j - upage i) = 4096 * (j - i)"
    using unat_sub[of "upage i" "upage j"] assms(1) by (simp add: word_le_nat_alt diff_mult_distrib2)
  then have "unat ((upage j - upage i) div PGSIZE) = j - i" by (simp add: unat_div PGSIZE_def)
  then show ?thesis by (metis of_nat_unat ucast_id)
qed

lemma int_cast_small: "k \<le> 2 ^ 26 \<Longrightarrow> scast (ucast (of_nat k :: uint64) :: uint) = (of_nat k :: uint64)"
proof -
  assume k: "k \<le> 2 ^ 26"
  have "unat (ucast (of_nat k :: uint64) :: uint) = k"
    using k by (simp add: unsigned_ucast_eq unat_of_nat take_bit_eq_mod)
  then have u: "uint (ucast (of_nat k :: uint64) :: uint) = int k" by (simp add: uint_nat)
  have "signed_take_bit 31 (int k) = int k" using k
    by (simp add: signed_take_bit_int_eq_self_iff)
  then have "sint (ucast (of_nat k :: uint64) :: uint) = int k" using u by (simp add: sint_uint)
  then show ?thesis by (simp add: scast_eq)
qed

lemma uvmdealloc_eq:
  assumes "owns s pt ps F I" "newsz < oldsz" "unat oldsz \<le> 2 ^ 38"
    "{npages_of newsz..<npages_of oldsz} \<subseteq> I"
  shows "\<exists>t. uvmdealloc pt oldsz newsz s = Ret newsz t \<and>
     owns t pt (rev (map (pframe F) [npages_of newsz..<npages_of oldsz]) @ ps)
       (unmap_range F (npages_of newsz) (npages_of oldsz)) (I - {npages_of newsz..<npages_of oldsz}) \<and>
     pt_pages (mem t) 2 pt = pt_pages (mem s) 2 pt \<and>
     mem_frame (pframe F ` {npages_of newsz..<npages_of oldsz} \<union> pt_pages (mem s) 2 pt) s t"
proof -
  let ?m = "npages_of newsz" and ?n = "npages_of oldsz"
  have le: "unat newsz \<le> 2 ^ 38" using assms(2,3) by (simp add: word_less_nat_alt)
  have mn: "?m \<le> ?n" using assms(2) by (intro npages_of_mono) simp
  have n: "?n \<le> 2 ^ 26" by (rule npages_of_le[OF assms(3)])
  note up = PGROUNDUP_upage[OF le] PGROUNDUP_upage[OF assms(3)]
  have np: "scast (ucast ((PGROUNDUP oldsz - PGROUNDUP newsz) div PGSIZE) :: uint) = (of_nat (?n - ?m) :: uint64)"
    unfolding up upage_diff_div[OF mn n] using n by (intro int_cast_small) simp
  have lt: "PGROUNDUP newsz < PGROUNDUP oldsz \<longleftrightarrow> ?m < ?n"
    unfolding up using mn n by (intro upage_less) simp_all
  show ?thesis
  proof (cases "?m < ?n")
    case True
    then have mk: "?m + (?n - ?m) = ?n" by simp
    obtain t where "uvmunmap pt (upage ?m) (of_nat (?n - ?m)) True s = Ret () t"
        "owns t pt (rev (map (pframe F) [?m..<?n]) @ ps) (unmap_range F ?m ?n) (I - {?m..<?n})"
        "pt_pages (mem t) 2 pt = pt_pages (mem s) 2 pt"
        "mem_frame (pframe F ` {?m..<?n} \<union> pt_pages (mem s) 2 pt) s t"
      using uvmunmap_eq[OF assms(1), of ?m "?n - ?m"] assms(4) n unfolding mk by blast
    moreover have "\<not> oldsz \<le> newsz" using assms(2) by simp
    ultimately show ?thesis using True lt unfolding uvmdealloc_def Let_def np
      by (simp add: up(1) op_defs)
  next
    case False
    then have "?m = ?n" using mn by simp
    moreover have "\<not> oldsz \<le> newsz" using assms(2) by simp
    ultimately show ?thesis using lt assms(1) by (simp add: uvmdealloc_def op_defs)
  qed
qed

subsection \<open>uvmalloc\<close>

lemma map_pte_facts:
  assumes "page_aligned p" "PTE_FLAGS perm = perm"
  shows "PTE2PA (map_pte p perm) = p" "PTE_FLAGS (map_pte p perm) = perm OR PTE_V"
    "map_pte p perm AND PTE_V \<noteq> 0"
proof -
  have V: "PTE_FLAGS PTE_V = PTE_V" by (simp add: PTE_FLAGS_def PTE_V_def)
  have f: "PTE_FLAGS (perm OR PTE_V) = perm OR PTE_V"
    using assms(2) V by (simp add: PTE_FLAGS_def bit.conj_disj_distrib2)
  show "PTE2PA (map_pte p perm) = p"
    using PTE2PA_PA2PTE[OF assms(1) f] by (simp add: map_pte_def)
  show "PTE_FLAGS (map_pte p perm) = perm OR PTE_V"
    using PTE_FLAGS_PA2PTE[of p "perm OR PTE_V"] f by (simp add: map_pte_def)
  have "(perm OR PTE_V) AND PTE_V = PTE_V" by (simp add: bit.conj_disj_distrib2)
  then show "map_pte p perm AND PTE_V \<noteq> 0"
    using PTE_flag_test[OF V, of p "perm OR PTE_V"] by (simp add: map_pte_def) (simp add: PTE_V_def)
qed

lemma owns_transfer:
  assumes "owns s pt ps F I" "vmspace t pt qs G" "same_but_mem s t"
    "\<And>i. i \<in> I \<Longrightarrow> G (upage i) = F (upage i)"
    "pt_pages (mem t) 2 pt \<union> set qs \<subseteq> pt_pages (mem s) 2 pt \<union> set ps"
  shows "owns t pt qs G I"
proof -
  have "pframe G i = pframe F i" if "i \<in> I" for i using assms(4)[OF that] by (simp add: pframe_def)
  then show ?thesis
    using assms same_but_memD(7)[OF assms(3)] unfolding owns_def inj_on_def by (simp add: subset_iff) metis
qed

lemma owns_insert:
  assumes "owns s pt ps F I" "i \<notin> I" "i < 2 ^ 26"
    "F (upage i) AND PTE_V \<noteq> 0" "PTE_FLAGS (F (upage i)) \<noteq> PTE_V" "kernel_page s (pframe F i)"
    "pframe F i \<notin> set ps \<union> pt_pages (mem s) 2 pt \<union> pframe F ` I"
  shows "owns s pt ps F (insert i I)"
  using assms unfolding owns_def by auto

text \<open>The pages of a user address space: its tables and the physical pages it owns.\<close>

definition zero_page :: "memory \<Rightarrow> addr \<Rightarrow> bool" where
  "zero_page m p \<longleftrightarrow> (\<forall>b. in_page p b \<longrightarrow> m b = 0)"

lemma frame_zero_page:
  assumes "mem_frame A s t" "zero_page (mem s) p" "page_aligned p" "\<forall>q \<in> A. page_aligned q" "p \<notin> A"
  shows "zero_page (mem t) p"
  unfolding zero_page_def
proof (intro allI impI)
  fix b assume b: "in_page p b"
  then have "\<not> in_page q b" if "q \<in> A" for q using in_page_unique[of q p b] assms(3-5) that by blast
  then show "mem t b = 0" using assms(1,2) b by (auto simp: mem_frame_def zero_page_def)
qed

definition rwxu :: uint64 where
  "rwxu = PTE_W OR PTE_X OR PTE_R OR PTE_U"

lemma rwxu_flags: "PTE_FLAGS rwxu = rwxu" "rwxu OR PTE_V \<noteq> PTE_V" "rwxu AND PTE_U \<noteq> 0"
  by (simp_all add: rwxu_def PTE_FLAGS_def page_consts)

text \<open>Allocating and clearing a page and mapping it, as \<open>uvmalloc\<close> does in each pass.\<close>

lemma alloc_map_page:
  assumes own: "owns s pt (p # ps) F I" and i: "i \<notin> I" "i < 2 ^ 26" "F (upage i) = 0"
  shows "\<exists>u r t qs. kalloc s = Ret p (after_kalloc s) \<and> memset_op p 0 4096 (after_kalloc s) = Ret () u \<and>
     mappages pt (upage i) PGSIZE p rwxu u = Ret r t \<and>
     mem_frame (pt_pages (mem s) 2 pt \<union> set (p # ps)) s t \<and> zero_page (mem t) p \<and>
     kernel_page s p \<and> p \<noteq> 0 \<and> p \<notin> set qs \<and> p \<notin> pt_pages (mem t) 2 pt \<and>
     pt_pages (mem t) 2 pt \<union> set qs = pt_pages (mem s) 2 pt \<union> set ps \<and>
     (if r = 0 then owns t pt qs (leaf_upd F (upage i) (map_pte p rwxu)) (insert i I)
      else r = -1 \<and> qs = [] \<and> length ps < 2 \<and> owns t pt qs F I)"
proof -
  note K = vmspace_kalloc[OF owns_vmspace[OF own]]
  let ?u = "(after_kalloc s)\<lparr>mem := memset (mem (after_kalloc s)) p 0 4096\<rparr>"
  have vs: "vmspace ?u pt ps F" "pt_pages (mem ?u) 2 pt = pt_pages (mem s) 2 pt"
    using vmspace_write[OF K(1), of "{p}" "mem ?u"] K by (auto simp: memset_page)
  obtain r t qs where m: "mappages pt (upage i) PGSIZE p rwxu ?u = Ret r t" "pt_frame pt ?u ps t qs"
      "if r = 0 then vmspace t pt qs (leaf_upd F (upage i) (map_pte p rwxu))
       else r = -1 \<and> qs = [] \<and> length ps < 2 \<and> vmspace t pt qs F"
    using mappages_one[OF vs(1) upage_aligned upage_MAXVA, of i p rwxu] i by auto
  have pool: "pt_pages (mem t) 2 pt \<union> set qs = pt_pages (mem s) 2 pt \<union> set ps"
    using m(2) vs(2) by (simp add: pt_frame_def)
  have pn: "p \<notin> pt_pages (mem s) 2 pt \<union> set ps" using K by simp
  have al: "\<forall>q \<in> pt_pages (mem s) 2 pt \<union> set ps. page_aligned q" and pal: "page_aligned p"
    using vs K(5) by (auto simp: vmspace_def kmem_inv_def kernel_page_def)
  note fr = pt_frame_mem[OF m(2), unfolded vs(2)]
  have z: "zero_page (mem t) p"
    by (rule frame_zero_page[OF fr _ pal al pn]) (simp add: zero_page_def memset_page)
  have s1: "mem_frame {p} s ?u"
    using K(4) mem_frame_trans[of "{p}" s "after_kalloc s" ?u] by (simp add: mem_frame_def memset_page)
  have fr': "mem_frame (pt_pages (mem s) 2 pt \<union> set (p # ps)) s t"
    by (rule mem_frame_trans[OF mem_frame_mono[OF s1] mem_frame_mono[OF fr]]) auto
  then have sbm: "same_but_mem s t" by (simp add: mem_frame_def)
  have old: "j \<in> I \<Longrightarrow> j < 2 ^ 26 \<and> pframe F j \<noteq> p" for j using own by (auto simp: owns_def)
  have own_t: "owns t pt qs G I" if "vmspace t pt qs G" "\<And>j. j \<in> I \<Longrightarrow> G (upage j) = F (upage j)" for G
    by (rule owns_transfer[OF own that(1) sbm that(2)]) (use pool in auto)
  have "if r = 0 then owns t pt qs (leaf_upd F (upage i) (map_pte p rwxu)) (insert i I)
      else r = -1 \<and> qs = [] \<and> length ps < 2 \<and> owns t pt qs F I"
  proof (cases "r = 0")
    case True
    let ?G = "leaf_upd F (upage i) (map_pte p rwxu)"
    have G: "?G (upage j) = (if j = i then map_pte p rwxu else F (upage j))" if "j < 2 ^ 26" for j
      by (rule leaf_upd_upage[OF i(2) that])
    have "owns t pt qs ?G I" using m(3) True old i(1) G by (intro own_t) auto
    moreover have "pframe ?G i = p" using G[OF i(2)] map_pte_facts(1)[OF pal rwxu_flags(1)] by (simp add: pframe_def)
    moreover have "pframe ?G j = pframe F j" if "j \<in> I" for j
      using G[of j] old[OF that] that i(1) by (auto simp: pframe_def)
    ultimately have "owns t pt qs ?G (insert i I)"
      using map_pte_facts[OF pal rwxu_flags(1)] rwxu_flags(2) G[OF i(2)] i K(5) pn pool old same_but_memD(7)[OF sbm]
      by (intro owns_insert) auto
    then show ?thesis using True by simp
  qed (use m(3) own_t in auto)
  moreover have "p \<notin> set qs" "p \<notin> pt_pages (mem t) 2 pt" using pn pool by blast+
  ultimately show ?thesis using K m(1) fr' z pool
    by (intro exI[of _ ?u] exI[of _ r] exI[of _ t] exI[of _ qs]) (simp add: memset_op_def modify_def)
qed

lemma npages_upage: "i \<le> 2 ^ 26 \<Longrightarrow> npages_of (upage i) = i"
  by (simp add: npages_of_def unat_upage)

lemma uvmdealloc_back:
  assumes "owns s pt ps F I" "{m..<i} \<subseteq> I" "m \<le> i" "i \<le> 2 ^ 26"
  shows "\<exists>r t. uvmdealloc pt (upage i) (upage m) s = Ret r t \<and>
     owns t pt (rev (map (pframe F) [m..<i]) @ ps) (unmap_range F m i) (I - {m..<i}) \<and>
     pt_pages (mem t) 2 pt = pt_pages (mem s) 2 pt \<and>
     mem_frame (pframe F ` {m..<i} \<union> pt_pages (mem s) 2 pt) s t"
proof (cases "m = i")
  case True
  then show ?thesis using assms(1) by (simp add: uvmdealloc_def op_defs)
next
  case False
  have n: "npages_of (upage m) = m" "npages_of (upage i) = i"
    using assms(3,4) by (simp_all add: npages_upage)
  have "upage m < upage i" using upage_less[of m i] False assms(3,4) by simp
  moreover have "unat (upage i) \<le> 2 ^ 38" using unat_upage[OF assms(4)] assms(4) by simp
  ultimately show ?thesis using uvmdealloc_eq[OF assms(1), of "upage m" "upage i"] assms(2) unfolding n by blast
qed

text \<open>What a failed pass leaves: the pages mapped since \<open>m\<close> are unmapped and free again.\<close>

definition undone :: "addr \<Rightarrow> nat \<Rightarrow> nat \<Rightarrow> 'z kmem_scheme \<Rightarrow> addr list \<Rightarrow> (uint64 \<Rightarrow> uint64) \<Rightarrow> nat set \<Rightarrow>
    'z kmem_scheme \<Rightarrow> addr list \<Rightarrow> bool" where
  "undone pt m i s ps F I t qs \<longleftrightarrow> owns t pt qs (unmap_range F m i) (I - {m..<i}) \<and>
     pt_pages (mem t) 2 pt \<union> set qs = pt_pages (mem s) 2 pt \<union> set ps \<union> pframe F ` {m..<i} \<and>
     mem_frame (pt_pages (mem s) 2 pt \<union> set ps \<union> pframe F ` {m..<i}) s t"

lemma uvmdealloc_undone:
  assumes "owns u pt qs F I" "{m..<i} \<subseteq> I" "m \<le> i" "i \<le> 2 ^ 26"
    "pt_pages (mem u) 2 pt \<union> set qs = pt_pages (mem s) 2 pt \<union> set ps"
    "mem_frame (pt_pages (mem s) 2 pt \<union> set ps) s u"
  shows "\<exists>r t rs. uvmdealloc pt (upage i) (upage m) u = Ret r t \<and> undone pt m i s ps F I t rs"
proof -
  obtain r t where t: "uvmdealloc pt (upage i) (upage m) u = Ret r t"
      "owns t pt (rev (map (pframe F) [m..<i]) @ qs) (unmap_range F m i) (I - {m..<i})"
      "pt_pages (mem t) 2 pt = pt_pages (mem u) 2 pt"
      "mem_frame (pframe F ` {m..<i} \<union> pt_pages (mem u) 2 pt) u t"
    using uvmdealloc_back[OF assms(1-4)] by blast
  have "mem_frame (pt_pages (mem s) 2 pt \<union> set ps \<union> pframe F ` {m..<i}) s t"
    by (rule mem_frame_trans[OF mem_frame_mono[OF assms(6)] mem_frame_mono[OF t(4)]])
      (use assms(5) in blast)+
  moreover have "pt_pages (mem t) 2 pt \<union> set (rev (map (pframe F) [m..<i]) @ qs)
      = pt_pages (mem s) 2 pt \<union> set ps \<union> pframe F ` {m..<i}"
    using t(3) assms(5) by auto
  ultimately have "undone pt m i s ps F I t (rev (map (pframe F) [m..<i]) @ qs)"
    using t(2) unfolding undone_def by blast
  then show ?thesis using t(1) by blast
qed

lemma uvmalloc_pass_cases:
  assumes own: "owns s pt ps F I" and i: "i \<notin> I" "i < 2 ^ 26" "F (upage i) = 0"
    and m: "{m..<i} \<subseteq> I" "m \<le> i"
  shows "(\<exists>p t qs. uvmalloc_pass pt (upage m) (upage i) s = Ret None t \<and>
       owns t pt qs (leaf_upd F (upage i) (map_pte p rwxu)) (insert i I) \<and> zero_page (mem t) p \<and>
       page_aligned p \<and> insert p (pt_pages (mem t) 2 pt \<union> set qs) = pt_pages (mem s) 2 pt \<union> set ps \<and>
       mem_frame (pt_pages (mem s) 2 pt \<union> set ps) s t)
   \<or> (\<exists>t qs. uvmalloc_pass pt (upage m) (upage i) s = Ret (Some 0) t \<and> undone pt m i s ps F I t qs)"
proof (cases ps)
  case Nil
  have "kalloc s = Ret 0 s"
    using own Nil kmem_inv_Nil[of s] by (simp add: owns_def vmspace_def kalloc_eq)
  moreover obtain r t rs where "uvmdealloc pt (upage i) (upage m) s = Ret r t" "undone pt m i s ps F I t rs"
    using uvmdealloc_undone[OF own m, of s ps] i(2) by auto
  ultimately have "uvmalloc_pass pt (upage m) (upage i) s = Ret (Some 0) t"
    by (simp add: uvmalloc_pass_def op_defs)
  then show ?thesis using \<open>undone pt m i s ps F I t rs\<close> by blast
next
  case (Cons p ps')
  obtain u r t qs where a: "kalloc s = Ret p (after_kalloc s)" "memset_op p 0 4096 (after_kalloc s) = Ret () u"
      "mappages pt (upage i) PGSIZE p rwxu u = Ret r t"
      "mem_frame (pt_pages (mem s) 2 pt \<union> set ps) s t" "zero_page (mem t) p"
      "kernel_page s p" "p \<noteq> 0" "p \<notin> set qs" "p \<notin> pt_pages (mem t) 2 pt"
      "pt_pages (mem t) 2 pt \<union> set qs = pt_pages (mem s) 2 pt \<union> set ps'"
      "if r = 0 then owns t pt qs (leaf_upd F (upage i) (map_pte p rwxu)) (insert i I)
       else r = -1 \<and> qs = [] \<and> length ps' < 2 \<and> owns t pt qs F I"
    using alloc_map_page[OF own[unfolded Cons] i] unfolding Cons by blast
  have pool: "insert p (pt_pages (mem t) 2 pt \<union> set qs) = pt_pages (mem s) 2 pt \<union> set ps"
    using a(10) Cons by auto
  show ?thesis
  proof (cases "r = 0")
    case True
    then have "uvmalloc_pass pt (upage m) (upage i) s = Ret None t"
      using a(1,2,3,7) unfolding uvmalloc_pass_def rwxu_def[symmetric] by (simp add: op_defs)
    then show ?thesis using True a pool by (auto simp: kernel_page_def)
  next
    case False
    then have own_t: "owns t pt qs F I" using a(11) by (cases "r = 0") auto
    have sbm: "same_but_mem s t" using a(4) by (simp add: mem_frame_def)
    have pt: "kernel_page t p" using a(6) same_but_memD(7)[OF sbm] by simp
    note kf = vmspace_kfree[OF owns_vmspace[OF own_t] pt a(8,9)]
    have pI: "pframe F j \<noteq> p" if "j \<in> I" for j using own that Cons by (auto simp: owns_def)
    let ?u = "after_kfree p t"
    have "owns ?u pt (p # qs) F I"
      using own_t kf(1,2) pI unfolding owns_def by auto
    moreover have "mem_frame (pt_pages (mem s) 2 pt \<union> set ps) s ?u"
      by (rule mem_frame_trans[OF a(4) mem_frame_mono[OF kf(3)]]) (use Cons in auto)
    ultimately obtain r' v rs where d: "uvmdealloc pt (upage i) (upage m) ?u = Ret r' v"
        "undone pt m i s ps F I v rs"
      using uvmdealloc_undone[of ?u pt "p # qs" F I m i s ps] m i(2) pool kf(2) by auto
    have "kfree p t = Ret () ?u"
      using pt owns_vmspace[OF own_t] by (simp add: kfree_eq vmspace_def)
    then have "uvmalloc_pass pt (upage m) (upage i) s = Ret (Some 0) v"
      using a(1,2,3,7) False d(1) unfolding uvmalloc_pass_def rwxu_def[symmetric] by (simp add: op_defs)
    then show ?thesis using d(2) by blast
  qed
qed

text \<open>
  What the loop of \<open>uvmalloc\<close> has built when it has mapped the pages \<open>m\<close> to \<open>n - 1\<close>.
\<close>

definition grown :: "addr \<Rightarrow> nat \<Rightarrow> nat \<Rightarrow> 'z kmem_scheme \<Rightarrow> addr list \<Rightarrow> (uint64 \<Rightarrow> uint64) \<Rightarrow> nat set \<Rightarrow>
    'z kmem_scheme \<Rightarrow> addr list \<Rightarrow> (uint64 \<Rightarrow> uint64) \<Rightarrow> bool" where
  "grown pt m n s ps F I t qs G \<longleftrightarrow> owns t pt qs G (I \<union> {m..<n}) \<and> unmap_range G m n = F \<and>
     (\<forall>j \<in> {m..<n}. \<exists>p. page_aligned p \<and> G (upage j) = map_pte p rwxu \<and> zero_page (mem t) p) \<and>
     pt_pages (mem t) 2 pt \<union> set qs \<union> pframe G ` {m..<n} = pt_pages (mem s) 2 pt \<union> set ps \<and>
     mem_frame (pt_pages (mem s) 2 pt \<union> set ps) s t"

definition restored :: "addr \<Rightarrow> 'z kmem_scheme \<Rightarrow> addr list \<Rightarrow> (uint64 \<Rightarrow> uint64) \<Rightarrow> nat set \<Rightarrow>
    'z kmem_scheme \<Rightarrow> addr list \<Rightarrow> bool" where
  "restored pt s ps F I t qs \<longleftrightarrow> owns t pt qs F I \<and>
     pt_pages (mem t) 2 pt \<union> set qs = pt_pages (mem s) 2 pt \<union> set ps \<and>
     mem_frame (pt_pages (mem s) 2 pt \<union> set ps) s t"

lemma owns_aligned:
  assumes "owns s pt ps F I"
  shows "\<forall>q \<in> pt_pages (mem s) 2 pt \<union> set ps. page_aligned q"
  using assms by (auto simp: owns_def vmspace_def kmem_inv_def kernel_page_def)

lemma unmap_range_grow:
  assumes "unmap_range G m n = F" "m \<le> n" "n < 2 ^ 26" "\<And>va. unat va div 4096 = n \<Longrightarrow> F va = 0"
  shows "unmap_range (leaf_upd G (upage n) v) m (Suc n) = F"
proof
  fix va
  show "unmap_range (leaf_upd G (upage n) v) m (Suc n) va = F va"
    using assms(1)[THEN fun_cong, of va] assms(2,4) same_upage[OF assms(3), of va]
    by (auto simp: unmap_range_def leaf_upd_def less_Suc_eq split: if_splits)
qed

lemma grown_step:
  assumes g: "grown pt m n s ps F I t qs G" and m: "m \<le> n" "n < 2 ^ 26"
    and z: "\<And>va. unat va div 4096 = n \<Longrightarrow> F va = 0"
    and own: "owns u pt rs (leaf_upd G (upage n) (map_pte p rwxu)) (insert n (I \<union> {m..<n}))"
    and p: "zero_page (mem u) p" "page_aligned p"
    and pool: "insert p (pt_pages (mem u) 2 pt \<union> set rs) = pt_pages (mem t) 2 pt \<union> set qs"
    and fr: "mem_frame (pt_pages (mem t) 2 pt \<union> set qs) t u"
  shows "grown pt m (Suc n) s ps F I u rs (leaf_upd G (upage n) (map_pte p rwxu))"
proof -
  let ?H = "leaf_upd G (upage n) (map_pte p rwxu)"
  have ownt: "owns t pt qs G (I \<union> {m..<n})" and un: "unmap_range G m n = F"
    and zs: "\<forall>j \<in> {m..<n}. \<exists>q. page_aligned q \<and> G (upage j) = map_pte q rwxu \<and> zero_page (mem t) q"
    and pl: "pt_pages (mem t) 2 pt \<union> set qs \<union> pframe G ` {m..<n} = pt_pages (mem s) 2 pt \<union> set ps"
    and fs: "mem_frame (pt_pages (mem s) 2 pt \<union> set ps) s t"
    using g unfolding grown_def by blast+
  have I: "insert n (I \<union> {m..<n}) = I \<union> {m..<Suc n}" using m(1) by auto
  have H: "?H (upage j) = (if j = n then map_pte p rwxu else G (upage j))" if "j \<le> n" for j
    using that m(2) by (intro leaf_upd_upage) auto
  have fH: "pframe ?H j = (if j = n then p else pframe G j)" if "j \<le> n" for j
    using H[OF that] map_pte_facts(1)[OF p(2) rwxu_flags(1)] by (simp add: pframe_def)
  have "zero_page (mem u) q" if j: "j \<in> {m..<n}" "page_aligned q" "G (upage j) = map_pte q rwxu" "zero_page (mem t) q" for j q
  proof (rule frame_zero_page[OF fr j(4,2) owns_aligned[OF ownt]])
    have "pframe G j = q" using map_pte_facts(1)[OF j(2) rwxu_flags(1)] j(3) by (simp add: pframe_def)
    then show "q \<notin> pt_pages (mem t) 2 pt \<union> set qs" using ownt j(1) by (auto simp: owns_def)
  qed
  note keep = this
  have "\<exists>q. page_aligned q \<and> ?H (upage j) = map_pte q rwxu \<and> zero_page (mem u) q"
    if j: "j \<in> {m..<Suc n}" for j
  proof (cases "j = n")
    case False
    then have "j \<in> {m..<n}" "?H (upage j) = G (upage j)" using j H[of j] by auto
    then show ?thesis using keep zs by metis
  qed (use H[of n] p in auto)
  moreover have "pframe ?H ` {m..<Suc n} = insert p (pframe G ` {m..<n})"
    using fH m(1) by (auto simp: atLeastLessThanSuc image_iff)
  then have "pt_pages (mem u) 2 pt \<union> set rs \<union> pframe ?H ` {m..<Suc n} = pt_pages (mem s) 2 pt \<union> set ps"
    using pool pl by auto
  moreover have "mem_frame (pt_pages (mem s) 2 pt \<union> set ps) s u"
    by (rule mem_frame_trans[OF fs mem_frame_mono[OF fr]]) (use pl in blast)
  ultimately show ?thesis
    using own unmap_range_grow[OF un m z] unfolding I grown_def by simp
qed

lemma uvmalloc_loop:
  assumes own: "owns s pt ps F I" and z: "\<And>va. m \<le> unat va div 4096 \<Longrightarrow> unat va div 4096 < m + k \<Longrightarrow> F va = 0"
    and I: "I \<inter> {m..<m + k} = {}" "m + k \<le> 2 ^ 26"
  shows "(\<exists>t qs G. for_first (map upage [m..<m + k]) (uvmalloc_pass pt (upage m)) s = Ret None t \<and>
            grown pt m (m + k) s ps F I t qs G)
       \<or> (\<exists>t qs. for_first (map upage [m..<m + k]) (uvmalloc_pass pt (upage m)) s = Ret (Some 0) t \<and>
            restored pt s ps F I t qs)"
  using z I
proof (induction k)
  case 0
  have "grown pt m m s ps F I s ps F" using own by (simp add: grown_def)
  then show ?case by (auto simp: op_defs)
next
  case (Suc k)
  let ?n = "m + k" and ?L = "\<lambda>n. for_first (map upage [m..<n]) (uvmalloc_pass pt (upage m)) s"
  have app: "?L (m + Suc k) = bind (for_first (map upage [m..<?n]) (uvmalloc_pass pt (upage m)))
      (\<lambda>r. case r of Some a \<Rightarrow> ret (Some a) | None \<Rightarrow> bind (uvmalloc_pass pt (upage m) (upage ?n)) ret) s"
    by (simp add: for_first_snoc cong: option.case_cong)
  have "(\<exists>t qs G. ?L ?n = Ret None t \<and> grown pt m ?n s ps F I t qs G)
      \<or> (\<exists>t qs. ?L ?n = Ret (Some 0) t \<and> restored pt s ps F I t qs)"
  proof (rule Suc.IH)
    show "I \<inter> {m..<?n} = {}" using Suc.prems(2) by auto
  qed (use Suc.prems in auto)
  then show ?case
  proof (elim disjE exE conjE)
    fix t qs assume "?L ?n = Ret (Some 0) t" "restored pt s ps F I t qs"
    then show ?thesis using app by (auto simp: bind_def ret_def)
  next
    fix t qs G assume l: "?L ?n = Ret None t" and g: "grown pt m ?n s ps F I t qs G"
    have ownt: "owns t pt qs G (I \<union> {m..<?n})" and un: "unmap_range G m ?n = F"
      and pl: "pt_pages (mem t) 2 pt \<union> set qs \<union> pframe G ` {m..<?n} = pt_pages (mem s) 2 pt \<union> set ps"
      and fs: "mem_frame (pt_pages (mem s) 2 pt \<union> set ps) s t"
      using g unfolding grown_def by blast+
    have nI: "?n \<notin> I \<union> {m..<?n}" "?n < 2 ^ 26" using Suc.prems(2,3) by auto
    have zn: "F va = 0" if "unat va div 4096 = ?n" for va using Suc.prems(1)[of va] that by simp
    have u: "unat (upage ?n) div 4096 = ?n" using unat_upage[of ?n] nI(2) by simp
    have "G (upage ?n) = F (upage ?n)" using fun_cong[OF un, of "upage ?n"] u by (simp add: unmap_range_def)
    then have Gn: "G (upage ?n) = 0" using zn[OF u] by simp
    have run: "?L (m + Suc k) = uvmalloc_pass pt (upage m) (upage ?n) t"
      using app l by (simp add: bind_def)
    from uvmalloc_pass_cases[OF ownt nI Gn Un_upper2 le_add1]
    show ?thesis
    proof (elim disjE exE conjE)
      fix p u rs
      assume ok: "uvmalloc_pass pt (upage m) (upage ?n) t = Ret None u"
        and st: "owns u pt rs (leaf_upd G (upage ?n) (map_pte p rwxu)) (insert ?n (I \<union> {m..<?n}))"
        "zero_page (mem u) p" "page_aligned p"
        "insert p (pt_pages (mem u) 2 pt \<union> set rs) = pt_pages (mem t) 2 pt \<union> set qs"
        "mem_frame (pt_pages (mem t) 2 pt \<union> set qs) t u"
      have "grown pt m (m + Suc k) s ps F I u rs (leaf_upd G (upage ?n) (map_pte p rwxu))"
        using grown_step[OF g le_add1 nI(2) zn st] by simp
      then show ?thesis using run ok by auto
    next
      fix u rs assume f: "uvmalloc_pass pt (upage m) (upage ?n) t = Ret (Some 0) u"
        and d: "undone pt m ?n t qs G (I \<union> {m..<?n}) u rs"
      have "I \<union> {m..<?n} - {m..<?n} = I" using Suc.prems(2) by auto
      moreover have "mem_frame (pt_pages (mem s) 2 pt \<union> set ps) s u"
        using mem_frame_trans[OF fs] d pl unfolding undone_def by metis
      ultimately have "restored pt s ps F I u rs" using d un pl by (simp add: undone_def restored_def)
      then show ?thesis using run f by auto
    qed
  qed
qed

end
