(* ===== verification/UserVm.thy ===== *)
theory UserVm
  imports AddrSpace
begin

unbundle bit_operations_syntax

text \<open>
  The life of a user address space: growing it (\<open>uvmalloc\<close>), giving it back
  (\<open>uvmfree\<close>, \<open>freewalk\<close>), and reading and writing user memory through its page table
  (\<open>copyout\<close>, \<open>copyin\<close>, \<open>copyinstr\<close>).
\<close>

section \<open>Growing\<close>

lemma page_steps_upage:
  assumes "unat limit \<le> 2 ^ 38" "m \<le> npages_of limit"
  shows "page_steps (upage m) limit = map upage [m..<npages_of limit]"
proof -
  have n: "npages_of limit \<le> 2 ^ 26" by (rule npages_of_le[OF assms(1)])
  have "(unat limit - 4096 * m + 4095) div 4096 = npages_of limit - m"
  proof (cases "4096 * m \<le> unat limit")
    case True
    then have "unat limit - 4096 * m + 4095 = unat limit + 4095 - m * 4096" by simp
    then show ?thesis by (simp add: npages_of_def)
  next
    case False
    then have "unat limit + 4095 < Suc m * 4096" by simp
    then have "npages_of limit < Suc m" unfolding npages_of_def
      by (simp only: div_less_iff_less_mult zero_less_numeral)
    then show ?thesis using False assms(2) by simp
  qed
  moreover have "unat (upage m) = 4096 * m" using unat_upage[of m] n assms(2) by simp
  moreover have "map (page_at (upage m)) [0..<k] = map upage [m..<m + k]" for k
    by (rule nth_equalityI) (simp_all add: upage_def page_at_def algebra_simps)
  ultimately show ?thesis using assms(2) by (simp add: page_steps_def)
qed


section \<open>Giving memory back\<close>

text \<open>A tree without a valid leaf entry.\<close>

fun pt_clear :: "memory \<Rightarrow> nat \<Rightarrow> addr \<Rightarrow> bool" where
  "pt_clear m 0 pt \<longleftrightarrow> (\<forall>i < 512. load64 m (pte_addr pt (of_nat i)) AND PTE_V = 0)"
| "pt_clear m (Suc l) pt \<longleftrightarrow> (\<forall>i < 512. \<forall>c. pt_child m pt i = Some c \<longrightarrow> pt_clear m l c)"

lemma agree_clear: "agree (pt_pages m l pt) m m' \<Longrightarrow> pt_clear m' l pt = pt_clear m l pt"
proof (induction l arbitrary: pt)
  case 0
  have "load64 m' (pte_addr pt (of_nat i)) = load64 m (pte_addr pt (of_nat i))" if "i < 512" for i
    using agree_load[OF 0 _ cell_pte_addr_nat[OF that]] by simp
  then show ?case by simp
next
  case (Suc l)
  have "pt_child m' pt i = pt_child m pt i" if "i < 512" for i
    using agree_child[OF Suc.prems _ that] by simp
  moreover have "pt_clear m' l c = pt_clear m l c" if "i < 512" "pt_child m pt i = Some c" for i c
    using Suc.IH[OF agree_mono[OF Suc.prems]] pt_sub_subset[OF that(1), of m l pt] pt_sub_Some[OF that(2), of l] by simp
  ultimately show ?case by auto
qed

text \<open>
  What the loop of \<open>freewalk\<close> has done after the entries below \<open>n\<close>: the pages of their
  subtrees are free, and memory has changed in those pages and in the table only.
\<close>

definition freed_below :: "nat \<Rightarrow> addr \<Rightarrow> nat \<Rightarrow> 'z kmem_scheme \<Rightarrow> addr list \<Rightarrow> 'z kmem_scheme \<Rightarrow> addr list \<Rightarrow> bool" where
  "freed_below l pt n s ps t xs \<longleftrightarrow> kmem_inv t (xs @ ps) \<and> set xs = (\<Union>i \<in> {..<n}. pt_sub (mem s) l pt i) \<and>
     mem_frame (insert pt (\<Union>i \<in> {..<n}. pt_sub (mem s) l pt i)) s t \<and>
     (\<forall>i < 512. n \<le> i \<longrightarrow> load64 (mem t) (pte_addr pt (of_nat i)) = load64 (mem s) (pte_addr pt (of_nat i)))"

lemma mem_frame_agree:
  assumes "mem_frame A s t" "\<forall>p \<in> A. page_aligned p" "\<forall>p \<in> P. page_aligned p" "A \<inter> P = {}"
  shows "agree P (mem s) (mem t)"
  using assms by (intro frame_agree[of A]) (auto simp: mem_frame_def)

text \<open>What \<open>freewalk\<close> needs of a table, and what it does.\<close>

definition clear_table :: "nat \<Rightarrow> addr \<Rightarrow> 'z kmem_scheme \<Rightarrow> addr list \<Rightarrow> bool" where
  "clear_table l pt s ps \<longleftrightarrow> kmem_free s \<and> kmem_inv s ps \<and> pt_ok (mem s) l pt \<and> pt_clear (mem s) l pt \<and>
     (\<forall>p \<in> pt_pages (mem s) l pt. kernel_page s p) \<and> pt_pages (mem s) l pt \<inter> set ps = {}"

definition freed_table :: "nat \<Rightarrow> addr \<Rightarrow> 'z kmem_scheme \<Rightarrow> addr list \<Rightarrow> 'z kmem_scheme \<Rightarrow> bool" where
  "freed_table l pt s ps t \<longleftrightarrow>
     (\<exists>xs. kmem_inv t (xs @ ps) \<and> set xs = pt_pages (mem s) l pt) \<and> mem_frame (pt_pages (mem s) l pt) s t"

lemma freewalk_entry_step:
  assumes IH: "\<And>c u qs. clear_table l c u qs \<Longrightarrow> \<exists>t. rec c u = Ret () t \<and> freed_table l c u qs t"
    and ct: "clear_table (Suc l) pt s ps" and fb: "freed_below l pt n s ps t xs" and n: "n < 512"
  shows "\<exists>u ys. freewalk_entry rec pt n t = Ret () u \<and> freed_below l pt (Suc n) s ps u ys"
proof (cases "pt_child (mem s) pt n")
  case None
  have "load64 (mem s) (pte_addr pt (of_nat n)) AND PTE_V = 0"
    using None by (auto simp: pt_child_def Let_def split: if_splits)
  then have "freewalk_entry rec pt n t = Ret () t"
    using fb n by (simp add: freewalk_entry_def op_defs load_op_def freed_below_def)
  moreover have "freed_below l pt (Suc n) s ps t xs"
    using fb pt_sub_None[OF None, of l] by (simp add: freed_below_def lessThan_Suc)
  ultimately show ?thesis by blast
next
  case (Some c)
  let ?B = "\<Union>i \<in> {..<n}. pt_sub (mem s) l pt i" and ?P = "pt_pages (mem s) l c"
  have ok: "pt_ok (mem s) (Suc l) pt" and kf: "kmem_free s"
    and kp: "\<And>p. p \<in> pt_pages (mem s) (Suc l) pt \<Longrightarrow> kernel_page s p"
    and dj: "pt_pages (mem s) (Suc l) pt \<inter> set ps = {}"
    using ct by (auto simp: clear_table_def)
  have sub: "pt_sub (mem s) l pt n = ?P" by (rule pt_sub_Some[OF Some])
  have P: "?P \<subseteq> pt_pages (mem s) (Suc l) pt" using pt_sub_subset[OF n, of "mem s" l pt] sub by simp
  have B: "?B \<subseteq> pt_pages (mem s) (Suc l) pt" using n by (auto simp: pt_pages_Suc)
  have "pt_sub (mem s) l pt i \<inter> ?P = {}" if "i < n" for i
    using ok n that sub[symmetric] by simp
  then have BP: "?B \<inter> ?P = {}" by auto
  have ptP: "pt \<notin> ?P" "pt \<notin> ?B" using ok n sub by auto
  have ptin: "pt \<in> pt_pages (mem s) (Suc l) pt" by simp
  have fr: "mem_frame (insert pt ?B) s t" "kmem_inv t (xs @ ps)" "set xs = ?B"
    using fb by (auto simp: freed_below_def)
  have sbm: "same_but_mem s t" using fr(1) by (simp add: mem_frame_def)
  note D = same_but_memD[OF sbm]
  have "agree ?P (mem s) (mem t)"
    by (rule mem_frame_agree[OF fr(1)]) (use kp P B ptin ptP BP in \<open>auto simp: kernel_page_def\<close>)
  note T = agree_tree(1,2)[OF this] agree_clear[OF this]
  have "pt_ok (mem s) l c" "pt_clear (mem s) l c"
    using ct Some n unfolding clear_table_def by (auto split: option.splits)
  moreover have "?P \<inter> set (xs @ ps) = {}" using fr(3) BP P dj by auto
  ultimately have "clear_table l c t (xs @ ps)"
    using T fr(2) kf D kp P by (auto simp: clear_table_def)
  from IH[OF this] obtain u ys where u: "rec c t = Ret () u" "kmem_inv u (ys @ xs @ ps)" "set ys = ?P"
      "mem_frame ?P t u" by (auto simp: freed_table_def T)
  let ?u = "u\<lparr>mem := store64 (mem u) (pte_addr pt (of_nat n)) 0\<rparr>"
  have out: "mem ?u b = mem u b" if "\<not> in_page pt b" for b
    using store64_in_page[OF cell_pte_addr_nat[OF n] that] by simp
  have "load64 (mem t) (pte_addr pt (of_nat n)) = load64 (mem s) (pte_addr pt (of_nat n))"
    using fb n by (simp add: freed_below_def)
  moreover have "load64 (mem s) (pte_addr pt (of_nat n)) AND (PTE_R OR PTE_W OR PTE_X) = 0"
    using ok n Some by (auto split: option.splits)
  ultimately have run: "freewalk_entry rec pt n t = Ret () ?u"
    using Some u(1) by (auto simp: freewalk_entry_def op_defs load_op_def store_op_def pt_child_def
        Let_def split: if_splits)
  have sbu: "same_but_mem s u" using same_but_mem_trans[OF sbm] u(4) by (simp add: mem_frame_def)
  have "kmem_inv ?u (ys @ xs @ ps)"
  proof (rule kmem_inv_write[OF u(2)])
    show "\<forall>p \<in> {pt}. kernel_page u p" using kp[OF ptin] same_but_memD(7)[OF sbu] by simp
    show "set (ys @ xs @ ps) \<inter> {pt} = {}" using u(3) fr(3) ptP disjoint_iff[THEN iffD1, OF dj] ptin by auto
    show "wr_pages {pt} u ?u" using out by (auto simp: wr_pages_def)
  qed
  moreover have U: "(\<Union>i \<in> {..<Suc n}. pt_sub (mem s) l pt i) = ?P \<union> ?B" by (auto simp: lessThan_Suc sub)
  moreover have "mem_frame (insert pt (?P \<union> ?B)) s ?u"
  proof (rule mem_frame_trans[OF mem_frame_mono[OF fr(1)] mem_frame_trans[OF mem_frame_mono[OF u(4)]]])
    show "mem_frame (insert pt (?P \<union> ?B)) u ?u" using out by (simp add: mem_frame_def)
  qed auto
  moreover have "load64 (mem ?u) (pte_addr pt (of_nat i)) = load64 (mem s) (pte_addr pt (of_nat i))"
    if i: "i < 512" "Suc n \<le> i" for i
  proof -
    have "unat (of_nat i :: uint64) = i" "unat (of_nat n :: uint64) = n"
      using i n by (simp_all add: unat_of_nat take_bit_eq_mod)
    then have "load64 (mem ?u) (pte_addr pt (of_nat i)) = load64 (mem u) (pte_addr pt (of_nat i))"
      using i n kp[OF ptin] by (simp, intro load64_pte_other) (auto simp: kernel_page_def)
    moreover have "agree {pt} (mem t) (mem u)"
      by (rule mem_frame_agree[OF u(4)]) (use kp P ptin ptP in \<open>auto simp: kernel_page_def\<close>)
    ultimately show ?thesis
      using agree_load[OF _ _ cell_pte_addr_nat[OF i(1)], of "{pt}" "mem t" "mem u" pt] fb i
      by (simp add: freed_below_def)
  qed
  ultimately have "freed_below l pt (Suc n) s ps ?u (ys @ xs)"
    unfolding freed_below_def using u(3) fr(3) by simp
  then show ?thesis using run by blast
qed

text \<open>Freeing the table page itself, last.\<close>

lemma mem_frame_kfree: "mem_frame {p} s (after_kfree p s)"
  using store64_in_page[OF cell_base] by (simp add: mem_frame_def after_kfree_def memset_page)

lemma freewalk_loop:
  assumes IH: "\<And>c u qs. clear_table l c u qs \<Longrightarrow> \<exists>t. rec c u = Ret () t \<and> freed_table l c u qs t"
    and ct: "clear_table (Suc l) pt s ps"
  shows "n \<le> 512 \<Longrightarrow> \<exists>t xs. for_each [0..<n] (freewalk_entry rec pt) s = Ret () t \<and> freed_below l pt n s ps t xs"
proof (induction n)
  case 0
  have "freed_below l pt 0 s ps s []" using ct by (simp add: freed_below_def clear_table_def)
  then show ?case by (auto simp: op_defs)
next
  case (Suc n)
  then obtain t xs where t: "for_each [0..<n] (freewalk_entry rec pt) s = Ret () t"
      "freed_below l pt n s ps t xs" by auto
  obtain u ys where "freewalk_entry rec pt n t = Ret () u" "freed_below l pt (Suc n) s ps u ys"
    using freewalk_entry_step[OF IH ct t(2)] Suc.prems by auto
  then show ?case using t(1) by (auto simp: for_each_snoc bind_def)
qed

lemma freewalk_at_eq:
  "clear_table l pt s ps \<Longrightarrow> \<exists>t. freewalk_at (Suc l) pt s = Ret () t \<and> freed_table l pt s ps t"
proof (induction l arbitrary: pt s ps)
  case 0
  have "for_each [0..<n] (freewalk_entry (freewalk_at 0) pt) s = Ret () s" if "n \<le> 512" for n
    using that 0
    by (induction n) (auto simp: for_each_snoc op_defs freewalk_entry_def load_op_def clear_table_def)
  moreover have "kfree pt s = Ret () (after_kfree pt s)" "kmem_inv (after_kfree pt s) ([pt] @ ps)"
    using 0 kmem_inv_kfree[of s ps pt] by (auto simp: clear_table_def kfree_eq)
  moreover have "freed_table 0 pt s ps (after_kfree pt s)"
    unfolding freed_table_def using calculation(3) mem_frame_kfree[of pt s]
    by (intro conjI exI[of _ "[pt]"]) simp_all
  ultimately show ?case by (intro exI[of _ "after_kfree pt s"]) (simp add: bind_def)
next
  case (Suc l)
  obtain t xs where t: "for_each [0..<512] (freewalk_entry (freewalk_at (Suc l)) pt) s = Ret () t"
      "freed_below l pt 512 s ps t xs"
    using freewalk_loop[OF Suc.IH Suc.prems, of 512] by blast
  have P: "pt_pages (mem s) (Suc l) pt = insert pt (set xs)"
    using t(2) by (simp add: freed_below_def pt_pages_Suc)
  have fr: "mem_frame (pt_pages (mem s) (Suc l) pt) s t" "kmem_inv t (xs @ ps)"
    using t(2) by (simp_all add: freed_below_def pt_pages_Suc)
  have sbm: "same_but_mem s t" using fr(1) by (simp add: mem_frame_def)
  have "pt \<notin> set xs" using t(2) Suc.prems by (auto simp: freed_below_def clear_table_def)
  moreover have "pt \<notin> set ps" using Suc.prems P by (auto simp: clear_table_def)
  moreover have "kernel_page t pt"
    using Suc.prems same_but_memD(7)[OF sbm] by (auto simp: clear_table_def)
  moreover have "kmem_free t" using Suc.prems same_but_memD(6)[OF sbm] by (simp add: clear_table_def)
  ultimately have k: "kfree pt t = Ret () (after_kfree pt t)" "kmem_inv (after_kfree pt t) ((pt # xs) @ ps)"
    using kmem_inv_kfree[OF fr(2)] by (auto simp: kfree_eq)
  have "mem_frame (pt_pages (mem s) (Suc l) pt) s (after_kfree pt t)"
    by (rule mem_frame_trans[OF fr(1) mem_frame_mono[OF mem_frame_kfree]]) simp
  moreover have "set (pt # xs) = pt_pages (mem s) (Suc l) pt" using P by simp
  ultimately have "freed_table (Suc l) pt s ps (after_kfree pt t)"
    unfolding freed_table_def using k(2) by blast
  then show ?case using k(1) t(1) by (auto simp: bind_def)
qed

text \<open>Every entry of the lower half of the tree belongs to an address below \<open>MAXVA\<close>.\<close>

lemma PX_compose:
  assumes "i < 512" "j < 512" "k < 512"
  defines "va \<equiv> of_nat (i * 2 ^ 30 + (j * 2 ^ 21 + k * 2 ^ 12)) :: uint64"
  shows "unat (PX 2 va) = i" "unat (PX 1 va) = j" "unat (PX 0 va) = k" "i < 256 \<Longrightarrow> va < MAXVA"
proof -
  let ?n = "i * 2 ^ 30 + (j * 2 ^ 21 + k * 2 ^ 12)"
  have k: "k * 2 ^ 12 < 2 ^ 21" and jk: "j * 2 ^ 21 + k * 2 ^ 12 < 2 ^ 30" using assms(2,3) by simp_all
  have n: "?n < 2 ^ 39" using jk assms(1) by simp
  then have u: "unat va = ?n" unfolding va_def by (simp only: unat_of_nat) (simp add: take_bit_eq_mod)
  have "?n div 2 ^ 30 = i" using jk by simp
  then show "unat (PX 2 va) = i" using assms(1) by (simp add: unat_PX u)
  have "?n = (i * 512 + j) * 2 ^ 21 + k * 2 ^ 12" by simp
  then have "?n div 2 ^ 21 = i * 512 + j" using k by simp
  then show "unat (PX 1 va) = j" using assms(2) by (simp add: unat_PX u)
  have "?n = ((i * 512 + j) * 512 + k) * 2 ^ 12" by simp
  then have "?n div 2 ^ 12 = (i * 512 + j) * 512 + k" by simp
  moreover have "((i * 512 + j) * 512 + k) mod 512 = k"
    using assms(3) by (simp only: mod_mult_self3 mod_less)
  ultimately show "unat (PX 0 va) = k" by (simp only: unat_PX u mult_0_right add_0_right)
  show "va < MAXVA" if "i < 256" using that jk by (simp add: word_less_nat_alt unat_MAXVA u)
qed

lemma clear_from_map:
  assumes vs: "vmspace s pt ps F" and z: "\<And>va. va < MAXVA \<Longrightarrow> F va AND PTE_V = 0"
  shows "pt_clear (mem s) 2 pt"
proof -
  have leaf: "pt_leaf (mem s) 2 pt va AND PTE_V = 0" if "unat (PX 2 va) < 256 \<Longrightarrow> va < MAXVA" for va
    using vs z[of va] that by (cases "256 \<le> unat (PX 2 va)") (auto simp: vmspace_def pt_upper_def pt_map_def)
  have two: "(2::nat) = Suc (Suc 0)" "(1::nat) = Suc 0" by simp_all
  have "load64 (mem s) (pte_addr d (of_nat k)) AND PTE_V = 0"
    if c: "i < 512" "pt_child (mem s) pt i = Some c" "j < 512" "pt_child (mem s) c j = Some d" "k < 512" for i c j d k
  proof -
    let ?va = "of_nat (i * 2 ^ 30 + (j * 2 ^ 21 + k * 2 ^ 12)) :: uint64"
    note P = PX_compose[OF c(1,3,5)]
    have "PX 0 ?va = of_nat k" using P(3) by (metis of_nat_unat ucast_id)
    then have "pt_leaf (mem s) 2 pt ?va = load64 (mem s) (pte_addr d (of_nat k))"
      using P(1,2) c(2,4) unfolding two by (simp add: pt_leaf_def)
    then show ?thesis using leaf[of ?va] P(1,4) by simp
  qed
  then show ?thesis unfolding two by simp
qed

text \<open>
  C6. \<open>uvmfree\<close> gives back all memory of a process. For an address space of \<open>n\<close> mapped
  user pages and nothing else mapped, it returns, and the free list then holds what
  it held before, the \<open>n\<close> user pages and every page-table page, each once.
\<close>

theorem uvmfree_returns_all:
  assumes "owns s pt ps F {..<npages_of sz}" and "unat sz \<le> 2 ^ 38"
    and "\<And>va. npages_of sz \<le> unat va div 4096 \<Longrightarrow> F va AND PTE_V = 0"
  shows "\<exists>t qs. uvmfree pt sz s = Ret () t \<and> flist (mem t) (freelist t) qs \<and> distinct qs \<and>
     set qs = set ps \<union> pt_pages (mem s) 2 pt \<union> pframe F ` {..<npages_of sz}"
proof -
  let ?n = "npages_of sz"
  have n: "?n \<le> 2 ^ 26" by (rule npages_of_le[OF assms(2)])
  have u0: "upage 0 = 0" by (simp add: upage_def page_at_def)
  obtain t where t: "uvmunmap pt (upage 0) (of_nat ?n) True s = Ret () t"
      "owns t pt (rev (map (pframe F) [0..<?n]) @ ps) (unmap_range F 0 ?n) ({..<?n} - {..<?n})"
      "pt_pages (mem t) 2 pt = pt_pages (mem s) 2 pt"
    using uvmunmap_eq[OF assms(1), of 0 ?n] n unfolding atLeast0LessThan add_0 by blast
  let ?rs = "rev (map (pframe F) [0..<?n]) @ ps"
  have vt: "vmspace t pt ?rs (unmap_range F 0 ?n)" by (rule owns_vmspace[OF t(2)])
  have "pt_clear (mem t) 2 pt"
    by (rule clear_from_map[OF vt]) (use assms(3) in \<open>auto simp: unmap_range_def\<close>)
  then have "clear_table 2 pt t ?rs" using vt by (simp add: clear_table_def vmspace_def)
  then obtain v xs where v: "freewalk pt t = Ret () v" "kmem_inv v (xs @ ?rs)" "set xs = pt_pages (mem s) 2 pt"
    using freewalk_at_eq[of 2 pt t ?rs] t(3) by (auto simp: freewalk_def freed_table_def numeral_3_eq_3 numeral_2_eq_2)
  have pre: "bind (if sz > 0 then uvmunmap pt 0 (PGROUNDUP sz div PGSIZE) True else ret ()) f s = f () t" for f :: "unit \<Rightarrow> ('a kmem_scheme, unit) op"
  proof (cases "sz > 0")
    case True
    have "PGROUNDUP sz div PGSIZE = of_nat ?n"
      using upage_diff_div[of 0 ?n] n PGROUNDUP_upage[OF assms(2)] u0 by simp
    then show ?thesis using True t(1) u0 by (simp add: bind_def)
  next
    case False
    then have "sz = 0" by (simp add: word_gt_0)
    then have "?n = 0" by (simp add: npages_of_def)
    then have "t = s" using t(1) u0 by (simp add: uvmunmap_def pages_between_def op_defs PGSIZE_def)
    then show ?thesis using False by simp
  qed
  have "uvmfree pt sz s = Ret () v" unfolding uvmfree_def pre using v(1) .
  moreover have "set (xs @ ?rs) = set ps \<union> pt_pages (mem s) 2 pt \<union> pframe F ` {..<?n}"
    using v(3) by (auto simp: atLeast0LessThan)
  ultimately show ?thesis using v(2) unfolding kmem_inv_def by blast
qed

section \<open>A concrete address space\<close>

text \<open>Four free pages, and an empty page table in a fifth page.\<close>

definition vm_page :: "nat \<Rightarrow> addr" where
  "vm_page i = KERNBASE + 0x20000 + of_nat (4096 * i)"

definition vm0 :: kmem where
  "vm0 = after_kfree (vm_page 4) (after_kfree (vm_page 3) (after_kfree (vm_page 2) (after_kfree (vm_page 1) kmem0)))"

definition vm0_free :: "addr list" where
  "vm0_free = [vm_page 4, vm_page 3, vm_page 2, vm_page 1]"

lemma vm_page_kernel: "i < 8 \<Longrightarrow> kernel_page kmem0 (vm_page i)"
proof -
  assume "i < 8"
  then have "i \<in> {0, 1, 2, 3, 4, 5, 6, 7}" by auto
  then show ?thesis
    by (auto simp: kernel_page_def kmem0_ok vm_page_def page_aligned_def PGSIZE_def KERNBASE_def PHYSTOP_def)
qed

lemma vm_page_inj: "i < 8 \<Longrightarrow> j < 8 \<Longrightarrow> vm_page i = vm_page j \<longleftrightarrow> i = j"
proof -
  assume "i < 8" "j < 8"
  then have "i \<in> {0, 1, 2, 3, 4, 5, 6, 7}" "j \<in> {0, 1, 2, 3, 4, 5, 6, 7}" by auto
  then show ?thesis by (auto simp: vm_page_def)
qed

lemma vm0_inv: "kmem_free vm0" "kmem_inv vm0 vm0_free"
  unfolding vm0_def vm0_free_def
  by (simp_all add: kmem0_ok kmem_inv_kfree vm_page_kernel vm_page_inj)

lemma vm0_space: "owns vm0 (vm_page 0) vm0_free (\<lambda>_. 0) {}" "pt_pages (mem vm0) 2 (vm_page 0) = {vm_page 0}"
proof -
  have al: "page_aligned (vm_page i)" if "i < 8" for i using vm_page_kernel[OF that] by (simp add: kernel_page_def)
  have fr: "mem (after_kfree (vm_page i) s) b = mem s b" if "0 < i" "i < 8" "in_page (vm_page 0) b" for i s b
  proof -
    have "\<not> in_page (vm_page i) b"
      using in_page_unique[OF al al, of i 0 b] that vm_page_inj[of i 0] by auto
    then show ?thesis using mem_frame_kfree[of "vm_page i" s] by (simp add: mem_frame_def)
  qed
  have "mem kmem0 b = 0" for b by (simp add: kmem0_def machine.defs kmem.defs machine0_def)
  then have zero: "in_page (vm_page 0) b \<Longrightarrow> mem vm0 b = 0" for b by (simp add: vm0_def fr)
  note e = empty_table[OF al zero]
  have "vm_page 0 \<notin> set vm0_free" by (simp add: vm0_free_def vm_page_inj)
  moreover have "kernel_page vm0 (vm_page 0)" using vm_page_kernel[of 0] by (simp add: vm0_def)
  moreover have "pt_map (mem vm0) (vm_page 0) = (\<lambda>_. 0)" "pt_upper (mem vm0) (vm_page 0)"
    using e(3) by (simp_all add: fun_eq_iff pt_map_def pt_upper_def)
  ultimately show "owns vm0 (vm_page 0) vm0_free (\<lambda>_. 0) {}"
    using e(1,2) vm0_inv by (simp add: owns_def vmspace_def)
  show "pt_pages (mem vm0) 2 (vm_page 0) = {vm_page 0}" using e(1) by simp
qed


theorem uvmfree_returns_all_witness:
  "\<exists>t qs. uvmfree (vm_page 0) 0 vm0 = Ret () t \<and> flist (mem t) (freelist t) qs \<and>
     distinct qs \<and> set qs = insert (vm_page 0) (set vm0_free)"
proof -
  have "owns vm0 (vm_page 0) vm0_free (\<lambda>_. 0) {..<npages_of 0}"
    using vm0_space(1) by (simp add: npages_of_def)
  from uvmfree_returns_all[OF this] show ?thesis by (simp add: npages_of_def vm0_space(2))
qed

text \<open>The address space after mapping one user page at 0.\<close>

lemma vm0_mapped:
  "\<exists>t qs. bind kalloc (\<lambda>p. bind (memset_op p 0 4096) (\<lambda>_. mappages (vm_page 0) 0 PGSIZE p rwxu)) vm0 = Ret 0 t \<and>
     owns t (vm_page 0) qs (leaf_upd (\<lambda>_. 0) (upage 0) (map_pte (vm_page 4) rwxu)) {0}"
proof -
  have u0: "upage 0 = 0" by (simp add: upage_def page_at_def)
  note own = vm0_space(1)[unfolded vm0_free_def]
  obtain u r t qs where a: "kalloc vm0 = Ret (vm_page 4) (after_kalloc vm0)"
      "memset_op (vm_page 4) 0 4096 (after_kalloc vm0) = Ret () u"
      "mappages (vm_page 0) (upage 0) PGSIZE (vm_page 4) rwxu u = Ret r t"
      "if r = 0 then owns t (vm_page 0) qs (leaf_upd (\<lambda>_. 0) (upage 0) (map_pte (vm_page 4) rwxu)) (insert 0 {})
       else r = -1 \<and> qs = [] \<and> length [vm_page 3, vm_page 2, vm_page 1] < 2 \<and> owns t (vm_page 0) qs (\<lambda>_. 0) {}"
    using alloc_map_page[OF own, of 0] by auto
  then have "r = 0" by (cases "r = 0") auto
  then show ?thesis using a u0 by (auto simp: bind_def)
qed

end
