(* ===== verification/CopyUser.thy ===== *)
theory CopyUser
  imports UserVm
begin

unbundle bit_operations_syntax

text \<open>
  Reading and writing user memory from the kernel: \<open>copyout\<close>, \<open>copyin\<close> and
  \<open>copyinstr\<close> of \<open>kernel/vm.c\<close>, which check every page of a user pointer before they
  touch it.
\<close>

section \<open>Addresses a user may use\<close>

definition uacc :: "(uint64 \<Rightarrow> uint64) \<Rightarrow> uint64 \<Rightarrow> bool" where
  "uacc F va \<longleftrightarrow> va < MAXVA \<and> F va AND PTE_V \<noteq> 0 \<and> F va AND PTE_U \<noteq> 0"

text \<open>The physical address of the byte at \<open>va\<close>.\<close>

definition uaddr :: "(uint64 \<Rightarrow> uint64) \<Rightarrow> uint64 \<Rightarrow> addr" where
  "uaddr F va = PTE2PA (F va) + (va - PGROUNDDOWN va)"

text \<open>
  An address space whose user-accessible pages are mapped to different pages of RAM,
  none of them free or part of the page table.
\<close>

definition uspace :: "'z kmem_scheme \<Rightarrow> addr \<Rightarrow> addr list \<Rightarrow> (uint64 \<Rightarrow> uint64) \<Rightarrow> bool" where
  "uspace s pt ps F \<longleftrightarrow> vmspace s pt ps F \<and>
     (\<forall>va. uacc F va \<longrightarrow> kernel_page s (PTE2PA (F va)) \<and> PTE2PA (F va) \<notin> set ps \<union> pt_pages (mem s) 2 pt) \<and>
     (\<forall>va vb. uacc F va \<longrightarrow> uacc F vb \<longrightarrow> PTE2PA (F va) = PTE2PA (F vb) \<longrightarrow> PGROUNDDOWN va = PGROUNDDOWN vb)"

definition user_frames :: "(uint64 \<Rightarrow> uint64) \<Rightarrow> addr set" where
  "user_frames F = {PTE2PA (F va) | va. uacc F va}"

lemma vmspace_page: "vmspace s pt ps F \<Longrightarrow> F (PGROUNDDOWN va) = F va"
proof -
  assume "vmspace s pt ps F"
  then have F: "F = pt_map (mem s) pt" by (simp add: vmspace_def)
  have idem: "PGROUNDDOWN (PGROUNDDOWN va) = PGROUNDDOWN va" by (simp add: PGROUNDDOWN_id)
  have "pt_walk m l pt (PGROUNDDOWN va) = pt_walk m l pt va" for m l pt
    by (induction l arbitrary: pt) (simp_all add: PX_page split: option.split)
  moreover have "PGROUNDDOWN va < MAXVA \<longleftrightarrow> va < MAXVA"
    using same_page_MAXVA[of va "PGROUNDDOWN va"] same_page_MAXVA[of "PGROUNDDOWN va" va] idem by auto
  ultimately show ?thesis by (simp add: F pt_map_def pt_leaf_def)
qed

lemma uacc_page: "vmspace s pt ps F \<Longrightarrow> uacc F (PGROUNDDOWN va) = uacc F va"
proof -
  assume vs: "vmspace s pt ps F"
  have "PGROUNDDOWN va < MAXVA \<longleftrightarrow> va < MAXVA"
    using same_page_MAXVA[of va "PGROUNDDOWN va"] same_page_MAXVA[of "PGROUNDDOWN va" va]
    by (auto simp: PGROUNDDOWN_id)
  then show ?thesis by (simp add: uacc_def vmspace_page[OF vs])
qed

lemma uspaceD:
  assumes "uspace s pt ps F"
  shows "vmspace s pt ps F" "uacc F va \<Longrightarrow> kernel_page s (PTE2PA (F va))"
    "uacc F va \<Longrightarrow> PTE2PA (F va) \<notin> set ps \<union> pt_pages (mem s) 2 pt"
    "uacc F va \<Longrightarrow> uacc F vb \<Longrightarrow> PTE2PA (F va) = PTE2PA (F vb) \<Longrightarrow> PGROUNDDOWN va = PGROUNDDOWN vb"
  using assms unfolding uspace_def by blast+

lemma walkaddr_page:
  assumes "uspace s pt ps F"
  shows "walkaddr pt (PGROUNDDOWN va) s = Ret (if uacc F va then PTE2PA (F va) else 0) s"
    and "uacc F va \<Longrightarrow> PTE2PA (F va) \<noteq> 0"
proof -
  have vs: "vmspace s pt ps F" using assms by (simp add: uspace_def)
  show "walkaddr pt (PGROUNDDOWN va) s = Ret (if uacc F va then PTE2PA (F va) else 0) s"
    using walkaddr_eq[OF vs, of "PGROUNDDOWN va"] uacc_page[OF vs, of va] vmspace_page[OF vs, of va]
    by (simp add: uacc_def)
  show "PTE2PA (F va) \<noteq> 0" if "uacc F va"
  proof -
    have "kend s \<noteq> 0" using vs by (simp add: vmspace_def kmem_inv_def)
    then show ?thesis using uspaceD(2)[OF assms that] by (auto simp: kernel_page_def)
  qed
qed

lemma uspace_write:
  assumes us: "uspace s pt ps F" and m: "\<And>b. \<forall>p \<in> user_frames F. \<not> in_page p b \<Longrightarrow> m b = mem s b"
  shows "uspace (s\<lparr>mem := m\<rparr>) pt ps F"
proof -
  have A: "\<forall>p \<in> user_frames F. kernel_page s p" "user_frames F \<inter> (set ps \<union> pt_pages (mem s) 2 pt) = {}"
    using uspaceD(2,3)[OF us] unfolding user_frames_def by blast+
  have w: "vmspace (s\<lparr>mem := m\<rparr>) pt ps F" "pt_pages m 2 pt = pt_pages (mem s) 2 pt"
    using vmspace_write[OF uspaceD(1)[OF us] A] m by blast+
  have k: "kernel_page (s\<lparr>mem := m\<rparr>) = kernel_page s" "mem (s\<lparr>mem := m\<rparr>) = m" by simp_all
  show ?thesis using us w(1) unfolding uspace_def k w(2) by blast
qed

section \<open>Chunks of a page\<close>

lemma off_bound: "unat (va - PGROUNDDOWN va) < 4096"
  by (simp add: PGROUNDDOWN_diff)

lemma unat_chunk: "unat (chunk va len) = min (unat len) (4096 - unat (va - PGROUNDDOWN va))"
proof -
  have "unat (PGSIZE - (va - PGROUNDDOWN va)) = 4096 - unat (va - PGROUNDDOWN va)"
    using off_bound[of va] unat_sub[of "va - PGROUNDDOWN va" PGSIZE] by (simp add: word_le_nat_alt PGSIZE_def)
  then show ?thesis by (simp add: chunk_def Let_def word_less_nat_alt min_def)
qed

text \<open>The bytes of a chunk lie in the page of its first byte.\<close>

lemma chunk_same_page:
  assumes "unat (va - PGROUNDDOWN va) + j < 4096"
  shows "PGROUNDDOWN (va + of_nat j) = PGROUNDDOWN va"
proof -
  let ?off = "va - PGROUNDDOWN va"
  have j: "unat (of_nat j :: uint64) = j" using assms by (simp add: unat_of_nat take_bit_eq_mod)
  have "unat (?off + of_nat j) = unat ?off + j"
    using unat_add_nowrap[of ?off "of_nat j"] j assms by simp
  moreover have eq: "va + of_nat j - PGROUNDDOWN va = ?off + of_nat j" by simp
  ultimately have "in_page (PGROUNDDOWN va) (va + of_nat j)" unfolding in_page_def eq using assms by simp
  then show ?thesis by (intro in_page_round) simp_all
qed

lemma uaddr_chunk:
  assumes vs: "vmspace s pt ps F" and j: "unat (va - PGROUNDDOWN va) + j < 4096"
  shows "uaddr F (va + of_nat j) = uaddr F va + of_nat j"
proof -
  have "F (va + of_nat j) = F va"
    using vmspace_page[OF vs, of "va + of_nat j"] vmspace_page[OF vs, of va] chunk_same_page[OF j] by simp
  then show ?thesis by (simp add: uaddr_def chunk_same_page[OF j])
qed

lemma uaddr_in_page: "in_page (PTE2PA (F va)) (uaddr F va)"
  using off_bound[of va] by (simp add: in_page_def uaddr_def)

lemma chunk_in_page:
  assumes "unat (va - PGROUNDDOWN va) + n \<le> 4096" "unat (b - uaddr F va) < n"
  shows "in_page (PTE2PA (F va)) b"
proof -
  let ?off = "va - PGROUNDDOWN va"
  have eq: "b - PTE2PA (F va) = ?off + (b - uaddr F va)" by (simp add: uaddr_def)
  have "unat (?off + (b - uaddr F va)) = unat ?off + unat (b - uaddr F va)"
    using assms by (intro unat_add_nowrap) simp
  then show ?thesis unfolding in_page_def eq using assms by simp
qed

section \<open>copyout\<close>

definition all_uacc :: "(uint64 \<Rightarrow> uint64) \<Rightarrow> uint64 \<Rightarrow> nat \<Rightarrow> bool" where
  "all_uacc F va n \<longleftrightarrow> (\<forall>i < n. uacc F (va + of_nat i))"

lemma all_uacc_bound:
  assumes "all_uacc F va n" "0 < n"
  shows "unat va + n \<le> 2 ^ 38"
proof (rule ccontr)
  assume "\<not> unat va + n \<le> 2 ^ 38"
  moreover have "uacc F (va + of_nat 0)" using assms unfolding all_uacc_def by blast
  then have va: "unat va < 2 ^ 38" by (simp add: uacc_def word_less_nat_alt unat_MAXVA)
  ultimately have "2 ^ 38 - unat va < n" by simp
  then have acc: "uacc F (va + of_nat (2 ^ 38 - unat va))" using assms(1) unfolding all_uacc_def by blast
  have "unat (of_nat (2 ^ 38 - unat va) :: uint64) = 2 ^ 38 - unat va"
    by (simp add: unat_of_nat take_bit_eq_mod)
  then have "unat (va + of_nat (2 ^ 38 - unat va)) = 2 ^ 38"
    using unat_add_nowrap[of va "of_nat (2 ^ 38 - unat va)"] va by simp
  then show False using acc by (simp only: uacc_def word_less_nat_alt unat_MAXVA) simp
qed

text \<open>The split of a range at the end of its first page.\<close>

lemma range_split:
  fixes va len :: uint64
  assumes vs: "vmspace s pt ps F" and len: "len \<noteq> 0"
  defines "n \<equiv> unat (chunk va len)" and "va' \<equiv> PGROUNDDOWN va + PGSIZE"
  shows "n \<le> unat len" "0 < n" "unat (va - PGROUNDDOWN va) + n \<le> 4096"
    and "n < unat len \<Longrightarrow> va + of_nat n = va'"
    and "unat (len - chunk va len) = unat len - n"
    and "all_uacc F va (unat len) \<longleftrightarrow> uacc F va \<and> all_uacc F va' (unat len - n)"
proof -
  let ?off = "va - PGROUNDDOWN va"
  have off: "unat ?off < 4096" by (rule off_bound)
  have n: "n = min (unat len) (4096 - unat ?off)" by (simp add: n_def unat_chunk)
  have len0: "0 < unat len" using len by (simp add: unat_gt_0)
  show nl: "n \<le> unat len" "0 < n" and bd: "unat ?off + n \<le> 4096" using n off len0 by auto
  show "unat (len - chunk va len) = unat len - n"
    using nl(1) unat_sub[of "chunk va len" len] by (simp add: n_def word_le_nat_alt)
  show step: "va + of_nat n = va'" if "n < unat len"
  proof -
    have "unat ?off + n = 4096" using n that off by simp
    then have "unat (?off + of_nat n) = 4096"
      using unat_add_nowrap[of ?off "of_nat n"] by (simp add: unat_of_nat take_bit_eq_mod)
    then have "?off + of_nat n = PGSIZE" by (simp add: word_unat_eq_iff PGSIZE_def)
    then show ?thesis by (simp add: va'_def algebra_simps)
  qed
  have same: "uacc F (va + of_nat i) = uacc F va" if "i < n" for i
  proof -
    have "PGROUNDDOWN (va + of_nat i) = PGROUNDDOWN va" by (rule chunk_same_page) (use that bd in linarith)
    then show ?thesis using uacc_page[OF vs, of va] uacc_page[OF vs, of "va + of_nat i"] by (simp only:)
  qed
  have later: "va + of_nat i = va' + of_nat (i - n)" if "n \<le> i" "i < unat len" for i
  proof -
    have "va + of_nat i = (va + of_nat n) + of_nat (i - n)" using that(1) by (simp add: of_nat_diff)
    then show ?thesis using step[OF le_less_trans[OF that]] by (simp only:)
  qed
  show "all_uacc F va (unat len) \<longleftrightarrow> uacc F va \<and> all_uacc F va' (unat len - n)"
  proof
    assume a: "all_uacc F va (unat len)"
    have "uacc F (va + of_nat 0)" using a len0 unfolding all_uacc_def by blast
    moreover have "uacc F (va' + of_nat k)" if "k < unat len - n" for k
    proof -
      have "k + n < unat len" using that by simp
      then have "uacc F (va + of_nat (k + n))" using a unfolding all_uacc_def by blast
      then show ?thesis unfolding later[OF le_add2 \<open>k + n < unat len\<close>] by (simp only: add_diff_cancel_right')
    qed
    ultimately show "uacc F va \<and> all_uacc F va' (unat len - n)" unfolding all_uacc_def by simp
  next
    assume a: "uacc F va \<and> all_uacc F va' (unat len - n)"
    have "uacc F (va + of_nat i)" if "i < unat len" for i
    proof (cases "i < n")
      case False
      then have "i - n < unat len - n" "n \<le> i" using that by simp_all
      then show ?thesis using a later[of i] that unfolding all_uacc_def by (simp only:)
    qed (use a same in simp)
    then show "all_uacc F va (unat len)" unfolding all_uacc_def by blast
  qed
qed

lemma uaddr_inj:
  assumes us: "uspace s pt ps F" and acc: "uacc F va" "uacc F vb" and eq: "uaddr F va = uaddr F vb"
  shows "va = vb"
proof -
  have "in_page (PTE2PA (F va)) (uaddr F va)" "in_page (PTE2PA (F vb)) (uaddr F va)"
    using uaddr_in_page[of F va] uaddr_in_page[of F vb] eq by simp_all
  then have p: "PTE2PA (F va) = PTE2PA (F vb)" by (intro in_page_unique) auto
  then have r: "PGROUNDDOWN va = PGROUNDDOWN vb" by (rule uspaceD(4)[OF us acc])
  from eq show ?thesis unfolding uaddr_def p r by simp
qed

text \<open>Memory \<open>m'\<close> is \<open>m\<close> with the \<open>n\<close> user bytes from \<open>va\<close> on replaced by those of \<open>src\<close>.\<close>

definition uwritten :: "(uint64 \<Rightarrow> uint64) \<Rightarrow> uint64 \<Rightarrow> cstr \<Rightarrow> nat \<Rightarrow> memory \<Rightarrow> memory \<Rightarrow> bool" where
  "uwritten F va src n m m' \<longleftrightarrow> (\<forall>i < n. m' (uaddr F (va + of_nat i)) = src i) \<and>
     (\<forall>b. (\<forall>i < n. b \<noteq> uaddr F (va + of_nat i)) \<longrightarrow> m' b = m b)"

lemma uwritten_chunk:
  assumes vs: "vmspace s pt ps F" and n: "unat (va - PGROUNDDOWN va) + n \<le> 4096"
  shows "uwritten F va src n m (write_bytes m (uaddr F va) src n)"
proof -
  have u: "uaddr F (va + of_nat i) - uaddr F va = of_nat i" "unat (of_nat i :: uint64) = i" if "i < n" for i
  proof -
    have "unat (va - PGROUNDDOWN va) + i < 4096" using n that by linarith
    then show "uaddr F (va + of_nat i) - uaddr F va = of_nat i" using uaddr_chunk[OF vs] by simp
    show "unat (of_nat i :: uint64) = i" using n that by (simp add: unat_of_nat take_bit_eq_mod)
  qed
  have out: "\<not> unat (b - uaddr F va) < n" if "\<forall>i < n. b \<noteq> uaddr F (va + of_nat i)" for b
  proof
    assume lt: "unat (b - uaddr F va) < n"
    have "of_nat (unat (b - uaddr F va)) = b - uaddr F va" by simp
    then have "b = uaddr F (va + of_nat (unat (b - uaddr F va)))" using u(1)[OF lt] by simp
    then show False using that lt by blast
  qed
  show ?thesis unfolding uwritten_def
  proof (intro conjI allI impI)
    fix i assume i: "i < n"
    show "write_bytes m (uaddr F va) src n (uaddr F (va + of_nat i)) = src i"
      using i u[OF i] by (simp only: write_bytes_def) simp
  next
    fix b assume "\<forall>i < n. b \<noteq> uaddr F (va + of_nat i)"
    then show "write_bytes m (uaddr F va) src n b = m b" using out by (simp add: write_bytes_def)
  qed
qed

lemma uwritten_append:
  assumes us: "uspace s pt ps F" and acc: "all_uacc F va (n + k)"
    and w1: "uwritten F va src n m m'" and w2: "uwritten F (va + of_nat n) (\<lambda>i. src (n + i)) k m' m''"
  shows "uwritten F va src (n + k) m m''"
proof (cases "n + k = 0")
  case True
  then show ?thesis using w1 w2 by (simp add: uwritten_def)
next
  case False
  have bd: "unat va + (n + k) \<le> 2 ^ 38" using all_uacc_bound[OF acc] False by simp
  have u: "unat (va + of_nat i) = unat va + i" if "i < n + k" for i
  proof -
    have "unat (of_nat i :: uint64) = i" using bd that by (simp add: unat_of_nat take_bit_eq_mod)
    then show ?thesis using unat_add_nowrap[of va "of_nat i"] bd that by simp
  qed
  have inj: "i = j" if "i < n + k" "j < n + k" "uaddr F (va + of_nat i) = uaddr F (va + of_nat j)" for i j
  proof -
    have "va + of_nat i = va + of_nat j"
      using uaddr_inj[OF us _ _ that(3)] acc that(1,2) unfolding all_uacc_def by blast
    then have "unat (va + of_nat i) = unat (va + of_nat j)" by simp
    then show ?thesis using u[OF that(1)] u[OF that(2)] by simp
  qed
  have sh: "va + of_nat n + of_nat j = va + of_nat (n + j)" for j by simp
  show ?thesis unfolding uwritten_def
  proof (intro conjI allI impI)
    fix i assume i: "i < n + k"
    show "m'' (uaddr F (va + of_nat i)) = src i"
    proof (cases "i < n")
      case True
      have "uaddr F (va + of_nat i) \<noteq> uaddr F (va + of_nat n + of_nat j)" if "j < k" for j
        using inj[of i "n + j"] True that i unfolding sh by auto
      then have "m'' (uaddr F (va + of_nat i)) = m' (uaddr F (va + of_nat i))"
        using w2 unfolding uwritten_def by blast
      then show ?thesis using w1 True unfolding uwritten_def by auto
    next
      case False
      then obtain j where j: "i = n + j" "j < k" using i by (metis add_diff_inverse_nat nat_add_left_cancel_less)
      then show ?thesis using w2 unfolding uwritten_def sh j by blast
    qed
  next
    fix b assume b: "\<forall>i < n + k. b \<noteq> uaddr F (va + of_nat i)"
    then have "m'' b = m' b" using w2 unfolding uwritten_def sh by (metis nat_add_left_cancel_less)
    moreover have "m' b = m b" using w1 b unfolding uwritten_def by (metis trans_less_add1)
    ultimately show "m'' b = m b" by simp
  qed
qed

lemma copyout_step:
  assumes us: "uspace s pt ps F" and len: "len \<noteq> 0"
  shows "copyout pt va src len s =
     (if uacc F va then copyout pt (PGROUNDDOWN va + PGSIZE) (\<lambda>i. src (unat (chunk va len) + i)) (len - chunk va len)
        (s\<lparr>mem := write_bytes (mem s) (uaddr F va) src (unat (chunk va len))\<rparr>)
      else Ret (-1) s)"
  using len walkaddr_page[OF us, of va]
  by (subst copyout.simps) (simp add: Let_def bind_def write_op_def modify_def ret_def uaddr_def)

lemma copyout_spec:
  assumes "uspace s pt ps F"
  shows "\<exists>r m. copyout pt va src len s = Ret r (s\<lparr>mem := m\<rparr>) \<and>
     (\<forall>b. (\<forall>p \<in> user_frames F. \<not> in_page p b) \<longrightarrow> m b = mem s b) \<and>
     r = (if all_uacc F va (unat len) then 0 else -1) \<and>
     (all_uacc F va (unat len) \<longrightarrow> uwritten F va src (unat len) (mem s) m)"
  using assms
proof (induction "unat len" arbitrary: va src len s rule: less_induct)
  case less
  note us = less.prems
  note vs = uspaceD(1)[OF us]
  show ?case
  proof (cases "len = 0")
    case True
    then have "copyout pt va src len s = Ret 0 (s\<lparr>mem := mem s\<rparr>)" by (subst copyout.simps) (simp add: ret_def)
    then show ?thesis using True by (intro exI[of _ 0] exI[of _ "mem s"]) (simp add: all_uacc_def uwritten_def)
  next
    case False
    define n where "n = unat (chunk va len)"
    define va' where "va' = PGROUNDDOWN va + PGSIZE"
    note sp = range_split[OF vs False, of va, folded n_def va'_def]
    show ?thesis
    proof (cases "uacc F va")
      case nacc: False
      then have "copyout pt va src len s = Ret (-1) (s\<lparr>mem := mem s\<rparr>)" using copyout_step[OF us False] by simp
      then show ?thesis using nacc sp(6) by (intro exI[of _ "-1"] exI[of _ "mem s"]) simp
    next
      case True
      let ?m = "write_bytes (mem s) (uaddr F va) src n"
      have m: "?m b = mem s b" if "\<forall>p \<in> user_frames F. \<not> in_page p b" for b
        using chunk_in_page[OF sp(3), of b F] that True by (auto simp: write_bytes_def user_frames_def)
      have us': "uspace (s\<lparr>mem := ?m\<rparr>) pt ps F" by (rule uspace_write[OF us m])
      have run: "copyout pt va src len s = copyout pt va' (\<lambda>i. src (n + i)) (len - chunk va len) (s\<lparr>mem := ?m\<rparr>)"
        using copyout_step[OF us False, of va src] True by (simp add: n_def va'_def)
      have "unat (len - chunk va len) < unat len" using sp(1,2,5) by simp
      from less.hyps[OF this us', of va' "\<lambda>i. src (n + i)"] obtain r m'' where
        IH: "copyout pt va src len s = Ret r (s\<lparr>mem := m''\<rparr>)"
          "\<forall>b. (\<forall>p \<in> user_frames F. \<not> in_page p b) \<longrightarrow> m'' b = ?m b"
          "r = (if all_uacc F va' (unat len - n) then 0 else -1)"
          "all_uacc F va' (unat len - n) \<longrightarrow> uwritten F va' (\<lambda>i. src (n + i)) (unat len - n) ?m m''"
        unfolding run sp(5) by auto
      have "uwritten F va src (unat len) (mem s) m''" if acc: "all_uacc F va (unat len)"
      proof -
        have w2: "uwritten F va' (\<lambda>i. src (n + i)) (unat len - n) ?m m''" using IH(4) acc sp(6) by blast
        have "uwritten F (va + of_nat n) (\<lambda>i. src (n + i)) (unat len - n) ?m m''"
        proof (cases "n < unat len")
          case True
          then show ?thesis using w2 sp(4) by simp
        next
          case False
          then show ?thesis using w2 by (simp add: uwritten_def)
        qed
        from uwritten_append[OF us _ uwritten_chunk[OF vs sp(3)] this] show ?thesis using acc sp(1) by simp
      qed
      then show ?thesis using IH m sp(6) True by auto
    qed
  qed
qed

text \<open>
  C7. \<open>copyout\<close> never writes outside user memory. For every user pointer and length,
  valid or not, it returns; it returns 0 exactly when every byte of the range is
  accessible to the user and -1 otherwise; it changes no memory but user pages, and
  when it returns 0 exactly the bytes of the range have changed, to those of the
  source.
\<close>

theorem copyout_correct:
  assumes "uspace s pt ps F"
  shows "\<exists>r m. copyout pt va src len s = Ret r (s\<lparr>mem := m\<rparr>) \<and>
     (\<forall>b. (\<forall>p \<in> user_frames F. \<not> in_page p b) \<longrightarrow> m b = mem s b) \<and>
     r = (if \<forall>i < unat len. uacc F (va + of_nat i) then 0 else -1) \<and>
     (r = 0 \<longrightarrow> (\<forall>i < unat len. m (uaddr F (va + of_nat i)) = src i) \<and>
        (\<forall>b. (\<forall>i < unat len. b \<noteq> uaddr F (va + of_nat i)) \<longrightarrow> m b = mem s b))"
  using copyout_spec[OF assms, of va src len] unfolding all_uacc_def uwritten_def by auto

section \<open>copyin\<close>

lemma copyin_step:
  assumes us: "uspace s pt ps F" and len: "len \<noteq> 0"
  shows "copyin_at pt dst d va len s =
     (if uacc F va then copyin_at pt
        (\<lambda>i. if d \<le> i \<and> i < d + unat (chunk va len) then mem s (uaddr F va + of_nat (i - d)) else dst i)
        (d + unat (chunk va len)) (PGROUNDDOWN va + PGSIZE) (len - chunk va len) s
      else Ret (-1, dst) s)"
  using len walkaddr_page[OF us, of va]
  unfolding uaddr_def by (subst copyin_at.simps) (simp add: Let_def bind_def reads_def ret_def)

lemma copyin_spec:
  assumes us: "uspace s pt ps F"
  shows "all_uacc F va (unat len) \<Longrightarrow> copyin_at pt dst d va len s =
      Ret (0, \<lambda>i. if d \<le> i \<and> i < d + unat len then mem s (uaddr F (va + of_nat (i - d))) else dst i) s"
    and "\<not> all_uacc F va (unat len) \<Longrightarrow> \<exists>dst'. copyin_at pt dst d va len s = Ret (-1, dst') s"
proof (induction "unat len" arbitrary: va dst d len rule: less_induct)
  case less
  note vs = uspaceD(1)[OF us]
  {
    case 1
    show ?case
    proof (cases "len = 0")
      case True
      then show ?thesis by (subst copyin_at.simps) (auto simp: ret_def fun_eq_iff)
    next
      case False
      define n where "n = unat (chunk va len)"
      define va' where "va' = PGROUNDDOWN va + PGSIZE"
      note sp = range_split[OF vs False, of va, folded n_def va'_def]
      have acc: "uacc F va" "all_uacc F va' (unat (len - chunk va len))" using 1 sp(5,6) by simp_all
      have lt: "unat (len - chunk va len) < unat len" using sp(1,2,5) by simp
      let ?d = "\<lambda>i. if d \<le> i \<and> i < d + n then mem s (uaddr F va + of_nat (i - d)) else dst i"
      have "copyin_at pt dst d va len s = copyin_at pt ?d (d + n) va' (len - chunk va len) s"
        using copyin_step[OF us False, of dst d va] acc(1) by (simp add: n_def va'_def)
      also have "\<dots> = Ret (0, \<lambda>i. if d + n \<le> i \<and> i < d + n + (unat len - n)
          then mem s (uaddr F (va' + of_nat (i - (d + n)))) else ?d i) s"
        using less.hyps(1)[OF lt acc(2), of ?d "d + n"] by (simp add: sp(5))
      also have "(\<lambda>i. if d + n \<le> i \<and> i < d + n + (unat len - n)
          then mem s (uaddr F (va' + of_nat (i - (d + n)))) else ?d i) =
        (\<lambda>i. if d \<le> i \<and> i < d + unat len then mem s (uaddr F (va + of_nat (i - d))) else dst i)"
      proof
        fix i
        have "uaddr F (va + of_nat (i - d)) = uaddr F va + of_nat (i - d)" if "d \<le> i" "i < d + n"
          using that sp(3) by (intro uaddr_chunk[OF vs]) linarith
        moreover have "va + of_nat (i - d) = va' + of_nat (i - (d + n))" if "d + n \<le> i" "i < d + unat len"
        proof -
          have "i - d = n + (i - (d + n))" using that(1) by simp
          then have "va + of_nat (i - d) = (va + of_nat n) + of_nat (i - (d + n))"
            by (simp only: of_nat_add add.assoc)
          moreover have "n < unat len" using that by linarith
          ultimately show ?thesis using sp(4) by (simp only:)
        qed
        ultimately show "(if d + n \<le> i \<and> i < d + n + (unat len - n)
          then mem s (uaddr F (va' + of_nat (i - (d + n)))) else ?d i) =
          (if d \<le> i \<and> i < d + unat len then mem s (uaddr F (va + of_nat (i - d))) else dst i)"
          using sp(1) by (cases "i < d"; cases "i < d + n"; cases "i < d + unat len") (simp_all del: of_nat_diff)
      qed
      finally show ?thesis .
    qed
  next
    case 2
    then have False: "len \<noteq> 0" by (auto simp: all_uacc_def)
    note sp = range_split[OF vs False, of va]
    have lt: "unat (len - chunk va len) < unat len" using sp(1,2,5) by simp
    show ?case
    proof (cases "uacc F va")
      case True
      then have "\<not> all_uacc F (PGROUNDDOWN va + PGSIZE) (unat (len - chunk va len))" using 2 sp(5,6) by simp
      then show ?thesis using less.hyps(2)[OF lt] copyin_step[OF us False, of dst d va] True by simp
    next
      case nacc: False
      then show ?thesis using copyin_step[OF us False, of dst d va] by simp
    qed
  }
qed

text \<open>
  C8. \<open>copyin\<close> reads exactly the user's bytes. It succeeds exactly when every byte of
  the range is accessible to the user; then the first \<open>len\<close> bytes of the destination
  are those of the range and the others are kept. It changes no state. A \<open>copyin\<close> of
  a range that a \<open>copyout\<close> has just written gives back what was written.
\<close>

theorem copyin_correct:
  assumes us: "uspace s pt ps F"
  shows "(\<exists>r dst'. copyin pt dst va len s = Ret (r, dst') s \<and>
      r = (if \<forall>i < unat len. uacc F (va + of_nat i) then 0 else -1) \<and>
      (r = 0 \<longrightarrow> (\<forall>i. dst' i = (if i < unat len then mem s (uaddr F (va + of_nat i)) else dst i))))
    \<and> (\<forall>t src. copyout pt va src len s = Ret 0 t \<longrightarrow>
        (\<exists>dst'. copyin pt dst va len t = Ret (0, dst') t \<and> (\<forall>i < unat len. dst' i = src i)))"
proof (intro conjI allI impI)
  show "\<exists>r dst'. copyin pt dst va len s = Ret (r, dst') s \<and>
      r = (if \<forall>i < unat len. uacc F (va + of_nat i) then 0 else -1) \<and>
      (r = 0 \<longrightarrow> (\<forall>i. dst' i = (if i < unat len then mem s (uaddr F (va + of_nat i)) else dst i)))"
    using copyin_spec[OF us, of va len dst 0] unfolding copyin_def all_uacc_def[symmetric]
    by (cases "all_uacc F va (unat len)") auto
  fix t src assume co: "copyout pt va src len s = Ret 0 t"
  obtain m where m: "t = s\<lparr>mem := m\<rparr>" "\<forall>b. (\<forall>p \<in> user_frames F. \<not> in_page p b) \<longrightarrow> m b = mem s b"
      "all_uacc F va (unat len)" "uwritten F va src (unat len) (mem s) m"
    using copyout_spec[OF us, of va src len] co by (auto split: if_splits)
  have "uspace t pt ps F" unfolding m(1) using m(2) by (intro uspace_write[OF us]) blast
  from copyin_spec(1)[OF this m(3), of dst 0] m(4)
  show "\<exists>dst'. copyin pt dst va len t = Ret (0, dst') t \<and> (\<forall>i < unat len. dst' i = src i)"
    by (simp add: copyin_def uwritten_def m(1))
qed

section \<open>A concrete user page\<close>

lemma vm0_uspace:
  "\<exists>t qs F. bind kalloc (\<lambda>p. bind (memset_op p 0 4096) (\<lambda>_. mappages (vm_page 0) 0 PGSIZE p rwxu)) vm0 = Ret 0 t \<and>
     uspace t (vm_page 0) qs F \<and> (\<forall>va. unat va < 4096 \<longrightarrow> uacc F va)"
proof -
  let ?F = "leaf_upd (\<lambda>_. 0) (upage 0) (map_pte (vm_page 4) rwxu)"
  obtain t qs where t: "bind kalloc (\<lambda>p. bind (memset_op p 0 4096) (\<lambda>_. mappages (vm_page 0) 0 PGSIZE p rwxu)) vm0 = Ret 0 t"
      "owns t (vm_page 0) qs ?F {0}" using vm0_mapped by blast
  have p: "page_aligned (vm_page 4)" using vm_page_kernel[of 4] by (simp add: kernel_page_def)
  note mp = map_pte_facts[OF p rwxu_flags(1)]
  have U: "map_pte (vm_page 4) rwxu AND PTE_U \<noteq> 0"
    using PTE_flag_test[of PTE_U "vm_page 4" "rwxu OR PTE_V"]
    by (simp add: map_pte_def PTE_FLAGS_def rwxu_def page_consts)
  have F: "?F va = (if unat va div 4096 = 0 then map_pte (vm_page 4) rwxu else 0)" for va
    using same_upage[of 0 va] by (simp add: leaf_upd_def)
  have acc: "uacc ?F va \<longleftrightarrow> unat va div 4096 = 0" for va
  proof -
    have "unat va < 4096 \<Longrightarrow> va < MAXVA" by (simp add: word_less_nat_alt unat_MAXVA)
    then show ?thesis using mp(3) U F[of va] by (auto simp: uacc_def)
  qed
  have fr: "kernel_page t (vm_page 4)" "vm_page 4 \<notin> set qs \<union> pt_pages (mem t) 2 (vm_page 0)"
    using t(2) mp(1) leaf_upd_upage[of 0 0] by (auto simp: owns_def pframe_def)
  have "uspace t (vm_page 0) qs ?F"
    unfolding uspace_def
  proof (intro conjI allI impI)
    fix va vb assume "uacc ?F va" "uacc ?F vb"
    then show "PGROUNDDOWN va = PGROUNDDOWN vb" unfolding acc by (simp add: word_unat_eq_iff unat_PGROUNDDOWN)
  qed (use owns_vmspace[OF t(2)] fr acc F mp(1) in simp_all)
  moreover have "\<forall>va. unat va < 4096 \<longrightarrow> uacc ?F va" using acc by simp
  ultimately show ?thesis using t(1) by blast
qed

theorem copyout_correct_witness:
  "\<exists>t m. bind kalloc (\<lambda>p. bind (memset_op p 0 4096) (\<lambda>_. mappages (vm_page 0) 0 PGSIZE p rwxu)) vm0 = Ret 0 t \<and>
     copyout (vm_page 0) 16 (\<lambda>i. of_nat i) 5 t = Ret 0 (t\<lparr>mem := m\<rparr>)"
proof -
  obtain t qs F where t: "bind kalloc (\<lambda>p. bind (memset_op p 0 4096) (\<lambda>_. mappages (vm_page 0) 0 PGSIZE p rwxu)) vm0 = Ret 0 t"
      "uspace t (vm_page 0) qs F" "\<forall>va. unat va < 4096 \<longrightarrow> uacc F va" using vm0_uspace by blast
  have "uacc F (16 + of_nat i)" if "i < 5" for i
    using t(3) that by (auto simp: unat_word_ariths unat_of_nat take_bit_eq_mod)
  then show ?thesis using copyout_correct[OF t(2), of 16 "\<lambda>i. of_nat i" 5] t(1) by auto
qed

theorem copyin_correct_witness:
  "\<exists>t dst'. bind kalloc (\<lambda>p. bind (memset_op p 0 4096) (\<lambda>_. mappages (vm_page 0) 0 PGSIZE p rwxu)) vm0 = Ret 0 t \<and>
     copyin (vm_page 0) (\<lambda>_. 7) 16 5 t = Ret (0, dst') t \<and> dst' 9 = 7"
proof -
  obtain t qs F where t: "bind kalloc (\<lambda>p. bind (memset_op p 0 4096) (\<lambda>_. mappages (vm_page 0) 0 PGSIZE p rwxu)) vm0 = Ret 0 t"
      "uspace t (vm_page 0) qs F" "\<forall>va. unat va < 4096 \<longrightarrow> uacc F va" using vm0_uspace by blast
  have "uacc F (16 + of_nat i)" if "i < 5" for i
    using t(3) that by (auto simp: unat_word_ariths unat_of_nat take_bit_eq_mod)
  then show ?thesis using copyin_correct[OF t(2), of "\<lambda>_. 7" 16 5] t(1) by auto
qed

end
