(* ===== verification/Proc.thy ===== *)
theory Proc
  imports Vm
begin

unbundle bit_operations_syntax

text \<open>
  \<open>kernel/proc.h\<close> and the part of \<open>kernel/proc.c\<close> that needs no file system: the process
  table, allocation and release of processes, the scheduler, \<open>sleep\<close> and \<open>wakeup\<close>.
  A \<open>struct proc *\<close> is an index into the table. A thread that calls \<open>swtch\<close> goes on
  from the state in which another thread switches back to it.
\<close>

section \<open>State\<close>

definition NPROC :: nat where "NPROC = 64"
definition NOFILE :: nat where "NOFILE = 16"

datatype procstate = UNUSED | SLEEPING | RUNNABLE | RUNNING | ZOMBIE

record proc =
  pstate :: procstate
  parent :: "nat option"
  pchan :: "chan option"
  killed :: bool
  xstate :: "32 word"
  pid :: int
  kstack :: addr
  psz :: uint64
  pagetable :: addr
  trapframe :: addr
  pcontext :: kcontext
  ofile :: "nat \<Rightarrow> nat option"
  cwd :: "nat option"
  pname :: cstr

text \<open>
  The table, \<open>nextpid\<close>, \<open>initproc\<close>, \<open>ticks\<close> of \<open>kernel/trap.c\<close>, and the addresses of the
  assembly entry points that the C code takes. A loop that sleeps until a condition holds
  may sleep any number of times; \<open>patience\<close> bounds how often the model of such a loop goes
  round before it gives up with \<open>Spin\<close>.
\<close>

record procs = kvm +
  ptable :: "nat \<Rightarrow> proc"
  nextpid :: int
  initproc :: "nat option"
  ticks :: uint
  patience :: nat
  forkret_addr :: addr
  usertrap_addr :: addr
  uservec_addr :: addr
  userret_addr :: addr
  kernelvec_addr :: addr

text \<open>\<open>struct trapframe\<close> lies in a page of physical memory; these are its offsets.\<close>

definition TF_kernel_satp :: uint64 where "TF_kernel_satp = 0"
definition TF_kernel_sp :: uint64 where "TF_kernel_sp = 8"
definition TF_kernel_trap :: uint64 where "TF_kernel_trap = 16"
definition TF_epc :: uint64 where "TF_epc = 24"
definition TF_kernel_hartid :: uint64 where "TF_kernel_hartid = 32"
definition TF_sp :: uint64 where "TF_sp = 48"
definition TF_a0 :: uint64 where "TF_a0 = 112"
definition TF_a1 :: uint64 where "TF_a1 = 120"
definition TF_a7 :: uint64 where "TF_a7 = 168"

definition update_proc :: "nat \<Rightarrow> (proc \<Rightarrow> proc) \<Rightarrow> ('z procs_scheme, unit) op" where
  "update_proc i f = modify (\<lambda>s. s\<lparr>ptable := (ptable s)(i := f (ptable s i))\<rparr>)"

definition proc_of :: "nat \<Rightarrow> (proc \<Rightarrow> 'a) \<Rightarrow> ('z procs_scheme, 'a) op" where
  "proc_of i f = reads (\<lambda>s. f (ptable s i))"

text \<open>
  The current process where the code follows the pointer that \<open>myproc\<close> returns; a null
  pointer faults in the kernel and ends in the panic of \<open>kerneltrap\<close>.
\<close>

definition deref :: "'a option \<Rightarrow> ('s, 'a) op" where
  "deref p = (case p of Some i \<Rightarrow> ret i | None \<Rightarrow> panic ''kerneltrap'')"

definition curp :: "('z machine_scheme, nat) op" where
  "curp = bind myproc deref"

definition tf_load :: "nat \<Rightarrow> uint64 \<Rightarrow> ('z procs_scheme, uint64) op" where
  "tf_load i off = bind (proc_of i trapframe) (\<lambda>tf. load_op (tf + off))"

definition tf_store :: "nat \<Rightarrow> uint64 \<Rightarrow> uint64 \<Rightarrow> ('z procs_scheme, unit) op" where
  "tf_store i off v = bind (proc_of i trapframe) (\<lambda>tf. store_op (tf + off) v)"

section \<open>Process table\<close>

definition procinit :: "('z procs_scheme, unit) op" where
  "procinit =
     bind (initlock L_pid) (\<lambda>_.
     bind (for_each [0..<NPROC] (\<lambda>p.
       bind (initlock (L_proc p)) (\<lambda>_.
       bind kalloc (\<lambda>pa.
       if pa = 0 then panic ''kalloc'' else
       bind (kvmmap (KSTACK p) pa PGSIZE (PTE_R OR PTE_W)) (\<lambda>_.
       update_proc p (\<lambda>q. q\<lparr>kstack := KSTACK p\<rparr>)))))) (\<lambda>_.
     kvminithart))"

definition allocpid :: "('z procs_scheme, int) op" where
  "allocpid =
     bind (acquire L_pid) (\<lambda>_.
     bind (reads nextpid) (\<lambda>pid.
     bind (modify (\<lambda>s. s\<lparr>nextpid := nextpid s + 1\<rparr>)) (\<lambda>_.
     bind (release L_pid) (\<lambda>_.
     ret pid))))"

definition proc_pagetable :: "nat \<Rightarrow> ('z procs_scheme, addr) op" where
  "proc_pagetable p =
     bind uvmcreate (\<lambda>pt.
     if pt = 0 then ret 0 else
     bind (reads trampoline) (\<lambda>tr.
     bind (mappages pt TRAMPOLINE PGSIZE tr (PTE_R OR PTE_X)) (\<lambda>r.
     if r < 0 then bind (uvmfree pt 0) (\<lambda>_. ret 0) else
     bind (proc_of p trapframe) (\<lambda>tf.
     bind (mappages pt TRAPFRAME PGSIZE tf (PTE_R OR PTE_W)) (\<lambda>r.
     if r < 0 then
       bind (uvmunmap pt TRAMPOLINE 1 False) (\<lambda>_.
       bind (uvmfree pt 0) (\<lambda>_. ret 0))
     else ret pt)))))"

definition proc_freepagetable :: "addr \<Rightarrow> uint64 \<Rightarrow> ('z kmem_scheme, unit) op" where
  "proc_freepagetable pt sz =
     bind (uvmunmap pt TRAMPOLINE 1 False) (\<lambda>_.
     bind (uvmunmap pt TRAPFRAME 1 False) (\<lambda>_.
     uvmfree pt sz))"

definition freeproc :: "nat \<Rightarrow> ('z procs_scheme, unit) op" where
  "freeproc p =
     bind (proc_of p trapframe) (\<lambda>tf.
     bind (if tf \<noteq> 0 then kfree tf else ret ()) (\<lambda>_.
     bind (update_proc p (\<lambda>q. q\<lparr>trapframe := 0\<rparr>)) (\<lambda>_.
     bind (proc_of p pagetable) (\<lambda>pt.
     bind (proc_of p psz) (\<lambda>sz.
     bind (if pt \<noteq> 0 then proc_freepagetable pt sz else ret ()) (\<lambda>_.
     update_proc p (\<lambda>q. q\<lparr>pagetable := 0, psz := 0, pid := 0, parent := None,
       pname := (pname q)(0 := 0), pchan := None, killed := False, xstate := 0,
       pstate := UNUSED\<rparr>)))))))"

definition zero_context :: kcontext where
  "zero_context = \<lparr>ctx_ra = 0, ctx_sp = 0, ctx_s0 = 0, ctx_s1 = 0, ctx_s2 = 0, ctx_s3 = 0, ctx_s4 = 0,
     ctx_s5 = 0, ctx_s6 = 0, ctx_s7 = 0, ctx_s8 = 0, ctx_s9 = 0, ctx_s10 = 0, ctx_s11 = 0\<rparr>"

text \<open>The search of \<open>allocproc\<close>; it stops with the lock of the unused process held.\<close>

definition find_unused :: "nat \<Rightarrow> ('z procs_scheme, nat option) op" where
  "find_unused p =
     bind (acquire (L_proc p)) (\<lambda>_.
     bind (proc_of p pstate) (\<lambda>st.
     if st = UNUSED then ret (Some p)
     else bind (release (L_proc p)) (\<lambda>_. ret None)))"

definition allocproc :: "('z procs_scheme, nat option) op" where
  "allocproc =
     bind (for_first [0..<NPROC] find_unused) (\<lambda>found.
     case found of
       None \<Rightarrow> ret None
     | Some p \<Rightarrow>
         bind allocpid (\<lambda>pid.
         bind (update_proc p (\<lambda>q. q\<lparr>pid := pid\<rparr>)) (\<lambda>_.
         bind kalloc (\<lambda>tf.
         bind (update_proc p (\<lambda>q. q\<lparr>trapframe := tf\<rparr>)) (\<lambda>_.
         if tf = 0 then bind (release (L_proc p)) (\<lambda>_. ret None) else
         bind (proc_pagetable p) (\<lambda>pt.
         bind (update_proc p (\<lambda>q. q\<lparr>pagetable := pt\<rparr>)) (\<lambda>_.
         if pt = 0 then
           bind (freeproc p) (\<lambda>_.
           bind (release (L_proc p)) (\<lambda>_. ret None))
         else
         bind (reads forkret_addr) (\<lambda>fr.
         bind (update_proc p (\<lambda>q. q\<lparr>pcontext := zero_context\<lparr>ctx_ra := fr, ctx_sp := kstack q + PGSIZE\<rparr>\<rparr>)) (\<lambda>_.
         ret (Some p))))))))))"

text \<open>
  \<open>growproc\<close> computes with an unsigned 32-bit copy of the size.
\<close>

definition growproc :: "32 word \<Rightarrow> ('z procs_scheme, int) op" where
  "growproc n =
     bind curp (\<lambda>p.
     bind (proc_of p (\<lambda>q. ucast (psz q) :: uint)) (\<lambda>sz.
     bind (proc_of p pagetable) (\<lambda>pt.
     if 0 <s n then
       bind (uvmalloc pt (ucast sz) (ucast (sz + n))) (\<lambda>r.
       let sz' = (ucast r :: uint) in
       if sz' = 0 then ret (-1)
       else bind (update_proc p (\<lambda>q. q\<lparr>psz := ucast sz'\<rparr>)) (\<lambda>_. ret 0))
     else if n <s 0 then
       bind (uvmdealloc pt (ucast sz) (ucast (sz + n))) (\<lambda>r.
       bind (update_proc p (\<lambda>q. q\<lparr>psz := ucast (ucast r :: uint)\<rparr>)) (\<lambda>_. ret 0))
     else bind (update_proc p (\<lambda>q. q\<lparr>psz := ucast sz\<rparr>)) (\<lambda>_. ret 0))))"

definition reparent :: "nat \<Rightarrow> ('z procs_scheme, unit) op" where
  "reparent p = for_each [0..<NPROC] (\<lambda>pp.
     bind (proc_of pp parent) (\<lambda>par.
     if par = Some p then
       bind (acquire (L_proc pp)) (\<lambda>_.
       bind (reads initproc) (\<lambda>ini.
       bind (update_proc pp (\<lambda>q. q\<lparr>parent := ini\<rparr>)) (\<lambda>_.
       release (L_proc pp))))
     else ret ()))"

fun getProcState :: "procstate \<Rightarrow> string" where
  "getProcState UNUSED = ''unused''"
| "getProcState SLEEPING = ''sleep''"
| "getProcState RUNNABLE = ''runnable''"
| "getProcState RUNNING = ''run''"
| "getProcState ZOMBIE = ''zombie''"

section \<open>Scheduling\<close>

definition sched :: "('z procs_scheme, unit) op" where
  "sched =
     bind curp (\<lambda>p.
     bind (holding (L_proc p)) (\<lambda>h.
     if \<not> h then panic ''sched p->lock'' else
     bind mycpu (\<lambda>c.
     if noff c \<noteq> 1 then panic ''sched locks'' else
     bind (proc_of p pstate) (\<lambda>st.
     if st = RUNNING then panic ''sched running'' else
     bind intr_get (\<lambda>i.
     if i then panic ''sched interruptible'' else
     bind mycpu (\<lambda>c.
     bind swtch (\<lambda>_.
     update_mycpu (\<lambda>c'. c'\<lparr>intena := intena c\<rparr>))))))))"

text \<open>One process of the scheduler's scan; the result is the update of \<open>found\<close>.\<close>

definition scheduler_visit :: "nat \<Rightarrow> ('z procs_scheme, bool) op" where
  "scheduler_visit p =
     bind (acquire (L_proc p)) (\<lambda>_.
     bind (proc_of p pstate) (\<lambda>st.
     bind (if st = RUNNABLE then
             bind (update_proc p (\<lambda>q. q\<lparr>pstate := RUNNING\<rparr>)) (\<lambda>_.
             bind (update_mycpu (\<lambda>c. c\<lparr>cpu_proc := Some p\<rparr>)) (\<lambda>_.
             bind swtch (\<lambda>_.
             bind (update_mycpu (\<lambda>c. c\<lparr>cpu_proc := None\<rparr>)) (\<lambda>_.
             ret True))))
           else ret False) (\<lambda>found.
     bind (release (L_proc p)) (\<lambda>_. ret found))))"

fun scheduler_scan :: "nat list \<Rightarrow> bool \<Rightarrow> ('z procs_scheme, bool) op" where
  "scheduler_scan [] found = ret found"
| "scheduler_scan (p # ps) found =
     bind (scheduler_visit p) (\<lambda>f. scheduler_scan ps (found \<or> f))"

text \<open>
  The endless loop of \<open>scheduler\<close>, cut off after a number of rounds; \<open>wfi\<close> waits for an
  interrupt and changes no state here.
\<close>

fun scheduler_rounds :: "nat \<Rightarrow> ('z procs_scheme, unit) op" where
  "scheduler_rounds 0 = spin"
| "scheduler_rounds (Suc n) =
     bind intr_on (\<lambda>_.
     bind (scheduler_scan [0..<NPROC] False) (\<lambda>found.
     bind (if \<not> found then intr_on else ret ()) (\<lambda>_.
     scheduler_rounds n)))"

definition scheduler :: "nat \<Rightarrow> ('z procs_scheme, unit) op" where
  "scheduler rounds =
     bind (update_mycpu (\<lambda>c. c\<lparr>cpu_proc := None\<rparr>)) (\<lambda>_. scheduler_rounds rounds)"

definition yield :: "('z procs_scheme, unit) op" where
  "yield =
     bind curp (\<lambda>p.
     bind (acquire (L_proc p)) (\<lambda>_.
     bind (update_proc p (\<lambda>q. q\<lparr>pstate := RUNNABLE\<rparr>)) (\<lambda>_.
     bind sched (\<lambda>_.
     release (L_proc p)))))"

definition sleep :: "chan \<Rightarrow> lockid \<Rightarrow> ('z procs_scheme, unit) op" where
  "sleep ch lk =
     bind curp (\<lambda>p.
     bind (if lk \<noteq> L_proc p then bind (acquire (L_proc p)) (\<lambda>_. release lk) else ret ()) (\<lambda>_.
     bind (update_proc p (\<lambda>q. q\<lparr>pchan := Some ch, pstate := SLEEPING\<rparr>)) (\<lambda>_.
     bind sched (\<lambda>_.
     bind (update_proc p (\<lambda>q. q\<lparr>pchan := None\<rparr>)) (\<lambda>_.
     if lk \<noteq> L_proc p then bind (release (L_proc p)) (\<lambda>_. acquire lk) else ret ())))))"

text \<open>
  The loop \<open>while (c) sleep(chan, lk)\<close>, and loops whose body may also return: \<open>body\<close> gives
  Some result to leave the loop and None to go round again after sleeping.
\<close>

fun sleep_loop :: "nat \<Rightarrow> ('z procs_scheme, 'a option) op \<Rightarrow> ('z procs_scheme, unit) op \<Rightarrow> ('z procs_scheme, 'a) op" where
  "sleep_loop 0 body slp = spin"
| "sleep_loop (Suc n) body slp =
     bind body (\<lambda>r. case r of Some a \<Rightarrow> ret a | None \<Rightarrow> bind slp (\<lambda>_. sleep_loop n body slp))"

definition sleep_until :: "('z procs_scheme, 'a option) op \<Rightarrow> chan \<Rightarrow> lockid \<Rightarrow> ('z procs_scheme, 'a) op" where
  "sleep_until body ch lk = bind (reads patience) (\<lambda>n. sleep_loop (Suc n) body (sleep ch lk))"

definition sleep_while :: "('z procs_scheme \<Rightarrow> bool) \<Rightarrow> chan \<Rightarrow> lockid \<Rightarrow> ('z procs_scheme, unit) op" where
  "sleep_while c ch lk = sleep_until (reads (\<lambda>s. if c s then None else Some ())) ch lk"

definition wakeup :: "chan \<Rightarrow> ('z procs_scheme, unit) op" where
  "wakeup ch = for_each [0..<NPROC] (\<lambda>p.
     bind (acquire (L_proc p)) (\<lambda>_.
     bind (proc_of p (\<lambda>q. pstate q = SLEEPING \<and> pchan q = Some ch)) (\<lambda>hit.
     bind (if hit then update_proc p (\<lambda>q. q\<lparr>pstate := RUNNABLE\<rparr>) else ret ()) (\<lambda>_.
     release (L_proc p)))))"

definition wakeup1 :: "nat \<Rightarrow> ('z procs_scheme, unit) op" where
  "wakeup1 p =
     bind (holding (L_proc p)) (\<lambda>h.
     if \<not> h then panic ''wakeup1'' else
     bind (proc_of p (\<lambda>q. pchan q = Some (C_proc p) \<and> pstate q = SLEEPING)) (\<lambda>hit.
     if hit then update_proc p (\<lambda>q. q\<lparr>pstate := RUNNABLE\<rparr>) else ret ()))"

definition kill_visit :: "int \<Rightarrow> nat \<Rightarrow> ('z procs_scheme, int option) op" where
  "kill_visit n p =
     bind (acquire (L_proc p)) (\<lambda>_.
     bind (proc_of p (\<lambda>q. pid q = n)) (\<lambda>hit.
     if hit then
       bind (update_proc p (\<lambda>q. q\<lparr>killed := True\<rparr>)) (\<lambda>_.
       bind (proc_of p pstate) (\<lambda>st.
       bind (if st = SLEEPING then update_proc p (\<lambda>q. q\<lparr>pstate := RUNNABLE\<rparr>) else ret ()) (\<lambda>_.
       bind (release (L_proc p)) (\<lambda>_. ret (Some 0)))))
     else bind (release (L_proc p)) (\<lambda>_. ret None)))"

definition kill :: "int \<Rightarrow> ('z procs_scheme, int) op" where
  "kill n = bind (for_first [0..<NPROC] (kill_visit n)) (\<lambda>r. case r of Some v \<Rightarrow> ret v | None \<Rightarrow> ret (-1))"

text \<open>
  \<open>wait\<close>. A pass over the table returns \<open>Inl r\<close> when the function returns \<open>r\<close> and
  \<open>Inr havekids\<close> at its end.
\<close>

definition word_bytes :: "32 word \<Rightarrow> cstr" where
  "word_bytes w = (\<lambda>i. ucast (drop_bit (8 * i) w))"

definition wait_child :: "nat \<Rightarrow> uint64 \<Rightarrow> nat \<Rightarrow> bool \<Rightarrow> ('z procs_scheme, int + bool) op" where
  "wait_child p addr np havekids =
     bind (proc_of np parent) (\<lambda>par.
     if par \<noteq> Some p then ret (Inr havekids) else
     bind (acquire (L_proc np)) (\<lambda>_.
     bind (proc_of np pstate) (\<lambda>st.
     if st = ZOMBIE then
       bind (proc_of np pid) (\<lambda>pid.
       bind (proc_of p pagetable) (\<lambda>pt.
       bind (proc_of np xstate) (\<lambda>xs.
       bind (if addr \<noteq> 0 then copyout pt addr (word_bytes xs) 4 else ret 0) (\<lambda>r.
       if addr \<noteq> 0 \<and> r < 0 then
         bind (release (L_proc np)) (\<lambda>_.
         bind (release (L_proc p)) (\<lambda>_. ret (Inl (-1))))
       else
         bind (freeproc np) (\<lambda>_.
         bind (release (L_proc np)) (\<lambda>_.
         bind (release (L_proc p)) (\<lambda>_. ret (Inl pid))))))))
     else bind (release (L_proc np)) (\<lambda>_. ret (Inr True)))))"

fun wait_scan :: "nat \<Rightarrow> uint64 \<Rightarrow> nat list \<Rightarrow> bool \<Rightarrow> ('z procs_scheme, int + bool) op" where
  "wait_scan p addr [] havekids = ret (Inr havekids)"
| "wait_scan p addr (np # nps) havekids =
     bind (wait_child p addr np havekids) (\<lambda>r.
     case r of Inl v \<Rightarrow> ret (Inl v) | Inr h \<Rightarrow> wait_scan p addr nps h)"

definition wait_pass :: "nat \<Rightarrow> uint64 \<Rightarrow> bool \<Rightarrow> ('z procs_scheme, int option) op" where
  "wait_pass p addr flags =
     bind (wait_scan p addr [0..<NPROC] False) (\<lambda>r.
     case r of
       Inl v \<Rightarrow> ret (Some v)
     | Inr havekids \<Rightarrow>
         bind (proc_of p killed) (\<lambda>k.
         if \<not> havekids \<or> k then bind (release (L_proc p)) (\<lambda>_. ret (Some (-1)))
         else if flags then bind (release (L_proc p)) (\<lambda>_. ret (Some (-1)))
         else ret None))"

definition wait :: "uint64 \<Rightarrow> bool \<Rightarrow> ('z procs_scheme, int) op" where
  "wait addr flags =
     bind curp (\<lambda>p.
     bind (acquire (L_proc p)) (\<lambda>_.
     sleep_until (wait_pass p addr flags) (C_proc p) (L_proc p)))"

section \<open>Copies to a user or a kernel address\<close>

text \<open>
  A kernel destination is an object of the kernel, here the byte array \<open>kbuf\<close> from index
  \<open>k\<close> on; the result carries that array.
\<close>

definition kcopy :: "cstr \<Rightarrow> nat \<Rightarrow> cstr \<Rightarrow> nat \<Rightarrow> cstr" where
  "kcopy kbuf k src n = (\<lambda>i. if k \<le> i \<and> i < k + n then src (i - k) else kbuf i)"

definition either_copyout :: "bool \<Rightarrow> uint64 \<Rightarrow> cstr \<Rightarrow> nat \<Rightarrow> cstr \<Rightarrow> nat \<Rightarrow> ('z procs_scheme, int \<times> cstr) op" where
  "either_copyout user_dst dst kbuf k src n =
     bind myproc (\<lambda>q.
     if user_dst then
       bind (deref q) (\<lambda>p.
       bind (proc_of p pagetable) (\<lambda>pt.
       bind (copyout pt dst src (of_nat n)) (\<lambda>r.
       ret (r, kbuf))))
     else ret (0, kcopy kbuf k src n))"

definition either_copyin :: "cstr \<Rightarrow> bool \<Rightarrow> uint64 \<Rightarrow> cstr \<Rightarrow> nat \<Rightarrow> ('z procs_scheme, int \<times> cstr) op" where
  "either_copyin dst user_src src ksrc n =
     bind myproc (\<lambda>q.
     if user_src then
       bind (deref q) (\<lambda>p.
       bind (proc_of p pagetable) (\<lambda>pt.
       copyin pt dst src (of_nat n)))
     else ret (0, kcopy dst 0 ksrc n))"

end
