(* ===== verification/ProcSched.thy ===== *)
theory ProcSched
  imports Proc
begin

unbundle bit_operations_syntax

text \<open>
  Scheduling: what \<open>sleep\<close>, \<open>wakeup\<close>, \<open>sched\<close> and the scheduler do to the process table,
  the protocol by which no wakeup is lost, and the invariant that a process runs on one
  CPU at a time.
\<close>

section \<open>The process table and locks\<close>

lemma procs_frame [acq_simps, simp]:
  "ptable (acq lk s) = ptable s"
  "(acq lk s)\<lparr>ptable := f\<rparr> = acq lk (s\<lparr>ptable := f\<rparr>)"
  "nextpid (acq lk s) = nextpid s"
  "(acq lk s)\<lparr>nextpid := n\<rparr> = acq lk (s\<lparr>nextpid := n\<rparr>)"
  "initproc (acq lk s) = initproc s" "ticks (acq lk s) = ticks s" "patience (acq lk s) = patience s"
  "forkret_addr (acq lk s) = forkret_addr s"
  "(acq lk s)\<lparr>ticks := t\<rparr> = acq lk (s\<lparr>ticks := t\<rparr>)"
  by (simp_all add: acq_def pushed_def noff_of_def intr_of_def)

lemma ptable_update_frame [simp]:
  "cpu_ok (s\<lparr>ptable := f\<rparr>) = cpu_ok s" "noff_of (s\<lparr>ptable := f\<rparr>) = noff_of s"
  "intr_of (s\<lparr>ptable := f\<rparr>) = intr_of s" "curproc (s\<lparr>ptable := f\<rparr>) = curproc s"
  "cpu_ok (s\<lparr>nextpid := n\<rparr>) = cpu_ok s" "noff_of (s\<lparr>nextpid := n\<rparr>) = noff_of s"
  "intr_of (s\<lparr>nextpid := n\<rparr>) = intr_of s" "curproc (s\<lparr>nextpid := n\<rparr>) = curproc s"
  "cpu_ok (s\<lparr>ticks := t\<rparr>) = cpu_ok s" "noff_of (s\<lparr>ticks := t\<rparr>) = noff_of s"
  "intr_of (s\<lparr>ticks := t\<rparr>) = intr_of s" "curproc (s\<lparr>ticks := t\<rparr>) = curproc s"
  by (simp_all add: cpu_ok_def noff_of_def intr_of_def curproc_def)

lemma acq_commute: "a \<noteq> b \<Longrightarrow> acq a (acq b s) = acq b (acq a s)"
proof -
  assume "a \<noteq> b"
  then have l: "(locks s)(b := held_lock (tp s), a := held_lock (tp s))
      = (locks s)(a := held_lock (tp s), b := held_lock (tp s))" by (simp add: fun_upd_twist)
  have "acq a (acq b s) = (pushed (pushed s))\<lparr>locks := (locks s)(b := held_lock (tp s), a := held_lock (tp s))\<rparr>"
    for a b by (simp add: acq_def pushed_def noff_of_def intr_of_def)
  then show ?thesis using l by metis
qed

text \<open>A lock can be released while a later one is still held.\<close>

lemma release_under:
  assumes "locks s lk = free_lock" "lk \<noteq> lk'"
  shows "release lk (acq lk' (acq lk s)) = Ret () (acq lk' s)"
  using assms release_acq[of "acq lk' s" lk] acq_commute[of lk lk' s] by simp

lemma acq_held [simp]: "holding lk (acq lk s) = Ret True (acq lk s)"
  by (simp add: holding_def cpuid_def op_defs held_lock_def)

lemma holding_free: "locks s lk = free_lock \<Longrightarrow> holding lk s = Ret False s"
  by (simp add: holding_def cpuid_def op_defs free_lock_def)

lemma acquire_blocked:
  "locks s lk = held_lock h \<Longrightarrow> h \<noteq> tp s \<Longrightarrow> acquire lk s = Spin"
  by (simp add: acquire_unfold holding_def cpuid_def op_defs push_off_eq pushed_def held_lock_def)

lemma curp_eq: "cpu_ok s \<Longrightarrow> curproc s = Some p \<Longrightarrow> curp s = Ret p s"
  by (simp add: curp_def deref_def bind_def myproc_eq ret_def)

definition procs_free :: "'z procs_scheme \<Rightarrow> bool" where
  "procs_free s \<longleftrightarrow> (\<forall>i < NPROC. locks s (L_proc i) = free_lock)"

lemma procs_freeD: "procs_free s \<Longrightarrow> i < NPROC \<Longrightarrow> locks s (L_proc i) = free_lock"
  by (simp add: procs_free_def)

lemma procs_free_frame [simp]:
  "procs_free (s\<lparr>ptable := f\<rparr>) = procs_free s"
  "(\<And>i. lk \<noteq> L_proc i) \<Longrightarrow> procs_free (acq lk s) = procs_free s"
  by (auto simp: procs_free_def)

text \<open>
  A loop over the table whose body changes only the process it visits changes every
  process in the same way.
\<close>

lemma for_procs:
  assumes "cpu_ok s" "\<And>i. i < n \<Longrightarrow> locks s (L_proc i) = free_lock"
    and body: "\<And>p t. cpu_ok t \<Longrightarrow> locks t (L_proc p) = free_lock \<Longrightarrow>
      body p t = Ret () (t\<lparr>ptable := (ptable t)(p := f (ptable t p))\<rparr>)"
  shows "for_each [0..<n] body s = Ret () (s\<lparr>ptable := (\<lambda>i. if i < n then f (ptable s i) else ptable s i)\<rparr>)"
  using assms(2)
proof (induction n)
  case 0
  then show ?case by (simp add: op_defs)
next
  case (Suc n)
  let ?t = "s\<lparr>ptable := (\<lambda>i. if i < n then f (ptable s i) else ptable s i)\<rparr>"
  have "body n ?t = Ret () (?t\<lparr>ptable := (ptable ?t)(n := f (ptable ?t n))\<rparr>)"
    using Suc.prems assms(1) by (intro body) simp_all
  moreover have "(ptable ?t)(n := f (ptable ?t n)) = (\<lambda>i. if i < Suc n then f (ptable s i) else ptable s i)"
    by (auto simp: fun_eq_iff less_Suc_eq)
  ultimately show ?case using Suc by (simp add: for_each_snoc bind_def del: fun_upd_apply)
qed

section \<open>wakeup\<close>

definition woken :: "chan \<Rightarrow> proc \<Rightarrow> proc" where
  "woken ch q = (if pstate q = SLEEPING \<and> pchan q = Some ch then q\<lparr>pstate := RUNNABLE\<rparr> else q)"

definition wake :: "chan \<Rightarrow> 'z procs_scheme \<Rightarrow> 'z procs_scheme" where
  "wake ch s = s\<lparr>ptable := (\<lambda>i. if i < NPROC then woken ch (ptable s i) else ptable s i)\<rparr>"

lemma upt_at: "m \<le> p \<Longrightarrow> p < n \<Longrightarrow> [m..<n] = [m..<p] @ p # [Suc p..<n]"
  using upt_add_eq_append[of m p "n - p"] by (simp add: upt_conv_Cons [of p n])

text \<open>One round of the loop of \<open>wakeup\<close>.\<close>

definition wakeup_visit :: "chan \<Rightarrow> nat \<Rightarrow> ('z procs_scheme, unit) op" where
  "wakeup_visit ch p =
     bind (acquire (L_proc p)) (\<lambda>_.
     bind (proc_of p (\<lambda>q. pstate q = SLEEPING \<and> pchan q = Some ch)) (\<lambda>hit.
     bind (if hit then update_proc p (\<lambda>q. q\<lparr>pstate := RUNNABLE\<rparr>) else ret ()) (\<lambda>_.
     release (L_proc p))))"

lemma wakeup_visits: "wakeup ch = for_each [0..<NPROC] (wakeup_visit ch)"
  by (simp add: wakeup_def wakeup_visit_def [abs_def])

lemma wakeup_visit_eq:
  "cpu_ok t \<Longrightarrow> locks t (L_proc p) = free_lock \<Longrightarrow>
   wakeup_visit ch p t = Ret () (t\<lparr>ptable := (ptable t)(p := woken ch (ptable t p))\<rparr>)"
  by (simp add: wakeup_visit_def bind_def acquire_eq proc_of_def update_proc_def op_defs release_acq woken_def)

lemma wakeup_eq: "cpu_ok s \<Longrightarrow> procs_free s \<Longrightarrow> wakeup ch s = Ret () (wake ch s)"
  unfolding wakeup_visits wake_def by (intro for_procs wakeup_visit_eq) (auto dest: procs_freeD)

text \<open>A wakeup waits at a process whose lock another CPU holds.\<close>

lemma wakeup_waits:
  assumes "cpu_ok s" "\<And>i. i < p \<Longrightarrow> locks s (L_proc i) = free_lock" "p < NPROC"
    and "locks s (L_proc p) = held_lock h" "h \<noteq> tp s"
  shows "wakeup ch s = Spin"
proof -
  let ?t = "s\<lparr>ptable := (\<lambda>i. if i < p then woken ch (ptable s i) else ptable s i)\<rparr>"
  have "[0..<NPROC] = [0..<p] @ p # [Suc p..<NPROC]" using assms(3) by (simp add: upt_at)
  moreover have "for_each [0..<p] (wakeup_visit ch) s = Ret () ?t"
    using for_procs[of s p "wakeup_visit ch" "woken ch"] wakeup_visit_eq assms(1,2) by blast
  moreover have "wakeup_visit ch p ?t = Spin"
    using acquire_blocked[of ?t "L_proc p" h] assms(4,5) by (simp add: wakeup_visit_def bind_def)
  ultimately show ?thesis by (simp add: wakeup_visits for_each_append bind_def)
qed

section \<open>sched and sleep\<close>

text \<open>\<open>sched\<close> switches when the current process holds its lock and nothing else.\<close>

definition set_intena :: "bool \<Rightarrow> 'z machine_scheme \<Rightarrow> 'z machine_scheme" where
  "set_intena b s = s\<lparr>cpus := (cpus s)(tp s := (cpus s (tp s))\<lparr>intena := b\<rparr>)\<rparr>"

lemma intena_acq: "noff_of s = 0 \<Longrightarrow> intena (cpus (acq lk s) (tp s)) = intr_of s"
  by (simp add: acq_def pushed_def)

lemma set_intena_acq: "noff_of s = 0 \<Longrightarrow> intr_of s = b \<Longrightarrow> set_intena b (acq lk s) = acq lk s"
  using intena_id[of "acq lk s" b] by (simp add: set_intena_def intena_acq)

lemma sched_eq:
  assumes "noff_of s = 0" "curproc s = Some p" "pstate (ptable s p) \<noteq> RUNNING"
  shows "sched (acq (L_proc p) s) =
    Swtch (acq (L_proc p) s) (\<lambda>s'. Ret () (set_intena (intr_of s) s'))"
proof -
  let ?t = "acq (L_proc p) s"
  have c: "mycpu ?t = Ret (cpus ?t (tp s)) ?t" by (simp add: mycpu_def cpuid_def op_defs)
  have n: "noff (cpus ?t (tp s)) = 1" using assms(1) by (simp add: acq_def pushed_def noff_of_def)
  have i: "intr_get ?t = Ret False ?t"
    using acq_fields(9)[of "L_proc p" s] by (simp add: intr_get_def r_sstatus_def op_defs intr_of_def)
  show ?thesis using assms
    by (simp add: sched_def bind_def curp_eq c n i proc_of_def reads_def swtch_def
        update_mycpu_def modify_def set_intena_def intena_acq)
qed

text \<open>The current process put to sleep on a channel.\<close>

definition asleep :: "nat \<Rightarrow> chan \<Rightarrow> 'z procs_scheme \<Rightarrow> 'z procs_scheme" where
  "asleep p ch s = s\<lparr>ptable := (ptable s)(p := (ptable s p)\<lparr>pchan := Some ch, pstate := SLEEPING\<rparr>)\<rparr>"

definition unchan :: "nat \<Rightarrow> 'z procs_scheme \<Rightarrow> 'z procs_scheme" where
  "unchan p s = s\<lparr>ptable := (ptable s)(p := (ptable s p)\<lparr>pchan := None\<rparr>)\<rparr>"

lemma asleep_frame [simp]:
  "cpu_ok (asleep p ch s) = cpu_ok s" "noff_of (asleep p ch s) = noff_of s"
  "intr_of (asleep p ch s) = intr_of s" "curproc (asleep p ch s) = curproc s"
  "locks (asleep p ch s) = locks s" "tp (asleep p ch s) = tp s"
  "pstate (ptable (asleep p ch s) p) = SLEEPING" "pchan (ptable (asleep p ch s) p) = Some ch"
  by (simp_all add: asleep_def)

lemma sleep_eq:
  assumes ok: "cpu_ok s" "noff_of s = 0" "curproc s = Some p"
    and free: "locks s lk = free_lock" "locks s (L_proc p) = free_lock" "lk \<noteq> L_proc p"
  shows "sleep ch lk (acq lk s) =
    Swtch (acq (L_proc p) (asleep p ch s)) (\<lambda>s'.
      bind (update_proc p (\<lambda>q. q\<lparr>pchan := None\<rparr>)) (\<lambda>_.
      bind (release (L_proc p)) (\<lambda>_. acquire lk)) (set_intena (intr_of s) s'))"
proof -
  have a: "acquire (L_proc p) (acq lk s) = Ret () (acq (L_proc p) (acq lk s))"
    using free by (intro acquire_eq) simp
  have r: "release lk (acq (L_proc p) (acq lk s)) = Ret () (acq (L_proc p) s)"
    using free by (intro release_under) auto
  have u: "update_proc p (\<lambda>q. q\<lparr>pchan := Some ch, pstate := SLEEPING\<rparr>) (acq (L_proc p) s)
      = Ret () (acq (L_proc p) (asleep p ch s))"
    by (simp add: update_proc_def modify_def asleep_def)
  have sc: "sched (acq (L_proc p) (asleep p ch s)) = Swtch (acq (L_proc p) (asleep p ch s))
      (\<lambda>s'. Ret () (set_intena (intr_of s) s'))"
    using sched_eq[of "asleep p ch s" p] ok by simp
  show ?thesis using free(3) ok
    by (simp add: sleep_def bind_def curp_eq a r u sc)
qed

text \<open>The rest of \<open>sleep\<close>, when the scheduler has switched back to the process.\<close>

lemma sleep_resumes:
  assumes "cpu_ok r" "noff_of r = 0" "intr_of r = b"
    and free: "locks r lk = free_lock" "locks r (L_proc p) = free_lock" "lk \<noteq> L_proc p"
  shows "bind (update_proc p (\<lambda>q. q\<lparr>pchan := None\<rparr>)) (\<lambda>_.
      bind (release (L_proc p)) (\<lambda>_. acquire lk)) (set_intena b (acq (L_proc p) r))
    = Ret () (acq lk (unchan p r))"
proof -
  have u: "update_proc p (\<lambda>q. q\<lparr>pchan := None\<rparr>) (set_intena b (acq (L_proc p) r))
      = Ret () (acq (L_proc p) (unchan p r))"
    using assms by (simp add: set_intena_acq update_proc_def modify_def unchan_def)
  have "release (L_proc p) (acq (L_proc p) (unchan p r)) = Ret () (unchan p r)"
    using assms by (intro release_acq) (simp_all add: unchan_def)
  moreover have "acquire lk (unchan p r) = Ret () (acq lk (unchan p r))"
    using free by (intro acquire_eq) (simp add: unchan_def)
  ultimately show ?thesis using u by (simp add: bind_def)
qed

section \<open>The scheduler\<close>

text \<open>
  What the scheduler does around a switch: \<open>dispatched\<close> is the state in which the chosen
  process goes on, \<open>scheduler_back\<close> the code after the switch back.
\<close>

definition set_cpu_proc :: "nat option \<Rightarrow> 'z machine_scheme \<Rightarrow> 'z machine_scheme" where
  "set_cpu_proc x s = s\<lparr>cpus := (cpus s)(tp s := (cpus s (tp s))\<lparr>cpu_proc := x\<rparr>)\<rparr>"

lemma set_cpu_proc_frame [simp]:
  "cpu_ok (set_cpu_proc x s) = cpu_ok s" "noff_of (set_cpu_proc x s) = noff_of s"
  "intr_of (set_cpu_proc x s) = intr_of s" "curproc (set_cpu_proc x s) = x"
  "locks (set_cpu_proc x s) = locks s" "tp (set_cpu_proc x s) = tp s"
  by (simp_all add: set_cpu_proc_def cpu_ok_def noff_of_def intr_of_def curproc_def)

lemma set_cpu_proc_procs [simp]:
  "ptable (set_cpu_proc x s) = ptable s" "(set_cpu_proc x s)\<lparr>ptable := f\<rparr> = set_cpu_proc x (s\<lparr>ptable := f\<rparr>)"
  by (simp_all add: set_cpu_proc_def)

lemma set_cpu_proc_acq: "set_cpu_proc x (acq lk s) = acq lk (set_cpu_proc x s)"
proof -
  have c: "c\<lparr>intena := a, cpu_proc := x\<rparr> = c\<lparr>cpu_proc := x, intena := a\<rparr>"
    "c\<lparr>noff := b, cpu_proc := x\<rparr> = c\<lparr>cpu_proc := x, noff := b\<rparr>" for c :: cpu and a b
    by (cases c, simp)+
  show ?thesis
    by (rule machine.equality) (simp_all add: set_cpu_proc_def acq_def pushed_def noff_of_def intr_of_def c)
qed

lemma update_cpu_proc: "update_mycpu (\<lambda>c. c\<lparr>cpu_proc := x\<rparr>) s = Ret () (set_cpu_proc x s)"
  by (simp add: update_mycpu_def set_cpu_proc_def modify_def)

definition dispatched :: "nat \<Rightarrow> 'z procs_scheme \<Rightarrow> 'z procs_scheme" where
  "dispatched p s = set_cpu_proc (Some p) (s\<lparr>ptable := (ptable s)(p := (ptable s p)\<lparr>pstate := RUNNING\<rparr>)\<rparr>)"

definition scheduler_back :: "nat \<Rightarrow> ('z procs_scheme, bool) op" where
  "scheduler_back p =
     bind (update_mycpu (\<lambda>c. c\<lparr>cpu_proc := None\<rparr>)) (\<lambda>_.
     bind (release (L_proc p)) (\<lambda>_. ret True))"

lemma scheduler_back_eq:
  assumes "cpu_ok s" "locks s (L_proc p) = free_lock"
  shows "scheduler_back p (acq (L_proc p) s) = Ret True (set_cpu_proc None s)"
  using assms by (simp add: scheduler_back_def bind_def update_cpu_proc set_cpu_proc_acq release_acq ret_def)

lemma scheduler_visit_runs:
  assumes "locks s (L_proc p) = free_lock" "pstate (ptable s p) = RUNNABLE"
  shows "scheduler_visit p s = Swtch (acq (L_proc p) (dispatched p s)) (scheduler_back p)"
proof -
  have "andthen (release (L_proc p) (set_cpu_proc None t)) (\<lambda>_. ret True) = scheduler_back p t"
    for t :: "'a procs_scheme"
    by (simp add: scheduler_back_def bind_def update_cpu_proc)
  then show ?thesis using assms
    by (simp add: scheduler_visit_def bind_def acquire_eq proc_of_def update_proc_def update_cpu_proc
        reads_def modify_def swtch_def ret_def [abs_def] dispatched_def set_cpu_proc_acq)
qed

lemma scheduler_visit_skips:
  assumes "cpu_ok s" "locks s (L_proc p) = free_lock" "pstate (ptable s p) \<noteq> RUNNABLE"
  shows "scheduler_visit p s = Ret False s"
  using assms
  by (simp add: scheduler_visit_def bind_def acquire_eq proc_of_def reads_def ret_def release_acq)

text \<open>The scan switches to the first runnable process of the list, and skips the others.\<close>

lemma scheduler_scan_first:
  assumes "cpu_ok s" "\<And>i. i \<in> set (xs @ p # ys) \<Longrightarrow> locks s (L_proc i) = free_lock"
    and "\<And>i. i \<in> set xs \<Longrightarrow> pstate (ptable s i) \<noteq> RUNNABLE" "pstate (ptable s p) = RUNNABLE"
  shows "scheduler_scan (xs @ p # ys) found s =
    Swtch (acq (L_proc p) (dispatched p s)) (bind (scheduler_back p) (\<lambda>f. scheduler_scan ys (found \<or> f)))"
  using assms
proof (induction xs arbitrary: found)
  case Nil
  then show ?case by (simp add: bind_def [abs_def] scheduler_visit_runs)
next
  case (Cons x xs)
  have "scheduler_visit x s = Ret False s" using Cons.prems by (intro scheduler_visit_skips) simp_all
  then show ?case using Cons by (simp add: bind_def)
qed

lemma scheduler_scan_none:
  assumes "cpu_ok s" "\<And>i. i \<in> set xs \<Longrightarrow> locks s (L_proc i) = free_lock"
    and "\<And>i. i \<in> set xs \<Longrightarrow> pstate (ptable s i) \<noteq> RUNNABLE"
  shows "scheduler_scan xs found s = Ret found s"
  using assms
proof (induction xs)
  case Nil
  then show ?case by (simp add: ret_def)
next
  case (Cons x xs)
  have "scheduler_visit x s = Ret False s" using Cons.prems by (intro scheduler_visit_skips) simp_all
  then show ?case using Cons by (simp add: bind_def)
qed

section \<open>No wakeup is lost\<close>

lemma other_hart:
  assumes "h \<noteq> tp s"
  shows "cpu_ok ((acq lk s)\<lparr>tp := h\<rparr>) = cpu_ok (s\<lparr>tp := h\<rparr>)"
  using assms by (simp add: cpu_ok_def noff_of_def intr_of_def acq_def pushed_def)

lemma asleep_tp [simp]: "(asleep p ch s)\<lparr>tp := h\<rparr> = asleep p ch (s\<lparr>tp := h\<rparr>)"
  by (simp add: asleep_def)


section \<open>Scheduling rounds\<close>

lemma intr_on_on: "intr_of s \<Longrightarrow> intr_on s = Ret () s"
proof -
  assume "intr_of s"
  then have "bit (sstatus (harts s (tp s))) (Suc 0)" by (simp add: intr_of_def SIE_test)
  then have "sstatus (harts s (tp s)) OR SSTATUS_SIE = sstatus (harts s (tp s))"
    by (intro bit_eqI) (auto simp: bit_or_iff bit_SIE)
  then show ?thesis by (simp add: intr_on_def r_sstatus_def w_sstatus_def op_defs)
qed

lemma procs_free_cpu [simp]: "procs_free (set_cpu_proc x s) = procs_free s"
  by (simp add: procs_free_def)

text \<open>
  C10. The scheduler runs what can run. A round of the scheduler that starts with a
  runnable process in the table switches to the runnable process with the lowest index,
  marked running and with its lock held; when that process switches back, the scan goes on
  behind it, to the next process that is runnable then, so a round offers the CPU to every
  runnable process in turn.
\<close>

theorem scheduler_round_robin:
  fixes s :: "'z procs_scheme"
  assumes "cpu_ok s" "intr_of s" "procs_free s" "p < NPROC" "pstate (ptable s p) = RUNNABLE"
    and "\<forall>i < p. pstate (ptable s i) \<noteq> RUNNABLE"
  shows "\<exists>k. scheduler_rounds (Suc n) s = Swtch (acq (L_proc p) (dispatched p s)) k
    \<and> (\<forall>u q. cpu_ok u \<and> procs_free u \<and> p < q \<and> q < NPROC \<and> pstate (ptable u q) = RUNNABLE
          \<and> (\<forall>i. p < i \<and> i < q \<longrightarrow> pstate (ptable u i) \<noteq> RUNNABLE) \<longrightarrow>
         (\<exists>k'. k (acq (L_proc p) u) = Swtch (acq (L_proc q) (dispatched q (set_cpu_proc None u))) k'))"
proof -
  let ?rest = "\<lambda>found. bind (if \<not> found then intr_on else ret ()) (\<lambda>_. scheduler_rounds n)"
  let ?k = "\<lambda>s'. andthen (bind (scheduler_back p) (\<lambda>f. scheduler_scan [Suc p..<NPROC] (False \<or> f)) s') ?rest"
  have l: "[0..<NPROC] = [0..<p] @ p # [Suc p..<NPROC]" using assms(4) by (simp add: upt_at)
  have "scheduler_scan [0..<NPROC] False s = Swtch (acq (L_proc p) (dispatched p s))
      (bind (scheduler_back p) (\<lambda>f. scheduler_scan [Suc p..<NPROC] (False \<or> f)))"
    unfolding l using assms by (intro scheduler_scan_first) (auto simp: procs_freeD)
  then have run: "scheduler_rounds (Suc n) s = Swtch (acq (L_proc p) (dispatched p s)) ?k"
    using intr_on_on[OF assms(2)] by (simp add: bind_def)
  have "\<exists>k'. ?k (acq (L_proc p) u) = Swtch (acq (L_proc q) (dispatched q (set_cpu_proc None u))) k'"
    if u: "cpu_ok u" "procs_free u" "p < q" "q < NPROC" "pstate (ptable u q) = RUNNABLE"
      "\<forall>i. p < i \<and> i < q \<longrightarrow> pstate (ptable u i) \<noteq> RUNNABLE" for u :: "'z procs_scheme" and q
  proof -
    have b: "scheduler_back p (acq (L_proc p) u) = Ret True (set_cpu_proc None u)"
      using u assms(4) by (intro scheduler_back_eq) (simp_all add: procs_freeD)
    have m: "[Suc p..<NPROC] = [Suc p..<q] @ q # [Suc q..<NPROC]" using u(3,4) by (simp add: upt_at)
    have "scheduler_scan ([Suc p..<q] @ q # [Suc q..<NPROC]) True (set_cpu_proc None u) =
        Swtch (acq (L_proc q) (dispatched q (set_cpu_proc None u)))
          (bind (scheduler_back q) (\<lambda>f. scheduler_scan [Suc q..<NPROC] (True \<or> f)))"
      using u by (intro scheduler_scan_first) (auto simp: procs_freeD)
    then show ?thesis using b by (simp add: bind_def m)
  qed
  then show ?thesis using run by blast
qed

section \<open>One CPU for a process\<close>

text \<open>
  Steps of the CPUs that concern scheduling. The scheduler of hart \<open>h\<close> dispatches a
  process; the process goes on and releases its lock; it gives up the CPU with \<open>yield\<close>
  or \<open>sleep\<close>; the scheduler, to which \<open>sched\<close> switches only when the state is no longer
  \<open>RUNNING\<close>, goes on. Any hart may call \<open>wakeup\<close> and \<open>kill\<close> and use other locks.
\<close>

inductive sched_step :: "'z procs_scheme \<Rightarrow> 'z procs_scheme \<Rightarrow> bool" where
  dispatches: "cpu_proc (cpus s h) = None \<Longrightarrow> scheduler_visit p (s\<lparr>tp := h\<rparr>) = Swtch t k \<Longrightarrow> sched_step s t"
| resumes: "cpu_proc (cpus s h) = Some p \<Longrightarrow> pstate (ptable s p) = RUNNING \<Longrightarrow>
    release (L_proc p) (s\<lparr>tp := h\<rparr>) = Ret () t \<Longrightarrow> sched_step s t"
| yields: "yield (s\<lparr>tp := h\<rparr>) = Swtch t k \<Longrightarrow> sched_step s t"
| sleeps: "\<forall>i. lk = L_proc i \<longrightarrow> cpu_proc (cpus s h) = Some i \<Longrightarrow> sleep ch lk (s\<lparr>tp := h\<rparr>) = Swtch t k \<Longrightarrow> sched_step s t"
| goes_back: "cpu_proc (cpus s h) = Some p \<Longrightarrow> pstate (ptable s p) \<noteq> RUNNING \<Longrightarrow>
    scheduler_back p (s\<lparr>tp := h\<rparr>) = Ret b t \<Longrightarrow> sched_step s t"
| wakes: "wakeup ch (s\<lparr>tp := h\<rparr>) = Ret () t \<Longrightarrow> sched_step s t"
| kills: "kill n (s\<lparr>tp := h\<rparr>) = Ret r t \<Longrightarrow> sched_step s t"
| locks_a: "\<forall>i. lk \<noteq> L_proc i \<Longrightarrow> acquire lk (s\<lparr>tp := h\<rparr>) = Ret () t \<Longrightarrow> sched_step s t"
| locks_r: "\<forall>i. lk \<noteq> L_proc i \<Longrightarrow> release lk (s\<lparr>tp := h\<rparr>) = Ret () t \<Longrightarrow> sched_step s t"

definition sched_init :: "'z procs_scheme \<Rightarrow> bool" where
  "sched_init s \<longleftrightarrow> (\<forall>h. cpu_proc (cpus s h) = None) \<and> (\<forall>p. pstate (ptable s p) \<noteq> RUNNING)"

inductive sched_reach :: "'z procs_scheme \<Rightarrow> bool" where
  sched_start: "sched_init s \<Longrightarrow> sched_reach s"
| sched_next: "sched_reach s \<Longrightarrow> sched_step s t \<Longrightarrow> sched_reach t"

definition on_cpu :: "'z procs_scheme \<Rightarrow> nat \<Rightarrow> nat \<Rightarrow> bool" where
  "on_cpu s h p \<longleftrightarrow> cpu_proc (cpus s h) = Some p"

definition one_cpu :: "'z procs_scheme \<Rightarrow> bool" where
  "one_cpu s \<longleftrightarrow>
     (\<forall>h h' p. on_cpu s h p \<longrightarrow> on_cpu s h' p \<longrightarrow> h = h') \<and>
     (\<forall>h p. on_cpu s h p \<longrightarrow> pstate (ptable s p) = RUNNING \<or> locks s (L_proc p) = held_lock h) \<and>
     (\<forall>p. pstate (ptable s p) = RUNNING \<longrightarrow> (\<exists>h. on_cpu s h p))"

text \<open>What \<open>acquire\<close> and \<open>release\<close> leave alone, for every outcome that returns.\<close>

lemma acq_on_cpu [simp]: "on_cpu (acq lk s) h p = on_cpu s h p"
  by (simp add: on_cpu_def acq_def pushed_def)

lemma on_cpu_frame [simp]:
  "on_cpu (s\<lparr>ptable := f\<rparr>) h p = on_cpu s h p" "on_cpu (s\<lparr>tp := g\<rparr>) h p = on_cpu s h p"
  by (simp_all add: on_cpu_def)

lemma pop_off_frame:
  assumes "pop_off s = Ret () t"
  shows "machine.more t = machine.more s" "locks t = locks s" "tp t = tp s" "cpu_proc (cpus t h) = cpu_proc (cpus s h)"
    "mem t = mem s"
  using assms by (auto simp: pop_off_def lock_defs op_defs split: if_splits)

lemma release_frame:
  assumes "release lk s = Ret () t"
  shows "machine.more t = machine.more s" "locks t = (locks s)(lk := free_lock)" "tp t = tp s"
    "cpu_proc (cpus t h) = cpu_proc (cpus s h)" "locks s lk = held_lock (tp s)" "mem t = mem s"
proof -
  let ?u = "s\<lparr>locks := (locks s)(lk := free_lock)\<rparr>"
  have h: "locks s lk = held_lock (tp s)" using assms by (rule release_RetD(1))
  then have "pop_off ?u = Ret () t"
    using assms by (simp add: release_unfold holding_def cpuid_def op_defs held_lock_def free_lock_def)
  from pop_off_frame[OF this] h show "machine.more t = machine.more s"
    "locks t = (locks s)(lk := free_lock)" "tp t = tp s"
    "cpu_proc (cpus t h) = cpu_proc (cpus s h)" "locks s lk = held_lock (tp s)" "mem t = mem s" by simp_all
qed

lemma more_ptable: "machine.more t = machine.more s \<Longrightarrow> ptable t = ptable (s :: 'z procs_scheme)"
  by (cases s; cases t) simp

lemma release_procs:
  assumes "release lk s = Ret () t"
  shows "ptable t = ptable (s :: 'z procs_scheme)" "on_cpu t h p = on_cpu s h p"
  using release_frame[OF assms] more_ptable by (auto simp: on_cpu_def)

lemma one_cpu_tp [simp]: "one_cpu (s\<lparr>tp := h\<rparr>) = one_cpu s"
  by (simp add: one_cpu_def)

text \<open>
  A round of a loop over the table: lock a process, change it without starting or
  stopping it, unlock it.
\<close>

definition visits :: "nat \<Rightarrow> 'z procs_scheme \<Rightarrow> 'z procs_scheme \<Rightarrow> bool" where
  "visits p s t \<longleftrightarrow> \<not> locked (locks s (L_proc p)) \<and> (\<forall>h i. on_cpu t h i = on_cpu s h i)
     \<and> locks t = (locks s)(L_proc p := free_lock)
     \<and> (\<exists>q. ptable t = (ptable s)(p := q) \<and> (pstate q = RUNNING) = (pstate (ptable s p) = RUNNING))"

text \<open>The invariant after a step that concerns process \<open>p\<close> only.\<close>

lemma one_cpu_step:
  assumes inv: "one_cpu s"
    and other: "\<And>i. i \<noteq> p \<Longrightarrow> ptable t i = ptable s i \<and> locks t (L_proc i) = locks s (L_proc i)"
    and cpu: "\<And>h i. i \<noteq> p \<Longrightarrow> on_cpu t h i = on_cpu s h i"
    and uniq: "\<And>h h'. on_cpu t h p \<Longrightarrow> on_cpu t h' p \<Longrightarrow> h = h'"
    and run: "\<And>h. on_cpu t h p \<Longrightarrow> pstate (ptable t p) = RUNNING \<or> locks t (L_proc p) = held_lock h"
    and has: "pstate (ptable t p) = RUNNING \<Longrightarrow> \<exists>h. on_cpu t h p"
  shows "one_cpu t"
  unfolding one_cpu_def
proof (intro conjI allI impI)
  fix h h' i assume "on_cpu t h i" "on_cpu t h' i"
  then show "h = h'" using inv cpu uniq unfolding one_cpu_def by (cases "i = p") blast+
next
  fix h i assume "on_cpu t h i"
  then show "pstate (ptable t i) = RUNNING \<or> locks t (L_proc i) = held_lock h"
    using inv cpu run other[of i] unfolding one_cpu_def by (cases "i = p") auto
next
  fix i assume "pstate (ptable t i) = RUNNING"
  then show "\<exists>h. on_cpu t h i"
    using inv cpu has other[of i] unfolding one_cpu_def by (cases "i = p") auto
qed

lemma one_cpuD:
  assumes "one_cpu s"
  shows "on_cpu s h p \<Longrightarrow> on_cpu s h' p \<Longrightarrow> h = h'"
    and "on_cpu s h p \<Longrightarrow> pstate (ptable s p) \<noteq> RUNNING \<Longrightarrow> locks s (L_proc p) = held_lock h"
    and "pstate (ptable s p) = RUNNING \<Longrightarrow> \<exists>h. on_cpu s h p"
  using assms unfolding one_cpu_def by blast+

lemma visits_one_cpu:
  assumes "visits p s t" "one_cpu s"
  shows "one_cpu t"
proof (rule one_cpu_step [OF assms(2), where p = p])
  obtain q where q: "ptable t = (ptable s)(p := q)" "(pstate q = RUNNING) = (pstate (ptable s p) = RUNNING)"
    using assms(1) by (auto simp: visits_def)
  have c: "on_cpu t h i = on_cpu s h i" for h i using assms(1) by (simp add: visits_def)
  show "on_cpu t h i = on_cpu s h i" for h i by (rule c)
  show "ptable t i = ptable s i \<and> locks t (L_proc i) = locks s (L_proc i)" if "i \<noteq> p" for i
    using that assms(1) q by (simp add: visits_def)
  show "h = h'" if "on_cpu t h p" "on_cpu t h' p" for h h'
    using that one_cpuD(1)[OF assms(2)] by (simp add: c)
  show "pstate (ptable t p) = RUNNING \<or> locks t (L_proc p) = held_lock h" if "on_cpu t h p" for h
    using that one_cpuD(2)[OF assms(2), of h p] assms(1) q by (auto simp: c visits_def held_lock_def)
  show "\<exists>h. on_cpu t h p" if "pstate (ptable t p) = RUNNING"
    using that one_cpuD(3)[OF assms(2), of p] q by (simp add: c)
qed

lemma visitsI:
  assumes "acquire (L_proc p) s = Ret () u" "release (L_proc p) v = Ret () t"
    and "v = u\<lparr>ptable := (ptable s)(p := q)\<rparr>" "(pstate q = RUNNING) = (pstate (ptable s p) = RUNNING)"
  shows "visits p s t"
proof -
  have u: "\<not> locked (locks s (L_proc p))" "u = acq (L_proc p) s" using acquire_RetD[OF assms(1)] by simp_all
  show ?thesis using u assms(3,4) release_procs[OF assms(2)] release_frame(2)[OF assms(2)]
    by (auto simp: visits_def)
qed

lemma wakeup_visit_visits:
  assumes "wakeup_visit ch p s = Ret () t"
  shows "visits p s t"
proof -
  from assms obtain u where a: "acquire (L_proc p) s = Ret () u"
    and r: "bind (proc_of p (\<lambda>q. pstate q = SLEEPING \<and> pchan q = Some ch)) (\<lambda>hit.
     bind (if hit then update_proc p (\<lambda>q. q\<lparr>pstate := RUNNABLE\<rparr>) else ret ()) (\<lambda>_.
     release (L_proc p))) u = Ret () t"
    unfolding wakeup_visit_def by (auto dest: bind_RetD)
  have u: "u = acq (L_proc p) s" using acquire_RetD[OF a] by simp
  from r have "release (L_proc p) (u\<lparr>ptable := (ptable s)(p := woken ch (ptable s p))\<rparr>) = Ret () t"
    by (auto simp: u bind_def proc_of_def update_proc_def op_defs woken_def split: if_splits)
  then show ?thesis by (rule visitsI [OF a _ refl]) (simp add: woken_def)
qed

lemma kill_visit_visits:
  assumes "kill_visit n p s = Ret r t"
  shows "visits p s t"
proof -
  let ?q = "if pid (ptable s p) \<noteq> n then ptable s p
     else if pstate (ptable s p) = SLEEPING then (ptable s p)\<lparr>killed := True, pstate := RUNNABLE\<rparr>
     else (ptable s p)\<lparr>killed := True\<rparr>"
  from assms obtain u where a: "acquire (L_proc p) s = Ret () u"
    unfolding kill_visit_def by (auto dest: bind_RetD)
  have u: "u = acq (L_proc p) s" using acquire_RetD[OF a] by simp
  from assms a have "release (L_proc p) (u\<lparr>ptable := (ptable s)(p := ?q)\<rparr>) = Ret () t"
    by (auto simp: kill_visit_def u bind_def proc_of_def update_proc_def op_defs split: if_splits dest!: andthen_RetD)
  then show ?thesis by (rule visitsI [OF a _ refl]) simp
qed

lemma for_each_Ret:
  assumes "\<And>i s t. body i s = Ret () t \<Longrightarrow> I s \<Longrightarrow> I t"
  shows "for_each xs body s = Ret () t \<Longrightarrow> I s \<Longrightarrow> I t"
proof (induction xs arbitrary: s)
  case Nil
  then show ?case by (simp add: ret_def)
next
  case (Cons x xs)
  then obtain a u where "body x s = Ret a u" "for_each xs body u = Ret () t" by (auto dest: bind_RetD)
  then show ?case using Cons assms[of x s u] by simp
qed

lemma for_first_Ret:
  assumes "\<And>i s r t. body i s = Ret r t \<Longrightarrow> I s \<Longrightarrow> I t"
  shows "for_first xs body s = Ret r t \<Longrightarrow> I s \<Longrightarrow> I t"
proof (induction xs arbitrary: s)
  case Nil
  then show ?case by (simp add: ret_def)
next
  case (Cons x xs)
  then obtain a u where "body x s = Ret a u"
    "(case a of Some a \<Rightarrow> ret (Some a) | None \<Rightarrow> for_first xs body) u = Ret r t" by (auto dest: bind_RetD)
  then show ?case using Cons assms[of x s a u] by (auto simp: ret_def split: option.splits)
qed

lemma wakeup_one_cpu: "wakeup ch s = Ret () t \<Longrightarrow> one_cpu s \<Longrightarrow> one_cpu t"
  unfolding wakeup_visits by (rule for_each_Ret [where I = one_cpu]) (auto dest: wakeup_visit_visits visits_one_cpu)

lemma kill_one_cpu:
  assumes "kill n s = Ret r t" "one_cpu s"
  shows "one_cpu t"
proof -
  from assms(1) obtain a u where u: "for_first [0..<NPROC] (kill_visit n) s = Ret a u"
    "(case a of Some v \<Rightarrow> ret v | None \<Rightarrow> ret (-1)) u = Ret r t"
    unfolding kill_def by (auto dest: bind_RetD)
  have "one_cpu u"
    by (rule for_first_Ret [where I = one_cpu, OF _ u(1) assms(2)]) (auto dest: kill_visit_visits visits_one_cpu)
  then show ?thesis using u(2) by (auto simp: ret_def split: option.splits)
qed

text \<open>Operations that never switch, and the inversion of a switch.\<close>

definition no_swtch :: "('s, 'a) op \<Rightarrow> bool" where
  "no_swtch m \<longleftrightarrow> (\<forall>s t k. m s \<noteq> Swtch t k)"

lemma no_swtch_prims [simp]:
  "no_swtch (ret a)" "no_swtch (panic e)" "no_swtch spin" "no_swtch (reads f)" "no_swtch (modify g)"
  by (simp_all add: no_swtch_def op_defs)

lemma andthen_SwtchD:
  assumes "andthen m f = Swtch t k" "\<And>u j. m \<noteq> Swtch u j"
  obtains a u where "m = Ret a u" "f a u = Swtch t k"
  using assms by (cases m) auto

lemma bind_SwtchD:
  assumes "bind m f s = Swtch t k" "no_swtch m"
  obtains a u where "m s = Ret a u" "f a u = Swtch t k"
  using assms by (auto simp: bind_def no_swtch_def elim: andthen_SwtchD)

lemma no_swtch_bind [intro]:
  assumes "no_swtch m" "\<And>a. no_swtch (f a)"
  shows "no_swtch (bind m f)"
  unfolding no_swtch_def
proof (intro allI notI)
  fix s t k assume "bind m f s = Swtch t k"
  then obtain a u where "f a u = Swtch t k" using assms(1) by (rule bind_SwtchD)
  then show False using assms(2)[of a] by (simp add: no_swtch_def)
qed

lemma no_swtch_if [intro]: "no_swtch m \<Longrightarrow> no_swtch n \<Longrightarrow> no_swtch (if c then m else n)"
  by simp

lemma no_swtch_locks [simp]:
  "no_swtch (acquire lk)" "no_swtch (release lk)" "no_swtch (holding lk)" "no_swtch curp"
  "no_swtch mycpu" "no_swtch intr_get" "no_swtch (update_proc p g)" "no_swtch (proc_of p h)"
  unfolding acquire_unfold release_unfold holding_def cpuid_def push_off_def pop_off_def intr_get_def
    intr_off_def intr_on_def r_sstatus_def w_sstatus_def mycpu_def update_mycpu_def curp_def myproc_def
    deref_def update_proc_def proc_of_def
  by (auto simp: no_swtch_def op_defs split: if_splits option.splits)

lemma not_Swtch [simp]:
  "acquire lk s \<noteq> Swtch t k" "release lk s \<noteq> Swtch t k" "curp s \<noteq> Swtch t j"
  by (metis no_swtch_def no_swtch_locks(1), metis no_swtch_def no_swtch_locks(2), metis no_swtch_def no_swtch_locks(4))

text \<open>Equal as far as scheduling is concerned.\<close>

definition same_sched :: "'z procs_scheme \<Rightarrow> 'z procs_scheme \<Rightarrow> bool" where
  "same_sched s t \<longleftrightarrow> ptable t = ptable s \<and> locks t = locks s \<and> tp t = tp s
     \<and> (\<forall>h i. on_cpu t h i = on_cpu s h i)"

lemma same_sched_one_cpu: "same_sched s t \<Longrightarrow> one_cpu t = one_cpu s"
  by (simp add: same_sched_def one_cpu_def)

lemma curp_RetD:
  fixes s :: "'z procs_scheme"
  assumes "curp s = Ret p t"
  shows "same_sched s t \<and> on_cpu s (tp s) p"
proof -
  from assms obtain q u where q: "myproc s = Ret q u" "deref q u = Ret p t"
    unfolding curp_def by (auto dest: bind_RetD)
  then have p: "q = Some p" "u = t" by (auto simp: deref_def op_defs split: option.splits)
  have m: "mycpu (pushed s) = Ret (cpus (pushed s) (tp s)) (pushed s)"
    by (simp add: mycpu_def cpuid_def op_defs pushed_def)
  from q(1) have "pop_off (pushed s) = Ret () t" "cpu_proc (cpus (pushed s) (tp s)) = Some p"
    unfolding myproc_def p by (auto simp: bind_def push_off_eq m ret_def dest!: andthen_RetD)
  moreover have "cpu_proc (cpus (pushed s) h) = cpu_proc (cpus s h)" "locks (pushed s) = locks s"
    "tp (pushed s) = tp s" "ptable (pushed s) = ptable s" for h
    by (simp_all add: pushed_def)
  ultimately show ?thesis
    using pop_off_frame[of "pushed s" t] more_ptable[of t "pushed s"]
    by (auto simp: same_sched_def on_cpu_def)
qed

lemma sched_SwtchD:
  fixes s :: "'z procs_scheme"
  assumes "sched s = Swtch t k"
  obtains p where "same_sched s t" "on_cpu s (tp s) p" "locks s (L_proc p) = held_lock (tp s)"
    "pstate (ptable s p) \<noteq> RUNNING"
proof -
  have hold: "holding lk u = Ret (locks u lk = held_lock (tp u)) u" for lk and u :: "'z procs_scheme"
    by (auto simp: holding_def cpuid_def op_defs held_lock_def)
  have m: "mycpu u = Ret (cpus u (tp u)) u" for u :: "'z procs_scheme"
    by (simp add: mycpu_def cpuid_def op_defs)
  have i: "intr_get u = Ret (intr_of u) u" for u :: "'z procs_scheme"
    by (simp add: intr_get_def r_sstatus_def op_defs intr_of_def)
  obtain p u where u: "curp s = Ret p u" using assms unfolding sched_def by (elim bind_SwtchD) simp_all
  note c = curp_RetD[OF u]
  from assms u have "t = u" "locks u (L_proc p) = held_lock (tp u)" "pstate (ptable u p) \<noteq> RUNNING"
    by (auto simp: sched_def bind_def hold m i proc_of_def op_defs update_mycpu_def split: if_splits)
  with c show ?thesis by (intro that [of p]) (auto simp: same_sched_def)
qed

text \<open>A process gives up its CPU: it holds its lock and leaves \<open>RUNNING\<close>.\<close>

lemma gives_up:
  assumes inv: "one_cpu s" and on: "on_cpu s h p"
    and p: "ptable t = (ptable s)(p := q)" "pstate q \<noteq> RUNNING" "locks t (L_proc p) = held_lock h"
    and other: "\<And>i. i \<noteq> p \<Longrightarrow> locks t (L_proc i) = locks s (L_proc i)"
    and cpu: "\<And>g i. on_cpu t g i = on_cpu s g i"
  shows "one_cpu t"
proof (rule one_cpu_step [OF inv, where p = p])
  show "pstate (ptable t p) = RUNNING \<or> locks t (L_proc p) = held_lock g" if "on_cpu t g p" for g
    using that on one_cpuD(1)[OF inv, of g p h] p by (simp add: cpu)
  show "g = g'" if "on_cpu t g p" "on_cpu t g' p" for g g'
    using that one_cpuD(1)[OF inv, of g p g'] by (simp add: cpu)
qed (use p other cpu in auto)

lemma yield_one_cpu:
  fixes s :: "'z procs_scheme"
  assumes "yield s = Swtch t k" "one_cpu s"
  shows "one_cpu t"
proof -
  obtain p u where u: "curp s = Ret p u"
    using assms(1) by (cases "curp s") (auto simp: yield_def bind_def)
  note c = curp_RetD[OF u]
  obtain v where v: "acquire (L_proc p) u = Ret () v"
    using assms(1) u by (cases "acquire (L_proc p) u") (auto simp: yield_def bind_def)
  have v': "v = acq (L_proc p) u" using acquire_RetD[OF v] by simp
  let ?w = "v\<lparr>ptable := (ptable v)(p := (ptable v p)\<lparr>pstate := RUNNABLE\<rparr>)\<rparr>"
  have "andthen (sched ?w) (\<lambda>_. release (L_proc p)) = Swtch t k"
    using assms(1) u v by (simp add: yield_def bind_def update_proc_def modify_def)
  then obtain k' where "sched ?w = Swtch t k'" by (cases "sched ?w") auto
  then have "same_sched ?w t" by (rule sched_SwtchD)
  then show ?thesis using c v'
    by (intro gives_up [OF assms(2), where h = "tp s" and p = p and q = "(ptable s p)\<lparr>pstate := RUNNABLE\<rparr>"])
      (auto simp: same_sched_def)
qed

lemma sleep_one_cpu:
  fixes s :: "'z procs_scheme"
  assumes sl: "sleep ch lk s = Swtch t k" and inv: "one_cpu s"
    and lk: "\<forall>i. lk = L_proc i \<longrightarrow> on_cpu s (tp s) i"
  shows "one_cpu t"
proof -
  obtain p u where u: "curp s = Ret p u"
    using sl by (cases "curp s") (auto simp: sleep_def bind_def)
  have c: "same_sched s u" "on_cpu s (tp s) p" using curp_RetD[OF u] by simp_all
  let ?m = "if lk \<noteq> L_proc p then bind (acquire (L_proc p)) (\<lambda>_. release lk) else ret ()"
  let ?w = "\<lambda>v. v\<lparr>ptable := (ptable v)(p := (ptable v p)\<lparr>pchan := Some ch, pstate := SLEEPING\<rparr>)\<rparr>"
  have "no_swtch ?m" by (intro no_swtch_if no_swtch_bind) simp_all
  then obtain v where v: "?m u = Ret () v"
    using sl u by (cases "?m u") (auto simp: sleep_def bind_def no_swtch_def)
  have lp: "lk = L_proc i \<Longrightarrow> i = p" for i using lk c(2) by (auto simp: on_cpu_def)
  have vs: "ptable v = ptable s \<and> (\<forall>h i. on_cpu v h i = on_cpu s h i) \<and> tp v = tp s
      \<and> (\<forall>i. i \<noteq> p \<longrightarrow> locks v (L_proc i) = locks s (L_proc i))"
  proof (cases "lk = L_proc p")
    case True
    then show ?thesis using v c(1) by (auto simp: ret_def same_sched_def)
  next
    case False
    then obtain w where w: "acquire (L_proc p) u = Ret () w" "release lk w = Ret () v"
      using v by (auto dest: bind_RetD)
    have "w = acq (L_proc p) u" using acquire_RetD[OF w(1)] by simp
    then show ?thesis using release_procs[OF w(2)] release_frame(2,3)[OF w(2)] c(1) False lp
      by (auto simp: same_sched_def)
  qed
  obtain k' where k': "sched (?w v) = Swtch t k'"
  proof (cases "sched (?w v)")
    case (Swtch x j)
    then show ?thesis using sl u v that by (auto simp: sleep_def bind_def update_proc_def modify_def)
  qed (use sl u v in \<open>auto simp: sleep_def bind_def update_proc_def op_defs split: if_splits elim!: andthen_SwtchD\<close>)
  then obtain p' where sc: "same_sched (?w v) t" "on_cpu (?w v) (tp (?w v)) p'"
    "locks (?w v) (L_proc p') = held_lock (tp (?w v))" by (rule sched_SwtchD)
  have "p' = p" using sc(2) vs c(2) by (auto simp: on_cpu_def)
  then show ?thesis using sc vs
    by (intro gives_up [OF inv c(2), where q = "(ptable s p)\<lparr>pchan := Some ch, pstate := SLEEPING\<rparr>"])
      (auto simp: same_sched_def)
qed

lemma visit_dispatches:
  fixes s :: "'z procs_scheme"
  assumes "scheduler_visit p s = Swtch t k"
  shows "\<not> locked (locks s (L_proc p)) \<and> pstate (ptable s p) = RUNNABLE \<and> t = acq (L_proc p) (dispatched p s)"
proof -
  obtain u where u: "acquire (L_proc p) s = Ret () u"
    using assms by (cases "acquire (L_proc p) s") (auto simp: scheduler_visit_def bind_def)
  have a: "\<not> locked (locks s (L_proc p))" "u = acq (L_proc p) s" using acquire_RetD[OF u] by simp_all
  have "pstate (ptable s p) = RUNNABLE"
    using assms u a(2)
    by (auto simp: scheduler_visit_def bind_def proc_of_def op_defs split: if_splits elim!: andthen_SwtchD)
  then show ?thesis using assms u a
    by (simp add: scheduler_visit_def bind_def proc_of_def update_proc_def update_cpu_proc reads_def modify_def
        swtch_def dispatched_def set_cpu_proc_acq)
qed

lemma set_cpu_on: "on_cpu (set_cpu_proc x s) h i = (if h = tp s then x = Some i else on_cpu s h i)"
  by (simp add: on_cpu_def set_cpu_proc_def)

lemma dispatch_one_cpu:
  fixes s :: "'z procs_scheme"
  assumes "scheduler_visit p s = Swtch t k" "cpu_proc (cpus s (tp s)) = None" and inv: "one_cpu s"
  shows "one_cpu t"
proof -
  have d: "\<not> locked (locks s (L_proc p))" "pstate (ptable s p) = RUNNABLE" "t = acq (L_proc p) (dispatched p s)"
    using visit_dispatches[OF assms(1)] by simp_all
  have off: "\<not> on_cpu s h p" for h
    using one_cpuD(2)[OF inv, of h p] d(1,2) by (auto simp: held_lock_def)
  have idle: "\<not> on_cpu s (tp s) i" for i using assms(2) by (simp add: on_cpu_def)
  show ?thesis
    by (rule one_cpu_step [OF inv, where p = p])
      (use off idle in \<open>auto simp: d(3) dispatched_def set_cpu_on split: if_splits\<close>)
qed

lemma back_one_cpu:
  fixes s :: "'z procs_scheme"
  assumes "scheduler_back p s = Ret b t" "on_cpu s (tp s) p" "pstate (ptable s p) \<noteq> RUNNING" and inv: "one_cpu s"
  shows "one_cpu t"
proof -
  have "release (L_proc p) (set_cpu_proc None s) = Ret () t"
    using assms(1) by (auto simp: scheduler_back_def bind_def update_cpu_proc ret_def dest!: andthen_RetD)
  from release_procs[OF this] release_frame(2)[OF this]
  have t: "ptable t = ptable s" "on_cpu t h i = on_cpu (set_cpu_proc None s) h i"
    "locks t = (locks s)(L_proc p := free_lock)" for h i by simp_all
  have off: "\<not> on_cpu t h p" for h
    using one_cpuD(1)[OF inv assms(2), of h] by (auto simp: t(2) set_cpu_on split: if_splits)
  have "on_cpu t h i = on_cpu s h i" if "i \<noteq> p" for h i
    using that assms(2) unfolding t(2) set_cpu_on by (auto simp: on_cpu_def)
  then show ?thesis
    by (intro one_cpu_step [OF inv, where p = p]) (use off assms(3) in \<open>auto simp: t(1,3)\<close>)
qed

lemma other_lock_one_cpu:
  fixes s :: "'z procs_scheme"
  assumes "\<forall>i. lk \<noteq> L_proc i" "acquire lk s = Ret () t \<or> release lk s = Ret () t" "one_cpu s"
  shows "one_cpu t"
proof -
  have "ptable t = ptable s \<and> (\<forall>h i. on_cpu t h i = on_cpu s h i) \<and> (\<forall>i. locks t (L_proc i) = locks s (L_proc i))"
    using assms(2)
  proof
    assume "acquire lk s = Ret () t"
    then have "t = acq lk s" using acquire_RetD by blast
    then show ?thesis using assms(1) by auto
  next
    assume r: "release lk s = Ret () t"
    then show ?thesis using release_procs[OF r] release_frame(2)[OF r] assms(1) by auto
  qed
  then show ?thesis using assms(3) by (simp add: one_cpu_def)
qed

lemma resume_one_cpu:
  fixes s :: "'z procs_scheme"
  assumes r: "release (L_proc p) s = Ret () t" and run: "pstate (ptable s p) = RUNNING" and inv: "one_cpu s"
  shows "one_cpu t"
  by (rule one_cpu_step [OF inv, where p = p])
    (use release_procs[OF r] release_frame(2)[OF r] run one_cpuD[OF inv] in auto)

lemma sched_reach_one_cpu: "sched_reach s \<Longrightarrow> one_cpu s"
proof (induction rule: sched_reach.induct)
  case (sched_start s)
  then show ?case by (auto simp: sched_init_def one_cpu_def on_cpu_def)
next
  case (sched_next s t)
  have inv: "one_cpu (s\<lparr>tp := h\<rparr>)" for h using sched_next.IH by simp
  from sched_next.hyps(2) show ?case
  proof cases
    case (dispatches h p k)
    then show ?thesis using dispatch_one_cpu[OF _ _ inv] by simp
  next
    case (resumes h p)
    then show ?thesis using resume_one_cpu[OF _ _ inv] by simp
  next
    case (yields h k)
    then show ?thesis using yield_one_cpu inv by blast
  next
    case (sleeps lk h ch k)
    then show ?thesis using sleep_one_cpu[OF _ inv] by (simp add: on_cpu_def)
  next
    case (goes_back h p b)
    then show ?thesis using back_one_cpu[OF _ _ _ inv] by (simp add: on_cpu_def)
  next
    case (wakes ch h)
    then show ?thesis using wakeup_one_cpu inv by blast
  next
    case (kills n h r)
    then show ?thesis using kill_one_cpu inv by blast
  next
    case (locks_a lk h)
    then show ?thesis using other_lock_one_cpu inv by blast
  next
    case (locks_r lk h)
    then show ?thesis using other_lock_one_cpu inv by blast
  qed
qed

text \<open>
  C11. A process runs on at most one CPU. However the CPUs interleave dispatching,
  yielding, sleeping, waking and killing, no two CPUs have the same current process, every
  process in state \<open>RUNNING\<close> is the current process of some CPU, and the current process of
  a CPU is \<open>RUNNING\<close> or that CPU holds its lock.
\<close>

theorem process_on_one_cpu:
  assumes "sched_reach s"
  shows "(cpu_proc (cpus s h) = Some p \<and> cpu_proc (cpus s h') = Some p \<longrightarrow> h = h')
    \<and> (pstate (ptable s p) = RUNNING \<longrightarrow> (\<exists>g. cpu_proc (cpus s g) = Some p))
    \<and> (cpu_proc (cpus s h) = Some p \<longrightarrow>
         pstate (ptable s p) = RUNNING \<or> locks s (L_proc p) = held_lock h)"
  using sched_reach_one_cpu[OF assms] by (auto simp: one_cpu_def on_cpu_def)

section \<open>Concrete states\<close>

text \<open>Processes 0 and 1 in the given states, the rest of the table unused; hart 0 idle.\<close>

definition mkproc :: "procstate \<Rightarrow> int \<Rightarrow> proc" where
  "mkproc st n = \<lparr>pstate = st, parent = None, pchan = None, killed = False, xstate = 0, pid = n,
     kstack = 0, psz = 0, pagetable = 0, trapframe = 0, pcontext = zero_context,
     ofile = (\<lambda>_. None), cwd = None, pname = (\<lambda>_. 0)\<rparr>"

definition procs0 :: "procstate \<Rightarrow> procstate \<Rightarrow> procs" where
  "procs0 a b = \<lparr>mem = (\<lambda>_. 0), tp = 0, harts = (\<lambda>_. hart0), cpus = (\<lambda>_. cpu0),
     locks = (\<lambda>_. free_lock), kend = KERNBASE + 0x20000, etext = KERNBASE + 0x8000,
     trampoline = KERNBASE + 0x7000, freelist = 0, kernel_pagetable = 0,
     ptable = (\<lambda>i. if i = 0 then mkproc a 1 else if i = 1 then mkproc b 2 else mkproc UNUSED 0),
     nextpid = 3, initproc = Some 0, ticks = 0, patience = 0, forkret_addr = 0, usertrap_addr = 0,
     uservec_addr = 0, userret_addr = 0, kernelvec_addr = 0\<rparr>"

lemma procs0_ok [simp]:
  "cpu_ok (procs0 a b)" "noff_of (procs0 a b) = 0" "intr_of (procs0 a b)" "curproc (procs0 a b) = None"
  "locks (procs0 a b) lk = free_lock" "procs_free (procs0 a b)" "tp (procs0 a b) = 0"
  "ptable (procs0 a b) 0 = mkproc a 1" "ptable (procs0 a b) (Suc 0) = mkproc b 2"
  "pstate (mkproc st n) = st"
  by (simp_all add: cpu_ok_def noff_of_def intr_of_def curproc_def procs_free_def procs0_def cpu0_def
      hart0_def SSTATUS_SIE_def mkproc_def)


theorem scheduler_round_robin_witness:
  "\<exists>k. scheduler_rounds 1 (procs0 ZOMBIE RUNNABLE)
      = Swtch (acq (L_proc 1) (dispatched 1 (procs0 ZOMBIE RUNNABLE))) k"
  using scheduler_round_robin[of "procs0 ZOMBIE RUNNABLE" 1 0] by (auto simp: NPROC_def)

theorem process_on_one_cpu_witness:
  "let t = acq (L_proc 0) (dispatched 0 (procs0 RUNNABLE UNUSED)) in
     cpu_proc (cpus t 0) = Some 0 \<and> pstate (ptable t 0) = RUNNING \<and> cpu_proc (cpus t 1) \<noteq> Some 0"
proof -
  let ?s = "procs0 RUNNABLE UNUSED"
  let ?t = "acq (L_proc 0) (dispatched 0 ?s)"
  have "sched_init ?s" by (simp add: sched_init_def procs0_def cpu0_def mkproc_def)
  moreover have "sched_step ?s ?t"
  proof (rule sched_step.dispatches)
    show "cpu_proc (cpus ?s 0) = None" by (simp add: procs0_def cpu0_def)
    have tp: "?s\<lparr>tp := 0\<rparr> = ?s" by (simp add: procs0_def)
    show "scheduler_visit 0 (?s\<lparr>tp := 0\<rparr>) = Swtch ?t (scheduler_back 0)"
      unfolding tp by (simp add: scheduler_visit_runs)
  qed
  ultimately have r: "sched_reach ?t" by (blast intro: sched_reach.intros)
  have c: "cpu_proc (cpus ?t 0) = Some 0"
    using acq_on_cpu[of "L_proc 0" "dispatched 0 ?s" 0 0]
    by (simp add: on_cpu_def dispatched_def set_cpu_proc_def procs0_def)
  then show ?thesis using process_on_one_cpu[OF r, of 0 0 1] by (auto simp: dispatched_def)
qed

end
