(* ===== verification/Sleeplock.thy ===== *)
theory Sleeplock
  imports Proc
begin

text \<open>
  \<open>kernel/sleeplock.c\<close>: locks that a process waits for by sleeping. Each has an inner spin
  lock, here \<open>L_sleep\<close> of its name.
\<close>

record sleeplock =
  sl_locked :: bool
  sl_pid :: int

record sleeplocks = procs +
  slocks :: "sleeplockid \<Rightarrow> sleeplock"

definition set_slock :: "sleeplockid \<Rightarrow> sleeplock \<Rightarrow> ('z sleeplocks_scheme, unit) op" where
  "set_slock lk v = modify (\<lambda>s. s\<lparr>slocks := (slocks s)(lk := v)\<rparr>)"

definition initsleeplock :: "sleeplockid \<Rightarrow> ('z sleeplocks_scheme, unit) op" where
  "initsleeplock lk =
     bind (initlock (L_sleep lk)) (\<lambda>_.
     set_slock lk \<lparr>sl_locked = False, sl_pid = 0\<rparr>)"

definition acquiresleep :: "sleeplockid \<Rightarrow> ('z sleeplocks_scheme, unit) op" where
  "acquiresleep lk =
     bind (acquire (L_sleep lk)) (\<lambda>_.
     bind (sleep_while (\<lambda>s. sl_locked (slocks s lk)) (C_sleeplock lk) (L_sleep lk)) (\<lambda>_.
     bind curp (\<lambda>p.
     bind (proc_of p pid) (\<lambda>n.
     bind (set_slock lk \<lparr>sl_locked = True, sl_pid = n\<rparr>) (\<lambda>_.
     release (L_sleep lk))))))"

definition releasesleep :: "sleeplockid \<Rightarrow> ('z sleeplocks_scheme, unit) op" where
  "releasesleep lk =
     bind (acquire (L_sleep lk)) (\<lambda>_.
     bind (set_slock lk \<lparr>sl_locked = False, sl_pid = 0\<rparr>) (\<lambda>_.
     bind (wakeup (C_sleeplock lk)) (\<lambda>_.
     release (L_sleep lk))))"

definition holdingsleep :: "sleeplockid \<Rightarrow> ('z sleeplocks_scheme, bool) op" where
  "holdingsleep lk =
     bind (acquire (L_sleep lk)) (\<lambda>_.
     bind (reads (\<lambda>s. sl_locked (slocks s lk))) (\<lambda>l.
     bind (if l then
             bind curp (\<lambda>p.
             bind (proc_of p pid) (\<lambda>n.
             reads (\<lambda>s. sl_pid (slocks s lk) = n)))
           else ret False) (\<lambda>r.
     bind (release (L_sleep lk)) (\<lambda>_.
     ret r))))"

end
