(* ===== verification/Console.thy ===== *)
theory Console
  imports Sleeplock
begin

unbundle bit_operations_syntax

text \<open>
  The console: \<open>kernel/uart.c\<close>, \<open>kernel/printf.c\<close> and \<open>kernel/console.c\<close>, with
  \<open>procdump\<close> of \<open>kernel/proc.c\<close>, and \<open>kernel/plic.c\<close>, which like the UART driver
  consists of accesses to device registers.
\<close>

section \<open>Device registers\<close>

text \<open>
  The accesses to memory-mapped device registers are recorded in \<open>iolog\<close>, the latest
  first. What a device answers to a read depends on all accesses so far; \<open>iodev\<close> is that
  function, a parameter of the model that no operation changes.
\<close>

datatype io = IoRead addr uint64 | IoWrite addr uint64

record console = sleeplocks +
  iolog :: "io list"
  iodev :: "io list \<Rightarrow> addr \<Rightarrow> uint64"
  uart_tx_buf :: "nat \<Rightarrow> uchar"
  uart_tx_w :: nat
  uart_tx_r :: nat
  cons_buf :: "nat \<Rightarrow> uchar"
  cons_r :: uint
  cons_w :: uint
  cons_e :: uint
  pr_locking :: bool
  panicked :: bool

definition mmio_read :: "addr \<Rightarrow> ('z console_scheme, uint64) op" where
  "mmio_read a =
     bind (reads (\<lambda>s. iodev s (iolog s) a)) (\<lambda>v.
     bind (modify (\<lambda>s. s\<lparr>iolog := IoRead a v # iolog s\<rparr>)) (\<lambda>_.
     ret v))"

definition mmio_write :: "addr \<Rightarrow> uint64 \<Rightarrow> ('z console_scheme, unit) op" where
  "mmio_write a v = modify (\<lambda>s. s\<lparr>iolog := IoWrite a v # iolog s\<rparr>)"

section \<open>UART\<close>

definition RHR :: uint64 where "RHR = 0"
definition THR :: uint64 where "THR = 0"
definition IER :: uint64 where "IER = 1"
definition IER_TX_ENABLE :: uchar where "IER_TX_ENABLE = 1"
definition IER_RX_ENABLE :: uchar where "IER_RX_ENABLE = 2"
definition FCR :: uint64 where "FCR = 2"
definition FCR_FIFO_ENABLE :: uchar where "FCR_FIFO_ENABLE = 1"
definition FCR_FIFO_CLEAR :: uchar where "FCR_FIFO_CLEAR = 6"
definition LCR :: uint64 where "LCR = 3"
definition LCR_EIGHT_BITS :: uchar where "LCR_EIGHT_BITS = 3"
definition LCR_BAUD_LATCH :: uchar where "LCR_BAUD_LATCH = 128"
definition LSR :: uint64 where "LSR = 5"
definition LSR_RX_READY :: uchar where "LSR_RX_READY = 1"
definition LSR_TX_IDLE :: uchar where "LSR_TX_IDLE = 32"
definition UART_TX_BUF_SIZE :: nat where "UART_TX_BUF_SIZE = 32"

definition ReadReg :: "uint64 \<Rightarrow> ('z console_scheme, uchar) op" where
  "ReadReg r = bind (mmio_read (UART0 + r)) (\<lambda>v. ret (ucast v))"

definition WriteReg :: "uint64 \<Rightarrow> uchar \<Rightarrow> ('z console_scheme, unit) op" where
  "WriteReg r v = mmio_write (UART0 + r) (ucast v)"

definition uartinit :: "('z console_scheme, unit) op" where
  "uartinit =
     bind (WriteReg IER 0) (\<lambda>_.
     bind (WriteReg LCR LCR_BAUD_LATCH) (\<lambda>_.
     bind (WriteReg 0 3) (\<lambda>_.
     bind (WriteReg 1 0) (\<lambda>_.
     bind (WriteReg LCR LCR_EIGHT_BITS) (\<lambda>_.
     bind (WriteReg FCR (FCR_FIFO_ENABLE OR FCR_FIFO_CLEAR)) (\<lambda>_.
     bind (WriteReg IER (IER_TX_ENABLE OR IER_RX_ENABLE)) (\<lambda>_.
     initlock L_uart_tx)))))))"

text \<open>
  The loop of \<open>uartstart\<close>. Each round takes a character out of the buffer of
  \<open>UART_TX_BUF_SIZE\<close> slots, so it leaves the loop before that many rounds.
\<close>

fun uartstart_loop :: "nat \<Rightarrow> ('z console_scheme, unit) op" where
  "uartstart_loop 0 = spin"
| "uartstart_loop (Suc n) =
     bind (reads (\<lambda>s. uart_tx_w s = uart_tx_r s)) (\<lambda>empty.
     if empty then ret () else
     bind (ReadReg LSR) (\<lambda>lsr.
     if lsr AND LSR_TX_IDLE = 0 then ret () else
     bind (reads (\<lambda>s. uart_tx_buf s (uart_tx_r s))) (\<lambda>c.
     bind (modify (\<lambda>s. s\<lparr>uart_tx_r := (uart_tx_r s + 1) mod UART_TX_BUF_SIZE\<rparr>)) (\<lambda>_.
     bind (wakeup C_uart_tx_r) (\<lambda>_.
     bind (WriteReg THR c) (\<lambda>_.
     uartstart_loop n))))))"

definition uartstart :: "('z console_scheme, unit) op" where
  "uartstart = uartstart_loop UART_TX_BUF_SIZE"

definition uartputc_try :: "uchar \<Rightarrow> ('z console_scheme, unit option) op" where
  "uartputc_try c =
     bind (reads (\<lambda>s. (uart_tx_w s + 1) mod UART_TX_BUF_SIZE = uart_tx_r s)) (\<lambda>full.
     if full then ret None else
     bind (modify (\<lambda>s. s\<lparr>uart_tx_buf := (uart_tx_buf s)(uart_tx_w s := c)\<rparr>)) (\<lambda>_.
     bind (modify (\<lambda>s. s\<lparr>uart_tx_w := (uart_tx_w s + 1) mod UART_TX_BUF_SIZE\<rparr>)) (\<lambda>_.
     bind uartstart (\<lambda>_.
     bind (release L_uart_tx) (\<lambda>_.
     ret (Some ()))))))"

definition uartputc :: "uchar \<Rightarrow> ('z console_scheme, unit) op" where
  "uartputc c =
     bind (acquire L_uart_tx) (\<lambda>_.
     bind (reads panicked) (\<lambda>pk.
     if pk then spin else
     sleep_until (uartputc_try c) C_uart_tx_r L_uart_tx))"

text \<open>The loop that polls LSR until the UART is ready; \<open>patience\<close> bounds the polls.\<close>

fun poll_tx_idle :: "nat \<Rightarrow> ('z console_scheme, unit) op" where
  "poll_tx_idle 0 = spin"
| "poll_tx_idle (Suc n) =
     bind (ReadReg LSR) (\<lambda>lsr. if lsr AND LSR_TX_IDLE = 0 then poll_tx_idle n else ret ())"

definition uartputc_sync :: "uchar \<Rightarrow> ('z console_scheme, unit) op" where
  "uartputc_sync c =
     bind push_off (\<lambda>_.
     bind (reads panicked) (\<lambda>pk.
     if pk then spin else
     bind (reads patience) (\<lambda>n.
     bind (poll_tx_idle (Suc n)) (\<lambda>_.
     bind (WriteReg THR c) (\<lambda>_.
     pop_off)))))"

definition uartgetc :: "('z console_scheme, int) op" where
  "uartgetc =
     bind (ReadReg LSR) (\<lambda>lsr.
     if lsr AND 1 \<noteq> 0 then bind (ReadReg RHR) (\<lambda>c. ret (uint c)) else ret (-1))"

section \<open>printf\<close>

definition BACKSPACE :: int where "BACKSPACE = 0x100"

text \<open>\<open>consputc\<close> takes an \<open>int\<close>; \<open>uartputc_sync\<close> writes its low byte to THR.\<close>

definition consputc :: "int \<Rightarrow> ('z console_scheme, unit) op" where
  "consputc c =
     (if c = BACKSPACE then
        bind (uartputc_sync 8) (\<lambda>_.
        bind (uartputc_sync 32) (\<lambda>_.
        uartputc_sync 8))
      else uartputc_sync (word_of_int c))"

text \<open>Characters of a C string literal, without its null byte.\<close>

definition ascii :: "string \<Rightarrow> uchar list" where
  "ascii cs = map of_char cs"

definition putchars :: "uchar list \<Rightarrow> ('z console_scheme, unit) op" where
  "putchars cs = for_each cs (\<lambda>c. consputc (uint c))"

definition digits :: "nat \<Rightarrow> uchar" where
  "digits i = ascii ''0123456789abcdef'' ! i"

text \<open>
  The digits that \<open>printint\<close> stores in \<open>buf\<close>, the least significant first, and the
  whole contents of \<open>buf\<close>. The code calls it with base 10 or 16.
\<close>

function printint_digits :: "nat \<Rightarrow> nat \<Rightarrow> uchar list" where
  "printint_digits base x =
     digits (x mod base) # (if base \<le> 1 \<or> x div base = 0 then [] else printint_digits base (x div base))"
  by pat_completeness auto

termination printint_digits
proof (relation "measure snd", goal_cases)
  case (2 base x)
  then have "1 < base" by simp
  moreover have "0 < x" using 2 by (cases x) auto
  ultimately show ?case by (simp add: div_less_dividend)
qed simp

declare printint_digits.simps [simp del]

definition printint_buf :: "32 word \<Rightarrow> nat \<Rightarrow> bool \<Rightarrow> uchar list" where
  "printint_buf xx base sign =
     (let neg = sign \<and> xx <s 0;
          x = (if neg then - xx else xx)
      in printint_digits base (unat x) @ (if neg then [of_char (CHR ''-'')] else []))"

definition printint :: "32 word \<Rightarrow> nat \<Rightarrow> bool \<Rightarrow> ('z console_scheme, unit) op" where
  "printint xx base sign = putchars (rev (printint_buf xx base sign))"

definition printptr :: "uint64 \<Rightarrow> ('z console_scheme, unit) op" where
  "printptr x =
     bind (putchars (ascii ''0x'')) (\<lambda>_.
     for_each [0..<16] (\<lambda>i. consputc (uint (digits (unat (drop_bit 60 (push_bit (4 * i) x)))))))"

text \<open>
  The variable arguments of \<open>printf\<close>. Reading an argument that is not there or of
  another type has no defined meaning in C; no call in the kernel does it.
\<close>

datatype karg = Aint "32 word" | Aptr uint64 | Astr "uchar list option"

fun printf_items :: "uchar list \<Rightarrow> karg list \<Rightarrow> ('z console_scheme, unit) op" where
  "printf_items [] ap = ret ()"
| "printf_items [c] ap = (if c \<noteq> of_char (CHR ''%'') then consputc (uint c) else ret ())"
| "printf_items (c # d # fmt) ap =
     (if c \<noteq> of_char (CHR ''%'') then
        bind (consputc (uint c)) (\<lambda>_. printf_items (d # fmt) ap)
      else if d = of_char (CHR ''d'') then
        (case ap of Aint n # ap' \<Rightarrow> bind (printint n 10 True) (\<lambda>_. printf_items fmt ap')
         | _ \<Rightarrow> panic ''va_arg'')
      else if d = of_char (CHR ''x'') then
        (case ap of Aint n # ap' \<Rightarrow> bind (printint n 16 True) (\<lambda>_. printf_items fmt ap')
         | _ \<Rightarrow> panic ''va_arg'')
      else if d = of_char (CHR ''p'') then
        (case ap of Aptr x # ap' \<Rightarrow> bind (printptr x) (\<lambda>_. printf_items fmt ap')
         | _ \<Rightarrow> panic ''va_arg'')
      else if d = of_char (CHR ''s'') then
        (case ap of
           Astr cs # ap' \<Rightarrow>
             bind (putchars (case cs of None \<Rightarrow> ascii ''(null)'' | Some cs \<Rightarrow> cs)) (\<lambda>_.
             printf_items fmt ap')
         | _ \<Rightarrow> panic ''va_arg'')
      else if d = of_char (CHR ''%'') then
        bind (consputc (uint d)) (\<lambda>_. printf_items fmt ap)
      else
        bind (consputc (uint c)) (\<lambda>_. bind (consputc (uint d)) (\<lambda>_. printf_items fmt ap)))"

definition printf :: "string \<Rightarrow> karg list \<Rightarrow> ('z console_scheme, unit) op" where
  "printf fmt ap =
     bind (reads pr_locking) (\<lambda>locking.
     bind (if locking then acquire L_pr else ret ()) (\<lambda>_.
     bind (printf_items (ascii fmt) ap) (\<lambda>_.
     if locking then release L_pr else ret ())))"

definition info_with_color :: "string \<Rightarrow> karg list \<Rightarrow> ('z console_scheme, unit) op" where
  "info_with_color fmt ap =
     bind (reads pr_locking) (\<lambda>locking.
     bind (if locking then acquire L_pr else ret ()) (\<lambda>_.
     bind (putchars (27 # ascii ''[0;36m'')) (\<lambda>_.
     bind (putchars (ascii ''[INFO] '')) (\<lambda>_.
     bind (printf_items (ascii fmt) ap) (\<lambda>_.
     bind (putchars (27 # ascii ''[0m'')) (\<lambda>_.
     if locking then release L_pr else ret ()))))))"

definition printfinit :: "('z console_scheme, unit) op" where
  "printfinit =
     bind (initlock L_pr) (\<lambda>_.
     modify (\<lambda>s. s\<lparr>pr_locking := True\<rparr>))"

text \<open>The characters of a null-terminated array of at most \<open>n\<close> bytes.\<close>

fun chars_upto :: "nat \<Rightarrow> cstr \<Rightarrow> uchar list" where
  "chars_upto 0 p = []"
| "chars_upto (Suc n) p = (if p 0 = 0 then [] else p 0 # chars_upto n (\<lambda>i. p (Suc i)))"

fun procdump_state :: "procstate \<Rightarrow> string" where
  "procdump_state UNUSED = ''unused''"
| "procdump_state SLEEPING = ''sleep ''"
| "procdump_state RUNNABLE = ''runble''"
| "procdump_state RUNNING = ''run   ''"
| "procdump_state ZOMBIE = ''zombie''"

text \<open>A process name is an array of 16 bytes that \<open>safestrcpy\<close> ends with a null byte.\<close>

definition procdump :: "('z console_scheme, unit) op" where
  "procdump =
     bind (printf [CHR 0x0A] []) (\<lambda>_.
     for_each [0..<NPROC] (\<lambda>p.
       bind (proc_of p id) (\<lambda>q.
       if pstate q = UNUSED then ret () else
       bind (printf ''%d %s %s'' [Aint (word_of_int (pid q)), Astr (Some (ascii (procdump_state (pstate q)))),
               Astr (Some (chars_upto 16 (pname q)))]) (\<lambda>_.
       printf [CHR 0x0A] []))))"

section \<open>Console\<close>

definition INPUT_BUF :: uint where "INPUT_BUF = 128"

text \<open>Control-x.\<close>

definition C_ctrl :: "char \<Rightarrow> int" where
  "C_ctrl x = of_char x - of_char (CHR ''@'')"

text \<open>
  The loop of \<open>consolewrite\<close> from \<open>i\<close> on, for \<open>k\<close> more characters; a kernel source is
  the array \<open>ksrc\<close>.
\<close>

fun consolewrite_from :: "bool \<Rightarrow> uint64 \<Rightarrow> cstr \<Rightarrow> nat \<Rightarrow> nat \<Rightarrow> ('z console_scheme, nat) op" where
  "consolewrite_from user_src src ksrc i 0 = ret i"
| "consolewrite_from user_src src ksrc i (Suc k) =
     bind (either_copyin (\<lambda>_. 0) user_src (src + of_nat i) (\<lambda>j. ksrc (i + j)) 1) (\<lambda>(r, cbuf).
     if r = -1 then ret i else
     bind (uartputc (cbuf 0)) (\<lambda>_.
     consolewrite_from user_src src ksrc (Suc i) k))"

definition consolewrite :: "bool \<Rightarrow> uint64 \<Rightarrow> cstr \<Rightarrow> int \<Rightarrow> ('z console_scheme, int) op" where
  "consolewrite user_src src ksrc n =
     bind (acquire L_cons) (\<lambda>_.
     bind (consolewrite_from user_src src ksrc 0 (nat n)) (\<lambda>i.
     bind (release L_cons) (\<lambda>_.
     ret (int i))))"

text \<open>The inner loop of \<open>consoleread\<close>; the result says whether the process was killed.\<close>

definition consoleread_wait :: "('z console_scheme, bool) op" where
  "consoleread_wait =
     sleep_until
       (bind (reads (\<lambda>s. cons_r s = cons_w s)) (\<lambda>empty.
        if \<not> empty then ret (Some False) else
        bind curp (\<lambda>p.
        bind (proc_of p killed) (\<lambda>k.
        if k then bind (release L_cons) (\<lambda>_. ret (Some True)) else ret None))))
       C_cons_r L_cons"

text \<open>
  The outer loop with \<open>n\<close> characters left to read, \<open>target\<close> asked for and \<open>k\<close> stored; the
  result is None when the process was killed, and else the final \<open>n\<close>. For a kernel
  destination \<open>kbuf\<close> is the array.
\<close>

fun consoleread_from :: "bool \<Rightarrow> uint64 \<Rightarrow> nat \<Rightarrow> nat \<Rightarrow> nat \<Rightarrow> cstr \<Rightarrow> ('z console_scheme, nat option \<times> cstr) op" where
  "consoleread_from user_dst dst target k 0 kbuf = ret (Some 0, kbuf)"
| "consoleread_from user_dst dst target k (Suc n) kbuf =
     bind consoleread_wait (\<lambda>dead.
     if dead then ret (None, kbuf) else
     bind (reads (\<lambda>s. cons_buf s (unat (cons_r s mod INPUT_BUF)))) (\<lambda>c.
     bind (modify (\<lambda>s. s\<lparr>cons_r := cons_r s + 1\<rparr>)) (\<lambda>_.
     if uint c = C_ctrl (CHR ''D'') then
       bind (if Suc n < target then modify (\<lambda>s. s\<lparr>cons_r := cons_r s - 1\<rparr>) else ret ()) (\<lambda>_.
       ret (Some (Suc n), kbuf))
     else
       bind (either_copyout user_dst dst kbuf k (\<lambda>_. c) 1) (\<lambda>(r, kbuf').
       if r = -1 then ret (Some (Suc n), kbuf')
       else if c = 10 then ret (Some n, kbuf')
       else consoleread_from user_dst (dst + 1) target (Suc k) n kbuf'))))"

definition consoleread :: "bool \<Rightarrow> uint64 \<Rightarrow> cstr \<Rightarrow> int \<Rightarrow> ('z console_scheme, int \<times> cstr) op" where
  "consoleread user_dst dst kbuf n =
     bind (acquire L_cons) (\<lambda>_.
     bind (consoleread_from user_dst dst (nat n) 0 (nat n) kbuf) (\<lambda>(r, kbuf').
     case r of
       None \<Rightarrow> ret (-1, kbuf')
     | Some m \<Rightarrow> bind (release L_cons) (\<lambda>_. ret (int (nat n) - int m, kbuf'))))"

text \<open>
  Kill line: the loop moves \<open>cons.e\<close> back to \<open>cons.w\<close> or to the last newline; it makes at
  most \<open>cons.e - cons.w\<close> rounds.
\<close>

fun kill_line :: "nat \<Rightarrow> ('z console_scheme, unit) op" where
  "kill_line 0 = ret ()"
| "kill_line (Suc n) =
     bind (reads (\<lambda>s. cons_e s \<noteq> cons_w s \<and> cons_buf s (unat ((cons_e s - 1) mod INPUT_BUF)) \<noteq> 10)) (\<lambda>go.
     if \<not> go then ret () else
     bind (modify (\<lambda>s. s\<lparr>cons_e := cons_e s - 1\<rparr>)) (\<lambda>_.
     bind (consputc BACKSPACE) (\<lambda>_.
     kill_line n)))"

definition consoleintr :: "int \<Rightarrow> ('z console_scheme, unit) op" where
  "consoleintr c =
     bind (acquire L_cons) (\<lambda>_.
     bind (if c = C_ctrl (CHR ''P'') then procdump
       else if c = C_ctrl (CHR ''U'') then
         bind (reads (\<lambda>s. unat (cons_e s - cons_w s))) kill_line
       else if c = C_ctrl (CHR ''H'') \<or> c = 0x7f then
         bind (reads (\<lambda>s. cons_e s \<noteq> cons_w s)) (\<lambda>more.
         if more then
           bind (modify (\<lambda>s. s\<lparr>cons_e := cons_e s - 1\<rparr>)) (\<lambda>_.
           consputc BACKSPACE)
         else ret ())
       else
         bind (reads (\<lambda>s. c \<noteq> 0 \<and> cons_e s - cons_r s < INPUT_BUF)) (\<lambda>room.
         if \<not> room then ret () else
         let c' = (if c = 13 then 10 else c) in
         bind (consputc c') (\<lambda>_.
         bind (modify (\<lambda>s. s\<lparr>cons_buf := (cons_buf s)(unat (cons_e s mod INPUT_BUF) := word_of_int c'),
                             cons_e := cons_e s + 1\<rparr>)) (\<lambda>_.
         bind (reads (\<lambda>s. c' = 10 \<or> c' = C_ctrl (CHR ''D'') \<or> cons_e s = cons_r s + INPUT_BUF)) (\<lambda>line.
         if line then
           bind (modify (\<lambda>s. s\<lparr>cons_w := cons_e s\<rparr>)) (\<lambda>_.
           wakeup C_cons_r)
         else ret ()))))) (\<lambda>_.
     release L_cons))"

text \<open>
  The interrupt handler of the UART. The loop ends when no input is waiting;
  \<open>patience\<close> bounds the characters one interrupt takes.
\<close>

fun uartintr_input :: "nat \<Rightarrow> ('z console_scheme, unit) op" where
  "uartintr_input 0 = spin"
| "uartintr_input (Suc n) =
     bind uartgetc (\<lambda>c.
     if c = -1 then ret () else
     bind (consoleintr c) (\<lambda>_. uartintr_input n))"

definition uartintr :: "('z console_scheme, unit) op" where
  "uartintr =
     bind (reads patience) (\<lambda>n.
     bind (uartintr_input (Suc n)) (\<lambda>_.
     bind (acquire L_uart_tx) (\<lambda>_.
     bind uartstart (\<lambda>_.
     release L_uart_tx))))"

section \<open>PLIC\<close>

definition UART0_IRQ :: int where "UART0_IRQ = 10"
definition VIRTIO0_IRQ :: int where "VIRTIO0_IRQ = 1"

definition PLIC_SENABLE :: "nat \<Rightarrow> addr" where
  "PLIC_SENABLE hart = PLIC + 0x2080 + of_nat hart * 0x100"

definition PLIC_SPRIORITY :: "nat \<Rightarrow> addr" where
  "PLIC_SPRIORITY hart = PLIC + 0x201000 + of_nat hart * 0x2000"

definition PLIC_SCLAIM :: "nat \<Rightarrow> addr" where
  "PLIC_SCLAIM hart = PLIC + 0x201004 + of_nat hart * 0x2000"

definition plicinit :: "('z console_scheme, unit) op" where
  "plicinit =
     bind (mmio_write (PLIC + word_of_int UART0_IRQ * 4) 1) (\<lambda>_.
     mmio_write (PLIC + word_of_int VIRTIO0_IRQ * 4) 1)"

definition plicinithart :: "('z console_scheme, unit) op" where
  "plicinithart =
     bind cpuid (\<lambda>hart.
     bind (mmio_write (PLIC_SENABLE hart) (push_bit (nat UART0_IRQ) 1 OR push_bit (nat VIRTIO0_IRQ) 1)) (\<lambda>_.
     mmio_write (PLIC_SPRIORITY hart) 0))"

definition plic_claim :: "('z console_scheme, int) op" where
  "plic_claim =
     bind cpuid (\<lambda>hart.
     bind (mmio_read (PLIC_SCLAIM hart)) (\<lambda>irq.
     ret (sint (ucast irq :: 32 word))))"

definition plic_complete :: "int \<Rightarrow> ('z console_scheme, unit) op" where
  "plic_complete irq =
     bind cpuid (\<lambda>hart.
     mmio_write (PLIC_SCLAIM hart) (ucast (word_of_int irq :: 32 word)))"

end
