(* ===== verification/Bio.thy ===== *)
theory Bio
  imports Console
begin

unbundle bit_operations_syntax

text \<open>
  \<open>kernel/bio.c\<close>: the buffer cache, a doubly linked list of \<open>NBUF\<close> buffers through a
  head, over a disk of blocks of \<open>BSIZE\<close> bytes.
\<close>

definition NBUF :: nat where "NBUF = 30"
definition BSIZE :: uint where "BSIZE = 1024"

text \<open>
  A \<open>struct buf *\<close> is an index; \<open>bcache.head\<close> is the index \<open>NBUF\<close>, after the buffers.
\<close>

definition HEAD :: nat where "HEAD = NBUF"

record buf =
  valid :: bool
  bdisk :: bool
  bdev :: uint
  blockno :: uint
  refcnt :: uint
  prev :: nat
  "next" :: nat
  bdata :: cstr

text \<open>
  The disk, by block number, and the list of writes made to it, the latest first, from
  which the states it goes through can be read off.
\<close>

record bio = console +
  bcache :: "nat \<Rightarrow> buf"
  disk :: "nat \<Rightarrow> cstr"
  dwrites :: "(nat \<times> cstr) list"

definition buf_of :: "nat \<Rightarrow> (buf \<Rightarrow> 'a) \<Rightarrow> ('z bio_scheme, 'a) op" where
  "buf_of b f = reads (\<lambda>s. f (bcache s b))"

definition update_buf :: "nat \<Rightarrow> (buf \<Rightarrow> buf) \<Rightarrow> ('z bio_scheme, unit) op" where
  "update_buf b f = modify (\<lambda>s. s\<lparr>bcache := (bcache s)(b := f (bcache s b))\<rparr>)"

definition binit :: "('z bio_scheme, unit) op" where
  "binit =
     bind (initlock L_bcache) (\<lambda>_.
     bind (update_buf HEAD (\<lambda>h. h\<lparr>prev := HEAD\<rparr>)) (\<lambda>_.
     bind (update_buf HEAD (\<lambda>h. h\<lparr>next := HEAD\<rparr>)) (\<lambda>_.
     for_each [0..<NBUF] (\<lambda>b.
       bind (buf_of HEAD next) (\<lambda>hn.
       bind (update_buf b (\<lambda>q. q\<lparr>next := hn\<rparr>)) (\<lambda>_.
       bind (update_buf b (\<lambda>q. q\<lparr>prev := HEAD\<rparr>)) (\<lambda>_.
       bind (initsleeplock (SL_buf b)) (\<lambda>_.
       bind (buf_of HEAD next) (\<lambda>hn.
       bind (update_buf hn (\<lambda>q. q\<lparr>prev := b\<rparr>)) (\<lambda>_.
       update_buf HEAD (\<lambda>h. h\<lparr>next := b\<rparr>)))))))))))"

text \<open>
  The two loops of \<open>bget\<close> follow the links from a buffer until the head. The number
  bounds the steps; the list has \<open>NBUF\<close> buffers.
\<close>

fun bget_cached :: "nat \<Rightarrow> nat \<Rightarrow> uint \<Rightarrow> uint \<Rightarrow> ('z bio_scheme, nat option) op" where
  "bget_cached 0 b dev bno = spin"
| "bget_cached (Suc n) b dev bno =
     (if b = HEAD then ret None else
      bind (buf_of b (\<lambda>q. bdev q = dev \<and> blockno q = bno)) (\<lambda>hit.
      if hit then ret (Some b) else
      bind (buf_of b next) (\<lambda>nx. bget_cached n nx dev bno)))"

fun bget_unused :: "nat \<Rightarrow> nat \<Rightarrow> ('z bio_scheme, nat option) op" where
  "bget_unused 0 b = spin"
| "bget_unused (Suc n) b =
     (if b = HEAD then ret None else
      bind (buf_of b (\<lambda>q. refcnt q = 0)) (\<lambda>hit.
      if hit then ret (Some b) else
      bind (buf_of b prev) (\<lambda>pv. bget_unused n pv)))"

definition bget :: "uint \<Rightarrow> uint \<Rightarrow> ('z bio_scheme, nat) op" where
  "bget dev bno =
     bind (acquire L_bcache) (\<lambda>_.
     bind (buf_of HEAD next) (\<lambda>b0.
     bind (bget_cached (Suc NBUF) b0 dev bno) (\<lambda>r.
     case r of
       Some b \<Rightarrow>
         bind (update_buf b (\<lambda>q. q\<lparr>refcnt := refcnt q + 1\<rparr>)) (\<lambda>_.
         bind (release L_bcache) (\<lambda>_.
         bind (acquiresleep (SL_buf b)) (\<lambda>_.
         ret b)))
     | None \<Rightarrow>
         bind (buf_of HEAD prev) (\<lambda>b1.
         bind (bget_unused (Suc NBUF) b1) (\<lambda>r.
         case r of
           Some b \<Rightarrow>
             bind (update_buf b (\<lambda>q. q\<lparr>bdev := dev, blockno := bno, valid := False, refcnt := 1\<rparr>)) (\<lambda>_.
             bind (release L_bcache) (\<lambda>_.
             bind (acquiresleep (SL_buf b)) (\<lambda>_.
             ret b)))
         | None \<Rightarrow> panic ''bget: no buffers'')))))"

text \<open>
  What \<open>virtio_disk_rw\<close> does for its caller: transfer the block between the buffer and
  the disk. The driver addresses the disk by sectors of 512 bytes, two for a block, and
  computes the sector number in 32 bits.
\<close>

definition disk_block :: "uint \<Rightarrow> nat" where
  "disk_block bno = unat (bno * 2) div 2"

definition disk_rw :: "nat \<Rightarrow> bool \<Rightarrow> ('z bio_scheme, unit) op" where
  "disk_rw b write =
     bind (buf_of b (\<lambda>q. disk_block (blockno q))) (\<lambda>k.
     if write then
       bind (buf_of b bdata) (\<lambda>d.
       modify (\<lambda>s. s\<lparr>disk := (disk s)(k := d), dwrites := (k, d) # dwrites s\<rparr>))
     else
       bind (reads (\<lambda>s. disk s k)) (\<lambda>d.
       update_buf b (\<lambda>q. q\<lparr>bdata := d\<rparr>)))"

definition bread :: "uint \<Rightarrow> uint \<Rightarrow> ('z bio_scheme, nat) op" where
  "bread dev bno =
     bind (bget dev bno) (\<lambda>b.
     bind (buf_of b valid) (\<lambda>v.
     bind (if \<not> v then
             bind (disk_rw b False) (\<lambda>_.
             update_buf b (\<lambda>q. q\<lparr>valid := True\<rparr>))
           else ret ()) (\<lambda>_.
     ret b)))"

definition bwrite :: "nat \<Rightarrow> ('z bio_scheme, unit) op" where
  "bwrite b =
     bind (holdingsleep (SL_buf b)) (\<lambda>h.
     if \<not> h then panic ''bwrite'' else
     disk_rw b True)"

definition brelse :: "nat \<Rightarrow> ('z bio_scheme, unit) op" where
  "brelse b =
     bind (holdingsleep (SL_buf b)) (\<lambda>h.
     if \<not> h then panic ''brelse'' else
     bind (releasesleep (SL_buf b)) (\<lambda>_.
     bind (acquire L_bcache) (\<lambda>_.
     bind (update_buf b (\<lambda>q. q\<lparr>refcnt := refcnt q - 1\<rparr>)) (\<lambda>_.
     bind (buf_of b (\<lambda>q. refcnt q = 0)) (\<lambda>z.
     bind (if z then
             bind (buf_of b prev) (\<lambda>pv.
             bind (buf_of b next) (\<lambda>nx.
             bind (update_buf nx (\<lambda>q. q\<lparr>prev := pv\<rparr>)) (\<lambda>_.
             bind (buf_of b prev) (\<lambda>pv.
             bind (buf_of b next) (\<lambda>nx.
             bind (update_buf pv (\<lambda>q. q\<lparr>next := nx\<rparr>)) (\<lambda>_.
             bind (buf_of HEAD next) (\<lambda>hn.
             bind (update_buf b (\<lambda>q. q\<lparr>next := hn\<rparr>)) (\<lambda>_.
             bind (update_buf b (\<lambda>q. q\<lparr>prev := HEAD\<rparr>)) (\<lambda>_.
             bind (buf_of HEAD next) (\<lambda>hn.
             bind (update_buf hn (\<lambda>q. q\<lparr>prev := b\<rparr>)) (\<lambda>_.
             update_buf HEAD (\<lambda>h. h\<lparr>next := b\<rparr>))))))))))))
           else ret ()) (\<lambda>_.
     release L_bcache))))))"

definition bpin :: "nat \<Rightarrow> ('z bio_scheme, unit) op" where
  "bpin b =
     bind (acquire L_bcache) (\<lambda>_.
     bind (update_buf b (\<lambda>q. q\<lparr>refcnt := refcnt q + 1\<rparr>)) (\<lambda>_.
     release L_bcache))"

definition bunpin :: "nat \<Rightarrow> ('z bio_scheme, unit) op" where
  "bunpin b =
     bind (acquire L_bcache) (\<lambda>_.
     bind (update_buf b (\<lambda>q. q\<lparr>refcnt := refcnt q - 1\<rparr>)) (\<lambda>_.
     release L_bcache))"

section \<open>Integers stored in blocks\<close>

text \<open>Little-endian 16-bit and 32-bit values at a byte offset, as the code casts them.\<close>

definition ld16 :: "cstr \<Rightarrow> nat \<Rightarrow> ushort" where
  "ld16 d i = ucast (d i) OR push_bit 8 (ucast (d (i + 1)))"

definition ld32 :: "cstr \<Rightarrow> nat \<Rightarrow> uint" where
  "ld32 d i = ucast (d i) OR push_bit 8 (ucast (d (i + 1))) OR push_bit 16 (ucast (d (i + 2)))
     OR push_bit 24 (ucast (d (i + 3)))"

definition st16 :: "cstr \<Rightarrow> nat \<Rightarrow> ushort \<Rightarrow> cstr" where
  "st16 d i v = d(i := ucast v, i + 1 := ucast (drop_bit 8 v))"

definition st32 :: "cstr \<Rightarrow> nat \<Rightarrow> uint \<Rightarrow> cstr" where
  "st32 d i v = d(i := ucast v, i + 1 := ucast (drop_bit 8 v), i + 2 := ucast (drop_bit 16 v),
     i + 3 := ucast (drop_bit 24 v))"

end
