(* ===== verification/Log.thy ===== *)
theory Log
  imports Bio
begin

text \<open>
  \<open>kernel/log.c\<close>: the redo log that makes file system calls atomic with respect to
  crashes.
\<close>

definition LOGSIZE :: int where "LOGSIZE = 30"
definition MAXOPBLOCKS :: int where "MAXOPBLOCKS = 10"

text \<open>
  \<open>struct superblock\<close> of \<open>kernel/fs.h\<close> and \<open>struct log\<close>, with \<open>lh.n\<close> as \<open>lh_n\<close> and
  \<open>lh.block\<close> as \<open>lh_block\<close>.
\<close>

record superblock =
  sb_magic :: uint
  sb_size :: uint
  sb_nblocks :: uint
  sb_ninodes :: uint
  sb_nlog :: uint
  sb_logstart :: uint
  sb_inodestart :: uint
  sb_bmapstart :: uint

record log = bio +
  log_start :: int
  log_size :: int
  outstanding :: int
  committing :: bool
  log_dev :: uint
  lh_n :: int
  lh_block :: "nat \<Rightarrow> uint"

text \<open>One round of the loop of \<open>install_trans\<close>.\<close>

definition install_block :: "nat \<Rightarrow> ('z log_scheme, unit) op" where
  "install_block tail =
     bind (reads log_dev) (\<lambda>dev.
     bind (reads log_start) (\<lambda>start.
     bind (bread dev (word_of_int (start + int tail + 1))) (\<lambda>lbuf.
     bind (reads (\<lambda>s. lh_block s tail)) (\<lambda>dst.
     bind (bread dev dst) (\<lambda>dbuf.
     bind (buf_of lbuf bdata) (\<lambda>d.
     bind (update_buf dbuf (\<lambda>q. q\<lparr>bdata := kcopy (bdata q) 0 d (unat BSIZE)\<rparr>)) (\<lambda>_.
     bind (bwrite dbuf) (\<lambda>_.
     bind (bunpin dbuf) (\<lambda>_.
     bind (brelse lbuf) (\<lambda>_.
     brelse dbuf))))))))))"

definition install_trans :: "('z log_scheme, unit) op" where
  "install_trans = bind (reads lh_n) (\<lambda>n. for_each [0..<nat n] install_block)"

definition read_head :: "('z log_scheme, unit) op" where
  "read_head =
     bind (reads log_dev) (\<lambda>dev.
     bind (reads log_start) (\<lambda>start.
     bind (bread dev (word_of_int start)) (\<lambda>b.
     bind (buf_of b bdata) (\<lambda>d.
     bind (modify (\<lambda>s. s\<lparr>lh_n := sint (ld32 d 0)\<rparr>)) (\<lambda>_.
     bind (reads lh_n) (\<lambda>n.
     bind (for_each [0..<nat n] (\<lambda>i.
       modify (\<lambda>s. s\<lparr>lh_block := (lh_block s)(i := ld32 d (4 + 4 * i))\<rparr>))) (\<lambda>_.
     brelse b)))))))"

text \<open>The header as \<open>write_head\<close> stores it in the block.\<close>

fun put_head :: "(nat \<Rightarrow> uint) \<Rightarrow> nat \<Rightarrow> cstr \<Rightarrow> cstr" where
  "put_head block 0 d = d"
| "put_head block (Suc i) d = st32 (put_head block i d) (4 + 4 * i) (block i)"

definition write_head :: "('z log_scheme, unit) op" where
  "write_head =
     bind (reads log_dev) (\<lambda>dev.
     bind (reads log_start) (\<lambda>start.
     bind (bread dev (word_of_int start)) (\<lambda>b.
     bind (reads lh_n) (\<lambda>n.
     bind (reads lh_block) (\<lambda>block.
     bind (update_buf b (\<lambda>q. q\<lparr>bdata := st32 (bdata q) 0 (word_of_int n)\<rparr>)) (\<lambda>_.
     bind (update_buf b (\<lambda>q. q\<lparr>bdata := put_head block (nat n) (bdata q)\<rparr>)) (\<lambda>_.
     bind (bwrite b) (\<lambda>_.
     brelse b))))))))"

definition recover_from_log :: "('z log_scheme, unit) op" where
  "recover_from_log =
     bind read_head (\<lambda>_.
     bind install_trans (\<lambda>_.
     bind (modify (\<lambda>s. s\<lparr>lh_n := 0\<rparr>)) (\<lambda>_.
     write_head)))"

text \<open>The size of \<open>struct logheader\<close>, 124 bytes, is below \<open>BSIZE\<close>.\<close>

definition initlog :: "uint \<Rightarrow> superblock \<Rightarrow> ('z log_scheme, unit) op" where
  "initlog dev sb =
     (if 4 + 4 * LOGSIZE \<ge> uint BSIZE then panic ''initlog: too big logheader'' else
      bind (initlock L_log) (\<lambda>_.
      bind (modify (\<lambda>s. s\<lparr>log_start := sint (sb_logstart sb), log_size := sint (sb_nlog sb), log_dev := dev\<rparr>)) (\<lambda>_.
      recover_from_log)))"

definition begin_op_try :: "('z log_scheme, unit option) op" where
  "begin_op_try =
     bind (reads committing) (\<lambda>c.
     if c then ret None else
     bind (reads (\<lambda>s. lh_n s + (outstanding s + 1) * MAXOPBLOCKS > LOGSIZE)) (\<lambda>full.
     if full then ret None else
     bind (modify (\<lambda>s. s\<lparr>outstanding := outstanding s + 1\<rparr>)) (\<lambda>_.
     bind (release L_log) (\<lambda>_.
     ret (Some ())))))"

definition begin_op :: "('z log_scheme, unit) op" where
  "begin_op =
     bind (acquire L_log) (\<lambda>_.
     sleep_until begin_op_try C_log L_log)"

text \<open>One round of the loop of \<open>write_log\<close>.\<close>

definition write_log_block :: "nat \<Rightarrow> ('z log_scheme, unit) op" where
  "write_log_block tail =
     bind (reads log_dev) (\<lambda>dev.
     bind (reads log_start) (\<lambda>start.
     bind (bread dev (word_of_int (start + int tail + 1))) (\<lambda>to.
     bind (reads (\<lambda>s. lh_block s tail)) (\<lambda>src.
     bind (bread dev src) (\<lambda>from.
     bind (buf_of from bdata) (\<lambda>d.
     bind (update_buf to (\<lambda>q. q\<lparr>bdata := kcopy (bdata q) 0 d (unat BSIZE)\<rparr>)) (\<lambda>_.
     bind (bwrite to) (\<lambda>_.
     bind (brelse from) (\<lambda>_.
     brelse to)))))))))"

definition write_log :: "('z log_scheme, unit) op" where
  "write_log = bind (reads lh_n) (\<lambda>n. for_each [0..<nat n] write_log_block)"

definition commit :: "('z log_scheme, unit) op" where
  "commit =
     bind (reads (\<lambda>s. lh_n s > 0)) (\<lambda>some.
     if some then
       bind write_log (\<lambda>_.
       bind write_head (\<lambda>_.
       bind install_trans (\<lambda>_.
       bind (modify (\<lambda>s. s\<lparr>lh_n := 0\<rparr>)) (\<lambda>_.
       write_head))))
     else ret ())"

definition end_op :: "('z log_scheme, unit) op" where
  "end_op =
     bind (acquire L_log) (\<lambda>_.
     bind (modify (\<lambda>s. s\<lparr>outstanding := outstanding s - 1\<rparr>)) (\<lambda>_.
     bind (reads committing) (\<lambda>c.
     if c then panic ''log.committing'' else
     bind (reads (\<lambda>s. outstanding s = 0)) (\<lambda>do_commit.
     bind (if do_commit then modify (\<lambda>s. s\<lparr>committing := True\<rparr>) else wakeup C_log) (\<lambda>_.
     bind (release L_log) (\<lambda>_.
     if do_commit then
       bind commit (\<lambda>_.
       bind (acquire L_log) (\<lambda>_.
       bind (modify (\<lambda>s. s\<lparr>committing := False\<rparr>)) (\<lambda>_.
       bind (wakeup C_log) (\<lambda>_.
       release L_log))))
     else ret ()))))))"

text \<open>The loop of \<open>log_write\<close>: the slot of the block in the header, or the first free one.\<close>

fun log_slot :: "(nat \<Rightarrow> uint) \<Rightarrow> uint \<Rightarrow> nat \<Rightarrow> nat \<Rightarrow> nat" where
  "log_slot block bno i 0 = i"
| "log_slot block bno i (Suc k) = (if block i = bno then i else log_slot block bno (Suc i) k)"

definition log_write :: "nat \<Rightarrow> ('z log_scheme, unit) op" where
  "log_write b =
     bind (reads (\<lambda>s. lh_n s \<ge> LOGSIZE \<or> lh_n s \<ge> log_size s - 1)) (\<lambda>big.
     if big then panic ''too big a transaction'' else
     bind (reads (\<lambda>s. outstanding s < 1)) (\<lambda>out.
     if out then panic ''log_write outside of trans'' else
     bind (acquire L_log) (\<lambda>_.
     bind (buf_of b blockno) (\<lambda>bno.
     bind (reads (\<lambda>s. log_slot (lh_block s) bno 0 (nat (lh_n s)))) (\<lambda>i.
     bind (modify (\<lambda>s. s\<lparr>lh_block := (lh_block s)(i := bno)\<rparr>)) (\<lambda>_.
     bind (reads (\<lambda>s. int i = lh_n s)) (\<lambda>new.
     bind (if new then
             bind (bpin b) (\<lambda>_.
             modify (\<lambda>s. s\<lparr>lh_n := lh_n s + 1\<rparr>))
           else ret ()) (\<lambda>_.
     release L_log))))))))"

end
