(* ===== verification/SleepProto.thy ===== *)
theory SleepProto
  imports Sleeplock ProcSched
begin

text \<open>
  What the operations of \<open>kernel/sleeplock.c\<close> do, and the protocol they keep: a held sleep
  lock makes a process sleep, and its release wakes every process that sleeps on it.
\<close>

section \<open>Sleep locks and spin locks\<close>

lemma slocks_frame [acq_simps, simp]:
  "slocks (acq lk s) = slocks s"
  "(acq lk s)\<lparr>slocks := f\<rparr> = acq lk (s\<lparr>slocks := f\<rparr>)"
  by (simp_all add: acq_def pushed_def noff_of_def intr_of_def)

lemma slocks_update_frame [simp]:
  "cpu_ok (s\<lparr>slocks := f\<rparr>) = cpu_ok s" "noff_of (s\<lparr>slocks := f\<rparr>) = noff_of s"
  "intr_of (s\<lparr>slocks := f\<rparr>) = intr_of s" "curproc (s\<lparr>slocks := f\<rparr>) = curproc s"
  "procs_free (s\<lparr>slocks := f\<rparr>) = procs_free s"
  by (simp_all add: cpu_ok_def noff_of_def intr_of_def curproc_def procs_free_def)

text \<open>A thread that may use sleep locks: a process, with no spin lock held.\<close>

definition thread :: "nat \<Rightarrow> 'z procs_scheme \<Rightarrow> bool" where
  "thread p s \<longleftrightarrow> cpu_ok s \<and> curproc s = Some p \<and> p < NPROC \<and> procs_free s"

lemma threadD:
  assumes "thread p s"
  shows "cpu_ok s" "curproc s = Some p" "p < NPROC" "procs_free s" "locks s (L_proc p) = free_lock"
    "curp s = Ret p s"
  using assms by (simp_all add: thread_def procs_freeD curp_eq)

lemma thread_cong:
  fixes s :: "'z procs_scheme" and t :: "'y procs_scheme"
  assumes "tp t = tp s" "harts t = harts s" "cpus t = cpus s" "locks t = locks s"
  shows "thread p t = thread p s" "cpu_ok t = cpu_ok s"
  using assms by (simp_all add: thread_def cpu_ok_def noff_of_def intr_of_def curproc_def procs_free_def)

lemma thread_slocks [simp]: "thread p (s\<lparr>slocks := f\<rparr>) = thread p s"
  by (simp add: thread_def)

lemma wake_frame [simp]:
  "cpu_ok (wake ch s) = cpu_ok s" "noff_of (wake ch s) = noff_of s" "intr_of (wake ch s) = intr_of s"
  "curproc (wake ch s) = curproc s" "locks (wake ch s) = locks s" "tp (wake ch s) = tp s"
  "mem (wake ch s) = mem s" "procs_free (wake ch s) = procs_free s" "thread p (wake ch s) = thread p s"
  "wake ch (acq lk s) = acq lk (wake ch s)" "procs.more (wake ch s) = procs.more s"
  "pid (ptable (wake ch s) i) = pid (ptable s i)"
  by (simp_all add: wake_def woken_def thread_def cong: if_cong)

text \<open>
  A loop around \<open>sleep\<close>: when the body asks to sleep the process switches away, and a
  process that runs again and whose body then leaves the loop goes on with its result.
\<close>

lemma sleep_until_sleeps:
  fixes s t :: "'z procs_scheme"
  assumes body: "body (acq lk s) = Ret None (acq lk t)" and pat: "patience s = n"
    and t: "thread p t" "noff_of t = 0" "locks t lk = free_lock" "lk \<noteq> L_proc p"
    and go: "\<And>r. P r \<Longrightarrow> body (acq lk (unchan p r)) = Ret (Some (a r)) (g r)"
  shows "\<exists>k. sleep_until body ch lk (acq lk s) = Swtch (acq (L_proc p) (asleep p ch t)) k \<and>
    (\<forall>r. thread p r \<longrightarrow> noff_of r = 0 \<longrightarrow> intr_of r = intr_of t \<longrightarrow> locks r lk = free_lock \<longrightarrow>
      P r \<longrightarrow> 0 < n \<longrightarrow> k (acq (L_proc p) r) = Ret (a r) (g r))"
proof -
  let ?k = "\<lambda>s'. bind (update_proc p (\<lambda>q. q\<lparr>pchan := None\<rparr>)) (\<lambda>_.
      bind (release (L_proc p)) (\<lambda>_. acquire lk)) (set_intena (intr_of t) s')"
  have "sleep ch lk (acq lk t) = Swtch (acq (L_proc p) (asleep p ch t)) ?k"
    using t threadD[OF t(1)] by (intro sleep_eq) auto
  then have e: "sleep_until body ch lk (acq lk s) = Swtch (acq (L_proc p) (asleep p ch t))
      (\<lambda>s'. andthen (?k s') (\<lambda>_. sleep_loop n body (sleep ch lk)))"
    using body pat by (simp add: sleep_until_def bind_def [of "reads patience"] bind_def [of body]
        bind_def [of "sleep ch lk"] reads_def)
  have "andthen (?k (acq (L_proc p) r)) (\<lambda>_. sleep_loop n body (sleep ch lk)) = Ret (a r) (g r)"
    if r: "thread p r" "noff_of r = 0" "intr_of r = intr_of t" "locks r lk = free_lock" "0 < n" "P r" for r
  proof -
    obtain m where m: "n = Suc m" using r(5) gr0_implies_Suc by blast
    have "?k (acq (L_proc p) r) = Ret () (acq lk (unchan p r))"
      using sleep_resumes[of r "intr_of t" lk p] r t(4) threadD[OF r(1)] by simp
    then show ?thesis using go[OF r(6)] by (simp add: m bind_def ret_def)
  qed
  then show ?thesis using e by blast
qed

text \<open>The state of a sleep lock held by process number \<open>n\<close>, and of a free one.\<close>

definition sl_held :: "int \<Rightarrow> sleeplock" where
  "sl_held n = \<lparr>sl_locked = True, sl_pid = n\<rparr>"

definition sl_free :: sleeplock where
  "sl_free = \<lparr>sl_locked = False, sl_pid = 0\<rparr>"

definition with_slock :: "sleeplockid \<Rightarrow> sleeplock \<Rightarrow> 'z sleeplocks_scheme \<Rightarrow> 'z sleeplocks_scheme" where
  "with_slock lk v s = s\<lparr>slocks := (slocks s)(lk := v)\<rparr>"

lemma with_slock_frame [simp]:
  "cpu_ok (with_slock lk v s) = cpu_ok s" "noff_of (with_slock lk v s) = noff_of s"
  "intr_of (with_slock lk v s) = intr_of s" "curproc (with_slock lk v s) = curproc s"
  "locks (with_slock lk v s) = locks s" "tp (with_slock lk v s) = tp s"
  "ptable (with_slock lk v s) = ptable s" "patience (with_slock lk v s) = patience s"
  "slocks (with_slock lk v s) = (slocks s)(lk := v)"
  "procs_free (with_slock lk v s) = procs_free s" "thread p (with_slock lk v s) = thread p s"
  "sleeplocks.more (with_slock lk v s) = sleeplocks.more s"
  "with_slock lk v (acq l s) = acq l (with_slock lk v s)"
  by (simp_all add: with_slock_def)

section \<open>The operations\<close>

lemma acquiresleep_free:
  assumes "thread p s" "locks s (L_sleep lk) = free_lock" "\<not> sl_locked (slocks s lk)"
  shows "acquiresleep lk s = Ret () (with_slock lk (sl_held (pid (ptable s p))) s)"
  using assms threadD[OF assms(1)]
  by (simp add: acquiresleep_def bind_def acquire_eq sleep_while_def sleep_until_def reads_def ret_def
      curp_eq proc_of_def set_slock_def modify_def with_slock_def sl_held_def release_acq)

text \<open>The rest of \<open>acquiresleep\<close> from its loop on, with \<open>n\<close> rounds left.\<close>

definition acquiresleep_loop :: "sleeplockid \<Rightarrow> nat \<Rightarrow> ('z sleeplocks_scheme, unit) op" where
  "acquiresleep_loop lk n =
     bind (sleep_loop n (reads (\<lambda>s. if sl_locked (slocks s lk) then None else Some ()))
       (sleep (C_sleeplock lk) (L_sleep lk))) (\<lambda>_.
     bind curp (\<lambda>p.
     bind (proc_of p pid) (\<lambda>n.
     bind (set_slock lk \<lparr>sl_locked = True, sl_pid = n\<rparr>) (\<lambda>_.
     release (L_sleep lk)))))"

lemma acquiresleep_unfold:
  "locks s (L_sleep lk) = free_lock \<Longrightarrow>
   acquiresleep lk s = acquiresleep_loop lk (Suc (patience s)) (acq (L_sleep lk) s)"
  by (simp add: acquiresleep_def acquiresleep_loop_def bind_def acquire_eq sleep_while_def
      sleep_until_def reads_def)

lemma acquiresleep_loop_free:
  assumes "thread p s" "locks s (L_sleep lk) = free_lock" "\<not> sl_locked (slocks s lk)"
  shows "acquiresleep_loop lk (Suc n) (acq (L_sleep lk) s) =
    Ret () (with_slock lk (sl_held (pid (ptable s p))) s)"
  using assms threadD[OF assms(1)]
  by (simp add: acquiresleep_loop_def bind_def reads_def ret_def curp_eq proc_of_def set_slock_def
      modify_def with_slock_def sl_held_def release_acq)

lemma acquiresleep_loop_held:
  assumes "thread p s" "noff_of s = 0" "locks s (L_sleep lk) = free_lock" "sl_locked (slocks s lk)"
  shows "\<exists>k. acquiresleep_loop lk (Suc n) (acq (L_sleep lk) s) =
      Swtch (acq (L_proc p) (asleep p (C_sleeplock lk) s)) k \<and>
    (\<forall>r. thread p r \<longrightarrow> noff_of r = 0 \<longrightarrow> intr_of r = intr_of s \<longrightarrow> locks r (L_sleep lk) = free_lock \<longrightarrow>
      k (acq (L_proc p) r) = acquiresleep_loop lk n (acq (L_sleep lk) (unchan p r)))"
proof -
  let ?k = "\<lambda>s'. bind (update_proc p (\<lambda>q. q\<lparr>pchan := None\<rparr>)) (\<lambda>_.
      bind (release (L_proc p)) (\<lambda>_. acquire (L_sleep lk))) (set_intena (intr_of s) s')"
  note d = threadD[OF assms(1)]
  have "sleep (C_sleeplock lk) (L_sleep lk) (acq (L_sleep lk) s) =
      Swtch (acq (L_proc p) (asleep p (C_sleeplock lk) s)) ?k"
    using assms d by (intro sleep_eq) auto
  then have e: "acquiresleep_loop lk (Suc n) (acq (L_sleep lk) s) =
      Swtch (acq (L_proc p) (asleep p (C_sleeplock lk) s)) (\<lambda>s'. andthen (?k s') (\<lambda>_. acquiresleep_loop lk n))"
    using assms(4) by (simp add: acquiresleep_loop_def bind_def [abs_def] reads_def andthen_assoc)
  moreover have "andthen (?k (acq (L_proc p) r)) (\<lambda>_. acquiresleep_loop lk n)
      = acquiresleep_loop lk n (acq (L_sleep lk) (unchan p r))"
    if "thread p r" "noff_of r = 0" "intr_of r = intr_of s" "locks r (L_sleep lk) = free_lock"
    for r :: "'a sleeplocks_scheme"
    using sleep_resumes[of r "intr_of s" "L_sleep lk" p] that threadD[OF that(1)] by simp
  ultimately show ?thesis by blast
qed

lemma releasesleep_eq:
  assumes "thread p s" "locks s (L_sleep lk) = free_lock"
  shows "releasesleep lk s = Ret () (wake (C_sleeplock lk) (with_slock lk sl_free s))"
proof -
  have "wakeup (C_sleeplock lk) (acq (L_sleep lk) (with_slock lk sl_free s))
      = Ret () (acq (L_sleep lk) (wake (C_sleeplock lk) (with_slock lk sl_free s)))"
    using wakeup_eq[of "acq (L_sleep lk) (with_slock lk sl_free s)" "C_sleeplock lk"] threadD[OF assms(1)]
    by simp
  then show ?thesis using assms threadD[OF assms(1)]
    by (simp add: releasesleep_def bind_def acquire_eq set_slock_def modify_def with_slock_def [symmetric]
        sl_free_def [symmetric] release_acq)
qed

lemma holdingsleep_eq:
  assumes "thread p s" "locks s (L_sleep lk) = free_lock"
  shows "holdingsleep lk s = Ret (sl_locked (slocks s lk) \<and> sl_pid (slocks s lk) = pid (ptable s p)) s"
  using assms threadD[OF assms(1)]
  by (simp add: holdingsleep_def bind_def acquire_eq reads_def curp_eq proc_of_def ret_def release_acq)

text \<open>
  C12. Sleep locks. \<open>acquiresleep\<close> on a free lock returns with the lock held by the
  process. On a held lock the process goes to sleep on the lock without changing it, and
  when it runs again it holds the lock if it is free then, and otherwise goes to sleep
  again. \<open>holdingsleep\<close> tells exactly whether the process holds the lock, and
  \<open>releasesleep\<close> frees it and makes every process that sleeps on it runnable.
\<close>

theorem sleeplock_protocol:
  fixes s :: "'z sleeplocks_scheme"
  assumes "thread p s" "noff_of s = 0" "locks s (L_sleep lk) = free_lock"
  shows "(\<not> sl_locked (slocks s lk) \<longrightarrow>
      acquiresleep lk s = Ret () (with_slock lk (sl_held (pid (ptable s p))) s))
    \<and> (sl_locked (slocks s lk) \<longrightarrow> (\<exists>k.
      acquiresleep lk s = Swtch (acq (L_proc p) (asleep p (C_sleeplock lk) s)) k \<and>
      (\<forall>r. thread p r \<longrightarrow> noff_of r = 0 \<longrightarrow> intr_of r = intr_of s \<longrightarrow> locks r (L_sleep lk) = free_lock \<longrightarrow>
        0 < patience s \<longrightarrow>
        (if sl_locked (slocks r lk)
         then \<exists>k'. k (acq (L_proc p) r) = Swtch (acq (L_proc p) (asleep p (C_sleeplock lk) (unchan p r))) k'
         else k (acq (L_proc p) r) = Ret () (with_slock lk (sl_held (pid (ptable r p))) (unchan p r))))))
    \<and> holdingsleep lk s = Ret (slocks s lk = sl_held (pid (ptable s p))) s
    \<and> (\<exists>t. releasesleep lk s = Ret () t \<and> slocks t = (slocks s)(lk := sl_free) \<and> locks t = locks s
        \<and> (\<forall>i < NPROC. ptable t i = woken (C_sleeplock lk) (ptable s i)))"
proof (intro conjI impI)
  assume "\<not> sl_locked (slocks s lk)"
  then show "acquiresleep lk s = Ret () (with_slock lk (sl_held (pid (ptable s p))) s)"
    using assms by (intro acquiresleep_free)
next
  assume "sl_locked (slocks s lk)"
  then obtain k where k: "acquiresleep lk s = Swtch (acq (L_proc p) (asleep p (C_sleeplock lk) s)) k"
      "\<And>r. thread p r \<Longrightarrow> noff_of r = 0 \<Longrightarrow> intr_of r = intr_of s \<Longrightarrow> locks r (L_sleep lk) = free_lock \<Longrightarrow>
        k (acq (L_proc p) r) = acquiresleep_loop lk (patience s) (acq (L_sleep lk) (unchan p r))"
    using acquiresleep_loop_held[OF assms(1-3), of "patience s"] acquiresleep_unfold[OF assms(3)] by auto
  have "if sl_locked (slocks r lk)
      then \<exists>k'. k (acq (L_proc p) r) = Swtch (acq (L_proc p) (asleep p (C_sleeplock lk) (unchan p r))) k'
      else k (acq (L_proc p) r) = Ret () (with_slock lk (sl_held (pid (ptable r p))) (unchan p r))"
    if r: "thread p r" "noff_of r = 0" "intr_of r = intr_of s" "locks r (L_sleep lk) = free_lock" "0 < patience s"
    for r :: "'z sleeplocks_scheme"
  proof -
    obtain n where n: "patience s = Suc n" using r(5) gr0_implies_Suc by blast
    have u: "thread p (unchan p r)" "noff_of (unchan p r) = 0" "locks (unchan p r) (L_sleep lk) = free_lock"
      "slocks (unchan p r) = slocks r" "pid (ptable (unchan p r) p) = pid (ptable r p)"
      using r by (simp_all add: thread_def unchan_def)
    show ?thesis
      using k(2)[OF r(1-4)] acquiresleep_loop_held[OF u(1-3), of n] acquiresleep_loop_free[OF u(1,3), of n] u(4,5)
      unfolding n by auto
  qed
  then show "\<exists>k. acquiresleep lk s = Swtch (acq (L_proc p) (asleep p (C_sleeplock lk) s)) k \<and>
      (\<forall>r. thread p r \<longrightarrow> noff_of r = 0 \<longrightarrow> intr_of r = intr_of s \<longrightarrow> locks r (L_sleep lk) = free_lock \<longrightarrow>
        0 < patience s \<longrightarrow>
        (if sl_locked (slocks r lk)
         then \<exists>k'. k (acq (L_proc p) r) = Swtch (acq (L_proc p) (asleep p (C_sleeplock lk) (unchan p r))) k'
         else k (acq (L_proc p) r) = Ret () (with_slock lk (sl_held (pid (ptable r p))) (unchan p r))))"
    using k(1) by blast
next
  show "holdingsleep lk s = Ret (slocks s lk = sl_held (pid (ptable s p))) s"
    using holdingsleep_eq[OF assms(1,3)] by (cases "slocks s lk") (auto simp: sl_held_def)
next
  show "\<exists>t. releasesleep lk s = Ret () t \<and> slocks t = (slocks s)(lk := sl_free) \<and> locks t = locks s
      \<and> (\<forall>i < NPROC. ptable t i = woken (C_sleeplock lk) (ptable s i))"
    using releasesleep_eq[OF assms(1,3)]
    by (intro exI[of _ "wake (C_sleeplock lk) (with_slock lk sl_free s)"]) (simp add: wake_def)
qed

section \<open>A concrete state\<close>

definition sleep0 :: "sleeplock \<Rightarrow> sleeplocks" where
  "sleep0 v = procs.extend (set_cpu_proc (Some 0) (procs0 RUNNING UNUSED))
     \<lparr>slocks = (\<lambda>_. v), \<dots> = ()\<rparr>"

lemma sleep0_ok [simp]:
  "thread 0 (sleep0 v)" "noff_of (sleep0 v) = 0" "locks (sleep0 v) lk = free_lock"
  "slocks (sleep0 v) sl = v" "pid (ptable (sleep0 v) 0) = 1"
proof -
  let ?s = "set_cpu_proc (Some 0) (procs0 RUNNING UNUSED)"
  have f: "tp (sleep0 v) = tp ?s" "harts (sleep0 v) = harts ?s" "cpus (sleep0 v) = cpus ?s"
    "locks (sleep0 v) = locks ?s" "ptable (sleep0 v) = ptable ?s"
    by (simp_all add: sleep0_def procs.defs)
  then have g: "cpu_ok (sleep0 v) = cpu_ok ?s" "noff_of (sleep0 v) = noff_of ?s" "curproc (sleep0 v) = curproc ?s"
    by (simp_all add: cpu_ok_def noff_of_def intr_of_def curproc_def)
  show "thread 0 (sleep0 v)" "noff_of (sleep0 v) = 0"
    using g f(4) by (simp_all add: thread_def NPROC_def procs_free_def)
  show "locks (sleep0 v) lk = free_lock" "pid (ptable (sleep0 v) 0) = 1"
    using f by (simp_all add: mkproc_def)
  show "slocks (sleep0 v) sl = v" by (simp add: sleep0_def procs.defs)
qed

theorem sleeplock_protocol_witness:
  "acquiresleep (SL_buf 0) (sleep0 sl_free) = Ret () (with_slock (SL_buf 0) (sl_held 1) (sleep0 sl_free))
   \<and> (\<exists>t k. acquiresleep (SL_buf 0) (sleep0 (sl_held 2)) = Swtch t k)"
  using sleeplock_protocol[of 0 "sleep0 sl_free" "SL_buf 0"] sleeplock_protocol[of 0 "sleep0 (sl_held 2)" "SL_buf 0"]
  by (auto simp: sl_held_def sl_free_def)

end
