(* ===== verification/BufCache.thy ===== *)
theory BufCache
  imports Bio SleepProto
begin

text \<open>
  The buffer cache refines a list of buffers in order of last use. The links of the
  circular list stand for such a list; \<open>bget\<close> returns the buffer of a block, or recycles
  the least recently used free one; \<open>brelse\<close> moves a buffer to the front.
\<close>

section \<open>Frames\<close>

lemma bio_frame [acq_simps, simp]:
  "bcache (acq lk s) = bcache s" "disk (acq lk s) = disk s" "dwrites (acq lk s) = dwrites s"
  "(acq lk s)\<lparr>bcache := f\<rparr> = acq lk (s\<lparr>bcache := f\<rparr>)"
  "(acq lk s)\<lparr>disk := d\<rparr> = acq lk (s\<lparr>disk := d\<rparr>)"
  "(acq lk s)\<lparr>dwrites := w\<rparr> = acq lk (s\<lparr>dwrites := w\<rparr>)"
  by (simp_all add: acq_def pushed_def noff_of_def intr_of_def)

lemma bio_update_frame [simp]:
  "cpu_ok (s\<lparr>bcache := f\<rparr>) = cpu_ok s" "thread p (s\<lparr>bcache := f\<rparr>) = thread p s"
  "cpu_ok (s\<lparr>disk := d\<rparr>) = cpu_ok s" "thread p (s\<lparr>disk := d\<rparr>) = thread p s"
  "cpu_ok (s\<lparr>dwrites := w\<rparr>) = cpu_ok s" "thread p (s\<lparr>dwrites := w\<rparr>) = thread p s"
  by (simp_all add: cpu_ok_def noff_of_def intr_of_def curproc_def thread_def procs_free_def)

section \<open>The circular list\<close>

text \<open>
  \<open>chain f a xs b\<close>: following \<open>f\<close> from \<open>a\<close> passes through \<open>xs\<close> and then reaches \<open>b\<close>.
\<close>

fun chain :: "(nat \<Rightarrow> nat) \<Rightarrow> nat \<Rightarrow> nat list \<Rightarrow> nat \<Rightarrow> bool" where
  "chain f a [] b \<longleftrightarrow> f a = b"
| "chain f a (x # xs) b \<longleftrightarrow> f a = x \<and> chain f x xs b"

definition nexts :: "(nat \<Rightarrow> buf) \<Rightarrow> nat \<Rightarrow> nat" where "nexts c b = next (c b)"
definition prevs :: "(nat \<Rightarrow> buf) \<Rightarrow> nat \<Rightarrow> nat" where "prevs c b = prev (c b)"

definition lru :: "(nat \<Rightarrow> buf) \<Rightarrow> nat list \<Rightarrow> bool" where
  "lru c xs \<longleftrightarrow> chain (nexts c) HEAD xs HEAD \<and> chain (prevs c) HEAD (rev xs) HEAD \<and>
     distinct xs \<and> set xs = {..<NBUF}"

lemma chain_append: "chain f a (xs @ y # ys) b \<longleftrightarrow> chain f a xs y \<and> chain f y ys b"
  by (induction xs arbitrary: a) auto

lemma chain_cong: "(\<And>x. x = a \<or> x \<in> set xs \<Longrightarrow> f x = g x) \<Longrightarrow> chain f a xs b = chain g a xs b"
  by (induction xs arbitrary: a) auto

text \<open>The last element before \<open>b\<close> on a chain.\<close>

lemma chain_upd_last:
  "distinct (a # xs) \<Longrightarrow> chain (f(last (a # xs) := c)) a xs c \<longleftrightarrow> chain f a xs (f (last (a # xs)))"
proof (induction xs arbitrary: a)
  case Nil
  then show ?case by simp
next
  case (Cons x xs)
  have "a \<noteq> last (x # xs)" using Cons.prems last_in_set[of "x # xs"] by auto
  then show ?case using Cons by auto
qed

lemma chain_last: "chain f a xs b \<Longrightarrow> f (last (a # xs)) = b"
  by (induction xs arbitrary: a) auto

lemma lru_upd:
  assumes "lru c xs" "\<And>b. next (d b) = next (c b)" "\<And>b. prev (d b) = prev (c b)"
  shows "lru d xs"
proof -
  have "nexts d = nexts c" "prevs d = prevs c" using assms(2,3) by (auto simp: nexts_def prevs_def)
  then show ?thesis using assms(1) by (simp add: lru_def)
qed


lemma chain_unlink:
  assumes "chain f a (xs @ x # ys) b" "distinct (a # xs @ x # ys)"
  shows "chain (f(last (a # xs) := f x)) a (xs @ ys) b"
proof -
  have c: "chain f a xs x" "chain f x ys b" using assms(1) by (simp_all add: chain_append)
  have d: "distinct (a # xs)" "last (a # xs) \<in> set (a # xs)" using assms(2) last_in_set[of "a # xs"] by auto
  have l: "chain f a xs (f (last (a # xs)))" using chain_last[OF c(1)] c(1) by simp
  then have l': "chain (f(last (a # xs) := f x)) a xs (f x)" using chain_upd_last[OF d(1)] by simp
  show ?thesis
  proof (cases ys)
    case Nil
    then show ?thesis using l' c(2) by simp
  next
    case (Cons y zs)
    have "chain (f(last (a # xs) := f x)) y zs b = chain f y zs b"
      using d(2) assms(2) Cons by (intro chain_cong) auto
    then show ?thesis using l' c(2) Cons by (simp add: chain_append)
  qed
qed

lemma chain_push:
  assumes "chain f a zs a" "distinct (a # zs)" "b \<notin> set (a # zs)"
  shows "chain (f(b := f a, a := b)) a (b # zs) a"
proof (cases zs)
  case (Cons z ws)
  have "chain (f(b := f a, a := b)) z ws a = chain f z ws a"
    using assms Cons by (intro chain_cong) auto
  then show ?thesis using assms Cons by auto
qed (use assms in auto)

lemma chain_enqueue:
  assumes "chain f a zs a" "distinct (a # zs)" "b \<notin> set (a # zs)"
  shows "chain (f(b := a, last (a # zs) := b)) a (zs @ [b]) a"
proof -
  have l: "last (a # zs) \<noteq> b" using assms(3) last_in_set[of "a # zs"] by auto
  have "chain (f(b := a)) a zs a = chain f a zs a" using assms(3) by (intro chain_cong) auto
  then have "chain (f(b := a, last (a # zs) := b)) a zs b"
    using chain_upd_last[OF assms(2)] assms(1) chain_last[OF assms(1)] l by simp
  then show ?thesis using l by (simp add: chain_append)
qed

lemma chain_first: "chain f a xs b \<Longrightarrow> f a = last (b # rev xs)"
  by (cases xs) auto

text \<open>What \<open>brelse\<close> does to the links: take the buffer out, and put it in after the head.\<close>

definition set_next :: "nat \<Rightarrow> nat \<Rightarrow> (nat \<Rightarrow> buf) \<Rightarrow> nat \<Rightarrow> buf" where
  "set_next i v c = c(i := (c i)\<lparr>next := v\<rparr>)"

definition set_prev :: "nat \<Rightarrow> nat \<Rightarrow> (nat \<Rightarrow> buf) \<Rightarrow> nat \<Rightarrow> buf" where
  "set_prev i v c = c(i := (c i)\<lparr>prev := v\<rparr>)"

lemma link_updates [simp]:
  "nexts (set_next i v c) = (nexts c)(i := v)" "nexts (set_prev i v c) = nexts c"
  "prevs (set_prev i v c) = (prevs c)(i := v)" "prevs (set_next i v c) = prevs c"
  by (auto simp: nexts_def prevs_def set_next_def set_prev_def)

lemma link_data [simp]:
  "valid (set_next i v c j) = valid (c j)" "bdev (set_next i v c j) = bdev (c j)"
  "blockno (set_next i v c j) = blockno (c j)" "refcnt (set_next i v c j) = refcnt (c j)"
  "bdata (set_next i v c j) = bdata (c j)"
  "valid (set_prev i v c j) = valid (c j)" "bdev (set_prev i v c j) = bdev (c j)"
  "blockno (set_prev i v c j) = blockno (c j)" "refcnt (set_prev i v c j) = refcnt (c j)"
  "bdata (set_prev i v c j) = bdata (c j)"
  by (simp_all add: set_next_def set_prev_def)

definition unlink :: "nat \<Rightarrow> (nat \<Rightarrow> buf) \<Rightarrow> nat \<Rightarrow> buf" where
  "unlink b c = (let d = set_prev (nexts c b) (prevs c b) c in set_next (prevs d b) (nexts d b) d)"

definition push_front :: "nat \<Rightarrow> (nat \<Rightarrow> buf) \<Rightarrow> nat \<Rightarrow> buf" where
  "push_front b c =
     (let d = set_prev b HEAD (set_next b (nexts c HEAD) c)
      in set_next HEAD b (set_prev (nexts d HEAD) b d))"

definition to_front :: "nat \<Rightarrow> (nat \<Rightarrow> buf) \<Rightarrow> nat \<Rightarrow> buf" where
  "to_front b c = push_front b (unlink b c)"

lemma to_front_data [simp]:
  "valid (to_front b c i) = valid (c i)" "bdev (to_front b c i) = bdev (c i)"
  "blockno (to_front b c i) = blockno (c i)" "refcnt (to_front b c i) = refcnt (c i)"
  "bdata (to_front b c i) = bdata (c i)"
  by (simp_all add: to_front_def unlink_def push_front_def Let_def)

lemma to_front_links:
  assumes "b \<noteq> HEAD" "nexts c b \<noteq> b" "prevs c b \<noteq> b"
  shows "nexts (to_front b c) = (let f = (nexts c)(prevs c b := nexts c b) in f(b := f HEAD, HEAD := b))"
    and "prevs (to_front b c) =
      (let f = (nexts c)(prevs c b := nexts c b); g = (prevs c)(nexts c b := prevs c b)
       in g(b := HEAD, f HEAD := b))"
  using assms by (simp_all add: to_front_def unlink_def push_front_def Let_def)

lemma lru_to_front:
  assumes "lru c xs" "b < NBUF"
  shows "lru (to_front b c) (b # remove1 b xs)"
proof -
  have "b \<in> set xs" using assms by (simp add: lru_def)
  then obtain us vs where xs: "xs = us @ b # vs" by (meson split_list)
  have n: "chain (nexts c) HEAD (us @ b # vs) HEAD" "chain (prevs c) HEAD (rev vs @ b # rev us) HEAD"
    and d: "distinct (us @ b # vs)" "set (us @ b # vs) = {..<NBUF}"
    using assms(1) by (auto simp: lru_def xs)
  have H: "HEAD \<notin> set (us @ b # vs)" unfolding d(2) by (simp add: HEAD_def)
  have dH: "distinct (HEAD # us @ b # vs)" "distinct (HEAD # rev vs @ b # rev us)" "distinct (HEAD # us @ vs)"
    using d(1) H by auto
  have nb: "nexts c b = last (HEAD # rev vs)" "prevs c b = last (HEAD # us)"
    using n chain_first[of "nexts c" b vs HEAD] chain_first[of "prevs c" b "rev us" HEAD]
    by (auto simp: chain_append)
  have ne: "b \<noteq> HEAD" "nexts c b \<noteq> b" "prevs c b \<noteq> b"
    using H dH last_in_set[of "HEAD # us"] last_in_set[of "HEAD # rev vs"] unfolding nb by auto
  let ?f = "(nexts c)(prevs c b := nexts c b)" and ?g = "(prevs c)(nexts c b := prevs c b)"
  have f: "chain ?f HEAD (us @ vs) HEAD"
    using chain_unlink[OF n(1) dH(1)] nb by simp
  have g: "chain ?g HEAD (rev (us @ vs)) HEAD"
    using chain_unlink[OF n(2) dH(2)] nb by simp
  have bn: "b \<notin> set (HEAD # us @ vs)" using d(1) ne by auto
  have "?f HEAD = last (HEAD # rev (us @ vs))" by (rule chain_first[OF f])
  then have "prevs (to_front b c) = ?g(b := HEAD, last (HEAD # rev (us @ vs)) := b)"
    using to_front_links(2)[of b c] ne by (simp add: Let_def)
  moreover have "chain (?g(b := HEAD, last (HEAD # rev (us @ vs)) := b)) HEAD (rev (us @ vs) @ [b]) HEAD"
    using dH(3) bn by (intro chain_enqueue[OF g]) auto
  ultimately have "chain (prevs (to_front b c)) HEAD (rev (b # us @ vs)) HEAD" by simp
  moreover have "chain (nexts (to_front b c)) HEAD (b # us @ vs) HEAD"
    using chain_push[OF f dH(3) bn] to_front_links(1)[of b c] ne by (simp add: Let_def)
  moreover have "remove1 b xs = us @ vs" using d(1) by (simp add: xs remove1_append)
  ultimately show ?thesis using d by (auto simp: lru_def)
qed


section \<open>The searches of bget\<close>

lemma bget_cached_eq:
  "chain (nexts (bcache s)) a xs HEAD \<Longrightarrow> HEAD \<notin> set xs \<Longrightarrow> length xs < n \<Longrightarrow>
   bget_cached n (nexts (bcache s) a) dev bno s =
     Ret (find (\<lambda>b. bdev (bcache s b) = dev \<and> blockno (bcache s b) = bno) xs) s"
proof (induction xs arbitrary: a n)
  case Nil
  then obtain m where "n = Suc m" by (cases n) auto
  then show ?case using Nil by (simp add: ret_def)
next
  case (Cons x xs)
  then obtain m where n: "n = Suc m" by (cases n) auto
  have "nexts (bcache s) a = x" "x \<noteq> HEAD" "chain (nexts (bcache s)) x xs HEAD" using Cons.prems by auto
  moreover have "next (bcache s x) = nexts (bcache s) x" by (simp add: nexts_def)
  ultimately show ?case using Cons.IH[of x m] Cons.prems n by (simp add: bind_def buf_of_def reads_def ret_def)
qed

lemma bget_unused_eq:
  "chain (prevs (bcache s)) a xs HEAD \<Longrightarrow> HEAD \<notin> set xs \<Longrightarrow> length xs < n \<Longrightarrow>
   bget_unused n (prevs (bcache s) a) s = Ret (find (\<lambda>b. refcnt (bcache s b) = 0) xs) s"
proof (induction xs arbitrary: a n)
  case Nil
  then obtain m where "n = Suc m" by (cases n) auto
  then show ?case using Nil by (simp add: ret_def)
next
  case (Cons x xs)
  then obtain m where n: "n = Suc m" by (cases n) auto
  have "prevs (bcache s) a = x" "x \<noteq> HEAD" "chain (prevs (bcache s)) x xs HEAD" using Cons.prems by auto
  moreover have "prev (bcache s x) = prevs (bcache s) x" by (simp add: prevs_def)
  ultimately show ?case using Cons.IH[of x m] Cons.prems n by (simp add: bind_def buf_of_def reads_def ret_def)
qed

lemma lru_facts:
  assumes "lru c xs"
  shows "length xs = NBUF" "HEAD \<notin> set xs" "b \<in> set xs \<longleftrightarrow> b < NBUF"
  using assms distinct_card[of xs] by (auto simp: lru_def HEAD_def)

definition with_buf :: "nat \<Rightarrow> (buf \<Rightarrow> buf) \<Rightarrow> 'z bio_scheme \<Rightarrow> 'z bio_scheme" where
  "with_buf b f s = s\<lparr>bcache := (bcache s)(b := f (bcache s b))\<rparr>"

lemma with_buf_frame [simp]:
  "cpu_ok (with_buf b f s) = cpu_ok s" "noff_of (with_buf b f s) = noff_of s" "locks (with_buf b f s) = locks s"
  "thread p (with_buf b f s) = thread p s" "slocks (with_buf b f s) = slocks s"
  "ptable (with_buf b f s) = ptable s" "disk (with_buf b f s) = disk s" "dwrites (with_buf b f s) = dwrites s"
  "bcache (with_buf b f s) = (bcache s)(b := f (bcache s b))" "bio.more (with_buf b f s) = bio.more s"
  "patience (with_buf b f s) = patience s" "tp (with_buf b f s) = tp s"
  "with_buf b f (acq lk s) = acq lk (with_buf b f s)"
  by (simp_all add: with_buf_def noff_of_def)

lemma update_buf_eq: "update_buf b f s = Ret () (with_buf b f s)"
  by (simp add: update_buf_def modify_def with_buf_def)

text \<open>The buffer that \<open>bget\<close> settles on, and what it does to it under the lock of the cache.\<close>

definition bget_choice :: "uint \<Rightarrow> uint \<Rightarrow> (nat \<Rightarrow> buf) \<Rightarrow> nat list \<Rightarrow> (nat \<times> (buf \<Rightarrow> buf)) option" where
  "bget_choice dev bno c xs =
     (case find (\<lambda>b. bdev (c b) = dev \<and> blockno (c b) = bno) xs of
        Some b \<Rightarrow> Some (b, \<lambda>q. q\<lparr>refcnt := refcnt q + 1\<rparr>)
      | None \<Rightarrow> map_option (\<lambda>b. (b, \<lambda>q. q\<lparr>bdev := dev, blockno := bno, valid := False, refcnt := 1\<rparr>))
                  (find (\<lambda>b. refcnt (c b) = 0) (rev xs)))"

lemma bget_eq:
  assumes "thread p s" "locks s L_bcache = free_lock" "lru (bcache s) xs"
  shows "bget dev bno s =
    (case bget_choice dev bno (bcache s) xs of
       Some (b, f) \<Rightarrow> bind (acquiresleep (SL_buf b)) (\<lambda>_. ret b) (with_buf b f s)
     | None \<Rightarrow> Panic ''bget: no buffers'')"
proof -
  note f = lru_facts[OF assms(3)] threadD[OF assms(1)]
  let ?t = "acq L_bcache s"
  have c: "bget_cached (Suc NBUF) (next (bcache s HEAD)) dev bno ?t
      = Ret (find (\<lambda>b. bdev (bcache s b) = dev \<and> blockno (bcache s b) = bno) xs) ?t"
    using bget_cached_eq[of ?t HEAD xs "Suc NBUF" dev bno] assms(3) f by (simp add: lru_def nexts_def del: bget_cached.simps)
  have u: "bget_unused (Suc NBUF) (prev (bcache s HEAD)) ?t
      = Ret (find (\<lambda>b. refcnt (bcache s b) = 0) (rev xs)) ?t"
    using bget_unused_eq[of ?t HEAD "rev xs" "Suc NBUF"] assms(3) f by (simp add: lru_def prevs_def del: bget_unused.simps)
  show ?thesis using assms(2) f
    by (simp add: bget_def bind_def acquire_eq buf_of_def reads_def c u update_buf_eq release_acq
        bget_choice_def panic_def del: bget_cached.simps bget_unused.simps split: option.split)
qed


section \<open>The cache as a store of blocks\<close>

text \<open>
  Seen by block number, the cache has a content for every block of the device (the cached
  data where a valid buffer has it, and otherwise the disk), a reference count, and the set
  of blocks whose buffers are locked. Sector numbers have 32 bits, so a device has at most
  \<open>2 ^ 31\<close> blocks.
\<close>

definition lookup :: "(nat \<Rightarrow> buf) \<Rightarrow> uint \<Rightarrow> uint \<Rightarrow> nat option" where
  "lookup c dev bno = find (\<lambda>b. bdev (c b) = dev \<and> blockno (c b) = bno) [0..<NBUF]"

definition view :: "uint \<Rightarrow> 'z bio_scheme \<Rightarrow> uint \<Rightarrow> cstr" where
  "view dev s bno =
     (if unat bno < 2 ^ 31 then
        (case lookup (bcache s) dev bno of
           Some b \<Rightarrow> if valid (bcache s b) then bdata (bcache s b) else disk s (unat bno)
         | None \<Rightarrow> disk s (unat bno))
      else (\<lambda>_. 0))"

definition refs :: "uint \<Rightarrow> 'z bio_scheme \<Rightarrow> uint \<Rightarrow> uint" where
  "refs dev s bno = (case lookup (bcache s) dev bno of Some b \<Rightarrow> refcnt (bcache s b) | None \<Rightarrow> 0)"

definition held :: "uint \<Rightarrow> 'z bio_scheme \<Rightarrow> uint set" where
  "held dev s = {bno. \<exists>b. lookup (bcache s) dev bno = Some b \<and> sl_locked (slocks s (SL_buf b))}"

text \<open>
  The invariant of the cache in a process that is its only user: buffers that hold a block
  hold different blocks of the one device, buffers without references agree with the disk,
  and every locked buffer is locked by the process and has the block's data.
\<close>

definition cache_wf :: "uint \<Rightarrow> (nat \<Rightarrow> buf) \<Rightarrow> bool" where
  "cache_wf dev c \<longleftrightarrow> dev \<noteq> 0 \<and>
     (\<forall>b < NBUF. bdev (c b) = 0 \<and> refcnt (c b) = 0 \<or> bdev (c b) = dev \<and> unat (blockno (c b)) < 2 ^ 31) \<and>
     (\<forall>a < NBUF. \<forall>b < NBUF. bdev (c a) = dev \<longrightarrow> bdev (c b) = dev \<longrightarrow> blockno (c a) = blockno (c b) \<longrightarrow> a = b)"

definition clean :: "uint \<Rightarrow> 'z bio_scheme \<Rightarrow> nat \<Rightarrow> bool" where
  "clean dev s b \<longleftrightarrow> (bdev (bcache s b) = dev \<longrightarrow> valid (bcache s b) \<longrightarrow>
     bdata (bcache s b) = disk s (unat (blockno (bcache s b))))"

definition lock_ok :: "nat \<Rightarrow> uint \<Rightarrow> 'z bio_scheme \<Rightarrow> nat \<Rightarrow> bool" where
  "lock_ok p dev s b \<longleftrightarrow> (sl_locked (slocks s (SL_buf b)) \<longrightarrow>
     slocks s (SL_buf b) = sl_held (pid (ptable s p)) \<and> valid (bcache s b) \<and> bdev (bcache s b) = dev)"

definition bufs_inv :: "nat \<Rightarrow> uint \<Rightarrow> 'z bio_scheme \<Rightarrow> bool" where
  "bufs_inv p dev s \<longleftrightarrow> thread p s \<and> locks s L_bcache = free_lock \<and>
     (\<forall>b. locks s (L_sleep (SL_buf b)) = free_lock) \<and> (\<exists>xs. lru (bcache s) xs) \<and> cache_wf dev (bcache s) \<and>
     (\<forall>b < NBUF. refcnt (bcache s b) = 0 \<longrightarrow> clean dev s b) \<and> (\<forall>b < NBUF. lock_ok p dev s b)"

lemma find_unique:
  assumes "\<And>a b. a \<in> set xs \<Longrightarrow> b \<in> set xs \<Longrightarrow> P a \<Longrightarrow> P b \<Longrightarrow> a = b"
  shows "find P xs = Some x \<longleftrightarrow> x \<in> set xs \<and> P x"
  using assms by (induction xs) auto

lemma find_SomeD: "find P xs = Some x \<Longrightarrow> x \<in> set xs \<and> P x"
  by (induction xs) (auto split: if_splits)

lemma lookup_Some:
  "cache_wf dev c \<Longrightarrow> lookup c dev bno = Some b \<longleftrightarrow> b < NBUF \<and> bdev (c b) = dev \<and> blockno (c b) = bno"
  unfolding lookup_def by (subst find_unique) (auto simp: cache_wf_def)

lemma lookup_None:
  "lookup c dev bno = None \<longleftrightarrow> (\<forall>b < NBUF. \<not> (bdev (c b) = dev \<and> blockno (c b) = bno))"
  by (auto simp: lookup_def find_None_iff)

lemma lookup_lru:
  assumes "cache_wf dev c" "lru c xs"
  shows "find (\<lambda>b. bdev (c b) = dev \<and> blockno (c b) = bno) xs = lookup c dev bno"
proof (cases "lookup c dev bno")
  case None
  then have "find (\<lambda>b. bdev (c b) = dev \<and> blockno (c b) = bno) xs = None"
    using lru_facts(3)[OF assms(2)] by (simp add: lookup_None find_None_iff)
  then show ?thesis using None by simp
next
  case (Some b)
  then have "b < NBUF \<and> bdev (c b) = dev \<and> blockno (c b) = bno" using lookup_Some[OF assms(1)] by blast
  moreover have "find (\<lambda>b. bdev (c b) = dev \<and> blockno (c b) = bno) xs = Some b \<longleftrightarrow>
      b \<in> set xs \<and> bdev (c b) = dev \<and> blockno (c b) = bno"
    using assms lru_facts(3)[OF assms(2)] by (intro find_unique) (auto simp: cache_wf_def)
  ultimately show ?thesis using Some lru_facts(3)[OF assms(2)] by simp
qed

text \<open>Replacing one buffer: the block it then has, and the buffers of the other blocks.\<close>

lemma lookup_upd:
  assumes "cache_wf dev c" "cache_wf dev (c(b := q))" "b < NBUF" "bdev q = dev" "blockno q = bno"
  shows "lookup (c(b := q)) dev bno' =
    (if bno' = bno then Some b
     else if lookup c dev bno' = Some b then None else lookup c dev bno')"
proof -
  have "lookup (c(b := q)) dev bno' = Some i \<longleftrightarrow>
      (if bno' = bno then i = b else i \<noteq> b \<and> lookup c dev bno' = Some i)" for i
  proof (cases "i = b")
    case True
    then show ?thesis using lookup_Some[OF assms(2)] assms(3-5) by auto
  next
    case False
    have "i < NBUF \<Longrightarrow> bdev (c i) = dev \<Longrightarrow> blockno (c i) = bno \<Longrightarrow> i = b"
      using assms(2-5) False unfolding cache_wf_def by (metis fun_upd_apply)
    then show ?thesis using False lookup_Some[OF assms(2)] lookup_Some[OF assms(1)] by auto
  qed
  then have "lookup (c(b := q)) dev bno' = Some i \<longleftrightarrow>
      (if bno' = bno then Some b else if lookup c dev bno' = Some b then None else lookup c dev bno') = Some i" for i
    by auto
  then show ?thesis by (metis not_None_eq)
qed

lemma wf_upd:
  assumes "cache_wf dev c" "b < NBUF" "unat bno < 2 ^ 31" "bdev q = dev" "blockno q = bno"
    and "lookup c dev bno = Some b \<or> lookup c dev bno = None"
  shows "cache_wf dev (c(b := q))"
proof -
  have "i = b" if "i < NBUF" "bdev (c i) = dev" "blockno (c i) = bno" for i
    using assms(6)
  proof
    assume "lookup c dev bno = Some b"
    then show ?thesis using that assms(1) lookup_Some[OF assms(1)] unfolding cache_wf_def by blast
  next
    assume "lookup c dev bno = None"
    then show ?thesis using that by (simp add: lookup_None)
  qed
  then show ?thesis using assms(1-5) unfolding cache_wf_def by (metis fun_upd_apply)
qed


text \<open>
  Every operation replaces one buffer and the state of its lock. The buffer is the one of
  the block, or an unused one where the block has none.
\<close>

definition put_buf :: "nat \<Rightarrow> buf \<Rightarrow> sleeplock \<Rightarrow> 'z bio_scheme \<Rightarrow> 'z bio_scheme" where
  "put_buf b q v s = with_slock (SL_buf b) v (s\<lparr>bcache := (bcache s)(b := q)\<rparr>)"

lemma put_buf_frame [simp]:
  "locks (put_buf b q v s) = locks s" "cpu_ok (put_buf b q v s) = cpu_ok s" "thread p (put_buf b q v s) = thread p s"
  "ptable (put_buf b q v s) = ptable s" "disk (put_buf b q v s) = disk s"
  "dwrites (put_buf b q v s) = dwrites s" "bcache (put_buf b q v s) = (bcache s)(b := q)"
  "slocks (put_buf b q v s) = (slocks s)(SL_buf b := v)" "bio.more (put_buf b q v s) = bio.more s"
  by (simp_all add: put_buf_def with_slock_def)

definition choice_ok :: "uint \<Rightarrow> uint \<Rightarrow> 'z bio_scheme \<Rightarrow> nat \<Rightarrow> bool" where
  "choice_ok dev bno s b \<longleftrightarrow> b < NBUF \<and> (lookup (bcache s) dev bno = Some b \<or>
     lookup (bcache s) dev bno = None \<and> refcnt (bcache s b) = 0 \<and> \<not> sl_locked (slocks s (SL_buf b)))"

lemma bufs_invD:
  assumes "bufs_inv p dev s"
  shows "thread p s" "locks s L_bcache = free_lock" "locks s (L_sleep (SL_buf b)) = free_lock"
    "cache_wf dev (bcache s)" "b < NBUF \<Longrightarrow> refcnt (bcache s b) = 0 \<Longrightarrow> clean dev s b"
    "b < NBUF \<Longrightarrow> lock_ok p dev s b" "\<exists>xs. lru (bcache s) xs" "dev \<noteq> 0"
  using assms by (simp_all add: bufs_inv_def cache_wf_def)

text \<open>The new buffer is one for the block, in the same place of the list.\<close>

definition upd_ok :: "nat \<Rightarrow> uint \<Rightarrow> uint \<Rightarrow> 'z bio_scheme \<Rightarrow> nat \<Rightarrow> buf \<Rightarrow> bool" where
  "upd_ok p dev bno s b q \<longleftrightarrow> bufs_inv p dev s \<and> unat bno < 2 ^ 31 \<and> choice_ok dev bno s b \<and>
     bdev q = dev \<and> blockno q = bno \<and> next q = next (bcache s b) \<and> prev q = prev (bcache s b)"

lemma upd_okD:
  assumes "upd_ok p dev bno s b q"
  shows "bufs_inv p dev s" "unat bno < 2 ^ 31" "choice_ok dev bno s b" "bdev q = dev" "blockno q = bno"
    "next q = next (bcache s b)" "prev q = prev (bcache s b)" "b < NBUF" "cache_wf dev (bcache s)"
  using assms bufs_invD(4)[of p dev s] by (simp_all add: upd_ok_def choice_ok_def)

lemma put_buf_wf: "upd_ok p dev bno s b q \<Longrightarrow> cache_wf dev ((bcache s)(b := q))"
  using upd_okD[of p dev bno s b q] by (intro wf_upd[of dev _ b bno]) (auto simp: choice_ok_def)

lemma put_buf_lookup:
  assumes "upd_ok p dev bno s b q"
  shows "lookup ((bcache s)(b := q)) dev bno' =
    (if bno' = bno then Some b
     else if lookup (bcache s) dev bno' = Some b then None else lookup (bcache s) dev bno')"
  using upd_okD[OF assms] by (intro lookup_upd[OF _ put_buf_wf[OF assms]])

lemma put_buf_moved:
  assumes u: "upd_ok p dev bno s b q" and "bno' \<noteq> bno" "lookup (bcache s) dev bno' = Some b"
  shows "refcnt (bcache s b) = 0" "\<not> sl_locked (slocks s (SL_buf b))" "bdev (bcache s b) = dev"
    "blockno (bcache s b) = bno'" "clean dev s b"
proof -
  have l: "bdev (bcache s b) = dev" "blockno (bcache s b) = bno'" "b < NBUF"
    using assms(3) lookup_Some[OF upd_okD(9)[OF u]] by auto
  have "lookup (bcache s) dev bno \<noteq> Some b"
    using assms l lookup_Some[OF upd_okD(9)[OF u]] by auto
  then show "refcnt (bcache s b) = 0" "\<not> sl_locked (slocks s (SL_buf b))" 
    using upd_okD(3)[OF u] by (auto simp: choice_ok_def)
  then show "clean dev s b" using bufs_invD(5)[OF upd_okD(1)[OF u]] l by blast
  show "bdev (bcache s b) = dev" "blockno (bcache s b) = bno'" by (rule l)+
qed

lemma put_buf_view:
  assumes "upd_ok p dev bno s b q"
  shows "view dev (put_buf b q v s) = (view dev s)(bno := if valid q then bdata q else disk s (unat bno))"
proof (rule ext)
  fix bno'
  show "view dev (put_buf b q v s) bno' = ((view dev s)(bno := if valid q then bdata q else disk s (unat bno))) bno'"
  proof (cases "bno' \<noteq> bno \<and> lookup (bcache s) dev bno' = Some b")
    case True
    then show ?thesis using put_buf_moved[OF assms, of bno'] by (simp add: view_def put_buf_lookup[OF assms] clean_def)
  next
    case False
    then show ?thesis using upd_okD(2)[OF assms] by (auto simp: view_def put_buf_lookup[OF assms] split: option.split)
  qed
qed

lemma put_buf_refs:
  assumes "upd_ok p dev bno s b q"
  shows "refs dev (put_buf b q v s) = (refs dev s)(bno := refcnt q)"
proof (rule ext)
  fix bno'
  show "refs dev (put_buf b q v s) bno' = ((refs dev s)(bno := refcnt q)) bno'"
    using put_buf_moved(1)[OF assms, of bno'] by (auto simp: refs_def put_buf_lookup[OF assms] split: option.split)
qed

lemma put_buf_held:
  assumes "upd_ok p dev bno s b q"
  shows "held dev (put_buf b q v s) = (if sl_locked v then insert bno (held dev s) else held dev s - {bno})"
proof (rule set_eqI)
  fix bno'
  show "bno' \<in> held dev (put_buf b q v s) \<longleftrightarrow> bno' \<in> (if sl_locked v then insert bno (held dev s) else held dev s - {bno})"
    using put_buf_moved(2)[OF assms, of bno'] by (auto simp: held_def put_buf_lookup[OF assms])
qed

lemma put_buf_inv:
  assumes u: "upd_ok p dev bno s b q" and "refcnt q = 0 \<Longrightarrow> valid q \<Longrightarrow> bdata q = disk s (unat bno)"
    and "sl_locked v \<Longrightarrow> v = sl_held (pid (ptable s p)) \<and> valid q"
  shows "bufs_inv p dev (put_buf b q v s)"
proof -
  obtain xs where "lru (bcache s) xs" using bufs_invD(7)[OF upd_okD(1)[OF u]] by blast
  then have "lru ((bcache s)(b := q)) xs" 
    by (rule lru_upd) (simp_all add: upd_okD(6,7)[OF u])
  moreover have "clean dev (put_buf b q v s) i" if "i < NBUF" "refcnt (((bcache s)(b := q)) i) = 0" for i
    using that assms(2) bufs_invD(5)[OF upd_okD(1)[OF u], of i] upd_okD(5)[OF u]
    by (cases "i = b") (simp_all add: clean_def)
  moreover have "lock_ok p dev (put_buf b q v s) i" if "i < NBUF" for i
    using that assms(3) bufs_invD(6)[OF upd_okD(1)[OF u], of i] upd_okD(4)[OF u]
    by (cases "i = b") (simp_all add: lock_ok_def)
  ultimately show ?thesis
    using bufs_invD(1-3)[OF upd_okD(1)[OF u]] put_buf_wf[OF u] unfolding bufs_inv_def put_buf_frame by blast
qed


section \<open>The operations on the store\<close>

lemma disk_block_eq: "unat bno < 2 ^ 31 \<Longrightarrow> disk_block bno = unat bno"
proof -
  assume "unat bno < 2 ^ 31"
  then have "unat bno * unat (2::uint) < 2 ^ 32" by simp
  then have "unat (bno * 2) = unat bno * 2" using unat_mult_lem[of bno 2] by simp
  then show ?thesis by (simp add: disk_block_def)
qed

lemma used_blocks:
  assumes "cache_wf dev (bcache s)"
  shows "{x. refs dev s x \<noteq> 0} = (\<lambda>b. blockno (bcache s b)) ` {b. b < NBUF \<and> refcnt (bcache s b) \<noteq> 0}"
proof (rule set_eqI)
  fix x
  have "bdev (bcache s b) = dev" if "b < NBUF" "refcnt (bcache s b) \<noteq> 0" for b
    using assms that unfolding cache_wf_def by blast
  moreover have "refs dev s x \<noteq> 0 \<longleftrightarrow> (\<exists>b. lookup (bcache s) dev x = Some b \<and> refcnt (bcache s b) \<noteq> 0)"
    by (simp add: refs_def split: option.split)
  ultimately show "x \<in> {x. refs dev s x \<noteq> 0} \<longleftrightarrow>
      x \<in> (\<lambda>b. blockno (bcache s b)) ` {b. b < NBUF \<and> refcnt (bcache s b) \<noteq> 0}"
    unfolding lookup_Some[OF assms] by blast
qed

lemma used_blocks_finite: "cache_wf dev (bcache s) \<Longrightarrow> finite {x. refs dev s x \<noteq> 0}"
  by (simp add: used_blocks)

lemma used_blocks_card:
  assumes "cache_wf dev (bcache s)"
  shows "card {x. refs dev s x \<noteq> 0} = card {b. b < NBUF \<and> refcnt (bcache s b) \<noteq> 0}"
proof -
  have "inj_on (\<lambda>b. blockno (bcache s b)) {b. b < NBUF \<and> refcnt (bcache s b) \<noteq> 0}"
    using assms unfolding cache_wf_def inj_on_def by blast
  then show ?thesis by (simp add: used_blocks[OF assms] card_image)
qed

lemma unused_buffer:
  assumes "cache_wf dev (bcache s)" "card {x. refs dev s x \<noteq> 0} < NBUF"
  shows "\<exists>b < NBUF. refcnt (bcache s b) = 0"
proof (rule ccontr)
  assume "\<not> ?thesis"
  then have "{b. b < NBUF \<and> refcnt (bcache s b) \<noteq> 0} = {..<NBUF}" by auto
  then show False using assms(2) unfolding used_blocks_card[OF assms(1)] by simp
qed

text \<open>Blocks that are locked have a reference, so that no locked buffer is recycled.\<close>

definition settled :: "uint \<Rightarrow> 'z bio_scheme \<Rightarrow> bool" where
  "settled dev s \<longleftrightarrow> (\<forall>x \<in> held dev s. refs dev s x \<noteq> 0)"

definition room :: "uint \<Rightarrow> 'z bio_scheme \<Rightarrow> uint \<Rightarrow> bool" where
  "room dev s bno \<longleftrightarrow> refs dev s bno \<noteq> 0 \<or> card {x. refs dev s x \<noteq> 0} < NBUF"

lemma unlocked_unused:
  assumes "bufs_inv p dev s" "settled dev s" "b < NBUF" "refcnt (bcache s b) = 0"
  shows "\<not> sl_locked (slocks s (SL_buf b))"
proof
  assume l: "sl_locked (slocks s (SL_buf b))"
  then have "bdev (bcache s b) = dev" using bufs_invD(6)[OF assms(1,3)] by (simp add: lock_ok_def)
  then have "lookup (bcache s) dev (blockno (bcache s b)) = Some b"
    using lookup_Some[OF bufs_invD(4)[OF assms(1)]] assms(3) by simp
  then show False using assms(2,4) l by (auto simp: settled_def held_def refs_def)
qed

text \<open>The choice of \<open>bget\<close>, with the buffer it makes of it.\<close>

lemma bget_take:
  assumes inv: "bufs_inv p dev s" and st: "settled dev s" and nh: "bno \<notin> held dev s"
    and bno: "unat bno < 2 ^ 31" and rm: "room dev s bno"
  shows "\<exists>b q. choice_ok dev bno s b \<and> bget dev bno s = Ret b (put_buf b q (sl_held (pid (ptable s p))) s) \<and>
    upd_ok p dev bno s b q \<and> refcnt q = refs dev s bno + 1 \<and>
    (if valid q then bdata q else disk s (unat bno)) = view dev s bno"
proof -
  note d = bufs_invD[OF inv]
  obtain xs where xs: "lru (bcache s) xs" using d(7) by blast
  have run: "bget dev bno s = Ret b (put_buf b (f (bcache s b)) (sl_held (pid (ptable s p))) s)"
    if "bget_choice dev bno (bcache s) xs = Some (b, f)" "\<not> sl_locked (slocks s (SL_buf b))" for b f
  proof -
    have "acquiresleep (SL_buf b) (with_buf b f s)
        = Ret () (with_slock (SL_buf b) (sl_held (pid (ptable s p))) (with_buf b f s))"
      using acquiresleep_free[of p "with_buf b f s" "SL_buf b"] that(2) d(1,3) by simp
    then show ?thesis using bget_eq[OF d(1,2) xs, of dev bno] that(1)
      by (simp add: bind_def ret_def put_buf_def with_buf_def)
  qed
  show ?thesis
  proof (cases "lookup (bcache s) dev bno")
    case (Some b)
    let ?f = "\<lambda>q. q\<lparr>refcnt := refcnt q + 1\<rparr>"
    have b: "b < NBUF" "bdev (bcache s b) = dev" "blockno (bcache s b) = bno"
      using Some lookup_Some[OF d(4)] by auto
    have "\<not> sl_locked (slocks s (SL_buf b))" using nh Some by (simp add: held_def)
    moreover have "bget_choice dev bno (bcache s) xs = Some (b, ?f)"
      by (simp add: bget_choice_def lookup_lru[OF d(4) xs] Some)
    moreover have "choice_ok dev bno s b" using Some b by (simp add: choice_ok_def)
    moreover have "upd_ok p dev bno s b (?f (bcache s b))" using inv bno b calculation by (simp add: upd_ok_def)
    ultimately show ?thesis using run[of b ?f] Some bno
      by (intro exI[of _ b] exI[of _ "?f (bcache s b)"]) (simp add: refs_def view_def)
  next
    case None
    have "refs dev s bno = 0" using None by (simp add: refs_def)
    then obtain a where a: "a < NBUF" "refcnt (bcache s a) = 0"
      using unused_buffer[OF d(4)] rm by (auto simp: room_def)
    let ?f = "\<lambda>q. q\<lparr>bdev := dev, blockno := bno, valid := False, refcnt := 1\<rparr>"
    have "find (\<lambda>b. refcnt (bcache s b) = 0) (rev xs) \<noteq> None"
      using a lru_facts(3)[OF xs, of a] by (auto simp: find_None_iff)
    then obtain b where fb: "find (\<lambda>b. refcnt (bcache s b) = 0) (rev xs) = Some b" by blast
    have b: "b < NBUF" "refcnt (bcache s b) = 0"
      using find_SomeD[OF fb] lru_facts(3)[OF xs, of b] by simp_all
    have l: "\<not> sl_locked (slocks s (SL_buf b))" by (rule unlocked_unused[OF inv st b])
    moreover have "bget_choice dev bno (bcache s) xs = Some (b, ?f)"
      by (simp add: bget_choice_def lookup_lru[OF d(4) xs] None fb)
    moreover have "choice_ok dev bno s b" using None b l by (simp add: choice_ok_def)
    moreover have "upd_ok p dev bno s b (?f (bcache s b))" using inv bno b calculation by (simp add: upd_ok_def)
    ultimately show ?thesis using run[of b ?f] None bno
      by (intro exI[of _ b] exI[of _ "?f (bcache s b)"]) (simp add: refs_def view_def)
  qed
qed


text \<open>The abstract store, and what each operation of the cache does to it.\<close>

record store =
  sview :: "uint \<Rightarrow> cstr"
  srefs :: "uint \<Rightarrow> uint"
  slocked :: "uint \<Rightarrow> nat option"
  sdisk :: "nat \<Rightarrow> cstr"
  swrites :: "(nat \<times> cstr) list"

definition get_block :: "nat \<Rightarrow> uint \<Rightarrow> store \<Rightarrow> store" where
  "get_block b bno A = A\<lparr>srefs := (srefs A)(bno := srefs A bno + 1), slocked := (slocked A)(bno \<mapsto> b)\<rparr>"

definition set_block :: "uint \<Rightarrow> cstr \<Rightarrow> store \<Rightarrow> store" where
  "set_block bno d A = A\<lparr>sview := (sview A)(bno := d)\<rparr>"

definition flush_block :: "uint \<Rightarrow> store \<Rightarrow> store" where
  "flush_block bno A = A\<lparr>sdisk := (sdisk A)(unat bno := sview A bno),
     swrites := (unat bno, sview A bno) # swrites A\<rparr>"

definition drop_block :: "uint \<Rightarrow> store \<Rightarrow> store" where
  "drop_block bno A = A\<lparr>srefs := (srefs A)(bno := srefs A bno - 1), slocked := (slocked A)(bno := None)\<rparr>"

definition pin_block :: "uint \<Rightarrow> uint \<Rightarrow> store \<Rightarrow> store" where
  "pin_block bno k A = A\<lparr>srefs := (srefs A)(bno := srefs A bno + k)\<rparr>"

definition locked_buf :: "uint \<Rightarrow> 'z bio_scheme \<Rightarrow> uint \<Rightarrow> nat option" where
  "locked_buf dev s bno = (if bno \<in> held dev s then lookup (bcache s) dev bno else None)"

definition store_of :: "uint \<Rightarrow> 'z bio_scheme \<Rightarrow> store" where
  "store_of dev s = \<lparr>sview = view dev s, srefs = refs dev s, slocked = locked_buf dev s,
     sdisk = disk s, swrites = dwrites s\<rparr>"

lemma store_of_sel [simp]:
  "sview (store_of dev s) = view dev s" "srefs (store_of dev s) = refs dev s"
  "slocked (store_of dev s) = locked_buf dev s" "sdisk (store_of dev s) = disk s"
  "swrites (store_of dev s) = dwrites s"
  by (simp_all add: store_of_def)

lemma locked_bufD:
  assumes "bufs_inv p dev s" "locked_buf dev s bno = Some b"
  shows "b < NBUF" "lookup (bcache s) dev bno = Some b" "bdev (bcache s b) = dev" "blockno (bcache s b) = bno"
    "slocks s (SL_buf b) = sl_held (pid (ptable s p))" "valid (bcache s b)" "view dev s bno = bdata (bcache s b)"
    "refs dev s bno = refcnt (bcache s b)" "unat bno < 2 ^ 31" "bno \<in> held dev s" "choice_ok dev bno s b"
proof -
  note d = bufs_invD[OF assms(1)]
  show l: "lookup (bcache s) dev bno = Some b" and h: "bno \<in> held dev s"
    using assms(2) by (auto simp: locked_buf_def split: if_splits)
  then show b: "b < NBUF" "bdev (bcache s b) = dev" "blockno (bcache s b) = bno" using lookup_Some[OF d(4)] by auto
  show lb: "unat bno < 2 ^ 31" using d(4,8) b unfolding cache_wf_def by blast
  have "sl_locked (slocks s (SL_buf b))" using h l by (simp add: held_def)
  then show "slocks s (SL_buf b) = sl_held (pid (ptable s p))" and v: "valid (bcache s b)"
    using d(6)[OF b(1)] by (simp_all add: lock_ok_def)
  show "view dev s bno = bdata (bcache s b)" "refs dev s bno = refcnt (bcache s b)" "choice_ok dev bno s b"
    using l v lb b(1) by (simp_all add: view_def refs_def choice_ok_def)
qed

lemma held_None: "bufs_inv p dev s \<Longrightarrow> locked_buf dev s bno = None \<longleftrightarrow> bno \<notin> held dev s"
  by (auto simp: locked_buf_def held_def)

lemma put_buf_locked:
  assumes "upd_ok p dev bno s b q"
  shows "locked_buf dev (put_buf b q v s) = (locked_buf dev s)(bno := if sl_locked v then Some b else None)"
proof (rule ext)
  fix x
  show "locked_buf dev (put_buf b q v s) x = ((locked_buf dev s)(bno := if sl_locked v then Some b else None)) x"
    using put_buf_moved(2)[OF assms, of x]
    by (auto simp: locked_buf_def put_buf_held[OF assms] put_buf_lookup[OF assms] held_def)
qed

text \<open>A locked buffer replaced by one with other data, count or lock.\<close>

lemma put_locked:
  assumes "bufs_inv p dev s" "locked_buf dev s bno = Some b"
    and "q = (bcache s b)\<lparr>bdata := d, refcnt := r\<rparr>" "v = (if l then slocks s (SL_buf b) else sl_free)"
    and "r = 0 \<Longrightarrow> d = disk s (unat bno)"
  shows "bufs_inv p dev (put_buf b q v s)"
    "store_of dev (put_buf b q v s) = (store_of dev s)\<lparr>sview := (view dev s)(bno := d),
       srefs := (refs dev s)(bno := r), slocked := (locked_buf dev s)(bno := if l then Some b else None)\<rparr>"
proof -
  note D = locked_bufD[OF assms(1,2)]
  have q: "bdev q = dev" "blockno q = bno" "valid q" "bdata q = d" "refcnt q = r"
    "next q = next (bcache s b)" "prev q = prev (bcache s b)"
    using D assms(3) by simp_all
  have u: "upd_ok p dev bno s b q" using assms(1) D(9,11) q by (simp add: upd_ok_def)
  have v: "sl_locked v = l" using D(5) assms(4) by (simp add: sl_held_def sl_free_def)
  show "bufs_inv p dev (put_buf b q v s)"
    by (rule put_buf_inv[OF u]) (use q assms(4,5) v D(5) in \<open>auto simp: sl_free_def\<close>)
  show "store_of dev (put_buf b q v s) = (store_of dev s)\<lparr>sview := (view dev s)(bno := d),
       srefs := (refs dev s)(bno := r), slocked := (locked_buf dev s)(bno := if l then Some b else None)\<rparr>"
    by (simp add: store_of_def put_buf_view[OF u] put_buf_refs[OF u] put_buf_locked[OF u] q v)
qed


text \<open>Waking processes and moving a buffer to the front leave the store alone.\<close>

lemma wake_bio [simp]:
  "bcache (wake ch s) = bcache s" "slocks (wake ch s) = slocks s" "disk (wake ch s) = disk s"
  "dwrites (wake ch s) = dwrites s" "bio.more (wake ch s) = bio.more s"
  "with_buf b f (wake ch s) = wake ch (with_buf b f s)" "patience (wake ch s) = patience s"
  by (simp_all add: wake_def with_buf_def cong: if_cong)

lemma wake_store [simp]: "store_of dev (wake ch s) = store_of dev s"
proof -
  have "view dev (wake ch s) = view dev s" "refs dev (wake ch s) = refs dev s"
    "held dev (wake ch s) = held dev s" by (simp_all add: view_def refs_def held_def fun_eq_iff cong: if_cong option.case_cong)
  then show ?thesis by (simp add: store_of_def locked_buf_def fun_eq_iff)
qed

lemma wake_inv [simp]: "bufs_inv p dev (wake ch s) = bufs_inv p dev s"
  by (simp add: bufs_inv_def clean_def lock_ok_def)

lemma to_front_lookup [simp]: "lookup (to_front b c) dev bno = lookup c dev bno"
  by (simp add: lookup_def)

definition front :: "nat \<Rightarrow> 'z bio_scheme \<Rightarrow> 'z bio_scheme" where
  "front b s = s\<lparr>bcache := to_front b (bcache s)\<rparr>"

lemma front_frame [simp]:
  "locks (front b s) = locks s" "thread p (front b s) = thread p s" "cpu_ok (front b s) = cpu_ok s"
  "slocks (front b s) = slocks s" "ptable (front b s) = ptable s" "disk (front b s) = disk s"
  "dwrites (front b s) = dwrites s" "bio.more (front b s) = bio.more s"
  "bcache (front b s) = to_front b (bcache s)" "front b (acq lk s) = acq lk (front b s)"
  by (simp_all add: front_def)

lemma front_store [simp]: "store_of dev (front b s) = store_of dev s"
proof -
  have "view dev (front b s) = view dev s" "refs dev (front b s) = refs dev s"
    "held dev (front b s) = held dev s" by (simp_all add: view_def refs_def held_def fun_eq_iff cong: if_cong option.case_cong)
  then show ?thesis by (simp add: store_of_def locked_buf_def fun_eq_iff)
qed

lemma front_inv: "bufs_inv p dev s \<Longrightarrow> b < NBUF \<Longrightarrow> bufs_inv p dev (front b s)"
proof -
  assume inv: "bufs_inv p dev s" and b: "b < NBUF"
  obtain xs where "lru (bcache s) xs" using bufs_invD(7)[OF inv] by blast
  then have "\<exists>xs. lru (to_front b (bcache s)) xs" using lru_to_front[OF _ b] by blast
  moreover have "cache_wf dev (to_front b (bcache s)) = cache_wf dev (bcache s)"
    "clean dev (front b s) = clean dev s" "lock_ok p dev (front b s) = lock_ok p dev s"
    by (simp_all add: cache_wf_def clean_def lock_ok_def fun_eq_iff)
  ultimately show ?thesis using inv by (simp add: bufs_inv_def)
qed

text \<open>The list operations of \<open>brelse\<close>.\<close>

definition brelse_move :: "nat \<Rightarrow> ('z bio_scheme, unit) op" where
  "brelse_move b =
     bind (buf_of b prev) (\<lambda>pv.
     bind (buf_of b next) (\<lambda>nx.
     bind (update_buf nx (\<lambda>q. q\<lparr>prev := pv\<rparr>)) (\<lambda>_.
     bind (buf_of b prev) (\<lambda>pv.
     bind (buf_of b next) (\<lambda>nx.
     bind (update_buf pv (\<lambda>q. q\<lparr>next := nx\<rparr>)) (\<lambda>_.
     bind (buf_of HEAD next) (\<lambda>hn.
     bind (update_buf b (\<lambda>q. q\<lparr>next := hn\<rparr>)) (\<lambda>_.
     bind (update_buf b (\<lambda>q. q\<lparr>prev := HEAD\<rparr>)) (\<lambda>_.
     bind (buf_of HEAD next) (\<lambda>hn.
     bind (update_buf hn (\<lambda>q. q\<lparr>prev := b\<rparr>)) (\<lambda>_.
     update_buf HEAD (\<lambda>h. h\<lparr>next := b\<rparr>))))))))))))"

lemma brelse_unfold:
  "brelse b =
     bind (holdingsleep (SL_buf b)) (\<lambda>h.
     if \<not> h then panic ''brelse'' else
     bind (releasesleep (SL_buf b)) (\<lambda>_.
     bind (acquire L_bcache) (\<lambda>_.
     bind (update_buf b (\<lambda>q. q\<lparr>refcnt := refcnt q - 1\<rparr>)) (\<lambda>_.
     bind (buf_of b (\<lambda>q. refcnt q = 0)) (\<lambda>z.
     bind (if z then brelse_move b else ret ()) (\<lambda>_.
     release L_bcache))))))"
  unfolding brelse_def brelse_move_def by (rule refl)

lemma brelse_front: "brelse_move b s = Ret () (front b s)"
proof -
  have n: "buf_of i next t = Ret (nexts (bcache t) i) t" "buf_of i prev t = Ret (prevs (bcache t) i) t"
    for i and t :: "'a bio_scheme" by (simp_all add: buf_of_def reads_def nexts_def prevs_def)
  have u: "update_buf i (\<lambda>q. q\<lparr>prev := v\<rparr>) t = Ret () (t\<lparr>bcache := set_prev i v (bcache t)\<rparr>)"
    "update_buf i (\<lambda>q. q\<lparr>next := v\<rparr>) t = Ret () (t\<lparr>bcache := set_next i v (bcache t)\<rparr>)"
    for i v and t :: "'a bio_scheme" by (simp_all add: update_buf_def modify_def set_prev_def set_next_def)
  show ?thesis
    by (simp add: brelse_move_def bind_def n u front_def to_front_def push_front_def unlink_def Let_def)
qed


text \<open>
  The operations as the abstract store sees them. \<open>ok p dev s t\<close>: \<open>t\<close> satisfies the
  invariant, and what lies above the buffer cache is as in \<open>s\<close>.
\<close>

definition after_ok :: "nat \<Rightarrow> uint \<Rightarrow> 'z bio_scheme \<Rightarrow> 'z bio_scheme \<Rightarrow> bool" where
  "after_ok p dev s t \<longleftrightarrow> bufs_inv p dev t \<and> locks t = locks s \<and> bio.more t = bio.more s"

definition can_get :: "uint \<Rightarrow> store \<Rightarrow> bool" where
  "can_get bno A \<longleftrightarrow> unat bno < 2 ^ 31 \<and> slocked A bno = None \<and> srefs A bno + 1 \<noteq> 0 \<and>
     (\<forall>x \<in> dom (slocked A). srefs A x \<noteq> 0) \<and> (srefs A bno \<noteq> 0 \<or> card {x. srefs A x \<noteq> 0} < NBUF)"

lemma dom_locked: "dom (locked_buf dev s) = held dev s"
  by (auto simp: locked_buf_def held_def split: if_splits)

lemma bread_put:
  assumes inv: "bufs_inv p dev s" and c: "settled dev s" "bno \<notin> held dev s" "unat bno < 2 ^ 31" "room dev s bno"
  shows "\<exists>b q. bread dev bno s = Ret b (put_buf b q (sl_held (pid (ptable s p))) s) \<and> upd_ok p dev bno s b q \<and>
    refcnt q = refs dev s bno + 1 \<and> valid q \<and> bdata q = view dev s bno"
proof -
  obtain b q where q: "bget dev bno s = Ret b (put_buf b q (sl_held (pid (ptable s p))) s)"
      "upd_ok p dev bno s b q" "refcnt q = refs dev s bno + 1"
      "(if valid q then bdata q else disk s (unat bno)) = view dev s bno"
    using bget_take[OF inv c] by blast
  let ?q = "if valid q then q else q\<lparr>bdata := disk s (unat bno), valid := True\<rparr>"
  have "blockno q = bno" using q(2) by (simp add: upd_ok_def)
  then have "bread dev bno s = Ret b (put_buf b ?q (sl_held (pid (ptable s p))) s)"
    using q(1) disk_block_eq[OF c(3)]
    by (simp add: bread_def bind_def buf_of_def reads_def disk_rw_def update_buf_def modify_def ret_def
        put_buf_def with_slock_def)
  moreover have "upd_ok p dev bno s b ?q" using q(2) by (simp add: upd_ok_def)
  moreover have "refcnt ?q = refs dev s bno + 1" "valid ?q" "bdata ?q = view dev s bno" using q(3,4) by auto
  ultimately show ?thesis by blast
qed

lemma bread_law:
  assumes inv: "bufs_inv p dev s" and can: "can_get bno (store_of dev s)"
  shows "\<exists>b t. bread dev bno s = Ret b t \<and> after_ok p dev s t \<and> store_of dev t = get_block b bno (store_of dev s)"
proof -
  have c: "settled dev s" "bno \<notin> held dev s" "unat bno < 2 ^ 31" "room dev s bno" "refs dev s bno + 1 \<noteq> 0"
    using can held_None[OF inv] by (auto simp: can_get_def settled_def room_def dom_locked)
  obtain b q where q: "bread dev bno s = Ret b (put_buf b q (sl_held (pid (ptable s p))) s)"
      and u: "upd_ok p dev bno s b q" and f: "refcnt q = refs dev s bno + 1" "valid q" "bdata q = view dev s bno"
    using bread_put[OF inv c(1-4)] by blast
  let ?v = "sl_held (pid (ptable s p))"
  have "bufs_inv p dev (put_buf b q ?v s)" using f c(5) by (intro put_buf_inv[OF u]) simp_all
  moreover have "sl_locked ?v" by (simp add: sl_held_def)
  then have "store_of dev (put_buf b q ?v s) = get_block b bno (store_of dev s)"
    unfolding store_of_def put_buf_view[OF u] put_buf_refs[OF u] put_buf_locked[OF u]
    by (simp add: f get_block_def)
  ultimately show ?thesis using q by (auto simp: after_ok_def)
qed

lemma data_law:
  "bufs_inv p dev s \<Longrightarrow> slocked (store_of dev s) bno = Some b \<Longrightarrow> buf_of b bdata s = Ret (sview (store_of dev s) bno) s"
  using locked_bufD(7)[of p dev s bno b] by (simp add: buf_of_def reads_def)

lemma set_law:
  assumes inv: "bufs_inv p dev s" and l: "slocked (store_of dev s) bno = Some b"
    and r: "srefs (store_of dev s) bno \<noteq> 0"
  shows "\<exists>t. update_buf b (\<lambda>q. q\<lparr>bdata := g (bdata q)\<rparr>) s = Ret () t \<and> after_ok p dev s t \<and>
    store_of dev t = set_block bno (g (sview (store_of dev s) bno)) (store_of dev s)"
proof -
  have l: "locked_buf dev s bno = Some b" using l by simp
  note D = locked_bufD[OF inv l]
  let ?q = "(bcache s b)\<lparr>bdata := g (bdata (bcache s b)), refcnt := refcnt (bcache s b)\<rparr>"
  let ?t = "put_buf b ?q (slocks s (SL_buf b)) s"
  note P = put_locked[OF inv l, where q = ?q and d = "g (bdata (bcache s b))" and r = "refcnt (bcache s b)" and v = "slocks s (SL_buf b)" and l = True]
  have "bufs_inv p dev ?t" using P(1) r D(8) by simp
  moreover have "store_of dev ?t = set_block bno (g (view dev s bno)) (store_of dev s)"
  proof -
    have "(refs dev s)(bno := refcnt (bcache s b)) = refs dev s" "(locked_buf dev s)(bno := Some b) = locked_buf dev s"
      using D(8) l by (simp_all add: fun_upd_idem)
    then show ?thesis using P(2) r D(7,8) by (simp add: set_block_def store_of_def)
  qed
  moreover have "update_buf b (\<lambda>q. q\<lparr>bdata := g (bdata q)\<rparr>) s = Ret () ?t"
    by (simp add: update_buf_def modify_def put_buf_def with_slock_def)
  ultimately show ?thesis by (auto simp: after_ok_def)
qed

lemma holding_locked:
  assumes "bufs_inv p dev s" "locked_buf dev s bno = Some b"
  shows "holdingsleep (SL_buf b) s = Ret True s"
  using holdingsleep_eq[OF bufs_invD(1)[OF assms(1)] bufs_invD(3)[OF assms(1)]] locked_bufD(5)[OF assms]
  by (simp add: sl_held_def)

lemma bwrite_law:
  assumes inv: "bufs_inv p dev s" and l: "slocked (store_of dev s) bno = Some b"
  shows "\<exists>t. bwrite b s = Ret () t \<and> after_ok p dev s t \<and> store_of dev t = flush_block bno (store_of dev s)"
proof -
  have l: "locked_buf dev s bno = Some b" using l by simp
  note D = locked_bufD[OF inv l]
  let ?d = "bdata (bcache s b)"
  let ?t = "s\<lparr>disk := (disk s)(unat bno := ?d), dwrites := (unat bno, ?d) # dwrites s\<rparr>"
  have run: "bwrite b s = Ret () ?t"
    using holding_locked[OF inv l] D(4) disk_block_eq[OF D(9)]
    by (simp add: bwrite_def bind_def disk_rw_def buf_of_def reads_def modify_def)
  have v: "view dev ?t = view dev s"
  proof (rule ext)
    fix x
    show "view dev ?t x = view dev s x"
    proof (cases "x = bno")
      case True
      then show ?thesis using D(2,6,9) by (simp add: view_def)
    next
      case False
      then have "unat x \<noteq> unat bno" by (simp add: word_unat_eq_iff)
      then show ?thesis by (simp add: view_def cong: option.case_cong if_cong)
    qed
  qed
  have "refs dev ?t = refs dev s" "held dev ?t = held dev s"
    by (simp_all add: refs_def held_def fun_eq_iff cong: option.case_cong)
  then have "store_of dev ?t = flush_block bno (store_of dev s)"
    using v D(7) by (simp add: store_of_def flush_block_def locked_buf_def fun_eq_iff)
  moreover have "clean dev ?t i" if "i < NBUF" "refcnt (bcache s i) = 0" for i
  proof (cases "i = b")
    case True
    then show ?thesis using D by (simp add: clean_def)
  next
    case False
    then have "bdev (bcache s i) = dev \<Longrightarrow> blockno (bcache s i) \<noteq> bno"
      using that D(1,3,4) bufs_invD(4)[OF inv] unfolding cache_wf_def by blast
    then show ?thesis using bufs_invD(5)[OF inv that] by (auto simp: clean_def word_unat_eq_iff)
  qed
  then have "bufs_inv p dev ?t" using inv by (simp add: bufs_inv_def lock_ok_def)
  ultimately show ?thesis using run by (auto simp: after_ok_def)
qed


lemma brelse_law:
  assumes inv: "bufs_inv p dev s" and l: "slocked (store_of dev s) bno = Some b"
    and c: "srefs (store_of dev s) bno = 1 \<Longrightarrow> sview (store_of dev s) bno = sdisk (store_of dev s) (unat bno)"
  shows "\<exists>t. brelse b s = Ret () t \<and> after_ok p dev s t \<and> store_of dev t = drop_block bno (store_of dev s)"
proof -
  have l: "locked_buf dev s bno = Some b" using l by simp
  note D = locked_bufD[OF inv l] and d = bufs_invD[OF inv]
  let ?q = "(bcache s b)\<lparr>bdata := bdata (bcache s b), refcnt := refcnt (bcache s b) - 1\<rparr>"
  let ?u = "put_buf b ?q sl_free s"
  let ?w = "wake (C_sleeplock (SL_buf b)) ?u"
  note P = put_locked[OF inv l, where q = ?q and d = "bdata (bcache s b)" and r = "refcnt (bcache s b) - 1"
      and v = sl_free and l = False]
  have z: "refcnt (bcache s b) - 1 = 0 \<Longrightarrow> bdata (bcache s b) = disk s (unat bno)"
    using c D(7,8) by simp
  have ui: "bufs_inv p dev ?u" using P(1) z by simp
  have us: "store_of dev ?u = drop_block bno (store_of dev s)"
  proof -
    have "(view dev s)(bno := bdata (bcache s b)) = view dev s" using D(7) by (simp add: fun_upd_idem)
    then show ?thesis using P(2) z D(8) by (simp add: drop_block_def store_of_def)
  qed
  let ?t = "if refcnt (bcache s b) - 1 = 0 then front b ?w else ?w"
  have rel: "releasesleep (SL_buf b) s = Ret () (wake (C_sleeplock (SL_buf b)) (with_slock (SL_buf b) sl_free s))"
    by (rule releasesleep_eq[OF d(1,3)])
  have w: "with_buf b (\<lambda>q. q\<lparr>refcnt := refcnt q - 1\<rparr>) (with_slock (SL_buf b) sl_free s) = ?u"
    by (simp add: with_buf_def put_buf_def with_slock_def)
  have ok: "cpu_ok ?w" "locks ?w L_bcache = free_lock" "cpu_ok (front b ?w)" "locks (front b ?w) L_bcache = free_lock"
    using threadD(1)[OF bufs_invD(1)[OF ui]] d(2) by simp_all
  have "brelse b s = Ret () ?t"
    using d(2) ok
    by (simp add: brelse_unfold bind_def holding_locked[OF inv l] rel acquire_eq update_buf_eq w buf_of_def
        reads_def brelse_front ret_def release_acq)
  moreover have "bufs_inv p dev ?t" "store_of dev ?t = drop_block bno (store_of dev s)" "bio.more ?t = bio.more s"
  proof -
    obtain w where w: "w = ?w" by simp
    have "bufs_inv p dev w" "store_of dev w = drop_block bno (store_of dev s)" "bio.more w = bio.more s"
      using ui us by (simp_all add: w)
    then show "bufs_inv p dev ?t" "store_of dev ?t = drop_block bno (store_of dev s)" "bio.more ?t = bio.more s"
      unfolding w [symmetric] using front_inv[of p dev w b] D(1) by simp_all
  qed
  ultimately show ?thesis by (auto simp: after_ok_def)
qed

lemma pin_law:
  assumes inv: "bufs_inv p dev s" and l: "slocked (store_of dev s) bno = Some b"
    and c: "srefs (store_of dev s) bno + k = 0 \<Longrightarrow> sview (store_of dev s) bno = sdisk (store_of dev s) (unat bno)"
  shows "\<exists>t. bind (acquire L_bcache) (\<lambda>_. bind (update_buf b (\<lambda>q. q\<lparr>refcnt := refcnt q + k\<rparr>)) (\<lambda>_. release L_bcache)) s
      = Ret () t \<and> after_ok p dev s t \<and> store_of dev t = pin_block bno k (store_of dev s)"
proof -
  have l: "locked_buf dev s bno = Some b" using l by simp
  note D = locked_bufD[OF inv l] and d = bufs_invD[OF inv]
  let ?q = "(bcache s b)\<lparr>bdata := bdata (bcache s b), refcnt := refcnt (bcache s b) + k\<rparr>"
  let ?u = "put_buf b ?q (slocks s (SL_buf b)) s"
  note P = put_locked[OF inv l, where q = ?q and d = "bdata (bcache s b)" and r = "refcnt (bcache s b) + k"
      and v = "slocks s (SL_buf b)" and l = True]
  have z: "refcnt (bcache s b) + k = 0 \<Longrightarrow> bdata (bcache s b) = disk s (unat bno)"
    using c D(7,8) by simp
  have "bufs_inv p dev ?u" using P(1) z by simp
  moreover have "store_of dev ?u = pin_block bno k (store_of dev s)"
  proof -
    have "(view dev s)(bno := bdata (bcache s b)) = view dev s" "(locked_buf dev s)(bno := Some b) = locked_buf dev s"
      using D(7) l by (simp_all add: fun_upd_idem)
    then show ?thesis using P(2) z D(8) by (simp add: pin_block_def store_of_def)
  qed
  moreover have "with_buf b (\<lambda>q. q\<lparr>refcnt := refcnt q + k\<rparr>) s = ?u"
    by (simp add: with_buf_def put_buf_def with_slock_def)
  moreover have "cpu_ok ?u" "locks ?u L_bcache = free_lock"
    using threadD(1)[OF bufs_invD(1)[OF calculation(1)]] d(2) by simp_all
  ultimately show ?thesis using d(2)
    by (intro exI[of _ ?u]) (simp add: bind_def acquire_eq update_buf_eq release_acq after_ok_def)
qed

lemma bpin_law:
  assumes "bufs_inv p dev s" and "slocked (store_of dev s) bno = Some b"
    and "srefs (store_of dev s) bno + 1 = 0 \<Longrightarrow> sview (store_of dev s) bno = sdisk (store_of dev s) (unat bno)"
  shows "\<exists>t. bpin b s = Ret () t \<and> after_ok p dev s t \<and> store_of dev t = pin_block bno 1 (store_of dev s)"
  using pin_law[OF assms] by (simp add: bpin_def)

lemma bunpin_law:
  assumes "bufs_inv p dev s" and "slocked (store_of dev s) bno = Some b"
    and "srefs (store_of dev s) bno = 1 \<Longrightarrow> sview (store_of dev s) bno = sdisk (store_of dev s) (unat bno)"
  shows "\<exists>t. bunpin b s = Ret () t \<and> after_ok p dev s t \<and> store_of dev t = pin_block bno (- 1) (store_of dev s)"
  using pin_law[of p dev s bno b "- 1"] assms by (simp add: bunpin_def)


lemma clean_law:
  assumes "bufs_inv p dev s" "unat bno < 2 ^ 31" "srefs (store_of dev s) bno = 0"
  shows "sview (store_of dev s) bno = sdisk (store_of dev s) (unat bno)"
proof (cases "lookup (bcache s) dev bno")
  case None
  then show ?thesis using assms(2) by (simp add: view_def)
next
  case (Some b)
  then have b: "b < NBUF" "bdev (bcache s b) = dev" "blockno (bcache s b) = bno"
    using lookup_Some[OF bufs_invD(4)[OF assms(1)]] by auto
  then have "clean dev s b" using bufs_invD(5)[OF assms(1)] Some assms(3) by (simp add: refs_def)
  then show ?thesis using b Some assms(2) by (simp add: clean_def view_def)
qed

section \<open>The interface of the cache\<close>

text \<open>
  What the layers above rely on: reading a block locks it and gives its content, and the
  other operations act on the blocks locked by the caller as the abstract store says.
\<close>

locale block_store =
  fixes inv :: "'s \<Rightarrow> bool" and st :: "'s \<Rightarrow> store" and rest :: "'s \<Rightarrow> 'r"
    and rd :: "uint \<Rightarrow> ('s, nat) op" and data :: "nat \<Rightarrow> ('s, cstr) op"
    and put :: "nat \<Rightarrow> (cstr \<Rightarrow> cstr) \<Rightarrow> ('s, unit) op"
    and wr :: "nat \<Rightarrow> ('s, unit) op" and rel :: "nat \<Rightarrow> ('s, unit) op" and unpin :: "nat \<Rightarrow> ('s, unit) op"
  assumes rd_spec: "inv s \<Longrightarrow> can_get bno (st s) \<Longrightarrow>
      \<exists>b t. rd bno s = Ret b t \<and> inv t \<and> rest t = rest s \<and> st t = get_block b bno (st s)"
    and data_spec: "inv s \<Longrightarrow> slocked (st s) bno = Some b \<Longrightarrow> data b s = Ret (sview (st s) bno) s"
    and put_spec: "inv s \<Longrightarrow> slocked (st s) bno = Some b \<Longrightarrow> srefs (st s) bno \<noteq> 0 \<Longrightarrow>
      \<exists>t. put b g s = Ret () t \<and> inv t \<and> rest t = rest s \<and> st t = set_block bno (g (sview (st s) bno)) (st s)"
    and wr_spec: "inv s \<Longrightarrow> slocked (st s) bno = Some b \<Longrightarrow>
      \<exists>t. wr b s = Ret () t \<and> inv t \<and> rest t = rest s \<and> st t = flush_block bno (st s)"
    and rel_spec: "inv s \<Longrightarrow> slocked (st s) bno = Some b \<Longrightarrow>
      (srefs (st s) bno = 1 \<Longrightarrow> sview (st s) bno = sdisk (st s) (unat bno)) \<Longrightarrow>
      \<exists>t. rel b s = Ret () t \<and> inv t \<and> rest t = rest s \<and> st t = drop_block bno (st s)"
    and unpin_spec: "inv s \<Longrightarrow> slocked (st s) bno = Some b \<Longrightarrow>
      (srefs (st s) bno = 1 \<Longrightarrow> sview (st s) bno = sdisk (st s) (unat bno)) \<Longrightarrow>
      \<exists>t. unpin b s = Ret () t \<and> inv t \<and> rest t = rest s \<and> st t = pin_block bno (- 1) (st s)"
    and clean_spec: "inv s \<Longrightarrow> unat bno < 2 ^ 31 \<Longrightarrow> srefs (st s) bno = 0 \<Longrightarrow> sview (st s) bno = sdisk (st s) (unat bno)"

text \<open>The interface on the buffer cache of the kernel.\<close>

interpretation cache: block_store "bufs_inv p dev" "store_of dev" "\<lambda>s. (locks s, bio.more s)" "bread dev" "\<lambda>b. buf_of b bdata"
    "\<lambda>b g. update_buf b (\<lambda>q. q\<lparr>bdata := g (bdata q)\<rparr>)" bwrite brelse bunpin for p dev
proof
  fix s :: "'a bio_scheme" and bno b and g :: "cstr \<Rightarrow> cstr"
  assume inv: "bufs_inv p dev s"
  show "can_get bno (store_of dev s) \<Longrightarrow> \<exists>b t. bread dev bno s = Ret b t \<and> bufs_inv p dev t \<and>
      (locks t, bio.more t) = (locks s, bio.more s) \<and> store_of dev t = get_block b bno (store_of dev s)"
    using bread_law[OF inv] by (auto simp: after_ok_def)
  show "slocked (store_of dev s) bno = Some b \<Longrightarrow> buf_of b bdata s = Ret (sview (store_of dev s) bno) s"
    by (rule data_law[OF inv])
  show "slocked (store_of dev s) bno = Some b \<Longrightarrow> srefs (store_of dev s) bno \<noteq> 0 \<Longrightarrow>
      \<exists>t. update_buf b (\<lambda>q. q\<lparr>bdata := g (bdata q)\<rparr>) s = Ret () t \<and> bufs_inv p dev t \<and>
      (locks t, bio.more t) = (locks s, bio.more s) \<and> store_of dev t = set_block bno (g (sview (store_of dev s) bno)) (store_of dev s)"
    using set_law[OF inv, of bno b g] by (auto simp: after_ok_def)
  show "slocked (store_of dev s) bno = Some b \<Longrightarrow> \<exists>t. bwrite b s = Ret () t \<and> bufs_inv p dev t \<and>
      (locks t, bio.more t) = (locks s, bio.more s) \<and> store_of dev t = flush_block bno (store_of dev s)"
    using bwrite_law[OF inv, of bno b] by (auto simp: after_ok_def)
  show "slocked (store_of dev s) bno = Some b \<Longrightarrow>
      (srefs (store_of dev s) bno = 1 \<Longrightarrow> sview (store_of dev s) bno = sdisk (store_of dev s) (unat bno)) \<Longrightarrow>
      \<exists>t. brelse b s = Ret () t \<and> bufs_inv p dev t \<and> (locks t, bio.more t) = (locks s, bio.more s) \<and>
      store_of dev t = drop_block bno (store_of dev s)"
    using brelse_law[OF inv, of bno b] unfolding after_ok_def by auto
  show "slocked (store_of dev s) bno = Some b \<Longrightarrow>
      (srefs (store_of dev s) bno = 1 \<Longrightarrow> sview (store_of dev s) bno = sdisk (store_of dev s) (unat bno)) \<Longrightarrow>
      \<exists>t. bunpin b s = Ret () t \<and> bufs_inv p dev t \<and> (locks t, bio.more t) = (locks s, bio.more s) \<and>
      store_of dev t = pin_block bno (- 1) (store_of dev s)"
    using bunpin_law[OF inv, of bno b] unfolding after_ok_def by auto
  show "unat bno < 2 ^ 31 \<Longrightarrow> srefs (store_of dev s) bno = 0 \<Longrightarrow>
      sview (store_of dev s) bno = sdisk (store_of dev s) (unat bno)"
    by (rule clean_law[OF inv])
qed

end
