(* ===== verification/BlockCodec.thy ===== *)
theory BlockCodec
  imports Bio
begin

unbundle bit_operations_syntax

text \<open>
  Integers stored in blocks: what is stored is what is loaded, at every offset, and a store
  leaves the other bytes alone.
\<close>

lemma ld32_st32 [simp]: "ld32 (st32 d i v) i = v"
proof (rule bit_word_eqI)
  fix n assume "n < LENGTH(32)"
  then consider "n < 8" | "8 \<le> n" "n < 16" | "16 \<le> n" "n < 24" | "24 \<le> n" "n < 32" by fastforce
  then show "bit (ld32 (st32 d i v) i) n = bit v n"
    by cases (auto simp: ld32_def st32_def bit_or_iff bit_push_bit_iff bit_ucast_iff bit_drop_bit_eq less_diff_conv2)
qed

lemma ld32_cong: "(\<And>k. k < 4 \<Longrightarrow> d (i + k) = e (i + k)) \<Longrightarrow> ld32 d i = ld32 e i"
proof -
  assume a: "\<And>k. k < 4 \<Longrightarrow> d (i + k) = e (i + k)"
  show ?thesis using a[of 0] a[of 1] a[of 2] a[of 3] by (simp add: ld32_def)
qed

lemma st32_other: "j < i \<or> i + 4 \<le> j \<Longrightarrow> st32 d i v j = d j"
  by (auto simp: st32_def)

lemma ld32_st32_other: "i + 4 \<le> j \<or> j + 4 \<le> i \<Longrightarrow> ld32 (st32 d i v) j = ld32 d j"
  by (rule ld32_cong) (auto simp: st32_other)

lemma ld16_st16 [simp]: "ld16 (st16 d i v) i = v"
proof (rule bit_word_eqI)
  fix n assume "n < LENGTH(16)"
  then consider "n < 8" | "8 \<le> n" "n < 16" by fastforce
  then show "bit (ld16 (st16 d i v) i) n = bit v n"
    by cases (auto simp: ld16_def st16_def bit_or_iff bit_push_bit_iff bit_ucast_iff bit_drop_bit_eq less_diff_conv2)
qed

lemma ld16_cong: "(\<And>k. k < 2 \<Longrightarrow> d (i + k) = e (i + k)) \<Longrightarrow> ld16 d i = ld16 e i"
proof -
  assume a: "\<And>k. k < 2 \<Longrightarrow> d (i + k) = e (i + k)"
  show ?thesis using a[of 0] a[of 1] by (simp add: ld16_def)
qed

lemma st16_other: "j < i \<or> i + 2 \<le> j \<Longrightarrow> st16 d i v j = d j"
  by (auto simp: st16_def)

lemma ld16_st16_other: "i + 2 \<le> j \<or> j + 2 \<le> i \<Longrightarrow> ld16 (st16 d i v) j = ld16 d j"
  by (rule ld16_cong) (auto simp: st16_other)

lemma ld16_st32_other: "i + 4 \<le> j \<or> j + 2 \<le> i \<Longrightarrow> ld16 (st32 d i v) j = ld16 d j"
  by (rule ld16_cong) (auto simp: st32_other)

lemma ld32_st16_other: "i + 2 \<le> j \<or> j + 4 \<le> i \<Longrightarrow> ld32 (st16 d i v) j = ld32 d j"
  by (rule ld32_cong) (auto simp: st16_other)

end
