(* ===== verification/LogCrash.thy ===== *)
theory LogCrash
  imports Log BufCache BlockCodec
begin

unbundle bit_operations_syntax

text \<open>
  The log makes a transaction atomic: whatever prefix of the disk writes of a commit
  reaches the disk, recovery leaves all of the transaction or none of it.
\<close>

section \<open>Copying blocks through the cache\<close>

text \<open>What the two loops of the log do to the store in each round.\<close>

definition blk_copy :: "cstr \<Rightarrow> cstr \<Rightarrow> cstr" where
  "blk_copy old new = kcopy old 0 new (unat BSIZE)"

definition write_block :: "uint \<Rightarrow> cstr \<Rightarrow> store \<Rightarrow> store" where
  "write_block bno d A = flush_block bno (set_block bno d A)"

lemma write_block_sel [simp]:
  "sview (write_block bno d A) = (sview A)(bno := d)" "srefs (write_block bno d A) = srefs A"
  "slocked (write_block bno d A) = slocked A" "sdisk (write_block bno d A) = (sdisk A)(unat bno := d)"
  "swrites (write_block bno d A) = (unat bno, d) # swrites A"
  by (simp_all add: write_block_def flush_block_def set_block_def)

lemma pin_block_sel [simp]:
  "sview (pin_block bno k A) = sview A" "srefs (pin_block bno k A) = (srefs A)(bno := srefs A bno + k)"
  "slocked (pin_block bno k A) = slocked A" "sdisk (pin_block bno k A) = sdisk A"
  "swrites (pin_block bno k A) = swrites A"
  by (simp_all add: pin_block_def)

lemma get_block_sel [simp]:
  "sview (get_block b bno A) = sview A" "srefs (get_block b bno A) = (srefs A)(bno := srefs A bno + 1)"
  "slocked (get_block b bno A) = (slocked A)(bno \<mapsto> b)" "sdisk (get_block b bno A) = sdisk A"
  "swrites (get_block b bno A) = swrites A"
  by (simp_all add: get_block_def)

lemma drop_block_sel [simp]:
  "sview (drop_block bno A) = sview A" "srefs (drop_block bno A) = (srefs A)(bno := srefs A bno - 1)"
  "slocked (drop_block bno A) = (slocked A)(bno := None)" "sdisk (drop_block bno A) = sdisk A"
  "swrites (drop_block bno A) = swrites A"
  by (simp_all add: drop_block_def)

lemma set_flush_sel [simp]:
  "sview (set_block bno d A) = (sview A)(bno := d)" "srefs (set_block bno d A) = srefs A"
  "slocked (set_block bno d A) = slocked A" "sdisk (set_block bno d A) = sdisk A"
  "swrites (set_block bno d A) = swrites A"
  "sview (flush_block bno A) = sview A" "srefs (flush_block bno A) = srefs A"
  "slocked (flush_block bno A) = slocked A" "sdisk (flush_block bno A) = (sdisk A)(unat bno := sview A bno)"
  "swrites (flush_block bno A) = (unat bno, sview A bno) # swrites A"
  by (simp_all add: set_block_def flush_block_def)

text \<open>Two blocks can be had at once when each can and there is a buffer for both.\<close>

definition can_get2 :: "uint \<Rightarrow> uint \<Rightarrow> store \<Rightarrow> bool" where
  "can_get2 c a A \<longleftrightarrow> c \<noteq> a \<and> slocked A = Map.empty \<and> unat c < 2 ^ 31 \<and> unat a < 2 ^ 31 \<and>
     srefs A c + 1 \<noteq> 0 \<and> srefs A a + 1 \<noteq> 0 \<and> finite {x. srefs A x \<noteq> 0} \<and>
     card (insert c {x. srefs A x \<noteq> 0}) \<le> NBUF \<and> (srefs A a \<noteq> 0 \<or> card (insert c {x. srefs A x \<noteq> 0}) < NBUF)"

lemma can_get2D:
  assumes "can_get2 c a A"
  shows "can_get c A" "can_get a (get_block b c A)"
proof -
  have "{x. srefs (get_block b c A) x \<noteq> 0} = insert c {x. srefs A x \<noteq> 0}"
    using assms by (auto simp: can_get2_def)
  moreover have "srefs A c = 0 \<Longrightarrow> card {x. srefs A x \<noteq> 0} < NBUF"
    using assms by (auto simp: can_get2_def)
  ultimately show "can_get c A" "can_get a (get_block b c A)"
    using assms by (auto simp: can_get2_def can_get_def)
qed

context block_store
begin

lemma with_two:
  assumes "inv s" "can_get2 c a (st s)"
  shows "\<exists>x y u t. rd c s = Ret x u \<and> rd a u = Ret y t \<and> inv t \<and> rest t = rest s \<and>
    st t = get_block y a (get_block x c (st s))"
proof -
  obtain x u where u: "rd c s = Ret x u" "inv u" "rest u = rest s" "st u = get_block x c (st s)"
    using rd_spec[OF assms(1) can_get2D(1)[OF assms(2)]] by blast
  obtain y t where "rd a u = Ret y t" "inv t" "rest t = rest u" "st t = get_block y a (st u)"
    using rd_spec[OF u(2)] can_get2D(2)[OF assms(2)] u(4) by metis
  then show ?thesis using u by auto
qed

lemma copy_to_first:
  assumes inv: "inv s" and can: "can_get2 c a (st s)" and r: "srefs (st s) a \<noteq> 0"
  shows "\<exists>t. bind (rd c) (\<lambda>to. bind (rd a) (\<lambda>from. bind (data from) (\<lambda>d.
      bind (put to (\<lambda>e. blk_copy e d)) (\<lambda>_. bind (wr to) (\<lambda>_. bind (rel from) (\<lambda>_. rel to)))))) s = Ret () t \<and>
    inv t \<and> rest t = rest s \<and> st t = write_block c (blk_copy (sview (st s) c) (sview (st s) a)) (st s)"
proof -
  let ?A = "st s"
  have ca: "c \<noteq> a" "slocked ?A = Map.empty" "srefs ?A c + 1 \<noteq> 0" "srefs ?A a + 1 \<noteq> 0"
    using can by (simp_all add: can_get2_def)
  obtain x y u' t where r2: "rd c s = Ret x u'" "rd a u' = Ret y t"
    and t: "inv t" "rest t = rest s" "st t = get_block y a (get_block x c ?A)"
    using with_two[OF inv can] by blast
  have l: "slocked (st t) c = Some x" "slocked (st t) a = Some y" using ca t(3) by auto
  have d: "data y t = Ret (sview ?A a) t" using data_spec[OF t(1) l(2)] t(3) by simp
  obtain u where u: "put x (\<lambda>e. blk_copy e (sview ?A a)) t = Ret () u" "inv u" "rest u = rest t"
      "st u = set_block c (blk_copy (sview ?A c) (sview ?A a)) (st t)"
    using put_spec[OF t(1) l(1)] ca t(3) by fastforce
  obtain v where v: "wr x u = Ret () v" "inv v" "rest v = rest u" "st v = flush_block c (st u)"
    using wr_spec[OF u(2), of c x] u(4) l by auto
  obtain w where w: "rel y v = Ret () w" "inv w" "rest w = rest v" "st w = drop_block a (st v)"
    using rel_spec[OF v(2), of a y] v(4) u(4) t(3) ca r by auto
  obtain z where z: "rel x w = Ret () z" "inv z" "rest z = rest w" "st z = drop_block c (st w)"
    using rel_spec[OF w(2), of c x] w(4) v(4) u(4) t(3) ca by auto
  have "st z = write_block c (blk_copy (sview ?A c) (sview ?A a)) ?A"
    using z(4) w(4) v(4) u(4) t(3) ca by (auto intro!: store.equality)
  then show ?thesis using r2 t d u v w z by (auto simp: bind_def)
qed


lemma copy_to_second:
  assumes inv: "inv s" and can: "can_get2 c a (st s)"
  shows "\<exists>t. bind (rd c) (\<lambda>from. bind (rd a) (\<lambda>to. bind (data from) (\<lambda>d.
      bind (put to (\<lambda>e. blk_copy e d)) (\<lambda>_. bind (wr to) (\<lambda>_. bind (unpin to) (\<lambda>_. bind (rel from) (\<lambda>_. rel to))))))) s
      = Ret () t \<and> inv t \<and> rest t = rest s \<and>
    st t = pin_block a (- 1) (write_block a (blk_copy (sview (st s) a) (sview (st s) c)) (st s))"
proof -
  let ?A = "st s"
  have ca: "c \<noteq> a" "slocked ?A = Map.empty" "srefs ?A c + 1 \<noteq> 0" "srefs ?A a + 1 \<noteq> 0"
    using can by (simp_all add: can_get2_def)
  have uc: "unat c \<noteq> unat a" using ca(1) by (simp add: word_unat_eq_iff)
  have cl: "srefs ?A c = 0 \<Longrightarrow> sview ?A c = sdisk ?A (unat c)"
    using clean_spec[OF inv] can by (simp add: can_get2_def)
  obtain x y u' t where r2: "rd c s = Ret x u'" "rd a u' = Ret y t"
    and t: "inv t" "rest t = rest s" "st t = get_block y a (get_block x c ?A)"
    using with_two[OF inv can] by blast
  have l: "slocked (st t) c = Some x" "slocked (st t) a = Some y" using ca t(3) by auto
  have d: "data x t = Ret (sview ?A c) t" using data_spec[OF t(1) l(1)] t(3) by simp
  obtain u where u: "put y (\<lambda>e. blk_copy e (sview ?A c)) t = Ret () u" "inv u" "rest u = rest t"
      "st u = set_block a (blk_copy (sview ?A a) (sview ?A c)) (st t)"
    using put_spec[OF t(1) l(2)] ca t(3) by fastforce
  obtain v where v: "wr y u = Ret () v" "inv v" "rest v = rest u" "st v = flush_block a (st u)"
    using wr_spec[OF u(2), of a y] u(4) l by auto
  obtain p where p: "unpin y v = Ret () p" "inv p" "rest p = rest v" "st p = pin_block a (- 1) (st v)"
    using unpin_spec[OF v(2), of a y] v(4) u(4) t(3) ca by auto
  obtain w where w: "rel x p = Ret () w" "inv w" "rest w = rest p" "st w = drop_block c (st p)"
    using rel_spec[OF p(2), of c x] p(4) v(4) u(4) t(3) ca uc cl by auto
  obtain z where z: "rel y w = Ret () z" "inv z" "rest z = rest w" "st z = drop_block a (st w)"
    using rel_spec[OF w(2), of a y] w(4) p(4) v(4) u(4) t(3) ca by auto
  have "st z = pin_block a (- 1) (write_block a (blk_copy (sview ?A a) (sview ?A c)) ?A)"
    using z(4) w(4) p(4) v(4) u(4) t(3) ca by (auto intro!: store.equality)
  then show ?thesis using r2 t d u v p w z by (auto simp: bind_def)
qed

lemma rewrite_block:
  assumes inv: "inv s" and can: "can_get a (st s)"
  shows "\<exists>t. bind (rd a) (\<lambda>b. bind (put b g) (\<lambda>_. bind (put b h) (\<lambda>_. bind (wr b) (\<lambda>_. rel b)))) s = Ret () t \<and>
    inv t \<and> rest t = rest s \<and> st t = write_block a (h (g (sview (st s) a))) (st s)"
proof -
  let ?A = "st s"
  have ca: "slocked ?A a = None" "srefs ?A a + 1 \<noteq> 0" using can by (simp_all add: can_get_def)
  obtain b t where t: "rd a s = Ret b t" "inv t" "rest t = rest s" "st t = get_block b a ?A"
    using rd_spec[OF inv can] by blast
  obtain u where u: "put b g t = Ret () u" "inv u" "rest u = rest t" "st u = set_block a (g (sview ?A a)) (st t)"
    using put_spec[OF t(2), of a b g] t(4) ca by auto
  obtain v where v: "put b h u = Ret () v" "inv v" "rest v = rest u" "st v = set_block a (h (g (sview ?A a))) (st u)"
    using put_spec[OF u(2), of a b h] u(4) t(4) ca by auto
  obtain w where w: "wr b v = Ret () w" "inv w" "rest w = rest v" "st w = flush_block a (st v)"
    using wr_spec[OF v(2), of a b] v(4) u(4) t(4) by auto
  obtain z where z: "rel b w = Ret () z" "inv z" "rest z = rest w" "st z = drop_block a (st w)"
    using rel_spec[OF w(2), of a b] w(4) v(4) u(4) t(4) ca by auto
  have "st z = write_block a (h (g (sview ?A a))) ?A"
    using z(4) w(4) v(4) u(4) t(4) ca by (auto intro!: store.equality)
  then show ?thesis using t u v w z by (auto simp: bind_def)
qed

end

section \<open>The steps of the log\<close>

lemma log_update_frame [simp]:
  "bufs_inv p dev (s\<lparr>lh_n := n\<rparr>) = bufs_inv p dev s" "store_of dev (s\<lparr>lh_n := n\<rparr>) = store_of dev s"
  "bufs_inv p dev (s\<lparr>lh_block := f\<rparr>) = bufs_inv p dev s" "store_of dev (s\<lparr>lh_block := f\<rparr>) = store_of dev s"
proof -
  have t: "thread p (s\<lparr>lh_n := n\<rparr>) = thread p s" "thread p (s\<lparr>lh_block := f\<rparr>) = thread p s"
    by (simp_all add: thread_def cpu_ok_def noff_of_def intr_of_def curproc_def procs_free_def)
  show "bufs_inv p dev (s\<lparr>lh_n := n\<rparr>) = bufs_inv p dev s" "bufs_inv p dev (s\<lparr>lh_block := f\<rparr>) = bufs_inv p dev s"
    by (simp_all add: bufs_inv_def t clean_def lock_ok_def)
  have "view dev (s\<lparr>lh_n := n\<rparr>) = view dev s" "refs dev (s\<lparr>lh_n := n\<rparr>) = refs dev s"
    "held dev (s\<lparr>lh_n := n\<rparr>) = held dev s" "view dev (s\<lparr>lh_block := f\<rparr>) = view dev s"
    "refs dev (s\<lparr>lh_block := f\<rparr>) = refs dev s" "held dev (s\<lparr>lh_block := f\<rparr>) = held dev s"
    by (simp_all add: view_def refs_def held_def fun_eq_iff cong: if_cong option.case_cong)
  then show "store_of dev (s\<lparr>lh_n := n\<rparr>) = store_of dev s" "store_of dev (s\<lparr>lh_block := f\<rparr>) = store_of dev s"
    by (simp_all add: store_of_def locked_buf_def fun_eq_iff)
qed

lemma log_fields:
  assumes "bio.more t = bio.more s"
  shows "log_start t = log_start s" "log_size t = log_size s" "outstanding t = outstanding s"
    "committing t = committing s" "log_dev t = log_dev s" "lh_n t = lh_n s" "lh_block t = lh_block s"
  using assms by (cases s; cases t; simp)+

text \<open>The blocks of the log: the header, and the copy of the block in slot \<open>i\<close>.\<close>

definition head_no :: "'z log_scheme \<Rightarrow> uint" where
  "head_no s = word_of_int (log_start s)"

definition copy_no :: "'z log_scheme \<Rightarrow> nat \<Rightarrow> uint" where
  "copy_no s i = word_of_int (log_start s + int i + 1)"

text \<open>
  \<open>steps_to p s t A\<close>: \<open>t\<close> is a state of the same kernel with the cache as the store \<open>A\<close> says.
\<close>

definition steps_to :: "nat \<Rightarrow> 'z log_scheme \<Rightarrow> 'z log_scheme \<Rightarrow> store \<Rightarrow> bool" where
  "steps_to p s t A \<longleftrightarrow> bufs_inv p (log_dev s) t \<and> bio.more t = bio.more s \<and> store_of (log_dev s) t = A"

abbreviation log_store :: "'z log_scheme \<Rightarrow> store" where
  "log_store s \<equiv> store_of (log_dev s) s"

lemma steps_to_refl: "bufs_inv p (log_dev s) s \<Longrightarrow> steps_to p s s (log_store s)"
  by (simp add: steps_to_def)

lemma steps_to_fields:
  assumes "steps_to p s t A"
  shows "log_dev t = log_dev s" "log_start t = log_start s" "lh_n t = lh_n s" "lh_block t = lh_block s"
    "head_no t = head_no s" "copy_no t = copy_no s" "log_store t = A" "bufs_inv p (log_dev t) t"
proof -
  note f = log_fields[of t s]
  show "log_dev t = log_dev s" "log_start t = log_start s" "lh_n t = lh_n s" "lh_block t = lh_block s"
    "head_no t = head_no s" "copy_no t = copy_no s"
    using assms f by (simp_all add: steps_to_def head_no_def copy_no_def fun_eq_iff)
  then show "log_store t = A" "bufs_inv p (log_dev t) t" using assms by (simp_all add: steps_to_def)
qed

lemma steps_to_trans: "steps_to p s t A \<Longrightarrow> steps_to p t u B \<Longrightarrow> steps_to p s u B"
  using steps_to_fields(1)[of p s t A] by (simp add: steps_to_def)

lemma write_log_block_step:
  assumes inv: "bufs_inv p (log_dev s) s" and can: "can_get2 (copy_no s i) (lh_block s i) (log_store s)"
    and r: "srefs (log_store s) (lh_block s i) \<noteq> 0"
  shows "\<exists>t. write_log_block i s = Ret () t \<and> steps_to p s t (write_block (copy_no s i)
     (blk_copy (sview (log_store s) (copy_no s i)) (sview (log_store s) (lh_block s i))) (log_store s))"
proof -
  obtain b u where u: "bread (log_dev s) (copy_no s i) s = Ret b u" "bio.more u = bio.more s"
    using bread_law[OF inv can_get2D(1)[OF can]] by (auto simp: after_ok_def)
  have "write_log_block i s = bind (bread (log_dev s) (copy_no s i)) (\<lambda>to.
     bind (bread (log_dev s) (lh_block s i)) (\<lambda>from. bind (buf_of from bdata) (\<lambda>d.
     bind (update_buf to (\<lambda>q. q\<lparr>bdata := blk_copy (bdata q) d\<rparr>)) (\<lambda>_. bind (bwrite to) (\<lambda>_.
     bind (brelse from) (\<lambda>_. brelse to)))))) s"
    using u(1) log_fields[OF u(2)]
    by (simp add: write_log_block_def bind_def reads_def copy_no_def blk_copy_def)
  then show ?thesis unfolding steps_to_def using cache.copy_to_first[OF inv can r] by auto
qed

lemma install_block_step:
  assumes inv: "bufs_inv p (log_dev s) s" and can: "can_get2 (copy_no s i) (lh_block s i) (log_store s)"
  shows "\<exists>t. install_block i s = Ret () t \<and> steps_to p s t (pin_block (lh_block s i) (- 1) (write_block (lh_block s i)
     (blk_copy (sview (log_store s) (lh_block s i)) (sview (log_store s) (copy_no s i))) (log_store s)))"
proof -
  obtain b u where u: "bread (log_dev s) (copy_no s i) s = Ret b u" "bio.more u = bio.more s"
    using bread_law[OF inv can_get2D(1)[OF can]] by (auto simp: after_ok_def)
  have "install_block i s = bind (bread (log_dev s) (copy_no s i)) (\<lambda>from.
     bind (bread (log_dev s) (lh_block s i)) (\<lambda>to. bind (buf_of from bdata) (\<lambda>d.
     bind (update_buf to (\<lambda>q. q\<lparr>bdata := blk_copy (bdata q) d\<rparr>)) (\<lambda>_. bind (bwrite to) (\<lambda>_.
     bind (bunpin to) (\<lambda>_. bind (brelse from) (\<lambda>_. brelse to))))))) s"
    using u(1) log_fields[OF u(2)]
    by (simp add: install_block_def bind_def reads_def copy_no_def blk_copy_def)
  then show ?thesis unfolding steps_to_def using cache.copy_to_second[OF inv can] by auto
qed

text \<open>The header that \<open>write_head\<close> stores.\<close>

definition head_bytes :: "int \<Rightarrow> (nat \<Rightarrow> uint) \<Rightarrow> cstr \<Rightarrow> cstr" where
  "head_bytes n block d = put_head block (nat n) (st32 d 0 (word_of_int n))"

lemma write_head_step:
  assumes inv: "bufs_inv p (log_dev s) s" and can: "can_get (head_no s) (log_store s)"
  shows "\<exists>t. write_head s = Ret () t \<and> steps_to p s t (write_block (head_no s)
     (head_bytes (lh_n s) (lh_block s) (sview (log_store s) (head_no s))) (log_store s))"
proof -
  obtain b u where u: "bread (log_dev s) (head_no s) s = Ret b u" "bio.more u = bio.more s"
    using bread_law[OF inv can] by (auto simp: after_ok_def)
  note f = log_fields[OF u(2)]
  have "write_head s = bind (bread (log_dev s) (head_no s)) (\<lambda>b.
     bind (update_buf b (\<lambda>q. q\<lparr>bdata := st32 (bdata q) 0 (word_of_int (lh_n s))\<rparr>)) (\<lambda>_.
     bind (update_buf b (\<lambda>q. q\<lparr>bdata := put_head (lh_block s) (nat (lh_n s)) (bdata q)\<rparr>)) (\<lambda>_.
     bind (bwrite b) (\<lambda>_. brelse b)))) s"
    using u(1) f by (simp add: write_head_def bind_def reads_def head_no_def)
  then show ?thesis
    using cache.rewrite_block[OF inv can, of "\<lambda>d. st32 d 0 (word_of_int (lh_n s))" "put_head (lh_block s) (nat (lh_n s))"]
    unfolding steps_to_def head_bytes_def by auto
qed


section \<open>The loops\<close>

text \<open>
  The store after the first \<open>n\<close> rounds of \<open>write_log\<close> and of \<open>install_trans\<close>, for a log
  with copies in the blocks \<open>c i\<close> of the blocks \<open>a i\<close>.
\<close>

fun logged :: "(nat \<Rightarrow> uint) \<Rightarrow> (nat \<Rightarrow> uint) \<Rightarrow> nat \<Rightarrow> store \<Rightarrow> store" where
  "logged c a 0 A = A"
| "logged c a (Suc i) A = write_block (c i)
     (blk_copy (sview (logged c a i A) (c i)) (sview (logged c a i A) (a i))) (logged c a i A)"

fun installed :: "(nat \<Rightarrow> uint) \<Rightarrow> (nat \<Rightarrow> uint) \<Rightarrow> nat \<Rightarrow> store \<Rightarrow> store" where
  "installed c a 0 A = A"
| "installed c a (Suc i) A = pin_block (a i) (- 1) (write_block (a i)
     (blk_copy (sview (installed c a i A) (a i)) (sview (installed c a i A) (c i))) (installed c a i A))"

lemma write_log_loop:
  assumes "bufs_inv p (log_dev s) s"
    and "\<And>i. i < n \<Longrightarrow> can_get2 (copy_no s i) (lh_block s i) (logged (copy_no s) (lh_block s) i (log_store s)) \<and>
      srefs (logged (copy_no s) (lh_block s) i (log_store s)) (lh_block s i) \<noteq> 0"
  shows "\<exists>t. for_each [0..<n] write_log_block s = Ret () t \<and>
    steps_to p s t (logged (copy_no s) (lh_block s) n (log_store s))"
  using assms(2)
proof (induction n)
  case 0
  show ?case using steps_to_refl[OF assms(1)] by (simp add: ret_def)
next
  case (Suc n)
  then obtain t where t: "for_each [0..<n] write_log_block s = Ret () t"
      "steps_to p s t (logged (copy_no s) (lh_block s) n (log_store s))" by auto
  note f = steps_to_fields[OF t(2)]
  obtain u where "write_log_block n t = Ret () u" "steps_to p t u (logged (copy_no s) (lh_block s) (Suc n) (log_store s))"
    using write_log_block_step[OF f(8), of n, unfolded f(4,6,7)] Suc.prems[of n] by auto
  then show ?case using t steps_to_trans[OF t(2)] by (auto simp: for_each_snoc bind_def)
qed

lemma install_loop:
  assumes "bufs_inv p (log_dev s) s"
    and "\<And>i. i < n \<Longrightarrow> can_get2 (copy_no s i) (lh_block s i) (installed (copy_no s) (lh_block s) i (log_store s))"
  shows "\<exists>t. for_each [0..<n] install_block s = Ret () t \<and>
    steps_to p s t (installed (copy_no s) (lh_block s) n (log_store s))"
  using assms(2)
proof (induction n)
  case 0
  show ?case using steps_to_refl[OF assms(1)] by (simp add: ret_def)
next
  case (Suc n)
  then obtain t where t: "for_each [0..<n] install_block s = Ret () t"
      "steps_to p s t (installed (copy_no s) (lh_block s) n (log_store s))" by auto
  note f = steps_to_fields[OF t(2)]
  obtain u where "install_block n t = Ret () u" "steps_to p t u (installed (copy_no s) (lh_block s) (Suc n) (log_store s))"
    using install_block_step[OF f(8), of n, unfolded f(4,6,7)] Suc.prems[of n] by auto
  then show ?case using t steps_to_trans[OF t(2)] by (auto simp: for_each_snoc bind_def)
qed

text \<open>
  The blocks of a log of \<open>n\<close> entries are different: the header, the copies, and the
  blocks they are copies of.
\<close>

definition geom :: "uint \<Rightarrow> (nat \<Rightarrow> uint) \<Rightarrow> (nat \<Rightarrow> uint) \<Rightarrow> nat \<Rightarrow> bool" where
  "geom h c a n \<longleftrightarrow> inj_on c {..<n} \<and> inj_on a {..<n} \<and> (\<forall>i < n. \<forall>j < n. c i \<noteq> a j) \<and>
     (\<forall>i < n. c i \<noteq> h \<and> a i \<noteq> h \<and> unat (c i) < 2 ^ 31 \<and> unat (a i) < 2 ^ 31) \<and> unat h < 2 ^ 31"

lemma geomD:
  assumes "geom h c a n" "i < n"
  shows "j < n \<Longrightarrow> c i = c j \<longleftrightarrow> i = j" "j < n \<Longrightarrow> a i = a j \<longleftrightarrow> i = j" "j < n \<Longrightarrow> c i \<noteq> a j" "j < n \<Longrightarrow> a i \<noteq> c j"
    "c i \<noteq> h" "a i \<noteq> h" "unat (c i) < 2 ^ 31" "unat (a i) < 2 ^ 31"
  using assms unfolding geom_def inj_on_def by (auto, metis)

definition log_data :: "(nat \<Rightarrow> uint) \<Rightarrow> (nat \<Rightarrow> uint) \<Rightarrow> store \<Rightarrow> nat \<Rightarrow> cstr" where
  "log_data c a A i = blk_copy (sview A (c i)) (sview A (a i))"

lemma logged_sel:
  "srefs (logged c a n A) = srefs A" "slocked (logged c a n A) = slocked A"
  by (induction n) simp_all

lemma logged_other: "(\<And>i. i < n \<Longrightarrow> x \<noteq> c i) \<Longrightarrow> sview (logged c a n A) x = sview A x"
  by (induction n) auto

lemma logged_view:
  assumes g: "geom h c a N" and "n \<le> N"
  shows "i < n \<Longrightarrow> sview (logged c a n A) (c i) = log_data c a A i"
  using assms(2)
proof (induction n)
  case (Suc n)
  have o: "sview (logged c a n A) (c n) = sview A (c n)" "sview (logged c a n A) (a n) = sview A (a n)"
    using geomD[OF g] Suc.prems by (auto intro!: logged_other)
  then show ?case using Suc geomD(1)[OF g, of n i] by (auto simp: log_data_def less_Suc_eq)
qed simp

lemma logged_writes:
  assumes g: "geom h c a N" and "n \<le> N"
  shows "swrites (logged c a n A) = rev (map (\<lambda>i. (unat (c i), log_data c a A i)) [0..<n]) @ swrites A"
  using assms(2)
proof (induction n)
  case (Suc n)
  have o: "sview (logged c a n A) (c n) = sview A (c n)" "sview (logged c a n A) (a n) = sview A (a n)"
    using geomD[OF g] Suc.prems by (auto intro!: logged_other)
  then show ?case using Suc by (simp add: log_data_def)
qed simp

text \<open>The disk after a sequence of writes, the latest first.\<close>

fun replay :: "(nat \<times> cstr) list \<Rightarrow> (nat \<Rightarrow> cstr) \<Rightarrow> nat \<Rightarrow> cstr" where
  "replay [] D = D"
| "replay ((k, d) # ws) D = (replay ws D)(k := d)"

lemma replay_append: "replay (xs @ ys) D = replay xs (replay ys D)"
  by (induction xs) auto

lemma replay_other: "k \<notin> fst ` set ws \<Longrightarrow> replay ws D k = D k"
  by (induction ws) auto

lemma replay_map:
  assumes "inj_on f {..<N}" "n \<le> N"
  shows "i < n \<Longrightarrow> replay (rev (map (\<lambda>i. (f i, g i)) [0..<n])) D (f i) = g i"
  using assms(2)
proof (induction n)
  case (Suc n)
  then show ?case using inj_onD[OF assms(1), of i n] by (auto simp: less_Suc_eq)
qed simp

definition log_writes :: "(nat \<Rightarrow> uint) \<Rightarrow> (nat \<Rightarrow> cstr) \<Rightarrow> nat \<Rightarrow> (nat \<times> cstr) list" where
  "log_writes c d n = rev (map (\<lambda>i. (unat (c i), d i)) [0..<n])"

lemma log_writes_0 [simp]: "log_writes c d 0 = []" "log_writes c d (Suc n) = (unat (c n), d n) # log_writes c d n"
  by (simp_all add: log_writes_def)

lemma logged_disk:
  assumes g: "geom h c a N" and "n \<le> N"
  shows "swrites (logged c a n A) = log_writes c (log_data c a A) n @ swrites A \<and>
    sdisk (logged c a n A) = replay (log_writes c (log_data c a A) n) (sdisk A)"
  using assms(2)
proof (induction n)
  case (Suc n)
  have o: "sview (logged c a n A) (c n) = sview A (c n)" "sview (logged c a n A) (a n) = sview A (a n)"
    using geomD[OF g] Suc.prems by (auto intro!: logged_other)
  then show ?case using Suc by (simp add: log_data_def)
qed simp

lemma installed_other: "(\<And>i. i < n \<Longrightarrow> x \<noteq> a i) \<Longrightarrow> sview (installed c a n A) x = sview A x"
  by (induction n) auto

lemma installed_locked: "slocked (installed c a n A) = slocked A"
  by (induction n) simp_all

lemma installed_refs:
  assumes g: "geom h c a N" and "n \<le> N"
  shows "srefs (installed c a n A) x = srefs A x - (if x \<in> a ` {..<n} then 1 else 0)"
  using assms(2)
proof (induction n)
  case (Suc n)
  have "a n \<notin> a ` {..<n}" using geomD(2)[OF g] Suc.prems by auto
  then show ?case using Suc by (auto simp: lessThan_Suc)
qed simp

lemma installed_disk:
  assumes g: "geom h c a N" and "n \<le> N"
  shows "swrites (installed c a n A) = log_writes a (log_data a c A) n @ swrites A \<and>
    sdisk (installed c a n A) = replay (log_writes a (log_data a c A) n) (sdisk A)"
  using assms(2)
proof (induction n)
  case (Suc n)
  have o: "sview (installed c a n A) (c n) = sview A (c n)" "sview (installed c a n A) (a n) = sview A (a n)"
    using geomD[OF g] Suc.prems by (auto intro!: installed_other)
  then show ?case using Suc by (simp add: log_data_def)
qed simp

section \<open>Commit\<close>

text \<open>
  A transaction ready to commit: its blocks are pinned in the cache, the log is not used
  by anyone else, and a buffer is free.
\<close>

definition txn_ready :: "nat \<Rightarrow> 'z log_scheme \<Rightarrow> bool" where
  "txn_ready p s \<longleftrightarrow> bufs_inv p (log_dev s) s \<and> 0 < lh_n s \<and>
     geom (head_no s) (copy_no s) (lh_block s) (nat (lh_n s)) \<and> held (log_dev s) s = {} \<and>
     (\<forall>i < nat (lh_n s). refs (log_dev s) s (copy_no s i) = 0 \<and> refs (log_dev s) s (lh_block s i) \<noteq> 0 \<and>
        refs (log_dev s) s (lh_block s i) + 1 \<noteq> 0) \<and>
     refs (log_dev s) s (head_no s) = 0 \<and> card {x. refs (log_dev s) s x \<noteq> 0} < NBUF"

text \<open>The stores that a commit goes through.\<close>

definition with_head :: "int \<Rightarrow> 'z log_scheme \<Rightarrow> store \<Rightarrow> store" where
  "with_head n s A = write_block (head_no s) (head_bytes n (lh_block s) (sview A (head_no s))) A"

definition commit1 :: "'z log_scheme \<Rightarrow> store" where
  "commit1 s = with_head (lh_n s) s (logged (copy_no s) (lh_block s) (nat (lh_n s)) (log_store s))"

definition commit2 :: "'z log_scheme \<Rightarrow> store" where
  "commit2 s = with_head 0 s (installed (copy_no s) (lh_block s) (nat (lh_n s)) (commit1 s))"

lemma with_head_sel [simp]: "srefs (with_head n s A) = srefs A" "slocked (with_head n s A) = slocked A"
  by (simp_all add: with_head_def)

lemma lh_n_frame [simp]:
  "head_no (s\<lparr>lh_n := n\<rparr>) = head_no s" "copy_no (s\<lparr>lh_n := n\<rparr>) = copy_no s" "lh_block (s\<lparr>lh_n := n\<rparr>) = lh_block s"
  by (simp_all add: head_no_def copy_no_def fun_eq_iff)

lemma txn_readyD:
  assumes "txn_ready p s"
  shows "bufs_inv p (log_dev s) s" "geom (head_no s) (copy_no s) (lh_block s) (nat (lh_n s))"
    "slocked (log_store s) = Map.empty" "srefs (log_store s) (head_no s) = 0"
    "card {x. srefs (log_store s) x \<noteq> 0} < NBUF" "0 < lh_n s" "finite {x. srefs (log_store s) x \<noteq> 0}"
    "i < nat (lh_n s) \<Longrightarrow> srefs (log_store s) (copy_no s i) = 0 \<and> srefs (log_store s) (lh_block s i) \<noteq> 0 \<and>
       srefs (log_store s) (lh_block s i) + 1 \<noteq> 0"
proof -
  show inv: "bufs_inv p (log_dev s) s" using assms by (simp add: txn_ready_def)
  show "finite {x. srefs (log_store s) x \<noteq> 0}" using used_blocks_finite[OF bufs_invD(4)[OF inv]] by simp
  show "slocked (log_store s) = Map.empty" using assms dom_locked[of "log_dev s" s] by (simp add: txn_ready_def)
qed (use assms in \<open>auto simp: txn_ready_def\<close>)

lemma txn_small: "txn_ready p s \<Longrightarrow> nat (lh_n s) < NBUF"
proof -
  assume ready: "txn_ready p s"
  note R = txn_readyD[OF ready]
  have "nat (lh_n s) \<le> card {x. srefs (log_store s) x \<noteq> 0}"
    using R(2,8) card_mono[OF R(7), of "lh_block s ` {..<nat (lh_n s)}"] by (auto simp: geom_def card_image)
  then show ?thesis using R(5) by simp
qed

text \<open>As long as no block gains its first reference, the log gets the buffers it asks for.\<close>

lemma txn_can:
  assumes "txn_ready p s" "slocked B = Map.empty" "{x. srefs B x \<noteq> 0} \<subseteq> {x. srefs (log_store s) x \<noteq> 0}"
  shows "i < nat (lh_n s) \<Longrightarrow> srefs B (lh_block s i) = srefs (log_store s) (lh_block s i) \<Longrightarrow>
      can_get2 (copy_no s i) (lh_block s i) B"
    and "can_get (head_no s) B"
proof -
  note r = txn_readyD[OF assms(1)]
  have z: "srefs B x = 0" if "srefs (log_store s) x = 0" for x using assms(3) that by blast
  have f: "finite {x. srefs B x \<noteq> 0}" "card {x. srefs B x \<noteq> 0} < NBUF"
    using finite_subset[OF assms(3) r(7)] card_mono[OF r(7) assms(3)] r(5) by auto
  show "can_get (head_no s) B" using assms(2) z[OF r(4)] f r(2) by (simp add: can_get_def geom_def)
  assume i: "i < nat (lh_n s)" "srefs B (lh_block s i) = srefs (log_store s) (lh_block s i)"
  have "card (insert (copy_no s i) {x. srefs B x \<noteq> 0}) \<le> NBUF" using f by (simp add: card_insert_if)
  then show "can_get2 (copy_no s i) (lh_block s i) B"
    using assms(2) f(1) geomD[OF r(2) i(1)] r(8)[OF i(1)] z[of "copy_no s i"] i by (simp add: can_get2_def)
qed

lemma commit1_sel [simp]: "srefs (commit1 s) = srefs (log_store s)" "slocked (commit1 s) = slocked (log_store s)"
  by (simp_all add: commit1_def logged_sel)

lemma txn_installed:
  assumes "txn_ready p s" "i \<le> nat (lh_n s)"
  defines "B \<equiv> installed (copy_no s) (lh_block s) i (commit1 s)"
  shows "slocked B = Map.empty" "{x. srefs B x \<noteq> 0} \<subseteq> {x. srefs (log_store s) x \<noteq> 0}"
    "i < nat (lh_n s) \<Longrightarrow> srefs B (lh_block s i) = srefs (log_store s) (lh_block s i)"
proof -
  note r = txn_readyD[OF assms(1)]
  have ir: "srefs B x = (srefs (log_store s) x - (if x \<in> lh_block s ` {..<i} then 1 else 0))" for x
    using installed_refs[OF r(2) assms(2), of "commit1 s" x] by (simp add: B_def)
  show "slocked B = Map.empty" using r(3) by (simp add: B_def installed_locked)
  show "{x. srefs B x \<noteq> 0} \<subseteq> {x. srefs (log_store s) x \<noteq> 0}"
    unfolding ir using r(8) assms(2) by (auto split: if_splits)
  show "i < nat (lh_n s) \<Longrightarrow> srefs B (lh_block s i) = srefs (log_store s) (lh_block s i)"
    unfolding ir using geomD(2)[OF r(2)] by auto
qed

lemma commit_run:
  assumes "txn_ready p s"
  shows "\<exists>t. commit s = Ret () t \<and> bufs_inv p (log_dev s) t \<and> log_dev t = log_dev s \<and> log_start t = log_start s \<and>
    lh_n t = 0 \<and> store_of (log_dev s) t = commit2 s"
proof -
  let ?n = "nat (lh_n s)" and ?c = "copy_no s" and ?a = "lh_block s"
  note r = txn_readyD[OF assms] and can = txn_can[OF assms] and ins = txn_installed[OF assms]
  have lg: "slocked (logged ?c ?a i (log_store s)) = Map.empty"
    "{x. srefs (logged ?c ?a i (log_store s)) x \<noteq> 0} \<subseteq> {x. srefs (log_store s) x \<noteq> 0}" for i
    using r(3) by (simp_all add: logged_sel)
  obtain t1 where t1: "for_each [0..<?n] write_log_block s = Ret () t1" "steps_to p s t1 (logged ?c ?a ?n (log_store s))"
    using write_log_loop[OF r(1), of ?n] can(1)[OF lg] r(8) unfolding logged_sel(1) by blast
  note f1 = steps_to_fields[OF t1(2)]
  obtain t2 where t2: "write_head t1 = Ret () t2" "steps_to p t1 t2 (commit1 s)"
    using write_head_step[OF f1(8), unfolded f1(3,4,5,7)] can(2)[OF lg] by (auto simp: commit1_def with_head_def)
  note s2 = steps_to_trans[OF t1(2) t2(2)]
  note f2 = steps_to_fields[OF s2]
  have "can_get2 (?c i) (?a i) (installed ?c ?a i (commit1 s))" if "i < ?n" for i
    using that ins[of i] by (intro can) simp_all
  then obtain t3 where t3: "for_each [0..<?n] install_block t2 = Ret () t3"
      "steps_to p t2 t3 (installed ?c ?a ?n (commit1 s))"
    using install_loop[OF f2(8), of ?n, unfolded f2(4,6,7)] by blast
  note s3 = steps_to_trans[OF s2 t3(2)]
  note f3 = steps_to_fields[OF s3]
  let ?u = "t3\<lparr>lh_n := 0\<rparr>"
  obtain t4 where t4: "write_head ?u = Ret () t4" "steps_to p ?u t4 (commit2 s)"
    using write_head_step[of p ?u] f3 can(2)[OF ins(1,2)[OF order_refl]]
    by (auto simp: commit2_def with_head_def simp del: store_of_sel)
  have "commit s = Ret () t4"
    using t1(1) t2(1) t3(1) t4(1) r(6) f2(3)
    by (simp add: commit_def write_log_def install_trans_def bind_def reads_def modify_def)
  then show ?thesis using steps_to_fields[OF t4(2)] f3 t4(2) by (auto simp: steps_to_def)
qed


section \<open>Recovery\<close>

text \<open>The number of blocks and the blocks that a header on the disk names.\<close>

definition head_count :: "cstr \<Rightarrow> nat" where
  "head_count d = nat (sint (ld32 d 0))"

definition head_block :: "cstr \<Rightarrow> nat \<Rightarrow> uint" where
  "head_block d i = ld32 d (4 + 4 * i)"

lemma read_blocks:
  "for_each [0..<m] (\<lambda>i. modify (\<lambda>s. s\<lparr>lh_block := (lh_block s)(i := ld32 d (4 + 4 * i))\<rparr>)) s =
    Ret () (s\<lparr>lh_block := (\<lambda>i. if i < m then head_block d i else lh_block s i)\<rparr>)"
proof (induction m)
  case 0
  show ?case by (simp add: ret_def)
next
  case (Suc m)
  have "(\<lambda>i. if i < m then head_block d i else lh_block s i)(m := ld32 d (4 + 4 * m))
      = (\<lambda>i. if i < Suc m then head_block d i else lh_block s i)" by (auto simp: head_block_def fun_eq_iff)
  then show ?case using Suc by (simp add: for_each_snoc bind_def modify_def del: fun_upd_apply)
qed

text \<open>A cache without any reference, as it is after booting.\<close>

definition fresh_log :: "nat \<Rightarrow> 'z log_scheme \<Rightarrow> bool" where
  "fresh_log p s \<longleftrightarrow> bufs_inv p (log_dev s) s \<and> held (log_dev s) s = {} \<and> (\<forall>x. refs (log_dev s) s x = 0)"

lemma fresh_logD:
  assumes "fresh_log p s"
  shows "bufs_inv p (log_dev s) s" "slocked (log_store s) = Map.empty" "srefs (log_store s) x = 0"
    "unat x < 2 ^ 31 \<Longrightarrow> sview (log_store s) x = disk s (unat x)"
    "unat x < 2 ^ 31 \<Longrightarrow> can_get x (log_store s)"
proof -
  show inv: "bufs_inv p (log_dev s) s" and z: "srefs (log_store s) x = 0" for x using assms by (simp_all add: fresh_log_def)
  show l: "slocked (log_store s) = Map.empty" using assms dom_locked[of "log_dev s" s] by (simp add: fresh_log_def)
  show "unat x < 2 ^ 31 \<Longrightarrow> sview (log_store s) x = disk s (unat x)" using clean_law[OF inv _ z] by simp
  have "{x. srefs (log_store s) x \<noteq> 0} = {}" using z by simp
  then show "unat x < 2 ^ 31 \<Longrightarrow> can_get x (log_store s)" using l z unfolding can_get_def by (simp add: NBUF_def)
qed

lemma drop_get: "slocked A bno = None \<Longrightarrow> drop_block bno (get_block b bno A) = A"
  by (auto intro!: store.equality)

lemma read_head_step:
  assumes "fresh_log p s" "unat (head_no s) < 2 ^ 31"
  defines "d \<equiv> disk s (unat (head_no s))"
  shows "\<exists>t. read_head s = Ret () t \<and> fresh_log p t \<and> log_store t = log_store s \<and> log_dev t = log_dev s \<and>
    log_start t = log_start s \<and> nat (lh_n t) = head_count d \<and> (\<forall>i < head_count d. lh_block t i = head_block d i)"
proof -
  note r = fresh_logD[OF assms(1)]
  have can: "can_get (head_no s) (log_store s)" by (rule r(5)[OF assms(2)])
  obtain b u where u: "bread (log_dev s) (head_no s) s = Ret b u" "bufs_inv p (log_dev s) u" "bio.more u = bio.more s"
      "store_of (log_dev s) u = get_block b (head_no s) (log_store s)"
    using bread_law[OF r(1) can] by (auto simp: after_ok_def)
  have d: "buf_of b bdata u = Ret d u"
    using data_law[OF u(2), of "head_no s" b] u(4) r(4)[OF assms(2)] by (simp add: d_def del: store_of_sel)
  let ?v = "u\<lparr>lh_n := sint (ld32 d 0)\<rparr>"
  let ?w = "?v\<lparr>lh_block := (\<lambda>i. if i < head_count d then head_block d i else lh_block u i)\<rparr>"
  have w: "bufs_inv p (log_dev s) ?w" "store_of (log_dev s) ?w = get_block b (head_no s) (log_store s)"
    using u(2,4) by (simp_all del: store_of_sel)
  have "sview (log_store s) (head_no s) = sdisk (log_store s) (unat (head_no s))" using r(4)[OF assms(2)] by simp
  then obtain t where t: "brelse b ?w = Ret () t" "bufs_inv p (log_dev s) t" "bio.more t = bio.more ?w"
      "store_of (log_dev s) t = log_store s"
    using brelse_law[OF w(1), of "head_no s" b] w(2) drop_get[of "log_store s" "head_no s" b] r(2)
    by (auto simp: after_ok_def simp del: store_of_sel)
  note f = log_fields[OF t(3)] log_fields[OF u(3)]
  have "read_head s = Ret () t"
    using u(1) d t(1) by (simp add: read_head_def head_no_def [symmetric] bind_def reads_def modify_def [of "\<lambda>s. s\<lparr>lh_n := _\<rparr>"]
        read_blocks head_count_def cong: if_cong)
  moreover have "refs (log_dev s) t = refs (log_dev s) s" "held (log_dev s) t = held (log_dev s) s"
    using arg_cong[OF t(4), of srefs] arg_cong[OF t(4), of "\<lambda>A. dom (slocked A)"] by (simp_all add: dom_locked)
  ultimately show ?thesis using t f assms(1) by (simp add: fresh_log_def head_count_def del: store_of_sel)
qed


lemma installed_cong:
  "(\<And>i. i < n \<Longrightarrow> a i = b i) \<Longrightarrow> installed c a n A = installed c b n A"
  by (induction n) simp_all

lemma geom_cong: "(\<And>i. i < n \<Longrightarrow> a i = b i) \<Longrightarrow> geom h c a n = geom h c b n"
  unfolding geom_def by (auto simp: inj_on_def)

lemma fresh_can2:
  assumes "fresh_log p s" "geom h c a n" "n < NBUF" "i < n"
  shows "can_get2 (c i) (a i) (installed c a i (log_store s))"
proof -
  note r = fresh_logD[OF assms(1)]
  let ?B = "installed c a i (log_store s)"
  have ir: "srefs ?B x = (if x \<in> a ` {..<i} then - 1 else 0)" for x
    using installed_refs[OF assms(2), of i "log_store s" x] assms(4) r(3) by simp
  have set: "{x. srefs ?B x \<noteq> 0} = a ` {..<i}" unfolding ir by auto
  have "card (a ` {..<i}) \<le> i" using card_image_le[of "{..<i}" a] by simp
  then have "card (insert (c i) (a ` {..<i})) \<le> Suc i" using card_insert_le_m1[of "Suc i" "a ` {..<i}" "c i"] by simp
  then have "card (insert (c i) {x. srefs ?B x \<noteq> 0}) < NBUF" using assms(3,4) unfolding set by simp
  moreover have "c i \<noteq> a j \<and> a i \<noteq> a j" if "j < i" for j
    using geomD(2,3)[OF assms(2,4), of j] that assms(4) by simp
  then have "c i \<notin> a ` {..<i}" "a i \<notin> a ` {..<i}" by blast+
  then have "srefs ?B (c i) = 0" "srefs ?B (a i) = 0" unfolding ir by simp_all
  ultimately show ?thesis using geomD[OF assms(2,4)] assms(4) r(2) set
    by (simp add: can_get2_def installed_locked)
qed

lemma fresh_head:
  assumes "fresh_log p s" "geom h c a n" "n < NBUF"
  shows "can_get h (installed c a n (log_store s))"
proof -
  note r = fresh_logD[OF assms(1)]
  let ?B = "installed c a n (log_store s)"
  have ir: "srefs ?B x = (if x \<in> a ` {..<n} then - 1 else 0)" for x
    using installed_refs[OF assms(2), of n "log_store s" x] r(3) by simp
  have set: "{x. srefs ?B x \<noteq> 0} = a ` {..<n}" unfolding ir by auto
  have "card {x. srefs ?B x \<noteq> 0} < NBUF" unfolding set using card_image_le[of "{..<n}" a] assms(3) by simp
  moreover have "srefs ?B h = 0" unfolding ir using geomD(6)[OF assms(2)] by auto
  ultimately show ?thesis using assms(2) r(2) by (simp add: can_get_def installed_locked geom_def)
qed

lemma recover_run:
  assumes fr: "fresh_log p s" and n: "n = head_count (disk s (unat (head_no s)))" "n < NBUF"
    and a: "a = head_block (disk s (unat (head_no s)))" and g: "geom (head_no s) (copy_no s) a n"
  shows "\<exists>t e. recover_from_log s = Ret () t \<and> lh_n t = 0 \<and> bufs_inv p (log_dev s) t \<and>
    slocked (store_of (log_dev s) t) = Map.empty \<and> log_dev t = log_dev s \<and>
    disk t = replay ((unat (head_no s), e) #
      log_writes a (\<lambda>i. blk_copy (disk s (unat (a i))) (disk s (unat (copy_no s i)))) n) (disk s) \<and>
    (\<forall>i < n. refs (log_dev s) t (a i) = - 1)"
proof -
  let ?h = "head_no s" and ?c = "copy_no s"
  have hb: "unat ?h < 2 ^ 31" using g by (simp add: geom_def)
  note r = fresh_logD[OF fr]
  obtain t where t: "read_head s = Ret () t" "fresh_log p t" "log_store t = log_store s" "log_dev t = log_dev s"
      "log_start t = log_start s" "nat (lh_n t) = n" "\<And>i. i < n \<Longrightarrow> lh_block t i = a i"
    using read_head_step[OF fr hb] unfolding n(1) a by blast
  have no: "head_no t = ?h" "copy_no t = ?c" using t(5) by (simp_all add: head_no_def copy_no_def fun_eq_iff)
  have gt: "geom ?h ?c (lh_block t) n" using g geom_cong[of n "lh_block t" a] t(7) by blast
  let ?B = "installed ?c (lh_block t) n (log_store s)"
  obtain u where u: "for_each [0..<n] install_block t = Ret () u" "steps_to p t u ?B"
    using install_loop[OF fresh_logD(1)[OF t(2)], of n, unfolded no] fresh_can2[OF t(2) gt n(2)] t(3) by auto
  note f = steps_to_fields[OF u(2)]
  let ?v = "u\<lparr>lh_n := 0\<rparr>" and ?e = "head_bytes 0 (lh_block t) (sview ?B ?h)"
  obtain w where w: "write_head ?v = Ret () w" "steps_to p ?v w (write_block ?h ?e ?B)"
    using write_head_step[of p ?v] f no t fresh_head[OF t(2) gt n(2)] by (auto simp del: store_of_sel)
  note fw = steps_to_fields[OF w(2)]
  have "recover_from_log s = Ret () w"
    using t(1,6) u(1) w(1) by (simp add: recover_from_log_def install_trans_def bind_def reads_def modify_def)
  moreover have "bufs_inv p (log_dev s) w" "store_of (log_dev s) w = write_block ?h ?e ?B" "lh_n w = 0" "log_dev w = log_dev s"
    using fw f t(4) w(2) by (simp_all add: steps_to_def del: store_of_sel)
  moreover have "slocked (store_of (log_dev s) w) = Map.empty"
    unfolding calculation(3) using r(2) by (simp add: installed_locked)
  moreover have "disk w = replay ((unat ?h, ?e) # log_writes a (\<lambda>i. blk_copy (disk s (unat (a i))) (disk s (unat (?c i)))) n) (disk s)"
  proof -
    have "log_writes (lh_block t) (log_data (lh_block t) ?c (log_store s)) n
        = log_writes a (\<lambda>i. blk_copy (disk s (unat (a i))) (disk s (unat (?c i)))) n"
      using t(7) geomD(7,8)[OF g] r(4) by (simp add: log_writes_def log_data_def)
    then show ?thesis using installed_disk[OF gt order_refl, of "log_store s"] arg_cong[OF calculation(3), of sdisk] by simp
  qed
  moreover have "refs (log_dev s) w (a i) = - 1" if "i < n" for i
  proof -
    have "a i \<in> lh_block t ` {..<n}" using t(7)[OF that] that by (metis imageI lessThan_iff)
    then show ?thesis using installed_refs[OF gt order_refl, of "log_store s" "a i"] r(3)[of "a i"]
      arg_cong[OF calculation(3), of srefs] by simp
  qed
  ultimately show ?thesis by (intro exI[of _ w] exI[of _ ?e]) simp
qed


section \<open>Crashes\<close>

lemma put_head_ld: "ld32 (put_head a m d) 0 = ld32 d 0" "i < m \<Longrightarrow> ld32 (put_head a m d) (4 + 4 * i) = a i"
  by (induction m) (auto simp: ld32_st32_other less_Suc_eq)

lemma head_bytes_read:
  assumes "0 \<le> n" "n < 2 ^ 31"
  shows "head_count (head_bytes n a d) = nat n" "i < nat n \<Longrightarrow> head_block (head_bytes n a d) i = a i"
proof -
  have "sint (word_of_int n :: uint) = n"
    using assms by (simp add: sint_sbintrunc' signed_take_bit_int_eq_self)
  then show "head_count (head_bytes n a d) = nat n" by (simp add: head_count_def head_bytes_def put_head_ld)
  show "i < nat n \<Longrightarrow> head_block (head_bytes n a d) i = a i"
    by (simp add: head_block_def head_bytes_def put_head_ld)
qed

lemma log_writes_suffix: "late @ early = log_writes c d n \<Longrightarrow> \<exists>m \<le> n. early = log_writes c d m"
proof (induction n arbitrary: late)
  case (Suc n)
  then show ?case by (cases late) (auto intro: le_SucI)
qed simp

lemma log_writes_length [simp]: "length (log_writes c d n) = n"
  by (simp add: log_writes_def)

lemma log_writes_keys: "fst ` set (log_writes c d n) = (\<lambda>i. unat (c i)) ` {..<n}"
  by (auto simp: log_writes_def image_image)

lemma replay_log_writes:
  assumes "inj_on c {..<N}" "n \<le> N" "i < n"
  shows "replay (log_writes c d n) D (unat (c i)) = d i"
proof -
  have "inj_on (\<lambda>i. unat (c i)) {..<N}" using assms(1) by (auto simp: inj_on_def word_unat_eq_iff [symmetric])
  then show ?thesis using replay_map[of "\<lambda>i. unat (c i)" N n i d D] assms(2,3) by (simp add: log_writes_def)
qed

lemma replay_log_other: "(\<And>i. i < n \<Longrightarrow> k \<noteq> unat (c i)) \<Longrightarrow> replay (log_writes c d n) D k = D k"
  by (rule replay_other) (auto simp: log_writes_keys)

text \<open>The writes of a commit, the latest first.\<close>

definition commit_writes :: "'z log_scheme \<Rightarrow> (nat \<times> cstr) list" where
  "commit_writes s =
     (let c = copy_no s; a = lh_block s; n = nat (lh_n s); h = head_no s;
          A = logged c a n (log_store s); B = installed c a n (commit1 s)
      in (unat h, head_bytes 0 a (sview B h)) # log_writes a (log_data a c (commit1 s)) n @
         (unat h, head_bytes (lh_n s) a (sview A h)) # log_writes c (log_data c a (log_store s)) n)"

lemma commit_disk:
  assumes "geom (head_no s) (copy_no s) (lh_block s) (nat (lh_n s))"
  shows "sdisk (commit2 s) = replay (commit_writes s) (disk s)" "swrites (commit2 s) = commit_writes s @ dwrites s"
  using logged_disk[OF assms order_refl, of "log_store s"] installed_disk[OF assms order_refl, of "commit1 s"]
  by (simp_all add: commit2_def commit_writes_def commit1_def with_head_def Let_def replay_append)

definition log_blocks :: "'z log_scheme \<Rightarrow> nat set" where
  "log_blocks s = insert (unat (head_no s)) ((\<lambda>i. unat (copy_no s i)) ` {..<nat (lh_n s)})"

definition same_blocks :: "'z log_scheme \<Rightarrow> (nat \<Rightarrow> cstr) \<Rightarrow> (nat \<Rightarrow> cstr) \<Rightarrow> bool" where
  "same_blocks s D E \<longleftrightarrow> (\<forall>k. k \<notin> log_blocks s \<longrightarrow> (\<forall>j < unat BSIZE. D k j = E k j))"

text \<open>The disk with the blocks of the transaction replaced by their contents in the cache.\<close>

definition txn_disk :: "'z log_scheme \<Rightarrow> nat \<Rightarrow> cstr" where
  "txn_disk s k = (if k \<in> (\<lambda>i. unat (lh_block s i)) ` {..<nat (lh_n s)} then view (log_dev s) s (of_nat k) else disk s k)"

lemma blk_copy_byte: "j < unat BSIZE \<Longrightarrow> blk_copy d e j = e j"
  by (simp add: blk_copy_def kcopy_def)


text \<open>A state after a crash and a reboot.\<close>

definition rebooted :: "nat \<Rightarrow> 'z log_scheme \<Rightarrow> (nat \<Rightarrow> cstr) \<Rightarrow> 'z log_scheme \<Rightarrow> bool" where
  "rebooted q s D r \<longleftrightarrow> fresh_log q r \<and> log_start r = log_start s \<and> disk r = D"

lemma recover_cleared:
  assumes "rebooted q s D r" "head_count (D (unat (head_no s))) = 0" "unat (head_no s) < 2 ^ 31"
  shows "\<exists>u. recover_from_log r = Ret () u \<and> lh_n u = 0 \<and> same_blocks s (disk u) D"
proof -
  have r: "fresh_log q r" "disk r = D" "head_no r = head_no s"
    using assms(1) by (simp_all add: rebooted_def head_no_def)
  have "0 = head_count (disk r (unat (head_no r)))" using assms(2) r by simp
  moreover have "geom (head_no r) (copy_no r) (head_block (disk r (unat (head_no r)))) 0"
    using assms(3) r(3) by (simp add: geom_def)
  ultimately obtain u e where "recover_from_log r = Ret () u" "lh_n u = 0" "disk u = D(unat (head_no s) := e)"
    using recover_run[OF r(1), of 0] r by (auto simp: NBUF_def)
  then show ?thesis by (auto simp: same_blocks_def log_blocks_def)
qed

lemma recover_logged:
  assumes rb: "rebooted q s D r" and ready: "txn_ready p s"
    and hd: "head_count (D (unat (head_no s))) = nat (lh_n s)"
      "\<And>i. i < nat (lh_n s) \<Longrightarrow> head_block (D (unat (head_no s))) i = lh_block s i"
    and cp: "\<And>i j. i < nat (lh_n s) \<Longrightarrow> j < unat BSIZE \<Longrightarrow>
      D (unat (copy_no s i)) j = view (log_dev s) s (lh_block s i) j"
    and ot: "\<And>k. k \<notin> log_blocks s \<Longrightarrow> (\<And>i. i < nat (lh_n s) \<Longrightarrow> k \<noteq> unat (lh_block s i)) \<Longrightarrow> D k = disk s k"
  shows "\<exists>u. recover_from_log r = Ret () u \<and> lh_n u = 0 \<and> same_blocks s (disk u) (txn_disk s)"
proof -
  let ?n = "nat (lh_n s)" and ?a = "lh_block s" and ?b = "head_block (D (unat (head_no s)))"
  note R = txn_readyD[OF ready]
  have r: "fresh_log q r" "disk r = D" "head_no r = head_no s" "copy_no r = copy_no s"
    using rb by (simp_all add: rebooted_def head_no_def copy_no_def fun_eq_iff)
  have g: "geom (head_no s) (copy_no s) ?b ?n" using geom_cong[of ?n ?b ?a] hd(2) R(2) by blast
  have n: "?n < NBUF" by (rule txn_small[OF ready])
  let ?d = "\<lambda>i. blk_copy (D (unat (?b i))) (D (unat (copy_no s i)))"
  obtain u e where u: "recover_from_log r = Ret () u" "lh_n u = 0"
      "disk u = (replay (log_writes ?b ?d ?n) D)(unat (head_no s) := e)"
    using recover_run[OF r(1), of ?n ?b] hd(1) r n g by auto
  have "disk u k j = txn_disk s k j" if k: "k \<notin> log_blocks s" and j: "j < unat BSIZE" for k j
  proof -
    have kh: "k \<noteq> unat (head_no s)" using k by (simp add: log_blocks_def)
    show ?thesis
    proof (cases "k \<in> (\<lambda>i. unat (?a i)) ` {..<?n}")
      case True
      then obtain i where i: "i < ?n" "k = unat (?a i)" by blast
      have "replay (log_writes ?b ?d ?n) D (unat (?b i)) = ?d i"
        using g i(1) by (intro replay_log_writes[of _ ?n]) (simp_all add: geom_def)
      then show ?thesis using u(3) kh True i hd(2)[OF i(1)] cp[OF i(1) j] j by (simp add: txn_disk_def blk_copy_byte)
    next
      case False
      then have k': "\<And>i. i < ?n \<Longrightarrow> k \<noteq> unat (?a i)" by blast
      then have "replay (log_writes ?b ?d ?n) D k = D k" using hd(2) by (intro replay_log_other) simp
      then show ?thesis using u(3) kh False ot[OF k k'] by (simp add: txn_disk_def)
    qed
  qed
  then show ?thesis using u(1,2) by (auto simp: same_blocks_def)
qed


lemma same_txn:
  assumes "\<And>k. k \<notin> log_blocks s \<Longrightarrow> (\<And>i. i < nat (lh_n s) \<Longrightarrow> k \<noteq> unat (lh_block s i)) \<Longrightarrow> D k = disk s k"
    and "\<And>i j. i < nat (lh_n s) \<Longrightarrow> j < unat BSIZE \<Longrightarrow>
      D (unat (lh_block s i)) j = view (log_dev s) s (lh_block s i) j"
  shows "same_blocks s D (txn_disk s)"
  unfolding same_blocks_def
proof (intro allI impI)
  fix k j assume k: "k \<notin> log_blocks s" "j < unat BSIZE"
  show "D k j = txn_disk s k j"
  proof (cases "k \<in> (\<lambda>i. unat (lh_block s i)) ` {..<nat (lh_n s)}")
    case True
    then show ?thesis using assms(2) k(2) by (auto simp: txn_disk_def)
  next
    case False
    then have "D k = disk s k" using k(1) by (intro assms(1)) auto
    then show ?thesis using False by (simp add: txn_disk_def)
  qed
qed

lemma same_blocks_head [simp]: "same_blocks s (D(unat (head_no s) := e)) E = same_blocks s D E"
  by (auto simp: same_blocks_def log_blocks_def)

lemma same_blocks_trans: "same_blocks s D E \<Longrightarrow> same_blocks s E F \<Longrightarrow> same_blocks s D F"
  by (simp add: same_blocks_def)

lemma suffix_cases:
  assumes "late @ early = x # log_writes a f n @ y # log_writes c d n"
  obtains m where "m \<le> n" "early = log_writes c d m"
    | m where "m \<le> n" "early = log_writes a f m @ y # log_writes c d n"
    | "early = x # log_writes a f n @ y # log_writes c d n"
proof (cases late)
  case (Cons z zs)
  then have "zs @ early = log_writes a f n @ y # log_writes c d n" using assms by simp
  then consider us where "zs = log_writes a f n @ us" "us @ early = y # log_writes c d n"
    | us where "zs @ us = log_writes a f n" "early = us @ y # log_writes c d n"
    by (auto simp: append_eq_append_conv2)
  then show thesis
  proof cases
    case (1 us)
    then show thesis
    proof (cases us)
      case Nil
      then show thesis using 1(2) that(2)[of 0] by simp
    next
      case (Cons w ws)
      then show thesis using 1(2) log_writes_suffix[of ws early c d n] that(1) by auto
    qed
  next
    case (2 us)
    then show thesis using log_writes_suffix[of zs us a f n] that(2) by auto
  qed
qed (use assms that(3) in simp)

lemma commit1_view:
  assumes "geom (head_no s) (copy_no s) (lh_block s) (nat (lh_n s))" "i < nat (lh_n s)"
  shows "sview (commit1 s) (copy_no s i) = log_data (copy_no s) (lh_block s) (log_store s) i"
  using logged_view[OF assms(1) order_refl assms(2)] geomD(5)[OF assms] by (simp add: commit1_def with_head_def)

lemma log_data_byte: "j < unat BSIZE \<Longrightarrow> log_data c a A i j = sview A (a i) j"
  by (simp add: log_data_def blk_copy_byte)

text \<open>The disk when the header and the copies have been written, and some blocks installed.\<close>

lemma crash_installing:
  fixes s :: "'z log_scheme" and hb :: cstr
  assumes ready: "txn_ready p s" and m: "m \<le> nat (lh_n s)"
  defines "a \<equiv> lh_block s" and "c \<equiv> copy_no s" and "n \<equiv> nat (lh_n s)"
  defines "e \<equiv> replay (log_writes c (log_data c a (log_store s)) n) (disk s)"
  defines "D \<equiv> replay (log_writes a (log_data a c (commit1 s)) m) (e(unat (head_no s) := hb))"
  shows "D (unat (head_no s)) = hb"
    "i < n \<Longrightarrow> j < unat BSIZE \<Longrightarrow> D (unat (c i)) j = view (log_dev s) s (a i) j"
    "k \<notin> log_blocks s \<Longrightarrow> (\<And>i. i < n \<Longrightarrow> k \<noteq> unat (a i)) \<Longrightarrow> D k = disk s k"
    "i < m \<Longrightarrow> j < unat BSIZE \<Longrightarrow> D (unat (a i)) j = view (log_dev s) s (a i) j"
proof -
  note g = txn_readyD(2)[OF ready, folded a_def c_def n_def]
  have mn: "m \<le> n" using m by (simp add: n_def)
  have ne: "unat x \<noteq> unat y" if "x \<noteq> y" for x y :: uint using that by (simp add: word_unat_eq_iff)
  show "D (unat (head_no s)) = hb"
  proof -
    have "unat (head_no s) \<noteq> unat (a i)" if "i < m" for i using ne geomD(6)[OF g, of i] that mn by auto
    then show ?thesis unfolding D_def by (subst replay_log_other) simp_all
  qed
  show "D (unat (c i)) j = view (log_dev s) s (a i) j" if i: "i < n" and j: "j < unat BSIZE"
  proof -
    have "D (unat (c i)) = (e(unat (head_no s) := hb)) (unat (c i))"
      unfolding D_def using geomD(3)[OF g i] mn by (intro replay_log_other ne) simp
    also have "\<dots> = e (unat (c i))" using ne[OF geomD(5)[OF g i]] by simp
    also have "\<dots> = log_data c a (log_store s) i"
      unfolding e_def using g i by (intro replay_log_writes[of _ n]) (simp_all add: geom_def)
    finally show ?thesis using j by (simp add: log_data_byte)
  qed
  show "D k = disk s k" if k: "k \<notin> log_blocks s" "\<And>i. i < n \<Longrightarrow> k \<noteq> unat (a i)"
  proof -
    have "D k = (e(unat (head_no s) := hb)) k" unfolding D_def using k(2) mn by (intro replay_log_other) simp
    also have "\<dots> = e k" using k(1) by (simp add: log_blocks_def)
    also have "\<dots> = disk s k"
      unfolding e_def using k(1) by (intro replay_log_other) (auto simp: log_blocks_def c_def n_def)
    finally show ?thesis .
  qed
  show "D (unat (a i)) j = view (log_dev s) s (a i) j" if i: "i < m" and j: "j < unat BSIZE"
  proof -
    have "D (unat (a i)) = log_data a c (commit1 s) i"
      unfolding D_def using g mn i by (intro replay_log_writes[of _ n]) (simp_all add: geom_def)
    then show ?thesis using commit1_view[OF txn_readyD(2)[OF ready], of i] i mn j
      by (simp add: log_data_byte a_def c_def n_def)
  qed
qed


text \<open>
  C13. Commits are atomic with respect to crashes. A transaction that is ready commits:
  every block of it ends up on the disk, and the log is empty. Cut off the writes of the
  commit anywhere, and let the machine boot again with what reached the disk: recovery
  returns, and every block outside the log is then either as it was before the commit, or
  as the transaction left it, the same for all blocks. Which of the two depends only on
  whether the write of the header was among the writes.
\<close>

theorem commit_crash_atomic:
  assumes ready: "txn_ready p s" and empty: "head_count (disk s (unat (head_no s))) = 0"
  shows "\<exists>t ws. commit s = Ret () t \<and> lh_n t = 0 \<and> dwrites t = ws @ dwrites s \<and> disk t = replay ws (disk s)
    \<and> same_blocks s (disk t) (txn_disk s) \<and> head_count (disk t (unat (head_no s))) = 0
    \<and> (\<forall>late early q r. ws = late @ early \<longrightarrow> rebooted q s (replay early (disk s)) r \<longrightarrow>
        (\<exists>u. recover_from_log r = Ret () u \<and> lh_n u = 0 \<and>
           same_blocks s (disk u) (if length early \<le> nat (lh_n s) then disk s else txn_disk s)))"
proof -
  let ?n = "nat (lh_n s)" and ?a = "lh_block s" and ?c = "copy_no s" and ?h = "unat (head_no s)"
  note R = txn_readyD[OF ready]
  have h: "unat (head_no s) < 2 ^ 31" using R(2) by (simp add: geom_def)
  have n31: "0 \<le> lh_n s" "lh_n s < 2 ^ 31" using R(6) txn_small[OF ready] by (simp_all add: NBUF_def)
  let ?Lw = "log_writes ?c (log_data ?c ?a (log_store s)) ?n"
  let ?I = "log_writes ?a (log_data ?a ?c (commit1 s))"
  obtain e0 en where ws: "commit_writes s = (?h, e0) # ?I ?n @ (?h, en) # ?Lw"
    and e0: "head_count e0 = 0" and en: "head_count en = ?n" "\<And>i. i < ?n \<Longrightarrow> head_block en i = ?a i"
    using head_bytes_read[of 0] head_bytes_read[OF n31] by (auto simp: commit_writes_def Let_def)
  obtain t where t: "commit s = Ret () t" "lh_n t = 0" "store_of (log_dev s) t = commit2 s"
    using commit_run[OF ready] by blast
  have d: "disk t = replay (commit_writes s) (disk s)" "dwrites t = commit_writes s @ dwrites s"
    using arg_cong[OF t(3), of sdisk] arg_cong[OF t(3), of swrites] commit_disk[OF R(2)] by simp_all
  note ci = crash_installing[OF ready, where hb = en]
  have full: "same_blocks s (replay (commit_writes s) (disk s)) (txn_disk s)"
    unfolding ws using same_txn[OF ci(3,4)[OF order_refl]] by (simp add: replay_append del: fun_upd_apply)
  have crash: "\<exists>u. recover_from_log r = Ret () u \<and> lh_n u = 0 \<and>
      same_blocks s (disk u) (if length early \<le> ?n then disk s else txn_disk s)"
    if le: "commit_writes s = late @ early" and rb: "rebooted q s (replay early (disk s)) r" for late early q r
    using le[unfolded ws, symmetric]
  proof (cases rule: suffix_cases)
    case (1 m)
    let ?D = "replay (log_writes ?c (log_data ?c ?a (log_store s)) m) (disk s)"
    have D: "?D k = disk s k" if "k \<notin> (\<lambda>i. unat (?c i)) ` {..<?n}" for k
      using that 1(1) by (intro replay_log_other) auto
    have "?h \<notin> (\<lambda>i. unat (?c i)) ` {..<?n}" using geomD(5)[OF R(2)] by (force simp: word_unat_eq_iff)
    then have "head_count (?D ?h) = 0" using D empty by simp
    moreover have "same_blocks s ?D (disk s)" using D by (simp add: same_blocks_def log_blocks_def)
    ultimately show ?thesis using recover_cleared[OF rb _ h] 1 same_blocks_trans by fastforce
  next
    case (2 m)
    then show ?thesis using recover_logged[OF rb ready] ci(1-3)[OF 2(1)] en by (simp add: replay_append)
  next
    case 3
    then show ?thesis using recover_cleared[OF rb _ h] e0 full same_blocks_trans ws by fastforce
  qed
  show ?thesis using t(1,2) d full e0 crash by (intro exI[of _ t] exI[of _ "commit_writes s"]) (simp add: ws)
qed


section \<open>Reference counts after recovery\<close>

text \<open>
  C14. Recovery drops one reference too many. \<open>install_trans\<close> unpins every block it
  installs, but only a commit has pinned them: recovery leaves the reference count of each
  block that it installs at the largest unsigned number. The next \<open>bread\<close> of such a block
  returns its buffer locked and with a reference count of zero, so that another \<open>bget\<close>
  may take the buffer for a different block while it is in use.
\<close>

theorem recovery_refcnt_underflow:
  assumes "fresh_log p s" and "n = head_count (disk s (unat (head_no s)))" "n < NBUF"
    and "a = head_block (disk s (unat (head_no s)))" and "geom (head_no s) (copy_no s) a n" and "i < n"
  shows "\<exists>t b u. recover_from_log s = Ret () t \<and> refs (log_dev s) t (a i) = - 1
    \<and> bread (log_dev s) (a i) t = Ret b u \<and> refcnt (bcache u b) = 0 \<and> sl_locked (slocks u (SL_buf b))"
proof -
  obtain t where t: "recover_from_log s = Ret () t" "bufs_inv p (log_dev s) t" "refs (log_dev s) t (a i) = - 1"
      "slocked (store_of (log_dev s) t) = Map.empty"
    using recover_run[OF assms(1-5)] assms(6) by blast
  have "held (log_dev s) t = {}" using t(4) dom_locked[of "log_dev s" t] by simp
  then obtain b q where q: "bread (log_dev s) (a i) t = Ret b (put_buf b q (sl_held (pid (ptable t p))) t)" "refcnt q = 0"
    using bread_put[OF t(2), of "a i"] geomD(8)[OF assms(5,6)] t(3) by (auto simp: settled_def room_def)
  then show ?thesis using t(1,3) by (intro exI[of _ t] exI[of _ b] exI) (auto simp: sl_held_def)
qed

section \<open>A concrete disk and cache\<close>

text \<open>An idle cache, except for the buffers that \<open>qs\<close> replaces.\<close>

definition idle_buf :: "nat \<Rightarrow> buf" where
  "idle_buf b = \<lparr>valid = False, bdisk = False, bdev = 0, blockno = 0, refcnt = 0,
     prev = (if b = 0 then HEAD else b - 1), next = (if b = HEAD then 0 else b + 1), bdata = (\<lambda>_. 0)\<rparr>"

definition log0 :: "(nat \<Rightarrow> buf) \<Rightarrow> int \<Rightarrow> log" where
  "log0 c n = sleeplocks.extend (sleep0 sl_free)
     \<lparr>iolog = [], iodev = (\<lambda>_ _. 0), uart_tx_buf = (\<lambda>_. 0), uart_tx_w = 0, uart_tx_r = 0, cons_buf = (\<lambda>_. 0),
      cons_r = 0, cons_w = 0, cons_e = 0, pr_locking = True, panicked = False,
      bcache = c, disk = (\<lambda>_ _. 0), dwrites = [],
      log_start = 2, log_size = 31, outstanding = 0, committing = False, log_dev = 1, lh_n = n,
      lh_block = (\<lambda>_. 5), \<dots> = ()\<rparr>"

lemma log0_sel [simp]:
  "bcache (log0 c n) = c" "disk (log0 c n) = (\<lambda>_ _. 0)" "dwrites (log0 c n) = []" "log_start (log0 c n) = 2"
  "log_dev (log0 c n) = 1" "lh_n (log0 c n) = n" "lh_block (log0 c n) = (\<lambda>_. 5)" "log_size (log0 c n) = 31"
  "outstanding (log0 c n) = 0" "\<not> committing (log0 c n)" "slocks (log0 c n) = (\<lambda>_. sl_free)" "locks (log0 c n) lk = free_lock"
  using sleep0_ok(3)[of sl_free lk] by (simp_all add: log0_def sleeplocks.defs sleep0_def procs.defs fun_eq_iff)

lemma log0_thread [simp]: "thread 0 (log0 c n)"
  using thread_cong(1)[of "log0 c n" "sleep0 sl_free" 0] by (simp add: log0_def sleeplocks.defs)

lemma idle_lru: "lru idle_buf [0..<NBUF]"
proof -
  have "chain (nexts idle_buf) HEAD [0..<NBUF] HEAD" by code_simp
  moreover have "chain (prevs idle_buf) HEAD (rev [0..<NBUF]) HEAD" by code_simp
  ultimately show ?thesis by (simp add: lru_def atLeast0LessThan)
qed


definition pinned5 :: "nat \<Rightarrow> buf" where
  "pinned5 = idle_buf(0 := (idle_buf 0)\<lparr>valid := True, bdev := 1, blockno := 5, refcnt := 1, bdata := (\<lambda>_. 7)\<rparr>)"

lemma idle_data [simp]:
  "valid (idle_buf b) = False" "bdev (idle_buf b) = 0" "refcnt (idle_buf b) = 0"
  by (simp_all add: idle_buf_def)

lemma pinned5_data [simp]:
  "bdev (pinned5 b) = (if b = 0 then 1 else 0)" "refcnt (pinned5 b) = (if b = 0 then 1 else 0)"
  "blockno (pinned5 0) = 5" "valid (pinned5 0)" "bdata (pinned5 0) = (\<lambda>_. 7)"
  by (simp_all add: pinned5_def)

lemma caches_wf: "cache_wf 1 idle_buf" "cache_wf 1 pinned5" "lru pinned5 [0..<NBUF]"
  by (auto simp: cache_wf_def pinned5_def intro!: lru_upd[OF idle_lru])

lemma caches_lookup: "lookup idle_buf 1 x = None" "lookup pinned5 1 x = (if x = 5 then Some 0 else None)"
proof -
  show "lookup idle_buf 1 x = None" by (simp add: lookup_None)
  show "lookup pinned5 1 x = (if x = 5 then Some 0 else None)"
    using lookup_Some[OF caches_wf(2), of x 0] by (auto simp: lookup_None NBUF_def split: if_splits)
qed

lemma caches_inv: "bufs_inv 0 1 (log0 idle_buf n)" "bufs_inv 0 1 (log0 pinned5 n)"
  using idle_lru caches_wf by (auto simp: bufs_inv_def clean_def lock_ok_def sl_free_def)

lemma caches_refs:
  "refs 1 (log0 idle_buf n) x = 0" "refs 1 (log0 pinned5 n) x = (if x = 5 then 1 else 0)"
  "held 1 (log0 idle_buf n) = {}" "held 1 (log0 pinned5 n) = {}"
  by (simp_all add: refs_def held_def caches_lookup sl_free_def)

lemma pinned5_ready: "txn_ready 0 (log0 pinned5 1)"
  using caches_inv(2) by (simp add: txn_ready_def geom_def inj_on_def head_no_def copy_no_def caches_refs NBUF_def)

lemma idle_fresh: "fresh_log 0 (log0 idle_buf n)"
  using caches_inv(1) by (simp add: fresh_log_def caches_refs)

theorem commit_crash_atomic_witness:
  "\<exists>t ws u. commit (log0 pinned5 1) = Ret () t \<and> dwrites t = ws \<and> (\<forall>j < unat BSIZE. disk t 5 j = 7)
     \<and> recover_from_log (log0 idle_buf 0) = Ret () u \<and> (\<forall>j < unat BSIZE. disk u 5 j = 0)"
proof -
  let ?s = "log0 pinned5 1"
  have "head_count (disk ?s (unat (head_no ?s))) = 0" by (simp add: head_count_def ld32_def)
  then obtain t ws where t: "commit ?s = Ret () t" "dwrites t = ws @ dwrites ?s" "same_blocks ?s (disk t) (txn_disk ?s)"
      "\<And>late early q r. ws = late @ early \<Longrightarrow> rebooted q ?s (replay early (disk ?s)) r \<Longrightarrow>
        (\<exists>u. recover_from_log r = Ret () u \<and> lh_n u = 0 \<and>
           same_blocks ?s (disk u) (if length early \<le> nat (lh_n ?s) then disk ?s else txn_disk ?s))"
    using commit_crash_atomic[OF pinned5_ready] by blast
  have "rebooted 0 ?s (replay [] (disk ?s)) (log0 idle_buf 0)" using idle_fresh by (simp add: rebooted_def)
  then obtain u where u: "recover_from_log (log0 idle_buf 0) = Ret () u" "same_blocks ?s (disk u) (\<lambda>_ _. 0)"
    using t(4)[of ws "[]"] by auto
  have "5 \<notin> log_blocks ?s" by (auto simp: log_blocks_def head_no_def copy_no_def)
  moreover have "txn_disk ?s 5 = (\<lambda>_. 7)" by (simp add: txn_disk_def view_def caches_lookup)
  ultimately show ?thesis using t(1-3) u by (auto simp: same_blocks_def)
qed


definition crashed5 :: log where
  "crashed5 = (log0 idle_buf 0)\<lparr>disk := (\<lambda>k. if k = 2 then head_bytes 1 (\<lambda>_. 5) (\<lambda>_. 0) else (\<lambda>_. 0))\<rparr>"

theorem recovery_refcnt_underflow_witness:
  "\<exists>t b u. recover_from_log crashed5 = Ret () t \<and> refs 1 t 5 = - 1 \<and> bread 1 5 t = Ret b u
     \<and> refcnt (bcache u b) = 0 \<and> sl_locked (slocks u (SL_buf b))"
proof -
  have no: "head_no crashed5 = 2" "copy_no crashed5 0 = 3" "log_dev crashed5 = 1"
    by (simp_all add: head_no_def copy_no_def crashed5_def)
  have "bufs_inv 0 1 crashed5"
    using idle_lru caches_wf by (auto simp: crashed5_def bufs_inv_def clean_def lock_ok_def sl_free_def)
  then have f: "fresh_log 0 crashed5" by (simp add: fresh_log_def refs_def held_def caches_lookup no) (simp add: crashed5_def caches_lookup)
  have h: "1 = head_count (disk crashed5 2)" "head_block (disk crashed5 2) 0 = 5"
    using head_bytes_read[where n = 1 and a = "\<lambda>_. 5" and d = "\<lambda>_. 0"] by (simp_all add: crashed5_def)
  have "geom 2 (copy_no crashed5) (head_block (disk crashed5 2)) 1"
    using h(2) no by (simp add: geom_def inj_on_def)
  then show ?thesis using recovery_refcnt_underflow[OF f, of 1 _ 0] h no by (simp add: NBUF_def)
qed

section \<open>log_write\<close>

lemma log_slot_spec:
  "i \<le> log_slot block bno i k \<and> log_slot block bno i k \<le> i + k \<and>
   (log_slot block bno i k < i + k \<longrightarrow> block (log_slot block bno i k) = bno) \<and>
   (\<forall>x. i \<le> x \<longrightarrow> x < log_slot block bno i k \<longrightarrow> block x \<noteq> bno)"
proof (induction k arbitrary: i)
  case (Suc k)
  show ?case
  proof (cases "block i = bno")
    case False
    note IH = Suc[of "Suc i"]
    have "block x \<noteq> bno" if "i \<le> x" "x < log_slot block bno (Suc i) k" for x
      using that False IH by (cases "x = i") auto
    then show ?thesis using False IH by auto
  qed simp
qed simp

text \<open>The blocks of the transaction so far.\<close>

definition txn_blocks :: "'z log_scheme \<Rightarrow> uint set" where
  "txn_blocks s = lh_block s ` {..<nat (lh_n s)}"

lemma log_lock_frame [acq_simps, simp]:
  "lh_n (acq lk s) = lh_n s" "lh_block (acq lk s) = lh_block s" "log_size (acq lk s) = log_size s"
  "outstanding (acq lk s) = outstanding s" "committing (acq lk s) = committing s" "log_dev (acq lk s) = log_dev s"
  "(acq lk s)\<lparr>lh_n := n\<rparr> = acq lk (s\<lparr>lh_n := n\<rparr>)" "(acq lk s)\<lparr>lh_block := f\<rparr> = acq lk (s\<lparr>lh_block := f\<rparr>)"
  "(acq lk s)\<lparr>outstanding := n\<rparr> = acq lk (s\<lparr>outstanding := n\<rparr>)"
  "(acq lk s)\<lparr>committing := b\<rparr> = acq lk (s\<lparr>committing := b\<rparr>)"
  by (simp_all add: acq_def pushed_def noff_of_def intr_of_def)

lemma log_cpu_frame [simp]:
  "cpu_ok (s\<lparr>lh_n := n\<rparr>) = cpu_ok s" "cpu_ok (s\<lparr>lh_block := f\<rparr>) = cpu_ok s"
  "cpu_ok (s\<lparr>outstanding := n\<rparr>) = cpu_ok s" "cpu_ok (s\<lparr>committing := b\<rparr>) = cpu_ok s"
  by (simp_all add: cpu_ok_def noff_of_def intr_of_def)


lemma bpin_eq:
  "cpu_ok s \<Longrightarrow> locks s L_bcache = free_lock \<Longrightarrow>
   bpin b s = Ret () (with_buf b (\<lambda>q. q\<lparr>refcnt := refcnt q + 1\<rparr>) s)"
  by (simp add: bpin_def bind_def acquire_eq update_buf_eq release_acq)

lemma with_buf_log [simp]:
  "(with_buf b f s)\<lparr>lh_n := n\<rparr> = with_buf b f (s\<lparr>lh_n := n\<rparr>)" "lh_n (with_buf b f s) = lh_n s"
  "lh_block (with_buf b f s) = lh_block s" "log_dev (with_buf b f s) = log_dev s"
  by (simp_all add: with_buf_def)

lemma log_write_eq:
  fixes s :: "'z log_scheme" and b :: nat
  assumes "cpu_ok s" "locks s L_log = free_lock" "locks s L_bcache = free_lock"
    "lh_n s < LOGSIZE" "lh_n s < log_size s - 1" "1 \<le> outstanding s"
  defines "i \<equiv> log_slot (lh_block s) (blockno (bcache s b)) 0 (nat (lh_n s))"
  defines "u \<equiv> s\<lparr>lh_block := (lh_block s)(i := blockno (bcache s b))\<rparr>"
  shows "log_write b s = Ret () (if int i = lh_n s
    then with_buf b (\<lambda>q. q\<lparr>refcnt := refcnt q + 1\<rparr>) (u\<lparr>lh_n := lh_n s + 1\<rparr>) else u)"
proof -
  have "bpin b (acq L_log u) = Ret () (acq L_log (with_buf b (\<lambda>q. q\<lparr>refcnt := refcnt q + 1\<rparr>) u))"
    using assms(3) by (subst bpin_eq) (simp_all add: u_def)
  moreover have "cpu_ok u" "locks u L_log = free_lock" "lh_n u = lh_n s" using assms(1,2) by (simp_all add: u_def)
  ultimately show ?thesis using assms(2-6)
    by (simp add: log_write_def bind_def reads_def acquire_eq buf_of_def modify_def ret_def i_def [symmetric]
        u_def [symmetric] release_acq)
qed

text \<open>
  C15. \<open>log_write\<close> records a block once. Called by the holder of a block inside a
  transaction with room in the log, it returns. A block that the transaction has already is
  absorbed, with no change at all; a new one is appended to the header, and its buffer
  pinned in the cache, so that the modified content stays there until the commit. Without
  room, or outside a transaction, it panics.
\<close>

theorem log_write_records:
  assumes inv: "bufs_inv p (log_dev s) s" and lk: "locks s L_log = free_lock"
    and b: "slocked (log_store s) bno = Some b" "srefs (log_store s) bno + 1 \<noteq> 0"
    and n: "0 \<le> lh_n s" and inj: "inj_on (lh_block s) {..<nat (lh_n s)}"
  shows "if lh_n s \<ge> LOGSIZE \<or> lh_n s \<ge> log_size s - 1 then log_write b s = Panic ''too big a transaction''
    else if outstanding s < 1 then log_write b s = Panic ''log_write outside of trans''
    else if bno \<in> txn_blocks s then log_write b s = Ret () s
    else \<exists>t. log_write b s = Ret () t \<and> bufs_inv p (log_dev s) t \<and> log_store t = pin_block bno 1 (log_store s) \<and>
      lh_n t = lh_n s + 1 \<and> txn_blocks t = insert bno (txn_blocks s) \<and> inj_on (lh_block t) {..<nat (lh_n t)}"
proof (cases "lh_n s \<ge> LOGSIZE \<or> lh_n s \<ge> log_size s - 1 \<or> outstanding s < 1")
  case True
  then show ?thesis by (auto simp: log_write_def bind_def reads_def panic_def)
next
  case False
  let ?n = "nat (lh_n s)" and ?f = "\<lambda>q. q\<lparr>refcnt := refcnt q + 1\<rparr>"
  define i where "i = log_slot (lh_block s) bno 0 ?n"
  have l: "locked_buf (log_dev s) s bno = Some b" using b(1) by simp
  note D = locked_bufD[OF inv l] and d = bufs_invD[OF inv]
  have run: "log_write b s = Ret () (if int i = lh_n s then with_buf b ?f
      (s\<lparr>lh_block := (lh_block s)(i := bno), lh_n := lh_n s + 1\<rparr>) else s\<lparr>lh_block := (lh_block s)(i := bno)\<rparr>)"
    using log_write_eq[OF threadD(1)[OF d(1)] lk d(2), of b] False D(4) by (simp add: i_def)
  note sl = log_slot_spec[of 0 "lh_block s" bno ?n, folded i_def]
  show ?thesis
  proof (cases "bno \<in> txn_blocks s")
    case True
    then obtain x where x: "x < ?n" "lh_block s x = bno" by (auto simp: txn_blocks_def)
    then have "\<not> x < i" using sl by auto
    then have "i < ?n" using x(1) by simp
    then have "(lh_block s)(i := bno) = lh_block s" "int i \<noteq> lh_n s" using sl by (auto simp: fun_upd_idem)
    then show ?thesis using run True False by simp
  next
    case new: False
    then have i: "i = ?n" "int i = lh_n s" using sl n by (auto simp: txn_blocks_def le_less)
    let ?v = "s\<lparr>lh_block := (lh_block s)(i := bno), lh_n := lh_n s + 1\<rparr>"
    obtain t where "bpin b ?v = Ret () t" "after_ok p (log_dev s) ?v t" "store_of (log_dev s) t = pin_block bno 1 (store_of (log_dev s) ?v)"
      using bpin_law[of p "log_dev s" ?v bno b] inv b by auto
    moreover have "bpin b ?v = Ret () (with_buf b ?f ?v)"
      using threadD(1)[OF d(1)] d(2) by (intro bpin_eq) simp_all
    ultimately have t: "bufs_inv p (log_dev s) (with_buf b ?f ?v)"
        "store_of (log_dev s) (with_buf b ?f ?v) = pin_block bno 1 (log_store s)"
      by (simp_all add: after_ok_def)
    have N: "{..<nat (lh_n s + 1)} = insert i {..<?n}" using i n by (auto simp: nat_add_distrib)
    have "inj_on ((lh_block s)(i := bno)) (insert i {..<?n})" "((lh_block s)(i := bno)) ` (insert i {..<?n}) = insert bno (txn_blocks s)"
      using inj new i(1) by (auto simp: inj_on_def txn_blocks_def)
    then show ?thesis using run i(2) new False t N by (simp add: txn_blocks_def)
  qed
qed


definition writing5 :: log where
  "writing5 = with_slock (SL_buf 0) (sl_held 1) ((log0 pinned5 0)\<lparr>outstanding := 1\<rparr>)"

lemma log0_pid [simp]: "pid (ptable (log0 c n) 0) = 1"
proof -
  have "ptable (log0 c n) = ptable (sleep0 sl_free)" by (simp add: log0_def sleeplocks.defs)
  then show ?thesis by simp
qed

lemma writing5_sel [simp]:
  "bcache writing5 = pinned5" "log_dev writing5 = 1" "lh_n writing5 = 0" "log_size writing5 = 31"
  "outstanding writing5 = 1" "locks writing5 lk = free_lock" "slocks writing5 = (\<lambda>_. sl_free)(SL_buf 0 := sl_held 1)"
  "pid (ptable writing5 0) = 1" "disk writing5 = (\<lambda>_ _. 0)"
  by (simp_all add: writing5_def with_slock_def)

lemma writing5_inv: "bufs_inv 0 1 writing5" "locked_buf 1 writing5 5 = Some 0" "refs 1 writing5 5 = 1"
proof -
  have "thread 0 writing5"
    using thread_cong(1)[of writing5 "log0 pinned5 0" 0] by (simp add: writing5_def with_slock_def)
  then show "bufs_inv 0 1 writing5"
    using caches_wf by (auto simp: bufs_inv_def clean_def lock_ok_def sl_free_def)
  show "locked_buf 1 writing5 5 = Some 0" "refs 1 writing5 5 = 1"
    by (simp_all add: locked_buf_def held_def refs_def caches_lookup sl_held_def)
qed

theorem log_write_records_witness:
  "\<exists>t. log_write 0 writing5 = Ret () t \<and> lh_n t = 1 \<and> txn_blocks t = {5}"
  using log_write_records[of 0 writing5 5 0] writing5_inv by (auto simp: LOGSIZE_def txn_blocks_def)

end
