(* ===== verification/LogReserve.thy ===== *)
theory LogReserve
  imports LogCrash
begin

text \<open>
  The space of the log: \<open>begin_op\<close> reserves room for every system call that it admits, so
  that the log does not overflow, and what happens when all buffers are in use.
\<close>

section \<open>What operations keep\<close>

text \<open>The machine and process layers keep everything above the buffer cache.\<close>

lemma keeps_locks [keeps_rules]:
  "keeps bio.more push_off" "keeps bio.more pop_off" "keeps bio.more (acquire lk)" "keeps bio.more (release lk)"
  "keeps bio.more (holding lk)" "keeps bio.more mycpu" "keeps bio.more (update_mycpu g)" "keeps bio.more intr_get"
proof -
  have p: "keeps bio.more intr_get" "keeps bio.more intr_on" "keeps bio.more intr_off" "keeps bio.more mycpu"
    "keeps bio.more (holding lk)" "keeps bio.more (update_mycpu g)" for lk g
    unfolding lock_defs by (intro keeps_rules keeps_modify; simp)+
  note [keeps_rules] = p
  show q: "keeps bio.more push_off" "keeps bio.more pop_off"
    unfolding push_off_def pop_off_def by (intro keeps_rules)+
  show "keeps bio.more (acquire lk)" "keeps bio.more (release lk)"
    unfolding acquire_unfold release_unfold by (intro keeps_rules keeps_modify q; simp)+
qed (unfold lock_defs, (intro keeps_rules keeps_modify; simp)+)


lemma keeps_procs [keeps_rules]:
  "keeps bio.more curp" "keeps bio.more (proc_of i g)" "keeps bio.more (update_proc i h)"
  "keeps bio.more sched" "keeps bio.more (sleep ch lk)" "keeps bio.more (wakeup ch)"
proof -
  show p: "keeps bio.more (proc_of i g)" "keeps bio.more (update_proc i h)" for i g h
    unfolding proc_of_def update_proc_def by (intro keeps_rules keeps_modify; simp)+
  have "keeps bio.more myproc" unfolding myproc_def by (intro keeps_rules)
  then show c: "keeps bio.more curp" unfolding curp_def deref_def by (intro keeps_rules)
  show d: "keeps bio.more sched" unfolding sched_def by (intro keeps_rules p c)
  show "keeps bio.more (sleep ch lk)" unfolding sleep_def by (intro keeps_rules p c d)
  show "keeps bio.more (wakeup ch)" unfolding wakeup_def by (intro keeps_rules p)
qed

lemma keeps_sleep_loop [keeps_rules]:
  "keeps f body \<Longrightarrow> keeps f slp \<Longrightarrow> keeps f (sleep_loop n body slp)"
  by (induction n) (auto intro!: keeps_rules)

lemma keeps_sleeplocks [keeps_rules]:
  "keeps bio.more (acquiresleep sl)" "keeps bio.more (releasesleep sl)" "keeps bio.more (holdingsleep sl)"
proof -
  have p: "keeps bio.more (set_slock sl v)" for v unfolding set_slock_def by (intro keeps_modify) simp
  show "keeps bio.more (acquiresleep sl)" "keeps bio.more (releasesleep sl)" "keeps bio.more (holdingsleep sl)"
    unfolding acquiresleep_def releasesleep_def holdingsleep_def sleep_while_def sleep_until_def
    by (intro keeps_rules p)+
qed

lemma keeps_bio [keeps_rules]:
  "keeps bio.more (bread dev bno)" "keeps bio.more (bwrite b)" "keeps bio.more (brelse b)" "keeps bio.more (bpin b)"
  "keeps bio.more (bunpin b)" "keeps bio.more (buf_of b g)" "keeps bio.more (update_buf b h)"
proof -
  show p: "keeps bio.more (buf_of b g)" "keeps bio.more (update_buf b h)" for b h g
    unfolding buf_of_def update_buf_def by (intro keeps_rules keeps_modify; simp)+
  have c: "keeps bio.more (bget_cached n b dev bno)" "keeps bio.more (bget_unused n b)" for n b
    by (induction n arbitrary: b) (auto intro!: keeps_rules p)
  have d: "keeps bio.more (disk_rw b w)" for b w
    unfolding disk_rw_def by (intro keeps_rules p keeps_modify; simp)
  show "keeps bio.more (bread dev bno)" "keeps bio.more (bwrite b)" "keeps bio.more (brelse b)" "keeps bio.more (bpin b)"
    "keeps bio.more (bunpin b)"
    unfolding bread_def bget_def bwrite_def brelse_def bpin_def bunpin_def by (intro keeps_rules p c d)+
qed

text \<open>The log header in memory, and the rest of \<open>struct log\<close>.\<close>

abbreviation log_rest :: "'z log_scheme \<Rightarrow> int \<times> int \<times> bool" where
  "log_rest s \<equiv> (log_size s, outstanding s, committing s)"

lemma keeps_more: "keeps bio.more m \<Longrightarrow> keeps log_rest m" "keeps bio.more m \<Longrightarrow> keeps lh_n m"
  unfolding keeps_def using log_fields by blast+

lemma commit_RetD:
  assumes "commit s = Ret () t"
  shows "log_rest t = log_rest s" "lh_n t = (if lh_n s > 0 then 0 else lh_n s)"
proof -
  have k: "keeps bio.more write_log" "keeps bio.more write_head" "keeps bio.more install_trans"
    unfolding write_log_def write_log_block_def write_head_def install_trans_def install_block_def
    by (intro keeps_rules)+
  have r: "keeps log_rest commit" unfolding commit_def
    by (intro keeps_rules keeps_modify keeps_more(1)[OF k(1)] keeps_more(1)[OF k(2)] keeps_more(1)[OF k(3)]) simp
  show "log_rest t = log_rest s" using r assms by (rule keepsD)
  show "lh_n t = (if lh_n s > 0 then 0 else lh_n s)"
  proof (cases "lh_n s > 0")
    case True
    then obtain u where "write_head (u\<lparr>lh_n := 0\<rparr>) = Ret () t"
      using assms by (auto simp: commit_def bind_def reads_def modify_def dest!: andthen_RetD)
    then show ?thesis using keepsD[OF keeps_more(2)[OF k(2)]] True by fastforce
  next
    case False
    then show ?thesis using assms by (simp add: commit_def bind_def reads_def ret_def)
  qed
qed


lemma more_fields: "keeps bio.more m \<Longrightarrow> m s = Ret a t \<Longrightarrow> log_rest t = log_rest s \<and> lh_n t = lh_n s"
  using keepsD[OF keeps_more(1), of m s a t] keepsD[OF keeps_more(2), of m s a t] by simp

lemma end_op_RetD:
  assumes "end_op s = Ret () t"
  shows "\<not> committing s \<and> log_size t = log_size s \<and> outstanding t = outstanding s - 1 \<and> \<not> committing t \<and>
    lh_n t = (if outstanding s = 1 \<and> lh_n s > 0 then 0 else lh_n s)"
proof -
  obtain a s1 where s1: "acquire L_log s = Ret a s1" and k0: "bind (modify (\<lambda>s. s\<lparr>outstanding := outstanding s - 1\<rparr>)) (\<lambda>_.
     bind (reads committing) (\<lambda>c. if c then panic ''log.committing'' else
     bind (reads (\<lambda>s. outstanding s = 0)) (\<lambda>do_commit.
     bind (if do_commit then modify (\<lambda>s. s\<lparr>committing := True\<rparr>) else wakeup C_log) (\<lambda>_.
     bind (release L_log) (\<lambda>_. if do_commit then
       bind commit (\<lambda>_. bind (acquire L_log) (\<lambda>_. bind (modify (\<lambda>s. s\<lparr>committing := False\<rparr>)) (\<lambda>_.
       bind (wakeup C_log) (\<lambda>_. release L_log)))) else ret ()))))) s1 = Ret () t"
    using bind_RetD[OF assms[unfolded end_op_def]] by (elim exE conjE) (rule that)
  have nc: "\<not> committing s1"
  proof
    assume "committing s1"
    then show False using k0 by (simp add: bind_apply panic_def)
  qed
  have f: "log_rest s1 = log_rest s" "lh_n s1 = lh_n s"
    using more_fields[OF keeps_locks(3) s1] by auto
  show ?thesis
  proof (cases "outstanding s1 = 1")
    case True
    have "bind (release L_log) (\<lambda>_. bind commit (\<lambda>_. bind (acquire L_log) (\<lambda>_.
        bind (modify (\<lambda>s. s\<lparr>committing := False\<rparr>)) (\<lambda>_. bind (wakeup C_log) (\<lambda>_. release L_log)))))
        (s1\<lparr>outstanding := 0, committing := True\<rparr>) = Ret () t"
      using k0 nc True by (simp add: bind_apply)
    then obtain s2 s3 where c: "release L_log (s1\<lparr>outstanding := 0, committing := True\<rparr>) = Ret () s2"
        "commit s2 = Ret () s3" and k1: "bind (acquire L_log) (\<lambda>_.
        bind (modify (\<lambda>s. s\<lparr>committing := False\<rparr>)) (\<lambda>_. bind (wakeup C_log) (\<lambda>_. release L_log))) s3 = Ret () t"
      by (blast dest: bind_unit_RetD)
    then obtain s4 where c4: "acquire L_log s3 = Ret () s4"
      and k2: "bind (wakeup C_log) (\<lambda>_. release L_log) (s4\<lparr>committing := False\<rparr>) = Ret () t"
      using bind_unit_RetD[OF k1] by (auto simp: bind_apply)
    obtain s5 where c5: "wakeup C_log (s4\<lparr>committing := False\<rparr>) = Ret () s5" "release L_log s5 = Ret () t"
      using bind_unit_RetD[OF k2] by blast
    show ?thesis
      using more_fields[OF keeps_locks(4) c(1)] commit_RetD[OF c(2)] more_fields[OF keeps_locks(3) c4]
        more_fields[OF keeps_procs(6) c5(1)] more_fields[OF keeps_locks(4) c5(2)] f nc True by auto
  next
    case False
    obtain s2 where c: "wakeup C_log (s1\<lparr>outstanding := outstanding s1 - 1\<rparr>) = Ret () s2" "release L_log s2 = Ret () t"
    proof -
      have "bind (wakeup C_log) (\<lambda>_. bind (release L_log) (\<lambda>_. ret ())) (s1\<lparr>outstanding := outstanding s1 - 1\<rparr>) = Ret () t"
        using k0 nc False by (simp add: bind_apply)
      then show thesis using that bind_unit_RetD by (fastforce simp: bind_def)
    qed
    show ?thesis
      using more_fields[OF keeps_procs(6) c(1)] more_fields[OF keeps_locks(4) c(2)] f nc False by auto
  qed
qed

lemma begin_op_try_RetD:
  assumes "begin_op_try s = Ret (Some ()) t"
  shows "\<not> committing s \<and> lh_n s + (outstanding s + 1) * MAXOPBLOCKS \<le> LOGSIZE \<and> log_size t = log_size s \<and>
    outstanding t = outstanding s + 1 \<and> lh_n t = lh_n s \<and> \<not> committing t"
proof -
  have a: "\<not> committing s" "\<not> lh_n s + (outstanding s + 1) * MAXOPBLOCKS > LOGSIZE"
      and c: "release L_log (s\<lparr>outstanding := outstanding s + 1\<rparr>) = Ret () t"
    using assms by (auto simp: begin_op_try_def bind_apply ret_def split: if_splits dest!: bind_RetD)
  show ?thesis using more_fields[OF keeps_locks(4) c] a by auto
qed

lemma log_write_RetD:
  assumes "log_write b s = Ret () t"
  shows "lh_n s < LOGSIZE \<and> log_rest t = log_rest s \<and> (lh_n t = lh_n s \<or> lh_n t = lh_n s + 1)"
proof -
  have big: "lh_n s < LOGSIZE"
    using assms by (auto simp: log_write_def bind_def reads_def panic_def split: if_splits)
  have "keeps log_rest (log_write b)" unfolding log_write_def
    by (intro keeps_rules keeps_modify keeps_more(1)[OF keeps_locks(3)] keeps_more(1)[OF keeps_locks(4)]
        keeps_more(1)[OF keeps_bio(4)] keeps_more(1)[OF keeps_bio(6)]; simp)
  then have r: "log_rest t = log_rest s" using assms by (rule keepsD)
  have "bind (acquire L_log) (\<lambda>_. bind (buf_of b blockno) (\<lambda>bno.
       bind (reads (\<lambda>s. log_slot (lh_block s) bno 0 (nat (lh_n s)))) (\<lambda>i.
       bind (modify (\<lambda>s. s\<lparr>lh_block := (lh_block s)(i := bno)\<rparr>)) (\<lambda>_.
       bind (reads (\<lambda>s. int i = lh_n s)) (\<lambda>new.
       bind (if new then bind (bpin b) (\<lambda>_. modify (\<lambda>s. s\<lparr>lh_n := lh_n s + 1\<rparr>)) else ret ()) (\<lambda>_.
       release L_log)))))) s = Ret () t"
    using assms by (simp add: log_write_def bind_apply panic_def split: if_splits)
  then obtain s1 i bno where s1: "acquire L_log s = Ret () s1" and k': "bind (if int i = lh_n s1 then bind (bpin b) (\<lambda>_. modify (\<lambda>s. s\<lparr>lh_n := lh_n s + 1\<rparr>)) else ret ())
      (\<lambda>_. release L_log) (s1\<lparr>lh_block := (lh_block s1)(i := bno)\<rparr>) = Ret () t"
    using bind_RetD by (fastforce simp: buf_of_def bind_apply)
  have f: "lh_n s1 = lh_n s" using more_fields[OF keeps_locks(3) s1] by simp
  show ?thesis
  proof (cases "int i = lh_n s1")
    case True
    then obtain s2 where c: "bpin b (s1\<lparr>lh_block := (lh_block s1)(i := bno)\<rparr>) = Ret () s2"
        "release L_log (s2\<lparr>lh_n := lh_n s2 + 1\<rparr>) = Ret () t"
      using k' by (auto simp: modify_def [of "\<lambda>s. s\<lparr>lh_n := lh_n s + 1\<rparr>"] dest!: bind_RetD)
    show ?thesis using more_fields[OF keeps_bio(4) c(1)] more_fields[OF keeps_locks(4) c(2)] f r big by auto
  next
    case False
    then have c: "release L_log (s1\<lparr>lh_block := (lh_block s1)(i := bno)\<rparr>) = Ret () t" using k' by (simp add: bind_apply)
    show ?thesis using more_fields[OF keeps_locks(4) c] f r big by auto
  qed
qed


section \<open>Reservation\<close>

text \<open>
  The system calls that use the log, interleaved in any way: each is admitted by
  \<open>begin_op\<close> with a budget of \<open>MAXOPBLOCKS\<close> blocks, spends one unit of it on each
  \<open>log_write\<close>, and ends with \<open>end_op\<close>. All other code leaves the counters of the log alone.
\<close>

inductive log_step :: "'z log_scheme \<times> int list \<Rightarrow> 'z log_scheme \<times> int list \<Rightarrow> bool" where
  op_begins: "begin_op_try s = Ret (Some ()) t \<Longrightarrow> log_step (s, bs) (t, MAXOPBLOCKS # bs)"
| op_writes: "i < length bs \<Longrightarrow> 0 < bs ! i \<Longrightarrow> log_write b s = Ret () t \<Longrightarrow> log_step (s, bs) (t, bs[i := bs ! i - 1])"
| op_ends: "i < length bs \<Longrightarrow> end_op s = Ret () t \<Longrightarrow> log_step (s, bs) (t, take i bs @ drop (Suc i) bs)"
| elsewhere: "log_rest t = log_rest s \<Longrightarrow> lh_n t = lh_n s \<Longrightarrow> log_step (s, bs) (t, bs)"

inductive log_reach :: "'z log_scheme \<times> int list \<Rightarrow> bool" where
  log_starts: "lh_n s = 0 \<Longrightarrow> outstanding s = 0 \<Longrightarrow> LOGSIZE < log_size s \<Longrightarrow> log_reach (s, [])"
| log_steps: "log_reach x \<Longrightarrow> log_step x y \<Longrightarrow> log_reach y"

definition log_inv :: "'z log_scheme \<times> int list \<Rightarrow> bool" where
  "log_inv x \<longleftrightarrow> (case x of (s, bs) \<Rightarrow> 0 \<le> lh_n s \<and> outstanding s = int (length bs) \<and> (\<forall>b \<in> set bs. 0 \<le> b \<and> b \<le> MAXOPBLOCKS) \<and>
     lh_n s + sum_list bs \<le> LOGSIZE \<and> LOGSIZE < log_size s)"

lemma sum_list_bound: "\<forall>b \<in> set bs. b \<le> k \<Longrightarrow> sum_list bs \<le> k * int (length bs)" for k :: int
  by (induction bs) (auto simp: algebra_simps)

lemma sum_list_pos: "\<forall>b \<in> set bs. 0 \<le> b \<Longrightarrow> 0 \<le> sum_list bs" for bs :: "int list"
  by (rule sum_list_nonneg) simp

lemma sum_list_at: "i < length bs \<Longrightarrow> sum_list bs = sum_list (take i bs) + bs ! i + sum_list (drop (Suc i) bs)" for bs :: "int list"
  using arg_cong[OF id_take_nth_drop[of i bs], of sum_list] by simp

lemma log_step_inv: "log_step x y \<Longrightarrow> log_inv x \<Longrightarrow> log_inv y"
proof (induction rule: log_step.induct)
  case (op_begins s t bs)
  have "sum_list bs \<le> MAXOPBLOCKS * int (length bs)"
    using op_begins.prems by (intro sum_list_bound) (simp add: log_inv_def)
  then show ?case using op_begins.prems begin_op_try_RetD[OF op_begins.hyps]
    by (auto simp: log_inv_def MAXOPBLOCKS_def algebra_simps)
next
  case (op_writes i bs b s t)
  have "sum_list (bs[i := bs ! i - 1]) = sum_list bs - 1"
    using op_writes.hyps(1) sum_list_at[of i bs] sum_list_at[of i "bs[i := bs ! i - 1]"] by simp
  moreover have "\<forall>c \<in> set (bs[i := bs ! i - 1]). 0 \<le> c \<and> c \<le> MAXOPBLOCKS"
  proof
    fix c assume "c \<in> set (bs[i := bs ! i - 1])"
    then have "c = bs ! i - 1 \<or> c \<in> set bs" using set_update_subset_insert[of bs i "bs ! i - 1"] by blast
    moreover have "\<forall>b \<in> set bs. 0 \<le> b \<and> b \<le> MAXOPBLOCKS" using op_writes.prems by (simp add: log_inv_def)
    ultimately show "0 \<le> c \<and> c \<le> MAXOPBLOCKS" using op_writes.hyps(2) nth_mem[OF op_writes.hyps(1)] by fastforce
  qed
  ultimately show ?case using op_writes.prems log_write_RetD[OF op_writes.hyps(3)]
    by (auto simp: log_inv_def)
next
  case (op_ends i bs s t)
  let ?cs = "take i bs @ drop (Suc i) bs"
  have "0 \<le> bs ! i" using op_ends.prems nth_mem[OF op_ends.hyps(1)] by (auto simp: log_inv_def)
  then have "sum_list ?cs \<le> sum_list bs" using sum_list_at[OF op_ends.hyps(1)] by simp
  moreover have "lh_n t \<le> lh_n s" "0 \<le> lh_n t"
    using end_op_RetD[OF op_ends.hyps(2)] op_ends.prems by (auto simp: log_inv_def)
  ultimately have "lh_n t + sum_list ?cs \<le> LOGSIZE" using op_ends.prems by (simp add: log_inv_def)
  moreover have "set ?cs \<subseteq> set bs" using set_take_subset[of i bs] set_drop_subset[of "Suc i" bs] by auto
  moreover have "int (length ?cs) = int (length bs) - 1" using op_ends.hyps(1) by auto
  ultimately show ?case using op_ends.prems end_op_RetD[OF op_ends.hyps(2)] \<open>0 \<le> lh_n t\<close>
    unfolding log_inv_def by auto
next
  case (elsewhere t s bs)
  then show ?case by (simp add: log_inv_def)
qed

lemma log_reach_inv: "log_reach x \<Longrightarrow> log_inv x"
proof (induction rule: log_reach.induct)
  case (log_starts s)
  then show ?case by (simp add: log_inv_def LOGSIZE_def)
next
  case (log_steps x y)
  then show ?case using log_step_inv by blast
qed



end
