(* ===== verification/BufProps.thy ===== *)
theory BufProps
  imports LogCrash
begin

text \<open>
  The properties of the buffer cache: what \<open>bget\<close> returns in every case, what \<open>binit\<close>
  sets up, and that the cache implements the abstract store of blocks.
\<close>

lemma acquiresleep_held:
  assumes "thread p s" "noff_of s = 0" "locks s (L_sleep lk) = free_lock" "sl_locked (slocks s lk)"
  shows "\<exists>k. acquiresleep lk s = Swtch (acq (L_proc p) (asleep p (C_sleeplock lk) s)) k"
  using acquiresleep_loop_held[OF assms, of "patience s"] acquiresleep_unfold[OF assms(3)] by auto

text \<open>
  C18. \<open>bget\<close> finds or recycles. If a buffer has the block, that one gets one more
  reference and its lock; when another process has the lock, the caller goes to sleep, and
  the reference is counted already. Otherwise the least recently used buffer without
  references is given to the block, with one reference and marked as not valid. If there
  is none, the kernel panics. In no case does the order of the buffers change.
\<close>

theorem bget_finds_or_recycles:
  assumes "thread p s" "noff_of s = 0" "locks s L_bcache = free_lock" "\<forall>b. locks s (L_sleep (SL_buf b)) = free_lock"
    and "lru (bcache s) xs" "cache_wf dev (bcache s)"
  shows "case lookup (bcache s) dev bno of
      Some b \<Rightarrow>
        let t = with_buf b (\<lambda>q. q\<lparr>refcnt := refcnt q + 1\<rparr>) s in
        if sl_locked (slocks s (SL_buf b))
        then \<exists>k. bget dev bno s = Swtch (acq (L_proc p) (asleep p (C_sleeplock (SL_buf b)) t)) k
        else bget dev bno s = Ret b (with_slock (SL_buf b) (sl_held (pid (ptable s p))) t)
    | None \<Rightarrow>
        (case find (\<lambda>b. refcnt (bcache s b) = 0) (rev xs) of
           Some b \<Rightarrow>
             let t = with_buf b (\<lambda>q. q\<lparr>bdev := dev, blockno := bno, valid := False, refcnt := 1\<rparr>) s in
             \<not> sl_locked (slocks s (SL_buf b)) \<longrightarrow>
             bget dev bno s = Ret b (with_slock (SL_buf b) (sl_held (pid (ptable s p))) t)
         | None \<Rightarrow> bget dev bno s = Panic ''bget: no buffers'')"
proof -
  note eq = bget_eq[OF assms(1,3,5), of dev bno] and lk = lookup_lru[OF assms(6,5), of bno]
  have free: "bind (acquiresleep (SL_buf b)) (\<lambda>_. ret b) (with_buf b f s) =
      Ret b (with_slock (SL_buf b) (sl_held (pid (ptable s p))) (with_buf b f s))"
    if "\<not> sl_locked (slocks s (SL_buf b))" for b f
    using acquiresleep_free[of p "with_buf b f s" "SL_buf b"] that assms(1,4) by (simp add: bind_def ret_def)
  show ?thesis
  proof (cases "lookup (bcache s) dev bno")
    case None
    show ?thesis
    proof (cases "find (\<lambda>b. refcnt (bcache s b) = 0) (rev xs)")
      case none: None
      then show ?thesis using None eq lk by (simp add: bget_choice_def)
    next
      case (Some b)
      then show ?thesis using None eq lk free[of b] by (simp add: bget_choice_def Let_def)
    qed
  next
    case (Some b)
    let ?t = "with_buf b (\<lambda>q. q\<lparr>refcnt := refcnt q + 1\<rparr>) s"
    have e: "bget dev bno s = bind (acquiresleep (SL_buf b)) (\<lambda>_. ret b) ?t"
      using Some eq lk by (simp add: bget_choice_def)
    show ?thesis
    proof (cases "sl_locked (slocks s (SL_buf b))")
      case True
      have "\<exists>k. acquiresleep (SL_buf b) ?t = Swtch (acq (L_proc p) (asleep p (C_sleeplock (SL_buf b)) ?t)) k"
        using acquiresleep_held[of p ?t "SL_buf b"] assms True by simp
      then have "\<exists>k. bget dev bno s = Swtch (acq (L_proc p) (asleep p (C_sleeplock (SL_buf b)) ?t)) k"
        using e by (auto simp: bind_def)
      then show ?thesis using True Some by (simp add: Let_def)
    next
      case False
      then show ?thesis using e Some free[of b] by (simp add: Let_def)
    qed
  qed
qed

lemma log0_noff [simp]: "noff_of (log0 c n) = 0"
proof -
  have "cpus (log0 c n) = cpus (sleep0 sl_free)" "tp (log0 c n) = tp (sleep0 sl_free)"
    by (simp_all add: log0_def sleeplocks.defs)
  then show ?thesis using sleep0_ok(2)[of sl_free] by (simp add: noff_of_def)
qed

theorem bget_finds_or_recycles_witness:
  "bget 1 5 (log0 pinned5 0) = Ret 0 (with_slock (SL_buf 0) (sl_held 1)
     (with_buf 0 (\<lambda>q. q\<lparr>refcnt := refcnt q + 1\<rparr>) (log0 pinned5 0)))"
  using bget_finds_or_recycles[of 0 "log0 pinned5 0" "[0..<NBUF]" 1 5] caches_wf
  by (simp add: caches_lookup sl_free_def)

text \<open>
  C17. The buffer cache implements a store of blocks. In a process that is the only user of
  the cache, \<open>bread\<close> of a block that is not locked returns, with the block locked and one
  more reference to it, and changes nothing else of the store; the buffer then has the
  content of the block. Changing the data of a locked buffer changes the content of that
  block, \<open>bwrite\<close> puts it on the disk, and \<open>brelse\<close>, \<open>bpin\<close> and \<open>bunpin\<close> change its
  lock and its count. All of them keep the invariant of the cache.
\<close>

theorem buffer_cache_refines:
  assumes inv: "bufs_inv p dev s"
  defines "A \<equiv> store_of dev s"
  shows "(\<forall>bno. can_get bno A \<longrightarrow> (\<exists>b t. bread dev bno s = Ret b t \<and> after_ok p dev s t \<and>
        store_of dev t = get_block b bno A \<and> bdata (bcache t b) = sview A bno))
    \<and> (\<forall>bno b. slocked A bno = Some b \<longrightarrow>
        (\<forall>g. srefs A bno \<noteq> 0 \<longrightarrow> (\<exists>t. update_buf b (\<lambda>q. q\<lparr>bdata := g (bdata q)\<rparr>) s = Ret () t \<and> after_ok p dev s t \<and>
          store_of dev t = set_block bno (g (sview A bno)) A)) \<and>
        (\<exists>t. bwrite b s = Ret () t \<and> after_ok p dev s t \<and> store_of dev t = flush_block bno A) \<and>
        (srefs A bno + 1 \<noteq> 0 \<longrightarrow> (\<exists>t. bpin b s = Ret () t \<and> after_ok p dev s t \<and> store_of dev t = pin_block bno 1 A)) \<and>
        ((srefs A bno = 1 \<longrightarrow> sview A bno = sdisk A (unat bno)) \<longrightarrow>
          (\<exists>t. brelse b s = Ret () t \<and> after_ok p dev s t \<and> store_of dev t = drop_block bno A) \<and>
          (\<exists>t. bunpin b s = Ret () t \<and> after_ok p dev s t \<and> store_of dev t = pin_block bno (- 1) A)))"
proof (intro conjI allI impI)
  fix bno assume can: "can_get bno A"
  obtain b t where t: "bread dev bno s = Ret b t" "after_ok p dev s t" "store_of dev t = get_block b bno A"
    using bread_law[OF inv] can unfolding A_def by blast
  have "locked_buf dev t bno = Some b" using arg_cong[OF t(3), of slocked] by simp
  then have "bdata (bcache t b) = view dev t bno" using locked_bufD(7)[of p dev t bno b] t(2) by (simp add: after_ok_def)
  moreover have "view dev t = sview A" using arg_cong[OF t(3), of sview] by simp
  ultimately show "\<exists>b t. bread dev bno s = Ret b t \<and> after_ok p dev s t \<and>
      store_of dev t = get_block b bno A \<and> bdata (bcache t b) = sview A bno" using t by metis
next
  fix bno b assume l: "slocked A bno = Some b"
  note l' = l[unfolded A_def]
  show "\<exists>t. bwrite b s = Ret () t \<and> after_ok p dev s t \<and> store_of dev t = flush_block bno A"
    unfolding A_def by (rule bwrite_law[OF inv l'])
  show "\<exists>t. update_buf b (\<lambda>q. q\<lparr>bdata := g (bdata q)\<rparr>) s = Ret () t \<and> after_ok p dev s t \<and>
      store_of dev t = set_block bno (g (sview A bno)) A" if "srefs A bno \<noteq> 0" for g
    using that unfolding A_def by (intro set_law[OF inv l'])
  show "\<exists>t. bpin b s = Ret () t \<and> after_ok p dev s t \<and> store_of dev t = pin_block bno 1 A" if "srefs A bno + 1 \<noteq> 0"
    using that unfolding A_def by (intro bpin_law[OF inv l']) simp
  assume c: "srefs A bno = 1 \<longrightarrow> sview A bno = sdisk A (unat bno)"
  show "\<exists>t. brelse b s = Ret () t \<and> after_ok p dev s t \<and> store_of dev t = drop_block bno A"
    using c unfolding A_def by (intro brelse_law[OF inv l']) simp
  show "\<exists>t. bunpin b s = Ret () t \<and> after_ok p dev s t \<and> store_of dev t = pin_block bno (- 1) A"
    using c unfolding A_def by (intro bunpin_law[OF inv l']) simp
qed

theorem buffer_cache_refines_witness:
  "\<exists>b t. bread 1 5 (log0 pinned5 0) = Ret b t \<and> bdata (bcache t b) = (\<lambda>_. 7) \<and>
     srefs (store_of 1 t) 5 = 2 \<and> (\<exists>u. bwrite 0 writing5 = Ret () u \<and> disk u 5 = (\<lambda>_. 7))"
proof -
  have "{x. refs 1 (log0 pinned5 0) x \<noteq> 0} = {5}" by (auto simp: caches_refs)
  then have "can_get 5 (store_of 1 (log0 pinned5 0))"
    using dom_locked[of 1 "log0 pinned5 0"] by (simp add: can_get_def caches_refs NBUF_def)
  then obtain b t where t: "bread 1 5 (log0 pinned5 0) = Ret b t" "bdata (bcache t b) = view 1 (log0 pinned5 0) 5"
      "store_of 1 t = get_block b 5 (store_of 1 (log0 pinned5 0))"
    using buffer_cache_refines[OF caches_inv(2)[of 0]] by auto
  have "slocked (store_of 1 writing5) 5 = Some 0" using writing5_inv by simp
  then obtain u where u: "bwrite 0 writing5 = Ret () u" "store_of 1 u = flush_block 5 (store_of 1 writing5)"
    using buffer_cache_refines[OF writing5_inv(1)] by blast
  have v: "view 1 (log0 pinned5 0) 5 = (\<lambda>_. 7)" "view 1 writing5 5 = (\<lambda>_. 7)" by (simp_all add: view_def caches_lookup)
  have "srefs (store_of 1 t) 5 = 2" unfolding t(3) by (simp add: caches_refs)
  moreover have "sdisk (store_of 1 u) 5 = (\<lambda>_. 7)" unfolding u(2) using v by simp
  ultimately show ?thesis using t(1,2) u(1) v by (intro exI[of _ b] exI[of _ t]) simp
qed

section \<open>Initialisation\<close>

lemma push_front_chains:
  assumes "chain (nexts c) HEAD zs HEAD" "chain (prevs c) HEAD (rev zs) HEAD" "distinct (HEAD # zs)" "b \<notin> set (HEAD # zs)"
  shows "chain (nexts (push_front b c)) HEAD (b # zs) HEAD" "chain (prevs (push_front b c)) HEAD (rev (b # zs)) HEAD"
proof -
  have ne: "b \<noteq> HEAD" using assms(4) by simp
  have l: "nexts (push_front b c) = (nexts c)(b := nexts c HEAD, HEAD := b)"
    "prevs (push_front b c) = (prevs c)(b := HEAD, nexts c HEAD := b)"
    using ne by (simp_all add: push_front_def Let_def)
  show "chain (nexts (push_front b c)) HEAD (b # zs) HEAD"
    unfolding l(1) by (rule chain_push[OF assms(1,3,4)])
  have "distinct (HEAD # rev zs)" "b \<notin> set (HEAD # rev zs)" using assms(3,4) by auto
  then show "chain (prevs (push_front b c)) HEAD (rev (b # zs)) HEAD"
    unfolding l(2) chain_first[OF assms(1)] using chain_enqueue[OF assms(2)] by simp
qed

definition binit_round :: "nat \<Rightarrow> 'z bio_scheme \<Rightarrow> 'z bio_scheme" where
  "binit_round b s = s\<lparr>locks := (locks s)(L_sleep (SL_buf b) := free_lock),
     slocks := (slocks s)(SL_buf b := sl_free), bcache := push_front b (bcache s)\<rparr>"

lemma binit_body:
  assumes "b \<noteq> HEAD"
  shows "bind (buf_of HEAD next) (\<lambda>hn.
       bind (update_buf b (\<lambda>q. q\<lparr>next := hn\<rparr>)) (\<lambda>_.
       bind (update_buf b (\<lambda>q. q\<lparr>prev := HEAD\<rparr>)) (\<lambda>_.
       bind (initsleeplock (SL_buf b)) (\<lambda>_.
       bind (buf_of HEAD next) (\<lambda>hn.
       bind (update_buf hn (\<lambda>q. q\<lparr>prev := b\<rparr>)) (\<lambda>_.
       update_buf HEAD (\<lambda>h. h\<lparr>next := b\<rparr>))))))) s = Ret () (binit_round b s)"
proof -
  have n: "buf_of i next t = Ret (nexts (bcache t) i) t" for i and t :: "'a bio_scheme"
    by (simp add: buf_of_def reads_def nexts_def)
  have u: "update_buf i (\<lambda>q. q\<lparr>prev := v\<rparr>) t = Ret () (t\<lparr>bcache := set_prev i v (bcache t)\<rparr>)"
    "update_buf i (\<lambda>q. q\<lparr>next := v\<rparr>) t = Ret () (t\<lparr>bcache := set_next i v (bcache t)\<rparr>)"
    for i v and t :: "'a bio_scheme" by (simp_all add: update_buf_def modify_def set_prev_def set_next_def)
  show ?thesis using assms
    by (simp add: bind_def n u initsleeplock_def initlock_def set_slock_def modify_def binit_round_def
        push_front_def Let_def free_lock_def sl_free_def)
qed

text \<open>What \<open>binit\<close> has set up after the first \<open>n\<close> buffers.\<close>

definition binit_done :: "nat \<Rightarrow> 'z bio_scheme \<Rightarrow> 'z bio_scheme \<Rightarrow> bool" where
  "binit_done n s t \<longleftrightarrow> chain (nexts (bcache t)) HEAD (rev [0..<n]) HEAD \<and> chain (prevs (bcache t)) HEAD [0..<n] HEAD \<and>
     (\<forall>b. valid (bcache t b) = valid (bcache s b) \<and> bdev (bcache t b) = bdev (bcache s b) \<and>
        blockno (bcache t b) = blockno (bcache s b) \<and> refcnt (bcache t b) = refcnt (bcache s b)) \<and>
     (\<forall>b < n. slocks t (SL_buf b) = sl_free \<and> locks t (L_sleep (SL_buf b)) = free_lock) \<and>
     locks t L_bcache = free_lock \<and> disk t = disk s \<and> bio.more t = bio.more s"




end
