(* ===== verification/Fs.thy ===== *)
theory Fs
  imports Log
begin

unbundle bit_operations_syntax

text \<open>
  \<open>kernel/fs.c\<close>: block allocation, inodes, file contents, directories and paths.
\<close>

section \<open>State\<close>

definition ROOTDEV :: uint where "ROOTDEV = 1"
definition ROOTINO :: uint where "ROOTINO = 1"
definition NINODE :: nat where "NINODE = 50"
definition FSMAGIC :: uint where "FSMAGIC = 0x10203040"
definition NDIRECT :: nat where "NDIRECT = 12"
definition NINDIRECT :: nat where "NINDIRECT = 256"
definition MAXFILE :: nat where "MAXFILE = NDIRECT + NINDIRECT"
definition IPB :: uint where "IPB = 16"
definition BPB :: uint where "BPB = 8192"
definition DIRSIZ :: nat where "DIRSIZ = 14"
definition T_DIR :: ushort where "T_DIR = 1"
definition T_FILE :: ushort where "T_FILE = 2"
definition T_DEVICE :: ushort where "T_DEVICE = 3"

text \<open>\<open>struct inode\<close>, the in-memory copy of an inode; a \<open>short\<close> field is a 16-bit word.\<close>

record inode =
  idev :: uint
  inum :: uint
  iref :: int
  ivalid :: bool
  itype :: ushort
  imajor :: ushort
  iminor :: ushort
  nlink :: ushort
  isize :: uint
  iaddrs :: "nat \<Rightarrow> uint"

record fs = log +
  sb :: superblock
  icache :: "nat \<Rightarrow> inode"

definition inode_of :: "nat \<Rightarrow> (inode \<Rightarrow> 'a) \<Rightarrow> ('z fs_scheme, 'a) op" where
  "inode_of ip f = reads (\<lambda>s. f (icache s ip))"

definition update_inode :: "nat \<Rightarrow> (inode \<Rightarrow> inode) \<Rightarrow> ('z fs_scheme, unit) op" where
  "update_inode ip f = modify (\<lambda>s. s\<lparr>icache := (icache s)(ip := f (icache s ip))\<rparr>)"

definition IBLOCK :: "uint \<Rightarrow> superblock \<Rightarrow> uint" where
  "IBLOCK i b = i div IPB + sb_inodestart b"

definition BBLOCK :: "uint \<Rightarrow> superblock \<Rightarrow> uint" where
  "BBLOCK i b = i div BPB + sb_bmapstart b"

section \<open>Super block\<close>

definition get_superblock :: "cstr \<Rightarrow> superblock" where
  "get_superblock d = \<lparr>sb_magic = ld32 d 0, sb_size = ld32 d 4, sb_nblocks = ld32 d 8,
     sb_ninodes = ld32 d 12, sb_nlog = ld32 d 16, sb_logstart = ld32 d 20,
     sb_inodestart = ld32 d 24, sb_bmapstart = ld32 d 28\<rparr>"

definition readsb :: "uint \<Rightarrow> ('z fs_scheme, unit) op" where
  "readsb dev =
     bind (bread dev 1) (\<lambda>bp.
     bind (buf_of bp bdata) (\<lambda>d.
     bind (modify (\<lambda>s. s\<lparr>sb := get_superblock d\<rparr>)) (\<lambda>_.
     brelse bp)))"

definition fsinit :: "uint \<Rightarrow> ('z fs_scheme, unit) op" where
  "fsinit dev =
     bind (readsb dev) (\<lambda>_.
     bind (reads sb) (\<lambda>b.
     if sb_magic b \<noteq> FSMAGIC then panic ''invalid file system'' else
     initlog dev b))"

section \<open>Blocks\<close>

definition bzero :: "uint \<Rightarrow> uint \<Rightarrow> ('z log_scheme, unit) op" where
  "bzero dev bno =
     bind (bread dev bno) (\<lambda>bp.
     bind (update_buf bp (\<lambda>q. q\<lparr>bdata := kcopy (bdata q) 0 (\<lambda>_. 0) (unat BSIZE)\<rparr>)) (\<lambda>_.
     bind (log_write bp) (\<lambda>_.
     brelse bp)))"

text \<open>The bit of block \<open>bi\<close> in a bitmap block.\<close>

definition bit_mask :: "nat \<Rightarrow> uchar" where
  "bit_mask bi = push_bit (bi mod 8) 1"

text \<open>
  The inner loop of \<open>balloc\<close> over one bitmap block, and the outer loop; they return the
  block allocated. The outer loop makes \<open>sb.size / BPB\<close> rounds, rounded up.
\<close>

fun balloc_bits :: "uint \<Rightarrow> nat \<Rightarrow> nat \<Rightarrow> nat \<Rightarrow> nat \<Rightarrow> ('z log_scheme, nat option) op" where
  "balloc_bits dev bp b bi 0 = ret None"
| "balloc_bits dev bp b bi (Suc k) =
     bind (buf_of bp (\<lambda>q. bdata q (bi div 8) AND bit_mask bi = 0)) (\<lambda>free.
     if free then
       bind (update_buf bp (\<lambda>q. q\<lparr>bdata := (bdata q)(bi div 8 := bdata q (bi div 8) OR bit_mask bi)\<rparr>)) (\<lambda>_.
       bind (log_write bp) (\<lambda>_.
       bind (brelse bp) (\<lambda>_.
       bind (bzero dev (of_nat (b + bi))) (\<lambda>_.
       ret (Some (b + bi))))))
     else balloc_bits dev bp b (Suc bi) k)"

definition balloc_group :: "uint \<Rightarrow> nat \<Rightarrow> ('z fs_scheme, nat option) op" where
  "balloc_group dev g =
     (let b = g * unat BPB in
      bind (reads sb) (\<lambda>sb.
      bind (bread dev (BBLOCK (of_nat b) sb)) (\<lambda>bp.
      bind (balloc_bits dev bp b 0 (min (unat BPB) (unat (sb_size sb) - b))) (\<lambda>r.
      case r of
        Some a \<Rightarrow> ret (Some a)
      | None \<Rightarrow> bind (brelse bp) (\<lambda>_. ret None)))))"

definition balloc :: "uint \<Rightarrow> ('z fs_scheme, uint) op" where
  "balloc dev =
     bind (reads sb) (\<lambda>sb.
     bind (for_first [0..<(unat (sb_size sb) + unat BPB - 1) div unat BPB] (balloc_group dev)) (\<lambda>r.
     case r of Some a \<Rightarrow> ret (of_nat a) | None \<Rightarrow> panic ''balloc: out of blocks''))"

definition bfree :: "uint \<Rightarrow> uint \<Rightarrow> ('z fs_scheme, unit) op" where
  "bfree dev b =
     bind (reads sb) (\<lambda>sb.
     bind (bread dev (BBLOCK b sb)) (\<lambda>bp.
     let bi = unat (b mod BPB); m = bit_mask bi in
     bind (buf_of bp (\<lambda>q. bdata q (bi div 8) AND m = 0)) (\<lambda>free.
     if free then panic ''freeing free block'' else
     bind (update_buf bp (\<lambda>q. q\<lparr>bdata := (bdata q)(bi div 8 := bdata q (bi div 8) AND NOT m)\<rparr>)) (\<lambda>_.
     bind (log_write bp) (\<lambda>_.
     brelse bp)))))"

section \<open>Inodes\<close>

text \<open>
  \<open>struct dinode\<close> at its offset in a block: four 16-bit fields, the size and the block
  addresses, 64 bytes.
\<close>

definition dinode_off :: "uint \<Rightarrow> nat" where
  "dinode_off n = 64 * unat (n mod IPB)"

fun put_addrs :: "(nat \<Rightarrow> uint) \<Rightarrow> nat \<Rightarrow> nat \<Rightarrow> cstr \<Rightarrow> cstr" where
  "put_addrs a ofs 0 d = d"
| "put_addrs a ofs (Suc i) d = st32 (put_addrs a ofs i d) (ofs + 12 + 4 * i) (a i)"

definition put_dinode :: "inode \<Rightarrow> nat \<Rightarrow> cstr \<Rightarrow> cstr" where
  "put_dinode ip ofs d =
     put_addrs (iaddrs ip) ofs (NDIRECT + 1)
       (st32 (st16 (st16 (st16 (st16 d ofs (itype ip)) (ofs + 2) (imajor ip)) (ofs + 4) (iminor ip))
          (ofs + 6) (nlink ip)) (ofs + 8) (isize ip))"

definition get_dinode :: "cstr \<Rightarrow> nat \<Rightarrow> inode \<Rightarrow> inode" where
  "get_dinode d ofs ip = ip\<lparr>itype := ld16 d ofs, imajor := ld16 d (ofs + 2), iminor := ld16 d (ofs + 4),
     nlink := ld16 d (ofs + 6), isize := ld32 d (ofs + 8),
     iaddrs := (\<lambda>i. if i \<le> NDIRECT then ld32 d (ofs + 12 + 4 * i) else iaddrs ip i)\<rparr>"

definition iinit :: "('z fs_scheme, unit) op" where
  "iinit =
     bind (initlock L_icache) (\<lambda>_.
     for_each [0..<NINODE] (\<lambda>i. initsleeplock (SL_inode i)))"

text \<open>
  The loop of \<open>iget\<close>: the entry of the inode, and the first empty slot seen so far.
\<close>

fun iget_scan :: "(nat \<Rightarrow> inode) \<Rightarrow> uint \<Rightarrow> uint \<Rightarrow> nat list \<Rightarrow> nat option \<Rightarrow> nat option \<times> nat option" where
  "iget_scan ic dev n [] spare = (None, spare)"
| "iget_scan ic dev n (i # is) spare =
     (if iref (ic i) > 0 \<and> idev (ic i) = dev \<and> inum (ic i) = n then (Some i, spare)
      else iget_scan ic dev n is (if spare = None \<and> iref (ic i) = 0 then Some i else spare))"

definition iget :: "uint \<Rightarrow> uint \<Rightarrow> ('z fs_scheme, nat) op" where
  "iget dev n =
     bind (acquire L_icache) (\<lambda>_.
     bind (reads (\<lambda>s. iget_scan (icache s) dev n [0..<NINODE] None)) (\<lambda>(hit, spare).
     case hit of
       Some ip \<Rightarrow>
         bind (update_inode ip (\<lambda>q. q\<lparr>iref := iref q + 1\<rparr>)) (\<lambda>_.
         bind (release L_icache) (\<lambda>_.
         ret ip))
     | None \<Rightarrow>
         (case spare of
            None \<Rightarrow> panic ''iget: no inodes''
          | Some ip \<Rightarrow>
              bind (update_inode ip (\<lambda>q. q\<lparr>idev := dev, inum := n, iref := 1, ivalid := False\<rparr>)) (\<lambda>_.
              bind (release L_icache) (\<lambda>_.
              ret ip)))))"

definition ialloc_try :: "uint \<Rightarrow> ushort \<Rightarrow> nat \<Rightarrow> ('z fs_scheme, nat option) op" where
  "ialloc_try dev type n =
     (let i = of_nat n; ofs = dinode_off i in
      bind (reads sb) (\<lambda>sb.
      bind (bread dev (IBLOCK i sb)) (\<lambda>bp.
      bind (buf_of bp (\<lambda>q. ld16 (bdata q) ofs = 0)) (\<lambda>free.
      if free then
        bind (update_buf bp (\<lambda>q. q\<lparr>bdata := st16 (kcopy (bdata q) ofs (\<lambda>_. 0) 64) ofs type\<rparr>)) (\<lambda>_.
        bind (log_write bp) (\<lambda>_.
        bind (brelse bp) (\<lambda>_.
        bind (iget dev i) (\<lambda>ip.
        ret (Some ip)))))
      else bind (brelse bp) (\<lambda>_. ret None)))))"

definition ialloc :: "uint \<Rightarrow> ushort \<Rightarrow> ('z fs_scheme, nat) op" where
  "ialloc dev type =
     bind (reads sb) (\<lambda>sb.
     bind (for_first [1..<unat (sb_ninodes sb)] (ialloc_try dev type)) (\<lambda>r.
     case r of Some ip \<Rightarrow> ret ip | None \<Rightarrow> panic ''ialloc: no inodes''))"

definition iupdate :: "nat \<Rightarrow> ('z fs_scheme, unit) op" where
  "iupdate ip =
     bind (reads sb) (\<lambda>sb.
     bind (inode_of ip idev) (\<lambda>dev.
     bind (inode_of ip inum) (\<lambda>n.
     bind (bread dev (IBLOCK n sb)) (\<lambda>bp.
     bind (inode_of ip id) (\<lambda>q.
     bind (update_buf bp (\<lambda>b. b\<lparr>bdata := put_dinode q (dinode_off n) (bdata b)\<rparr>)) (\<lambda>_.
     bind (log_write bp) (\<lambda>_.
     brelse bp)))))))"

definition idup :: "nat \<Rightarrow> ('z fs_scheme, nat) op" where
  "idup ip =
     bind (acquire L_icache) (\<lambda>_.
     bind (update_inode ip (\<lambda>q. q\<lparr>iref := iref q + 1\<rparr>)) (\<lambda>_.
     bind (release L_icache) (\<lambda>_.
     ret ip)))"

text \<open>The functions that test for a null \<open>struct inode *\<close> take an option.\<close>

definition ilock :: "nat option \<Rightarrow> ('z fs_scheme, unit) op" where
  "ilock p =
     (case p of None \<Rightarrow> panic ''ilock'' | Some ip \<Rightarrow>
      bind (inode_of ip iref) (\<lambda>r.
      if r < 1 then panic ''ilock'' else
      bind (acquiresleep (SL_inode ip)) (\<lambda>_.
      bind (inode_of ip ivalid) (\<lambda>v.
      if v then ret () else
      bind (reads sb) (\<lambda>sb.
      bind (inode_of ip idev) (\<lambda>dev.
      bind (inode_of ip inum) (\<lambda>n.
      bind (bread dev (IBLOCK n sb)) (\<lambda>bp.
      bind (buf_of bp bdata) (\<lambda>d.
      bind (update_inode ip (get_dinode d (dinode_off n))) (\<lambda>_.
      bind (brelse bp) (\<lambda>_.
      bind (update_inode ip (\<lambda>q. q\<lparr>ivalid := True\<rparr>)) (\<lambda>_.
      bind (inode_of ip itype) (\<lambda>t.
      if t = 0 then panic ''ilock: no type'' else ret ())))))))))))))"

definition iunlock :: "nat option \<Rightarrow> ('z fs_scheme, unit) op" where
  "iunlock p =
     (case p of None \<Rightarrow> panic ''iunlock'' | Some ip \<Rightarrow>
      bind (holdingsleep (SL_inode ip)) (\<lambda>h.
      bind (inode_of ip iref) (\<lambda>r.
      if \<not> h \<or> r < 1 then panic ''iunlock'' else
      releasesleep (SL_inode ip))))"

text \<open>One round of each of the two loops of \<open>itrunc\<close>.\<close>

definition itrunc_direct :: "nat \<Rightarrow> nat \<Rightarrow> ('z fs_scheme, unit) op" where
  "itrunc_direct ip i =
     bind (inode_of ip (\<lambda>q. iaddrs q i)) (\<lambda>a.
     if a \<noteq> 0 then
       bind (inode_of ip idev) (\<lambda>dev.
       bind (bfree dev a) (\<lambda>_.
       update_inode ip (\<lambda>q. q\<lparr>iaddrs := (iaddrs q)(i := 0)\<rparr>)))
     else ret ())"

definition itrunc_indirect :: "nat \<Rightarrow> nat \<Rightarrow> nat \<Rightarrow> ('z fs_scheme, unit) op" where
  "itrunc_indirect ip bp j =
     bind (buf_of bp (\<lambda>q. ld32 (bdata q) (4 * j))) (\<lambda>a.
     if a \<noteq> 0 then bind (inode_of ip idev) (\<lambda>dev. bfree dev a) else ret ())"

definition itrunc :: "nat \<Rightarrow> ('z fs_scheme, unit) op" where
  "itrunc ip =
     bind (for_each [0..<NDIRECT] (itrunc_direct ip)) (\<lambda>_.
     bind (inode_of ip (\<lambda>q. iaddrs q NDIRECT)) (\<lambda>ind.
     bind (if ind \<noteq> 0 then
             bind (inode_of ip idev) (\<lambda>dev.
             bind (bread dev ind) (\<lambda>bp.
             bind (for_each [0..<NINDIRECT] (itrunc_indirect ip bp)) (\<lambda>_.
             bind (brelse bp) (\<lambda>_.
             bind (bfree dev ind) (\<lambda>_.
             update_inode ip (\<lambda>q. q\<lparr>iaddrs := (iaddrs q)(NDIRECT := 0)\<rparr>))))))
           else ret ()) (\<lambda>_.
     bind (update_inode ip (\<lambda>q. q\<lparr>isize := 0\<rparr>)) (\<lambda>_.
     iupdate ip))))"

definition iput :: "nat \<Rightarrow> ('z fs_scheme, unit) op" where
  "iput ip =
     bind (acquire L_icache) (\<lambda>_.
     bind (inode_of ip (\<lambda>q. iref q = 1 \<and> ivalid q \<and> nlink q = 0)) (\<lambda>last.
     bind (if last then
             bind (acquiresleep (SL_inode ip)) (\<lambda>_.
             bind (release L_icache) (\<lambda>_.
             bind (itrunc ip) (\<lambda>_.
             bind (update_inode ip (\<lambda>q. q\<lparr>itype := 0\<rparr>)) (\<lambda>_.
             bind (iupdate ip) (\<lambda>_.
             bind (update_inode ip (\<lambda>q. q\<lparr>ivalid := False\<rparr>)) (\<lambda>_.
             bind (releasesleep (SL_inode ip)) (\<lambda>_.
             acquire L_icache)))))))
           else ret ()) (\<lambda>_.
     bind (update_inode ip (\<lambda>q. q\<lparr>iref := iref q - 1\<rparr>)) (\<lambda>_.
     release L_icache))))"

definition iunlockput :: "nat \<Rightarrow> ('z fs_scheme, unit) op" where
  "iunlockput ip =
     bind (iunlock (Some ip)) (\<lambda>_.
     iput ip)"

section \<open>Inode content\<close>

definition bmap :: "nat \<Rightarrow> uint \<Rightarrow> ('z fs_scheme, uint) op" where
  "bmap ip bn =
     bind (inode_of ip idev) (\<lambda>dev.
     if unat bn < NDIRECT then
       bind (inode_of ip (\<lambda>q. iaddrs q (unat bn))) (\<lambda>addr.
       if addr = 0 then
         bind (balloc dev) (\<lambda>addr.
         bind (update_inode ip (\<lambda>q. q\<lparr>iaddrs := (iaddrs q)(unat bn := addr)\<rparr>)) (\<lambda>_.
         ret addr))
       else ret addr)
     else
       let bn' = unat bn - NDIRECT in
       if bn' < NINDIRECT then
         bind (inode_of ip (\<lambda>q. iaddrs q NDIRECT)) (\<lambda>ind.
         bind (if ind = 0 then
                 bind (balloc dev) (\<lambda>addr.
                 bind (update_inode ip (\<lambda>q. q\<lparr>iaddrs := (iaddrs q)(NDIRECT := addr)\<rparr>)) (\<lambda>_.
                 ret addr))
               else ret ind) (\<lambda>ind.
         bind (bread dev ind) (\<lambda>bp.
         bind (buf_of bp (\<lambda>q. ld32 (bdata q) (4 * bn'))) (\<lambda>addr.
         bind (if addr = 0 then
                 bind (balloc dev) (\<lambda>addr.
                 bind (update_buf bp (\<lambda>q. q\<lparr>bdata := st32 (bdata q) (4 * bn') addr\<rparr>)) (\<lambda>_.
                 bind (log_write bp) (\<lambda>_.
                 ret addr)))
               else ret addr) (\<lambda>addr.
         bind (brelse bp) (\<lambda>_.
         ret addr))))))
       else panic ''bmap: out of range'')"

record kstat =
  st_dev :: "32 word"
  st_ino :: uint
  st_type :: ushort
  st_nlink :: ushort
  st_size :: uint64

definition stati :: "nat \<Rightarrow> ('z fs_scheme, kstat) op" where
  "stati ip = inode_of ip (\<lambda>q. \<lparr>st_dev = idev q, st_ino = inum q, st_type = itype q,
     st_nlink = nlink q, st_size = ucast (isize q)\<rparr>)"

text \<open>The bytes of the rest of the block at \<open>off\<close> that a transfer of \<open>left\<close> bytes uses.\<close>

definition min_chunk :: "uint \<Rightarrow> uint \<Rightarrow> uint" where
  "min_chunk left off = (if left < BSIZE - off mod BSIZE then left else BSIZE - off mod BSIZE)"

lemma min_chunk_pos: "left \<noteq> 0 \<Longrightarrow> 0 < unat (min_chunk left off) \<and> unat (min_chunk left off) \<le> unat left"
proof -
  assume left: "left \<noteq> 0"
  have "unat (off mod BSIZE) < 1024" by (simp add: unat_mod BSIZE_def)
  then have "BSIZE - off mod BSIZE \<noteq> 0" by (auto simp: BSIZE_def)
  then show ?thesis using left
    by (auto simp: min_chunk_def unat_gt_0 word_less_nat_alt)
qed

text \<open>
  The loop of \<open>readi\<close> from \<open>tot\<close> on. For a kernel destination, \<open>kbuf\<close> is the array the
  bytes go to.
\<close>

function readi_loop :: "nat \<Rightarrow> bool \<Rightarrow> uint64 \<Rightarrow> cstr \<Rightarrow> uint \<Rightarrow> uint \<Rightarrow> uint \<Rightarrow> ('z fs_scheme, uint \<times> cstr) op" where
  "readi_loop ip user_dst dst kbuf off n tot =
     (if \<not> tot < n then ret (tot, kbuf) else
      bind (inode_of ip idev) (\<lambda>dev.
      bind (bmap ip (off div BSIZE)) (\<lambda>bno.
      bind (bread dev bno) (\<lambda>bp.
      let m = min_chunk (n - tot) off in
      bind (buf_of bp bdata) (\<lambda>d.
      bind (either_copyout user_dst dst kbuf (unat tot) (\<lambda>i. d (unat (off mod BSIZE) + i)) (unat m)) (\<lambda>(r, kbuf').
      bind (brelse bp) (\<lambda>_.
      if r = -1 then ret (tot, kbuf')
      else readi_loop ip user_dst (dst + ucast m) kbuf' (off + m) n (tot + m))))))))"
  by pat_completeness auto

lemma chunk_progress:
  assumes "tot < (n :: uint)"
  shows "unat (n - (tot + min_chunk (n - tot) off)) < unat (n - tot)"
proof -
  let ?m = "min_chunk (n - tot) off"
  have "n - tot \<noteq> 0" using assms by auto
  from min_chunk_pos[OF this, of off] have m: "0 < unat ?m" "unat ?m \<le> unat (n - tot)" by simp_all
  have eq: "n - (tot + ?m) = (n - tot) - ?m" by simp
  have "unat ((n - tot) - ?m) = unat (n - tot) - unat ?m" using m(2) by (simp add: unat_sub word_le_nat_alt)
  then show ?thesis using m unfolding eq by linarith
qed

termination readi_loop
  by (relation "measure (\<lambda>(_, _, _, _, _, n, tot). unat (n - tot))") (simp_all add: chunk_progress)

definition readi :: "nat \<Rightarrow> bool \<Rightarrow> uint64 \<Rightarrow> cstr \<Rightarrow> uint \<Rightarrow> uint \<Rightarrow> ('z fs_scheme, uint \<times> cstr) op" where
  "readi ip user_dst dst kbuf off n =
     bind (inode_of ip isize) (\<lambda>sz.
     if off > sz \<or> off + n < off then ret (0, kbuf)
     else readi_loop ip user_dst dst kbuf off (if off + n > sz then sz - off else n) 0)"

text \<open>
  The loop of \<open>writei\<close> returns the final \<open>off\<close>; a kernel source is the array \<open>ksrc\<close>. The
  copy writes into the buffer also when it fails half way.
\<close>

function writei_loop :: "nat \<Rightarrow> bool \<Rightarrow> uint64 \<Rightarrow> cstr \<Rightarrow> uint \<Rightarrow> uint \<Rightarrow> uint \<Rightarrow> ('z fs_scheme, uint) op" where
  "writei_loop ip user_src src ksrc off n tot =
     (if \<not> tot < n then ret off else
      bind (inode_of ip idev) (\<lambda>dev.
      bind (bmap ip (off div BSIZE)) (\<lambda>bno.
      bind (bread dev bno) (\<lambda>bp.
      let m = min_chunk (n - tot) off; ofs = unat (off mod BSIZE) in
      bind (buf_of bp bdata) (\<lambda>d.
      bind (either_copyin (\<lambda>i. d (ofs + i)) user_src src (\<lambda>i. ksrc (unat tot + i)) (unat m)) (\<lambda>(r, d').
      bind (update_buf bp (\<lambda>q. q\<lparr>bdata := kcopy d ofs d' (unat m)\<rparr>)) (\<lambda>_.
      if r = -1 then bind (brelse bp) (\<lambda>_. ret off)
      else
        bind (log_write bp) (\<lambda>_.
        bind (brelse bp) (\<lambda>_.
        writei_loop ip user_src (src + ucast m) ksrc (off + m) n (tot + m)))))))))) "
  by pat_completeness auto

termination writei_loop
  by (relation "measure (\<lambda>(_, _, _, _, _, n, tot). unat (n - tot))") (simp_all add: chunk_progress)

declare readi_loop.simps [simp del] writei_loop.simps [simp del]

definition writei :: "nat \<Rightarrow> bool \<Rightarrow> uint64 \<Rightarrow> cstr \<Rightarrow> uint \<Rightarrow> uint \<Rightarrow> ('z fs_scheme, int) op" where
  "writei ip user_src src ksrc off n =
     bind (inode_of ip isize) (\<lambda>sz.
     if off > sz \<or> off + n < off then ret (-1)
     else if unat (off + n) > MAXFILE * unat BSIZE then ret (-1)
     else
       bind (writei_loop ip user_src src ksrc off n 0) (\<lambda>off'.
       bind (if n > 0 then
               bind (inode_of ip isize) (\<lambda>sz.
               bind (if off' > sz then update_inode ip (\<lambda>q. q\<lparr>isize := off'\<rparr>) else ret ()) (\<lambda>_.
               iupdate ip))
             else ret ()) (\<lambda>_.
       ret (sint n))))"

section \<open>Directories\<close>

definition namecmp :: "cstr \<Rightarrow> cstr \<Rightarrow> int" where
  "namecmp s t = strncmp s t DIRSIZ"

text \<open>\<open>struct dirent\<close>: a 16-bit inode number and 14 bytes of name.\<close>

definition DIRENT :: uint where "DIRENT = 16"

definition de_inum :: "cstr \<Rightarrow> ushort" where
  "de_inum de = ld16 de 0"

definition de_name :: "cstr \<Rightarrow> cstr" where
  "de_name de = (\<lambda>i. de (2 + i))"

text \<open>The loop of \<open>dirlookup\<close>, for the \<open>k\<close> entries from \<open>off\<close> on.\<close>

fun dirlookup_from :: "nat \<Rightarrow> cstr \<Rightarrow> uint \<Rightarrow> nat \<Rightarrow> ('z fs_scheme, (nat \<times> uint) option) op" where
  "dirlookup_from dp name off 0 = ret None"
| "dirlookup_from dp name off (Suc k) =
     bind (readi dp False 0 (\<lambda>_. 0) off DIRENT) (\<lambda>(r, de).
     if r \<noteq> DIRENT then panic ''dirlookup read''
     else if de_inum de = 0 then dirlookup_from dp name (off + DIRENT) k
     else if namecmp name (de_name de) = 0 then
       bind (inode_of dp idev) (\<lambda>dev.
       bind (iget dev (ucast (de_inum de))) (\<lambda>ip.
       ret (Some (ip, off))))
     else dirlookup_from dp name (off + DIRENT) k)"

text \<open>The number of entries that a loop \<open>for (off = 0; off < size; off += sizeof(de))\<close> visits.\<close>

definition dir_entries :: "uint \<Rightarrow> nat" where
  "dir_entries sz = (unat sz + 15) div 16"

definition dirlookup :: "nat \<Rightarrow> cstr \<Rightarrow> ('z fs_scheme, (nat \<times> uint) option) op" where
  "dirlookup dp name =
     bind (inode_of dp itype) (\<lambda>t.
     if t \<noteq> T_DIR then panic ''dirlookup not DIR'' else
     bind (inode_of dp isize) (\<lambda>sz.
     dirlookup_from dp name 0 (dir_entries sz)))"

fun dirlink_slot :: "nat \<Rightarrow> uint \<Rightarrow> nat \<Rightarrow> ('z fs_scheme, uint) op" where
  "dirlink_slot dp off 0 = ret off"
| "dirlink_slot dp off (Suc k) =
     bind (readi dp False 0 (\<lambda>_. 0) off DIRENT) (\<lambda>(r, de).
     if r \<noteq> DIRENT then panic ''dirlink read''
     else if de_inum de = 0 then ret off
     else dirlink_slot dp (off + DIRENT) k)"

text \<open>The entry that \<open>dirlink\<close> writes; \<open>strncpy\<close> sets all of its name.\<close>

definition make_dirent :: "ushort \<Rightarrow> cstr \<Rightarrow> cstr" where
  "make_dirent n name =
     st16 (kcopy (\<lambda>_. 0) 2 (strncpy (\<lambda>_. 0) name DIRSIZ) DIRSIZ) 0 n"

definition dirlink :: "nat \<Rightarrow> cstr \<Rightarrow> uint \<Rightarrow> ('z fs_scheme, int) op" where
  "dirlink dp name n =
     bind (dirlookup dp name) (\<lambda>found.
     case found of
       Some (ip, _) \<Rightarrow> bind (iput ip) (\<lambda>_. ret (-1))
     | None \<Rightarrow>
         bind (inode_of dp isize) (\<lambda>sz.
         bind (dirlink_slot dp 0 (dir_entries sz)) (\<lambda>off.
         bind (writei dp False 0 (make_dirent (ucast n) name) off DIRENT) (\<lambda>r.
         if r \<noteq> 16 then panic ''dirlink'' else ret 0))))"

section \<open>Paths\<close>

text \<open>
  A path is the list of the characters before its null byte. \<open>skipelem\<close> returns the rest
  of the path and the new contents of the array \<open>name\<close>.
\<close>

definition slash :: uchar where "slash = of_char (CHR ''/'')"

definition list_cstr :: "uchar list \<Rightarrow> cstr" where
  "list_cstr cs = (\<lambda>i. if i < length cs then cs ! i else 0)"

definition skipelem :: "uchar list \<Rightarrow> cstr \<Rightarrow> (uchar list \<times> cstr) option" where
  "skipelem path name =
     (let p = dropWhile (\<lambda>c. c = slash) path in
      if p = [] then None
      else
        let elem = takeWhile (\<lambda>c. c \<noteq> slash) p;
            rest = dropWhile (\<lambda>c. c \<noteq> slash) p;
            len = length elem;
            name' = (if len \<ge> DIRSIZ then kcopy name 0 (list_cstr elem) DIRSIZ
                     else (kcopy name 0 (list_cstr elem) len)(len := 0))
        in Some (dropWhile (\<lambda>c. c = slash) rest, name'))"

lemma length_dropWhile_le: "length (dropWhile P xs) \<le> length xs"
  by (induction xs) auto

lemma skipelem_shorter: "skipelem path name = Some (path', name') \<Longrightarrow> length path' < length path"
proof -
  assume sk: "skipelem path name = Some (path', name')"
  define p where "p = dropWhile (\<lambda>c. c = slash) path"
  from sk have ne: "p \<noteq> []" and path': "path' = dropWhile (\<lambda>c. c = slash) (dropWhile (\<lambda>c. c \<noteq> slash) p)"
    by (auto simp: skipelem_def Let_def p_def split: if_splits)
  have "hd p \<noteq> slash" using ne hd_dropWhile[of "\<lambda>c. c = slash" path] by (simp add: p_def)
  then obtain c cs where "p = c # cs" "c \<noteq> slash" using ne by (cases p) auto
  then have "length (dropWhile (\<lambda>c. c \<noteq> slash) p) < length p"
    using length_dropWhile_le[of "\<lambda>c. c \<noteq> slash" cs] by (simp add: less_Suc_eq_le)
  moreover have "length path' \<le> length (dropWhile (\<lambda>c. c \<noteq> slash) p)"
    unfolding path' by (rule length_dropWhile_le)
  moreover have "length p \<le> length path" unfolding p_def by (rule length_dropWhile_le)
  ultimately show ?thesis by simp
qed

text \<open>The loop of \<open>namex\<close>; the result carries the array \<open>name\<close>.\<close>

function namex_loop :: "uchar list \<Rightarrow> bool \<Rightarrow> cstr \<Rightarrow> nat \<Rightarrow> ('z fs_scheme, nat option \<times> cstr) op" where
  "namex_loop path nameiparent name ip =
     (case skipelem path name of
        None \<Rightarrow>
          if nameiparent then bind (iput ip) (\<lambda>_. ret (None, name))
          else ret (Some ip, name)
      | Some (path', name') \<Rightarrow>
          bind (ilock (Some ip)) (\<lambda>_.
          bind (inode_of ip itype) (\<lambda>t.
          if t \<noteq> T_DIR then bind (iunlockput ip) (\<lambda>_. ret (None, name'))
          else if nameiparent \<and> path' = [] then
            bind (iunlock (Some ip)) (\<lambda>_. ret (Some ip, name'))
          else
            bind (dirlookup ip name') (\<lambda>found.
            case found of
              None \<Rightarrow> bind (iunlockput ip) (\<lambda>_. ret (None, name'))
            | Some (nxt, _) \<Rightarrow>
                bind (iunlockput ip) (\<lambda>_.
                namex_loop path' nameiparent name' nxt)))))"
  by pat_completeness auto

termination namex_loop
  by (relation "measure (\<lambda>(path, _, _, _). length path)") (auto dest: skipelem_shorter)

declare namex_loop.simps [simp del]

definition namex :: "uchar list \<Rightarrow> bool \<Rightarrow> cstr \<Rightarrow> ('z fs_scheme, nat option \<times> cstr) op" where
  "namex path nameiparent name =
     bind (if path \<noteq> [] \<and> hd path = slash then iget ROOTDEV ROOTINO
           else bind curp (\<lambda>p. bind (proc_of p cwd) (\<lambda>d. bind (deref d) idup))) (\<lambda>ip.
     namex_loop path nameiparent name ip)"

definition namei :: "uchar list \<Rightarrow> ('z fs_scheme, nat option) op" where
  "namei path = bind (namex path False (\<lambda>_. 0)) (\<lambda>(ip, _). ret ip)"

definition nameiparent :: "uchar list \<Rightarrow> cstr \<Rightarrow> ('z fs_scheme, nat option \<times> cstr) op" where
  "nameiparent path name = namex path True name"

end
