(* ===== verification/File.thy ===== *)
theory File
  imports Fs
begin

unbundle bit_operations_syntax

text \<open>
  \<open>kernel/file.c\<close> and \<open>kernel/pipe.c\<close>: the table of open files, and pipes.
\<close>

section \<open>State\<close>

definition NFILE :: nat where "NFILE = 100"
definition NDEV :: int where "NDEV = 10"
definition CONSOLE :: nat where "CONSOLE = 1"
definition PIPESIZE :: uint where "PIPESIZE = 512"

datatype filetype = FD_NONE | FD_PIPE | FD_INODE | FD_DEVICE

record kfile =
  ftype :: filetype
  fref :: int
  readable :: bool
  writable :: bool
  fpipe :: addr
  fip :: "nat option"
  foff :: uint
  fmajor :: ushort

record pipe =
  pdata :: "nat \<Rightarrow> uchar"
  nread :: uint
  nwrite :: uint
  readopen :: bool
  writeopen :: bool

text \<open>
  \<open>devsw\<close> holds function pointers; the only device that registers is the console. A pipe
  lives in a page from \<open>kalloc\<close> and is named by the address of the page. \<open>junk\<close> stands
  for the bytes that an uninitialised local variable happens to have.
\<close>

datatype devfn = Fn_consoleread | Fn_consolewrite

record files = fs +
  ftable :: "nat \<Rightarrow> kfile"
  pipes :: "addr \<Rightarrow> pipe"
  devsw_read :: "nat \<Rightarrow> devfn option"
  devsw_write :: "nat \<Rightarrow> devfn option"
  junk :: cstr

definition file_of :: "nat \<Rightarrow> (kfile \<Rightarrow> 'a) \<Rightarrow> ('z files_scheme, 'a) op" where
  "file_of f g = reads (\<lambda>s. g (ftable s f))"

definition update_file :: "nat \<Rightarrow> (kfile \<Rightarrow> kfile) \<Rightarrow> ('z files_scheme, unit) op" where
  "update_file f g = modify (\<lambda>s. s\<lparr>ftable := (ftable s)(f := g (ftable s f))\<rparr>)"

definition pipe_of :: "addr \<Rightarrow> (pipe \<Rightarrow> 'a) \<Rightarrow> ('z files_scheme, 'a) op" where
  "pipe_of pi g = reads (\<lambda>s. g (pipes s pi))"

definition update_pipe :: "addr \<Rightarrow> (pipe \<Rightarrow> pipe) \<Rightarrow> ('z files_scheme, unit) op" where
  "update_pipe pi g = modify (\<lambda>s. s\<lparr>pipes := (pipes s)(pi := g (pipes s pi))\<rparr>)"

definition consoleinit :: "('z files_scheme, unit) op" where
  "consoleinit =
     bind (initlock L_cons) (\<lambda>_.
     bind uartinit (\<lambda>_.
     modify (\<lambda>s. s\<lparr>devsw_read := (devsw_read s)(CONSOLE := Some Fn_consoleread),
                    devsw_write := (devsw_write s)(CONSOLE := Some Fn_consolewrite)\<rparr>)))"

section \<open>Pipes\<close>

definition pipeclose :: "addr \<Rightarrow> bool \<Rightarrow> ('z files_scheme, unit) op" where
  "pipeclose pi wr =
     bind (acquire (L_pipe pi)) (\<lambda>_.
     bind (if wr then
             bind (update_pipe pi (\<lambda>q. q\<lparr>writeopen := False\<rparr>)) (\<lambda>_.
             wakeup (C_pipe_nread pi))
           else
             bind (update_pipe pi (\<lambda>q. q\<lparr>readopen := False\<rparr>)) (\<lambda>_.
             wakeup (C_pipe_nwrite pi))) (\<lambda>_.
     bind (pipe_of pi (\<lambda>q. \<not> readopen q \<and> \<not> writeopen q)) (\<lambda>dead.
     if dead then bind (release (L_pipe pi)) (\<lambda>_. kfree pi)
     else release (L_pipe pi))))"

text \<open>The inner loop of \<open>pipewrite\<close>: wait for room; False when the function returns -1.\<close>

definition pipewrite_room :: "addr \<Rightarrow> nat \<Rightarrow> ('z files_scheme, bool) op" where
  "pipewrite_room pi pr =
     sleep_until
       (bind (pipe_of pi (\<lambda>q. nwrite q = nread q + PIPESIZE)) (\<lambda>full.
        if \<not> full then ret (Some True) else
        bind (pipe_of pi readopen) (\<lambda>ro.
        bind (proc_of pr killed) (\<lambda>k.
        if \<not> ro \<or> k then bind (release (L_pipe pi)) (\<lambda>_. ret (Some False))
        else bind (wakeup (C_pipe_nread pi)) (\<lambda>_. ret None)))))
       (C_pipe_nwrite pi) (L_pipe pi)"

text \<open>The loop from \<open>i\<close> on, with \<open>k\<close> bytes left; None when the function returned -1.\<close>

fun pipewrite_from :: "addr \<Rightarrow> nat \<Rightarrow> uint64 \<Rightarrow> nat \<Rightarrow> nat \<Rightarrow> ('z files_scheme, nat option) op" where
  "pipewrite_from pi pr addr i 0 = ret (Some i)"
| "pipewrite_from pi pr addr i (Suc k) =
     bind (pipewrite_room pi pr) (\<lambda>ok.
     if \<not> ok then ret None else
     bind (proc_of pr pagetable) (\<lambda>pt.
     bind (copyin pt (\<lambda>_. 0) (addr + of_nat i) 1) (\<lambda>(r, ch).
     if r = -1 then ret (Some i) else
     bind (update_pipe pi (\<lambda>q. q\<lparr>pdata := (pdata q)(unat (nwrite q mod PIPESIZE) := ch 0),
                                   nwrite := nwrite q + 1\<rparr>)) (\<lambda>_.
     pipewrite_from pi pr addr (Suc i) k))))"

definition pipewrite :: "addr \<Rightarrow> uint64 \<Rightarrow> int \<Rightarrow> ('z files_scheme, int) op" where
  "pipewrite pi addr n =
     bind curp (\<lambda>pr.
     bind (acquire (L_pipe pi)) (\<lambda>_.
     bind (pipewrite_from pi pr addr 0 (nat n)) (\<lambda>r.
     case r of
       None \<Rightarrow> ret (-1)
     | Some i \<Rightarrow>
         bind (wakeup (C_pipe_nread pi)) (\<lambda>_.
         bind (release (L_pipe pi)) (\<lambda>_.
         ret (int i))))))"

fun piperead_from :: "addr \<Rightarrow> nat \<Rightarrow> uint64 \<Rightarrow> nat \<Rightarrow> nat \<Rightarrow> ('z files_scheme, nat) op" where
  "piperead_from pi pr addr i 0 = ret i"
| "piperead_from pi pr addr i (Suc k) =
     bind (pipe_of pi (\<lambda>q. nread q = nwrite q)) (\<lambda>none.
     if none then ret i else
     bind (pipe_of pi (\<lambda>q. pdata q (unat (nread q mod PIPESIZE)))) (\<lambda>ch.
     bind (update_pipe pi (\<lambda>q. q\<lparr>nread := nread q + 1\<rparr>)) (\<lambda>_.
     bind (proc_of pr pagetable) (\<lambda>pt.
     bind (copyout pt (addr + of_nat i) (\<lambda>_. ch) 1) (\<lambda>r.
     if r = -1 then ret i else
     piperead_from pi pr addr (Suc i) k)))))"

text \<open>The loop of \<open>piperead\<close> that waits for data; False when the function returns -1.\<close>

definition piperead_wait :: "addr \<Rightarrow> nat \<Rightarrow> ('z files_scheme, bool) op" where
  "piperead_wait pi pr =
     sleep_until
       (bind (pipe_of pi (\<lambda>q. nread q = nwrite q \<and> writeopen q)) (\<lambda>none.
        if \<not> none then ret (Some True) else
        bind (proc_of pr killed) (\<lambda>k.
        if k then bind (release (L_pipe pi)) (\<lambda>_. ret (Some False)) else ret None)))
       (C_pipe_nread pi) (L_pipe pi)"

definition piperead :: "addr \<Rightarrow> uint64 \<Rightarrow> int \<Rightarrow> ('z files_scheme, int) op" where
  "piperead pi addr n =
     bind curp (\<lambda>pr.
     bind (acquire (L_pipe pi)) (\<lambda>_.
     bind (piperead_wait pi pr) (\<lambda>ok.
     if \<not> ok then ret (-1) else
     bind (piperead_from pi pr addr 0 (nat n)) (\<lambda>i.
     bind (wakeup (C_pipe_nwrite pi)) (\<lambda>_.
     bind (release (L_pipe pi)) (\<lambda>_.
     ret (int i)))))))"

section \<open>Files\<close>

definition fileinit :: "('z files_scheme, unit) op" where
  "fileinit = initlock L_ftable"

definition filealloc :: "('z files_scheme, nat option) op" where
  "filealloc =
     bind (acquire L_ftable) (\<lambda>_.
     bind (for_first [0..<NFILE] (\<lambda>f.
       bind (file_of f fref) (\<lambda>r.
       if r = 0 then
         bind (update_file f (\<lambda>q. q\<lparr>fref := 1\<rparr>)) (\<lambda>_.
         bind (release L_ftable) (\<lambda>_. ret (Some f)))
       else ret None))) (\<lambda>found.
     case found of
       Some f \<Rightarrow> ret (Some f)
     | None \<Rightarrow> bind (release L_ftable) (\<lambda>_. ret None)))"

definition filedup :: "nat \<Rightarrow> ('z files_scheme, nat) op" where
  "filedup f =
     bind (acquire L_ftable) (\<lambda>_.
     bind (file_of f fref) (\<lambda>r.
     if r < 1 then panic ''filedup'' else
     bind (update_file f (\<lambda>q. q\<lparr>fref := fref q + 1\<rparr>)) (\<lambda>_.
     bind (release L_ftable) (\<lambda>_.
     ret f))))"

definition fileclose :: "nat \<Rightarrow> ('z files_scheme, unit) op" where
  "fileclose f =
     bind (acquire L_ftable) (\<lambda>_.
     bind (file_of f fref) (\<lambda>r.
     if r < 1 then panic ''fileclose'' else
     bind (update_file f (\<lambda>q. q\<lparr>fref := fref q - 1\<rparr>)) (\<lambda>_.
     bind (file_of f fref) (\<lambda>r.
     if r > 0 then release L_ftable else
     bind (file_of f id) (\<lambda>ff.
     bind (update_file f (\<lambda>q. q\<lparr>fref := 0, ftype := FD_NONE\<rparr>)) (\<lambda>_.
     bind (release L_ftable) (\<lambda>_.
     if ftype ff = FD_PIPE then pipeclose (fpipe ff) (writable ff)
     else if ftype ff = FD_INODE \<or> ftype ff = FD_DEVICE then
       bind begin_op (\<lambda>_.
       bind (deref (fip ff)) (\<lambda>ip.
       bind (iput ip) (\<lambda>_.
       end_op)))
     else ret ())))))))"

text \<open>
  \<open>struct stat\<close> as it is copied to user space: 24 bytes, of which bytes 12 to 15 are
  padding.
\<close>

definition stat_bytes :: "cstr \<Rightarrow> kstat \<Rightarrow> cstr" where
  "stat_bytes pad st =
     (let d = st32 (st32 pad 0 (st_dev st)) 4 (st_ino st);
          d = st16 (st16 d 8 (st_type st)) 10 (st_nlink st)
      in st32 (st32 d 16 (ucast (st_size st))) 20 (ucast (drop_bit 32 (st_size st))))"

definition filestat :: "nat \<Rightarrow> uint64 \<Rightarrow> ('z files_scheme, int) op" where
  "filestat f addr =
     bind curp (\<lambda>p.
     bind (file_of f id) (\<lambda>q.
     if ftype q = FD_INODE \<or> ftype q = FD_DEVICE then
       bind (ilock (fip q)) (\<lambda>_.
       bind (deref (fip q)) (\<lambda>ip.
       bind (stati ip) (\<lambda>st.
       bind (iunlock (fip q)) (\<lambda>_.
       bind (proc_of p pagetable) (\<lambda>pt.
       bind (reads junk) (\<lambda>pad.
       bind (copyout pt addr (stat_bytes pad st) 24) (\<lambda>r.
       if r < 0 then ret (-1) else ret 0)))))))
     else ret (-1)))"

definition devsw_call_read :: "devfn \<Rightarrow> uint64 \<Rightarrow> int \<Rightarrow> ('z files_scheme, int) op" where
  "devsw_call_read fn addr n =
     (case fn of
        Fn_consoleread \<Rightarrow> bind (consoleread True addr (\<lambda>_. 0) n) (\<lambda>(r, _). ret r)
      | Fn_consolewrite \<Rightarrow> consolewrite True addr (\<lambda>_. 0) n)"

definition fileread :: "nat \<Rightarrow> uint64 \<Rightarrow> int \<Rightarrow> ('z files_scheme, int) op" where
  "fileread f addr n =
     bind (file_of f id) (\<lambda>q.
     if \<not> readable q then ret (-1) else
     (case ftype q of
        FD_PIPE \<Rightarrow> piperead (fpipe q) addr n
      | FD_DEVICE \<Rightarrow>
          if sint (fmajor q) < 0 \<or> sint (fmajor q) \<ge> NDEV then ret (-1) else
          bind (reads (\<lambda>s. devsw_read s (unat (fmajor q)))) (\<lambda>fn.
          case fn of None \<Rightarrow> ret (-1) | Some fn \<Rightarrow> devsw_call_read fn addr n)
      | FD_INODE \<Rightarrow>
          bind (ilock (fip q)) (\<lambda>_.
          bind (deref (fip q)) (\<lambda>ip.
          bind (file_of f foff) (\<lambda>off.
          bind (readi ip True addr (\<lambda>_. 0) off (word_of_int n)) (\<lambda>(r, _).
          bind (if sint r > 0 then update_file f (\<lambda>q. q\<lparr>foff := foff q + r\<rparr>) else ret ()) (\<lambda>_.
          bind (iunlock (fip q)) (\<lambda>_.
          ret (sint r)))))))
      | FD_NONE \<Rightarrow> panic ''fileread''))"

text \<open>
  The loop of \<open>filewrite\<close> that writes at most \<open>max\<close> bytes in one transaction. A round
  that goes on writes all its bytes, so it makes progress.
\<close>

definition filewrite_max :: int where
  "filewrite_max = ((MAXOPBLOCKS - 1 - 1 - 2) div 2) * uint BSIZE"

function filewrite_loop :: "nat \<Rightarrow> uint64 \<Rightarrow> int \<Rightarrow> int \<Rightarrow> ('z files_scheme, int) op" where
  "filewrite_loop f addr n i =
     (if i < n then
        let n1 = (if n - i > filewrite_max then filewrite_max else n - i) in
        bind begin_op (\<lambda>_.
        bind (file_of f fip) (\<lambda>p.
        bind (ilock p) (\<lambda>_.
        bind (deref p) (\<lambda>ip.
        bind (file_of f foff) (\<lambda>off.
        bind (writei ip True (addr + word_of_int i) (\<lambda>_. 0) off (word_of_int n1)) (\<lambda>r.
        bind (if r > 0 then update_file f (\<lambda>q. q\<lparr>foff := foff q + word_of_int r\<rparr>) else ret ()) (\<lambda>_.
        bind (iunlock p) (\<lambda>_.
        bind end_op (\<lambda>_.
        if r < 0 then ret i
        else if r \<noteq> n1 then panic ''short filewrite''
        else filewrite_loop f addr n (i + n1))))))))))
      else ret i)"
  by pat_completeness auto

termination filewrite_loop
  by (relation "measure (\<lambda>(_, _, n, i). nat (n - i))")
    (auto simp: filewrite_max_def MAXOPBLOCKS_def BSIZE_def)

declare filewrite_loop.simps [simp del]

definition filewrite :: "nat \<Rightarrow> uint64 \<Rightarrow> int \<Rightarrow> ('z files_scheme, int) op" where
  "filewrite f addr n =
     bind (file_of f id) (\<lambda>q.
     if \<not> writable q then ret (-1) else
     (case ftype q of
        FD_PIPE \<Rightarrow> pipewrite (fpipe q) addr n
      | FD_DEVICE \<Rightarrow>
          if sint (fmajor q) < 0 \<or> sint (fmajor q) \<ge> NDEV then ret (-1) else
          bind (reads (\<lambda>s. devsw_write s (unat (fmajor q)))) (\<lambda>fn.
          case fn of None \<Rightarrow> ret (-1) | Some fn \<Rightarrow> devsw_call_read fn addr n)
      | FD_INODE \<Rightarrow>
          bind (filewrite_loop f addr n 0) (\<lambda>i.
          ret (if i = n then n else -1))
      | FD_NONE \<Rightarrow> panic ''filewrite''))"

section \<open>Allocation of a pipe\<close>

text \<open>The code at the label \<open>bad\<close> of \<open>pipealloc\<close>.\<close>

definition pipealloc_bad :: "nat option \<Rightarrow> nat option \<Rightarrow> addr \<Rightarrow> ('z files_scheme, (nat \<times> nat) option) op" where
  "pipealloc_bad f0 f1 pi =
     bind (if pi \<noteq> 0 then kfree pi else ret ()) (\<lambda>_.
     bind (case f0 of Some f \<Rightarrow> fileclose f | None \<Rightarrow> ret ()) (\<lambda>_.
     bind (case f1 of Some f \<Rightarrow> fileclose f | None \<Rightarrow> ret ()) (\<lambda>_.
     ret None)))"

definition pipealloc :: "('z files_scheme, (nat \<times> nat) option) op" where
  "pipealloc =
     bind filealloc (\<lambda>f0.
     case f0 of None \<Rightarrow> pipealloc_bad None None 0 | Some a \<Rightarrow>
     bind filealloc (\<lambda>f1.
     case f1 of None \<Rightarrow> pipealloc_bad f0 None 0 | Some b \<Rightarrow>
     bind kalloc (\<lambda>pi.
     if pi = 0 then pipealloc_bad f0 f1 0 else
     bind (update_pipe pi (\<lambda>q. q\<lparr>readopen := True, writeopen := True, nwrite := 0, nread := 0\<rparr>)) (\<lambda>_.
     bind (initlock (L_pipe pi)) (\<lambda>_.
     bind (update_file a (\<lambda>q. q\<lparr>ftype := FD_PIPE, readable := True, writable := False, fpipe := pi\<rparr>)) (\<lambda>_.
     bind (update_file b (\<lambda>q. q\<lparr>ftype := FD_PIPE, readable := False, writable := True, fpipe := pi\<rparr>)) (\<lambda>_.
     ret (Some (a, b)))))))))"

end
