(* ===== verification/Ring.thy ===== *)
theory Ring
  imports XV6_Prelude
begin

text \<open>
  Ring buffers with free-running 32-bit indices, as the pipes and the console have them: a
  buffer of \<open>n\<close> bytes, \<open>r\<close> the number of bytes ever read and \<open>w\<close> the number ever written,
  both modulo \<open>2 ^ 32\<close>. \<open>fifo\<close> is the contract of a bounded queue that they implement.
\<close>

section \<open>Bounded queues\<close>

locale fifo =
  fixes inv :: "'q \<Rightarrow> bool" and items :: "'q \<Rightarrow> 'x list" and cap :: nat
    and put :: "'x \<Rightarrow> 'q \<Rightarrow> 'q" and front :: "'q \<Rightarrow> 'x" and adv :: "'q \<Rightarrow> 'q"
  assumes bounded: "inv q \<Longrightarrow> length (items q) \<le> cap"
    and put_spec: "inv q \<Longrightarrow> length (items q) < cap \<Longrightarrow> inv (put x q) \<and> items (put x q) = items q @ [x]"
    and adv_spec: "inv q \<Longrightarrow> items q \<noteq> [] \<Longrightarrow> inv (adv q) \<and> items q = front q # items (adv q)"
begin

lemma puts_spec:
  "inv q \<Longrightarrow> length (items q) + length xs \<le> cap \<Longrightarrow>
   inv (fold put xs q) \<and> items (fold put xs q) = items q @ xs"
proof (induction xs arbitrary: q)
  case Nil
  then show ?case by simp
next
  case (Cons x xs)
  then have "inv (put x q) \<and> items (put x q) = items q @ [x]" by (intro put_spec) auto
  then show ?case using Cons.IH[of "put x q"] Cons.prems(2) by simp
qed

lemma advs_spec:
  "inv q \<Longrightarrow> n \<le> length (items q) \<Longrightarrow> inv ((adv ^^ n) q) \<and> items ((adv ^^ n) q) = drop n (items q)"
proof (induction n arbitrary: q)
  case 0
  then show ?case by simp
next
  case (Suc n)
  then have "inv (adv q) \<and> items q = front q # items (adv q)" by (intro adv_spec) auto
  then show ?case using Suc.IH[of "adv q"] Suc.prems(2) by (simp add: funpow_swap1)
qed

lemma front_spec: "inv q \<Longrightarrow> n < length (items q) \<Longrightarrow> front ((adv ^^ n) q) = items q ! n"
proof -
  assume q: "inv q" "n < length (items q)"
  note a = advs_spec[OF q(1), of n]
  then have "items ((adv ^^ n) q) = front ((adv ^^ n) q) # items (adv ((adv ^^ n) q))"
    using adv_spec[of "(adv ^^ n) q"] q(2) by simp
  then show "front ((adv ^^ n) q) = items q ! n" using a q(2) by (metis hd_drop_conv_nth less_imp_le list.sel(1))
qed

end

section \<open>The buffer as a list\<close>

definition ring_items :: "(nat \<Rightarrow> 'a) \<Rightarrow> uint \<Rightarrow> uint \<Rightarrow> nat \<Rightarrow> 'a list" where
  "ring_items d r w n = map (\<lambda>i. d ((unat r + i) mod n)) [0..<unat (w - r)]"

text \<open>A size that divides \<open>2 ^ 32\<close>, so that the position survives the wrap-around of an index.\<close>

definition ring_size :: "nat \<Rightarrow> bool" where
  "ring_size n \<longleftrightarrow> n dvd 2 ^ 32 \<and> 0 < n \<and> n < 2 ^ 32"

lemma length_ring_items [simp]: "length (ring_items d r w n) = unat (w - r)"
  by (simp add: ring_items_def)

lemma ring_pos:
  fixes r :: uint
  assumes "ring_size n"
  shows "(unat (r + of_nat i)) mod n = (unat r + i) mod n"
proof -
  have "unat (r + of_nat i) = (unat r + i) mod 2 ^ 32"
    by (simp add: unat_word_ariths unat_of_nat take_bit_eq_mod mod_add_right_eq)
  then show ?thesis using assms by (simp add: ring_size_def mod_mod_cancel)
qed

lemma ring_end: "ring_size n \<Longrightarrow> (unat r + unat (w - r :: uint)) mod n = unat w mod n"
  using ring_pos[of n r "unat (w - r)"] by simp

lemma unat_Suc_diff: "unat (w - r :: uint) < n \<Longrightarrow> n < 2 ^ 32 \<Longrightarrow> unat (w + 1 - r) = Suc (unat (w - r))"
proof -
  assume a: "unat (w - r) < n" "n < 2 ^ 32"
  have "w + 1 - r = 1 + (w - r)" by simp
  moreover have "unat (1 + (w - r)) = Suc (unat (w - r))" using a by (intro unatSuc) (auto dest: arg_cong[of _ _ unat] simp: unat_word_ariths)
  ultimately show ?thesis by metis
qed

lemma mod_add_inj:
  assumes "(a + i) mod n = (a + j) mod n" "i < n" "j < (n :: nat)"
  shows "i = j"
proof -
  have "n dvd j - i" if "i \<le> j" using mod_eq_dvd_iff_nat[of "a + i" "a + j" n] assms(1) that by simp
  moreover have "n dvd i - j" if "j \<le> i" using mod_eq_dvd_iff_nat[of "a + j" "a + i" n] assms(1) that by simp
  ultimately show ?thesis using assms(2,3)
    by (metis diff_is_0_eq' diff_le_self dvd_imp_le le_antisym le_less_trans linorder_not_less nat_le_linear zero_less_diff)
qed

lemma ring_put:
  assumes "ring_size n" "unat (w - r) < n"
  shows "ring_items (d(unat w mod n := x)) r (w + 1) n = ring_items d r w n @ [x]"
proof -
  have "(unat r + i) mod n \<noteq> unat w mod n" if "i < unat (w - r)" for i
  proof
    assume "(unat r + i) mod n = unat w mod n"
    then have "(unat r + i) mod n = (unat r + unat (w - r)) mod n" by (simp only: ring_end[OF assms(1)])
    then have "i = unat (w - r)" using assms(2) that by (intro mod_add_inj[of "unat r" i n]) linarith+
    then show False using less_irrefl that by metis
  qed
  moreover have "unat (w + 1 - r) = Suc (unat (w - r))"
    using unat_Suc_diff[of w r n] assms by (simp add: ring_size_def)
  ultimately show ?thesis using ring_end[OF assms(1), of r w] by (simp add: ring_items_def)
qed

lemma ring_adv:
  assumes "ring_size n" "r \<noteq> w"
  shows "ring_items d r w n = d (unat r mod n) # ring_items d (r + 1) w n"
proof -
  have nz: "w - r \<noteq> 0" using assms(2) by simp
  have "unat (w - (r + 1)) = unat (w - r) - 1" using unat_minus_one[OF nz] by (simp only: diff_diff_add)
  moreover have "0 < unat (w - r)" using nz unat_gt_0 by blast
  ultimately have l: "unat (w - r) = Suc (unat (w - (r + 1)))" by linarith
  have "(unat (r + 1) + i) mod n = (unat r + Suc i) mod n" for i
  proof -
    have "unat (r + 1) mod n = (unat r + 1) mod n" using ring_pos[OF assms(1), of r 1] by simp
    then show ?thesis using mod_add_cong[of "unat (r + 1)" n "unat r + 1" i i] by simp
  qed
  then show ?thesis unfolding ring_items_def l by (simp add: upt_conv_Cons map_Suc_upt[symmetric] del: upt_Suc)
qed

text \<open>A buffer cut in two, and its last element.\<close>

lemma unat_diff_split:
  fixes r w e :: uint
  assumes "unat (w - r) \<le> unat (e - r)"
  shows "unat (e - w) = unat (e - r) - unat (w - r)"
proof -
  have "e - w = (e - r) - (w - r)" by simp
  then show ?thesis using assms unat_sub[of "w - r" "e - r"] by (simp only: word_le_nat_alt)
qed

lemma ring_append:
  assumes "ring_size n" "unat (w - r) \<le> unat (e - r)"
  shows "ring_items d r e n = ring_items d r w n @ ring_items d w e n"
proof -
  let ?a = "unat (w - r)" and ?b = "unat (e - w)"
  have len: "unat (e - r) = ?a + ?b" using unat_diff_split[OF assms(2)] assms(2) by linarith
  have p: "(unat w + i) mod n = (unat r + (?a + i)) mod n" for i
    using mod_add_cong[OF ring_end[OF assms(1), of r w, symmetric], of i i] by (simp add: add.assoc)
  have "map (\<lambda>i. d ((unat r + i) mod n)) [?a..<?a + ?b] = map (\<lambda>i. d ((unat w + i) mod n)) [0..<?b]"
    unfolding p by (rule nth_equalityI) simp_all
  then show ?thesis unfolding ring_items_def len using upt_add_eq_append[of 0 ?a ?b] by simp
qed

lemma ring_Nil [simp]: "ring_items d r r n = []"
  by (simp add: ring_items_def)

lemma ring_snoc:
  assumes "ring_size n" "e \<noteq> w"
  shows "ring_items d w e n = ring_items d w (e - 1) n @ [d (unat (e - 1) mod n)]"
proof -
  have "unat (e - 1 - w) < unat (e - w)"
  proof -
    have "unat (e - 1 - w) = unat (e - w) - 1"
      using unat_minus_one[of "e - w"] assms(2) by (simp only: diff_right_commute[of e 1 w]) simp
    then show ?thesis using assms(2) unat_gt_0[of "e - w"] by simp
  qed
  then have "ring_items d w e n = ring_items d w (e - 1) n @ ring_items d (e - 1) e n"
    using assms(1) by (intro ring_append) simp_all
  moreover have "ring_items d (e - 1) e n = [d (unat (e - 1) mod n)]"
    using ring_adv[OF assms(1), of "e - 1" e d] by simp
  ultimately show ?thesis by simp
qed

end
