(* ===== verification/PipeProps.thy ===== *)
theory PipeProps
  imports File LogCrash CopyUser Ring
begin

unbundle bit_operations_syntax

text \<open>
  Pipes: the ring buffer of a pipe is a bounded queue of bytes, \<open>pipewrite\<close> appends the
  bytes of a user range to it, and \<open>piperead\<close> takes bytes from its front.
\<close>

section \<open>The queue in a pipe\<close>

definition pipe_items :: "pipe \<Rightarrow> uchar list" where
  "pipe_items q = ring_items (pdata q) (nread q) (nwrite q) 512"

definition pipe_ok :: "pipe \<Rightarrow> bool" where
  "pipe_ok q \<longleftrightarrow> unat (nwrite q - nread q) \<le> 512"

definition pipe_put :: "uchar \<Rightarrow> pipe \<Rightarrow> pipe" where
  "pipe_put ch q = q\<lparr>pdata := (pdata q)(unat (nwrite q mod PIPESIZE) := ch), nwrite := nwrite q + 1\<rparr>"

definition pipe_front :: "pipe \<Rightarrow> uchar" where
  "pipe_front q = pdata q (unat (nread q mod PIPESIZE))"

definition pipe_adv :: "pipe \<Rightarrow> pipe" where
  "pipe_adv q = q\<lparr>nread := nread q + 1\<rparr>"

lemma pipe_ring: "ring_size 512" "unat (x mod PIPESIZE) = unat x mod 512"
  by (simp_all add: ring_size_def PIPESIZE_def unat_mod)

lemma length_pipe_items: "length (pipe_items q) = unat (nwrite q - nread q)"
  by (simp add: pipe_items_def)

lemma pipe_empty: "nread q = nwrite q \<longleftrightarrow> pipe_items q = []"
proof -
  have "nread q = nwrite q \<longleftrightarrow> unat (nwrite q - nread q) = 0" by (auto simp: unat_eq_0)
  then show ?thesis using length_pipe_items[of q] by auto
qed

lemma pipe_full: "nwrite q = nread q + PIPESIZE \<longleftrightarrow> length (pipe_items q) = 512"
proof -
  have "nwrite q = nread q + PIPESIZE \<longleftrightarrow> nwrite q - nread q = 512"
    by (simp add: PIPESIZE_def diff_eq_eq add.commute)
  also have "\<dots> \<longleftrightarrow> unat (nwrite q - nread q) = 512" by (simp add: word_unat_eq_iff)
  finally show ?thesis by (simp add: length_pipe_items)
qed

interpretation pq: fifo pipe_ok pipe_items 512 pipe_put pipe_front pipe_adv
proof
  fix q x
  show "pipe_ok q \<Longrightarrow> length (pipe_items q) \<le> 512" by (simp add: pipe_ok_def length_pipe_items)
  show "pipe_ok (pipe_put x q) \<and> pipe_items (pipe_put x q) = pipe_items q @ [x]"
    if "pipe_ok q" "length (pipe_items q) < 512"
  proof -
    have "unat (nwrite q - nread q) < 512" using that(2) by (simp add: length_pipe_items)
    then show ?thesis using ring_put[OF pipe_ring(1), of "nwrite q" "nread q" "pdata q" x]
        unat_Suc_diff[of "nwrite q" "nread q" 512]
      by (simp add: pipe_put_def pipe_items_def pipe_ok_def pipe_ring(2))
  qed
  show "pipe_ok (pipe_adv q) \<and> pipe_items q = pipe_front q # pipe_items (pipe_adv q)"
    if "pipe_ok q" "pipe_items q \<noteq> []"
  proof -
    have e: "pipe_items q = pipe_front q # pipe_items (pipe_adv q)"
      using ring_adv[OF pipe_ring(1), of "nread q" "nwrite q" "pdata q"] that(2) pipe_empty[of q]
      by (simp add: pipe_items_def pipe_front_def pipe_adv_def pipe_ring(2))
    then have "length (pipe_items q) = Suc (length (pipe_items (pipe_adv q)))" by (metis length_Cons)
    then have "length (pipe_items (pipe_adv q)) \<le> 512"
      using that(1) length_pipe_items[of q] by (simp add: pipe_ok_def)
    then show ?thesis using e by (simp add: pipe_ok_def length_pipe_items)
  qed
qed

section \<open>Frames\<close>

lemma pipes_frame [acq_simps, simp]:
  "pipes (acq lk s) = pipes s" "(acq lk s)\<lparr>pipes := f\<rparr> = acq lk (s\<lparr>pipes := f\<rparr>)"
  by (simp_all add: acq_def pushed_def noff_of_def intr_of_def)

lemma pipes_update_frame [simp]:
  "cpu_ok (s\<lparr>pipes := f\<rparr>) = cpu_ok s" "noff_of (s\<lparr>pipes := f\<rparr>) = noff_of s"
  "intr_of (s\<lparr>pipes := f\<rparr>) = intr_of s" "curproc (s\<lparr>pipes := f\<rparr>) = curproc s"
  "procs_free (s\<lparr>pipes := f\<rparr>) = procs_free s" "thread p (s\<lparr>pipes := f\<rparr>) = thread p s"
  "pipes (wake ch s) = pipes s" "pipes (unchan p s) = pipes s"
  by (simp_all add: unchan_def cpu_ok_def noff_of_def intr_of_def curproc_def procs_free_def thread_def wake_def)

lemma uspace_cong:
  fixes s :: "'z kmem_scheme" and t :: "'y kmem_scheme"
  assumes "mem t = mem s" "freelist t = freelist s" "kend t = kend s" "cpu_ok t = cpu_ok s"
    "locks t L_kmem = locks s L_kmem"
  shows "uspace t pt ps F = uspace s pt ps F"
  using assms by (simp add: uspace_def vmspace_def kmem_free_def kmem_inv_def kernel_page_def)

lemma uspace_frame [simp]:
  "lk \<noteq> L_kmem \<Longrightarrow> cpu_ok s \<Longrightarrow> uspace (acq lk s) pt ps F = uspace s pt ps F"
  "uspace (s\<lparr>pipes := f\<rparr>) pt ps F = uspace s pt ps F"
  "uspace (s\<lparr>ptable := g\<rparr>) pt ps F = uspace s pt ps F"
  by (rule uspace_cong; simp)+

lemma copyin_byte:
  assumes "uspace s pt ps F"
  shows "uacc F va \<Longrightarrow> \<exists>d. copyin pt (\<lambda>_. 0) va 1 s = Ret (0, d) s \<and> d 0 = mem s (uaddr F va)"
    "\<not> uacc F va \<Longrightarrow> \<exists>d. copyin pt (\<lambda>_. 0) va 1 s = Ret (-1, d) s"
  using copyin_spec[OF assms, of va 1 "\<lambda>_. 0" 0] by (auto simp: copyin_def all_uacc_def)

section \<open>pipewrite\<close>

text \<open>A process \<open>p\<close> about to use the pipe \<open>pi\<close>: its lock is free, and the address space is \<open>F\<close>.\<close>

definition pipe_user :: "nat \<Rightarrow> addr \<Rightarrow> addr list \<Rightarrow> (uint64 \<Rightarrow> uint64) \<Rightarrow> 'z files_scheme \<Rightarrow> bool" where
  "pipe_user p pi ps F s \<longleftrightarrow> thread p s \<and> locks s (L_pipe pi) = free_lock \<and> pipe_ok (pipes s pi) \<and>
     uspace s (pagetable (ptable s p)) ps F"

lemma pipe_userD:
  assumes "pipe_user p pi ps F s"
  shows "thread p s" "cpu_ok s" "locks s (L_pipe pi) = free_lock" "pipe_ok (pipes s pi)"
    "uspace s (pagetable (ptable s p)) ps F" "curp s = Ret p s" "procs_free s" "curproc s = Some p"
  using assms threadD[of p s] by (simp_all add: pipe_user_def)

definition with_pipe :: "addr \<Rightarrow> pipe \<Rightarrow> 'z files_scheme \<Rightarrow> 'z files_scheme" where
  "with_pipe pi q s = s\<lparr>pipes := (pipes s)(pi := q)\<rparr>"

lemma with_pipe_frame [simp]:
  "pipes (with_pipe pi q s) pi = q" "with_pipe pi q (with_pipe pi q' s) = with_pipe pi q s"
  "with_pipe pi (pipes s pi) s = s" "with_pipe pi q (acq lk s) = acq lk (with_pipe pi q s)"
  "ptable (with_pipe pi q s) = ptable s" "mem (with_pipe pi q s) = mem s" "patience (with_pipe pi q s) = patience s"
  "locks (with_pipe pi q s) = locks s" "cpu_ok (with_pipe pi q s) = cpu_ok s" "noff_of (with_pipe pi q s) = noff_of s"
  "intr_of (with_pipe pi q s) = intr_of s" "curproc (with_pipe pi q s) = curproc s"
  "thread p (with_pipe pi q s) = thread p s" "procs_free (with_pipe pi q s) = procs_free s"
  "uspace (with_pipe pi q s) pt ps F = uspace s pt ps F"
  by (simp_all add: with_pipe_def)

lemma pipe_user_with [simp]: "pipe_user p pi ps F s \<Longrightarrow> pipe_ok q \<Longrightarrow> pipe_user p pi ps F (with_pipe pi q s)"
  by (simp add: pipe_user_def)

lemma room_ok:
  assumes "length (pipe_items (pipes s pi)) < 512"
  shows "pipewrite_room pi p (acq (L_pipe pi) s) = Ret True (acq (L_pipe pi) s)"
proof -
  have "nwrite (pipes s pi) \<noteq> nread (pipes s pi) + PIPESIZE" using assms pipe_full[of "pipes s pi"] by auto
  then show ?thesis
    by (simp add: pipewrite_room_def sleep_until_def bind_def reads_def pipe_of_def ret_def)
qed

text \<open>The user bytes from \<open>va\<close> on.\<close>

definition ubytes :: "(uint64 \<Rightarrow> uint64) \<Rightarrow> memory \<Rightarrow> uint64 \<Rightarrow> nat \<Rightarrow> uchar list" where
  "ubytes F m va n = map (\<lambda>i. m (uaddr F (va + of_nat i))) [0..<n]"

lemma ubytes_Suc: "ubytes F m va (Suc n) = m (uaddr F va) # ubytes F m (va + 1) n"
  by (simp add: ubytes_def upt_conv_Cons map_Suc_upt[symmetric] add.assoc del: upt_Suc)

lemma pipewrite_step:
  assumes u: "pipe_user p pi ps F s" and room: "length (pipe_items (pipes s pi)) < 512" 
  shows "uacc F (va + of_nat i) \<Longrightarrow> pipewrite_from pi p va i (Suc k) (acq (L_pipe pi) s) =
      pipewrite_from pi p va (Suc i) k
        (acq (L_pipe pi) (with_pipe pi (pipe_put (mem s (uaddr F (va + of_nat i))) (pipes s pi)) s))"
    and "\<not> uacc F (va + of_nat i) \<Longrightarrow>
      pipewrite_from pi p va i (Suc k) (acq (L_pipe pi) s) = Ret (Some i) (acq (L_pipe pi) s)"
proof -
  note d = pipe_userD[OF u]
  have us: "uspace (acq (L_pipe pi) s) (pagetable (ptable s p)) ps F" using d by simp
  show "pipewrite_from pi p va i (Suc k) (acq (L_pipe pi) s) =
      pipewrite_from pi p va (Suc i) k
        (acq (L_pipe pi) (with_pipe pi (pipe_put (mem s (uaddr F (va + of_nat i))) (pipes s pi)) s))"
    if acc: "uacc F (va + of_nat i)"
  proof -
    obtain c where "copyin (pagetable (ptable s p)) (\<lambda>_. 0) (va + of_nat i) 1 (acq (L_pipe pi) s)
        = Ret (0, c) (acq (L_pipe pi) s)" "c 0 = mem s (uaddr F (va + of_nat i))"
      using copyin_byte(1)[OF us acc] by auto
    then show ?thesis
      by (simp add: bind_def room_ok[OF room] proc_of_def reads_def update_pipe_def modify_def
          pipe_put_def with_pipe_def)
  qed
  show "pipewrite_from pi p va i (Suc k) (acq (L_pipe pi) s) = Ret (Some i) (acq (L_pipe pi) s)"
    if "\<not> uacc F (va + of_nat i)"
    using copyin_byte(2)[OF us that]
    by (auto simp: bind_def room_ok[OF room] proc_of_def reads_def ret_def)
qed

lemma pipewrite_steps:
  assumes "pipe_user p pi ps F s" "length (pipe_items (pipes s pi)) + m \<le> 512"
    and "\<And>j. j < m \<Longrightarrow> uacc F (va + of_nat (i + j))"
  shows "pipewrite_from pi p va i (m + k) (acq (L_pipe pi) s) =
     pipewrite_from pi p va (i + m) k
       (acq (L_pipe pi) (with_pipe pi (fold pipe_put (ubytes F (mem s) (va + of_nat i) m) (pipes s pi)) s))"
  using assms
proof (induction m arbitrary: i s)
  case 0
  then show ?case by (simp add: ubytes_def)
next
  case (Suc m)
  let ?q = "pipe_put (mem s (uaddr F (va + of_nat i))) (pipes s pi)"
  let ?s = "with_pipe pi ?q s"
  have q: "pipe_ok ?q \<and> pipe_items ?q = pipe_items (pipes s pi) @ [mem s (uaddr F (va + of_nat i))]"
    using pipe_userD(4)[OF Suc.prems(1)] Suc.prems(2) by (intro pq.put_spec) simp_all
  have "uacc F (va + of_nat i)" using Suc.prems(3)[of 0] by simp
  then have "pipewrite_from pi p va i (Suc (m + k)) (acq (L_pipe pi) s) =
      pipewrite_from pi p va (Suc i) (m + k) (acq (L_pipe pi) ?s)"
    using Suc.prems(1,2) by (intro pipewrite_step(1)) simp_all
  also have "\<dots> = pipewrite_from pi p va (Suc i + m) k
       (acq (L_pipe pi) (with_pipe pi (fold pipe_put (ubytes F (mem ?s) (va + of_nat (Suc i)) m) (pipes ?s pi)) ?s))"
    using Suc.prems q Suc.prems(3)[of "Suc j" for j] by (intro Suc.IH) (simp_all add: add.assoc)
  finally show ?case by (simp add: ubytes_Suc add.assoc add.commute[of 1])
qed

text \<open>A full pipe: the writer gives up when nobody can read, and otherwise sleeps.\<close>

lemma room_closed:
  assumes u: "pipe_user p pi ps F s" and full: "length (pipe_items (pipes s pi)) = 512"
    and gone: "\<not> readopen (pipes s pi) \<or> killed (ptable s p)"
  shows "pipewrite_room pi p (acq (L_pipe pi) s) = Ret False s"
proof -
  have "nwrite (pipes s pi) = nread (pipes s pi) + PIPESIZE" using full pipe_full[of "pipes s pi"] by auto
  then show ?thesis using gone pipe_userD[OF u]
    by (auto simp: pipewrite_room_def sleep_until_def bind_def reads_def pipe_of_def proc_of_def ret_def release_acq)
qed

lemma room_sleeps:
  assumes u: "pipe_user p pi ps F s" and n: "noff_of s = 0" and full: "length (pipe_items (pipes s pi)) = 512"
    and alive: "readopen (pipes s pi)" "\<not> killed (ptable s p)"
  shows "\<exists>k. pipewrite_room pi p (acq (L_pipe pi) s) =
      Swtch (acq (L_proc p) (asleep p (C_pipe_nwrite pi) (wake (C_pipe_nread pi) s))) k \<and>
    (\<forall>r. thread p r \<longrightarrow> noff_of r = 0 \<longrightarrow> intr_of r = intr_of s \<longrightarrow> locks r (L_pipe pi) = free_lock \<longrightarrow>
      length (pipe_items (pipes r pi)) < 512 \<longrightarrow> 0 < patience s \<longrightarrow>
      k (acq (L_proc p) r) = Ret True (acq (L_pipe pi) (unchan p r)))"
proof -
  note d = pipe_userD[OF u]
  let ?s = "wake (C_pipe_nread pi) s"
  let ?body = "bind (pipe_of pi (\<lambda>q. nwrite q = nread q + PIPESIZE)) (\<lambda>full.
        if \<not> full then ret (Some True) else
        bind (pipe_of pi readopen) (\<lambda>ro.
        bind (proc_of p killed) (\<lambda>k.
        if \<not> ro \<or> k then bind (release (L_pipe pi)) (\<lambda>_. ret (Some False))
        else bind (wakeup (C_pipe_nread pi)) (\<lambda>_. ret None))))"
  have w: "wakeup (C_pipe_nread pi) (acq (L_pipe pi) s) = Ret () (acq (L_pipe pi) ?s)"
    using wakeup_eq[of "acq (L_pipe pi) s"] d by simp
  have "?body (acq (L_pipe pi) s) = Ret None (acq (L_pipe pi) ?s)"
    using full pipe_full[of "pipes s pi"] alive w by (simp add: bind_def pipe_of_def proc_of_def reads_def ret_def)
  moreover have "?body (acq (L_pipe pi) (unchan p r)) = Ret (Some True) (acq (L_pipe pi) (unchan p r))"
    if "length (pipe_items (pipes r pi)) < 512" for r :: "'a files_scheme"
    using that pipe_full[of "pipes r pi"] by (simp add: bind_def pipe_of_def reads_def ret_def)
  ultimately show ?thesis unfolding pipewrite_room_def
    using sleep_until_sleeps[where s = s and t = ?s and p = p and body = ?body and lk = "L_pipe pi" and n = "patience s"
        and ch = "C_pipe_nwrite pi" and a = "\<lambda>_. True" and g = "\<lambda>r. acq (L_pipe pi) (unchan p r)"
        and P = "\<lambda>r. length (pipe_items (pipes r pi)) < 512"] d n by simp
qed

text \<open>The code of \<open>pipewrite\<close> from its loop on, at byte \<open>i\<close>.\<close>

definition pipewrite_rest :: "addr \<Rightarrow> nat \<Rightarrow> uint64 \<Rightarrow> int \<Rightarrow> nat \<Rightarrow> ('z files_scheme, int) op" where
  "pipewrite_rest pi pr va n i =
     bind (pipewrite_from pi pr va i (nat n - i)) (\<lambda>r.
     case r of
       None \<Rightarrow> ret (-1)
     | Some i \<Rightarrow>
         bind (wakeup (C_pipe_nread pi)) (\<lambda>_.
         bind (release (L_pipe pi)) (\<lambda>_.
         ret (int i))))"

lemma pipewrite_rest_0:
  "pipe_user p pi ps F s \<Longrightarrow> pipewrite pi va n s = pipewrite_rest pi p va n 0 (acq (L_pipe pi) s)"
  using pipe_userD[of p pi ps F s]
  by (simp add: pipewrite_def pipewrite_rest_def bind_def [of curp] bind_def [of "acquire lk" for lk] acquire_eq)

lemma pipewrite_end:
  assumes "pipe_user p pi ps F s"
  shows "bind (wakeup (C_pipe_nread pi)) (\<lambda>_. bind (release (L_pipe pi)) (\<lambda>_. ret v)) (acq (L_pipe pi) s)
    = Ret v (wake (C_pipe_nread pi) s)"
  using wakeup_eq[of "acq (L_pipe pi) s"] pipe_userD[OF assms] by (simp add: bind_def release_acq ret_def)

lemma pipewrite_rest_steps:
  assumes "pipe_user p pi ps F s" "m \<le> nat n" "length (pipe_items (pipes s pi)) + m \<le> 512"
    and "\<And>j. j < m \<Longrightarrow> uacc F (va + of_nat j)"
  shows "pipewrite_rest pi p va n 0 (acq (L_pipe pi) s) = pipewrite_rest pi p va n m
       (acq (L_pipe pi) (with_pipe pi (fold pipe_put (ubytes F (mem s) va m) (pipes s pi)) s))"
  using pipewrite_steps[OF assms(1,3), of va 0 "nat n - m"] assms(2,4)
  by (simp add: pipewrite_rest_def bind_def)

lemma pipewrite_rest_stop:
  assumes "pipe_user p pi ps F s"
    and "m = nat n \<or> (length (pipe_items (pipes s pi)) < 512 \<and> m < nat n \<and> \<not> uacc F (va + of_nat m))"
  shows "pipewrite_rest pi p va n m (acq (L_pipe pi) s) = Ret (int m) (wake (C_pipe_nread pi) s)"
proof -
  have "pipewrite_from pi p va m (nat n - m) (acq (L_pipe pi) s) = Ret (Some m) (acq (L_pipe pi) s)"
  proof (cases "m = nat n")
    case True
    then show ?thesis by (simp add: ret_def)
  next
    case False
    then have "nat n - m = Suc (nat n - Suc m)" using assms(2) by auto
    then show ?thesis using pipewrite_step(2)[OF assms(1)] False assms(2) by auto
  qed
  then show ?thesis using pipewrite_end[OF assms(1), of "int m"]
    by (simp add: pipewrite_rest_def bind_def [of "pipewrite_from pi p va m k" for k])
qed

lemma pipewrite_rest_room:
  assumes "m < nat n" "pipewrite_room pi p t = r"
  shows "r = Ret False s \<Longrightarrow> pipewrite_rest pi p va n m t = Ret (-1) s"
    "r = Swtch s k \<Longrightarrow> \<exists>k'. pipewrite_rest pi p va n m t = Swtch s k' \<and>
       (\<forall>v u. pipewrite_room pi p u = Ret True u \<longrightarrow> k v = Ret True u \<longrightarrow> k' v = pipewrite_rest pi p va n m u)"
proof -
  have e: "nat n - m = Suc (nat n - Suc m)" using assms(1) by auto
  show "r = Ret False s \<Longrightarrow> pipewrite_rest pi p va n m t = Ret (-1) s"
    using assms(2) by (simp add: pipewrite_rest_def e bind_def ret_def)
  show "r = Swtch s k \<Longrightarrow> \<exists>k'. pipewrite_rest pi p va n m t = Swtch s k' \<and>
       (\<forall>v u. pipewrite_room pi p u = Ret True u \<longrightarrow> k v = Ret True u \<longrightarrow> k' v = pipewrite_rest pi p va n m u)"
    using assms(2) by (simp add: pipewrite_rest_def e bind_def)
qed

lemma fold_pipe_put:
  "readopen (fold pipe_put xs q) = readopen q" "writeopen (fold pipe_put xs q) = writeopen q"
  by (induction xs arbitrary: q) (simp_all add: pipe_put_def)

text \<open>
  C20. Writing to a pipe. The bytes of the user range go to the end of the queue in order,
  as far as the range is accessible and the queue has room: \<open>m\<close> bytes. When that is the
  whole range, or the next byte is not accessible, the call wakes the readers and returns
  \<open>m\<close>. When the pipe is full with bytes left, it returns -1 if the read end is closed or
  the process is killed; otherwise it wakes the readers and sleeps, and a process that
  runs again and finds room goes on with the next byte.
\<close>

theorem pipewrite_appends:
  fixes s :: "'z files_scheme"
  assumes u: "pipe_user p pi ps F s" and n0: "noff_of s = 0" and m: "m \<le> nat n"
    and room: "length (pipe_items (pipes s pi)) + m \<le> 512"
    and acc: "\<And>j. j < m \<Longrightarrow> uacc F (va + of_nat j)"
  shows "\<exists>q. pipe_ok q \<and> pipe_items q = pipe_items (pipes s pi) @ ubytes F (mem s) va m
    \<and> readopen q = readopen (pipes s pi) \<and> writeopen q = writeopen (pipes s pi)
    \<and> (m = nat n \<or> (length (pipe_items q) < 512 \<and> m < nat n \<and> \<not> uacc F (va + of_nat m)) \<longrightarrow>
      pipewrite pi va n s = Ret (int m) (wake (C_pipe_nread pi) (with_pipe pi q s)))
    \<and> (m < nat n \<longrightarrow> length (pipe_items q) = 512 \<longrightarrow> \<not> readopen q \<or> killed (ptable s p) \<longrightarrow>
      pipewrite pi va n s = Ret (-1) (with_pipe pi q s))
    \<and> (m < nat n \<longrightarrow> length (pipe_items q) = 512 \<longrightarrow> readopen q \<longrightarrow> \<not> killed (ptable s p) \<longrightarrow>
      (\<exists>k. pipewrite pi va n s =
          Swtch (acq (L_proc p) (asleep p (C_pipe_nwrite pi) (wake (C_pipe_nread pi) (with_pipe pi q s)))) k \<and>
        (\<forall>r. thread p r \<longrightarrow> noff_of r = 0 \<longrightarrow> intr_of r = intr_of s \<longrightarrow> locks r (L_pipe pi) = free_lock \<longrightarrow>
          length (pipe_items (pipes r pi)) < 512 \<longrightarrow> 0 < patience s \<longrightarrow>
          k (acq (L_proc p) r) = pipewrite_rest pi p va n m (acq (L_pipe pi) (unchan p r)))))"
proof -
  define q where "q = fold pipe_put (ubytes F (mem s) va m) (pipes s pi)"
  have q: "pipe_ok q \<and> pipe_items q = pipe_items (pipes s pi) @ ubytes F (mem s) va m"
    unfolding q_def using pipe_userD(4)[OF u] room by (intro pq.puts_spec) (simp_all add: ubytes_def)
  have ends: "readopen q = readopen (pipes s pi)" "writeopen q = writeopen (pipes s pi)"
    by (simp_all add: q_def fold_pipe_put)
  let ?s = "with_pipe pi q s"
  have u': "pipe_user p pi ps F ?s" using u q by simp
  have run: "pipewrite pi va n s = pipewrite_rest pi p va n m (acq (L_pipe pi) ?s)"
    using pipewrite_rest_0[OF u] pipewrite_rest_steps[OF u m room acc] by (simp add: q_def)
  have stops: "m = nat n \<or> (length (pipe_items q) < 512 \<and> m < nat n \<and> \<not> uacc F (va + of_nat m)) \<Longrightarrow>
      pipewrite pi va n s = Ret (int m) (wake (C_pipe_nread pi) ?s)"
    using pipewrite_rest_stop[OF u', of m n va] run by simp
  have gone: "m < nat n \<Longrightarrow> length (pipe_items q) = 512 \<Longrightarrow> \<not> readopen q \<or> killed (ptable s p) \<Longrightarrow>
      pipewrite pi va n s = Ret (-1) ?s"
    using pipewrite_rest_room(1)[OF _ room_closed[OF u'] refl] run by simp
  have sleeps: "\<exists>k. pipewrite pi va n s =
      Swtch (acq (L_proc p) (asleep p (C_pipe_nwrite pi) (wake (C_pipe_nread pi) ?s))) k \<and>
        (\<forall>r. thread p r \<longrightarrow> noff_of r = 0 \<longrightarrow> intr_of r = intr_of s \<longrightarrow> locks r (L_pipe pi) = free_lock \<longrightarrow>
          length (pipe_items (pipes r pi)) < 512 \<longrightarrow> 0 < patience s \<longrightarrow>
          k (acq (L_proc p) r) = pipewrite_rest pi p va n m (acq (L_pipe pi) (unchan p r)))"
    if f: "m < nat n" "length (pipe_items q) = 512" "readopen q" "\<not> killed (ptable s p)"
  proof -
    obtain k where k: "pipewrite_room pi p (acq (L_pipe pi) ?s) =
        Swtch (acq (L_proc p) (asleep p (C_pipe_nwrite pi) (wake (C_pipe_nread pi) ?s))) k"
      "\<And>r. thread p r \<Longrightarrow> noff_of r = 0 \<Longrightarrow> intr_of r = intr_of s \<Longrightarrow> locks r (L_pipe pi) = free_lock \<Longrightarrow>
        length (pipe_items (pipes r pi)) < 512 \<Longrightarrow> 0 < patience s \<Longrightarrow>
        k (acq (L_proc p) r) = Ret True (acq (L_pipe pi) (unchan p r))"
      using room_sleeps[OF u'] n0 f by auto
    show ?thesis
      using pipewrite_rest_room(2)[OF f(1) k(1) refl, of va] k(2) run room_ok[of "unchan p r" for r]
      by (metis pipes_update_frame(8))
  qed
  show ?thesis using q ends stops gone sleeps by (intro exI[of _ q]) blast
qed

section \<open>piperead\<close>

text \<open>User memory after the bytes \<open>xs\<close> have been stored from \<open>va\<close> on.\<close>

fun ustore :: "(uint64 \<Rightarrow> uint64) \<Rightarrow> uint64 \<Rightarrow> uchar list \<Rightarrow> memory \<Rightarrow> memory" where
  "ustore F va [] m = m"
| "ustore F va (x # xs) m = ustore F (va + 1) xs (m(uaddr F va := x))"

lemma copyout_byte:
  assumes us: "uspace s pt ps F"
  shows "copyout pt va (\<lambda>_. x) 1 s = (if uacc F va then Ret 0 (s\<lparr>mem := (mem s)(uaddr F va := x)\<rparr>) else Ret (-1) s)"
proof (cases "uacc F va")
  case True
  then obtain m where m: "copyout pt va (\<lambda>_. x) 1 s = Ret 0 (s\<lparr>mem := m\<rparr>)" "uwritten F va (\<lambda>_. x) 1 (mem s) m"
    using copyout_spec[OF us, of va "\<lambda>_. x" 1] by (auto simp: all_uacc_def)
  then have "m = (mem s)(uaddr F va := x)" by (auto simp: uwritten_def fun_eq_iff)
  then show ?thesis using m(1) True by simp
next
  case False
  then show ?thesis using copyout_step[OF us, of 1] by simp
qed

lemma uspace_store:
  assumes "uspace s pt ps F" "uacc F va"
  shows "uspace (s\<lparr>mem := (mem s)(uaddr F va := x)\<rparr>) pt ps F"
  using assms(1)
proof (rule uspace_write)
  fix b assume "\<forall>p \<in> user_frames F. \<not> in_page p b"
  then have "b \<noteq> uaddr F va" using assms(2) uaddr_in_page[of F va] by (auto simp: user_frames_def)
  then show "((mem s)(uaddr F va := x)) b = mem s b" by simp
qed

lemma piperead_step:
  assumes u: "pipe_user p pi ps F s" and some: "pipe_items (pipes s pi) \<noteq> []"
  shows "piperead_from pi p va i (Suc k) (acq (L_pipe pi) s) =
    (if uacc F (va + of_nat i) then piperead_from pi p va (Suc i) k (acq (L_pipe pi)
       ((with_pipe pi (pipe_adv (pipes s pi)) s)\<lparr>mem := (mem s)(uaddr F (va + of_nat i) := pipe_front (pipes s pi))\<rparr>))
     else Ret i (acq (L_pipe pi) (with_pipe pi (pipe_adv (pipes s pi)) s)))"
proof -
  note d = pipe_userD[OF u]
  let ?s = "with_pipe pi (pipe_adv (pipes s pi)) s"
  have us: "uspace (acq (L_pipe pi) ?s) (pagetable (ptable s p)) ps F" using d by simp
  have ne: "nread (pipes s pi) \<noteq> nwrite (pipes s pi)" using some pipe_empty[of "pipes s pi"] by simp
  have "update_pipe pi (\<lambda>q. q\<lparr>nread := nread q + 1\<rparr>) (acq (L_pipe pi) s) = Ret () (acq (L_pipe pi) ?s)"
    by (simp add: update_pipe_def modify_def with_pipe_def pipe_adv_def)
  then show ?thesis using ne copyout_byte[OF us, of "va + of_nat i" "pipe_front (pipes s pi)"]
    by (simp add: bind_def pipe_of_def proc_of_def reads_def ret_def pipe_front_def)
qed

lemma thread_mem [simp]: "thread p (s\<lparr>mem := m\<rparr>) = thread p s"
  by (rule thread_cong) simp_all

text \<open>The state after \<open>m\<close> bytes have been read to \<open>va\<close>.\<close>

definition drained :: "addr \<Rightarrow> (uint64 \<Rightarrow> uint64) \<Rightarrow> uint64 \<Rightarrow> nat \<Rightarrow> 'z files_scheme \<Rightarrow> 'z files_scheme" where
  "drained pi F va m s = (with_pipe pi ((pipe_adv ^^ m) (pipes s pi)) s)
     \<lparr>mem := ustore F va (take m (pipe_items (pipes s pi))) (mem s)\<rparr>"

lemma drained_0 [simp]: "drained pi F va 0 s = s"
  by (simp add: drained_def)

lemma drained_Suc:
  assumes "pipe_ok (pipes s pi)" "pipe_items (pipes s pi) \<noteq> []"
  shows "drained pi F va (Suc m) s = drained pi F (va + 1) m
    ((with_pipe pi (pipe_adv (pipes s pi)) s)\<lparr>mem := (mem s)(uaddr F va := pipe_front (pipes s pi))\<rparr>)"
proof -
  have "pipe_items (pipes s pi) = pipe_front (pipes s pi) # pipe_items (pipe_adv (pipes s pi))"
    using pq.adv_spec[OF assms] by blast
  then have "take (Suc m) (pipe_items (pipes s pi)) = pipe_front (pipes s pi) # take m (pipe_items (pipe_adv (pipes s pi)))"
    by (metis take_Suc_Cons)
  then show ?thesis by (simp add: drained_def with_pipe_def funpow_swap1)
qed

lemma pipe_user_next:
  assumes u: "pipe_user p pi ps F s" and some: "pipe_items (pipes s pi) \<noteq> []" and acc: "uacc F va"
  shows "pipe_user p pi ps F
    ((with_pipe pi (pipe_adv (pipes s pi)) s)\<lparr>mem := (mem s)(uaddr F va := pipe_front (pipes s pi))\<rparr>)"
    (is "pipe_user _ _ _ _ (?s\<lparr>mem := ?m\<rparr>)")
proof -
  have q: "pipe_ok (pipe_adv (pipes s pi))" using pq.adv_spec[OF pipe_userD(4)[OF u] some] by simp
  have "uspace (?s\<lparr>mem := (mem ?s)(uaddr F va := pipe_front (pipes s pi))\<rparr>) (pagetable (ptable ?s p)) ps F"
    using pipe_userD(5)[OF u] acc by (intro uspace_store) simp_all
  then show ?thesis using u q by (simp add: pipe_user_def with_pipe_def)
qed

lemma piperead_steps:
  assumes "pipe_user p pi ps F s" "m \<le> length (pipe_items (pipes s pi))"
    and "\<And>j. j < m \<Longrightarrow> uacc F (va + of_nat (i + j))"
  shows "pipe_user p pi ps F (drained pi F (va + of_nat i) m s) \<and>
    piperead_from pi p va i (m + k) (acq (L_pipe pi) s) =
    piperead_from pi p va (i + m) k (acq (L_pipe pi) (drained pi F (va + of_nat i) m s))"
  using assms
proof (induction m arbitrary: i s)
  case 0
  then show ?case by simp
next
  case (Suc m)
  let ?s = "(with_pipe pi (pipe_adv (pipes s pi)) s)
    \<lparr>mem := (mem s)(uaddr F (va + of_nat i) := pipe_front (pipes s pi))\<rparr>"
  note d = pipe_userD[OF Suc.prems(1)]
  have some: "pipe_items (pipes s pi) \<noteq> []" using Suc.prems(2) by auto
  have acc: "uacc F (va + of_nat i)" using Suc.prems(3)[of 0] by simp
  have len: "m \<le> length (pipe_items (pipes ?s pi))"
    using pq.adv_spec[OF d(4) some] Suc.prems(2) by (simp add: with_pipe_def)
  have "uacc F (va + of_nat (Suc i + j))" if "j < m" for j using Suc.prems(3)[of "Suc j"] that by simp
  then have "pipe_user p pi ps F (drained pi F (va + of_nat (Suc i)) m ?s) \<and>
    piperead_from pi p va (Suc i) (m + k) (acq (L_pipe pi) ?s) =
    piperead_from pi p va (Suc i + m) k (acq (L_pipe pi) (drained pi F (va + of_nat (Suc i)) m ?s))"
    using pipe_user_next[OF Suc.prems(1) some acc] len by (intro Suc.IH)
  then show ?case
    using piperead_step[OF Suc.prems(1) some, of va i "m + k"] acc drained_Suc[OF d(4) some, of F "va + of_nat i" m]
    by (simp add: add.assoc add.commute[of 1])
qed

lemma ustore_written:
  assumes "uspace s pt ps F" "all_uacc F va (length xs)"
  shows "uwritten F va (\<lambda>i. xs ! i) (length xs) m (ustore F va xs m)"
  using assms(2)
proof (induction xs arbitrary: va m)
  case Nil
  then show ?case by (simp add: uwritten_def)
next
  case (Cons x xs)
  let ?m = "m(uaddr F va := x)"
  have acc: "all_uacc F va 1" "all_uacc F (va + 1) (length xs)"
    using Cons.prems by (auto simp: all_uacc_def add.assoc dest: spec[of _ "Suc i" for i])
  have w1: "uwritten F va (\<lambda>i. (x # xs) ! i) 1 m ?m" by (simp add: uwritten_def)
  have w2: "uwritten F (va + of_nat 1) (\<lambda>i. (x # xs) ! (1 + i)) (length xs) ?m (ustore F (va + 1) xs ?m)"
    using Cons.IH[OF acc(2), of ?m] by (simp del: fun_upd_apply)
  show ?case using uwritten_append[OF assms(1) _ w1 w2] Cons.prems by simp
qed

text \<open>Waiting for data.\<close>

definition may_read :: "pipe \<Rightarrow> bool" where
  "may_read q \<longleftrightarrow> pipe_items q \<noteq> [] \<or> \<not> writeopen q"

lemma may_read_iff: "nread q = nwrite q \<and> writeopen q \<longleftrightarrow> \<not> may_read q"
  by (auto simp: may_read_def pipe_empty)

lemma wait_passes:
  "may_read (pipes s pi) \<Longrightarrow> piperead_wait pi p (acq (L_pipe pi) s) = Ret True (acq (L_pipe pi) s)"
  by (simp add: piperead_wait_def sleep_until_def bind_def reads_def pipe_of_def ret_def may_read_iff)

lemma wait_killed:
  assumes "pipe_user p pi ps F s" "\<not> may_read (pipes s pi)" "killed (ptable s p)"
  shows "piperead_wait pi p (acq (L_pipe pi) s) = Ret False s"
  using assms(2,3) pipe_userD[OF assms(1)]
  by (simp add: piperead_wait_def sleep_until_def bind_def reads_def pipe_of_def proc_of_def ret_def
      may_read_iff release_acq)

lemma wait_sleeps:
  assumes u: "pipe_user p pi ps F s" and n: "noff_of s = 0" and none: "\<not> may_read (pipes s pi)"
    and alive: "\<not> killed (ptable s p)"
  shows "\<exists>k. piperead_wait pi p (acq (L_pipe pi) s) = Swtch (acq (L_proc p) (asleep p (C_pipe_nread pi) s)) k \<and>
    (\<forall>r. thread p r \<longrightarrow> noff_of r = 0 \<longrightarrow> intr_of r = intr_of s \<longrightarrow> locks r (L_pipe pi) = free_lock \<longrightarrow>
      may_read (pipes r pi) \<longrightarrow> 0 < patience s \<longrightarrow>
      k (acq (L_proc p) r) = Ret True (acq (L_pipe pi) (unchan p r)))"
proof -
  note d = pipe_userD[OF u]
  let ?body = "bind (pipe_of pi (\<lambda>q. nread q = nwrite q \<and> writeopen q)) (\<lambda>none.
        if \<not> none then ret (Some True) else
        bind (proc_of p killed) (\<lambda>k.
        if k then bind (release (L_pipe pi)) (\<lambda>_. ret (Some False)) else ret None))"
  have "?body (acq (L_pipe pi) s) = Ret None (acq (L_pipe pi) s)"
    using none alive by (simp add: bind_def pipe_of_def proc_of_def reads_def ret_def may_read_iff)
  moreover have "?body (acq (L_pipe pi) (unchan p r)) = Ret (Some True) (acq (L_pipe pi) (unchan p r))"
    if "may_read (pipes r pi)" for r :: "'a files_scheme"
    using that by (simp add: bind_def pipe_of_def reads_def ret_def may_read_iff)
  ultimately show ?thesis unfolding piperead_wait_def
    using sleep_until_sleeps[where s = s and t = s and p = p and body = ?body and lk = "L_pipe pi" and n = "patience s"
        and ch = "C_pipe_nread pi" and a = "\<lambda>_. True" and g = "\<lambda>r. acq (L_pipe pi) (unchan p r)"
        and P = "\<lambda>r. may_read (pipes r pi)"] d n by simp
qed

text \<open>The code of \<open>piperead\<close> after the wait.\<close>

definition piperead_rest :: "addr \<Rightarrow> nat \<Rightarrow> uint64 \<Rightarrow> int \<Rightarrow> ('z files_scheme, int) op" where
  "piperead_rest pi pr va n =
     bind (piperead_from pi pr va 0 (nat n)) (\<lambda>i.
     bind (wakeup (C_pipe_nwrite pi)) (\<lambda>_.
     bind (release (L_pipe pi)) (\<lambda>_.
     ret (int i))))"

lemma piperead_unfold:
  assumes "pipe_user p pi ps F s"
  shows "piperead pi va n s =
    bind (piperead_wait pi p) (\<lambda>ok. if \<not> ok then ret (-1) else piperead_rest pi p va n) (acq (L_pipe pi) s)"
  using pipe_userD[OF assms]
  by (simp add: piperead_def piperead_rest_def bind_def [of curp] bind_def [of "acquire lk" for lk] acquire_eq
      cong: if_cong)

lemma piperead_end:
  assumes "thread p s" "locks s (L_pipe pi) = free_lock"
  shows "bind (wakeup (C_pipe_nwrite pi)) (\<lambda>_. bind (release (L_pipe pi)) (\<lambda>_. ret v)) (acq (L_pipe pi) s)
    = Ret v (wake (C_pipe_nwrite pi) s)"
  using wakeup_eq[of "acq (L_pipe pi) s"] threadD[OF assms(1)] assms by (simp add: bind_def release_acq ret_def)

lemma piperead_rest_eq:
  assumes u: "pipe_user p pi ps F s" and m: "m \<le> nat n" "m \<le> length (pipe_items (pipes s pi))"
    and acc: "\<And>j. j < m \<Longrightarrow> uacc F (va + of_nat j)"
  shows "m = nat n \<or> m = length (pipe_items (pipes s pi)) \<Longrightarrow>
      piperead_rest pi p va n (acq (L_pipe pi) s) = Ret (int m) (wake (C_pipe_nwrite pi) (drained pi F va m s))"
    and "m < nat n \<Longrightarrow> m < length (pipe_items (pipes s pi)) \<Longrightarrow> \<not> uacc F (va + of_nat m) \<Longrightarrow>
      piperead_rest pi p va n (acq (L_pipe pi) s) = Ret (int m) (wake (C_pipe_nwrite pi)
        (with_pipe pi ((pipe_adv ^^ Suc m) (pipes s pi)) (drained pi F va m s)))"
proof -
  let ?t = "drained pi F va m s"
  have st: "pipe_user p pi ps F ?t" "piperead_from pi p va 0 (nat n) (acq (L_pipe pi) s) =
      piperead_from pi p va m (nat n - m) (acq (L_pipe pi) ?t)"
    using piperead_steps[OF u m(2), of va 0 "nat n - m"] m(1) acc by simp_all
  have items: "pipes ?t pi = (pipe_adv ^^ m) (pipes s pi)"
      "pipe_items (pipes ?t pi) = drop m (pipe_items (pipes s pi))"
    using pq.advs_spec[OF pipe_userD(4)[OF u] m(2)] by (simp_all add: drained_def)
  show "piperead_rest pi p va n (acq (L_pipe pi) s) = Ret (int m) (wake (C_pipe_nwrite pi) ?t)"
    if stop: "m = nat n \<or> m = length (pipe_items (pipes s pi))"
  proof -
    have "piperead_from pi p va m (nat n - m) (acq (L_pipe pi) ?t) = Ret m (acq (L_pipe pi) ?t)"
      using stop items(2) pipe_empty[of "pipes ?t pi"]
      by (cases "nat n - m") (auto simp: bind_def pipe_of_def reads_def ret_def)
    then show ?thesis using st piperead_end[of p ?t pi "int m"] pipe_userD[OF st(1)]
      by (simp add: piperead_rest_def bind_def [of "piperead_from pi p va i k" for i k])
  qed
  show "piperead_rest pi p va n (acq (L_pipe pi) s) = Ret (int m) (wake (C_pipe_nwrite pi)
        (with_pipe pi ((pipe_adv ^^ Suc m) (pipes s pi)) ?t))"
    if fault: "m < nat n" "m < length (pipe_items (pipes s pi))" "\<not> uacc F (va + of_nat m)"
  proof -
    let ?u = "with_pipe pi ((pipe_adv ^^ Suc m) (pipes s pi)) ?t"
    have "nat n - m = Suc (nat n - Suc m)" using fault(1) by simp
    then have "piperead_from pi p va m (nat n - m) (acq (L_pipe pi) ?t) = Ret m (acq (L_pipe pi) ?u)"
      using piperead_step[OF st(1), of va m "nat n - Suc m"] items fault by simp
    then show ?thesis using st(2) piperead_end[of p ?u pi "int m"] pipe_userD[OF st(1)]
      by (simp add: piperead_rest_def bind_def [of "piperead_from pi p va i k" for i k])
  qed
qed

text \<open>
  C21. Reading from a pipe. A reader that finds the queue empty and the write end open
  returns -1 when it is killed and otherwise sleeps; when it runs again with a byte there
  or the write end closed, it reads. It takes the first \<open>m\<close> bytes of the queue in order,
  up to the number asked for or the end of the queue, stores them at the user range and
  nowhere else, wakes the writers and returns \<open>m\<close>. When byte \<open>m\<close> of the range is not
  accessible it returns \<open>m\<close> too, but byte \<open>m\<close> of the queue is gone.
\<close>

theorem piperead_takes:
  fixes s :: "'z files_scheme"
  assumes u: "pipe_user p pi ps F s" and n0: "noff_of s = 0"
    and m: "m \<le> nat n" "m \<le> length (pipe_items (pipes s pi))"
    and acc: "\<And>j. j < m \<Longrightarrow> uacc F (va + of_nat j)"
  shows "(may_read (pipes s pi) \<longrightarrow>
      (if m < nat n \<and> m < length (pipe_items (pipes s pi)) then
         \<not> uacc F (va + of_nat m) \<longrightarrow> (\<exists>t. piperead pi va n s = Ret (int m) t \<and>
           pipe_items (pipes t pi) = drop (Suc m) (pipe_items (pipes s pi)))
       else \<exists>t. piperead pi va n s = Ret (int m) t \<and>
         pipe_ok (pipes t pi) \<and> pipe_items (pipes t pi) = drop m (pipe_items (pipes s pi)) \<and>
         uwritten F va (\<lambda>i. pipe_items (pipes s pi) ! i) m (mem s) (mem t) \<and>
         (\<forall>i < NPROC. ptable t i = woken (C_pipe_nwrite pi) (ptable s i))))
    \<and> (\<not> may_read (pipes s pi) \<longrightarrow> killed (ptable s p) \<longrightarrow> piperead pi va n s = Ret (-1) s)
    \<and> (\<not> may_read (pipes s pi) \<longrightarrow> \<not> killed (ptable s p) \<longrightarrow>
      (\<exists>k. piperead pi va n s = Swtch (acq (L_proc p) (asleep p (C_pipe_nread pi) s)) k \<and>
        (\<forall>r. thread p r \<longrightarrow> noff_of r = 0 \<longrightarrow> intr_of r = intr_of s \<longrightarrow> locks r (L_pipe pi) = free_lock \<longrightarrow>
          may_read (pipes r pi) \<longrightarrow> 0 < patience s \<longrightarrow>
          k (acq (L_proc p) r) = piperead_rest pi p va n (acq (L_pipe pi) (unchan p r)))))"
proof (intro conjI impI)
  let ?q = "pipes s pi"
  note run = piperead_unfold[OF u, of va n] and d = pipe_userD[OF u]
  have adv: "pipe_ok ((pipe_adv ^^ j) ?q)" "pipe_items ((pipe_adv ^^ j) ?q) = drop j (pipe_items ?q)"
    if "j \<le> length (pipe_items ?q)" for j using pq.advs_spec[OF d(4) that] by simp_all
  show "if m < nat n \<and> m < length (pipe_items ?q) then
         \<not> uacc F (va + of_nat m) \<longrightarrow> (\<exists>t. piperead pi va n s = Ret (int m) t \<and>
           pipe_items (pipes t pi) = drop (Suc m) (pipe_items ?q))
       else \<exists>t. piperead pi va n s = Ret (int m) t \<and>
         pipe_ok (pipes t pi) \<and> pipe_items (pipes t pi) = drop m (pipe_items ?q) \<and>
         uwritten F va (\<lambda>i. pipe_items ?q ! i) m (mem s) (mem t) \<and>
         (\<forall>i < NPROC. ptable t i = woken (C_pipe_nwrite pi) (ptable s i))" if "may_read ?q"
  proof (cases "m < nat n \<and> m < length (pipe_items ?q)")
    case True
    then show ?thesis
      using run wait_passes[OF that] piperead_rest_eq(2)[OF u m acc] adv(2)[of "Suc m"] by (auto simp: bind_def)
  next
    case False
    have "uwritten F va (\<lambda>i. take m (pipe_items ?q) ! i) m (mem s) (ustore F va (take m (pipe_items ?q)) (mem s))"
      using ustore_written[OF d(5), of va "take m (pipe_items ?q)" "mem s"] m acc by (simp add: all_uacc_def)
    then show ?thesis
      using run wait_passes[OF that] piperead_rest_eq(1)[OF u m acc] False m adv[OF m(2)]
      by (auto simp: bind_def drained_def uwritten_def wake_def)
  qed
  show "piperead pi va n s = Ret (-1) s" if "\<not> may_read ?q" "killed (ptable s p)"
    using run wait_killed[OF u that] by (simp add: bind_def ret_def)
  show "\<exists>k. piperead pi va n s = Swtch (acq (L_proc p) (asleep p (C_pipe_nread pi) s)) k \<and>
        (\<forall>r. thread p r \<longrightarrow> noff_of r = 0 \<longrightarrow> intr_of r = intr_of s \<longrightarrow> locks r (L_pipe pi) = free_lock \<longrightarrow>
          may_read (pipes r pi) \<longrightarrow> 0 < patience s \<longrightarrow>
          k (acq (L_proc p) r) = piperead_rest pi p va n (acq (L_pipe pi) (unchan p r)))"
    if "\<not> may_read ?q" "\<not> killed (ptable s p)"
    using run wait_sleeps[OF u n0 that] by (auto simp: bind_def)
qed

section \<open>A concrete pipe\<close>

text \<open>A process with the memory and address space of \<open>k\<close>, and a pipe \<open>q\<close>.\<close>

definition files0 :: "kmem \<Rightarrow> pipe \<Rightarrow> files" where
  "files0 k q = log.extend ((log0 idle_buf 0)\<lparr>mem := mem k, freelist := freelist k, kend := kend k,
       ptable := (\<lambda>_. (mkproc RUNNING 1)\<lparr>pagetable := vm_page 0\<rparr>)\<rparr>)
     \<lparr>sb = \<lparr>sb_magic = FSMAGIC, sb_size = 1000, sb_nblocks = 954, sb_ninodes = 200, sb_nlog = 30,
        sb_logstart = 2, sb_inodestart = 32, sb_bmapstart = 45\<rparr>,
      icache = (\<lambda>_. \<lparr>idev = 0, inum = 0, iref = 0, ivalid = False, itype = 0, imajor = 0, iminor = 0, nlink = 0,
        isize = 0, iaddrs = (\<lambda>_. 0)\<rparr>),
      ftable = (\<lambda>_. \<lparr>ftype = FD_NONE, fref = 0, readable = False, writable = False, fpipe = 0, fip = None,
        foff = 0, fmajor = 0\<rparr>),
      pipes = (\<lambda>_. q), devsw_read = (\<lambda>_. None), devsw_write = (\<lambda>_. None), junk = (\<lambda>_. 0), \<dots> = ()\<rparr>"

lemma files0_sel [simp]:
  "pipes (files0 k q) pi = q" "mem (files0 k q) = mem k" "freelist (files0 k q) = freelist k" "kend (files0 k q) = kend k"
  "pagetable (ptable (files0 k q) i) = vm_page 0" "killed (ptable (files0 k q) i) = False"
  "locks (files0 k q) lk = free_lock"
  using log0_sel(12)[of idle_buf 0 lk] by (simp_all add: files0_def log.defs mkproc_def)

lemma files0_thread [simp]: "thread 0 (files0 k q)" "noff_of (files0 k q) = 0"
proof -
  let ?s = "log0 idle_buf 0"
  have f: "tp (files0 k q) = tp ?s" "harts (files0 k q) = harts ?s" "cpus (files0 k q) = cpus ?s" "locks (files0 k q) = locks ?s"
    by (simp_all add: files0_def log.defs)
  then show "thread 0 (files0 k q)" using thread_cong(1)[OF f] by simp
  have "noff_of ?s = noff_of (sleep0 sl_free)" by (simp add: noff_of_def log0_def sleeplocks.defs)
  then show "noff_of (files0 k q) = 0" using f sleep0_ok(2)[of sl_free] by (simp add: noff_of_def)
qed

lemma files0_user:
  assumes "uspace k (vm_page 0) ps F" "pipe_ok q"
  shows "pipe_user 0 pi ps F (files0 k q)"
proof -
  have "cpu_ok k" "locks k L_kmem = free_lock" using assms(1) by (simp_all add: uspace_def vmspace_def kmem_free_def)
  then have "uspace (files0 k q) (vm_page 0) ps F"
    using uspace_cong[of "files0 k q" k] assms(1) threadD(1)[OF files0_thread(1)] by simp
  then show ?thesis using assms(2) by (simp add: pipe_user_def)
qed

definition pipe0 :: pipe where
  "pipe0 = \<lparr>pdata = (\<lambda>i. of_nat i), nread = 0xffffffff, nwrite = 1, readopen = True, writeopen = True\<rparr>"

lemma pipe0_items: "pipe_items pipe0 = [255, 0]" "pipe_ok pipe0"
  by (simp_all add: pipe_items_def ring_items_def pipe0_def pipe_ok_def upt_rec)

theorem pipewrite_appends_witness:
  "\<exists>k F q. uacc F 16 \<and> pipe_items q = [255, 0, mem k (uaddr F 16)] \<and>
     pipewrite 0 16 1 (files0 k pipe0) = Ret 1 (wake (C_pipe_nread 0) (with_pipe 0 q (files0 k pipe0)))"
proof -
  obtain k :: kmem and ps F where k: "uspace k (vm_page 0) ps F" "\<forall>va. unat va < 4096 \<longrightarrow> uacc F va"
    using vm0_uspace by blast
  then have "uacc F 16" by simp
  then show ?thesis
    using pipewrite_appends[OF files0_user[OF k(1) pipe0_items(2), of 0], of 1 1 16] pipe0_items(1)
    by (fastforce simp: ubytes_def)
qed

theorem piperead_takes_witness:
  "\<exists>k t. piperead 0 16 1 (files0 k pipe0) = Ret 1 t \<and> pipe_items (pipes t 0) = [0]"
proof -
  obtain k :: kmem and ps F where k: "uspace k (vm_page 0) ps F" "\<forall>va. unat va < 4096 \<longrightarrow> uacc F va"
    using vm0_uspace by blast
  then have "uacc F 16" by simp
  then show ?thesis
    using piperead_takes[OF files0_user[OF k(1) pipe0_items(2), of 0], of 1 1 16] pipe0_items(1)
    by (fastforce simp: may_read_def)
qed

end
