(* ===== verification/FileProps.thy ===== *)
theory FileProps
  imports PipeProps
begin

unbundle bit_operations_syntax

text \<open>
  The table of open files: allocation, reference counts, and the life of a pipe from
  \<open>pipealloc\<close> to the last \<open>fileclose\<close>.
\<close>

section \<open>Frames\<close>

lemma ftable_frame [acq_simps, simp]:
  "ftable (acq lk s) = ftable s" "(acq lk s)\<lparr>ftable := f\<rparr> = acq lk (s\<lparr>ftable := f\<rparr>)"
  by (simp_all add: acq_def pushed_def noff_of_def intr_of_def)

definition with_file :: "nat \<Rightarrow> kfile \<Rightarrow> 'z files_scheme \<Rightarrow> 'z files_scheme" where
  "with_file f q s = s\<lparr>ftable := (ftable s)(f := q)\<rparr>"

lemma with_file_frame [simp]:
  "ftable (with_file f q s) = (ftable s)(f := q)" "with_file f q (acq lk s) = acq lk (with_file f q s)"
  "locks (with_file f q s) = locks s" "ptable (with_file f q s) = ptable s" "pipes (with_file f q s) = pipes s"
  "cpu_ok (with_file f q s) = cpu_ok s" "thread p (with_file f q s) = thread p s"
  "kmem_free (with_file f q s) = kmem_free s" "kmem_inv (with_file f q s) ps = kmem_inv s ps"
  "with_file f q (with_file f q' s) = with_file f q s"
  by (simp_all add: with_file_def acq_def pushed_def noff_of_def intr_of_def cpu_ok_def thread_def curproc_def
      procs_free_def kmem_free_def kmem_inv_def kernel_page_def)

text \<open>A free slot of the table has no type: nothing is left of the file that used it.\<close>

definition ftable_ok :: "(nat \<Rightarrow> kfile) \<Rightarrow> bool" where
  "ftable_ok t \<longleftrightarrow> (\<forall>f. 0 \<le> fref (t f) \<and> (fref (t f) = 0 \<longrightarrow> ftype (t f) = FD_NONE))"

definition file_env :: "nat \<Rightarrow> addr list \<Rightarrow> 'z files_scheme \<Rightarrow> bool" where
  "file_env p ps s \<longleftrightarrow> thread p s \<and> locks s L_ftable = free_lock \<and> kmem_free s \<and> kmem_inv s ps \<and> ftable_ok (ftable s)"

lemma file_envD:
  assumes "file_env p ps s"
  shows "thread p s" "cpu_ok s" "procs_free s" "locks s L_ftable = free_lock" "kmem_free s" "kmem_inv s ps"
    "ftable_ok (ftable s)"
  using assms threadD[of p s] by (simp_all add: file_env_def)

section \<open>filealloc, filedup, fileclose\<close>

lemma filealloc_none:
  assumes "file_env p ps s" "\<And>f. f < NFILE \<Longrightarrow> fref (ftable s f) \<noteq> 0"
  shows "filealloc s = Ret None s"
proof -
  have "for_first [0..<NFILE] (\<lambda>f. bind (file_of f fref) (\<lambda>r. if r = 0 then
      bind (update_file f (\<lambda>q. q\<lparr>fref := 1\<rparr>)) (\<lambda>_. bind (release L_ftable) (\<lambda>_. ret (Some f)))
      else ret None)) (acq L_ftable s) = Ret None (acq L_ftable s)"
    using assms(2) by (intro for_first_none) (auto simp: bind_def file_of_def reads_def ret_def)
  then show ?thesis using file_envD[OF assms(1)]
    by (simp add: filealloc_def bind_def [of "acquire L_ftable"] acquire_eq bind_def [of "for_first xs f" for xs f]
        bind_def [of "release L_ftable"] release_acq ret_def)
qed

lemma filealloc_first:
  assumes "file_env p ps s" "f < NFILE" "fref (ftable s f) = 0" "\<And>g. g < f \<Longrightarrow> fref (ftable s g) \<noteq> 0"
  shows "filealloc s = Ret (Some f) (with_file f ((ftable s f)\<lparr>fref := 1\<rparr>) s)"
proof -
  have "for_first ([0..<f] @ f # [Suc f..<NFILE]) (\<lambda>f. bind (file_of f fref) (\<lambda>r. if r = 0 then
      bind (update_file f (\<lambda>q. q\<lparr>fref := 1\<rparr>)) (\<lambda>_. bind (release L_ftable) (\<lambda>_. ret (Some f)))
      else ret None)) (acq L_ftable s) = Ret (Some f) (with_file f ((ftable s f)\<lparr>fref := 1\<rparr>) s)"
    using assms file_envD[OF assms(1)]
    by (intro for_first_hit) (auto simp: bind_def file_of_def update_file_def modify_def reads_def ret_def
        with_file_def[symmetric] release_acq)
  then show ?thesis using file_envD[OF assms(1)] upt_at[of 0 f NFILE] assms(2)
    by (simp add: filealloc_def bind_def [of "acquire L_ftable"] acquire_eq bind_def [of "for_first xs f" for xs f] ret_def)
qed

lemma filedup_eq:
  assumes "cpu_ok s" "locks s L_ftable = free_lock"
  shows "filedup f s = (if fref (ftable s f) < 1 then Panic ''filedup''
    else Ret f (with_file f ((ftable s f)\<lparr>fref := fref (ftable s f) + 1\<rparr>) s))"
  using assms by (simp add: filedup_def bind_def acquire_eq file_of_def update_file_def modify_def reads_def ret_def
      panic_def with_file_def[symmetric] release_acq)

lemma fileclose_shared:
  assumes "cpu_ok s" "locks s L_ftable = free_lock" "fref (ftable s f) \<noteq> 1"
  shows "fileclose f s = (if fref (ftable s f) < 1 then Panic ''fileclose''
    else Ret () (with_file f ((ftable s f)\<lparr>fref := fref (ftable s f) - 1\<rparr>) s))"
  using assms by (simp add: fileclose_def bind_def acquire_eq file_of_def update_file_def modify_def reads_def ret_def
      panic_def with_file_def[symmetric] release_acq)

definition closed :: "kfile \<Rightarrow> kfile" where
  "closed q = q\<lparr>fref := 0, ftype := FD_NONE\<rparr>"

lemma fileclose_last:
  assumes "cpu_ok s" "locks s L_ftable = free_lock" "fref (ftable s f) = 1"
  shows "ftype (ftable s f) = FD_PIPE \<Longrightarrow> fileclose f s =
      pipeclose (fpipe (ftable s f)) (writable (ftable s f)) (with_file f (closed (ftable s f)) s)"
    and "ftype (ftable s f) = FD_NONE \<Longrightarrow> fileclose f s = Ret () (with_file f (closed (ftable s f)) s)"
  using assms by (simp_all add: fileclose_def bind_def acquire_eq file_of_def update_file_def modify_def reads_def ret_def
      with_file_def[symmetric] release_acq closed_def)

lemma pipeclose_eq:
  assumes "thread p s" "locks s (L_pipe pi) = free_lock"
  shows "pipeclose pi wr s =
    (let q = (if wr then (pipes s pi)\<lparr>writeopen := False\<rparr> else (pipes s pi)\<lparr>readopen := False\<rparr>);
         t = wake (if wr then C_pipe_nread pi else C_pipe_nwrite pi) (with_pipe pi q s)
     in if readopen q \<or> writeopen q then Ret () t else kfree pi t)"
proof -
  have "wakeup ch (acq (L_pipe pi) (with_pipe pi q s)) = Ret () (acq (L_pipe pi) (wake ch (with_pipe pi q s)))" for ch q
    using wakeup_eq[of "acq (L_pipe pi) (with_pipe pi q s)"] threadD[OF assms(1)] by simp
  then show ?thesis using assms threadD[OF assms(1)]
    by (cases wr) (simp_all add: pipeclose_def bind_def acquire_eq update_pipe_def modify_def pipe_of_def reads_def
        with_pipe_def[symmetric] release_acq Let_def)
qed

section \<open>The life of a pipe\<close>

lemma wake_kmem [simp]:
  "kmem_free (wake ch s) = kmem_free s" "kmem_inv (wake ch s) ps = kmem_inv s ps"
  "kernel_page (wake ch s) = kernel_page s" "ftable (wake ch s) = ftable s"
  "kmem_free (with_pipe pi q s) = kmem_free s" "kmem_inv (with_pipe pi q s) ps = kmem_inv s ps"
  "kernel_page (with_pipe pi q s) = kernel_page s" "kernel_page (with_file f r s) = kernel_page s"
  "ftable (with_pipe pi q s) = ftable s"
  by (simp_all add: wake_def with_pipe_def with_file_def kmem_free_def kmem_inv_def kernel_page_def fun_eq_iff)

lemma after_kalloc_frame [simp]:
  "ftable (after_kalloc s) = ftable s" "locks (after_kalloc s) = locks s" "pipes (after_kalloc s) = pipes s"
  "thread p (after_kalloc s) = thread p s" "kernel_page (after_kalloc s) = kernel_page s"
  "ftable (after_kfree pg s) = ftable s" "locks (after_kfree pg s) = locks s" "thread p (after_kfree pg s) = thread p s"
proof -
  show "thread p (after_kalloc s) = thread p s" "thread p (after_kfree pg s) = thread p s"
    by (rule thread_cong; simp add: after_kalloc_def after_kfree_def)+
qed (simp_all add: after_kalloc_def after_kfree_def kernel_page_def fun_eq_iff)

lemma closing_free:
  assumes "file_env p ps s" "fref (ftable s f) = 1" "ftype (ftable s f) = FD_NONE"
  shows "fileclose f s = Ret () (with_file f (closed (ftable s f)) s) \<and> file_env p ps (with_file f (closed (ftable s f)) s)"
  using fileclose_last(2)[of s f] file_envD[OF assms(1)] assms
  by (simp add: file_env_def ftable_ok_def closed_def)

text \<open>The state of a process that has a pipe \<open>pg\<close> open in the files \<open>a\<close> (to read) and \<open>b\<close>.\<close>

definition pipe_open :: "nat \<Rightarrow> addr list \<Rightarrow> addr \<Rightarrow> nat \<Rightarrow> nat \<Rightarrow> 'z files_scheme \<Rightarrow> bool" where
  "pipe_open p ps pg a b s \<longleftrightarrow> file_env p ps s \<and> a \<noteq> b \<and> locks s (L_pipe pg) = free_lock \<and>
     kernel_page s pg \<and> pg \<notin> set ps \<and> readopen (pipes s pg) \<and> writeopen (pipes s pg) \<and>
     (\<forall>f \<in> {a, b}. fref (ftable s f) = 1 \<and> ftype (ftable s f) = FD_PIPE \<and> fpipe (ftable s f) = pg \<and>
        readable (ftable s f) = (f = a) \<and> writable (ftable s f) = (f = b))"

lemma close_both:
  assumes "pipe_open p ps pg a b s" "{x, y} = {a, b}"
  shows "\<exists>u v. fileclose x s = Ret () u \<and> kmem_inv u ps \<and> fileclose y u = Ret () v \<and>
    file_env p (pg # ps) v \<and> ftable v = (ftable s)(a := closed (ftable s a), b := closed (ftable s b))"
proof -
  note d = assms(1)[unfolded pipe_open_def] and e = file_envD[of p ps s]
  define u where "u = wake (if x = b then C_pipe_nread pg else C_pipe_nwrite pg)
    (with_pipe pg (if x = b then (pipes s pg)\<lparr>writeopen := False\<rparr> else (pipes s pg)\<lparr>readopen := False\<rparr>)
      (with_file x (closed (ftable s x)) s))"
  define v where "v = wake (if y = b then C_pipe_nread pg else C_pipe_nwrite pg)
    (with_pipe pg (if y = b then (pipes u pg)\<lparr>writeopen := False\<rparr> else (pipes u pg)\<lparr>readopen := False\<rparr>)
      (with_file y (closed (ftable u y)) u))"
  have xy: "x \<noteq> y" "x = a \<and> y = b \<or> x = b \<and> y = a" using assms(2) d by (auto simp: doubleton_eq_iff)
  have x: "fileclose x s = Ret () u"
    using fileclose_last(1)[of s x] pipeclose_eq[of p "with_file x (closed (ftable s x)) s" pg "x = b"] d e xy
    by (auto simp: u_def Let_def)
  have u: "thread p u" "cpu_ok u" "locks u = locks s" "ftable u = (ftable s)(x := closed (ftable s x))" "kmem_inv u ps"
    "kmem_free u" "kernel_page u = kernel_page s" "readopen (pipes u pg) = (x = b)" "writeopen (pipes u pg) = (x = a)"
    using d e xy by (auto simp: u_def)
  have v: "thread p v" "locks v = locks s" "ftable v = (ftable s)(a := closed (ftable s a), b := closed (ftable s b))"
    "kmem_inv v ps" "kmem_free v" "kernel_page v = kernel_page s"
    using u xy d by (auto simp: v_def fun_upd_twist)
  have "fileclose y u = kfree pg v"
    using fileclose_last(1)[of u y] pipeclose_eq[of p "with_file y (closed (ftable u y)) u" pg "y = b"] d e xy u
    by (auto simp: v_def Let_def)
  also have "\<dots> = Ret () (after_kfree pg v)" using kfree_eq[OF v(5), of pg] v(6) d by simp
  finally have y: "fileclose y u = Ret () (after_kfree pg v)" .
  have "kmem_inv (after_kfree pg v) (pg # ps)" using kmem_inv_kfree[OF v(4), of pg] v(6) d by simp
  moreover have "ftable_ok (ftable v)" using e(7) d v(3) by (simp add: ftable_ok_def closed_def)
  ultimately have "file_env p (pg # ps) (after_kfree pg v)"
    using v(1,2,5) e(4) d by (simp add: file_env_def)
  then show ?thesis using x y u(5) v(3) after_kalloc_frame(6)[of pg v] by metis
qed

text \<open>The free slots of the table in the order in which \<open>filealloc\<close> finds them.\<close>

definition free_slots :: "'z files_scheme \<Rightarrow> nat list" where
  "free_slots s = filter (\<lambda>f. fref (ftable s f) = 0) [0..<NFILE]"

lemma filter_upt_Cons:
  assumes "filter P [0..<n] = a # xs"
  shows "a < n" "P a" "\<And>g. g < a \<Longrightarrow> \<not> P g" "filter (\<lambda>i. i \<noteq> a \<and> P i) [0..<n] = xs"
proof -
  have "a \<in> set (filter P [0..<n])" using assms by simp
  then show a: "a < n" "P a" by auto
  have e: "[0..<n] = [0..<a] @ a # [Suc a..<n]" using a(1) upt_at[of 0 a n] by simp
  have sp: "filter P [0..<a] @ a # filter P [Suc a..<n] = a # xs" using assms a(2) unfolding e by simp
  have "filter P [0..<a] = []"
  proof (rule ccontr)
    assume "filter P [0..<a] \<noteq> []"
    then have "hd (filter P [0..<a]) = a" using sp by (metis hd_append2 list.sel(1))
    moreover have "hd (filter P [0..<a]) \<in> set (filter P [0..<a])" using \<open>filter P [0..<a] \<noteq> []\<close> by (rule hd_in_set)
    ultimately show False by simp
  qed
  then show "\<And>g. g < a \<Longrightarrow> \<not> P g" by (simp add: filter_empty_conv)
  have "filter (\<lambda>i. i \<noteq> a \<and> P i) [0..<a] = []" using \<open>filter P [0..<a] = []\<close> by (auto simp: filter_empty_conv)
  moreover have "filter (\<lambda>i. i \<noteq> a \<and> P i) [Suc a..<n] = filter P [Suc a..<n]" by (rule filter_cong) auto
  ultimately show "filter (\<lambda>i. i \<noteq> a \<and> P i) [0..<n] = xs"
    using sp \<open>filter P [0..<a] = []\<close> unfolding e by simp
qed

lemma filealloc_Nil: "file_env p ps s \<Longrightarrow> free_slots s = [] \<Longrightarrow> filealloc s = Ret None s"
  using filealloc_none[of p ps s] by (simp add: free_slots_def filter_empty_conv)

lemma filealloc_Cons:
  assumes "file_env p ps s" "free_slots s = a # xs"
  defines "t \<equiv> with_file a ((ftable s a)\<lparr>fref := 1\<rparr>) s"
  shows "filealloc s = Ret (Some a) t" "free_slots t = xs" "file_env p ps t" "a \<notin> set xs"
    "fref (ftable s a) = 0" "ftype (ftable s a) = FD_NONE"
proof -
  note f = filter_upt_Cons[OF assms(2)[unfolded free_slots_def]]
  show "filealloc s = Ret (Some a) t" unfolding t_def using filealloc_first[OF assms(1) f(1,2)] f(3) by simp
  have eq: "(fref (ftable t i) = 0) = (i \<noteq> a \<and> fref (ftable s i) = 0)" for i by (simp add: t_def)
  show "free_slots t = xs" unfolding free_slots_def eq by (rule f(4))
  show "file_env p ps t" using assms(1) by (simp add: t_def file_env_def ftable_ok_def)
  show "a \<notin> set xs" using f(4) by (auto simp: filter_eq_Cons_iff dest!: arg_cong[of _ _ set])
  show "fref (ftable s a) = 0" by (rule f(2))
  then show "ftype (ftable s a) = FD_NONE" using file_envD(7)[OF assms(1)] by (simp add: ftable_ok_def)
qed

lemma pipealloc_short:
  assumes "file_env p ps s"
  shows "free_slots s = [] \<Longrightarrow> pipealloc s = Ret None s"
    and "free_slots s = [a] \<Longrightarrow> \<exists>t. pipealloc s = Ret None t \<and> file_env p ps t \<and> ftable t = (ftable s)(a := closed (ftable s a))"
proof -
  show "free_slots s = [] \<Longrightarrow> pipealloc s = Ret None s"
    using filealloc_Nil[OF assms] by (simp add: pipealloc_def bind_def pipealloc_bad_def ret_def)
  assume one: "free_slots s = [a]"
  let ?t = "with_file a ((ftable s a)\<lparr>fref := 1\<rparr>) s"
  note a = filealloc_Cons[OF assms one]
  have "filealloc ?t = Ret None ?t" using filealloc_Nil[OF a(3,2)] .
  then show "\<exists>t. pipealloc s = Ret None t \<and> file_env p ps t \<and> ftable t = (ftable s)(a := closed (ftable s a))"
    using a closing_free[OF a(3), of a] by (simp add: pipealloc_def bind_def pipealloc_bad_def ret_def closed_def)
qed

lemma pipealloc_no_memory:
  assumes "file_env p [] s" "free_slots s = a # b # xs"
  shows "\<exists>t. pipealloc s = Ret None t \<and> file_env p [] t \<and>
    ftable t = (ftable s)(a := closed (ftable s a), b := closed (ftable s b))"
proof -
  let ?t = "with_file a ((ftable s a)\<lparr>fref := 1\<rparr>) s"
  let ?u = "with_file b ((ftable ?t b)\<lparr>fref := 1\<rparr>) ?t"
  note a = filealloc_Cons[OF assms]
  note b = filealloc_Cons[OF a(3,2)]
  have ab: "a \<noteq> b" using a(4) by auto
  have k: "kalloc ?u = Ret 0 ?u"
    using kalloc_eq[OF file_envD(5)[OF b(3)]] kmem_inv_Nil[OF file_envD(6)[OF b(3)]] by simp
  let ?v = "with_file a (closed (ftable ?u a)) ?u"
  have c: "fileclose a ?u = Ret () ?v" "file_env p [] ?v"
    using closing_free[OF b(3), of a] a(5,6) ab by simp_all
  have "fileclose b ?v = Ret () (with_file b (closed (ftable ?v b)) ?v)" "file_env p [] (with_file b (closed (ftable ?v b)) ?v)"
    using closing_free[OF c(2), of b] b(5,6) ab by simp_all
  then show ?thesis using a(1) b(1) k c(1) ab
    by (simp add: pipealloc_def bind_def pipealloc_bad_def ret_def closed_def fun_upd_twist)
qed

lemma locks_update_frame [simp]:
  "kmem_inv (s\<lparr>locks := l\<rparr>) ps = kmem_inv s ps" "kernel_page (s\<lparr>locks := l\<rparr>) = kernel_page s"
  "cpu_ok (s\<lparr>locks := l\<rparr>) = cpu_ok s" "curproc (s\<lparr>locks := l\<rparr>) = curproc s"
  by (simp_all add: kmem_inv_def kernel_page_def fun_eq_iff cpu_ok_def noff_of_def intr_of_def curproc_def)

lemma init_pipe_lock:
  assumes "thread p s" "kmem_free s" "locks s L_ftable = free_lock" "l = (locks s)(L_pipe pi := free_lock)"
  shows "thread p (s\<lparr>locks := l\<rparr>)" "kmem_free (s\<lparr>locks := l\<rparr>)"
  using assms by (simp_all add: thread_def kmem_free_def procs_free_def)

lemma pipealloc_opens:
  assumes "file_env p (pg # ps) s" "free_slots s = a # b # xs"
  shows "\<exists>t. pipealloc s = Ret (Some (a, b)) t \<and> pipe_open p ps pg a b t \<and> pipe_items (pipes t pg) = [] \<and>
    (\<forall>f. f \<noteq> a \<longrightarrow> f \<noteq> b \<longrightarrow> ftable t f = ftable s f)"
proof -
  let ?t = "with_file a ((ftable s a)\<lparr>fref := 1\<rparr>) s"
  let ?u = "with_file b ((ftable ?t b)\<lparr>fref := 1\<rparr>) ?t"
  note a = filealloc_Cons[OF assms]
  note b = filealloc_Cons[OF a(3,2)]
  have ab: "a \<noteq> b" using a(4) by auto
  note m = kmem_inv_kalloc[OF file_envD(6)[OF b(3)]]
  have k: "kalloc ?u = Ret pg (after_kalloc ?u)" using kalloc_eq[OF file_envD(5)[OF b(3)]] m(1) by simp
  let ?q = "(pipes s pg)\<lparr>readopen := True, writeopen := True, nwrite := 0, nread := 0\<rparr>"
  let ?fa = "(ftable s a)\<lparr>fref := 1, ftype := FD_PIPE, readable := True, writable := False, fpipe := pg\<rparr>"
  let ?fb = "(ftable s b)\<lparr>fref := 1, ftype := FD_PIPE, readable := False, writable := True, fpipe := pg\<rparr>"
  let ?w = "(with_pipe pg ?q (after_kalloc ?u))\<lparr>locks := (locks s)(L_pipe pg := free_lock)\<rparr>"
  let ?v = "with_file b ?fb (with_file a ?fa ?w)"
  have "pipealloc s = Ret (Some (a, b)) ?v"
    using a(1) b(1) k m(2) ab
    by (simp add: pipealloc_def bind_def ret_def update_pipe_def modify_def initlock_def free_lock_def update_file_def
        with_pipe_def with_file_def)
  moreover have "thread p ?w" "kmem_free ?w" using file_envD[OF b(3)] by (auto intro!: init_pipe_lock)
  moreover have "pipe_open p ps pg a b ?v"
    using ab m file_envD(1-6)[OF b(3)] file_envD(7)[OF assms(1)] \<open>thread p ?w\<close> \<open>kmem_free ?w\<close>
    unfolding pipe_open_def file_env_def by (simp add: ftable_ok_def)
  moreover have "pipe_items (pipes ?v pg) = []" using ab by (simp add: pipe_empty[symmetric])
  ultimately show ?thesis by (intro exI[of _ ?v]) auto
qed

text \<open>
  C22. The life of a pipe. With two free slots in the file table and a free page,
  \<open>pipealloc\<close> returns the two lowest free slots, open for reading and for writing on an
  empty pipe in that page. Closing the two files, in either order, gives the page back to
  the allocator at the second close and not before, and leaves every reference count as it
  was before \<open>pipealloc\<close>. Without two slots or a page, \<open>pipealloc\<close> fails and leaves the
  free pages and the reference counts as they were.
\<close>

theorem pipe_lifecycle:
  assumes env: "file_env p ps s"
  shows "case (free_slots s, ps) of
      (a # b # _, pg # qs) \<Rightarrow>
        (\<exists>t. pipealloc s = Ret (Some (a, b)) t \<and> pipe_open p qs pg a b t \<and> pipe_items (pipes t pg) = [] \<and>
          (\<forall>x y. {x, y} = {a, b} \<longrightarrow>
            (\<exists>u v. fileclose x t = Ret () u \<and> kmem_inv u qs \<and> fileclose y u = Ret () v \<and> file_env p ps v \<and>
              (\<forall>f. fref (ftable v f) = fref (ftable s f)))))
    | _ \<Rightarrow> \<exists>t. pipealloc s = Ret None t \<and> file_env p ps t \<and> (\<forall>f. fref (ftable t f) = fref (ftable s f))"
proof (cases "free_slots s")
  case Nil
  then show ?thesis using pipealloc_short(1)[OF env] env by simp
next
  case (Cons a xs)
  note fa = filealloc_Cons(5)[OF env Cons]
  show ?thesis
  proof (cases xs)
    case Nil
    then show ?thesis using pipealloc_short(2)[OF env, of a] Cons fa by (auto simp: closed_def)
  next
    case (Cons b ys)
    then have sl: "free_slots s = a # b # ys" using \<open>free_slots s = a # xs\<close> by simp
    have ab: "a \<noteq> b" "fref (ftable s b) = 0"
      using filealloc_Cons(4)[OF env sl] filealloc_Cons(5)[OF filealloc_Cons(3,2)[OF env sl]] by auto
    show ?thesis
    proof (cases ps)
      case Nil
      then show ?thesis using pipealloc_no_memory[of p s a b ys] env sl fa ab by (auto simp: closed_def)
    next
      case (Cons pg qs)
      then obtain t where t: "pipealloc s = Ret (Some (a, b)) t" "pipe_open p qs pg a b t" "pipe_items (pipes t pg) = []"
          "\<And>f. f \<noteq> a \<Longrightarrow> f \<noteq> b \<Longrightarrow> ftable t f = ftable s f"
        using pipealloc_opens[of p pg qs s a b ys] env sl by blast
      have "\<exists>u v. fileclose x t = Ret () u \<and> kmem_inv u qs \<and> fileclose y u = Ret () v \<and> file_env p (pg # qs) v \<and>
              (\<forall>f. fref (ftable v f) = fref (ftable s f))" if "{x, y} = {a, b}" for x y
        using close_both[OF t(2) that] t(4) fa ab by (fastforce simp: closed_def)
      then show ?thesis using t(1-3) sl Cons by simp
    qed
  qed
qed

theorem pipe_lifecycle_witness:
  "\<exists>t. pipealloc (files0 vm0 pipe0) = Ret (Some (0, 1)) t \<and> pipe_items (pipes t (vm_page 4)) = []"
proof -
  have "kmem_inv (files0 vm0 pipe0) vm0_free" "kmem_free (files0 vm0 pipe0)"
    using vm0_inv threadD(1)[OF files0_thread(1)] by (simp_all add: kmem_inv_def kmem_free_def kernel_page_def)
  moreover have "ftable (files0 vm0 pipe0) f = \<lparr>ftype = FD_NONE, fref = 0, readable = False, writable = False,
      fpipe = 0, fip = None, foff = 0, fmajor = 0\<rparr>" for f by (simp add: files0_def log.defs)
  moreover have "[0..<NFILE] = 0 # 1 # [2..<NFILE]" by (simp add: NFILE_def upt_rec)
  ultimately show ?thesis
    using pipe_lifecycle[of 0 vm0_free "files0 vm0 pipe0"]
    by (auto simp: file_env_def ftable_ok_def free_slots_def vm0_free_def)
qed

end
