(* ===== verification/ConsoleProps.thy ===== *)
theory ConsoleProps
  imports FileProps
begin

unbundle bit_operations_syntax

text \<open>
  The console: the digits that \<open>printint\<close> prints, the transmit buffer of the UART, and
  line editing and reading of console input.
\<close>

section \<open>Printing numbers\<close>

text \<open>Reading back a printed number.\<close>

definition digit_value :: "uchar \<Rightarrow> nat" where
  "digit_value c = (if c \<le> 57 then unat c - 48 else unat c - 87)"

definition read_nat :: "nat \<Rightarrow> uchar list \<Rightarrow> nat" where
  "read_nat base cs = foldl (\<lambda>n c. base * n + digit_value c) 0 cs"

definition read_int :: "nat \<Rightarrow> uchar list \<Rightarrow> int" where
  "read_int base cs = (case cs of [] \<Rightarrow> 0
     | c # ds \<Rightarrow> if c = of_char (CHR ''-'') then - int (read_nat base ds) else int (read_nat base cs))"

lemma digits_value: "i < 16 \<Longrightarrow> digit_value (digits i) = i \<and> digits i \<noteq> of_char (CHR ''-'')"
proof -
  have "\<forall>i \<in> set [0..<16]. digit_value (digits i) = i \<and> digits i \<noteq> of_char (CHR ''-'')" by code_simp
  then show "i < 16 \<Longrightarrow> ?thesis" by simp
qed

lemma read_nat_snoc: "read_nat base (cs @ [c]) = base * read_nat base cs + digit_value c"
  by (simp add: read_nat_def)

lemma printint_read:
  assumes "1 < base" "base \<le> 16"
  shows "read_nat base (rev (printint_digits base x)) = x"
  using assms
proof (induction base x rule: printint_digits.induct)
  case (1 base x)
  have d: "digit_value (digits (x mod base)) = x mod base"
    using digits_value[of "x mod base"] 1 by (simp add: order.strict_trans2[OF mod_less_divisor])
  show ?case
  proof (cases "x div base = 0")
    case True
    then show ?thesis using d 1 by (simp add: printint_digits.simps[of base x] read_nat_def div_eq_0_iff)
  next
    case False
    then show ?thesis using d 1 by (simp add: printint_digits.simps[of base x] read_nat_snoc)
  qed
qed

lemma printint_length:
  assumes "1 < base" "x < base ^ n" "0 < n"
  shows "length (printint_digits base x) \<le> n"
  using assms
proof (induction n arbitrary: x)
  case (Suc n)
  show ?case
  proof (cases "x div base = 0")
    case True
    then show ?thesis using Suc.prems by (simp add: printint_digits.simps[of base x])
  next
    case False
    then have "0 < n" using Suc.prems by (cases n) (auto simp: div_eq_0_iff)
    moreover have "x div base < base ^ n" using Suc.prems by (simp add: less_mult_imp_div_less mult.commute)
    ultimately show ?thesis using Suc False by (simp add: printint_digits.simps[of base x])
  qed
qed simp

lemma printint_nonempty: "printint_digits base x \<noteq> []"
  by (subst printint_digits.simps) simp

lemma printint_chars:
  assumes "1 < base" "base \<le> 16"
  shows "of_char (CHR ''-'') \<notin> set (printint_digits base x)"
  using assms
proof (induction base x rule: printint_digits.induct)
  case (1 base x)
  have "digits (x mod base) \<noteq> of_char (CHR ''-'')"
    using digits_value[of "x mod base"] 1 by (simp add: order.strict_trans2[OF mod_less_divisor])
  then show ?case using 1 by (subst printint_digits.simps) auto
qed

lemma uint_range32: "0 \<le> uint (x :: 32 word)" "uint x < 2 ^ 32"
  using unsigned_less[of x] by simp_all

lemma sint_uint32: "sint (x :: 32 word) = uint x - (if sint x < 0 then 2 ^ 32 else 0)"
proof -
  note r = uint_range32[of x]
  then have "sint x = uint x - 2 ^ 32 * of_bool (bit (uint x) 31)"
    by (simp add: sint_uint signed_take_bit_eq_take_bit_minus take_bit_int_eq_self)
  then show ?thesis using r by (cases "bit (uint x) 31") auto
qed

text \<open>
  C23. \<open>printint\<close> prints the number: the characters it prints, read back in the same base,
  give the signed value of the argument (for the smallest integer too, whose negation
  overflows), or the unsigned value when \<open>sign\<close> is off. They fit the 16 bytes of its
  buffer.
\<close>

theorem printint_correct:
  assumes "base = 10 \<or> base = 16"
  shows "read_int base (rev (printint_buf xx base sign)) = (if sign then sint xx else uint xx)
    \<and> length (printint_buf xx base sign) \<le> 11"
proof -
  have b: "1 < base" "base \<le> 16" using assms by auto
  have len: "length (printint_digits base (unat x)) \<le> 10" for x :: "32 word"
  proof -
    have "unat x < 2 ^ 32" using unsigned_less[of x] by simp
    then have "unat x < base ^ 10" using assms by auto
    then show ?thesis using printint_length[OF b(1)] by simp
  qed
  have plain: "read_int base (rev (printint_digits base x)) = int x" for x
  proof -
    have "hd (rev (printint_digits base x)) \<in> set (printint_digits base x)"
      using printint_nonempty[of base x] by (metis hd_in_set rev_is_Nil_conv set_rev)
    then show ?thesis using printint_read[OF b, of x] printint_chars[OF b, of x] printint_nonempty[of base x]
      by (auto simp: read_int_def split: list.split)
  qed
  show ?thesis
  proof (cases "sign \<and> xx <s 0")
    case True
    then have neg: "sint xx < 0" by (simp add: word_sless_alt)
    have "int (unat (- xx)) = - uint xx mod 2 ^ 32" by (simp add: uint_word_ariths)
    also have "\<dots> = - sint xx" using sint_uint32[of xx] neg uint_0_iff[of xx] uint_range32[of xx]
      by (auto simp: zmod_zminus1_eq_if)
    finally have "int (unat (- xx)) = - sint xx" .
    then show ?thesis using True len[of "- xx"] printint_read[OF b, of "unat (- xx)"]
      by (simp add: printint_buf_def read_int_def)
  next
    case False
    have "sign \<Longrightarrow> sint xx = uint xx" using False sint_uint32[of xx] by (simp add: word_sless_alt)
    then show ?thesis using False len[of xx] plain[of "unat xx"]
      by (simp add: printint_buf_def)
  qed
qed

theorem printint_correct_witness:
  "read_int 10 (rev (printint_buf (push_bit 31 1) 10 True)) = - 2147483648"
  using printint_correct[of 10 "push_bit 31 1" True] by simp

section \<open>The transmit buffer of the UART\<close>

type_synonym uartq = "(nat \<Rightarrow> uchar) \<times> nat \<times> nat"

fun uartq_items :: "uartq \<Rightarrow> uchar list" where
  "uartq_items (b, r, w) = map (\<lambda>i. b ((r + i) mod 32)) [0..<(w + 32 - r) mod 32]"

fun uartq_ok :: "uartq \<Rightarrow> bool" where
  "uartq_ok (b, r, w) \<longleftrightarrow> r < 32 \<and> w < 32"

fun uartq_put :: "uchar \<Rightarrow> uartq \<Rightarrow> uartq" where
  "uartq_put c (b, r, w) = (b(w := c), r, (w + 1) mod 32)"

fun uartq_front :: "uartq \<Rightarrow> uchar" where
  "uartq_front (b, r, w) = b r"

fun uartq_adv :: "uartq \<Rightarrow> uartq" where
  "uartq_adv (b, r, w) = (b, (r + 1) mod 32, w)"

lemma mod32: "x < 64 \<Longrightarrow> x mod 32 = (if x < 32 then x else x - (32 :: nat))"
  by (simp add: mod_if)

lemma uart_len:
  assumes "r < 32" "w < (32 :: nat)"
  shows "(w + 32 - r) mod 32 = (if r \<le> w then w - r else w + 32 - r)"
  using assms mod32[of "w + 32 - r"] by auto

lemma uart_empty: "r < 32 \<Longrightarrow> w < 32 \<Longrightarrow> uartq_items (b, r, w) = [] \<longleftrightarrow> w = r"
  by (simp add: uart_len)

lemma uart_full: "r < 32 \<Longrightarrow> w < 32 \<Longrightarrow> (w + 1) mod 32 = r \<longleftrightarrow> length (uartq_items (b, r, w)) = 31"
  using mod32[of "w + 1"] by (auto simp: uart_len)

lemma uart_put_items:
  assumes "r < 32" "w < 32" "(w + 1) mod 32 \<noteq> r"
  shows "uartq_items (b(w := c), r, (w + 1) mod 32) = uartq_items (b, r, w) @ [c]"
proof -
  have w1: "(w + 1) mod 32 < 32" by simp
  have l: "((w + 1) mod 32 + 32 - r) mod 32 = Suc ((w + 32 - r) mod 32)"
    using assms mod32[of "w + 1"] unfolding uart_len[OF assms(1,2)] uart_len[OF assms(1) w1] by (auto split: if_splits)
  have e: "(r + (w + 32 - r) mod 32) mod 32 = w"
    using assms mod32[of "w + 32"] unfolding uart_len[OF assms(1,2)] by auto
  have "(r + i) mod 32 \<noteq> w" if "i < (w + 32 - r) mod 32" for i
    using assms that mod32[of "r + i"] unfolding uart_len[OF assms(1,2)] by (auto split: if_splits)
  then show ?thesis unfolding uartq_items.simps l using e by simp
qed

lemma uart_adv_items:
  assumes "r < 32" "w < 32" "w \<noteq> r"
  shows "uartq_items (b, r, w) = b r # uartq_items (b, (r + 1) mod 32, w)"
proof -
  have r1: "(r + 1) mod 32 < 32" by simp
  have l: "(w + 32 - r) mod 32 = Suc ((w + 32 - (r + 1) mod 32) mod 32)"
    using assms mod32[of "r + 1"] unfolding uart_len[OF assms(1,2)] uart_len[OF r1 assms(2)] by (auto split: if_splits)
  have "((r + 1) mod 32 + i) mod 32 = (r + Suc i) mod 32" for i by (simp add: mod_add_left_eq)
  then show ?thesis unfolding uartq_items.simps l using assms(1)
    by (simp add: upt_conv_Cons map_Suc_upt[symmetric] del: upt_Suc)
qed

interpretation uq: fifo uartq_ok uartq_items 31 uartq_put uartq_front uartq_adv
proof
  fix q :: uartq and x
  obtain b r w where q: "q = (b, r, w)" by (cases q)
  show "uartq_ok q \<Longrightarrow> length (uartq_items q) \<le> 31" by (auto simp: q uart_len)
  show "uartq_ok q \<Longrightarrow> length (uartq_items q) < 31 \<Longrightarrow> uartq_ok (uartq_put x q) \<and> uartq_items (uartq_put x q) = uartq_items q @ [x]"
    using uart_put_items[of r w b x] uart_full[of r w b] unfolding q by auto
  show "uartq_ok q \<Longrightarrow> uartq_items q \<noteq> [] \<Longrightarrow> uartq_ok (uartq_adv q) \<and> uartq_items q = uartq_front q # uartq_items (uartq_adv q)"
    using uart_adv_items[of r w b] uart_empty[of r w b] unfolding q by auto
qed

lemma console_frame [acq_simps, simp]:
  "iolog (acq lk s) = iolog s" "(acq lk s)\<lparr>iolog := l\<rparr> = acq lk (s\<lparr>iolog := l\<rparr>)" "iodev (acq lk s) = iodev s"
  "uart_tx_buf (acq lk s) = uart_tx_buf s" "(acq lk s)\<lparr>uart_tx_buf := b\<rparr> = acq lk (s\<lparr>uart_tx_buf := b\<rparr>)"
  "uart_tx_w (acq lk s) = uart_tx_w s" "(acq lk s)\<lparr>uart_tx_w := n\<rparr> = acq lk (s\<lparr>uart_tx_w := n\<rparr>)"
  "uart_tx_r (acq lk s) = uart_tx_r s" "(acq lk s)\<lparr>uart_tx_r := n\<rparr> = acq lk (s\<lparr>uart_tx_r := n\<rparr>)"
  "cons_buf (acq lk s) = cons_buf s" "(acq lk s)\<lparr>cons_buf := b\<rparr> = acq lk (s\<lparr>cons_buf := b\<rparr>)"
  "cons_r (acq lk s) = cons_r s" "(acq lk s)\<lparr>cons_r := x\<rparr> = acq lk (s\<lparr>cons_r := x\<rparr>)"
  "cons_w (acq lk s) = cons_w s" "(acq lk s)\<lparr>cons_w := x\<rparr> = acq lk (s\<lparr>cons_w := x\<rparr>)"
  "cons_e (acq lk s) = cons_e s" "(acq lk s)\<lparr>cons_e := x\<rparr> = acq lk (s\<lparr>cons_e := x\<rparr>)"
  "panicked (acq lk s) = panicked s" "pr_locking (acq lk s) = pr_locking s"
  by (simp_all add: acq_def pushed_def noff_of_def intr_of_def)

text \<open>Two states with the same CPUs, locks and devices.\<close>

definition same_cpus :: "'z console_scheme \<Rightarrow> 'z console_scheme \<Rightarrow> bool" where
  "same_cpus s t \<longleftrightarrow> tp t = tp s \<and> harts t = harts s \<and> cpus t = cpus s \<and> locks t = locks s \<and>
     patience t = patience s \<and> iodev t = iodev s \<and> panicked t = panicked s \<and> pr_locking t = pr_locking s"

lemma same_cpusD:
  assumes "same_cpus s t"
  shows "cpu_ok t = cpu_ok s" "procs_free t = procs_free s" "thread p t = thread p s" "locks t = locks s" "tp t = tp s"
    "noff_of t = noff_of s" "intr_of t = intr_of s" "curproc t = curproc s" "iodev t = iodev s" "patience t = patience s"
    "panicked t = panicked s" "pr_locking t = pr_locking s"
  using assms thread_cong[of t s]
  by (simp_all add: same_cpus_def procs_free_def noff_of_def intr_of_def curproc_def)

lemma same_cpus_refl [simp]: "same_cpus s s"
  by (simp add: same_cpus_def)

lemma same_cpus_trans: "same_cpus s t \<Longrightarrow> same_cpus t u \<Longrightarrow> same_cpus s u"
  by (simp add: same_cpus_def)

text \<open>The bytes written to the transmit register, and whether the device answers that it is idle.\<close>

definition sent :: "io list \<Rightarrow> uchar list" where
  "sent l = concat (map (\<lambda>e. case e of IoWrite a v \<Rightarrow> if a = UART0 + THR then [ucast v] else [] | _ \<Rightarrow> []) (rev l))"

lemma ucast_byte [simp]: "ucast (ucast (x :: uchar) :: uint64) = x"
  by (rule bit_word_eqI) (auto simp: bit_simps)

lemma sent_simps [simp]:
  "sent (IoRead a v # l) = sent l" "sent (IoWrite (UART0 + THR) v # l) = sent l @ [ucast v]" "sent [] = []"
  by (simp_all add: sent_def)

definition tx_idle :: "'z console_scheme \<Rightarrow> io list \<Rightarrow> bool" where
  "tx_idle s l \<longleftrightarrow> ucast (iodev s l (UART0 + LSR)) AND LSR_TX_IDLE \<noteq> 0"

definition uart_q :: "'z console_scheme \<Rightarrow> uartq" where
  "uart_q s = (uart_tx_buf s, uart_tx_r s, uart_tx_w s)"

definition uart_stream :: "'z console_scheme \<Rightarrow> uchar list" where
  "uart_stream s = sent (iolog s) @ uartq_items (uart_q s)"

definition uart_lsr :: "'z console_scheme \<Rightarrow> 'z console_scheme" where
  "uart_lsr s = s\<lparr>iolog := IoRead (UART0 + LSR) (iodev s (iolog s) (UART0 + LSR)) # iolog s\<rparr>"

definition uart_send :: "'z console_scheme \<Rightarrow> 'z console_scheme" where
  "uart_send s = (let t = wake C_uart_tx_r ((uart_lsr s)\<lparr>uart_tx_r := (uart_tx_r s + 1) mod UART_TX_BUF_SIZE\<rparr>)
     in t\<lparr>iolog := IoWrite (UART0 + THR) (ucast (uart_tx_buf s (uart_tx_r s))) # iolog t\<rparr>)"

lemma wake_console [simp]:
  "iolog (wake ch s) = iolog s" "iodev (wake ch s) = iodev s" "uart_tx_buf (wake ch s) = uart_tx_buf s"
  "uart_tx_r (wake ch s) = uart_tx_r s" "uart_tx_w (wake ch s) = uart_tx_w s" "cons_buf (wake ch s) = cons_buf s"
  "cons_r (wake ch s) = cons_r s" "cons_w (wake ch s) = cons_w s" "cons_e (wake ch s) = cons_e s"
  "panicked (wake ch s) = panicked s" "pr_locking (wake ch s) = pr_locking s" "patience (wake ch s) = patience s"
  "harts (wake ch s) = harts s" "cpus (wake ch s) = cpus s" "same_cpus s (wake ch s)"
  by (simp_all add: wake_def same_cpus_def)

lemma uart_send_frame [simp]:
  "same_cpus s (uart_send s)" "uart_send (acq lk s) = acq lk (uart_send s)" "uart_q (uart_send s) = uartq_adv (uart_q s)"
  "sent (iolog (uart_send s)) = sent (iolog s) @ [uartq_front (uart_q s)]"
  "uart_lsr (acq lk s) = acq lk (uart_lsr s)" "same_cpus s (uart_lsr s)" "uart_q (uart_lsr s) = uart_q s"
  "sent (iolog (uart_lsr s)) = sent (iolog s)"
  by (simp_all add: uart_send_def uart_lsr_def Let_def same_cpus_def uart_q_def UART_TX_BUF_SIZE_def)

lemma uartstart_step:
  assumes "cpu_ok s" "procs_free s"
  shows "uartstart_loop (Suc n) s =
    (if uart_tx_w s = uart_tx_r s then Ret () s
     else if tx_idle s (iolog s) then uartstart_loop n (uart_send s) else Ret () (uart_lsr s))"
proof -
  have "wakeup C_uart_tx_r ((uart_lsr s)\<lparr>uart_tx_r := k\<rparr>) = Ret () (wake C_uart_tx_r ((uart_lsr s)\<lparr>uart_tx_r := k\<rparr>))" for k
    using assms same_cpusD(1,2)[of s "(uart_lsr s)\<lparr>uart_tx_r := k\<rparr>"]
    by (intro wakeup_eq) (simp_all add: uart_lsr_def same_cpus_def)
  then show ?thesis
    by (simp add: bind_def reads_def ret_def ReadReg_def mmio_read_def modify_def WriteReg_def mmio_write_def
        tx_idle_def uart_lsr_def uart_send_def Let_def)
qed

lemma uart_q_empty: "uartq_ok (uart_q s) \<Longrightarrow> uart_tx_w s = uart_tx_r s \<longleftrightarrow> uartq_items (uart_q s) = []"
  using uart_empty[of "uart_tx_r s" "uart_tx_w s" "uart_tx_buf s"] by (simp add: uart_q_def)

lemma uart_q_full:
  "uartq_ok (uart_q s) \<Longrightarrow> (uart_tx_w s + 1) mod UART_TX_BUF_SIZE = uart_tx_r s \<longleftrightarrow> length (uartq_items (uart_q s)) = 31"
  using uart_full[of "uart_tx_r s" "uart_tx_w s" "uart_tx_buf s"] by (simp add: uart_q_def UART_TX_BUF_SIZE_def)

text \<open>
  The loop sends some bytes from the front of the queue, and stops before its end only
  when the device is busy.
\<close>

lemma uartstart_loop_runs:
  assumes "cpu_ok s" "procs_free s" "uartq_ok (uart_q s)" "length (uartq_items (uart_q s)) < n"
  shows "\<exists>t. uartstart_loop n (acq L_uart_tx s) = Ret () (acq L_uart_tx t) \<and> same_cpus s t \<and> uartq_ok (uart_q t) \<and>
    uart_stream t = uart_stream s \<and> (uartq_items (uart_q t) = [] \<or> (\<exists>l. \<not> tx_idle s l))"
  using assms
proof (induction n arbitrary: s)
  case (Suc n)
  let ?q = "uart_q s"
  note step = uartstart_step[of "acq L_uart_tx s" n]
  have ok: "cpu_ok (acq L_uart_tx s)" "procs_free (acq L_uart_tx s)" using Suc.prems by simp_all
  consider "uartq_items ?q = []" | "uartq_items ?q \<noteq> []" "\<not> tx_idle s (iolog s)" | "uartq_items ?q \<noteq> []" "tx_idle s (iolog s)"
    by blast
  then show ?case
  proof cases
    case 1
    then show ?thesis using step[OF ok] uart_q_empty[OF Suc.prems(3)] Suc.prems(3) by (intro exI[of _ s]) simp
  next
    case 2
    then show ?thesis using step[OF ok] uart_q_empty[OF Suc.prems(3)] Suc.prems(3)
      by (intro exI[of _ "uart_lsr s"]) (auto simp: uart_stream_def tx_idle_def)
  next
    case 3
    have adv: "uartq_ok (uartq_adv ?q) \<and> uartq_items ?q = uartq_front ?q # uartq_items (uartq_adv ?q)"
      using uq.adv_spec[OF Suc.prems(3) 3(1)] .
    have c: "same_cpus s (uart_send s)" by simp
    have "length (uartq_items ?q) = Suc (length (uartq_items (uartq_adv ?q)))" using adv by (metis length_Cons)
    then obtain t where t: "uartstart_loop n (acq L_uart_tx (uart_send s)) = Ret () (acq L_uart_tx t)"
        "same_cpus (uart_send s) t" "uartq_ok (uart_q t)" "uart_stream t = uart_stream (uart_send s)"
        "uartq_items (uart_q t) = [] \<or> (\<exists>l. \<not> tx_idle (uart_send s) l)"
      using Suc.IH[of "uart_send s"] Suc.prems same_cpusD(1,2)[OF c] adv by auto
    have "uart_stream (uart_send s) = uart_stream s" using adv by (simp add: uart_stream_def)
    moreover have "tx_idle (uart_send s) = tx_idle s" using same_cpusD(9)[OF c] by (simp add: tx_idle_def fun_eq_iff)
    moreover have "uartstart_loop (Suc n) (acq L_uart_tx s) = uartstart_loop n (acq L_uart_tx (uart_send s))"
      using step[OF ok] uart_q_empty[OF Suc.prems(3)] 3 by (simp add: tx_idle_def)
    ultimately show ?thesis using t same_cpus_trans[OF c] by metis
  qed
qed simp

lemma uartstart_runs:
  assumes "cpu_ok s" "procs_free s" "uartq_ok (uart_q s)"
  shows "\<exists>t. uartstart (acq L_uart_tx s) = Ret () (acq L_uart_tx t) \<and> same_cpus s t \<and> uartq_ok (uart_q t) \<and>
    uart_stream t = uart_stream s \<and> (uartq_items (uart_q t) = [] \<or> (\<exists>l. \<not> tx_idle s l))"
proof -
  have "length (uartq_items (uart_q s)) < UART_TX_BUF_SIZE"
    using uq.bounded[OF assms(3)] by (simp add: UART_TX_BUF_SIZE_def)
  then show ?thesis unfolding uartstart_def by (rule uartstart_loop_runs[OF assms])
qed

definition uart_push :: "uchar \<Rightarrow> 'z console_scheme \<Rightarrow> 'z console_scheme" where
  "uart_push c s = s\<lparr>uart_tx_buf := (uart_tx_buf s)(uart_tx_w s := c), uart_tx_w := (uart_tx_w s + 1) mod UART_TX_BUF_SIZE\<rparr>"

lemma uart_push_frame [simp]:
  "same_cpus s (uart_push c s)" "uart_push c (acq lk s) = acq lk (uart_push c s)"
  "uart_q (uart_push c s) = uartq_put c (uart_q s)" "iolog (uart_push c s) = iolog s"
  by (simp_all add: uart_push_def same_cpus_def uart_q_def UART_TX_BUF_SIZE_def)

lemma uartputc_try_full:
  "uartq_ok (uart_q s) \<Longrightarrow> length (uartq_items (uart_q s)) = 31 \<Longrightarrow>
   uartputc_try c (acq L_uart_tx s) = Ret None (acq L_uart_tx s)"
  using uart_q_full[of s] by (simp add: uartputc_try_def bind_def reads_def ret_def)

lemma uartputc_try_room:
  assumes ok: "cpu_ok s" "procs_free s" "locks s L_uart_tx = free_lock"
    and q: "uartq_ok (uart_q s)" "length (uartq_items (uart_q s)) < 31"
  shows "\<exists>t. uartputc_try c (acq L_uart_tx s) = Ret (Some ()) t \<and> uartq_ok (uart_q t) \<and>
    uart_stream t = uart_stream s @ [c] \<and> same_cpus s t"
proof -
  let ?s = "uart_push c s"
  have c: "same_cpus s ?s" by simp
  have "uartq_ok (uart_q ?s)" "uart_stream ?s = uart_stream s @ [c]"
    using uq.put_spec[OF q, of c] by (simp_all add: uart_stream_def)
  then obtain t where t: "uartstart (acq L_uart_tx ?s) = Ret () (acq L_uart_tx t)" "same_cpus ?s t" "uartq_ok (uart_q t)"
      "uart_stream t = uart_stream s @ [c]"
    using uartstart_runs[of ?s] ok same_cpusD[OF c] by auto
  have r: "release L_uart_tx (acq L_uart_tx t) = Ret () t"
    using ok same_cpusD(1,4)[OF c] same_cpusD(1,4)[OF t(2)] by (intro release_acq) simp_all
  have "(uart_tx_w s + 1) mod UART_TX_BUF_SIZE \<noteq> uart_tx_r s" using uart_q_full[OF q(1)] q(2) by simp
  then have "uartputc_try c (acq L_uart_tx s) = Ret (Some ()) t"
    using t(1) r by (simp add: uartputc_try_def bind_def reads_def modify_def ret_def uart_push_def)
  then show ?thesis using t same_cpus_trans[OF c t(2)] by blast
qed

text \<open>
  C24. Output through the UART. Take the bytes sent to the transmit register, followed by
  the bytes in the transmit buffer. \<open>uartstart\<close> always ends, keeps this sequence, and
  empties the buffer unless the device is busy at some point. \<open>uartputc\<close> adds its byte at
  the end of the sequence and returns, unless the buffer holds 31 bytes: then it sleeps
  until there is room, and adds its byte when it runs again.
\<close>

theorem uart_output_stream:
  fixes s :: "'z console_scheme"
  assumes "thread p s" "noff_of s = 0" "locks s L_uart_tx = free_lock" "uartq_ok (uart_q s)" "\<not> panicked s"
  shows "(\<exists>t. uartstart (acq L_uart_tx s) = Ret () (acq L_uart_tx t) \<and> uartq_ok (uart_q t) \<and>
      uart_stream t = uart_stream s \<and> (uartq_items (uart_q t) = [] \<or> (\<exists>l. \<not> tx_idle s l)))
    \<and> (length (uartq_items (uart_q s)) < 31 \<longrightarrow>
      (\<exists>t. uartputc c s = Ret () t \<and> uartq_ok (uart_q t) \<and> uart_stream t = uart_stream s @ [c] \<and> locks t = locks s))
    \<and> (length (uartq_items (uart_q s)) = 31 \<longrightarrow>
      (\<exists>k. uartputc c s = Swtch (acq (L_proc p) (asleep p C_uart_tx_r s)) k \<and>
        (\<forall>r. thread p r \<longrightarrow> noff_of r = 0 \<longrightarrow> intr_of r = intr_of s \<longrightarrow> locks r L_uart_tx = free_lock \<longrightarrow>
          uartq_ok (uart_q r) \<longrightarrow> length (uartq_items (uart_q r)) < 31 \<longrightarrow> 0 < patience s \<longrightarrow>
          (\<exists>t. k (acq (L_proc p) r) = Ret () t \<and> uartq_ok (uart_q t) \<and> uart_stream t = uart_stream r @ [c]))))"
proof (intro conjI impI)
  note d = threadD[OF assms(1)]
  show "\<exists>t. uartstart (acq L_uart_tx s) = Ret () (acq L_uart_tx t) \<and> uartq_ok (uart_q t) \<and>
      uart_stream t = uart_stream s \<and> (uartq_items (uart_q t) = [] \<or> (\<exists>l. \<not> tx_idle s l))"
    using uartstart_runs[OF d(1,4) assms(4)] by blast
  have run: "uartputc c s = sleep_until (uartputc_try c) C_uart_tx_r L_uart_tx (acq L_uart_tx s)"
    using assms(3,5) by (simp add: uartputc_def bind_def [of "acquire lk" for lk] acquire_eq bind_def [of "reads f" for f] reads_def)
  show "\<exists>t. uartputc c s = Ret () t \<and> uartq_ok (uart_q t) \<and> uart_stream t = uart_stream s @ [c] \<and> locks t = locks s"
    if "length (uartq_items (uart_q s)) < 31"
    using uartputc_try_room[OF d(1,4) assms(3,4) that, of c] same_cpusD(4)
    by (auto simp: run sleep_until_def bind_def reads_def ret_def)
  show "\<exists>k. uartputc c s = Swtch (acq (L_proc p) (asleep p C_uart_tx_r s)) k \<and>
        (\<forall>r. thread p r \<longrightarrow> noff_of r = 0 \<longrightarrow> intr_of r = intr_of s \<longrightarrow> locks r L_uart_tx = free_lock \<longrightarrow>
          uartq_ok (uart_q r) \<longrightarrow> length (uartq_items (uart_q r)) < 31 \<longrightarrow> 0 < patience s \<longrightarrow>
          (\<exists>t. k (acq (L_proc p) r) = Ret () t \<and> uartq_ok (uart_q t) \<and> uart_stream t = uart_stream r @ [c]))"
    if full: "length (uartq_items (uart_q s)) = 31"
  proof -
    let ?P = "\<lambda>r :: 'z console_scheme. thread p r \<and> locks r L_uart_tx = free_lock \<and> uartq_ok (uart_q r) \<and> length (uartq_items (uart_q r)) < 31"
    define g :: "'z console_scheme \<Rightarrow> 'z console_scheme" where
      "g r = (case uartputc_try c (acq L_uart_tx (unchan p r)) of Ret _ t \<Rightarrow> t | _ \<Rightarrow> r)" for r
    have g: "uartputc_try c (acq L_uart_tx (unchan p r)) = Ret (Some ()) (g r) \<and> uartq_ok (uart_q (g r)) \<and>
        uart_stream (g r) = uart_stream r @ [c]" if "?P r" for r
    proof -
      have u: "same_cpus r (unchan p r)" "uart_q (unchan p r) = uart_q r" "uart_stream (unchan p r) = uart_stream r"
        by (simp_all add: same_cpus_def unchan_def uart_q_def uart_stream_def)
      then show ?thesis using uartputc_try_room[of "unchan p r" c] that same_cpusD(1,2,4)[OF u(1)] threadD[of p r]
        by (auto simp: g_def)
    qed
    show ?thesis
      using sleep_until_sleeps[where body = "uartputc_try c" and s = s and t = s and lk = L_uart_tx and p = p
          and n = "patience s" and ch = C_uart_tx_r and P = ?P and a = "\<lambda>_. ()" and g = g]
        uartputc_try_full[OF assms(4) full, of c] assms(1-3) g unfolding run by (auto 0 4)
  qed
qed

section \<open>Output that waits for the device\<close>

text \<open>A device that is never busy, and a kernel that has not panicked.\<close>

definition tx_ready :: "'z console_scheme \<Rightarrow> bool" where
  "tx_ready s \<longleftrightarrow> cpu_ok s \<and> (\<forall>l. tx_idle s l) \<and> \<not> panicked s"

lemma iolog_cpu [simp]: "cpu_ok (s\<lparr>iolog := l\<rparr>) = cpu_ok s"
  by (simp add: cpu_ok_def noff_of_def intr_of_def)

lemma tx_ready_frame [simp]:
  "tx_ready (s\<lparr>iolog := l\<rparr>) = tx_ready s" "cpu_ok s \<Longrightarrow> tx_ready (acq lk s) = tx_ready s"
  by (simp_all add: tx_ready_def tx_idle_def)

lemma pushed_iolog [simp]:
  "(pushed s)\<lparr>iolog := l\<rparr> = pushed (s\<lparr>iolog := l\<rparr>)" "iolog (pushed s) = iolog s" "iodev (pushed s) = iodev s"
  "panicked (pushed s) = panicked s" "patience (pushed s) = patience s"
  by (simp_all add: pushed_def noff_of_def intr_of_def)

lemma uartputc_sync_eq:
  assumes "tx_ready s"
  shows "uartputc_sync c s = Ret () (s\<lparr>iolog := IoWrite (UART0 + THR) (ucast c) #
    IoRead (UART0 + LSR) (iodev s (iolog s) (UART0 + LSR)) # iolog s\<rparr>)"
proof -
  have "ucast (iodev s (iolog s) (UART0 + LSR)) AND LSR_TX_IDLE \<noteq> 0" "\<not> panicked s" "cpu_ok s"
    using assms by (simp_all add: tx_ready_def tx_idle_def)
  then show ?thesis
    by (simp add: uartputc_sync_def bind_def push_off_eq reads_def ReadReg_def mmio_read_def modify_def ret_def
        WriteReg_def mmio_write_def pop_off_pushed)
qed

text \<open>An operation that only talks to the device, and what it sends.\<close>

definition prints :: "('z console_scheme, unit) op \<Rightarrow> uchar list \<Rightarrow> 'z console_scheme \<Rightarrow> bool" where
  "prints m cs s \<longleftrightarrow> (\<exists>l. m s = Ret () (s\<lparr>iolog := l\<rparr>) \<and> sent l = sent (iolog s) @ cs)"

lemma prints_bind:
  assumes "prints m cs s" "\<And>l. prints k ds (s\<lparr>iolog := l\<rparr>)"
  shows "prints (bind m (\<lambda>_. k)) (cs @ ds) s"
proof -
  obtain l where l: "m s = Ret () (s\<lparr>iolog := l\<rparr>)" "sent l = sent (iolog s) @ cs" using assms(1) by (auto simp: prints_def)
  then show ?thesis using assms(2)[of l] by (auto simp: prints_def bind_def)
qed

lemma prints_ret [simp]: "prints (ret ()) [] s"
  unfolding prints_def by (rule exI[of _ "iolog s"]) (simp add: ret_def)

lemma prints_sync: "tx_ready s \<Longrightarrow> prints (uartputc_sync c) [c] s"
  unfolding prints_def by (intro exI conjI, erule uartputc_sync_eq) simp

lemma prints_consputc:
  "tx_ready s \<Longrightarrow> prints (consputc c) (if c = BACKSPACE then [8, 32, 8] else [word_of_int c]) s"
  using prints_bind[OF prints_sync prints_bind[OF prints_sync prints_sync], of s 8 32 8] prints_sync[of s "word_of_int c"]
  by (simp add: consputc_def)

lemma uint_lt_256: "uint (c :: uchar) < 256"
  using unsigned_less[of c] by simp

lemma prints_putchars: "tx_ready s \<Longrightarrow> prints (putchars cs) cs s"
proof (induction cs arbitrary: s)
  case Nil
  then show ?case by (simp add: putchars_def)
next
  case (Cons c cs)
  have "prints (consputc (uint c)) [c] s"
    using prints_consputc[OF Cons.prems, of "uint c"] uint_lt_256[of c] by (simp add: BACKSPACE_def)
  moreover have "prints (putchars cs) cs (s\<lparr>iolog := l\<rparr>)" for l using Cons by simp
  ultimately have "prints (bind (consputc (uint c)) (\<lambda>_. putchars cs)) ([c] @ cs) s" by (rule prints_bind)
  then show ?case by (simp add: putchars_def)
qed

definition prints_some :: "('z console_scheme, unit) op \<Rightarrow> 'z console_scheme \<Rightarrow> bool" where
  "prints_some m s \<longleftrightarrow> (\<exists>cs. prints m cs s)"

named_theorems prints_rules \<comment> \<open>operations that only print\<close>

lemma prints_someI [prints_rules]:
  "tx_ready s \<Longrightarrow> prints_some (consputc c) s" "tx_ready s \<Longrightarrow> prints_some (putchars cs) s" "prints_some (ret ()) s"
  "tx_ready s \<Longrightarrow> prints_some (printint n base sg) s"
  unfolding prints_some_def printint_def by (rule exI, rule prints_consputc prints_putchars prints_ret; assumption?)+

lemma prints_some_bind [prints_rules]:
  "prints_some m s \<Longrightarrow> (\<And>l. prints_some k (s\<lparr>iolog := l\<rparr>)) \<Longrightarrow> prints_some (bind m (\<lambda>_. k)) s"
  unfolding prints_some_def prints_def by (auto simp: bind_def) (metis append.assoc)

lemma prints_some_for_each [prints_rules]:
  "(\<And>i l. prints_some (body i) (s\<lparr>iolog := l\<rparr>)) \<Longrightarrow> prints_some (for_each xs body) s"
proof (induction xs arbitrary: s)
  case Nil
  then show ?case by (simp add: prints_rules)
next
  case (Cons x xs)
  have "prints_some (body x) s" using Cons.prems[of x "iolog s"] by simp
  moreover have "prints_some (for_each xs body) (s\<lparr>iolog := l\<rparr>)" for l using Cons by simp
  ultimately show ?case by (simp add: prints_some_bind)
qed

lemma prints_printf:
  fixes s :: "'z console_scheme"
  assumes "tx_ready s" "locks s L_pr = free_lock"
    "\<And>t :: 'z console_scheme. tx_ready t \<Longrightarrow> prints_some (printf_items (ascii fmt) ap) t"
  shows "prints_some (printf fmt ap) s"
proof (cases "pr_locking s")
  case False
  then show ?thesis using assms(3)[OF assms(1)]
    by (auto simp: prints_some_def prints_def printf_def bind_def reads_def ret_def)
next
  case True
  have ok: "cpu_ok s" using assms(1) by (simp add: tx_ready_def)
  then obtain l cs where "printf_items (ascii fmt) ap (acq L_pr s) = Ret () (acq L_pr (s\<lparr>iolog := l\<rparr>))"
      "sent l = sent (iolog s) @ cs"
    using assms(3)[of "acq L_pr s"] assms(1) by (auto simp: prints_some_def prints_def)
  moreover have "release L_pr (acq L_pr (s\<lparr>iolog := l\<rparr>)) = Ret () (s\<lparr>iolog := l\<rparr>)"
    using ok assms(2) by (intro release_acq) simp_all
  ultimately show ?thesis using True assms(2)
    by (auto simp: prints_some_def prints_def printf_def bind_def reads_def acquire_eq)
qed

lemma procdump_prints:
  assumes "tx_ready s" "locks s L_pr = free_lock"
  shows "prints_some procdump s"
proof -
  have nl: "prints_some (printf [CHR 0x0A] []) t" if "tx_ready t" "locks t L_pr = free_lock" for t :: "'a console_scheme"
    using that by (intro prints_printf) (auto simp: ascii_def intro!: prints_rules)
  have line: "prints_some (printf ''%d %s %s'' [Aint a, Astr (Some b), Astr (Some c)]) t"
    if "tx_ready t" "locks t L_pr = free_lock" for t :: "'a console_scheme" and a b c
    using that by (intro prints_printf) (auto simp: ascii_def intro!: prints_rules)
  have one: "prints_some (bind (proc_of p id) (\<lambda>q. if pstate q = UNUSED then ret () else
       bind (printf ''%d %s %s'' [Aint (word_of_int (pid q)), Astr (Some (ascii (procdump_state (pstate q)))),
               Astr (Some (chars_upto 16 (pname q)))]) (\<lambda>_. printf [CHR 0x0A] []))) t"
    if "tx_ready t" "locks t L_pr = free_lock" for t :: "'a console_scheme" and p
  proof -
    have "prints_some (bind (printf ''%d %s %s'' [Aint a, Astr (Some b), Astr (Some c)]) (\<lambda>_. printf [CHR 0x0A] [])) t" for a b c
      using that by (intro prints_some_bind line nl) simp_all
    then show ?thesis using prints_someI(3)[of t]
      by (simp add: proc_of_def bind_apply(2) prints_some_def prints_def)
  qed
  show ?thesis unfolding procdump_def using assms
    by (intro prints_some_bind[OF nl] prints_some_for_each one) simp_all
qed

section \<open>Line editing\<close>

text \<open>
  The input buffer: \<open>committed\<close> characters can be read, \<open>pending\<close> ones are the line that
  is being typed.
\<close>

definition committed :: "'z console_scheme \<Rightarrow> uchar list" where
  "committed s = ring_items (cons_buf s) (cons_r s) (cons_w s) 128"

definition pending :: "'z console_scheme \<Rightarrow> uchar list" where
  "pending s = ring_items (cons_buf s) (cons_w s) (cons_e s) 128"

definition cons_inv :: "'z console_scheme \<Rightarrow> bool" where
  "cons_inv s \<longleftrightarrow> unat (cons_w s - cons_r s) \<le> unat (cons_e s - cons_r s) \<and> unat (cons_e s - cons_r s) \<le> 128"

lemma cons_ring: "ring_size 128" "unat (x mod INPUT_BUF) = unat x mod 128"
  by (simp_all add: ring_size_def INPUT_BUF_def unat_mod)

lemma cons_lengths:
  assumes "cons_inv s"
  shows "unat (cons_e s - cons_r s) = length (committed s) + length (pending s)"
    and "ring_items (cons_buf s) (cons_r s) (cons_e s) 128 = committed s @ pending s"
  using assms unat_diff_split[of "cons_w s" "cons_r s" "cons_e s"]
    ring_append[OF cons_ring(1), of "cons_w s" "cons_r s" "cons_e s" "cons_buf s"]
  by (simp_all add: cons_inv_def committed_def pending_def)

lemma pending_Nil: "pending s = [] \<longleftrightarrow> cons_e s = cons_w s"
proof -
  have "pending s = [] \<longleftrightarrow> length (pending s) = 0" by simp
  also have "\<dots> \<longleftrightarrow> cons_e s - cons_w s = 0" by (simp add: pending_def unat_eq_0)
  finally show ?thesis by simp
qed

definition back1 :: "'z console_scheme \<Rightarrow> 'z console_scheme" where
  "back1 s = s\<lparr>cons_e := cons_e s - 1\<rparr>"

lemma back1:
  assumes "cons_inv s" "pending s \<noteq> []"
  shows "cons_inv (back1 s)" "committed (back1 s) = committed s"
    "pending s = pending (back1 s) @ [cons_buf s (unat ((cons_e s - 1) mod INPUT_BUF))]"
proof -
  have ne: "cons_e s \<noteq> cons_w s" using assms(2) pending_Nil by auto
  show p: "pending s = pending (back1 s) @ [cons_buf s (unat ((cons_e s - 1) mod INPUT_BUF))]"
    using ring_snoc[OF cons_ring(1) ne, of "cons_buf s"] by (simp add: pending_def back1_def cons_ring(2))
  show "committed (back1 s) = committed s" by (simp add: committed_def back1_def)
  have pos: "cons_e s - cons_r s \<noteq> 0" using assms cons_lengths(1)[OF assms(1)] by auto
  have "unat (cons_e s - 1 - cons_r s) = unat (cons_e s - cons_r s) - 1"
    using unat_minus_one[OF pos] by (simp add: diff_right_commute[of "cons_e s" 1])
  then show "cons_inv (back1 s)" using assms(1) cons_lengths(1)[OF assms(1)] p
    by (simp add: cons_inv_def back1_def committed_def)
qed

lemma cons_view [simp]:
  "committed (s\<lparr>iolog := l\<rparr>) = committed s" "pending (s\<lparr>iolog := l\<rparr>) = pending s" "cons_inv (s\<lparr>iolog := l\<rparr>) = cons_inv s"
  "committed (acq lk s) = committed s" "pending (acq lk s) = pending s" "cons_inv (acq lk s) = cons_inv s"
  "committed (wake ch s) = committed s" "pending (wake ch s) = pending s" "cons_inv (wake ch s) = cons_inv s"
  "committed (s\<lparr>cons_e := x\<rparr>) = committed s" "tx_ready (s\<lparr>cons_e := x\<rparr>) = tx_ready s"
  by (simp_all add: committed_def pending_def cons_inv_def tx_ready_def tx_idle_def cpu_ok_def noff_of_def intr_of_def)

text \<open>Control-U removes the line back to its last newline.\<close>

definition kill_typed :: "uchar list \<Rightarrow> uchar list" where
  "kill_typed xs = rev (dropWhile (\<lambda>c. c \<noteq> 10) (rev xs))"

lemma kill_typed_snoc: "kill_typed (xs @ [x]) = (if x = 10 then xs @ [x] else kill_typed xs)"
  by (simp add: kill_typed_def)

lemma kill_line_runs:
  assumes "tx_ready s" "cons_inv s" "length (pending s) \<le> n"
  shows "\<exists>e l. kill_line n s = Ret () (s\<lparr>iolog := l, cons_e := e\<rparr>) \<and> cons_inv (s\<lparr>cons_e := e\<rparr>) \<and>
    pending (s\<lparr>cons_e := e\<rparr>) = kill_typed (pending s)"
  using assms
proof (induction n arbitrary: s)
  case 0
  then show ?case by (intro exI[of _ "cons_e s"] exI[of _ "iolog s"]) (simp add: ret_def kill_typed_def)
next
  case (Suc n)
  show ?case
  proof (cases "pending s = []")
    case True
    then show ?thesis using pending_Nil[of s] Suc.prems
      by (intro exI[of _ "cons_e s"] exI[of _ "iolog s"]) (simp add: bind_def reads_def ret_def kill_typed_def
          cons_inv_def pending_def)
  next
    case False
    note b = back1[OF Suc.prems(2) False]
    let ?x = "cons_buf s (unat ((cons_e s - 1) mod INPUT_BUF))"
    have ne: "cons_e s \<noteq> cons_w s" using False pending_Nil by auto
    show ?thesis
    proof (cases "?x = 10")
      case True
      then show ?thesis using b(3) Suc.prems
        by (intro exI[of _ "cons_e s"] exI[of _ "iolog s"]) (simp add: bind_def reads_def ret_def kill_typed_snoc)
    next
      case x: False
      obtain l where l: "consputc BACKSPACE (back1 s) = Ret () ((back1 s)\<lparr>iolog := l\<rparr>)"
        using prints_consputc[of "back1 s" BACKSPACE] Suc.prems(1) by (auto simp: back1_def prints_def)
      let ?t = "(back1 s)\<lparr>iolog := l\<rparr>"
      have "length (pending s) = Suc (length (pending ?t))" using b(3) by (metis cons_view(2) length_append_singleton)
      then obtain e l' where t: "kill_line n ?t = Ret () (?t\<lparr>iolog := l', cons_e := e\<rparr>)"
          "cons_inv (?t\<lparr>cons_e := e\<rparr>)" "pending (?t\<lparr>cons_e := e\<rparr>) = kill_typed (pending ?t)"
        using Suc.IH[of ?t] Suc.prems b(1) by (auto simp: back1_def)
      have "kill_line (Suc n) s = kill_line n ?t"
        using ne x l by (simp add: bind_def reads_def modify_def back1_def)
      moreover have "?t\<lparr>iolog := l', cons_e := e\<rparr> = s\<lparr>iolog := l', cons_e := e\<rparr>" by (simp add: back1_def)
      moreover have "cons_inv (s\<lparr>cons_e := e\<rparr>)" "pending (s\<lparr>cons_e := e\<rparr>) = kill_typed (pending s)"
        using t(2,3) b(3) x by (simp_all add: back1_def cons_inv_def pending_def) (metis kill_typed_snoc)
      ultimately show ?thesis using t(1) by metis
    qed
  qed
qed

definition type1 :: "uchar \<Rightarrow> 'z console_scheme \<Rightarrow> 'z console_scheme" where
  "type1 c s = s\<lparr>cons_buf := (cons_buf s)(unat (cons_e s mod INPUT_BUF) := c), cons_e := cons_e s + 1\<rparr>"

lemma type1:
  assumes "cons_inv s" "length (committed s) + length (pending s) < 128"
  shows "cons_inv (type1 c s)" "committed (type1 c s) = committed s" "pending (type1 c s) = pending s @ [c]"
proof -
  let ?d = "(cons_buf s)(unat (cons_e s) mod 128 := c)"
  have len: "unat (cons_e s - cons_r s) < 128" using cons_lengths(1)[OF assms(1)] assms(2) by simp
  have le: "unat (cons_w s - cons_r s) \<le> unat (cons_e s - cons_r s)" using assms(1) by (simp add: cons_inv_def)
  have e1: "unat (cons_e s + 1 - cons_r s) = Suc (unat (cons_e s - cons_r s))" using unat_Suc_diff[OF len] by simp
  then show "cons_inv (type1 c s)" using le len by (simp add: cons_inv_def type1_def)
  have "ring_items ?d (cons_r s) (cons_e s + 1) 128 = (committed s @ pending s) @ [c]"
    using ring_put[OF cons_ring(1) len, of "cons_buf s" c] cons_lengths(2)[OF assms(1)] by simp
  moreover have "ring_items ?d (cons_r s) (cons_e s + 1) 128
      = ring_items ?d (cons_r s) (cons_w s) 128 @ ring_items ?d (cons_w s) (cons_e s + 1) 128"
    using le e1 by (intro ring_append[OF cons_ring(1)]) linarith
  moreover have "length (ring_items ?d (cons_r s) (cons_w s) 128) = length (committed s)" by (simp add: committed_def)
  ultimately have "ring_items ?d (cons_r s) (cons_w s) 128 = committed s"
      "ring_items ?d (cons_w s) (cons_e s + 1) 128 = pending s @ [c]" by (simp_all add: append_eq_append_conv)
  then show "committed (type1 c s) = committed s" "pending (type1 c s) = pending s @ [c]"
    by (simp_all add: committed_def pending_def type1_def cons_ring(2))
qed

definition enter :: "'z console_scheme \<Rightarrow> 'z console_scheme" where
  "enter s = s\<lparr>cons_w := cons_e s\<rparr>"

lemma enter:
  assumes "cons_inv s"
  shows "cons_inv (enter s)" "committed (enter s) = committed s @ pending s" "pending (enter s) = []"
  using assms cons_lengths(2)[OF assms] by (simp_all add: cons_inv_def enter_def committed_def pending_def)

lemma enter_acq [simp]: "enter (acq lk s) = acq lk (enter s)"
  by (simp add: enter_def)

text \<open>The line editor, on the characters that can be read and the line being typed.\<close>

definition line_edit :: "int \<Rightarrow> uchar list \<times> uchar list \<Rightarrow> uchar list \<times> uchar list" where
  "line_edit c = (\<lambda>(cm, pd).
     if c = C_ctrl (CHR ''P'') then (cm, pd)
     else if c = C_ctrl (CHR ''U'') then (cm, kill_typed pd)
     else if c = C_ctrl (CHR ''H'') \<or> c = 0x7f then (cm, butlast pd)
     else if c = 0 \<or> length cm + length pd \<ge> 128 then (cm, pd)
     else let c' = (if c = 13 then 10 else c); pd' = pd @ [word_of_int c'] in
       if c' = 10 \<or> c' = C_ctrl (CHR ''D'') \<or> length cm + length pd' = 128 then (cm @ pd', []) else (cm, pd'))"

text \<open>What the handler of one character does between taking and giving back the lock.\<close>

definition edits :: "int \<Rightarrow> 'z console_scheme \<Rightarrow> 'z console_scheme \<Rightarrow> bool" where
  "edits c s t \<longleftrightarrow> same_cpus s t \<and> cons_inv t \<and> (committed t, pending t) = line_edit c (committed s, pending s)"

lemma cons_room: "cons_inv s \<Longrightarrow> cons_e s - cons_r s < INPUT_BUF \<longleftrightarrow> length (committed s) + length (pending s) < 128"
  using cons_lengths(1)[of s] by (simp add: word_less_nat_alt INPUT_BUF_def)

lemma cons_full: "cons_inv s \<Longrightarrow> cons_e s = cons_r s + INPUT_BUF \<longleftrightarrow> length (committed s) + length (pending s) = 128"
proof -
  assume i: "cons_inv s"
  have "cons_e s = cons_r s + INPUT_BUF \<longleftrightarrow> cons_e s - cons_r s = 128"
    by (simp add: INPUT_BUF_def diff_eq_eq add.commute)
  also have "\<dots> \<longleftrightarrow> unat (cons_e s - cons_r s) = 128" by (simp add: word_unat_eq_iff)
  finally show ?thesis using cons_lengths(1)[OF i] by simp
qed

lemma C_ctrl_eqs [simp]:
  "C_ctrl (CHR ''P'') = 16" "C_ctrl (CHR ''U'') = 21" "C_ctrl (CHR ''H'') = 8" "C_ctrl (CHR ''D'') = 4"
  by (simp_all add: C_ctrl_def)

lemma intr_typed:
  assumes ok: "tx_ready s" "procs_free s" "locks s L_cons = free_lock" "cons_inv s"
    and c: "c \<noteq> 16" "c \<noteq> 21" "c \<noteq> 8" "c \<noteq> 127" "c \<noteq> 0" and room: "length (committed s) + length (pending s) < 128"
  shows "\<exists>t. consoleintr c s = Ret () t \<and> edits c s t"
proof -
  define c' where "c' = (if c = 13 then 10 else c)"
  have cpu: "cpu_ok s" using ok(1) by (simp add: tx_ready_def)
  obtain l where l: "consputc c' (acq L_cons s) = Ret () (acq L_cons (s\<lparr>iolog := l\<rparr>))"
    using prints_consputc[of "acq L_cons s" c'] ok(1) cpu by (auto simp: prints_def)
  define t where "t = type1 (word_of_int c') (s\<lparr>iolog := l\<rparr>)"
  have t: "cons_inv t" "committed t = committed s" "pending t = pending s @ [word_of_int c']"
    using type1[of "s\<lparr>iolog := l\<rparr>" "word_of_int c'"] ok(4) room by (simp_all add: t_def)
  have st: "same_cpus s t" by (simp add: t_def type1_def same_cpus_def)
  define line where "line \<longleftrightarrow> c' = 10 \<or> c' = 4 \<or> length (committed s) + length (pending t) = 128"
  define u where "u = (if line then wake C_cons_r (enter t) else t)"
  have e: "same_cpus s (enter t)" using st by (simp add: enter_def same_cpus_def)
  have w: "wakeup C_cons_r (acq L_cons (enter t)) = Ret () (acq L_cons (wake C_cons_r (enter t)))"
    using wakeup_eq[of "acq L_cons (enter t)"] ok(2) same_cpusD(2)[OF e] by simp
  have su: "same_cpus s u" using st e same_cpus_trans[OF e wake_console(15)] by (simp add: u_def)
  have r: "release L_cons (acq L_cons u) = Ret () u"
    using cpu ok(3) same_cpusD(1,4)[OF su] by (intro release_acq) simp_all
  have test: "c \<noteq> 0 \<and> cons_e s - cons_r s < INPUT_BUF" using c(5) room cons_room[OF ok(4)] by simp
  have "consoleintr c s = Ret () u"
    using c test l w r cons_full[OF t(1)] t(2) ok(3) unfolding u_def line_def
    by (auto simp: consoleintr_def bind_def acquire_eq reads_def Let_def c'_def[symmetric] modify_def ret_def
        t_def[unfolded type1_def, simplified, symmetric] enter_def[symmetric])
  moreover have "edits c s u"
    unfolding edits_def using su t enter[OF t(1)] c room
    by (simp add: u_def line_edit_def Let_def c'_def[symmetric] line_def)
  ultimately show ?thesis by blast
qed

lemma intr_other:
  assumes ok: "tx_ready s" "locks s L_cons = free_lock" "locks s L_pr = free_lock" "cons_inv s"
    and c: "c \<in> {16, 21, 8, 127, 0} \<or> length (committed s) + length (pending s) \<ge> 128"
  shows "\<exists>t. consoleintr c s = Ret () t \<and> edits c s t"
proof -
  have cpu: "cpu_ok s" using ok(1) by (simp add: tx_ready_def)
  then have acq_ok: "tx_ready (acq L_cons s)" "locks (acq L_cons s) L_pr = free_lock" using ok by simp_all
  have rel: "release L_cons (acq L_cons t) = Ret () t" if "same_cpus s t" for t
    using cpu ok(2) same_cpusD(1,4)[OF that] by (intro release_acq) simp_all
  consider "c = 16" | "c = 21" | "c = 8 \<or> c = 127"
    | "c \<notin> {16, 21, 8, 127}" "c = 0 \<or> length (committed s) + length (pending s) \<ge> 128" using c by auto
  then show ?thesis
  proof cases
    case 1
    obtain l where "procdump (acq L_cons s) = Ret () (acq L_cons (s\<lparr>iolog := l\<rparr>))"
      using procdump_prints[OF acq_ok] by (auto simp: prints_some_def prints_def)
    moreover have "same_cpus s (s\<lparr>iolog := l\<rparr>)" by (simp add: same_cpus_def)
    ultimately show ?thesis using 1 ok rel
      by (intro exI[of _ "s\<lparr>iolog := l\<rparr>"]) (simp add: consoleintr_def bind_def acquire_eq edits_def line_edit_def)
  next
    case 2
    have n: "length (pending (acq L_cons s)) \<le> unat (cons_e s - cons_w s)" by (simp add: pending_def)
    obtain e l where k: "kill_line (unat (cons_e s - cons_w s)) (acq L_cons s) = Ret () (acq L_cons (s\<lparr>iolog := l, cons_e := e\<rparr>))"
        "cons_inv (s\<lparr>cons_e := e\<rparr>)" "pending (s\<lparr>cons_e := e\<rparr>) = kill_typed (pending s)"
      using kill_line_runs[OF acq_ok(1) _ n] ok(4) by auto
    let ?t = "s\<lparr>iolog := l, cons_e := e\<rparr>"
    have "same_cpus s ?t" by (simp add: same_cpus_def)
    moreover have "cons_inv ?t" "pending ?t = kill_typed (pending s)" "committed ?t = committed s"
      using k(2,3) by (simp_all add: cons_inv_def pending_def committed_def)
    ultimately show ?thesis using 2 ok rel k(1)
      by (intro exI[of _ ?t]) (simp add: consoleintr_def bind_def acquire_eq reads_def edits_def line_edit_def)
  next
    case 3
    show ?thesis
    proof (cases "pending s = []")
      case True
      then show ?thesis using 3 ok rel[of s] pending_Nil[of s]
        by (intro exI[of _ s]) (auto simp: consoleintr_def bind_def acquire_eq reads_def ret_def edits_def line_edit_def)
    next
      case False
      note b = back1[OF ok(4) False]
      have "tx_ready (back1 s)" using ok(1) by (simp add: back1_def)
      moreover from this have "cpu_ok (back1 s)" by (simp add: tx_ready_def)
      ultimately have ready: "tx_ready (acq L_cons (back1 s))" by simp
      obtain l where l: "consputc BACKSPACE (acq L_cons (back1 s)) = Ret () (acq L_cons ((back1 s)\<lparr>iolog := l\<rparr>))"
        using prints_consputc[of "acq L_cons (back1 s)" BACKSPACE] ready by (auto simp: prints_def)
      let ?t = "(back1 s)\<lparr>iolog := l\<rparr>"
      have st: "same_cpus s ?t" by (simp add: same_cpus_def back1_def)
      have "cons_e s \<noteq> cons_w s" using False pending_Nil by auto
      then have "consoleintr c s = Ret () ?t" using 3 ok rel[OF st] l
        by (auto simp: consoleintr_def bind_def acquire_eq reads_def modify_def back1_def)
      moreover have "butlast (pending s) = pending (back1 s)" using b(3) by (metis butlast_snoc)
      ultimately show ?thesis using 3 st b(1,2) by (intro exI[of _ ?t]) (auto simp: edits_def line_edit_def)
    qed
  next
    case 4
    then have "\<not> (c \<noteq> 0 \<and> cons_e s - cons_r s < INPUT_BUF)" using cons_room[OF ok(4)] by auto
    then show ?thesis using 4 ok rel[of s]
      by (intro exI[of _ s]) (auto simp: consoleintr_def bind_def acquire_eq reads_def ret_def edits_def line_edit_def)
  qed
qed

text \<open>
  C25. Typing at the console. For every character that arrives, with a device that takes
  output, \<open>consoleintr\<close> returns, keeps the order of the three indices of its buffer
  (also when they wrap around), and changes the characters that can be read and the line
  being typed as the line editor says: erase and kill act on the typed line only, a
  newline, control-D or a full buffer hands the line over, and what does not fit is dropped.
\<close>

theorem consoleintr_edits:
  assumes "tx_ready s" "procs_free s" "locks s L_cons = free_lock" "locks s L_pr = free_lock" "cons_inv s"
  shows "\<exists>t. consoleintr c s = Ret () t \<and> cons_inv t \<and> locks t = locks s \<and>
    (committed t, pending t) = line_edit c (committed s, pending s)"
proof -
  have "\<exists>t. consoleintr c s = Ret () t \<and> edits c s t"
  proof (cases "c \<in> {16, 21, 8, 127, 0} \<or> length (committed s) + length (pending s) \<ge> 128")
    case True
    then show ?thesis using assms by (intro intr_other)
  next
    case False
    then show ?thesis using assms by (intro intr_typed) auto
  qed
  then show ?thesis unfolding edits_def using same_cpusD(4) by blast
qed

section \<open>Reading lines\<close>

text \<open>
  What a read of at most \<open>n\<close> characters takes from the characters that can be read, and
  what it leaves; None when it has to wait. A line ends with a newline, which is part of
  it, or with control-D, which is dropped if nothing was read before it and else stays to
  end the next read.
\<close>

fun take_line :: "nat \<Rightarrow> bool \<Rightarrow> uchar list \<Rightarrow> (uchar list \<times> uchar list) option" where
  "take_line 0 some cs = Some ([], cs)"
| "take_line (Suc n) some [] = None"
| "take_line (Suc n) some (c # cs) =
     (if c = 4 then Some ([], if some then c # cs else cs)
      else if c = 10 then Some ([c], cs)
      else map_option (\<lambda>(xs, rest). (c # xs, rest)) (take_line n True cs))"

definition cons_user :: "nat \<Rightarrow> addr list \<Rightarrow> (uint64 \<Rightarrow> uint64) \<Rightarrow> 'z console_scheme \<Rightarrow> bool" where
  "cons_user p ps F s \<longleftrightarrow> thread p s \<and> locks s L_cons = free_lock \<and> cons_inv s \<and>
     uspace s (pagetable (ptable s p)) ps F"

lemma cons_userD:
  assumes "cons_user p ps F s"
  shows "thread p s" "cpu_ok s" "curproc s = Some p" "locks s L_cons = free_lock" "cons_inv s"
    "uspace s (pagetable (ptable s p)) ps F"
  using assms threadD[of p s] by (simp_all add: cons_user_def)

definition read1 :: "'z console_scheme \<Rightarrow> 'z console_scheme" where
  "read1 s = s\<lparr>cons_r := cons_r s + 1\<rparr>"

lemma committed_Nil: "committed s = [] \<longleftrightarrow> cons_r s = cons_w s"
proof -
  have "committed s = [] \<longleftrightarrow> length (committed s) = 0" by simp
  also have "\<dots> \<longleftrightarrow> cons_w s - cons_r s = 0" by (simp add: committed_def unat_eq_0)
  finally show ?thesis by auto
qed

lemma read1:
  assumes "cons_inv s" "committed s \<noteq> []"
  shows "cons_inv (read1 s)" "committed s = cons_buf s (unat (cons_r s mod INPUT_BUF)) # committed (read1 s)"
    "pending (read1 s) = pending s"
proof -
  have ne: "cons_r s \<noteq> cons_w s" using assms(2) committed_Nil by auto
  show c: "committed s = cons_buf s (unat (cons_r s mod INPUT_BUF)) # committed (read1 s)"
    using ring_adv[OF cons_ring(1) ne, of "cons_buf s"] by (simp add: committed_def read1_def cons_ring(2))
  show "pending (read1 s) = pending s" by (simp add: pending_def read1_def)
  have "cons_e s - cons_r s \<noteq> 0" "cons_w s - cons_r s \<noteq> 0" using assms cons_lengths(1)[OF assms(1)] ne by auto
  then have "unat (cons_e s - (cons_r s + 1)) = unat (cons_e s - cons_r s) - 1"
      "unat (cons_w s - (cons_r s + 1)) = unat (cons_w s - cons_r s) - 1"
    using unat_minus_one[of "cons_e s - cons_r s"] unat_minus_one[of "cons_w s - cons_r s"]
    by (simp_all only: diff_diff_add simp_thms)
  then show "cons_inv (read1 s)" using assms(1) by (auto simp: cons_inv_def read1_def)
qed

lemma read1_acq [simp]: "read1 (acq lk s) = acq lk (read1 s)"
  by (simp add: read1_def)

lemma read1_undo: "(read1 s)\<lparr>cons_r := cons_r (read1 s) - 1\<rparr> = s"
  by (simp add: read1_def)

lemma cons_user_frame:
  assumes "cons_user p ps F s" "committed s \<noteq> []"
  shows "cons_user p ps F (read1 s)"
    and "uacc F va \<Longrightarrow> cons_user p ps F ((read1 s)\<lparr>mem := (mem s)(uaddr F va := x)\<rparr>)"
proof -
  note d = cons_userD[OF assms(1)]
  have c: "same_cpus s (read1 s)" by (simp add: same_cpus_def read1_def)
  have us: "uspace (read1 s) (pagetable (ptable s p)) ps F"
    using uspace_cong[of "read1 s" s] d(6) same_cpusD(1)[OF c] by (simp add: read1_def)
  then show u: "cons_user p ps F (read1 s)"
    using d read1(1)[OF d(5) assms(2)] same_cpusD(3,4)[OF c] by (simp add: cons_user_def) (simp add: read1_def)
  show "cons_user p ps F ((read1 s)\<lparr>mem := (mem s)(uaddr F va := x)\<rparr>)" if "uacc F va"
    using uspace_store[OF us that, of x] u
    by (simp add: cons_user_def cons_inv_def) (simp add: read1_def)
qed

lemma consoleread_wait_ready:
  "committed s \<noteq> [] \<Longrightarrow> consoleread_wait (acq L_cons s) = Ret False (acq L_cons s)"
  using committed_Nil[of s] by (simp add: consoleread_wait_def sleep_until_def bind_def reads_def ret_def)

lemma either_copyout_byte:
  assumes "cons_user p ps F s" "uacc F va"
  shows "either_copyout True va kbuf k (\<lambda>_. c) 1 (acq L_cons s)
    = Ret (0, kbuf) (acq L_cons (s\<lparr>mem := (mem s)(uaddr F va := c)\<rparr>))"
proof -
  note d = cons_userD[OF assms(1)]
  have us: "uspace (acq L_cons s) (pagetable (ptable s p)) ps F" using uspace_cong[of "acq L_cons s" s] d by simp
  show ?thesis using copyout_byte[OF us, of va c] assms(2) d(3) myproc_eq[of "acq L_cons s"]
    by (simp add: either_copyout_def bind_def deref_def ret_def proc_of_def reads_def)
qed

lemma uint_eq_4: "uint (c :: uchar) = 4 \<longleftrightarrow> c = 4"
  by (simp add: word_uint_eq_iff)

lemma consoleread_from_line:
  assumes "cons_user p ps F s" "n \<le> target" "take_line n (n < target) (committed s) = Some (xs, rest)"
    and "all_uacc F dst (length xs)"
  shows "\<exists>t. consoleread_from True dst target k n kbuf (acq L_cons s) = Ret (Some (n - length xs), kbuf) (acq L_cons t) \<and>
    cons_user p ps F t \<and> committed t = rest \<and> pending t = pending s \<and> mem t = ustore F dst xs (mem s) \<and> length xs \<le> n"
  using assms
proof (induction n arbitrary: s dst k xs)
  case 0
  then show ?case by (intro exI[of _ s]) (simp add: ret_def)
next
  case (Suc n)
  note d = cons_userD[OF Suc.prems(1)]
  have some: "committed s \<noteq> []" using Suc.prems(3) by (cases "committed s") auto
  let ?c = "cons_buf s (unat (cons_r s mod INPUT_BUF))"
  note r = read1[OF d(5) some] and u = cons_user_frame[OF Suc.prems(1) some]
  have run: "consoleread_from True dst target k (Suc n) kbuf (acq L_cons s) =
    (if ?c = 4 then Ret (Some (Suc n), kbuf) (acq L_cons (if Suc n < target then s else read1 s))
     else bind (either_copyout True dst kbuf k (\<lambda>_. ?c) 1) (\<lambda>(r, kbuf').
       if r = -1 then ret (Some (Suc n), kbuf') else if ?c = 10 then ret (Some n, kbuf')
       else consoleread_from True (dst + 1) target (Suc k) n kbuf') (acq L_cons (read1 s)))"
    using read1_undo[of s] by (simp add: bind_def [of consoleread_wait] consoleread_wait_ready[OF some] bind_def [of "reads f" for f]
        reads_def bind_def [of "modify f" for f] modify_def read1_def[symmetric] uint_eq_4 ret_def)
  consider "?c = 4" | "?c = 10" | "?c \<noteq> 4" "?c \<noteq> 10" by blast
  then show ?case
  proof cases
    case 1
    then show ?thesis using run Suc.prems r u(1)
      by (intro exI[of _ "if Suc n < target then s else read1 s"]) (auto simp: read1_def)
  next
    case 2
    then have xs: "xs = [?c]" "rest = committed (read1 s)" using Suc.prems(3) r(2) by auto
    have acc: "uacc F dst" using Suc.prems(4) xs(1) by (simp add: all_uacc_def)
    let ?t = "(read1 s)\<lparr>mem := (mem s)(uaddr F dst := ?c)\<rparr>"
    show ?thesis using run 2 either_copyout_byte[OF u(1) acc, of kbuf k ?c] u(2)[OF acc] xs r(3)
      by (intro exI[of _ ?t]) (simp add: bind_def ret_def committed_def pending_def read1_def)
  next
    case 3
    then obtain ys where ys: "xs = ?c # ys" "take_line n True (committed (read1 s)) = Some (ys, rest)"
      using Suc.prems(3) r(2) by auto
    have acc: "uacc F dst" "all_uacc F (dst + 1) (length ys)"
      using Suc.prems(4) ys(1) by (auto simp: all_uacc_def add.assoc dest: spec[of _ "Suc i" for i] spec[of _ 0])
    let ?t = "(read1 s)\<lparr>mem := (mem s)(uaddr F dst := ?c)\<rparr>"
    have t: "committed ?t = committed (read1 s)" "pending ?t = pending s" "mem ?t = (mem s)(uaddr F dst := ?c)"
      using r(3) by (simp_all add: committed_def pending_def)
    have "n < target" using Suc.prems(2) by simp
    then obtain v where "consoleread_from True (dst + 1) target (Suc k) n kbuf (acq L_cons ?t) = Ret (Some (n - length ys), kbuf) (acq L_cons v)"
        "cons_user p ps F v" "committed v = rest" "pending v = pending s" "mem v = ustore F (dst + 1) ys (mem ?t)" "length ys \<le> n"
      using Suc.IH[OF u(2)[OF acc(1), of ?c], of ys "dst + 1" "Suc k"] ys(2) acc(2) t by (auto simp del: fun_upd_apply)
    then show ?thesis using run 3 either_copyout_byte[OF u(1) acc(1), of kbuf k ?c] ys(1) t(3)
      by (intro exI[of _ v]) (simp add: bind_def read1_def)
  qed
qed

lemma consoleread_wait_empty:
  assumes "cons_user p ps F s" "committed s = []"
  shows "killed (ptable s p) \<Longrightarrow> consoleread_wait (acq L_cons s) = Ret True s"
    and "\<not> killed (ptable s p) \<Longrightarrow> noff_of s = 0 \<Longrightarrow>
      \<exists>k. consoleread_wait (acq L_cons s) = Swtch (acq (L_proc p) (asleep p C_cons_r s)) k"
proof -
  note d = cons_userD[OF assms(1)]
  let ?body = "bind (reads (\<lambda>s. cons_r s = cons_w s)) (\<lambda>empty.
        if \<not> empty then ret (Some False) else
        bind curp (\<lambda>p. bind (proc_of p killed) (\<lambda>k.
        if k then bind (release L_cons) (\<lambda>_. ret (Some True)) else ret None)))"
  have e: "cons_r s = cons_w s" using assms(2) committed_Nil by auto
  have c: "curp (acq L_cons s) = Ret p (acq L_cons s)" using d curp_eq[of "acq L_cons s" p] by simp
  show "killed (ptable s p) \<Longrightarrow> consoleread_wait (acq L_cons s) = Ret True s"
    using e c release_acq[of s L_cons] d
    by (simp add: consoleread_wait_def sleep_until_def bind_def reads_def proc_of_def ret_def)
  assume "\<not> killed (ptable s p)" "noff_of s = 0"
  moreover from this have "?body (acq L_cons s) = Ret None (acq L_cons s)"
    using e c by (simp add: bind_def reads_def proc_of_def ret_def)
  ultimately show "\<exists>k. consoleread_wait (acq L_cons s) = Swtch (acq (L_proc p) (asleep p C_cons_r s)) k"
    unfolding consoleread_wait_def
    using sleep_until_sleeps[of ?body L_cons s s "patience s" p "\<lambda>_. False" undefined undefined C_cons_r] d by auto
qed

text \<open>
  C26. Reading from the console. A read takes a line, or the number of characters asked
  for, from the front of the characters that can be read, stores exactly these at the user
  range, returns their number, and leaves the rest and the line being typed alone. With
  nothing to read it returns -1 when the process is killed and else puts it to sleep.
\<close>

theorem consoleread_line:
  assumes u: "cons_user p ps F s"
  shows "(take_line (nat n) False (committed s) = Some (xs, rest) \<longrightarrow> all_uacc F va (length xs) \<longrightarrow>
      (\<exists>t. consoleread True va kbuf n s = Ret (int (length xs), kbuf) t \<and> committed t = rest \<and> pending t = pending s \<and>
        cons_inv t \<and> uwritten F va (\<lambda>i. xs ! i) (length xs) (mem s) (mem t)))
    \<and> (0 < n \<longrightarrow> committed s = [] \<longrightarrow> killed (ptable s p) \<longrightarrow> consoleread True va kbuf n s = Ret (-1, kbuf) s)
    \<and> (0 < n \<longrightarrow> committed s = [] \<longrightarrow> \<not> killed (ptable s p) \<longrightarrow> noff_of s = 0 \<longrightarrow>
      (\<exists>k. consoleread True va kbuf n s = Swtch (acq (L_proc p) (asleep p C_cons_r s)) k))"
proof (intro conjI impI)
  note d = cons_userD[OF u]
  show "\<exists>t. consoleread True va kbuf n s = Ret (int (length xs), kbuf) t \<and> committed t = rest \<and> pending t = pending s \<and>
        cons_inv t \<and> uwritten F va (\<lambda>i. xs ! i) (length xs) (mem s) (mem t)"
    if l: "take_line (nat n) False (committed s) = Some (xs, rest)" "all_uacc F va (length xs)"
  proof -
    obtain t where t: "consoleread_from True va (nat n) 0 (nat n) kbuf (acq L_cons s) = Ret (Some (nat n - length xs), kbuf) (acq L_cons t)"
        "cons_user p ps F t" "committed t = rest" "pending t = pending s" "mem t = ustore F va xs (mem s)" "length xs \<le> nat n"
      using consoleread_from_line[OF u order_refl] l by fastforce
    have "release L_cons (acq L_cons t) = Ret () t" using cons_userD[OF t(2)] by (intro release_acq)
    then show ?thesis using t d(4) cons_userD(5)[OF t(2)] ustore_written[OF d(6) l(2), of "mem s"]
      by (intro exI[of _ t]) (simp add: consoleread_def bind_def acquire_eq ret_def of_nat_diff)
  qed
  show "consoleread True va kbuf n s = Ret (-1, kbuf) s" if n: "0 < n" and "committed s = []" "killed (ptable s p)"
  proof -
    obtain m where "nat n = Suc m" using n gr0_implies_Suc[of "nat n"] by auto
    then show ?thesis using consoleread_wait_empty(1)[OF u that(2,3)] d(4)
      by (simp add: consoleread_def bind_def acquire_eq ret_def)
  qed
  show "\<exists>k. consoleread True va kbuf n s = Swtch (acq (L_proc p) (asleep p C_cons_r s)) k"
    if n: "0 < n" and "committed s = []" "\<not> killed (ptable s p)" "noff_of s = 0"
  proof -
    obtain m where "nat n = Suc m" using n gr0_implies_Suc[of "nat n"] by auto
    then show ?thesis using consoleread_wait_empty(2)[OF u that(2-4)] d(4)
      by (auto simp: consoleread_def bind_def acquire_eq)
  qed
qed

section \<open>A concrete console\<close>

text \<open>A UART that is always idle, and a line with one letter to read.\<close>

definition console0 :: "kmem \<Rightarrow> files" where
  "console0 k = (files0 k pipe0)\<lparr>iodev := (\<lambda>_ _. 32), cons_buf := (\<lambda>i. if i = 0 then 104 else 10), cons_w := 2, cons_e := 2\<rparr>"

lemma console0_sel [simp]:
  "same_cpus ((files0 k pipe0)\<lparr>iodev := (\<lambda>_ _. 32)\<rparr>) (console0 k)" "locks (console0 k) lk = free_lock"
  "thread 0 (console0 k)" "noff_of (console0 k) = 0" "cons_inv (console0 k)" "\<not> panicked (console0 k)" "cpu_ok (console0 k)"
  "committed (console0 k) = [104, 10]" "pending (console0 k) = []" "uartq_ok (uart_q (console0 k))" "uart_stream (console0 k) = []"
  "pagetable (ptable (console0 k) i) = vm_page 0" "procs_free (console0 k)"
proof -
  have f: "tp (console0 k) = tp (files0 k pipe0)" "harts (console0 k) = harts (files0 k pipe0)"
    "cpus (console0 k) = cpus (files0 k pipe0)" "locks (console0 k) = locks (files0 k pipe0)"
    by (simp_all add: console0_def)
  have g: "cons_r (files0 k pipe0) = 0" "uart_tx_r (files0 k pipe0) = 0" "uart_tx_w (files0 k pipe0) = 0"
    "iolog (files0 k pipe0) = []" "\<not> panicked (files0 k pipe0)"
    by (simp_all add: files0_def log.defs log0_def sleeplocks.defs)
  show t: "thread 0 (console0 k)" using thread_cong(1)[OF f] by simp
  then show "cpu_ok (console0 k)" "procs_free (console0 k)" using threadD[OF t] by simp_all
  show "noff_of (console0 k) = 0" using f files0_thread(2)[of k pipe0] by (simp add: noff_of_def)
  show "locks (console0 k) lk = free_lock" "pagetable (ptable (console0 k) i) = vm_page 0" by (simp_all add: console0_def)
  show "same_cpus ((files0 k pipe0)\<lparr>iodev := (\<lambda>_ _. 32)\<rparr>) (console0 k)" by (simp add: console0_def same_cpus_def)
  show "cons_inv (console0 k)" "committed (console0 k) = [104, 10]" "pending (console0 k) = []"
    "uartq_ok (uart_q (console0 k))" "uart_stream (console0 k) = []" "\<not> panicked (console0 k)"
    using g by (simp_all add: console0_def cons_inv_def committed_def pending_def ring_items_def uart_q_def uart_stream_def upt_rec)
qed

theorem uart_output_stream_witness:
  "\<exists>t. uartputc 65 (console0 vm0) = Ret () t \<and> uart_stream t = [65]"
proof -
  have "uartq_items (uart_q (console0 vm0)) = []" using console0_sel(11)[of vm0] unfolding uart_stream_def by blast
  then show ?thesis using uart_output_stream[of 0 "console0 vm0" 65] by auto
qed

theorem consoleintr_edits_witness:
  "\<exists>t. consoleintr 97 (console0 vm0) = Ret () t \<and> (committed t, pending t) = ([104, 10], [97])"
proof -
  have "tx_ready (console0 vm0)" by (simp add: tx_ready_def tx_idle_def LSR_TX_IDLE_def) (simp add: console0_def)
  then show ?thesis using consoleintr_edits[of "console0 vm0" 97] by (auto simp: line_edit_def)
qed

theorem consoleread_line_witness:
  "\<exists>k t. consoleread True 16 (\<lambda>_. 0) 2 (console0 k) = Ret (2, \<lambda>_. 0) t \<and> committed t = []"
proof -
  obtain k :: kmem and ps F where k: "uspace k (vm_page 0) ps F" "\<forall>va. unat va < 4096 \<longrightarrow> uacc F va"
    using vm0_uspace by blast
  have "cpu_ok k" "locks k L_kmem = free_lock" using k(1) by (simp_all add: uspace_def vmspace_def kmem_free_def)
  then have "uspace (console0 k) (vm_page 0) ps F"
    using uspace_cong[of "console0 k" k] k(1) by (simp, simp add: console0_def)
  then have u: "cons_user 0 ps F (console0 k)" by (simp add: cons_user_def)
  have "take_line (Suc (Suc 0)) False [104, 10] = Some ([104, 10], [])" by simp
  moreover have "nat 2 = Suc (Suc 0)" by simp
  ultimately have l: "take_line (nat 2) False (committed (console0 k)) = Some ([104, 10], [])"
    by (simp only: console0_sel)
  have a: "all_uacc F 16 (length [104, 10 :: uchar])" using k(2) by (simp add: all_uacc_def less_Suc_eq)
  obtain t where "consoleread True 16 (\<lambda>_. 0) 2 (console0 k) = Ret (int (length [104, 10 :: uchar]), \<lambda>_. 0) t" "committed t = []"
    using conjunct1[OF consoleread_line[OF u, of 2 "[104, 10]" "[]" 16 "\<lambda>_. 0"]] l a by blast
  then show ?thesis by (intro exI[of _ k] exI[of _ t]) simp
qed

end
