(* ===== verification/FsCodec.thy ===== *)
theory FsCodec
  imports Fs BlockCodec
begin

unbundle bit_operations_syntax

text \<open>
  The on-disk format: inodes and directory entries as they are stored in blocks.
\<close>

section \<open>Inodes\<close>

lemma put_addrs_ld:
  "i < n \<Longrightarrow> ld32 (put_addrs a ofs n d) (ofs + 12 + 4 * i) = a i"
  "j + 4 \<le> ofs + 12 \<or> ofs + 12 + 4 * n \<le> j \<Longrightarrow> ld32 (put_addrs a ofs n d) j = ld32 d j"
  "j + 2 \<le> ofs + 12 \<or> ofs + 12 + 4 * n \<le> j \<Longrightarrow> ld16 (put_addrs a ofs n d) j = ld16 d j"
proof (induction n)
  case (Suc n)
  { case 1 then show ?case using Suc.IH(1) by (cases "i = n") (simp_all add: ld32_st32_other) }
  { case 2 then show ?case using Suc.IH(2) by (auto simp: ld32_st32_other) }
  { case 3 then show ?case using Suc.IH(3) by (auto simp: ld16_st32_other) }
qed simp_all

text \<open>Inodes with different numbers in a block do not overlap.\<close>

lemma dinode_off_apart:
  assumes "n mod IPB \<noteq> m mod IPB"
  shows "dinode_off n + 64 \<le> dinode_off m \<or> dinode_off m + 64 \<le> dinode_off n"
proof -
  have "unat (n mod IPB) \<noteq> unat (m mod IPB)" using assms by (simp add: word_unat_eq_iff)
  then show ?thesis unfolding dinode_off_def by linarith
qed

lemma dinode_off_bound: "dinode_off n + 64 \<le> unat BSIZE"
proof -
  have "unat (n mod IPB) < 16" by (simp add: unat_mod IPB_def)
  then show ?thesis by (simp add: dinode_off_def BSIZE_def)
qed

text \<open>The fields of an in-memory inode that are copied from its block, taken from \<open>ip\<close>.\<close>

definition disk_part :: "inode \<Rightarrow> inode \<Rightarrow> inode" where
  "disk_part ip q = q\<lparr>itype := itype ip, imajor := imajor ip, iminor := iminor ip, nlink := nlink ip,
     isize := isize ip, iaddrs := (\<lambda>i. if i \<le> NDIRECT then iaddrs ip i else iaddrs q i)\<rparr>"

lemma get_put_dinode: "get_dinode (put_dinode ip ofs d) ofs q = disk_part ip q"
proof -
  have "i \<le> NDIRECT \<Longrightarrow> ld32 (put_dinode ip ofs d) (ofs + 12 + 4 * i) = iaddrs ip i" for i
    unfolding put_dinode_def by (rule put_addrs_ld(1)) simp
  moreover have "ld16 (put_dinode ip ofs d) ofs = itype ip" "ld16 (put_dinode ip ofs d) (ofs + 2) = imajor ip"
    "ld16 (put_dinode ip ofs d) (ofs + 4) = iminor ip" "ld16 (put_dinode ip ofs d) (ofs + 6) = nlink ip"
    "ld32 (put_dinode ip ofs d) (ofs + 8) = isize ip"
    by (simp_all add: put_dinode_def put_addrs_ld(2,3) ld16_st32_other ld16_st16_other ld32_st16_other
        del: put_addrs.simps)
  ultimately show ?thesis by (simp add: get_dinode_def disk_part_def fun_eq_iff)
qed

lemma get_put_dinode_other:
  assumes "o1 + 64 \<le> o2 \<or> o2 + 64 \<le> o1"
  shows "get_dinode (put_dinode ip o1 d) o2 q = get_dinode d o2 q"
proof -
  have n: "4 * (NDIRECT + 1) = 52" by (simp add: NDIRECT_def)
  have a32: "ld32 (put_dinode ip o1 d) (o2 + k) = ld32 d (o2 + k)" if "k + 4 \<le> 64" for k
    using assms that n unfolding put_dinode_def
    by (subst put_addrs_ld(2)) (auto simp: ld32_st32_other ld32_st16_other)
  have a16: "ld16 (put_dinode ip o1 d) (o2 + k) = ld16 d (o2 + k)" if "k + 2 \<le> 64" for k
    using assms that n unfolding put_dinode_def
    by (subst put_addrs_ld(3)) (auto simp: ld16_st32_other ld16_st16_other)
  have "ld32 (put_dinode ip o1 d) (o2 + 12 + 4 * i) = ld32 d (o2 + 12 + 4 * i)" if "i \<le> NDIRECT" for i
    using a32[of "12 + 4 * i"] that by (simp add: NDIRECT_def add.assoc)
  then show ?thesis using a16[of 0] a16[of 2] a16[of 4] a16[of 6] a32[of 8]
    by (simp add: get_dinode_def cong: if_cong)
qed

section \<open>Directory entries\<close>

lemma de_make_dirent:
  "de_inum (make_dirent n name) = n" "i < DIRSIZ \<Longrightarrow> de_name (make_dirent n name) i = (if \<exists>k<i. name k = 0 then 0 else name i)"
  by (simp_all add: de_inum_def de_name_def make_dirent_def st16_other kcopy_def strncpy_apply)

lemma cstr_eq_upto_copy:
  assumes "\<And>i. i < n \<Longrightarrow> d i = (if \<exists>k<i. y k = 0 then 0 else y i)"
  shows "cstr_eq_upto x d n = cstr_eq_upto x y n"
proof -
  have "x i = y i" if e: "cstr_eq_upto x d n" "i < n" "\<forall>j<i. x j \<noteq> 0" for i
    using e(2,3)
  proof (induction i rule: less_induct)
    case (less i)
    then have "\<And>j. j < i \<Longrightarrow> y j \<noteq> 0" by (metis less_trans)
    then show ?case using e(1) less.prems assms[of i] by (auto simp: cstr_eq_upto_def)
  qed
  moreover have "x i = d i" if e: "cstr_eq_upto x y n" "i < n" "\<forall>j<i. x j \<noteq> 0" for i
  proof -
    have "y j \<noteq> 0" if j: "j < i" for j
    proof -
      have "j < n" "\<forall>k<j. x k \<noteq> 0" using e(2,3) j by simp_all
      then have "x j = y j" using e(1) unfolding cstr_eq_upto_def by blast
      then show ?thesis using e(3) j by metis
    qed
    then have "d i = y i" using assms[OF e(2)] by auto
    then show ?thesis using e unfolding cstr_eq_upto_def by simp
  qed
  ultimately show ?thesis unfolding cstr_eq_upto_def by blast
qed

lemma namecmp_make_dirent: "namecmp x (de_name (make_dirent n y)) = 0 \<longleftrightarrow> cstr_eq_upto x y DIRSIZ"
  using cstr_eq_upto_copy[OF de_make_dirent(2)] by (simp add: namecmp_def strncmp_zero_iff)

text \<open>
  C27. The disk format of inodes and directory entries. An inode written into its place of
  a block is read back from there, and the other inodes of the block, which lie inside the
  block too, read as before. A directory entry holds its inode number, and a name matches
  it exactly when the two names agree up to the end of the name or 14 characters.
\<close>

theorem disk_format_roundtrip:
  "get_dinode (put_dinode ip (dinode_off n) d) (dinode_off n) q =
     q\<lparr>itype := itype ip, imajor := imajor ip, iminor := iminor ip, nlink := nlink ip, isize := isize ip,
       iaddrs := (\<lambda>i. if i \<le> NDIRECT then iaddrs ip i else iaddrs q i)\<rparr>
   \<and> dinode_off n + 64 \<le> unat BSIZE
   \<and> (n mod IPB \<noteq> m mod IPB \<longrightarrow>
        get_dinode (put_dinode ip (dinode_off n) d) (dinode_off m) q = get_dinode d (dinode_off m) q)
   \<and> de_inum (make_dirent k name) = k
   \<and> (namecmp x (de_name (make_dirent k name)) = 0 \<longleftrightarrow> (\<forall>i<14. (\<forall>j<i. x j \<noteq> 0) \<longrightarrow> x i = name i))"
  using get_put_dinode[of ip "dinode_off n" d q] get_put_dinode_other[OF dinode_off_apart, of n m ip d q]
    dinode_off_bound[of n] de_make_dirent(1)[of k name] namecmp_make_dirent[of x k name]
  by (simp add: disk_part_def cstr_eq_upto_def DIRSIZ_def)

definition inode3 :: inode where
  "inode3 = \<lparr>idev = 1, inum = 3, iref = 1, ivalid = True, itype = 2, imajor = 0, iminor = 0, nlink = 1,
     isize = 5, iaddrs = (\<lambda>_. 9)\<rparr>"

theorem disk_format_roundtrip_witness:
  "get_dinode (put_dinode inode3 (dinode_off 3) (\<lambda>_. 0)) (dinode_off 4) inode3 = get_dinode (\<lambda>_. 0) (dinode_off 4) inode3
   \<and> namecmp (\<lambda>i. if i = 0 then 97 else 0) (de_name (make_dirent 7 (\<lambda>i. if i = 0 then 97 else 0))) = 0"
  using disk_format_roundtrip[of inode3 3 "\<lambda>_. 0" inode3 4 7 "\<lambda>i. if i = 0 then 97 else 0" "\<lambda>i. if i = 0 then 97 else 0"]
  by (simp add: IPB_def)

end
