(* ===== verification/Paths.thy ===== *)
theory Paths
  imports FsCodec
begin

text \<open>
  Paths: \<open>skipelem\<close> called in a loop gives the elements between the slashes, and \<open>namex\<close>
  is a walk along the list of these elements.
\<close>

section \<open>The elements of a path\<close>

text \<open>The reference: cut at every slash and drop the empty pieces.\<close>

fun split_slash :: "uchar list \<Rightarrow> uchar list list" where
  "split_slash [] = [[]]"
| "split_slash (c # cs) =
     (if c = slash then [] # split_slash cs
      else (case split_slash cs of [] \<Rightarrow> [[c]] | e # es \<Rightarrow> (c # e) # es))"

definition elements :: "uchar list \<Rightarrow> uchar list list" where
  "elements path = filter (\<lambda>e. e \<noteq> []) (split_slash path)"

text \<open>The contents of \<open>name\<close> after each round of the loop \<open>while((path = skipelem(path, name)) != 0)\<close>.\<close>

function skip_all :: "uchar list \<Rightarrow> cstr \<Rightarrow> cstr list" where
  "skip_all path name =
     (case skipelem path name of None \<Rightarrow> [] | Some (path', name') \<Rightarrow> name' # skip_all path' name')"
  by pat_completeness auto

termination skip_all
  by (relation "measure (\<lambda>(path, _). length path)") (auto dest: skipelem_shorter)

declare skip_all.simps [simp del]

text \<open>The string in an array of 14 bytes.\<close>

definition name_of :: "cstr \<Rightarrow> uchar list" where
  "name_of b = takeWhile (\<lambda>c. c \<noteq> 0) (map b [0..<DIRSIZ])"

lemma split_slash_nonempty [simp]: "split_slash cs \<noteq> []"
  by (induction cs) (auto split: list.split)

lemma split_element:
  assumes "slash \<notin> set e"
  shows "split_slash e = [e]" "split_slash (e @ slash # r) = e # split_slash r"
  using assms by (induction e) auto

lemma elements_slash [simp]: "elements (slash # cs) = elements cs"
  by (simp add: elements_def)

lemma elements_dropWhile: "elements (dropWhile (\<lambda>c. c = slash) cs) = elements cs"
  by (induction cs) simp_all

lemma elements_Nil [simp]: "elements [] = []"
  by (simp add: elements_def)

lemma elements_element:
  assumes "slash \<notin> set e" "e \<noteq> []" "r \<noteq> [] \<Longrightarrow> hd r = slash"
  shows "elements (e @ r) = e # elements r"
  using assms(2,3) split_element[OF assms(1)] by (cases r) (simp_all add: elements_def)

lemma hd_dropWhile_slash:
  "dropWhile (\<lambda>c. c = slash) cs \<noteq> [] \<Longrightarrow> hd (dropWhile (\<lambda>c. c = slash) cs) \<noteq> slash"
  "dropWhile (\<lambda>c. c \<noteq> slash) cs \<noteq> [] \<Longrightarrow> hd (dropWhile (\<lambda>c. c \<noteq> slash) cs) = slash"
  using hd_dropWhile[of "\<lambda>c. c = slash" cs] hd_dropWhile[of "\<lambda>c. c \<noteq> slash" cs] by blast+

lemma takeWhile_slash: "slash \<notin> set (takeWhile (\<lambda>c. c \<noteq> slash) cs)"
  by (induction cs) auto

lemma elements_Cons:
  assumes "cs \<noteq> []" "hd cs \<noteq> slash"
  shows "elements cs = takeWhile (\<lambda>c. c \<noteq> slash) cs # elements (dropWhile (\<lambda>c. c \<noteq> slash) cs)"
proof -
  have "takeWhile (\<lambda>c. c \<noteq> slash) cs \<noteq> []" using assms by (cases cs) simp_all
  then show ?thesis
    using elements_element[OF takeWhile_slash _ hd_dropWhile_slash(2), of cs cs] by (simp add: takeWhile_dropWhile_id)
qed

lemma takeWhile_NUL: "0 \<notin> set e \<Longrightarrow> takeWhile (\<lambda>c. c \<noteq> 0) (e @ 0 # xs) = e"
  by (induction e) auto

lemma name_of_elem:
  assumes "0 \<notin> set e"
  shows "length e \<ge> DIRSIZ \<Longrightarrow> name_of (kcopy b 0 (list_cstr e) DIRSIZ) = take DIRSIZ e"
    and "length e < DIRSIZ \<Longrightarrow> name_of ((kcopy b 0 (list_cstr e) (length e))(length e := 0)) = e"
proof -
  show "name_of (kcopy b 0 (list_cstr e) DIRSIZ) = take DIRSIZ e" if "length e \<ge> DIRSIZ"
  proof -
    have "map (kcopy b 0 (list_cstr e) DIRSIZ) [0..<DIRSIZ] = take DIRSIZ e"
      using that by (intro nth_equalityI) (simp_all add: kcopy_def list_cstr_def)
    moreover have "takeWhile (\<lambda>c. c \<noteq> 0) (take DIRSIZ e) = take DIRSIZ e"
      using assms by (auto simp: takeWhile_eq_all_conv dest: in_set_takeD)
    ultimately show ?thesis by (simp add: name_of_def)
  qed
  show "name_of ((kcopy b 0 (list_cstr e) (length e))(length e := 0)) = e" if "length e < DIRSIZ"
  proof -
    let ?b = "(kcopy b 0 (list_cstr e) (length e))(length e := 0)"
    have "map ?b [0..<length e] = e" by (intro nth_equalityI) (simp_all add: kcopy_def list_cstr_def)
    moreover have "[0..<DIRSIZ] = [0..<length e] @ length e # [Suc (length e)..<DIRSIZ]"
      using that upt_add_eq_append[of 0 "length e" "DIRSIZ - length e"] by (simp add: upt_conv_Cons)
    ultimately have "map ?b [0..<DIRSIZ] = e @ 0 # map ?b [Suc (length e)..<DIRSIZ]" by (simp only: map_append list.map fun_upd_same)
    then show ?thesis using takeWhile_NUL[OF assms] by (simp only: name_of_def)
  qed
qed

lemma skipelem_step:
  assumes "0 \<notin> set path"
  shows "case skipelem path name of
      None \<Rightarrow> elements path = []
    | Some (path', name') \<Rightarrow> \<exists>e. elements path = e # elements path' \<and> name_of name' = take DIRSIZ e \<and>
        (path' = [] \<longleftrightarrow> elements path' = []) \<and> 0 \<notin> set path'"
proof (cases "dropWhile (\<lambda>c. c = slash) path = []")
  case True
  then show ?thesis using elements_dropWhile[of path] by (simp add: skipelem_def del: dropWhile_eq_Nil_conv)
next
  case False
  define p where "p = dropWhile (\<lambda>c. c = slash) path"
  define e where "e = takeWhile (\<lambda>c. c \<noteq> slash) p"
  define r where "r = dropWhile (\<lambda>c. c \<noteq> slash) p"
  define q where "q = dropWhile (\<lambda>c. c = slash) r"
  have p: "p \<noteq> []" using False p_def by simp
  have sk: "skipelem path name = Some (q, if length e \<ge> DIRSIZ then kcopy name 0 (list_cstr e) DIRSIZ
      else (kcopy name 0 (list_cstr e) (length e))(length e := 0))"
    using p by (simp add: skipelem_def Let_def p_def e_def r_def q_def del: dropWhile_eq_Nil_conv)
  have el: "elements path = e # elements q"
    using elements_Cons[OF p] hd_dropWhile_slash(1) p elements_dropWhile[of path] elements_dropWhile[of r]
    unfolding p_def e_def r_def q_def by simp
  have "set p \<subseteq> set path" "set e \<subseteq> set p" "set q \<subseteq> set p"
    unfolding e_def p_def q_def r_def by (auto dest: set_dropWhileD set_takeWhileD)
  then have 0: "0 \<notin> set e" "0 \<notin> set q" using assms by blast+
  have "q = [] \<longleftrightarrow> elements q = []"
    using elements_Cons[of q] hd_dropWhile_slash(1)[of r] unfolding q_def by (metis elements_Nil list.distinct(1))
  then show ?thesis using sk el 0 name_of_elem[OF 0(1)] by (simp add: not_le)
qed

lemma skip_all_elements:
  "0 \<notin> set path \<Longrightarrow> map name_of (skip_all path name) = map (take DIRSIZ) (elements path)"
proof (induction path name rule: skip_all.induct)
  case (1 path name)
  show ?case
  proof (cases "skipelem path name")
    case None
    then show ?thesis using skipelem_step[OF 1(2), of name] by (simp add: skip_all.simps)
  next
    case (Some r)
    obtain path' name' where r: "r = (path', name')" by (cases r)
    with Some skipelem_step[OF 1(2), of name] obtain e where
      e: "elements path = e # elements path'" "name_of name' = take DIRSIZ e" "0 \<notin> set path'" by auto
    then show ?thesis using 1(1)[OF Some r[symmetric] e(3)] Some r
      by (simp add: skip_all.simps[of path name])
  qed
qed

lemma skip_all_Nil: "0 \<notin> set path \<Longrightarrow> skip_all path name = [] \<longleftrightarrow> elements path = []"
  using arg_cong[OF skip_all_elements[of path name], of length] by (auto simp: length_0_conv[symmetric] simp del: length_0_conv)


section \<open>The walk of namex\<close>

text \<open>\<open>namex\<close> over a list of names, each the contents of the array \<open>name\<close> in one round.\<close>

fun namex_walk :: "cstr list \<Rightarrow> bool \<Rightarrow> cstr \<Rightarrow> nat \<Rightarrow> ('z fs_scheme, nat option \<times> cstr) op" where
  "namex_walk [] np name ip =
     (if np then bind (iput ip) (\<lambda>_. ret (None, name)) else ret (Some ip, name))"
| "namex_walk (n # ns) np name ip =
     bind (ilock (Some ip)) (\<lambda>_.
     bind (inode_of ip itype) (\<lambda>t.
     if t \<noteq> T_DIR then bind (iunlockput ip) (\<lambda>_. ret (None, n))
     else if np \<and> ns = [] then bind (iunlock (Some ip)) (\<lambda>_. ret (Some ip, n))
     else
       bind (dirlookup ip n) (\<lambda>found.
       case found of
         None \<Rightarrow> bind (iunlockput ip) (\<lambda>_. ret (None, n))
       | Some (nxt, _) \<Rightarrow> bind (iunlockput ip) (\<lambda>_. namex_walk ns np n nxt))))"

lemma namex_loop_walk:
  "0 \<notin> set path \<Longrightarrow> namex_loop path np name ip = namex_walk (skip_all path name) np name ip"
proof (induction path name arbitrary: ip rule: skip_all.induct)
  case (1 path name)
  show ?case
  proof (cases "skipelem path name")
    case None
    then show ?thesis by (simp add: namex_loop.simps[of path] skip_all.simps[of path])
  next
    case (Some r)
    obtain path' name' where r: "r = (path', name')" by (cases r)
    with Some skipelem_step[OF 1(2), of name] have
      e: "path' = [] \<longleftrightarrow> elements path' = []" "0 \<notin> set path'" by auto
    note IH = 1(1)[OF Some r[symmetric] e(2)]
    have "skip_all path' name' = [] \<longleftrightarrow> path' = []" using skip_all_Nil[OF e(2)] e(1) by simp
    then show ?thesis using Some r
      by (simp add: namex_loop.simps[of path] skip_all.simps[of path] IH cong: option.case_cong if_cong)
  qed
qed

text \<open>
  C28. For every path (the characters before its null byte), the loop over \<open>skipelem\<close> leaves in
  \<open>name\<close>, in order, exactly the non-empty pieces between the slashes, each cut to 14
  characters; \<open>namex\<close> is the walk along this list: it starts at the root inode for a path that
  begins with a slash and at the current directory otherwise, in each round locks the inode,
  fails if it is no directory, and looks the element up; with \<open>nameiparent\<close> it stops in
  front of the last element, which is left in \<open>name\<close>, and fails for a path with no element.
\<close>

theorem namex_walks_elements:
  assumes "0 \<notin> set path"
  shows "map name_of (skip_all path name) = map (take DIRSIZ) (elements path) \<and>
    namex path np name =
      bind (if path \<noteq> [] \<and> hd path = slash then iget ROOTDEV ROOTINO
            else bind curp (\<lambda>p. bind (proc_of p cwd) (\<lambda>d. bind (deref d) idup)))
        (namex_walk (skip_all path name) np name)"
  using assms by (simp add: skip_all_elements namex_def namex_loop_walk)

lemma elements_example:
  "elements (map of_char ''//usr/a-name-of-18-bytes/b/'') = map (map of_char) [''usr'', ''a-name-of-18-bytes'', ''b'']"
  by code_simp

theorem namex_walks_elements_witness:
  "0 \<notin> set (map of_char ''//usr/a-name-of-18-bytes/b/'' :: uchar list) \<and>
   map name_of (skip_all (map of_char ''//usr/a-name-of-18-bytes/b/'') (\<lambda>_. 0)) =
     map (map of_char) [''usr'', ''a-name-of-18-b'', ''b'']"
proof -
  have 0: "0 \<notin> set (map of_char ''//usr/a-name-of-18-bytes/b/'' :: uchar list)" by code_simp
  show ?thesis
    using conjunct1[OF namex_walks_elements[OF 0, of "\<lambda>_. 0"]] 0
    by (simp only: elements_example simp_thms) (simp add: DIRSIZ_def)
qed

end
