(* ===== verification/FsRead.thy ===== *)
theory FsRead
  imports Fs LogCrash
begin

text \<open>
  Reading through the buffer cache: the bytes of a file as its inode describes them, and what
  \<open>bmap\<close>, \<open>readi\<close> and \<open>dirlookup\<close> return. Reading changes neither the contents of blocks nor
  reference counts.
\<close>

section \<open>Reading a block\<close>

context block_store
begin

lemma read_release:
  assumes inv: "inv s" and can: "can_get bno (st s)"
  shows "\<exists>b u t. rd bno s = Ret b u \<and> inv u \<and> rest u = rest s \<and> data b u = Ret (sview (st s) bno) u \<and>
    rel b u = Ret () t \<and> inv t \<and> rest t = rest s \<and> st t = st s"
proof -
  have c: "unat bno < 2 ^ 31" "slocked (st s) bno = None" using can by (simp_all add: can_get_def)
  obtain b u where u: "rd bno s = Ret b u" "inv u" "rest u = rest s" "st u = get_block b bno (st s)"
    using rd_spec[OF inv can] by blast
  have l: "slocked (st u) bno = Some b" using u(4) by (simp add: get_block_def)
  have "data b u = Ret (sview (st s) bno) u" using data_spec[OF u(2) l] u(4) by (simp add: get_block_def)
  moreover have "srefs (st u) bno = 1 \<Longrightarrow> sview (st u) bno = sdisk (st u) (unat bno)"
    using clean_spec[OF inv c(1)] u(4) by (simp add: get_block_def)
  then obtain t where t: "rel b u = Ret () t" "inv t" "rest t = rest u" "st t = drop_block bno (st u)"
    using rel_spec[OF u(2) l] by blast
  moreover have "st t = st s"
    using t(4) u(4) c(2) by (auto simp: get_block_def drop_block_def fun_upd_idem intro!: store.equality)
  ultimately show ?thesis using u by (intro exI[of _ b] exI[of _ u] exI[of _ t]) simp
qed

end

section \<open>The contents of files\<close>

text \<open>The block with part \<open>k\<close> of a file, and a byte of the file.\<close>

definition baddr :: "(uint \<Rightarrow> cstr) \<Rightarrow> inode \<Rightarrow> nat \<Rightarrow> uint" where
  "baddr v q k =
     (if k < NDIRECT then iaddrs q k else ld32 (v (iaddrs q NDIRECT)) (4 * (k - NDIRECT)))"

definition file_byte :: "(uint \<Rightarrow> cstr) \<Rightarrow> inode \<Rightarrow> nat \<Rightarrow> uchar" where
  "file_byte v q i = v (baddr v q (i div 1024)) (i mod 1024)"

text \<open>The state after reads: nothing of the store and of the rest of the kernel has changed.\<close>

definition same_fs :: "nat \<Rightarrow> uint \<Rightarrow> 'z fs_scheme \<Rightarrow> 'z fs_scheme \<Rightarrow> bool" where
  "same_fs p dev s t \<longleftrightarrow> bufs_inv p dev t \<and> locks t = locks s \<and> bio.more t = bio.more s \<and> store_of dev t = store_of dev s"

lemma same_fs_trans: "same_fs p dev s t \<Longrightarrow> same_fs p dev t u \<Longrightarrow> same_fs p dev s u"
  by (simp add: same_fs_def)

lemma same_fsD:
  assumes "same_fs p dev s t"
  shows "bufs_inv p dev t" "icache t = icache s" "sb t = sb s" "view dev t = view dev s" "store_of dev t = store_of dev s"
    "locks t = locks s"
proof -
  have "bio.more t = bio.more s" using assms by (simp add: same_fs_def)
  then show "icache t = icache s" "sb t = sb s" by (cases s; cases t; simp)+
  have "store_of dev t = store_of dev s" using assms by (simp add: same_fs_def)
  from arg_cong[OF this, of sview] show "view dev t = view dev s" by simp
  show "bufs_inv p dev t" "store_of dev t = store_of dev s" "locks t = locks s"
    using assms by (simp_all add: same_fs_def)
qed

text \<open>Part \<open>k\<close> of the file is allocated and its blocks can be read.\<close>

definition block_ok :: "uint \<Rightarrow> 'z fs_scheme \<Rightarrow> inode \<Rightarrow> nat \<Rightarrow> bool" where
  "block_ok dev s q k \<longleftrightarrow> k < MAXFILE \<and> baddr (view dev s) q k \<noteq> 0 \<and>
     can_get (baddr (view dev s) q k) (store_of dev s) \<and>
     (NDIRECT \<le> k \<longrightarrow> iaddrs q NDIRECT \<noteq> 0 \<and> can_get (iaddrs q NDIRECT) (store_of dev s))"

lemma bread_release:
  assumes "bufs_inv p dev s" "can_get bno (store_of dev s)"
  obtains b u t where "bread dev bno s = Ret b u" "bio.more u = bio.more s" "thread p u"
    "buf_of b f u = Ret (f (bcache u b)) u" "bdata (bcache u b) = view dev s bno"
    "brelse b u = Ret () t" "same_fs p dev s t"
proof -
  obtain b u t where r: "bread dev bno s = Ret b u" "bufs_inv p dev u" "bio.more u = bio.more s"
    "buf_of b bdata u = Ret (sview (store_of dev s) bno) u"
    "brelse b u = Ret () t" "bufs_inv p dev t" "locks t = locks s" "bio.more t = bio.more s" "store_of dev t = store_of dev s"
    using cache.read_release[OF assms] by auto
  have "bdata (bcache u b) = view dev s bno" using r(4) by (simp add: buf_of_def reads_def)
  then show thesis using that[of b u t] r bufs_invD(1)[OF r(2)]
    by (simp add: same_fs_def buf_of_def reads_def)
qed

lemma fs_more: "bio.more t = bio.more s \<Longrightarrow> icache t = icache s \<and> sb t = sb s"
  by (cases s; cases t; simp)

lemma bmap_reads:
  assumes inv: "bufs_inv p dev s" and ip: "idev (icache s ip) = dev" and ok: "block_ok dev s (icache s ip) k"
  shows "\<exists>t. bmap ip (of_nat k) s = Ret (baddr (view dev s) (icache s ip) k) t \<and> same_fs p dev s t"
proof -
  let ?q = "icache s ip"
  have k: "unat (of_nat k :: uint) = k"
    using ok by (simp add: block_ok_def MAXFILE_def NDIRECT_def NINDIRECT_def unat_of_nat)
  show ?thesis
  proof (cases "k < NDIRECT")
    case True
    then have "bmap ip (of_nat k) s = Ret (baddr (view dev s) ?q k) s"
      using ok k by (simp add: bmap_def bind_def inode_of_def reads_def ret_def baddr_def block_ok_def)
    then show ?thesis using inv by (auto simp: same_fs_def)
  next
    case False
    then have i: "iaddrs ?q NDIRECT \<noteq> 0" "can_get (iaddrs ?q NDIRECT) (store_of dev s)" "k - NDIRECT < NINDIRECT"
      "ld32 (view dev s (iaddrs ?q NDIRECT)) (4 * (k - NDIRECT)) \<noteq> 0"
      using ok by (auto simp: block_ok_def MAXFILE_def baddr_def)
    obtain b u t where r: "bread dev (iaddrs ?q NDIRECT) s = Ret b u"
      "buf_of b (\<lambda>q. ld32 (bdata q) (4 * (k - NDIRECT))) u = Ret (ld32 (bdata (bcache u b)) (4 * (k - NDIRECT))) u"
      "bdata (bcache u b) = view dev s (iaddrs ?q NDIRECT)" "brelse b u = Ret () t" "same_fs p dev s t"
      using bread_release[OF inv i(2), where f = "\<lambda>q. ld32 (bdata q) (4 * (k - NDIRECT))"] by metis
    then have "bmap ip (of_nat k) s = Ret (baddr (view dev s) ?q k) t"
      using False i k ip by (simp add: bmap_def bind_def inode_of_def reads_def ret_def baddr_def Let_def)
    then show ?thesis using r(5) by blast
  qed
qed

section \<open>readi\<close>

lemma min_chunk_unat: "unat (min_chunk left off) = min (unat left) (1024 - unat off mod 1024)"
proof -
  have "unat (off mod BSIZE) = unat off mod 1024" by (simp add: unat_mod BSIZE_def)
  moreover have "off mod BSIZE \<le> BSIZE" using calculation by (simp add: word_le_nat_alt BSIZE_def)
  ultimately have "unat (BSIZE - off mod BSIZE) = 1024 - unat off mod 1024" by (simp add: unat_sub BSIZE_def)
  then show ?thesis by (simp add: min_chunk_def word_less_nat_alt min_def)
qed

lemma unat_lt32: "unat (x :: uint) < 2 ^ 32"
  using unsigned_less[of x] by simp

lemma unat_of_nat_less: "i \<le> unat (x :: uint) \<Longrightarrow> unat (of_nat i :: uint) = i"
  using unat_lt32[of x] by (simp add: unat_of_nat)

lemma same_block:
  assumes "j < 1024 - o' mod 1024"
  shows "(o' + j) div 1024 = o' div (1024::nat) \<and> (o' + j) mod 1024 = o' mod 1024 + j"
proof -
  have *: "(k * 1024 + a) div 1024 = k \<and> (k * 1024 + a) mod 1024 = a" if "a < 1024" for k a :: nat
    using that by simp
  have "o' + j = o' div 1024 * 1024 + (o' mod 1024 + j)" by simp
  moreover have "o' mod 1024 + j < 1024" using assms by linarith
  ultimately show ?thesis using *[of "o' mod 1024 + j" "o' div 1024"] by (simp only: simp_thms)
qed

lemma either_copyout_kernel:
  "thread p u \<Longrightarrow> either_copyout False dst kbuf k src n u = Ret (0, kcopy kbuf k src n) u"
  by (simp add: either_copyout_def bind_def myproc_eq[OF threadD(1)] ret_def)

text \<open>All parts of the file that have a byte between \<open>lo\<close> and \<open>hi\<close> can be read.\<close>

definition blocks_ok :: "uint \<Rightarrow> 'z fs_scheme \<Rightarrow> inode \<Rightarrow> nat \<Rightarrow> nat \<Rightarrow> bool" where
  "blocks_ok dev s q lo hi \<longleftrightarrow> (\<forall>i. lo \<le> i \<and> i < hi \<longrightarrow> block_ok dev s q (i div 1024))"

lemma blocks_ok_mono: "blocks_ok dev s q lo hi \<Longrightarrow> lo \<le> lo' \<Longrightarrow> blocks_ok dev s q lo' hi"
  by (simp add: blocks_ok_def)

lemma same_fs_blocks_ok: "same_fs p dev s t \<Longrightarrow> blocks_ok dev t = blocks_ok dev s"
  using same_fsD(4,5)[of p dev s t] by (intro ext) (simp add: blocks_ok_def block_ok_def)

definition read_into :: "cstr \<Rightarrow> nat \<Rightarrow> nat \<Rightarrow> (nat \<Rightarrow> uchar) \<Rightarrow> cstr" where
  "read_into kbuf lo hi f = (\<lambda>i. if lo \<le> i \<and> i < hi then f (i - lo) else kbuf i)"

lemma readi_pass:
  assumes inv: "bufs_inv p dev s" and ip: "idev (icache s ip) = dev" and lt: "tot < n"
    and ok: "block_ok dev s (icache s ip) (unat off div 1024)"
  defines "m \<equiv> min_chunk (n - tot) off"
  shows "\<exists>t. readi_loop ip False dst kbuf off n tot s =
      readi_loop ip False (dst + ucast m)
        (kcopy kbuf (unat tot) (\<lambda>i. view dev s (baddr (view dev s) (icache s ip) (unat off div 1024)) (unat off mod 1024 + i)) (unat m))
        (off + m) n (tot + m) t \<and> same_fs p dev s t"
proof -
  let ?a = "baddr (view dev s) (icache s ip) (unat off div 1024)"
  have bn: "off div BSIZE = of_nat (unat off div 1024)" "unat (off mod BSIZE) = unat off mod 1024"
  proof -
    have "unat (off div BSIZE) = unat off div 1024" by (simp add: BSIZE_def unat_div)
    then show "off div BSIZE = of_nat (unat off div 1024)" using word_unat_eq_iff[of "off div BSIZE" "of_nat (unat off div 1024)"]
      unat_of_nat_less[of "unat off div 1024" off] by simp
    show "unat (off mod BSIZE) = unat off mod 1024" by (simp add: BSIZE_def unat_mod)
  qed
  obtain t1 where b: "bmap ip (off div BSIZE) s = Ret ?a t1" and t1: "same_fs p dev s t1"
    using bmap_reads[OF inv ip ok] unfolding bn by blast
  note t1' = same_fsD[OF t1]
  have "can_get ?a (store_of dev t1)" using ok t1' by (simp add: block_ok_def)
  then obtain bp u t where r: "bread dev ?a t1 = Ret bp u" "thread p u" "buf_of bp bdata u = Ret (bdata (bcache u bp)) u"
    "bdata (bcache u bp) = view dev t1 ?a" "brelse bp u = Ret () t" "same_fs p dev t1 t"
    using bread_release[OF t1'(1), of ?a, where f = bdata] by metis
  have "readi_loop ip False dst kbuf off n tot s =
      readi_loop ip False (dst + ucast m) (kcopy kbuf (unat tot) (\<lambda>i. view dev s ?a (unat off mod 1024 + i)) (unat m))
        (off + m) n (tot + m) t"
    unfolding readi_loop.simps[of ip False dst kbuf off n tot]
    using lt ip b r t1' bn(2) by (simp add: bind_def inode_of_def reads_def Let_def either_copyout_kernel m_def)
  then show ?thesis using same_fs_trans[OF t1 r(6)] by blast
qed

lemma read_into_none [simp]: "read_into kbuf i i f = kbuf"
  by (auto simp: read_into_def fun_eq_iff)

lemma read_into_chunk:
  assumes "m \<le> 1024 - o' mod 1024" "lo + m \<le> hi"
  shows "read_into (kcopy kbuf lo (\<lambda>i. v (baddr v q (o' div 1024)) (o' mod 1024 + i)) m) (lo + m) hi
      (\<lambda>i. file_byte v q (o' + m + i)) = read_into kbuf lo hi (\<lambda>i. file_byte v q (o' + i))"
proof (rule ext)
  fix i
  show "read_into (kcopy kbuf lo (\<lambda>i. v (baddr v q (o' div 1024)) (o' mod 1024 + i)) m) (lo + m) hi
      (\<lambda>i. file_byte v q (o' + m + i)) i = read_into kbuf lo hi (\<lambda>i. file_byte v q (o' + i)) i"
  proof (cases "lo \<le> i \<and> i < lo + m")
    case True
    then have "i - lo < 1024 - o' mod 1024" using assms(1) by linarith
    from same_block[OF this] show ?thesis using True assms(2) by (simp add: read_into_def kcopy_def file_byte_def)
  next
    case False
    then show ?thesis using assms(2) by (auto simp: read_into_def kcopy_def)
  qed
qed

lemma readi_loop_reads:
  assumes "bufs_inv p dev s" "idev (icache s ip) = dev" "tot \<le> n"
    "unat off + unat (n - tot) < 2 ^ 32" "blocks_ok dev s (icache s ip) (unat off) (unat off + unat (n - tot))"
  shows "\<exists>t. readi_loop ip False dst kbuf off n tot s =
      Ret (n, read_into kbuf (unat tot) (unat n) (\<lambda>i. file_byte (view dev s) (icache s ip) (unat off + i))) t \<and>
    same_fs p dev s t"
  using assms
proof (induction "unat (n - tot)" arbitrary: s dst kbuf off tot rule: less_induct)
  case less
  note inv = less(2) and ip = less(3) and le = less(4) and nov = less(5) and rd = less(6)
  let ?q = "icache s ip" and ?v = "view dev s"
  show ?case
  proof (cases "tot < n")
    case False
    then have "tot = n" using le by simp
    then show ?thesis using inv
      by (auto simp: readi_loop.simps[of ip] ret_def same_fs_def)
  next
    case True
    define m where "m = min_chunk (n - tot) off"
    have m: "unat m = min (unat (n - tot)) (1024 - unat off mod 1024)" unfolding m_def by (rule min_chunk_unat)
    have pos: "0 < unat m" "unat m \<le> unat (n - tot)" using min_chunk_pos[of "n - tot" off] True m_def by auto
    have ntot: "unat (n - tot) = unat n - unat tot" "unat tot \<le> unat n" using le by (auto simp: unat_sub word_le_nat_alt)
    have sum: "unat (tot + m) = unat tot + unat m" "unat (off + m) = unat off + unat m"
      using pos nov ntot unat_lt32[of n] by (auto intro!: unat_add_lem[THEN iffD1])
    have rest: "unat (n - (tot + m)) = unat (n - tot) - unat m" "tot + m \<le> n"
      using sum ntot pos by (auto simp: unat_sub word_le_nat_alt)
    have "block_ok dev s ?q (unat off div 1024)" using rd pos by (simp add: blocks_ok_def)
    let ?kb = "kcopy kbuf (unat tot) (\<lambda>i. ?v (baddr ?v ?q (unat off div 1024)) (unat off mod 1024 + i)) (unat m)"
    from \<open>block_ok dev s ?q (unat off div 1024)\<close> obtain u where
      u: "readi_loop ip False dst kbuf off n tot s = readi_loop ip False (dst + ucast m) ?kb (off + m) n (tot + m) u" and same: "same_fs p dev s u"
      using readi_pass[OF inv ip True] unfolding m_def by blast
    note su = same_fsD[OF same]
    have "blocks_ok dev u (icache u ip) (unat (off + m)) (unat (off + m) + unat (n - (tot + m)))"
      using rd pos su(2) unfolding same_fs_blocks_ok[OF same] sum rest by (auto simp: blocks_ok_def)
    moreover have "unat (n - (tot + m)) < unat (n - tot)" "unat (off + m) + unat (n - (tot + m)) < 2 ^ 32"
      using rest pos nov sum by linarith+
    ultimately obtain t where t: "readi_loop ip False (dst + ucast m) ?kb (off + m) n (tot + m) u =
        Ret (n, read_into ?kb (unat (tot + m)) (unat n) (\<lambda>i. file_byte ?v ?q (unat (off + m) + i))) t"
      "same_fs p dev u t"
      using less(1)[of "tot + m" u "off + m" "dst + ucast m" ?kb] su ip rest(2) by auto
    have "read_into ?kb (unat (tot + m)) (unat n) (\<lambda>i. file_byte ?v ?q (unat (off + m) + i)) =
        read_into kbuf (unat tot) (unat n) (\<lambda>i. file_byte ?v ?q (unat off + i))"
      unfolding sum using m pos ntot by (intro read_into_chunk) auto
    then show ?thesis using u t same_fs_trans[OF same t(2)] by auto
  qed
qed

lemma readi_reads:
  assumes "bufs_inv p dev s" "idev (icache s ip) = dev"
    "blocks_ok dev s (icache s ip) (unat off) (unat (isize (icache s ip)))"
  shows "if off \<le> isize (icache s ip) \<and> unat off + unat n < 2 ^ 32 then
      \<exists>t k. readi ip False dst kbuf off n s =
          Ret (k, read_into kbuf 0 (unat k) (\<lambda>i. file_byte (view dev s) (icache s ip) (unat off + i))) t \<and>
        unat k = min (unat n) (unat (isize (icache s ip)) - unat off) \<and> same_fs p dev s t
    else readi ip False dst kbuf off n s = Ret (0, kbuf) s"
proof (cases "off \<le> isize (icache s ip) \<and> unat off + unat n < 2 ^ 32")
  case True
  let ?sz = "isize (icache s ip)"
  let ?k = "if off + n > ?sz then ?sz - off else n"
  have sum: "unat (off + n) = unat off + unat n" using True by (intro unat_add_lem[THEN iffD1]) simp
  have k: "unat ?k = min (unat n) (unat ?sz - unat off)"
    using True sum by (auto simp: unat_sub word_less_nat_alt word_le_nat_alt)
  have "blocks_ok dev s (icache s ip) (unat off) (unat off + unat (?k - 0))"
    using assms(3) k by (auto simp: blocks_ok_def)
  then obtain t where t: "readi_loop ip False dst kbuf off ?k 0 s =
      Ret (?k, read_into kbuf (unat (0 :: uint)) (unat ?k) (\<lambda>i. file_byte (view dev s) (icache s ip) (unat off + i))) t"
    "same_fs p dev s t"
    using readi_loop_reads[OF assms(1,2), of 0 ?k off dst kbuf] k True by fastforce
  have "\<not> off > ?sz" "\<not> off + n < off" using True sum by (auto simp: word_less_nat_alt word_le_nat_alt)
  then have "readi ip False dst kbuf off n s = readi_loop ip False dst kbuf off ?k 0 s"
    by (simp add: readi_def bind_def inode_of_def reads_def)
  then show ?thesis using True t k by auto
next
  case False
  have "off > isize (icache s ip) \<or> off + n < off"
  proof (cases "off \<le> isize (icache s ip)")
    case True
    then have "2 ^ 32 \<le> unat off + unat n" using False by simp
    moreover have "unat (off + n) = (unat off + unat n) mod 2 ^ 32" by (simp add: unat_word_ariths)
    ultimately have "unat (off + n) = unat off + unat n - 2 ^ 32"
      using unat_lt32[of n] unat_lt32[of off] le_mod_geq[of "2 ^ 32" "unat off + unat n"] by simp
    then have "unat (off + n) < unat off" using \<open>2 ^ 32 \<le> unat off + unat n\<close> unat_lt32[of n] by linarith
    then show ?thesis by (simp add: word_less_nat_alt)
  qed (simp add: not_le)
  then show ?thesis unfolding if_not_P[OF False] by (simp add: readi_def bind_def inode_of_def reads_def ret_def)
qed

text \<open>
  C33. Reading a file into kernel memory: \<open>readi\<close> at an offset within the file gives the number
  of bytes up to the end of the file, or as many as asked for, and stores exactly these bytes of
  the file, as found through the direct and indirect block addresses of its inode; it changes
  neither the contents nor the reference counts of blocks. At an offset beyond the end, and when
  offset and count overflow, it reads nothing.
\<close>

theorem readi_reads_file:
  assumes "bufs_inv p dev s" "idev (icache s ip) = dev"
    "blocks_ok dev s (icache s ip) (unat off) (unat (isize (icache s ip)))"
  shows "if off \<le> isize (icache s ip) \<and> unat off + unat n < 2 ^ 32 then
      \<exists>t k. readi ip False dst kbuf off n s =
          Ret (k, read_into kbuf 0 (unat k) (\<lambda>i. file_byte (view dev s) (icache s ip) (unat off + i))) t \<and>
        unat k = min (unat n) (unat (isize (icache s ip)) - unat off) \<and> same_fs p dev s t
    else readi ip False dst kbuf off n s = Ret (0, kbuf) s"
  by (rule readi_reads[OF assms])

text \<open>A file system with the given disk and inodes, of which no block is in the cache.\<close>

definition fs0 :: "(nat \<Rightarrow> cstr) \<Rightarrow> (nat \<Rightarrow> inode) \<Rightarrow> fs" where
  "fs0 d ic = log.extend ((log0 idle_buf 0)\<lparr>disk := d\<rparr>)
     \<lparr>sb = \<lparr>sb_magic = FSMAGIC, sb_size = 1000, sb_nblocks = 954, sb_ninodes = 200, sb_nlog = 30,
        sb_logstart = 2, sb_inodestart = 32, sb_bmapstart = 45\<rparr>,
      icache = ic, \<dots> = ()\<rparr>"

lemma fs0_sel [simp]:
  "icache (fs0 d ic) = ic" "bcache (fs0 d ic) = idle_buf" "disk (fs0 d ic) = d" "slocks (fs0 d ic) = (\<lambda>_. sl_free)"
  "locks (fs0 d ic) lk = free_lock"
  using log0_sel(12)[of idle_buf 0 lk] by (simp_all add: fs0_def log.defs)

lemma fs0_inv [simp]: "thread 0 (fs0 d ic)" "bufs_inv 0 1 (fs0 d ic)"
proof -
  show "thread 0 (fs0 d ic)" using thread_cong(1)[of "fs0 d ic" "log0 idle_buf 0" 0] by (simp add: fs0_def log.defs)
  then show "bufs_inv 0 1 (fs0 d ic)"
    using idle_lru caches_wf by (auto simp: bufs_inv_def clean_def lock_ok_def sl_free_def)
qed

lemma fs0_view: "unat x < 2 ^ 31 \<Longrightarrow> view 1 (fs0 d ic) x = d (unat x)"
  by (simp add: view_def caches_lookup)

lemma fs0_can_get: "unat x < 2 ^ 31 \<Longrightarrow> can_get x (store_of 1 (fs0 d ic))"
proof -
  have "refs 1 (fs0 d ic) y = 0" "held 1 (fs0 d ic) = {}" for y
    by (simp_all add: refs_def held_def caches_lookup sl_free_def)
  moreover from this have "locked_buf 1 (fs0 d ic) = Map.empty" using dom_locked[of 1 "fs0 d ic"] by simp
  ultimately show "unat x < 2 ^ 31 \<Longrightarrow> can_get x (store_of 1 (fs0 d ic))"
    by (simp add: can_get_def NBUF_def)
qed

text \<open>A directory in block 50 with the names \<open>.\<close> of inode 1 and \<open>a\<close> of inode 7, and a free entry between.\<close>

definition dir_block :: cstr where
  "dir_block i = (if i = 0 then 1 else if i = 2 then 46 else if i = 32 then 7 else if i = 34 then 97 else 0)"

definition dir_inodes :: "nat \<Rightarrow> inode" where
  "dir_inodes i = \<lparr>idev = 1, inum = 1, iref = (if i = 0 then 1 else 0), ivalid = True, itype = T_DIR, imajor = 0, iminor = 0,
     nlink = 1, isize = 48, iaddrs = (\<lambda>k. if k = 0 then 50 else 0)\<rparr>"

definition dir_fs :: fs where
  "dir_fs = fs0 (\<lambda>k. if k = 50 then dir_block else (\<lambda>_. 0)) dir_inodes"

lemma dir_fs_facts:
  "bufs_inv 0 1 dir_fs" "icache dir_fs = dir_inodes" "locks dir_fs lk = free_lock" "view 1 dir_fs 50 = dir_block"
  "i < 48 \<Longrightarrow> file_byte (view 1 dir_fs) (dir_inodes 0) i = dir_block i" "blocks_ok 1 dir_fs (dir_inodes 0) 0 48"
proof -
  show v: "view 1 dir_fs 50 = dir_block" by (simp add: dir_fs_def fs0_view)
  show "bufs_inv 0 1 dir_fs" "icache dir_fs = dir_inodes" "locks dir_fs lk = free_lock" by (simp_all add: dir_fs_def)
  show "i < 48 \<Longrightarrow> file_byte (view 1 dir_fs) (dir_inodes 0) i = dir_block i"
    using v by (simp add: file_byte_def baddr_def dir_inodes_def NDIRECT_def)
  have "can_get 50 (store_of 1 dir_fs)" using fs0_can_get[of 50] by (simp add: dir_fs_def)
  then show "blocks_ok 1 dir_fs (dir_inodes 0) 0 48"
    by (auto simp: blocks_ok_def block_ok_def baddr_def dir_inodes_def NDIRECT_def MAXFILE_def NINDIRECT_def)
qed

theorem readi_reads_file_witness:
  "\<exists>t kbuf. readi 0 False 0 (\<lambda>_. 9) 32 100 dir_fs = Ret (16, kbuf) t \<and> kbuf 0 = 7 \<and> kbuf 2 = 97 \<and> kbuf 16 = 9"
proof -
  have "blocks_ok 1 dir_fs (icache dir_fs 0) (unat (32 :: uint)) (unat (isize (icache dir_fs 0)))"
    using blocks_ok_mono[OF dir_fs_facts(6), of 32] by (simp add: dir_fs_facts(2)) (simp add: dir_inodes_def)
  from readi_reads_file[OF dir_fs_facts(1) _ this, of 100 0 "\<lambda>_. 9"]
  obtain t k where t: "readi 0 False 0 (\<lambda>_. 9) 32 100 dir_fs =
      Ret (k, read_into (\<lambda>_. 9) 0 (unat k) (\<lambda>i. file_byte (view 1 dir_fs) (dir_inodes 0) (32 + i))) t" "unat k = 16"
    by (auto simp: dir_fs_facts(2) dir_inodes_def)
  then have "k = 16" by (simp add: word_unat_eq_iff)
  then show ?thesis using t by (auto simp: read_into_def dir_fs_facts(5) dir_block_def)
qed

end
