(* ===== verification/InodeRefs.thy ===== *)
theory InodeRefs
  imports FsRead
begin

text \<open>
  The cache of inodes as a count of references: \<open>iget\<close>, \<open>idup\<close> and \<open>iput\<close> change the count
  of one inode by one, and no inode ever has two entries. With the contents of directories this
  gives what \<open>dirlookup\<close> returns.
\<close>

section \<open>The entries of the cache\<close>

definition with_inode :: "nat \<Rightarrow> (inode \<Rightarrow> inode) \<Rightarrow> 'z fs_scheme \<Rightarrow> 'z fs_scheme" where
  "with_inode ip f s = s\<lparr>icache := (icache s)(ip := f (icache s ip))\<rparr>"

lemma with_inode_frame [simp]:
  "cpu_ok (with_inode ip f s) = cpu_ok s" "locks (with_inode ip f s) = locks s"
  "thread p (with_inode ip f s) = thread p s"
  "icache (with_inode ip f s) = (icache s)(ip := f (icache s ip))" "sb (with_inode ip f s) = sb s"
  "with_inode ip f (acq lk s) = acq lk (with_inode ip f s)"
  by (simp_all add: with_inode_def noff_of_def thread_def cpu_ok_def intr_of_def curproc_def procs_free_def
      acq_def pushed_def)

lemma update_inode_eq: "update_inode ip f s = Ret () (with_inode ip f s)"
  by (simp add: update_inode_def modify_def with_inode_def)

lemma icache_acq [simp]: "icache (acq lk s) = icache s"
  by (simp add: acq_def pushed_def)

text \<open>The entry that \<open>iget\<close> returns, and how it changes it.\<close>

definition is_entry :: "(nat \<Rightarrow> inode) \<Rightarrow> uint \<Rightarrow> uint \<Rightarrow> nat \<Rightarrow> bool" where
  "is_entry ic dev n i \<longleftrightarrow> iref (ic i) > 0 \<and> idev (ic i) = dev \<and> inum (ic i) = n"

definition iget_choice :: "(nat \<Rightarrow> inode) \<Rightarrow> uint \<Rightarrow> uint \<Rightarrow> (nat \<times> (inode \<Rightarrow> inode)) option" where
  "iget_choice ic dev n =
     (case find (is_entry ic dev n) [0..<NINODE] of
        Some ip \<Rightarrow> Some (ip, \<lambda>q. q\<lparr>iref := iref q + 1\<rparr>)
      | None \<Rightarrow> map_option (\<lambda>ip. (ip, \<lambda>q. q\<lparr>idev := dev, inum := n, iref := 1, ivalid := False\<rparr>))
                  (find (\<lambda>i. iref (ic i) = 0) [0..<NINODE]))"

lemma iget_scan_hit: "fst (iget_scan ic dev n is spare) = find (is_entry ic dev n) is"
  by (induction "is" arbitrary: spare) (auto simp: is_entry_def)

lemma iget_scan_spare:
  "find (is_entry ic dev n) is = None \<Longrightarrow>
   snd (iget_scan ic dev n is spare) = (if spare = None then find (\<lambda>i. iref (ic i) = 0) is else spare)"
  by (induction "is" arbitrary: spare) (auto simp: is_entry_def split: if_splits)

lemma iget_eq:
  assumes "cpu_ok s" "locks s L_icache = free_lock"
  shows "iget dev n s =
    (case iget_choice (icache s) dev n of
       Some (ip, f) \<Rightarrow> Ret ip (with_inode ip f s)
     | None \<Rightarrow> Panic ''iget: no inodes'')"
proof -
  obtain hit e where h: "iget_scan (icache s) dev n [0..<NINODE] None = (hit, e)" by fastforce
  show ?thesis using assms iget_scan_hit[of "icache s" dev n "[0..<NINODE]" None] iget_scan_spare[of "icache s" dev n "[0..<NINODE]" None]
    by (auto simp: iget_def bind_def acquire_eq reads_def h update_inode_eq release_acq ret_def iget_choice_def
        panic_def split: option.split)
qed

section \<open>References\<close>

text \<open>The number of references to an inode, and that entries in use are of different inodes.\<close>

definition irefs :: "(nat \<Rightarrow> inode) \<Rightarrow> uint \<Rightarrow> uint \<Rightarrow> int" where
  "irefs ic dev n = (\<Sum>i<NINODE. if idev (ic i) = dev \<and> inum (ic i) = n then iref (ic i) else 0)"

definition icache_wf :: "(nat \<Rightarrow> inode) \<Rightarrow> bool" where
  "icache_wf ic \<longleftrightarrow> (\<forall>i<NINODE. 0 \<le> iref (ic i)) \<and>
     (\<forall>i<NINODE. \<forall>j<NINODE. 0 < iref (ic i) \<and> 0 < iref (ic j) \<and> idev (ic i) = idev (ic j) \<and>
        inum (ic i) = inum (ic j) \<longrightarrow> i = j)"

lemma irefs_upd:
  assumes "i < NINODE"
  shows "irefs (ic(i := q)) dev n = irefs ic dev n
      - (if idev (ic i) = dev \<and> inum (ic i) = n then iref (ic i) else 0)
      + (if idev q = dev \<and> inum q = n then iref q else 0)"
proof -
  let ?f = "\<lambda>ic i. if idev (ic i) = dev \<and> inum (ic i) = n then iref (ic i) else 0"
  have "irefs c dev n = ?f c i + (\<Sum>j\<in>{..<NINODE} - {i}. ?f c j)" for c
    unfolding irefs_def using assms by (intro sum.remove) auto
  note this[of ic] this[of "ic(i := q)"]
  moreover have "(\<Sum>j\<in>{..<NINODE} - {i}. ?f (ic(i := q)) j) = (\<Sum>j\<in>{..<NINODE} - {i}. ?f ic j)"
    by (rule sum.cong) auto
  ultimately have "irefs (ic(i := q)) dev n - ?f (ic(i := q)) i = irefs ic dev n - ?f ic i" by linarith
  then show ?thesis unfolding fun_upd_same by linarith
qed

lemma irefs_entry:
  assumes "icache_wf ic" "i < NINODE" "is_entry ic dev n i"
  shows "irefs ic dev n = iref (ic i)"
proof -
  have "(\<Sum>j\<in>{..<NINODE} - {i}. if idev (ic j) = dev \<and> inum (ic j) = n then iref (ic j) else 0) = 0"
  proof (rule sum.neutral, rule ballI)
    fix j assume j: "j \<in> {..<NINODE} - {i}"
    then have "0 \<le> iref (ic j)" "\<not> (0 < iref (ic j) \<and> idev (ic j) = dev \<and> inum (ic j) = n)"
      using assms unfolding icache_wf_def is_entry_def by auto
    then show "(if idev (ic j) = dev \<and> inum (ic j) = n then iref (ic j) else 0) = 0" by auto
  qed
  then show ?thesis unfolding irefs_def
    using assms(2,3) sum.remove[of "{..<NINODE}" i "\<lambda>j. if idev (ic j) = dev \<and> inum (ic j) = n then iref (ic j) else 0"]
    by (simp add: is_entry_def)
qed

lemma irefs_no_entry:
  assumes "icache_wf ic" "\<And>i. i < NINODE \<Longrightarrow> \<not> is_entry ic dev n i"
  shows "irefs ic dev n = 0"
  unfolding irefs_def
proof (rule sum.neutral, rule ballI)
  fix i assume "i \<in> {..<NINODE}"
  then show "(if idev (ic i) = dev \<and> inum (ic i) = n then iref (ic i) else 0) = 0"
    using assms(1) assms(2)[of i] unfolding icache_wf_def is_entry_def by force
qed

lemma icache_wf_upd:
  assumes wf: "icache_wf ic" and q: "0 \<le> iref q"
    and no: "\<And>j. 0 < iref q \<Longrightarrow> j < NINODE \<Longrightarrow> j \<noteq> i \<Longrightarrow> \<not> is_entry ic (idev q) (inum q) j"
  shows "icache_wf (ic(i := q))"
  unfolding icache_wf_def
proof (intro conjI allI impI)
  show "0 \<le> iref ((ic(i := q)) j)" if "j < NINODE" for j using wf q that by (simp add: icache_wf_def)
next
  fix j k assume "j < NINODE" "k < NINODE" "0 < iref ((ic(i := q)) j) \<and> 0 < iref ((ic(i := q)) k) \<and>
      idev ((ic(i := q)) j) = idev ((ic(i := q)) k) \<and> inum ((ic(i := q)) j) = inum ((ic(i := q)) k)"
  then show "j = k" using wf no[of j] no[of k] unfolding icache_wf_def is_entry_def
    by (cases "j = i"; cases "k = i") simp_all
qed

lemma icache_wf_count:
  assumes wf: "icache_wf ic" and i: "i < NINODE" "0 < iref (ic i)" "0 \<le> iref (ic i) + k"
  shows "icache_wf (ic(i := (ic i)\<lparr>iref := iref (ic i) + k\<rparr>))"
    and "irefs (ic(i := (ic i)\<lparr>iref := iref (ic i) + k\<rparr>)) d m =
      irefs ic d m + (if d = idev (ic i) \<and> m = inum (ic i) then k else 0)"
proof -
  have "\<not> is_entry ic (idev (ic i)) (inum (ic i)) j" if "j < NINODE" "j \<noteq> i" for j
    using wf i(1,2) that unfolding icache_wf_def is_entry_def by metis
  then show "icache_wf (ic(i := (ic i)\<lparr>iref := iref (ic i) + k\<rparr>))" using i(3) by (intro icache_wf_upd[OF wf]) auto
  show "irefs (ic(i := (ic i)\<lparr>iref := iref (ic i) + k\<rparr>)) d m =
      irefs ic d m + (if d = idev (ic i) \<and> m = inum (ic i) then k else 0)"
    unfolding irefs_upd[OF i(1)] by auto
qed

lemma iget_choice_counts:
  assumes wf: "icache_wf ic" and c: "iget_choice ic dev n = Some (ip, f)"
  defines "ic' \<equiv> ic(ip := f (ic ip))"
  shows "ip < NINODE" "is_entry ic' dev n ip" "icache_wf ic'"
    "irefs ic' d m = irefs ic d m + (if d = dev \<and> m = n then 1 else 0)"
    "0 < irefs ic dev n \<Longrightarrow> ic' ip = (ic ip)\<lparr>iref := iref (ic ip) + 1\<rparr> \<and> is_entry ic dev n ip"
proof -
  have "ip < NINODE \<and> is_entry ic' dev n ip \<and> icache_wf ic' \<and>
    irefs ic' d m = irefs ic d m + (if d = dev \<and> m = n then 1 else 0) \<and>
    (0 < irefs ic dev n \<longrightarrow> ic' ip = (ic ip)\<lparr>iref := iref (ic ip) + 1\<rparr> \<and> is_entry ic dev n ip)"
  proof (cases "find (is_entry ic dev n) [0..<NINODE]")
    case (Some i)
    then have i: "i < NINODE" "is_entry ic dev n i" by (auto simp: find_Some_iff)
    then show ?thesis using c Some icache_wf_count[OF wf i(1), of 1]
      by (auto simp: iget_choice_def ic'_def is_entry_def)
  next
    case None
    then have no: "\<And>i. i < NINODE \<Longrightarrow> \<not> is_entry ic dev n i" by (auto simp: find_None_iff)
    from None c obtain ff: "find (\<lambda>i. iref (ic i) = 0) [0..<NINODE] = Some ip"
      and f: "f = (\<lambda>q. q\<lparr>idev := dev, inum := n, iref := 1, ivalid := False\<rparr>)"
      by (auto simp: iget_choice_def)
    from ff have i: "ip < NINODE" "iref (ic ip) = 0" by (auto simp: find_Some_iff)
    have "icache_wf ic'" unfolding ic'_def f using no by (intro icache_wf_upd[OF wf]) simp_all
    then show ?thesis using i irefs_no_entry[OF wf no] by (simp add: ic'_def f is_entry_def irefs_upd)
  qed
  then show "ip < NINODE" "is_entry ic' dev n ip" "icache_wf ic'"
    "irefs ic' d m = irefs ic d m + (if d = dev \<and> m = n then 1 else 0)"
    "0 < irefs ic dev n \<Longrightarrow> ic' ip = (ic ip)\<lparr>iref := iref (ic ip) + 1\<rparr> \<and> is_entry ic dev n ip" by auto
qed

lemma iget_choice_None:
  "iget_choice ic dev n = None \<longleftrightarrow> (\<forall>i<NINODE. \<not> is_entry ic dev n i \<and> iref (ic i) \<noteq> 0)"
proof -
  have "iget_choice ic dev n = None \<longleftrightarrow>
      find (is_entry ic dev n) [0..<NINODE] = None \<and> find (\<lambda>i. iref (ic i) = 0) [0..<NINODE] = None"
    by (auto simp: iget_choice_def split: option.split)
  then show ?thesis by (auto simp: find_None_iff)
qed

lemma idup_eq:
  "cpu_ok s \<Longrightarrow> locks s L_icache = free_lock \<Longrightarrow>
   idup ip s = Ret ip (with_inode ip (\<lambda>q. q\<lparr>iref := iref q + 1\<rparr>) s)"
  by (simp add: idup_def bind_def acquire_eq update_inode_eq release_acq ret_def)

lemma iput_eq:
  "cpu_ok s \<Longrightarrow> locks s L_icache = free_lock \<Longrightarrow>
   \<not> (iref (icache s ip) = 1 \<and> ivalid (icache s ip) \<and> nlink (icache s ip) = 0) \<Longrightarrow>
   iput ip s = Ret () (with_inode ip (\<lambda>q. q\<lparr>iref := iref q - 1\<rparr>) s)"
  by (simp add: iput_def bind_def acquire_eq update_inode_eq release_acq ret_def inode_of_def reads_def
      del: de_Morgan_conj cong: if_cong)

text \<open>The state after the references to one inode have changed by \<open>k\<close>.\<close>

definition counted :: "'z fs_scheme \<Rightarrow> uint \<Rightarrow> uint \<Rightarrow> int \<Rightarrow> 'z fs_scheme \<Rightarrow> bool" where
  "counted s dev n k t \<longleftrightarrow> icache_wf (icache t) \<and>
     (\<forall>d m. irefs (icache t) d m = irefs (icache s) d m + (if d = dev \<and> m = n then k else 0)) \<and>
     t = s\<lparr>icache := icache t\<rparr>"

lemma counted_count:
  assumes "icache_wf (icache s)" "ip < NINODE" "0 < iref (icache s ip)" "0 \<le> iref (icache s ip) + k"
  shows "counted s (idev (icache s ip)) (inum (icache s ip)) k (with_inode ip (\<lambda>q. q\<lparr>iref := iref q + k\<rparr>) s)"
  using icache_wf_count[OF assms] unfolding counted_def by (simp add: with_inode_def)

definition no_slot :: "(nat \<Rightarrow> inode) \<Rightarrow> uint \<Rightarrow> uint \<Rightarrow> bool" where
  "no_slot ic dev n \<longleftrightarrow> (\<forall>i<NINODE. \<not> is_entry ic dev n i \<and> iref (ic i) \<noteq> 0)"

lemma iget_counts:
  assumes "cpu_ok s" "locks s L_icache = free_lock" "icache_wf (icache s)"
  shows "if no_slot (icache s) dev n then iget dev n s = Panic ''iget: no inodes''
      else \<exists>ip t. iget dev n s = Ret ip t \<and> ip < NINODE \<and> is_entry (icache t) dev n ip \<and> counted s dev n 1 t \<and>
        (0 < irefs (icache s) dev n \<longrightarrow> icache t ip = (icache s ip)\<lparr>iref := iref (icache s ip) + 1\<rparr>)"
proof (cases "iget_choice (icache s) dev n")
  case None
  then show ?thesis unfolding no_slot_def iget_choice_None[symmetric] by (simp add: iget_eq[OF assms(1,2)])
next
  case (Some c)
  then obtain i f where c: "iget_choice (icache s) dev n = Some (i, f)" by (cases c) simp
  note k = iget_choice_counts[OF assms(3) c]
  have "counted s dev n 1 (with_inode i f s)" using k(3,4) unfolding counted_def by (simp add: with_inode_def)
  moreover have "iget dev n s = Ret i (with_inode i f s)" using c by (simp add: iget_eq[OF assms(1,2)])
  moreover have "is_entry (icache (with_inode i f s)) dev n i" using k(2) by simp
  ultimately show ?thesis unfolding no_slot_def iget_choice_None[symmetric] using c k(1,5)
    by (simp add: exI[of _ i] del: fun_upd_apply)
qed


section \<open>Directories\<close>

definition dir_entry :: "(uint \<Rightarrow> cstr) \<Rightarrow> inode \<Rightarrow> nat \<Rightarrow> cstr" where
  "dir_entry v q j = read_into (\<lambda>_. 0) 0 16 (\<lambda>i. file_byte v q (16 * j + i))"

definition names_entry :: "(uint \<Rightarrow> cstr) \<Rightarrow> inode \<Rightarrow> cstr \<Rightarrow> nat \<Rightarrow> bool" where
  "names_entry v q name j \<longleftrightarrow> de_inum (dir_entry v q j) \<noteq> 0 \<and> cstr_eq_upto name (de_name (dir_entry v q j)) DIRSIZ"

lemma readi_entry:
  assumes "bufs_inv p dev s" "idev (icache s dp) = dev"
    "blocks_ok dev s (icache s dp) 0 (unat (isize (icache s dp)))" "16 * j + 16 \<le> unat (isize (icache s dp))"
  shows "\<exists>t. readi dp False 0 (\<lambda>_. 0) (of_nat (16 * j)) DIRENT s = Ret (DIRENT, dir_entry (view dev s) (icache s dp) j) t \<and>
    same_fs p dev s t"
proof -
  let ?off = "of_nat (16 * j) :: uint"
  have off: "unat ?off = 16 * j" using assms(4) by (intro unat_of_nat_less[of _ "isize (icache s dp)"]) linarith
  have sz: "unat DIRENT = 16" by (simp add: DIRENT_def)
  have c: "?off \<le> isize (icache s dp) \<and> unat ?off + unat DIRENT < 2 ^ 32"
    using off sz assms(4) unat_lt32[of "isize (icache s dp)"] by (simp only: word_le_nat_alt) linarith
  have "blocks_ok dev s (icache s dp) (unat ?off) (unat (isize (icache s dp)))"
    using assms(3) by (simp add: blocks_ok_def)
  from readi_reads[OF assms(1,2) this, of DIRENT 0 "\<lambda>_. 0"]
  obtain t k where t: "readi dp False 0 (\<lambda>_. 0) ?off DIRENT s =
      Ret (k, read_into (\<lambda>_. 0) 0 (unat k) (\<lambda>i. file_byte (view dev s) (icache s dp) (unat ?off + i))) t"
    "unat k = min (unat DIRENT) (unat (isize (icache s dp)) - unat ?off)" "same_fs p dev s t"
    unfolding if_P[OF c] by blast
  then have "unat k = 16" using off sz assms(4) by simp
  moreover from this sz have "k = DIRENT" by (simp add: word_unat_eq_iff)
  ultimately show ?thesis using t off by (auto simp: dir_entry_def)
qed

lemma dirlookup_from_finds:
  assumes "bufs_inv p dev s" "idev (icache s dp) = dev"
    "blocks_ok dev s (icache s dp) 0 (unat (isize (icache s dp)))" "16 * (j + k) = unat (isize (icache s dp))"
  shows "\<exists>t. same_fs p dev s t \<and> dirlookup_from dp name (of_nat (16 * j)) k s =
    (case find (names_entry (view dev s) (icache s dp) name) [j..<j + k] of
       None \<Rightarrow> Ret None t
     | Some i \<Rightarrow> bind (iget dev (ucast (de_inum (dir_entry (view dev s) (icache s dp) i))))
         (\<lambda>ip. ret (Some (ip, of_nat (16 * i)))) t)"
  using assms
proof (induction k arbitrary: j s)
  case 0
  then show ?case by (auto simp: ret_def same_fs_def)
next
  case (Suc k)
  let ?d = "dir_entry (view dev s) (icache s dp) j"
  obtain t where t: "readi dp False 0 (\<lambda>_. 0) (of_nat (16 * j)) DIRENT s = Ret (DIRENT, ?d) t" "same_fs p dev s t"
    using readi_entry[OF Suc(2-4), of j] Suc(5) by auto
  note st = same_fsD[OF t(2)]
  have nxt: "of_nat (16 * j) + DIRENT = of_nat (16 * Suc j)" by (simp add: DIRENT_def)
  have up: "[j..<j + Suc k] = j # [Suc j..<Suc j + k]" by (simp add: upt_conv_Cons)
  show ?case
  proof (cases "names_entry (view dev s) (icache s dp) name j")
    case True
    then have "dirlookup_from dp name (of_nat (16 * j)) (Suc k) s =
        bind (iget dev (ucast (de_inum ?d))) (\<lambda>ip. ret (Some (ip, of_nat (16 * j)))) t"
      using t st(2) Suc(3) by (simp add: bind_def names_entry_def namecmp_def strncmp_zero_iff inode_of_def reads_def del: of_nat_mult)
    then show ?thesis unfolding up using t(2) True by auto
  next
    case False
    then have run: "dirlookup_from dp name (of_nat (16 * j)) (Suc k) s = dirlookup_from dp name (of_nat (16 * Suc j)) k t"
      unfolding nxt[symmetric] using t
      by (auto simp: bind_def names_entry_def namecmp_def strncmp_zero_iff inode_of_def reads_def simp del: of_nat_mult)
    have "blocks_ok dev t (icache t dp) 0 (unat (isize (icache t dp)))" "idev (icache t dp) = dev"
      "16 * (Suc j + k) = unat (isize (icache t dp))"
      using Suc(3-5) st(2) same_fs_blocks_ok[OF t(2)] by simp_all
    from Suc(1)[OF st(1) this(2,1,3), unfolded st(2,4)] obtain u where u: "same_fs p dev t u"
      "dirlookup_from dp name (of_nat (16 * Suc j)) k t =
        (case find (names_entry (view dev s) (icache s dp) name) [Suc j..<Suc j + k] of
           None \<Rightarrow> Ret None u
         | Some i \<Rightarrow> bind (iget dev (ucast (de_inum (dir_entry (view dev s) (icache s dp) i))))
             (\<lambda>ip. ret (Some (ip, of_nat (16 * i)))) u)" by blast
    have "same_fs p dev s u" by (rule same_fs_trans[OF t(2) u(1)])
    then show ?thesis unfolding up find.simps if_not_P[OF False] run u(2) by (intro exI[of _ u] conjI refl)
  qed
qed

lemma dirlookup_result:
  assumes "bufs_inv p dev s" "idev (icache s dp) = dev" "itype (icache s dp) = T_DIR"
    "blocks_ok dev s (icache s dp) 0 (unat (isize (icache s dp)))" "unat (isize (icache s dp)) = 16 * k"
    "locks s L_icache = free_lock" "icache_wf (icache s)"
  defines "n \<equiv> \<lambda>i. ucast (de_inum (dir_entry (view dev s) (icache s dp) i))"
  shows "\<exists>t. same_fs p dev s t \<and>
    (case find (names_entry (view dev s) (icache s dp) name) [0..<k] of
       None \<Rightarrow> dirlookup dp name s = Ret None t
     | Some i \<Rightarrow>
         if no_slot (icache s) dev (n i) then dirlookup dp name s = Panic ''iget: no inodes''
         else \<exists>ip u. dirlookup dp name s = Ret (Some (ip, of_nat (16 * i))) u \<and>
           ip < NINODE \<and> is_entry (icache u) dev (n i) ip \<and> counted t dev (n i) 1 u)"
proof -
  have "dir_entries (isize (icache s dp)) = k" using assms(5) by (simp add: dir_entries_def)
  then have run: "dirlookup dp name s = dirlookup_from dp name (of_nat (16 * 0)) k s"
    using assms(3) by (simp add: dirlookup_def bind_def inode_of_def reads_def)
  from assms(5) have "16 * (0 + k) = unat (isize (icache s dp))" by simp
  from dirlookup_from_finds[OF assms(1,2,4) this, of name] obtain t where t: "same_fs p dev s t"
    "dirlookup dp name s = (case find (names_entry (view dev s) (icache s dp) name) [0..<k] of
       None \<Rightarrow> Ret None t | Some i \<Rightarrow> bind (iget dev (n i)) (\<lambda>ip. ret (Some (ip, of_nat (16 * i)))) t)"
    unfolding run n_def by auto
  note st = same_fsD[OF t(1)]
  have "cpu_ok t" "locks t L_icache = free_lock" "icache_wf (icache t)"
    using st assms(6,7) threadD(1)[OF bufs_invD(1)[OF st(1)]] by simp_all
  note g = iget_counts[OF this, of dev]
  show ?thesis
  proof (intro exI[of _ t] conjI t(1))
    show "case find (names_entry (view dev s) (icache s dp) name) [0..<k] of
       None \<Rightarrow> dirlookup dp name s = Ret None t
     | Some i \<Rightarrow>
         if no_slot (icache s) dev (n i) then dirlookup dp name s = Panic ''iget: no inodes''
         else \<exists>ip u. dirlookup dp name s = Ret (Some (ip, of_nat (16 * i))) u \<and>
           ip < NINODE \<and> is_entry (icache u) dev (n i) ip \<and> counted t dev (n i) 1 u"
    proof (cases "find (names_entry (view dev s) (icache s dp) name) [0..<k]")
      case (Some i)
      then show ?thesis using t(2) g[of "n i"] st(2) by (auto simp: bind_def ret_def split: if_splits)
    qed (use t(2) in simp)
  qed
qed

text \<open>
  C35. Looking a name up in a directory: \<open>dirlookup\<close> returns the inode and the offset of the
  first entry in use whose name agrees with the given one up to \<open>DIRSIZ\<close> characters, with one
  more reference to the inode; it returns nothing when there is no such entry, and it changes no
  block and no other reference count.
\<close>

theorem dirlookup_finds:
  assumes "bufs_inv p dev s" "idev (icache s dp) = dev" "itype (icache s dp) = T_DIR"
    "blocks_ok dev s (icache s dp) 0 (unat (isize (icache s dp)))" "unat (isize (icache s dp)) = 16 * k"
    "locks s L_icache = free_lock" "icache_wf (icache s)"
  defines "n \<equiv> \<lambda>i. ucast (de_inum (dir_entry (view dev s) (icache s dp) i))"
  shows "\<exists>t. same_fs p dev s t \<and>
    (case find (names_entry (view dev s) (icache s dp) name) [0..<k] of
       None \<Rightarrow> dirlookup dp name s = Ret None t
     | Some i \<Rightarrow>
         if no_slot (icache s) dev (n i) then dirlookup dp name s = Panic ''iget: no inodes''
         else \<exists>ip u. dirlookup dp name s = Ret (Some (ip, of_nat (16 * i))) u \<and>
           ip < NINODE \<and> is_entry (icache u) dev (n i) ip \<and> counted t dev (n i) 1 u)"
  unfolding n_def by (rule dirlookup_result[OF assms(1-7)])

lemma dir_fs_wf: "icache_wf dir_inodes" "cpu_ok dir_fs"
  using threadD(1)[OF bufs_invD(1)[OF dir_fs_facts(1)]] by (simp_all add: icache_wf_def dir_inodes_def)


theorem dirlookup_finds_witness:
  "\<exists>ip u. dirlookup 0 (list_cstr [97]) dir_fs = Ret (Some (ip, 32)) u \<and> is_entry (icache u) 1 7 ip"
proof -
  have e: "dir_entry (view 1 dir_fs) (dir_inodes 0) j = read_into (\<lambda>_. 0) 0 16 (\<lambda>i. dir_block (16 * j + i))" if "j < 3" for j
    using that by (auto simp: dir_entry_def read_into_def dir_fs_facts(5) fun_eq_iff)
  have n: "cstr_eq_upto (list_cstr [97]) c DIRSIZ \<longleftrightarrow> c 0 = 97 \<and> c 1 = 0" for c
    apply (auto simp: cstr_eq_upto_def DIRSIZ_def list_cstr_def)
    subgoal for i by (cases "i = 1") (simp, metis One_nat_def less_one linorder_neqE_nat)
    done
  have "find (names_entry (view 1 dir_fs) (dir_inodes 0) (list_cstr [97])) [0..<3] = Some 2"
    by (simp add: names_entry_def e n upt_rec de_inum_def de_name_def ld16_def read_into_def dir_block_def)
  moreover have "de_inum (dir_entry (view 1 dir_fs) (dir_inodes 0) 2) = 7"
    by (simp add: e de_inum_def ld16_def read_into_def dir_block_def)
  moreover have "\<not> no_slot dir_inodes 1 7" by (auto simp: no_slot_def dir_inodes_def NINODE_def intro!: exI[of _ 1])
  moreover have "unat (isize (dir_inodes 0)) = 48" "itype (dir_inodes 0) = T_DIR" "idev (dir_inodes 0) = 1"
    by (simp_all add: dir_inodes_def)
  ultimately show ?thesis
    using dirlookup_finds[OF dir_fs_facts(1), of 0 3 "list_cstr [97]"] dir_fs_wf(1) dir_fs_facts(6) dir_fs_facts(3)
    by (auto simp: dir_fs_facts(2))
qed

end
