(* ===== verification/VirtioDisk.thy ===== *)
theory VirtioDisk
  imports File
begin

unbundle bit_operations_syntax

text \<open>
  \<open>kernel/virtio_disk.c\<close>: the driver of the disk, with its ring of descriptors. The disk
  device is not part of the kernel.
\<close>

section \<open>Registers and rings\<close>

definition VIRTIO_MMIO_MAGIC_VALUE :: uint64 where "VIRTIO_MMIO_MAGIC_VALUE = 0x000"
definition VIRTIO_MMIO_VERSION :: uint64 where "VIRTIO_MMIO_VERSION = 0x004"
definition VIRTIO_MMIO_DEVICE_ID :: uint64 where "VIRTIO_MMIO_DEVICE_ID = 0x008"
definition VIRTIO_MMIO_VENDOR_ID :: uint64 where "VIRTIO_MMIO_VENDOR_ID = 0x00c"
definition VIRTIO_MMIO_DEVICE_FEATURES :: uint64 where "VIRTIO_MMIO_DEVICE_FEATURES = 0x010"
definition VIRTIO_MMIO_DRIVER_FEATURES :: uint64 where "VIRTIO_MMIO_DRIVER_FEATURES = 0x020"
definition VIRTIO_MMIO_GUEST_PAGE_SIZE :: uint64 where "VIRTIO_MMIO_GUEST_PAGE_SIZE = 0x028"
definition VIRTIO_MMIO_QUEUE_SEL :: uint64 where "VIRTIO_MMIO_QUEUE_SEL = 0x030"
definition VIRTIO_MMIO_QUEUE_NUM_MAX :: uint64 where "VIRTIO_MMIO_QUEUE_NUM_MAX = 0x034"
definition VIRTIO_MMIO_QUEUE_NUM :: uint64 where "VIRTIO_MMIO_QUEUE_NUM = 0x038"
definition VIRTIO_MMIO_QUEUE_PFN :: uint64 where "VIRTIO_MMIO_QUEUE_PFN = 0x040"
definition VIRTIO_MMIO_QUEUE_NOTIFY :: uint64 where "VIRTIO_MMIO_QUEUE_NOTIFY = 0x050"
definition VIRTIO_MMIO_INTERRUPT_STATUS :: uint64 where "VIRTIO_MMIO_INTERRUPT_STATUS = 0x060"
definition VIRTIO_MMIO_INTERRUPT_ACK :: uint64 where "VIRTIO_MMIO_INTERRUPT_ACK = 0x064"
definition VIRTIO_MMIO_STATUS :: uint64 where "VIRTIO_MMIO_STATUS = 0x070"
definition VIRTIO_CONFIG_S_ACKNOWLEDGE :: uint where "VIRTIO_CONFIG_S_ACKNOWLEDGE = 1"
definition VIRTIO_CONFIG_S_DRIVER :: uint where "VIRTIO_CONFIG_S_DRIVER = 2"
definition VIRTIO_CONFIG_S_DRIVER_OK :: uint where "VIRTIO_CONFIG_S_DRIVER_OK = 4"
definition VIRTIO_CONFIG_S_FEATURES_OK :: uint where "VIRTIO_CONFIG_S_FEATURES_OK = 8"
definition VIRTIO_BLK_F_RO :: nat where "VIRTIO_BLK_F_RO = 5"
definition VIRTIO_BLK_F_SCSI :: nat where "VIRTIO_BLK_F_SCSI = 7"
definition VIRTIO_BLK_F_CONFIG_WCE :: nat where "VIRTIO_BLK_F_CONFIG_WCE = 11"
definition VIRTIO_BLK_F_MQ :: nat where "VIRTIO_BLK_F_MQ = 12"
definition VIRTIO_F_ANY_LAYOUT :: nat where "VIRTIO_F_ANY_LAYOUT = 27"
definition VIRTIO_RING_F_INDIRECT_DESC :: nat where "VIRTIO_RING_F_INDIRECT_DESC = 28"
definition VIRTIO_RING_F_EVENT_IDX :: nat where "VIRTIO_RING_F_EVENT_IDX = 29"
definition NUM :: nat where "NUM = 8"
definition VRING_DESC_F_NEXT :: ushort where "VRING_DESC_F_NEXT = 1"
definition VRING_DESC_F_WRITE :: ushort where "VRING_DESC_F_WRITE = 2"
definition VIRTIO_BLK_T_IN :: uint where "VIRTIO_BLK_T_IN = 0"
definition VIRTIO_BLK_T_OUT :: uint where "VIRTIO_BLK_T_OUT = 1"

text \<open>
  The addresses that the driver gives to the device: of a request header on a kernel
  stack (by its physical address), of the data of a buffer, of a status byte.
\<close>

datatype dma = Dma_null | Dma_hdr addr | Dma_data nat | Dma_status nat

record VRingDesc =
  d_addr :: dma
  d_len :: uint
  d_flags :: ushort
  d_next :: ushort

record VRingUsedElem =
  u_id :: uint
  u_len :: uint

record virtio_blk_outhdr =
  bo_type :: uint
  bo_reserved :: uint
  bo_sector :: uint64

text \<open>
  \<open>struct disk\<close>. \<open>dk_avail\<close> is the array \<open>disk.avail\<close>, whose element 1 is the index.
  \<open>outhdrs\<close> holds the request headers on the kernel stacks, by physical address, and
  \<open>buf0_off\<close> the place of the variable \<open>buf0\<close> in the stack page.
\<close>

record vdisk = files +
  dk_pages :: addr
  dk_desc :: "nat \<Rightarrow> VRingDesc"
  dk_avail :: "nat \<Rightarrow> ushort"
  dk_used_id :: ushort
  dk_used_elems :: "nat \<Rightarrow> VRingUsedElem"
  dk_free :: "nat \<Rightarrow> bool"
  dk_used_idx :: ushort
  dk_info_b :: "nat \<Rightarrow> nat option"
  dk_info_status :: "nat \<Rightarrow> uchar"
  outhdrs :: "addr \<Rightarrow> virtio_blk_outhdr"
  buf0_off :: uint64

definition rd_R :: "uint64 \<Rightarrow> ('z console_scheme, uint) op" where
  "rd_R r = bind (mmio_read (VIRTIO0 + r)) (\<lambda>v. ret (ucast v))"

definition wr_R :: "uint64 \<Rightarrow> uint \<Rightarrow> ('z console_scheme, unit) op" where
  "wr_R r v = mmio_write (VIRTIO0 + r) (ucast v)"

definition update_desc :: "nat \<Rightarrow> (VRingDesc \<Rightarrow> VRingDesc) \<Rightarrow> ('z vdisk_scheme, unit) op" where
  "update_desc i f = modify (\<lambda>s. s\<lparr>dk_desc := (dk_desc s)(i := f (dk_desc s i))\<rparr>)"

section \<open>Initialisation\<close>

definition features_mask :: uint64 where
  "features_mask = NOT (push_bit VIRTIO_BLK_F_RO 1 OR push_bit VIRTIO_BLK_F_SCSI 1
     OR push_bit VIRTIO_BLK_F_CONFIG_WCE 1 OR push_bit VIRTIO_BLK_F_MQ 1
     OR push_bit VIRTIO_F_ANY_LAYOUT 1 OR push_bit VIRTIO_RING_F_EVENT_IDX 1
     OR push_bit VIRTIO_RING_F_INDIRECT_DESC 1)"

definition zero_desc :: VRingDesc where
  "zero_desc = \<lparr>d_addr = Dma_null, d_len = 0, d_flags = 0, d_next = 0\<rparr>"

definition virtio_disk_init :: "('z vdisk_scheme, unit) op" where
  "virtio_disk_init =
     bind (initlock L_vdisk) (\<lambda>_.
     bind (rd_R VIRTIO_MMIO_MAGIC_VALUE) (\<lambda>magic.
     if magic \<noteq> 0x74726976 then panic ''could not find virtio disk'' else
     bind (rd_R VIRTIO_MMIO_VERSION) (\<lambda>version.
     if version \<noteq> 1 then panic ''could not find virtio disk'' else
     bind (rd_R VIRTIO_MMIO_DEVICE_ID) (\<lambda>device.
     if device \<noteq> 2 then panic ''could not find virtio disk'' else
     bind (rd_R VIRTIO_MMIO_VENDOR_ID) (\<lambda>vendor.
     if vendor \<noteq> 0x554d4551 then panic ''could not find virtio disk'' else
     let st1 = VIRTIO_CONFIG_S_ACKNOWLEDGE; st2 = st1 OR VIRTIO_CONFIG_S_DRIVER;
         st3 = st2 OR VIRTIO_CONFIG_S_FEATURES_OK; st4 = st3 OR VIRTIO_CONFIG_S_DRIVER_OK in
     bind (wr_R VIRTIO_MMIO_STATUS st1) (\<lambda>_.
     bind (wr_R VIRTIO_MMIO_STATUS st2) (\<lambda>_.
     bind (rd_R VIRTIO_MMIO_DEVICE_FEATURES) (\<lambda>features.
     bind (wr_R VIRTIO_MMIO_DRIVER_FEATURES (ucast (ucast features AND features_mask))) (\<lambda>_.
     bind (wr_R VIRTIO_MMIO_STATUS st3) (\<lambda>_.
     bind (wr_R VIRTIO_MMIO_STATUS st4) (\<lambda>_.
     bind (wr_R VIRTIO_MMIO_GUEST_PAGE_SIZE (ucast PGSIZE)) (\<lambda>_.
     bind (wr_R VIRTIO_MMIO_QUEUE_SEL 0) (\<lambda>_.
     bind (rd_R VIRTIO_MMIO_QUEUE_NUM_MAX) (\<lambda>maxq.
     if maxq = 0 then panic ''virtio disk has no queue 0''
     else if maxq < of_nat NUM then panic ''virtio disk max queue too short'' else
     bind (wr_R VIRTIO_MMIO_QUEUE_NUM (of_nat NUM)) (\<lambda>_.
     bind (modify (\<lambda>s. s\<lparr>dk_desc := (\<lambda>_. zero_desc), dk_avail := (\<lambda>_. 0), dk_used_id := 0,
        dk_used_elems := (\<lambda>_. \<lparr>u_id = 0, u_len = 0\<rparr>)\<rparr>)) (\<lambda>_.
     bind (reads dk_pages) (\<lambda>pages.
     bind (wr_R VIRTIO_MMIO_QUEUE_PFN (ucast (drop_bit 12 pages))) (\<lambda>_.
     for_each [0..<NUM] (\<lambda>i. modify (\<lambda>s. s\<lparr>dk_free := (dk_free s)(i := True)\<rparr>))))))))))))))))))))"

section \<open>Descriptors\<close>

definition alloc_desc :: "('z vdisk_scheme, nat option) op" where
  "alloc_desc = for_first [0..<NUM] (\<lambda>i.
     bind (reads (\<lambda>s. dk_free s i)) (\<lambda>free.
     if free then
       bind (modify (\<lambda>s. s\<lparr>dk_free := (dk_free s)(i := False)\<rparr>)) (\<lambda>_.
       ret (Some i))
     else ret None))"

definition free_desc :: "nat \<Rightarrow> ('z vdisk_scheme, unit) op" where
  "free_desc i =
     (if i \<ge> NUM then panic ''virtio_disk_intr 1'' else
      bind (reads (\<lambda>s. dk_free s i)) (\<lambda>free.
      if free then panic ''virtio_disk_intr 2'' else
      bind (update_desc i (\<lambda>d. d\<lparr>d_addr := Dma_null\<rparr>)) (\<lambda>_.
      bind (modify (\<lambda>s. s\<lparr>dk_free := (dk_free s)(i := True)\<rparr>)) (\<lambda>_.
      wakeup C_disk_free))))"

text \<open>
  The loop of \<open>free_chain\<close>. Each round frees a descriptor and panics on one that is
  already free, so it ends within \<open>NUM + 1\<close> rounds.
\<close>

fun free_chain_from :: "nat \<Rightarrow> nat \<Rightarrow> ('z vdisk_scheme, unit) op" where
  "free_chain_from 0 i = spin"
| "free_chain_from (Suc n) i =
     bind (free_desc i) (\<lambda>_.
     bind (reads (\<lambda>s. dk_desc s i)) (\<lambda>d.
     if d_flags d AND VRING_DESC_F_NEXT \<noteq> 0 then free_chain_from n (unat (d_next d))
     else ret ()))"

definition free_chain :: "nat \<Rightarrow> ('z vdisk_scheme, unit) op" where
  "free_chain i = free_chain_from (Suc NUM) i"

definition alloc3_desc :: "('z vdisk_scheme, (nat \<times> nat \<times> nat) option) op" where
  "alloc3_desc =
     bind alloc_desc (\<lambda>r0.
     case r0 of None \<Rightarrow> ret None | Some i0 \<Rightarrow>
     bind alloc_desc (\<lambda>r1.
     case r1 of None \<Rightarrow> bind (free_desc i0) (\<lambda>_. ret None) | Some i1 \<Rightarrow>
     bind alloc_desc (\<lambda>r2.
     case r2 of None \<Rightarrow> bind (free_desc i0) (\<lambda>_. bind (free_desc i1) (\<lambda>_. ret None)) | Some i2 \<Rightarrow>
     ret (Some (i0, i1, i2)))))"

section \<open>Requests\<close>

text \<open>The part of \<open>virtio_disk_rw\<close> that formats the descriptors and notifies the device.\<close>

definition submit :: "nat \<Rightarrow> bool \<Rightarrow> uint64 \<Rightarrow> nat \<times> nat \<times> nat \<Rightarrow> ('z vdisk_scheme, unit) op" where
  "submit b write sector idx =
     (case idx of (i0, i1, i2) \<Rightarrow>
      bind curp (\<lambda>p.
      bind (proc_of p kstack) (\<lambda>ks.
      bind (reads buf0_off) (\<lambda>off.
      bind (kvmpa (ks + off)) (\<lambda>pa.
      bind (modify (\<lambda>s. s\<lparr>outhdrs := (outhdrs s)(pa :=
        \<lparr>bo_type = (if write then VIRTIO_BLK_T_OUT else VIRTIO_BLK_T_IN), bo_reserved = 0, bo_sector = sector\<rparr>)\<rparr>)) (\<lambda>_.
      bind (update_desc i0 (\<lambda>_. \<lparr>d_addr = Dma_hdr pa, d_len = 16, d_flags = VRING_DESC_F_NEXT,
        d_next = of_nat i1\<rparr>)) (\<lambda>_.
      bind (update_desc i1 (\<lambda>_. \<lparr>d_addr = Dma_data b, d_len = BSIZE,
        d_flags = (if write then 0 else VRING_DESC_F_WRITE) OR VRING_DESC_F_NEXT, d_next = of_nat i2\<rparr>)) (\<lambda>_.
      bind (modify (\<lambda>s. s\<lparr>dk_info_status := (dk_info_status s)(i0 := 0)\<rparr>)) (\<lambda>_.
      bind (update_desc i2 (\<lambda>_. \<lparr>d_addr = Dma_status i0, d_len = 1, d_flags = VRING_DESC_F_WRITE,
        d_next = 0\<rparr>)) (\<lambda>_.
      bind (update_buf b (\<lambda>q. q\<lparr>bdisk := True\<rparr>)) (\<lambda>_.
      bind (modify (\<lambda>s. s\<lparr>dk_info_b := (dk_info_b s)(i0 := Some b)\<rparr>)) (\<lambda>_.
      bind (modify (\<lambda>s. s\<lparr>dk_avail := (dk_avail s)(2 + unat (dk_avail s 1 mod of_nat NUM) := of_nat i0)\<rparr>)) (\<lambda>_.
      bind (modify (\<lambda>s. s\<lparr>dk_avail := (dk_avail s)(1 := dk_avail s 1 + 1)\<rparr>)) (\<lambda>_.
      wr_R VIRTIO_MMIO_QUEUE_NOTIFY 0))))))))))))))"

definition virtio_disk_rw :: "nat \<Rightarrow> bool \<Rightarrow> ('z vdisk_scheme, unit) op" where
  "virtio_disk_rw b write =
     bind (buf_of b (\<lambda>q. ucast (blockno q * 2))) (\<lambda>sector.
     bind (acquire L_vdisk) (\<lambda>_.
     bind (sleep_until alloc3_desc C_disk_free L_vdisk) (\<lambda>idx.
     bind (submit b write sector idx) (\<lambda>_.
     bind (sleep_while (\<lambda>s. bdisk (bcache s b)) (C_buf b) L_vdisk) (\<lambda>_.
     bind (modify (\<lambda>s. s\<lparr>dk_info_b := (dk_info_b s)(fst idx := None)\<rparr>)) (\<lambda>_.
     bind (free_chain (fst idx)) (\<lambda>_.
     release L_vdisk)))))))"

text \<open>
  The loop of the interrupt handler over the completed requests; \<open>used_idx\<close> moves
  round the ring of \<open>NUM\<close> entries, so the loop ends within \<open>NUM\<close> rounds.
\<close>

fun virtio_disk_intr_loop :: "nat \<Rightarrow> ('z vdisk_scheme, unit) op" where
  "virtio_disk_intr_loop 0 = spin"
| "virtio_disk_intr_loop (Suc n) =
     bind (reads (\<lambda>s. dk_used_idx s mod of_nat NUM \<noteq> dk_used_id s mod of_nat NUM)) (\<lambda>more.
     if \<not> more then ret () else
     bind (reads (\<lambda>s. unat (u_id (dk_used_elems s (unat (dk_used_idx s)))))) (\<lambda>i.
     bind (reads (\<lambda>s. dk_info_status s i)) (\<lambda>st.
     if st \<noteq> 0 then panic ''virtio_disk_intr status'' else
     bind (reads (\<lambda>s. dk_info_b s i)) (\<lambda>ob.
     bind (deref ob) (\<lambda>b.
     bind (update_buf b (\<lambda>q. q\<lparr>bdisk := False\<rparr>)) (\<lambda>_.
     bind (wakeup (C_buf b)) (\<lambda>_.
     bind (modify (\<lambda>s. s\<lparr>dk_used_idx := (dk_used_idx s + 1) mod of_nat NUM\<rparr>)) (\<lambda>_.
     virtio_disk_intr_loop n))))))))"

definition virtio_disk_intr :: "('z vdisk_scheme, unit) op" where
  "virtio_disk_intr =
     bind (acquire L_vdisk) (\<lambda>_.
     bind (virtio_disk_intr_loop (Suc NUM)) (\<lambda>_.
     bind (rd_R VIRTIO_MMIO_INTERRUPT_STATUS) (\<lambda>st.
     bind (wr_R VIRTIO_MMIO_INTERRUPT_ACK (st AND 0x3)) (\<lambda>_.
     release L_vdisk))))"

end
