(* ===== verification/ProcLife.thy ===== *)
theory ProcLife
  imports VirtioDisk
begin

unbundle bit_operations_syntax

text \<open>
  The life of a process: \<open>userinit\<close>, \<open>fork\<close>, \<open>exit\<close> and \<open>forkret\<close> of
  \<open>kernel/proc.c\<close>, \<open>kernel/exec.c\<close>, and the return to user space of
  \<open>kernel/trap.c\<close>, which a new process goes through first.
\<close>

record kernel = vdisk +
  forkret_first :: bool

section \<open>Control registers\<close>

definition update_hart :: "(hart \<Rightarrow> hart) \<Rightarrow> ('z machine_scheme, unit) op" where
  "update_hart f = modify (\<lambda>s. s\<lparr>harts := (harts s)(tp s := f (harts s (tp s)))\<rparr>)"

definition r_sepc :: "('z machine_scheme, uint64) op" where
  "r_sepc = reads (\<lambda>s. sepc (harts s (tp s)))"

definition w_sepc :: "uint64 \<Rightarrow> ('z machine_scheme, unit) op" where
  "w_sepc x = update_hart (\<lambda>h. h\<lparr>sepc := x\<rparr>)"

definition r_scause :: "('z machine_scheme, uint64) op" where
  "r_scause = reads (\<lambda>s. scause (harts s (tp s)))"

definition r_stval :: "('z machine_scheme, uint64) op" where
  "r_stval = reads (\<lambda>s. stval (harts s (tp s)))"

definition w_stvec :: "uint64 \<Rightarrow> ('z machine_scheme, unit) op" where
  "w_stvec x = update_hart (\<lambda>h. h\<lparr>stvec := x\<rparr>)"

definition r_sip :: "('z machine_scheme, uint64) op" where
  "r_sip = reads (\<lambda>s. sip (harts s (tp s)))"

definition w_sip :: "uint64 \<Rightarrow> ('z machine_scheme, unit) op" where
  "w_sip x = update_hart (\<lambda>h. h\<lparr>sip := x\<rparr>)"

definition r_satp :: "('z machine_scheme, uint64) op" where
  "r_satp = reads (\<lambda>s. satp (harts s (tp s)))"

section \<open>Return to user space\<close>

text \<open>
  \<open>usertrapret\<close> ends with a jump to \<open>userret\<close> in \<open>trampoline.S\<close>; the result is the
  address it jumps to and the two arguments.
\<close>

definition usertrapret :: "('z procs_scheme, uint64 \<times> uint64 \<times> uint64) op" where
  "usertrapret =
     bind curp (\<lambda>p.
     bind intr_off (\<lambda>_.
     bind (reads trampoline) (\<lambda>tr.
     bind (reads uservec_addr) (\<lambda>uv.
     bind (w_stvec (TRAMPOLINE + (uv - tr))) (\<lambda>_.
     bind r_satp (\<lambda>ksatp.
     bind (tf_store p TF_kernel_satp ksatp) (\<lambda>_.
     bind (proc_of p kstack) (\<lambda>ks.
     bind (tf_store p TF_kernel_sp (ks + PGSIZE)) (\<lambda>_.
     bind (reads usertrap_addr) (\<lambda>ut.
     bind (tf_store p TF_kernel_trap ut) (\<lambda>_.
     bind cpuid (\<lambda>hid.
     bind (tf_store p TF_kernel_hartid (of_nat hid)) (\<lambda>_.
     bind r_sstatus (\<lambda>x.
     bind (w_sstatus ((x AND NOT SSTATUS_SPP) OR SSTATUS_SPIE)) (\<lambda>_.
     bind (tf_load p TF_epc) (\<lambda>epc.
     bind (w_sepc epc) (\<lambda>_.
     bind (proc_of p pagetable) (\<lambda>pt.
     bind (reads userret_addr) (\<lambda>ur.
     ret (TRAMPOLINE + (ur - tr), TRAPFRAME, MAKE_SATP pt))))))))))))))))))))"

definition forkret :: "('z kernel_scheme, uint64 \<times> uint64 \<times> uint64) op" where
  "forkret =
     bind curp (\<lambda>p.
     bind (release (L_proc p)) (\<lambda>_.
     bind (reads forkret_first) (\<lambda>first.
     bind (if first then
             bind (modify (\<lambda>s. s\<lparr>forkret_first := False\<rparr>)) (\<lambda>_.
             fsinit ROOTDEV)
           else ret ()) (\<lambda>_.
     usertrapret))))"

section \<open>The first process\<close>

definition initcode :: "uchar list" where
  "initcode = [0x17, 0x05, 0x00, 0x00, 0x13, 0x05, 0x45, 0x02, 0x97, 0x05, 0x00, 0x00, 0x93,
     0x85, 0x35, 0x02, 0x93, 0x08, 0x70, 0x00, 0x73, 0x00, 0x00, 0x00, 0x93, 0x08,
     0x20, 0x00, 0x73, 0x00, 0x00, 0x00, 0xef, 0xf0, 0x9f, 0xff, 0x2f, 0x69, 0x6e,
     0x69, 0x74, 0x00, 0x00, 0x24, 0x00, 0x00, 0x00, 0x00, 0x00, 0x00, 0x00, 0x00]"

definition userinit :: "('z fs_scheme, unit) op" where
  "userinit =
     bind allocproc (\<lambda>np.
     bind (modify (\<lambda>s. s\<lparr>initproc := np\<rparr>)) (\<lambda>_.
     bind (deref np) (\<lambda>p.
     bind (proc_of p pagetable) (\<lambda>pt.
     bind (uvminit pt (list_cstr initcode) (of_nat (length initcode))) (\<lambda>_.
     bind (update_proc p (\<lambda>q. q\<lparr>psz := PGSIZE\<rparr>)) (\<lambda>_.
     bind (tf_store p TF_epc 0) (\<lambda>_.
     bind (tf_store p TF_sp PGSIZE) (\<lambda>_.
     bind (update_proc p (\<lambda>q. q\<lparr>pname := safestrcpy (pname q) (list_cstr (ascii ''initcode'')) 16\<rparr>)) (\<lambda>_.
     bind (namei [slash]) (\<lambda>d.
     bind (update_proc p (\<lambda>q. q\<lparr>cwd := d\<rparr>)) (\<lambda>_.
     bind (update_proc p (\<lambda>q. q\<lparr>pstate := RUNNABLE\<rparr>)) (\<lambda>_.
     release (L_proc p)))))))))))))"

section \<open>fork and exit\<close>

text \<open>\<open>sizeof(struct trapframe)\<close>.\<close>

definition TRAPFRAME_SIZE :: nat where "TRAPFRAME_SIZE = 288"

definition fork_dup :: "nat \<Rightarrow> nat \<Rightarrow> nat \<Rightarrow> ('z files_scheme, unit) op" where
  "fork_dup p np i =
     bind (proc_of p (\<lambda>q. ofile q i)) (\<lambda>f.
     case f of
       None \<Rightarrow> ret ()
     | Some f \<Rightarrow>
         bind (filedup f) (\<lambda>f'.
         update_proc np (\<lambda>q. q\<lparr>ofile := (ofile q)(i := Some f')\<rparr>)))"

definition fork :: "('z files_scheme, int) op" where
  "fork =
     bind curp (\<lambda>p.
     bind allocproc (\<lambda>onp.
     case onp of None \<Rightarrow> ret (-1) | Some np \<Rightarrow>
     bind (proc_of p pagetable) (\<lambda>pt.
     bind (proc_of np pagetable) (\<lambda>npt.
     bind (proc_of p psz) (\<lambda>sz.
     bind (uvmcopy pt npt sz) (\<lambda>r.
     if r < 0 then
       bind (freeproc np) (\<lambda>_.
       bind (release (L_proc np)) (\<lambda>_. ret (-1)))
     else
     bind (update_proc np (\<lambda>q. q\<lparr>psz := sz\<rparr>)) (\<lambda>_.
     bind (update_proc np (\<lambda>q. q\<lparr>parent := Some p\<rparr>)) (\<lambda>_.
     bind (proc_of p trapframe) (\<lambda>tf.
     bind (proc_of np trapframe) (\<lambda>ntf.
     bind (modify (\<lambda>s. s\<lparr>mem := memmove (mem s) ntf tf TRAPFRAME_SIZE\<rparr>)) (\<lambda>_.
     bind (tf_store np TF_a0 0) (\<lambda>_.
     bind (for_each [0..<NOFILE] (fork_dup p np)) (\<lambda>_.
     bind (proc_of p cwd) (\<lambda>d.
     bind (deref d) (\<lambda>d.
     bind (idup d) (\<lambda>d'.
     bind (update_proc np (\<lambda>q. q\<lparr>cwd := Some d'\<rparr>)) (\<lambda>_.
     bind (proc_of p pname) (\<lambda>nm.
     bind (update_proc np (\<lambda>q. q\<lparr>pname := safestrcpy (pname q) nm 16\<rparr>)) (\<lambda>_.
     bind (proc_of np pid) (\<lambda>pid.
     bind (update_proc np (\<lambda>q. q\<lparr>pstate := RUNNABLE\<rparr>)) (\<lambda>_.
     bind (release (L_proc np)) (\<lambda>_.
     ret pid))))))))))))))))))))))"

definition exit_close :: "nat \<Rightarrow> nat \<Rightarrow> ('z files_scheme, unit) op" where
  "exit_close p fd =
     bind (proc_of p (\<lambda>q. ofile q fd)) (\<lambda>f.
     case f of
       None \<Rightarrow> ret ()
     | Some f \<Rightarrow>
         bind (fileclose f) (\<lambda>_.
         update_proc p (\<lambda>q. q\<lparr>ofile := (ofile q)(fd := None)\<rparr>)))"

text \<open>The loop of \<open>exit\<close> that reports the children; the state is the counter \<open>i\<close>.\<close>

fun exit_report :: "nat \<Rightarrow> nat list \<Rightarrow> nat \<Rightarrow> ('z console_scheme, unit) op" where
  "exit_report p [] i = ret ()"
| "exit_report p (pp # pps) i =
     bind (proc_of pp id) (\<lambda>q.
     if parent q = Some p then
       bind (proc_of p pid) (\<lambda>n.
       bind (info_with_color (''proc %d exit, child %d, pid %d, name %s, state %s'' @ [CHR 0x0A])
         [Aint (word_of_int n), Aint (of_nat i), Aint (word_of_int (pid q)),
          Astr (Some (chars_upto 16 (pname q))), Astr (Some (ascii (getProcState (pstate q))))]) (\<lambda>_.
       exit_report p pps (Suc i)))
     else exit_report p pps i)"

definition kexit :: "32 word \<Rightarrow> ('z files_scheme, unit) op" where
  "kexit status =
     bind curp (\<lambda>p.
     bind (reads initproc) (\<lambda>ini.
     if Some p = ini then panic ''init exiting'' else
     bind (for_each [0..<NOFILE] (exit_close p)) (\<lambda>_.
     bind begin_op (\<lambda>_.
     bind (proc_of p cwd) (\<lambda>d.
     bind (deref d) (\<lambda>d.
     bind (iput d) (\<lambda>_.
     bind end_op (\<lambda>_.
     bind (update_proc p (\<lambda>q. q\<lparr>cwd := None\<rparr>)) (\<lambda>_.
     bind (reads initproc) (\<lambda>oini.
     bind (deref oini) (\<lambda>ini.
     bind (acquire (L_proc ini)) (\<lambda>_.
     bind (wakeup1 ini) (\<lambda>_.
     bind (release (L_proc ini)) (\<lambda>_.
     bind (acquire (L_proc p)) (\<lambda>_.
     bind (proc_of p parent) (\<lambda>opar.
     bind (release (L_proc p)) (\<lambda>_.
     bind (deref opar) (\<lambda>original_parent.
     bind (acquire (L_proc original_parent)) (\<lambda>_.
     bind (acquire (L_proc p)) (\<lambda>_.
     bind (proc_of p pid) (\<lambda>n.
     bind (proc_of original_parent id) (\<lambda>q.
     bind (info_with_color (''proc %d exit, parent pid %d, name %s, state %s'' @ [CHR 0x0A])
       [Aint (word_of_int n), Aint (word_of_int (pid q)), Astr (Some (chars_upto 16 (pname q))),
        Astr (Some (ascii (getProcState (pstate q))))]) (\<lambda>_.
     bind (exit_report p [0..<NPROC] 0) (\<lambda>_.
     bind (reparent p) (\<lambda>_.
     bind (wakeup1 original_parent) (\<lambda>_.
     bind (update_proc p (\<lambda>q. q\<lparr>xstate := status\<rparr>)) (\<lambda>_.
     bind (update_proc p (\<lambda>q. q\<lparr>pstate := ZOMBIE\<rparr>)) (\<lambda>_.
     bind (release (L_proc original_parent)) (\<lambda>_.
     bind sched (\<lambda>_.
     panic ''zombie exit''))))))))))))))))))))))))))))))"

end
