(* ===== verification/Exec.thy ===== *)
theory Exec
  imports ProcLife
begin

unbundle bit_operations_syntax

text \<open>
  \<open>kernel/exec.c\<close> with \<open>kernel/elf.h\<close>: loading a program from the file system and
  replacing the memory of the current process.
\<close>

definition MAXARG :: nat where "MAXARG = 32"
definition ELF_MAGIC :: uint where "ELF_MAGIC = 0x464C457F"
definition ELF_PROG_LOAD :: uint where "ELF_PROG_LOAD = 1"

definition ld64 :: "cstr \<Rightarrow> nat \<Rightarrow> uint64" where
  "ld64 d i = ucast (ld32 d i) OR push_bit 32 (ucast (ld32 d (i + 4)))"

definition st64 :: "cstr \<Rightarrow> nat \<Rightarrow> uint64 \<Rightarrow> cstr" where
  "st64 d i v = st32 (st32 d i (ucast v)) (i + 4) (ucast (drop_bit 32 v))"

text \<open>The fields of \<open>struct elfhdr\<close> (64 bytes) and \<open>struct proghdr\<close> (56 bytes) in use.\<close>

record elfhdr =
  eh_magic :: uint
  eh_entry :: uint64
  eh_phoff :: uint64
  eh_phnum :: ushort

record proghdr =
  ph_type :: uint
  ph_off :: uint64
  ph_vaddr :: uint64
  ph_filesz :: uint64
  ph_memsz :: uint64

definition get_elfhdr :: "cstr \<Rightarrow> elfhdr" where
  "get_elfhdr d = \<lparr>eh_magic = ld32 d 0, eh_entry = ld64 d 24, eh_phoff = ld64 d 32, eh_phnum = ld16 d 56\<rparr>"

definition get_proghdr :: "cstr \<Rightarrow> proghdr" where
  "get_proghdr d = \<lparr>ph_type = ld32 d 0, ph_off = ld64 d 8, ph_vaddr = ld64 d 16,
     ph_filesz = ld64 d 32, ph_memsz = ld64 d 40\<rparr>"

text \<open>
  \<open>loadseg\<close> has \<open>readi\<close> write to the physical page; the bytes it read go there. One round
  of the loop returns \<open>Some (-1)\<close> to return from the function.
\<close>

definition loadseg_page :: "addr \<Rightarrow> uint64 \<Rightarrow> nat \<Rightarrow> uint \<Rightarrow> uint \<Rightarrow> nat \<Rightarrow> ('z fs_scheme, int option) op" where
  "loadseg_page pt va ip offset sz k =
     (let i = of_nat (4096 * k) :: uint in
      bind (walkaddr pt (va + ucast i)) (\<lambda>pa.
      if pa = 0 then panic ''loadseg: address should exist'' else
      let n = (if sz - i < 4096 then sz - i else 4096) in
      bind (readi ip False pa (\<lambda>_. 0) (offset + i) n) (\<lambda>(r, bytes).
      bind (write_op pa bytes (unat r)) (\<lambda>_.
      if r \<noteq> n then ret (Some (-1)) else ret None))))"

definition loadseg :: "addr \<Rightarrow> uint64 \<Rightarrow> nat \<Rightarrow> uint \<Rightarrow> uint \<Rightarrow> ('z fs_scheme, int) op" where
  "loadseg pt va ip offset sz =
     (if va mod PGSIZE \<noteq> 0 then panic ''loadseg: va must be page aligned'' else
      bind (for_first [0..<(unat sz + 4095) div 4096] (loadseg_page pt va ip offset sz)) (\<lambda>r.
      case r of Some e \<Rightarrow> ret e | None \<Rightarrow> ret 0))"

text \<open>
  The code at the label \<open>bad\<close>: \<open>ip\<close> is None once the file is closed.
\<close>

definition exec_bad :: "addr \<Rightarrow> uint64 \<Rightarrow> nat option \<Rightarrow> ('z files_scheme, int) op" where
  "exec_bad pt sz ip =
     bind (if pt \<noteq> 0 then proc_freepagetable pt sz else ret ()) (\<lambda>_.
     bind (case ip of Some i \<Rightarrow> bind (iunlockput i) (\<lambda>_. end_op) | None \<Rightarrow> ret ()) (\<lambda>_.
     ret (-1)))"

text \<open>
  The loop over \<open>k\<close> program headers from file offset \<open>off\<close>; \<open>Inl sz\<close> is a jump to
  \<open>bad\<close> with that size, \<open>Inr sz\<close> the size at the end.
\<close>

fun exec_load :: "addr \<Rightarrow> nat \<Rightarrow> 32 word \<Rightarrow> uint64 \<Rightarrow> nat \<Rightarrow> ('z fs_scheme, uint64 + uint64) op" where
  "exec_load pt ip off sz 0 = ret (Inr sz)"
| "exec_load pt ip off sz (Suc k) =
     bind (readi ip False 0 (\<lambda>_. 0) off 56) (\<lambda>(r, bytes).
     let ph = get_proghdr bytes in
     if r \<noteq> 56 then ret (Inl sz)
     else if ph_type ph \<noteq> ELF_PROG_LOAD then exec_load pt ip (off + 56) sz k
     else if ph_memsz ph < ph_filesz ph then ret (Inl sz)
     else if ph_vaddr ph + ph_memsz ph < ph_vaddr ph then ret (Inl sz)
     else
       bind (uvmalloc pt sz (ph_vaddr ph + ph_memsz ph)) (\<lambda>sz1.
       if sz1 = 0 then ret (Inl sz)
       else if ph_vaddr ph mod PGSIZE \<noteq> 0 then ret (Inl sz1)
       else
         bind (loadseg pt (ph_vaddr ph) ip (ucast (ph_off ph)) (ucast (ph_filesz ph))) (\<lambda>r.
         if r < 0 then ret (Inl sz1) else exec_load pt ip (off + 56) sz1 k)))"

text \<open>
  The loop that pushes the argument strings: \<open>argv\<close> is the list of the strings' addresses
  in kernel memory, \<open>ustack\<close> the user addresses pushed so far, \<open>sp\<close> the stack pointer.
  None is a jump to \<open>bad\<close>.
\<close>

definition mem_cstr :: "memory \<Rightarrow> addr \<Rightarrow> cstr" where
  "mem_cstr m a = (\<lambda>i. m (a + of_nat i))"

fun exec_push :: "addr \<Rightarrow> uint64 \<Rightarrow> addr list \<Rightarrow> uint64 list \<Rightarrow> uint64 \<Rightarrow> ('z kmem_scheme, (uint64 list \<times> uint64) option) op" where
  "exec_push pt stackbase [] ustack sp = ret (Some (ustack, sp))"
| "exec_push pt stackbase (a # argv) ustack sp =
     (if length ustack \<ge> MAXARG then ret None else
      bind (reads (\<lambda>s. mem_cstr (mem s) a)) (\<lambda>str.
      case strlen str of
        None \<Rightarrow> spin
      | Some len \<Rightarrow>
          let sp1 = sp - (of_nat len + 1); sp2 = sp1 - sp1 mod 16 in
          if sp2 < stackbase then ret None else
          bind (copyout pt sp2 str (of_nat len + 1)) (\<lambda>r.
          if r < 0 then ret None
          else exec_push pt stackbase argv (ustack @ [sp2]) sp2)))"

text \<open>The array \<open>ustack\<close> in memory order, ended by a null pointer.\<close>

fun ustack_bytes :: "uint64 list \<Rightarrow> cstr" where
  "ustack_bytes [] = (\<lambda>_. 0)"
| "ustack_bytes (v # vs) = (\<lambda>i. if i < 8 then st64 (\<lambda>_. 0) 0 v i else ustack_bytes vs (i - 8))"

text \<open>The last element of a path, which becomes the name of the process.\<close>

fun last_elem :: "uchar list \<Rightarrow> uchar list \<Rightarrow> uchar list" where
  "last_elem [] e = e"
| "last_elem (c # cs) e = last_elem cs (if c = slash then cs else e)"

text \<open>The second half of \<open>exec\<close>: the stack and the switch to the new image.\<close>

definition exec_commit :: "nat \<Rightarrow> uchar list \<Rightarrow> addr \<Rightarrow> uint64 \<Rightarrow> elfhdr \<Rightarrow> nat \<Rightarrow> uint64 \<Rightarrow> uint64 \<Rightarrow> ('z files_scheme, int) op" where
  "exec_commit p path pt sz elf argc sp oldsz =
     bind (tf_store p TF_a1 sp) (\<lambda>_.
     bind (update_proc p (\<lambda>q. q\<lparr>pname := safestrcpy (pname q) (list_cstr (last_elem path path)) 16\<rparr>)) (\<lambda>_.
     bind (proc_of p pagetable) (\<lambda>oldpagetable.
     bind (update_proc p (\<lambda>q. q\<lparr>pagetable := pt\<rparr>)) (\<lambda>_.
     bind (update_proc p (\<lambda>q. q\<lparr>psz := sz\<rparr>)) (\<lambda>_.
     bind (tf_store p TF_epc (eh_entry elf)) (\<lambda>_.
     bind (tf_store p TF_sp sp) (\<lambda>_.
     bind (proc_freepagetable oldpagetable oldsz) (\<lambda>_.
     ret (int argc)))))))))"

definition exec_stack :: "uchar list \<Rightarrow> addr list \<Rightarrow> addr \<Rightarrow> uint64 \<Rightarrow> elfhdr \<Rightarrow> ('z files_scheme, int) op" where
  "exec_stack path argv pt sz0 elf =
     bind curp (\<lambda>p.
     bind (proc_of p psz) (\<lambda>oldsz.
     let sz = PGROUNDUP sz0 in
     bind (uvmalloc pt sz (sz + 2 * PGSIZE)) (\<lambda>sz1.
     if sz1 = 0 then exec_bad pt sz None else
     bind (uvmclear pt (sz1 - 2 * PGSIZE)) (\<lambda>_.
     let stackbase = sz1 - PGSIZE in
     bind (exec_push pt stackbase argv [] sz1) (\<lambda>r.
     case r of None \<Rightarrow> exec_bad pt sz1 None | Some (ustack, sp0) \<Rightarrow>
     let argc = length ustack;
         sp1 = sp0 - (of_nat argc + 1) * 8; sp = sp1 - sp1 mod 16 in
     if sp < stackbase then exec_bad pt sz1 None else
     bind (copyout pt sp (ustack_bytes ustack) ((of_nat argc + 1) * 8)) (\<lambda>r.
     if r < 0 then exec_bad pt sz1 None else
     exec_commit p path pt sz1 elf argc sp oldsz))))))"

definition exec :: "uchar list \<Rightarrow> addr list \<Rightarrow> ('z files_scheme, int) op" where
  "exec path argv =
     bind curp (\<lambda>p.
     bind begin_op (\<lambda>_.
     bind (namei path) (\<lambda>oip.
     case oip of None \<Rightarrow> bind end_op (\<lambda>_. ret (-1)) | Some ip \<Rightarrow>
     bind (ilock (Some ip)) (\<lambda>_.
     bind (readi ip False 0 (\<lambda>_. 0) 0 64) (\<lambda>(r, bytes).
     let elf = get_elfhdr bytes in
     if r \<noteq> 64 then exec_bad 0 0 (Some ip)
     else if eh_magic elf \<noteq> ELF_MAGIC then exec_bad 0 0 (Some ip) else
     bind (proc_pagetable p) (\<lambda>pt.
     if pt = 0 then exec_bad 0 0 (Some ip) else
     bind (exec_load pt ip (ucast (eh_phoff elf)) 0 (unat (eh_phnum elf))) (\<lambda>l.
     case l of
       Inl sz \<Rightarrow> exec_bad pt sz (Some ip)
     | Inr sz \<Rightarrow>
         bind (iunlockput ip) (\<lambda>_.
         bind end_op (\<lambda>_.
         exec_stack path argv pt sz elf))))))))) "

end
