(* ===== verification/Fcntl.thy ===== *)
theory Fcntl
  imports XV6_Prelude
begin

text \<open>The open modes of \<open>kernel/fcntl.h\<close>, which the kernel and the user programs share.\<close>

definition O_RDONLY :: "32 word" where "O_RDONLY = 0x000"
definition O_WRONLY :: "32 word" where "O_WRONLY = 0x001"
definition O_RDWR :: "32 word" where "O_RDWR = 0x002"
definition O_CREATE :: "32 word" where "O_CREATE = 0x200"
definition O_TRUNC :: "32 word" where "O_TRUNC = 0x400"

end
