(* ===== verification/Syscall.thy ===== *)
theory Syscall
  imports Exec Fcntl
begin

unbundle bit_operations_syntax

text \<open>
  \<open>kernel/syscall.c\<close>, \<open>kernel/sysproc.c\<close> and \<open>kernel/sysfile.c\<close>: the arguments of
  system calls, the system calls and their dispatch.
\<close>

definition MAXPATH :: nat where "MAXPATH = 128"

section \<open>Arguments\<close>

definition fetchaddr :: "uint64 \<Rightarrow> ('z procs_scheme, int \<times> uint64) op" where
  "fetchaddr addr =
     bind curp (\<lambda>p.
     bind (proc_of p psz) (\<lambda>sz.
     if addr \<ge> sz \<or> addr + 8 > sz then ret (-1, 0) else
     bind (proc_of p pagetable) (\<lambda>pt.
     bind (copyin pt (\<lambda>_. 0) addr 8) (\<lambda>(r, bytes).
     if r \<noteq> 0 then ret (-1, 0) else ret (0, ld64 bytes 0)))))"

text \<open>\<open>fetchstr\<close> returns its result and the array \<open>buf\<close>.\<close>

definition fetchstr :: "uint64 \<Rightarrow> cstr \<Rightarrow> nat \<Rightarrow> ('z procs_scheme, int \<times> cstr) op" where
  "fetchstr addr buf maxn =
     bind curp (\<lambda>p.
     bind (proc_of p pagetable) (\<lambda>pt.
     bind (copyinstr pt buf addr (of_nat maxn)) (\<lambda>(err, buf').
     if err < 0 then ret (err, buf') else
     (case strlen buf' of None \<Rightarrow> spin | Some len \<Rightarrow> ret (int len, buf')))))"

definition argraw :: "nat \<Rightarrow> ('z procs_scheme, uint64) op" where
  "argraw n =
     bind curp (\<lambda>p.
     if n \<le> 5 then tf_load p (TF_a0 + 8 * of_nat n) else panic ''argraw'')"

definition argint :: "nat \<Rightarrow> ('z procs_scheme, 32 word) op" where
  "argint n = bind (argraw n) (\<lambda>v. ret (ucast v))"

definition argaddr :: "nat \<Rightarrow> ('z procs_scheme, uint64) op" where
  "argaddr n = argraw n"

text \<open>Local arrays of the system calls start with indeterminate contents.\<close>

definition argstr :: "nat \<Rightarrow> nat \<Rightarrow> ('z files_scheme, int \<times> cstr) op" where
  "argstr n maxn =
     bind (argaddr n) (\<lambda>addr.
     bind (reads junk) (\<lambda>buf.
     fetchstr addr buf maxn))"

section \<open>Process system calls\<close>

text \<open>A system call returns a \<open>uint64\<close>; an \<open>int\<close> result is sign extended.\<close>

definition sys_exit :: "('z files_scheme, uint64) op" where
  "sys_exit =
     bind (argint 0) (\<lambda>n.
     bind (kexit n) (\<lambda>_. ret 0))"

definition sys_getpid :: "('z procs_scheme, uint64) op" where
  "sys_getpid = bind curp (\<lambda>p. bind (proc_of p pid) (\<lambda>n. ret (word_of_int n)))"

definition sys_fork :: "('z files_scheme, uint64) op" where
  "sys_fork = bind fork (\<lambda>n. ret (word_of_int n))"

definition sys_wait :: "('z procs_scheme, uint64) op" where
  "sys_wait =
     bind (argaddr 0) (\<lambda>p.
     bind (argint 1) (\<lambda>flags.
     bind (wait p (flags \<noteq> 0)) (\<lambda>r.
     ret (word_of_int r))))"

definition sys_sbrk :: "('z procs_scheme, uint64) op" where
  "sys_sbrk =
     bind (argint 0) (\<lambda>n.
     bind curp (\<lambda>p.
     bind (proc_of p psz) (\<lambda>sz.
     let addr = ucast sz :: 32 word in
     bind (growproc n) (\<lambda>r.
     if r < 0 then ret (-1) else ret (scast addr)))))"

definition sys_sleep_pass :: "uint \<Rightarrow> 32 word \<Rightarrow> ('z procs_scheme, bool option) op" where
  "sys_sleep_pass ticks0 n =
     bind (reads (\<lambda>s. ticks s - ticks0 < n)) (\<lambda>early.
     if \<not> early then ret (Some True) else
     bind curp (\<lambda>p.
     bind (proc_of p killed) (\<lambda>k.
     if k then bind (release L_ticks) (\<lambda>_. ret (Some False)) else ret None)))"

text \<open>The comparison of \<open>ticks - ticks0\<close> with \<open>n\<close> is unsigned, as in the code.\<close>

definition sys_sleep :: "('z procs_scheme, uint64) op" where
  "sys_sleep =
     bind (argint 0) (\<lambda>n.
     bind (acquire L_ticks) (\<lambda>_.
     bind (reads ticks) (\<lambda>ticks0.
     bind (sleep_until (sys_sleep_pass ticks0 n) C_ticks L_ticks) (\<lambda>done.
     if \<not> done then ret (-1)
     else bind (release L_ticks) (\<lambda>_. ret 0)))))"

definition sys_kill :: "('z procs_scheme, uint64) op" where
  "sys_kill =
     bind (argint 0) (\<lambda>n.
     bind (kill (sint n)) (\<lambda>r.
     ret (word_of_int r)))"

definition sys_uptime :: "('z procs_scheme, uint64) op" where
  "sys_uptime =
     bind (acquire L_ticks) (\<lambda>_.
     bind (reads ticks) (\<lambda>xticks.
     bind (release L_ticks) (\<lambda>_.
     ret (ucast xticks))))"

text \<open>
  \<open>sys_rename\<close> copies up to \<open>MAXPATH\<close> bytes into a local array of 16 and then into
  \<open>p->name\<close>, also of 16 bytes. What lies behind these arrays is not modelled: a name of
  more than 15 bytes ends in \<open>Panic\<close>, which stands for the undefined behaviour.
\<close>

definition sys_rename :: "('z files_scheme, uint64) op" where
  "sys_rename =
     bind (argstr 0 MAXPATH) (\<lambda>(len, name).
     if len < 0 then ret (-1)
     else if len \<ge> 16 then panic ''buffer overflow'' else
     bind curp (\<lambda>p.
     bind (update_proc p (\<lambda>q. q\<lparr>pname := (kcopy (pname q) 0 name (nat len))(nat len := 0)\<rparr>)) (\<lambda>_.
     ret 0)))"

text \<open>
  The addresses of \<open>p->context\<close> that \<open>sys_yield\<close> prints are parameters: the place of the
  process table in memory is the linker's choice.
\<close>

definition sys_yield_visit :: "nat \<Rightarrow> ('z console_scheme, unit option) op" where
  "sys_yield_visit pp =
     bind (acquire (L_proc pp)) (\<lambda>_.
     bind (proc_of pp id) (\<lambda>q.
     bind (if pstate q = RUNNABLE then
             bind (tf_load pp TF_epc) (\<lambda>epc.
             bind (printf (''Next runnable process pid is %d and user pc is %p'' @ [CHR 0x0A])
               [Aint (word_of_int (pid q)), Aptr epc]) (\<lambda>_.
             ret (Some ())))
           else ret None) (\<lambda>found.
     bind (release (L_proc pp)) (\<lambda>_.
     ret found))))"

definition sys_yield :: "(nat \<Rightarrow> uint64) \<Rightarrow> ('z console_scheme, uint64) op" where
  "sys_yield context_addr =
     bind curp (\<lambda>p.
     bind (printf (''Save the context of the process to the memory region from address %p to %p'' @ [CHR 0x0A])
       [Aptr (context_addr p), Aptr (context_addr p + 112)]) (\<lambda>_.
     bind (proc_of p pid) (\<lambda>n.
     bind (tf_load p TF_epc) (\<lambda>epc.
     bind (printf (''Current running process pid is %d and user pc is %p'' @ [CHR 0x0A])
       [Aint (word_of_int n), Aptr epc]) (\<lambda>_.
     bind (for_first [0..<NPROC] sys_yield_visit) (\<lambda>_.
     bind (acquire (L_proc p)) (\<lambda>_.
     bind (update_proc p (\<lambda>q. q\<lparr>pstate := RUNNABLE\<rparr>)) (\<lambda>_.
     bind sched (\<lambda>_.
     bind (release (L_proc p)) (\<lambda>_.
     ret 0))))))))))"

section \<open>File system calls\<close>

definition argfd :: "nat \<Rightarrow> ('z procs_scheme, (nat \<times> nat) option) op" where
  "argfd n =
     bind (argint n) (\<lambda>fd.
     if sint fd < 0 \<or> sint fd \<ge> int NOFILE then ret None else
     bind curp (\<lambda>p.
     bind (proc_of p (\<lambda>q. ofile q (unat fd))) (\<lambda>f.
     case f of None \<Rightarrow> ret None | Some f \<Rightarrow> ret (Some (unat fd, f)))))"

definition fdalloc :: "nat \<Rightarrow> ('z procs_scheme, nat option) op" where
  "fdalloc f =
     bind curp (\<lambda>p.
     for_first [0..<NOFILE] (\<lambda>fd.
       bind (proc_of p (\<lambda>q. ofile q fd)) (\<lambda>g.
       if g = None then
         bind (update_proc p (\<lambda>q. q\<lparr>ofile := (ofile q)(fd := Some f)\<rparr>)) (\<lambda>_.
         ret (Some fd))
       else ret None)))"

definition sys_dup :: "('z files_scheme, uint64) op" where
  "sys_dup =
     bind (argfd 0) (\<lambda>a.
     case a of None \<Rightarrow> ret (-1) | Some (_, f) \<Rightarrow>
     bind (fdalloc f) (\<lambda>ofd.
     case ofd of None \<Rightarrow> ret (-1) | Some fd \<Rightarrow>
     bind (filedup f) (\<lambda>_.
     ret (of_nat fd))))"

definition sys_read :: "('z files_scheme, uint64) op" where
  "sys_read =
     bind (argfd 0) (\<lambda>a.
     case a of None \<Rightarrow> ret (-1) | Some (_, f) \<Rightarrow>
     bind (argint 2) (\<lambda>n.
     bind (argaddr 1) (\<lambda>p.
     bind (fileread f p (sint n)) (\<lambda>r.
     ret (word_of_int r)))))"

definition sys_write :: "('z files_scheme, uint64) op" where
  "sys_write =
     bind (argfd 0) (\<lambda>a.
     case a of None \<Rightarrow> ret (-1) | Some (_, f) \<Rightarrow>
     bind (argint 2) (\<lambda>n.
     bind (argaddr 1) (\<lambda>p.
     bind (filewrite f p (sint n)) (\<lambda>r.
     ret (word_of_int r)))))"

definition sys_close :: "('z files_scheme, uint64) op" where
  "sys_close =
     bind (argfd 0) (\<lambda>a.
     case a of None \<Rightarrow> ret (-1) | Some (fd, f) \<Rightarrow>
     bind curp (\<lambda>p.
     bind (update_proc p (\<lambda>q. q\<lparr>ofile := (ofile q)(fd := None)\<rparr>)) (\<lambda>_.
     bind (fileclose f) (\<lambda>_.
     ret 0))))"

definition sys_fstat :: "('z files_scheme, uint64) op" where
  "sys_fstat =
     bind (argfd 0) (\<lambda>a.
     case a of None \<Rightarrow> ret (-1) | Some (_, f) \<Rightarrow>
     bind (argaddr 1) (\<lambda>st.
     bind (filestat f st) (\<lambda>r.
     ret (word_of_int r))))"

text \<open>A path argument, as the list of its characters; None when \<open>argstr\<close> fails.\<close>

definition argpath :: "nat \<Rightarrow> ('z files_scheme, uchar list option) op" where
  "argpath n =
     bind (argstr n MAXPATH) (\<lambda>(r, buf).
     ret (if r < 0 then None else Some (chars_upto MAXPATH buf)))"

text \<open>The code at the label \<open>bad\<close> of \<open>sys_link\<close>.\<close>

definition sys_link_bad :: "nat \<Rightarrow> ('z fs_scheme, uint64) op" where
  "sys_link_bad ip =
     bind (ilock (Some ip)) (\<lambda>_.
     bind (update_inode ip (\<lambda>q. q\<lparr>nlink := nlink q - 1\<rparr>)) (\<lambda>_.
     bind (iupdate ip) (\<lambda>_.
     bind (iunlockput ip) (\<lambda>_.
     bind end_op (\<lambda>_.
     ret (-1))))))"

definition sys_link :: "('z files_scheme, uint64) op" where
  "sys_link =
     bind (argpath 0) (\<lambda>oold.
     case oold of None \<Rightarrow> ret (-1) | Some old \<Rightarrow>
     bind (argpath 1) (\<lambda>onew.
     case onew of None \<Rightarrow> ret (-1) | Some new \<Rightarrow>
     bind begin_op (\<lambda>_.
     bind (namei old) (\<lambda>oip.
     case oip of None \<Rightarrow> bind end_op (\<lambda>_. ret (-1)) | Some ip \<Rightarrow>
     bind (ilock (Some ip)) (\<lambda>_.
     bind (inode_of ip itype) (\<lambda>t.
     if t = T_DIR then bind (iunlockput ip) (\<lambda>_. bind end_op (\<lambda>_. ret (-1))) else
     bind (update_inode ip (\<lambda>q. q\<lparr>nlink := nlink q + 1\<rparr>)) (\<lambda>_.
     bind (iupdate ip) (\<lambda>_.
     bind (iunlock (Some ip)) (\<lambda>_.
     bind (reads junk) (\<lambda>name0.
     bind (nameiparent new name0) (\<lambda>(odp, name).
     case odp of None \<Rightarrow> sys_link_bad ip | Some dp \<Rightarrow>
     bind (ilock (Some dp)) (\<lambda>_.
     bind (inode_of dp idev) (\<lambda>ddev.
     bind (inode_of ip idev) (\<lambda>idv.
     if ddev \<noteq> idv then bind (iunlockput dp) (\<lambda>_. sys_link_bad ip) else
     bind (inode_of ip inum) (\<lambda>n.
     bind (dirlink dp name n) (\<lambda>r.
     if r < 0 then bind (iunlockput dp) (\<lambda>_. sys_link_bad ip) else
     bind (iunlockput dp) (\<lambda>_.
     bind (iput ip) (\<lambda>_.
     bind end_op (\<lambda>_.
     ret 0)))))))))))))))))))"

text \<open>The loop of \<open>isdirempty\<close> over \<open>k\<close> entries from \<open>off\<close>.\<close>

fun isdirempty_from :: "nat \<Rightarrow> uint \<Rightarrow> nat \<Rightarrow> ('z fs_scheme, bool) op" where
  "isdirempty_from dp off 0 = ret True"
| "isdirempty_from dp off (Suc k) =
     bind (readi dp False 0 (\<lambda>_. 0) off DIRENT) (\<lambda>(r, de).
     if r \<noteq> DIRENT then panic ''isdirempty: readi''
     else if de_inum de \<noteq> 0 then ret False
     else isdirempty_from dp (off + DIRENT) k)"

definition isdirempty :: "nat \<Rightarrow> ('z fs_scheme, bool) op" where
  "isdirempty dp =
     bind (inode_of dp isize) (\<lambda>sz.
     isdirempty_from dp (2 * DIRENT) (dir_entries sz - 2))"

definition sys_unlink_bad :: "nat \<Rightarrow> ('z fs_scheme, uint64) op" where
  "sys_unlink_bad dp = bind (iunlockput dp) (\<lambda>_. bind end_op (\<lambda>_. ret (-1)))"

definition sys_unlink :: "('z files_scheme, uint64) op" where
  "sys_unlink =
     bind (argpath 0) (\<lambda>opath.
     case opath of None \<Rightarrow> ret (-1) | Some path \<Rightarrow>
     bind begin_op (\<lambda>_.
     bind (reads junk) (\<lambda>name0.
     bind (nameiparent path name0) (\<lambda>(odp, name).
     case odp of None \<Rightarrow> bind end_op (\<lambda>_. ret (-1)) | Some dp \<Rightarrow>
     bind (ilock (Some dp)) (\<lambda>_.
     if namecmp name (list_cstr (ascii ''.'')) = 0 \<or> namecmp name (list_cstr (ascii ''..'')) = 0
     then sys_unlink_bad dp else
     bind (dirlookup dp name) (\<lambda>found.
     case found of None \<Rightarrow> sys_unlink_bad dp | Some (ip, off) \<Rightarrow>
     bind (ilock (Some ip)) (\<lambda>_.
     bind (inode_of ip nlink) (\<lambda>nl.
     if nl <s 1 then panic ''unlink: nlink < 1'' else
     bind (inode_of ip itype) (\<lambda>t.
     bind (if t = T_DIR then isdirempty ip else ret True) (\<lambda>empty.
     if \<not> empty then bind (iunlockput ip) (\<lambda>_. sys_unlink_bad dp) else
     bind (writei dp False 0 (\<lambda>_. 0) off DIRENT) (\<lambda>r.
     if r \<noteq> 16 then panic ''unlink: writei'' else
     bind (if t = T_DIR then
             bind (update_inode dp (\<lambda>q. q\<lparr>nlink := nlink q - 1\<rparr>)) (\<lambda>_. iupdate dp)
           else ret ()) (\<lambda>_.
     bind (iunlockput dp) (\<lambda>_.
     bind (update_inode ip (\<lambda>q. q\<lparr>nlink := nlink q - 1\<rparr>)) (\<lambda>_.
     bind (iupdate ip) (\<lambda>_.
     bind (iunlockput ip) (\<lambda>_.
     bind end_op (\<lambda>_.
     ret 0)))))))))))))))))"

definition create :: "uchar list \<Rightarrow> ushort \<Rightarrow> ushort \<Rightarrow> ushort \<Rightarrow> ('z files_scheme, nat option) op" where
  "create path type major minor =
     bind (reads junk) (\<lambda>name0.
     bind (nameiparent path name0) (\<lambda>(odp, name).
     case odp of None \<Rightarrow> ret None | Some dp \<Rightarrow>
     bind (ilock (Some dp)) (\<lambda>_.
     bind (dirlookup dp name) (\<lambda>found.
     case found of
       Some (ip, _) \<Rightarrow>
         bind (iunlockput dp) (\<lambda>_.
         bind (ilock (Some ip)) (\<lambda>_.
         bind (inode_of ip itype) (\<lambda>t.
         if type = T_FILE \<and> (t = T_FILE \<or> t = T_DEVICE) then ret (Some ip)
         else bind (iunlockput ip) (\<lambda>_. ret None))))
     | None \<Rightarrow>
         bind (inode_of dp idev) (\<lambda>dev.
         bind (ialloc dev type) (\<lambda>ip.
         bind (ilock (Some ip)) (\<lambda>_.
         bind (update_inode ip (\<lambda>q. q\<lparr>imajor := major, iminor := minor, nlink := 1\<rparr>)) (\<lambda>_.
         bind (iupdate ip) (\<lambda>_.
         bind (inode_of ip inum) (\<lambda>n.
         bind (if type = T_DIR then
                 bind (update_inode dp (\<lambda>q. q\<lparr>nlink := nlink q + 1\<rparr>)) (\<lambda>_.
                 bind (iupdate dp) (\<lambda>_.
                 bind (dirlink ip (list_cstr (ascii ''.'')) n) (\<lambda>r1.
                 if r1 < 0 then panic ''create dots'' else
                 bind (inode_of dp inum) (\<lambda>dn.
                 bind (dirlink ip (list_cstr (ascii ''..'')) dn) (\<lambda>r2.
                 if r2 < 0 then panic ''create dots'' else ret ())))))
               else ret ()) (\<lambda>_.
         bind (dirlink dp name n) (\<lambda>r.
         if r < 0 then panic ''create: dirlink'' else
         bind (iunlockput dp) (\<lambda>_.
         ret (Some ip))))))))))))))"

definition sys_open_fail :: "nat \<Rightarrow> ('z fs_scheme, uint64) op" where
  "sys_open_fail ip = bind (iunlockput ip) (\<lambda>_. bind end_op (\<lambda>_. ret (-1)))"

text \<open>The part of \<open>sys_open\<close> that finds or creates the inode; None when the call fails.\<close>

definition sys_open_inode :: "uchar list \<Rightarrow> 32 word \<Rightarrow> ('z files_scheme, nat option) op" where
  "sys_open_inode path omode =
     (if omode AND O_CREATE \<noteq> 0 then
        bind (create path T_FILE 0 0) (\<lambda>oip.
        case oip of None \<Rightarrow> bind end_op (\<lambda>_. ret None) | Some ip \<Rightarrow> ret (Some ip))
      else
        bind (namei path) (\<lambda>oip.
        case oip of None \<Rightarrow> bind end_op (\<lambda>_. ret None) | Some ip \<Rightarrow>
        bind (ilock (Some ip)) (\<lambda>_.
        bind (inode_of ip itype) (\<lambda>t.
        if t = T_DIR \<and> omode \<noteq> O_RDONLY then
          bind (sys_open_fail ip) (\<lambda>_. ret None)
        else ret (Some ip)))))"

definition sys_open :: "('z files_scheme, uint64) op" where
  "sys_open =
     bind (argpath 0) (\<lambda>opath.
     case opath of None \<Rightarrow> ret (-1) | Some path \<Rightarrow>
     bind (argint 1) (\<lambda>omode.
     bind begin_op (\<lambda>_.
     bind (sys_open_inode path omode) (\<lambda>oip.
     case oip of None \<Rightarrow> ret (-1) | Some ip \<Rightarrow>
     bind (inode_of ip id) (\<lambda>q.
     if itype q = T_DEVICE \<and> (sint (imajor q) < 0 \<or> sint (imajor q) \<ge> NDEV) then sys_open_fail ip else
     bind filealloc (\<lambda>ofl.
     case ofl of None \<Rightarrow> sys_open_fail ip | Some f \<Rightarrow>
     bind (fdalloc f) (\<lambda>ofd.
     case ofd of None \<Rightarrow> bind (fileclose f) (\<lambda>_. sys_open_fail ip) | Some fd \<Rightarrow>
     bind (if itype q = T_DEVICE
           then update_file f (\<lambda>g. g\<lparr>ftype := FD_DEVICE, fmajor := imajor q\<rparr>)
           else update_file f (\<lambda>g. g\<lparr>ftype := FD_INODE, foff := 0\<rparr>)) (\<lambda>_.
     bind (update_file f (\<lambda>g. g\<lparr>fip := Some ip, readable := (omode AND O_WRONLY = 0),
       writable := (omode AND O_WRONLY \<noteq> 0 \<or> omode AND O_RDWR \<noteq> 0)\<rparr>)) (\<lambda>_.
     bind (if omode AND O_TRUNC \<noteq> 0 \<and> itype q = T_FILE then itrunc ip else ret ()) (\<lambda>_.
     bind (iunlock (Some ip)) (\<lambda>_.
     bind end_op (\<lambda>_.
     ret (of_nat fd)))))))))))))"

definition sys_mkdir :: "('z files_scheme, uint64) op" where
  "sys_mkdir =
     bind begin_op (\<lambda>_.
     bind (argpath 0) (\<lambda>opath.
     bind (case opath of None \<Rightarrow> ret None | Some path \<Rightarrow> create path T_DIR 0 0) (\<lambda>oip.
     case oip of None \<Rightarrow> bind end_op (\<lambda>_. ret (-1)) | Some ip \<Rightarrow>
     bind (iunlockput ip) (\<lambda>_.
     bind end_op (\<lambda>_.
     ret 0)))))"

definition sys_mknod :: "('z files_scheme, uint64) op" where
  "sys_mknod =
     bind begin_op (\<lambda>_.
     bind (argpath 0) (\<lambda>opath.
     bind (case opath of None \<Rightarrow> ret None | Some path \<Rightarrow>
             bind (argint 1) (\<lambda>major.
             bind (argint 2) (\<lambda>minor.
             create path T_DEVICE (ucast major) (ucast minor)))) (\<lambda>oip.
     case oip of None \<Rightarrow> bind end_op (\<lambda>_. ret (-1)) | Some ip \<Rightarrow>
     bind (iunlockput ip) (\<lambda>_.
     bind end_op (\<lambda>_.
     ret 0)))))"

definition sys_chdir :: "('z files_scheme, uint64) op" where
  "sys_chdir =
     bind curp (\<lambda>p.
     bind begin_op (\<lambda>_.
     bind (argpath 0) (\<lambda>opath.
     bind (case opath of None \<Rightarrow> ret None | Some path \<Rightarrow> namei path) (\<lambda>oip.
     case oip of None \<Rightarrow> bind end_op (\<lambda>_. ret (-1)) | Some ip \<Rightarrow>
     bind (ilock (Some ip)) (\<lambda>_.
     bind (inode_of ip itype) (\<lambda>t.
     if t \<noteq> T_DIR then bind (iunlockput ip) (\<lambda>_. bind end_op (\<lambda>_. ret (-1))) else
     bind (iunlock (Some ip)) (\<lambda>_.
     bind (proc_of p cwd) (\<lambda>d.
     bind (deref d) (\<lambda>d.
     bind (iput d) (\<lambda>_.
     bind end_op (\<lambda>_.
     bind (update_proc p (\<lambda>q. q\<lparr>cwd := Some ip\<rparr>)) (\<lambda>_.
     ret 0))))))))))))"

text \<open>
  The loop of \<open>sys_exec\<close> that fetches the arguments into pages: the list of pages
  allocated, and whether it reached the null pointer (a jump to \<open>bad\<close> otherwise).
\<close>

fun sys_exec_args :: "uint64 \<Rightarrow> nat \<Rightarrow> addr list \<Rightarrow> ('z procs_scheme, bool \<times> addr list) op" where
  "sys_exec_args uargv 0 argv = ret (False, argv)"
| "sys_exec_args uargv (Suc k) argv =
     bind (fetchaddr (uargv + 8 * of_nat (length argv))) (\<lambda>(r, uarg).
     if r < 0 then ret (False, argv)
     else if uarg = 0 then ret (True, argv) else
     bind kalloc (\<lambda>page.
     if page = 0 then ret (False, argv) else
     bind (reads (\<lambda>s. mem_cstr (mem s) page)) (\<lambda>buf.
     bind (fetchstr uarg buf 4096) (\<lambda>(r, buf').
     bind (write_op page buf' 4096) (\<lambda>_.
     if r < 0 then ret (False, argv @ [page])
     else sys_exec_args uargv k (argv @ [page]))))))"

definition sys_exec :: "('z files_scheme, uint64) op" where
  "sys_exec =
     bind (argpath 0) (\<lambda>opath.
     case opath of None \<Rightarrow> ret (-1) | Some path \<Rightarrow>
     bind (argaddr 1) (\<lambda>uargv.
     bind (sys_exec_args uargv MAXARG []) (\<lambda>(ok, argv).
     if \<not> ok then bind (for_each argv kfree) (\<lambda>_. ret (-1)) else
     bind (exec path argv) (\<lambda>r.
     bind (for_each argv kfree) (\<lambda>_.
     ret (word_of_int r))))))"

text \<open>The failure paths of \<open>sys_pipe\<close> close both ends after clearing the descriptors.\<close>

definition sys_pipe_fail :: "nat \<Rightarrow> nat list \<Rightarrow> nat \<Rightarrow> nat \<Rightarrow> ('z files_scheme, uint64) op" where
  "sys_pipe_fail p fds rf wfl =
     bind (for_each fds (\<lambda>fd. update_proc p (\<lambda>q. q\<lparr>ofile := (ofile q)(fd := None)\<rparr>))) (\<lambda>_.
     bind (fileclose rf) (\<lambda>_.
     bind (fileclose wfl) (\<lambda>_.
     ret (-1))))"

definition sys_pipe :: "('z files_scheme, uint64) op" where
  "sys_pipe =
     bind curp (\<lambda>p.
     bind (argaddr 0) (\<lambda>fdarray.
     bind pipealloc (\<lambda>ofs.
     case ofs of None \<Rightarrow> ret (-1) | Some (rf, wfl) \<Rightarrow>
     bind (fdalloc rf) (\<lambda>o0.
     case o0 of None \<Rightarrow> sys_pipe_fail p [] rf wfl | Some fd0 \<Rightarrow>
     bind (fdalloc wfl) (\<lambda>o1.
     case o1 of None \<Rightarrow> sys_pipe_fail p [fd0] rf wfl | Some fd1 \<Rightarrow>
     bind (proc_of p pagetable) (\<lambda>pt.
     bind (copyout pt fdarray (word_bytes (of_nat fd0)) 4) (\<lambda>r.
     if r < 0 then sys_pipe_fail p [fd0, fd1] rf wfl else
     bind (copyout pt (fdarray + 4) (word_bytes (of_nat fd1)) 4) (\<lambda>r.
     if r < 0 then sys_pipe_fail p [fd0, fd1] rf wfl else
     ret 0))))))))"

section \<open>Dispatch\<close>

definition syscalls :: "(nat \<Rightarrow> uint64) \<Rightarrow> nat \<Rightarrow> ('z files_scheme, uint64) op option" where
  "syscalls context_addr num =
     (if num = 1 then Some sys_fork else if num = 2 then Some sys_exit
      else if num = 3 then Some sys_wait else if num = 4 then Some sys_pipe
      else if num = 5 then Some sys_read else if num = 6 then Some sys_kill
      else if num = 7 then Some sys_exec else if num = 8 then Some sys_fstat
      else if num = 9 then Some sys_chdir else if num = 10 then Some sys_dup
      else if num = 11 then Some sys_getpid else if num = 12 then Some sys_sbrk
      else if num = 13 then Some sys_sleep else if num = 14 then Some sys_uptime
      else if num = 15 then Some sys_open else if num = 16 then Some sys_write
      else if num = 17 then Some sys_mknod else if num = 18 then Some sys_unlink
      else if num = 19 then Some sys_link else if num = 20 then Some sys_mkdir
      else if num = 21 then Some sys_close else if num = 22 then Some sys_rename
      else if num = 23 then Some (sys_yield context_addr) else None)"

definition syscall :: "(nat \<Rightarrow> uint64) \<Rightarrow> ('z files_scheme, unit) op" where
  "syscall context_addr =
     bind curp (\<lambda>p.
     bind (tf_load p TF_a7) (\<lambda>a7.
     let num = ucast a7 :: 32 word in
     case (if 0 <s num then syscalls context_addr (unat num) else None) of
       Some f \<Rightarrow> bind f (\<lambda>r. tf_store p TF_a0 r)
     | None \<Rightarrow>
         bind (proc_of p id) (\<lambda>q.
         bind (printf (''%d %s: unknown sys call %d'' @ [CHR 0x0A])
           [Aint (word_of_int (pid q)), Astr (Some (chars_upto 16 (pname q))), Aint num]) (\<lambda>_.
         tf_store p TF_a0 (-1)))))"

end
