(* ===== verification/Trap.thy ===== *)
theory Trap
  imports Syscall
begin

unbundle bit_operations_syntax

text \<open>
  \<open>kernel/trap.c\<close>: traps from user space and from the kernel, device interrupts and the
  clock.
\<close>

definition trapinit :: "('z machine_scheme, unit) op" where
  "trapinit = initlock L_ticks"

definition trapinithart :: "('z procs_scheme, unit) op" where
  "trapinithart = bind (reads kernelvec_addr) w_stvec"

definition clockintr :: "('z procs_scheme, unit) op" where
  "clockintr =
     bind (acquire L_ticks) (\<lambda>_.
     bind (modify (\<lambda>s. s\<lparr>ticks := ticks s + 1\<rparr>)) (\<lambda>_.
     bind (wakeup C_ticks) (\<lambda>_.
     release L_ticks)))"

definition devintr :: "('z vdisk_scheme, int) op" where
  "devintr =
     bind r_scause (\<lambda>cause.
     if cause AND 0x8000000000000000 \<noteq> 0 \<and> cause AND 0xff = 9 then
       bind plic_claim (\<lambda>irq.
       bind (if irq = UART0_IRQ then uartintr
             else if irq = VIRTIO0_IRQ then virtio_disk_intr
             else if irq \<noteq> 0 then
               printf (''unexpected interrupt irq=%d'' @ [CHR 0x0A]) [Aint (word_of_int irq)]
             else ret ()) (\<lambda>_.
       bind (if irq \<noteq> 0 then plic_complete irq else ret ()) (\<lambda>_.
       ret 1)))
     else if cause = 0x8000000000000001 then
       bind cpuid (\<lambda>hid.
       bind (if hid = 0 then clockintr else ret ()) (\<lambda>_.
       bind r_sip (\<lambda>x.
       bind (w_sip (x AND NOT 2)) (\<lambda>_.
       ret 2))))
     else ret 0)"

text \<open>
  \<open>usertrap\<close>. The first part handles the cause and returns \<open>which_dev\<close>.
\<close>

definition usertrap_cause :: "(nat \<Rightarrow> uint64) \<Rightarrow> nat \<Rightarrow> ('z vdisk_scheme, int) op" where
  "usertrap_cause context_addr p =
     bind r_scause (\<lambda>cause.
     if cause = 8 then
       bind (proc_of p killed) (\<lambda>k.
       bind (if k then kexit (-1) else ret ()) (\<lambda>_.
       bind (tf_load p TF_epc) (\<lambda>epc.
       bind (tf_store p TF_epc (epc + 4)) (\<lambda>_.
       bind intr_on (\<lambda>_.
       bind (syscall context_addr) (\<lambda>_.
       ret 0))))))
     else
       bind devintr (\<lambda>which_dev.
       if which_dev \<noteq> 0 then ret which_dev else
       bind r_scause (\<lambda>cause.
       bind (proc_of p pid) (\<lambda>n.
       bind (printf (''usertrap(): unexpected scause %p pid=%d'' @ [CHR 0x0A]) [Aptr cause, Aint (word_of_int n)]) (\<lambda>_.
       bind r_sepc (\<lambda>pc.
       bind r_stval (\<lambda>tv.
       bind (printf (''            sepc=%p stval=%p'' @ [CHR 0x0A]) [Aptr pc, Aptr tv]) (\<lambda>_.
       bind (update_proc p (\<lambda>q. q\<lparr>killed := True\<rparr>)) (\<lambda>_.
       ret 0)))))))))"

definition usertrap :: "(nat \<Rightarrow> uint64) \<Rightarrow> ('z vdisk_scheme, uint64 \<times> uint64 \<times> uint64) op" where
  "usertrap context_addr =
     bind r_sstatus (\<lambda>st.
     if st AND SSTATUS_SPP \<noteq> 0 then panic ''usertrap: not from user mode'' else
     bind (reads kernelvec_addr) (\<lambda>kv.
     bind (w_stvec kv) (\<lambda>_.
     bind curp (\<lambda>p.
     bind r_sepc (\<lambda>pc.
     bind (tf_store p TF_epc pc) (\<lambda>_.
     bind (usertrap_cause context_addr p) (\<lambda>which_dev.
     bind (proc_of p killed) (\<lambda>k.
     bind (if k then kexit (-1) else ret ()) (\<lambda>_.
     bind (if which_dev = 2 then yield else ret ()) (\<lambda>_.
     usertrapret))))))))))"

definition kerneltrap :: "('z vdisk_scheme, unit) op" where
  "kerneltrap =
     bind r_sepc (\<lambda>pc.
     bind r_sstatus (\<lambda>st.
     bind r_scause (\<lambda>cause.
     if st AND SSTATUS_SPP = 0 then panic ''kerneltrap: not from supervisor mode'' else
     bind intr_get (\<lambda>i.
     if i then panic ''kerneltrap: interrupts enabled'' else
     bind devintr (\<lambda>which_dev.
     if which_dev = 0 then
       bind (printf (''scause %p'' @ [CHR 0x0A]) [Aptr cause]) (\<lambda>_.
       bind r_sepc (\<lambda>pc.
       bind r_stval (\<lambda>tv.
       bind (printf (''sepc=%p stval=%p'' @ [CHR 0x0A]) [Aptr pc, Aptr tv]) (\<lambda>_.
       panic ''kerneltrap''))))
     else
       bind (if which_dev = 2 then
               bind myproc (\<lambda>q.
               case q of None \<Rightarrow> ret () | Some _ \<Rightarrow>
               bind curp (\<lambda>p.
               bind (proc_of p pstate) (\<lambda>ps.
               if ps = RUNNING then yield else ret ())))
             else ret ()) (\<lambda>_.
       bind (w_sepc pc) (\<lambda>_.
       w_sstatus st)))))))"

section \<open>Start\<close>

text \<open>
  \<open>kernel/start.c\<close> and \<open>kernel/main.c\<close>: the machine-mode registers of a hart, the setup
  of the timer and the switch to supervisor mode, and the initialisation by hart 0.
\<close>

record mhart =
  mstatus :: uint64
  mepc :: uint64
  medeleg :: uint64
  mideleg :: uint64
  sie :: uint64
  mie :: uint64
  mtvec :: uint64
  mscratch :: uint64
  pmpaddr0 :: uint64
  pmpcfg0 :: uint64
  mhartid :: uint64

definition MSTATUS_MPP_MASK :: uint64 where "MSTATUS_MPP_MASK = push_bit 11 3"
definition MSTATUS_MPP_S :: uint64 where "MSTATUS_MPP_S = push_bit 11 1"
definition MSTATUS_MIE :: uint64 where "MSTATUS_MIE = push_bit 3 1"
definition SIE_SEIE :: uint64 where "SIE_SEIE = push_bit 9 1"
definition SIE_STIE :: uint64 where "SIE_STIE = push_bit 5 1"
definition SIE_SSIE :: uint64 where "SIE_SSIE = push_bit 1 1"
definition MIE_MTIE :: uint64 where "MIE_MTIE = push_bit 7 1"

definition CLINT_MTIMECMP :: "uint64 \<Rightarrow> addr" where
  "CLINT_MTIMECMP hartid = CLINT + 0x4000 + 8 * hartid"

definition CLINT_MTIME :: addr where
  "CLINT_MTIME = CLINT + 0xBFF8"

text \<open>
  The machine-mode state: registers per hart, the array \<open>mscratch0\<close> with its address, the
  addresses of \<open>main\<close> and \<open>timervec\<close>, and \<open>started\<close> of \<open>main.c\<close>.
\<close>

record mmode = kernel +
  mharts :: "nat \<Rightarrow> mhart"
  mscratch0 :: "nat \<Rightarrow> uint64"
  mscratch0_addr :: addr
  main_addr :: addr
  timervec_addr :: addr
  started :: bool

definition update_mhart :: "nat \<Rightarrow> (mhart \<Rightarrow> mhart) \<Rightarrow> ('z mmode_scheme, unit) op" where
  "update_mhart h f = modify (\<lambda>s. s\<lparr>mharts := (mharts s)(h := f (mharts s h))\<rparr>)"

text \<open>\<open>h\<close> is the hart that executes.\<close>

definition timerinit :: "nat \<Rightarrow> ('z mmode_scheme, unit) op" where
  "timerinit h =
     bind (reads (\<lambda>s. mhartid (mharts s h))) (\<lambda>i.
     bind (mmio_read CLINT_MTIME) (\<lambda>now.
     bind (mmio_write (CLINT_MTIMECMP i) (now + 1000000)) (\<lambda>_.
     let k = 32 * unat i in
     bind (modify (\<lambda>s. s\<lparr>mscratch0 := (mscratch0 s)(k + 4 := CLINT_MTIMECMP i, k + 5 := 1000000)\<rparr>)) (\<lambda>_.
     bind (reads mscratch0_addr) (\<lambda>a.
     bind (update_mhart h (\<lambda>r. r\<lparr>mscratch := a + 8 * of_nat k\<rparr>)) (\<lambda>_.
     bind (reads timervec_addr) (\<lambda>tv.
     bind (update_mhart h (\<lambda>r. r\<lparr>mtvec := tv\<rparr>)) (\<lambda>_.
     bind (update_mhart h (\<lambda>r. r\<lparr>mstatus := mstatus r OR MSTATUS_MIE\<rparr>)) (\<lambda>_.
     update_mhart h (\<lambda>r. r\<lparr>mie := mie r OR MIE_MTIE\<rparr>))))))))))"

definition start :: "nat \<Rightarrow> ('z mmode_scheme, unit) op" where
  "start h =
     bind (update_mhart h (\<lambda>r. r\<lparr>mstatus := (mstatus r AND NOT MSTATUS_MPP_MASK) OR MSTATUS_MPP_S\<rparr>)) (\<lambda>_.
     bind (reads main_addr) (\<lambda>m.
     bind (update_mhart h (\<lambda>r. r\<lparr>mepc := m\<rparr>)) (\<lambda>_.
     bind (modify (\<lambda>s. s\<lparr>harts := (harts s)(h := (harts s h)\<lparr>satp := 0\<rparr>)\<rparr>)) (\<lambda>_.
     bind (update_mhart h (\<lambda>r. r\<lparr>medeleg := 0xffff, mideleg := 0xffff,
       sie := sie r OR SIE_SEIE OR SIE_STIE OR SIE_SSIE\<rparr>)) (\<lambda>_.
     bind (update_mhart h (\<lambda>r. r\<lparr>pmpaddr0 := 0x1fffffffffffff, pmpcfg0 := 0x1f\<rparr>)) (\<lambda>_.
     bind (timerinit h) (\<lambda>_.
     bind (reads (\<lambda>s. unat (mhartid (mharts s h)))) (\<lambda>i.
     bind (modify (\<lambda>s. s\<lparr>tp := i\<rparr>)) (\<lambda>_.
     bind cpuid (\<lambda>c.
     if c = 0 then bind consoleinit (\<lambda>_. printfinit) else ret ()))))))))))"

text \<open>\<open>main\<close> up to the call of \<open>scheduler\<close>, which gets a bound on its rounds.\<close>

definition kmain :: "nat \<Rightarrow> ('z mmode_scheme, unit) op" where
  "kmain rounds =
     bind cpuid (\<lambda>c.
     bind (if c = 0 then
             bind (printf [CHR 0x0A] []) (\<lambda>_.
             bind (printf (''xv6 kernel is booting'' @ [CHR 0x0A]) []) (\<lambda>_.
             bind (printf [CHR 0x0A] []) (\<lambda>_.
             bind kinit (\<lambda>_.
             bind kvminit (\<lambda>_.
             bind kvminithart (\<lambda>_.
             bind procinit (\<lambda>_.
             bind trapinit (\<lambda>_.
             bind trapinithart (\<lambda>_.
             bind plicinit (\<lambda>_.
             bind plicinithart (\<lambda>_.
             bind binit (\<lambda>_.
             bind iinit (\<lambda>_.
             bind fileinit (\<lambda>_.
             bind virtio_disk_init (\<lambda>_.
             bind userinit (\<lambda>_.
             modify (\<lambda>s. s\<lparr>started := True\<rparr>)))))))))))))))))
           else
             bind (reads started) (\<lambda>go.
             if \<not> go then spin else
             bind (printf (''hart %d starting'' @ [CHR 0x0A]) [Aint (of_nat c)]) (\<lambda>_.
             bind kvminithart (\<lambda>_.
             bind trapinithart (\<lambda>_.
             plicinithart))))) (\<lambda>_.
     scheduler rounds))"

end
