(* ===== verification/UserOp.thy ===== *)
theory UserOp
  imports CString Fcntl
begin

text \<open>
  User programs: a process has a flat memory and makes system calls. The system-call stubs are
  generated at build time by \<open>user/usys.pl\<close> and trap into the kernel; here the calls are a
  parameter, a record \<open>os\<close> of functions on a state \<open>'w\<close> of everything outside the process.
\<close>

section \<open>Runs of a program\<close>

text \<open>
  A piece of a program returns a value, ends the process by \<open>exit\<close>, replaces it by a
  successful \<open>exec\<close>, or does something that has no meaning in C. It may also never return:
  then the outcome is \<^const>\<open>None\<close>.
\<close>

datatype ('s, 'a) urun = Val 'a 's | Exit uint 's | Execd 's | Undef

type_synonym ('s, 'a) uop = "'s \<Rightarrow> ('s, 'a) urun option"

definition uret :: "'a \<Rightarrow> ('s, 'a) uop" where
  "uret a s = Some (Val a s)"

definition undef :: "('s, 'a) uop" where
  "undef s = Some Undef"

definition ubind :: "('s, 'a) uop \<Rightarrow> ('a \<Rightarrow> ('s, 'b) uop) \<Rightarrow> ('s, 'b) uop" where
  "ubind m f s =
     (case m s of
        None \<Rightarrow> None
      | Some (Val a s') \<Rightarrow> f a s'
      | Some (Exit c s') \<Rightarrow> Some (Exit c s')
      | Some (Execd s') \<Rightarrow> Some (Execd s')
      | Some Undef \<Rightarrow> Some Undef)"

lemma ubind_mono [partial_function_mono]:
  fixes B :: "('x \<Rightarrow> 'y option) \<Rightarrow> ('s, 'a) uop" and C :: "'a \<Rightarrow> ('x \<Rightarrow> 'y option) \<Rightarrow> ('s, 'b) uop"
  assumes "\<And>s. mono_option (\<lambda>f. B f s)" "\<And>a s. mono_option (\<lambda>f. C a f s)"
  shows "mono_option (\<lambda>f. ubind (B f) (\<lambda>a. C a f) s)"
proof (rule monotoneI)
  fix f g :: "'x \<Rightarrow> 'y option"
  assume fg: "fun_ord option_ord f g"
  have B: "option_ord (B f s) (B g s)" for s using assms(1)[of s] fg by (auto simp: monotone_on_def)
  have C: "option_ord (C a f s) (C a g s)" for a s using assms(2)[of a s] fg by (auto simp: monotone_on_def)
  show "option_ord (ubind (B f) (\<lambda>a. C a f) s) (ubind (B g) (\<lambda>a. C a g) s)"
  proof (cases "B f s")
    case (Some r)
    then have "B g s = Some r" using B[of s] by (simp add: flat_ord_def)
    then show ?thesis using Some C by (cases r) (simp_all add: ubind_def flat_ord_def)
  qed (simp add: ubind_def flat_ord_def)
qed

lemma if_apply_mono [partial_function_mono]:
  assumes "mono_option (\<lambda>f. F f s)" "mono_option (\<lambda>f. G f s)"
  shows "mono_option (\<lambda>f. (if b then F f else G f) s)"
  using assms by (cases b) simp_all

lemma case_prod_apply_mono [partial_function_mono]:
  assumes "\<And>a b. mono_option (\<lambda>f. F f a b s)"
  shows "mono_option (\<lambda>f. (case p of (a, b) \<Rightarrow> F f a b) s)"
  using assms by (cases p) simp

lemma Let_apply_mono [partial_function_mono]:
  assumes "\<And>a. mono_option (\<lambda>f. F f a s)"
  shows "mono_option (\<lambda>f. (let a = e in F f a) s)"
  using assms by (simp add: Let_def)

fun ufor :: "'i list \<Rightarrow> ('i \<Rightarrow> ('s, unit) uop) \<Rightarrow> ('s, unit) uop" where
  "ufor [] body = uret ()"
| "ufor (i # is) body = ubind (body i) (\<lambda>_. ufor is body)"

lemma uret_apply [simp]: "uret a s = Some (Val a s)"
  by (simp add: uret_def)

lemma ubind_Val [simp]: "m s = Some (Val a t) \<Longrightarrow> ubind m f s = f a t"
  by (simp add: ubind_def)

lemma ubind_uret [simp]: "ubind (uret a) f = f a"
  by (rule ext) simp

lemma ubind_assoc [simp]: "ubind (ubind m f) g = ubind m (\<lambda>a. ubind (f a) g)"
  by (rule ext) (simp add: ubind_def split: option.split urun.split)


section \<open>Processes and system calls\<close>

record 'w uproc =
  umem :: memory
  world :: 'w

text \<open>
  A call that copies into the process gives the bytes it copies. Paths and arguments reach the
  kernel as strings. \<open>exec\<close> returns only when it fails.
\<close>

record 'w os =
  os_read :: "uint \<Rightarrow> uint \<Rightarrow> 'w \<Rightarrow> (uint \<times> uchar list) \<times> 'w"
  os_write :: "uint \<Rightarrow> uchar list \<Rightarrow> 'w \<Rightarrow> uint \<times> 'w"
  os_open :: "uchar list \<Rightarrow> uint \<Rightarrow> 'w \<Rightarrow> uint \<times> 'w"
  os_close :: "uint \<Rightarrow> 'w \<Rightarrow> uint \<times> 'w"
  os_fstat :: "uint \<Rightarrow> 'w \<Rightarrow> (uint \<times> uchar list) \<times> 'w"
  os_dup :: "uint \<Rightarrow> 'w \<Rightarrow> uint \<times> 'w"
  os_pipe :: "'w \<Rightarrow> (uint \<times> uint \<times> uint) \<times> 'w"
  os_fork :: "'w \<Rightarrow> uint \<times> 'w"
  os_wait :: "uint \<Rightarrow> 'w \<Rightarrow> uint \<times> 'w"
  os_exec :: "uchar list \<Rightarrow> uchar list list \<Rightarrow> 'w \<Rightarrow> uint option \<times> 'w"
  os_kill :: "uint \<Rightarrow> 'w \<Rightarrow> uint \<times> 'w"
  os_mknod :: "uchar list \<Rightarrow> ushort \<Rightarrow> ushort \<Rightarrow> 'w \<Rightarrow> uint \<times> 'w"
  os_unlink :: "uchar list \<Rightarrow> 'w \<Rightarrow> uint \<times> 'w"
  os_link :: "uchar list \<Rightarrow> uchar list \<Rightarrow> 'w \<Rightarrow> uint \<times> 'w"
  os_mkdir :: "uchar list \<Rightarrow> 'w \<Rightarrow> uint \<times> 'w"
  os_chdir :: "uchar list \<Rightarrow> 'w \<Rightarrow> uint \<times> 'w"
  os_sleep :: "uint \<Rightarrow> 'w \<Rightarrow> uint \<times> 'w"
  os_sbrk :: "uint \<Rightarrow> 'w \<Rightarrow> uint64 \<times> 'w"
  os_getpid :: "'w \<Rightarrow> uint \<times> 'w"
  os_rename :: "uchar list \<Rightarrow> 'w \<Rightarrow> uint \<times> 'w"
  os_yield :: "'w \<Rightarrow> uint \<times> 'w"

type_synonym ('w, 'a) prog = "('w uproc, 'a) uop"

definition syscall_u :: "('w \<Rightarrow> 'a \<times> 'w) \<Rightarrow> ('w, 'a) prog" where
  "syscall_u c s = (case c (world s) of (r, w) \<Rightarrow> Some (Val r (s\<lparr>world := w\<rparr>)))"

definition exit_u :: "uint \<Rightarrow> ('w, 'a) prog" where
  "exit_u status s = Some (Exit status s)"

definition mem_u :: "(memory \<Rightarrow> 'a) \<Rightarrow> ('w, 'a) prog" where
  "mem_u f s = Some (Val (f (umem s)) s)"

definition set_mem :: "(memory \<Rightarrow> memory) \<Rightarrow> ('w, unit) prog" where
  "set_mem f s = Some (Val () (s\<lparr>umem := f (umem s)\<rparr>))"

text \<open>A computation on memory that may not end.\<close>

definition calc :: "(memory \<Rightarrow> 'a option) \<Rightarrow> ('w, 'a) prog" where
  "calc f s = map_option (\<lambda>a. Val a s) (f (umem s))"

definition calc_mem :: "(memory \<Rightarrow> memory option) \<Rightarrow> ('w, unit) prog" where
  "calc_mem f s = map_option (\<lambda>m. Val () (s\<lparr>umem := m\<rparr>)) (f (umem s))"

text \<open>Bytes and strings in memory.\<close>

definition poke :: "memory \<Rightarrow> addr \<Rightarrow> uchar list \<Rightarrow> memory" where
  "poke m a bs = (\<lambda>x. if unat (x - a) < length bs then bs ! unat (x - a) else m x)"

definition bytes_at :: "memory \<Rightarrow> addr \<Rightarrow> nat \<Rightarrow> uchar list" where
  "bytes_at m a n = map (\<lambda>i. m (a + of_nat i)) [0..<n]"

partial_function (option) string_at :: "memory \<Rightarrow> addr \<Rightarrow> uchar list option" where
  "string_at m p =
     (if m p = 0 then Some []
      else Option.bind (string_at m (p + 1)) (\<lambda>cs. Some (m p # cs)))"

definition lit :: "string \<Rightarrow> uchar list" where
  "lit cs = map of_char cs"

definition read_u :: "'w os \<Rightarrow> uint \<Rightarrow> addr \<Rightarrow> uint \<Rightarrow> ('w, uint) prog" where
  "read_u os fd buf n =
     ubind (syscall_u (os_read os fd n)) (\<lambda>(r, bs).
     ubind (set_mem (\<lambda>m. poke m buf bs)) (\<lambda>_. uret r))"

definition write_u :: "'w os \<Rightarrow> uint \<Rightarrow> addr \<Rightarrow> uint \<Rightarrow> ('w, uint) prog" where
  "write_u os fd buf n =
     ubind (mem_u (\<lambda>m. bytes_at m buf (unat n))) (\<lambda>bs. syscall_u (os_write os fd bs))"

definition open_u :: "'w os \<Rightarrow> addr \<Rightarrow> uint \<Rightarrow> ('w, uint) prog" where
  "open_u os path omode =
     ubind (calc (\<lambda>m. string_at m path)) (\<lambda>p. syscall_u (os_open os p omode))"

definition fstat_u :: "'w os \<Rightarrow> uint \<Rightarrow> addr \<Rightarrow> ('w, uint) prog" where
  "fstat_u os fd st =
     ubind (syscall_u (os_fstat os fd)) (\<lambda>(r, bs).
     ubind (set_mem (\<lambda>m. poke m st bs)) (\<lambda>_. uret r))"

definition exec_u :: "'w os \<Rightarrow> uchar list \<Rightarrow> uchar list list \<Rightarrow> ('w, uint) prog" where
  "exec_u os path argv s =
     (case os_exec os path argv (world s) of
        (None, w) \<Rightarrow> Some (Execd (s\<lparr>world := w\<rparr>))
      | (Some r, w) \<Rightarrow> Some (Val r (s\<lparr>world := w\<rparr>)))"

text \<open>A null-terminated string with the given characters.\<close>

primrec str_at :: "memory \<Rightarrow> addr \<Rightarrow> uchar list \<Rightarrow> bool" where
  "str_at m p [] \<longleftrightarrow> m p = 0"
| "str_at m p (c # cs) \<longleftrightarrow> m p = c \<and> c \<noteq> 0 \<and> str_at m (p + 1) cs"

lemma string_at_str: "str_at m p cs \<Longrightarrow> string_at m p = Some cs"
  by (induction cs arbitrary: p) (simp_all add: string_at.simps[of m])

lemma str_at_unique: "str_at m p cs \<Longrightarrow> str_at m p ds \<Longrightarrow> cs = ds"
  by (drule string_at_str)+ simp

lemma ptr_Suc: "(p :: addr) + of_nat (Suc i) = (p + 1) + of_nat i"
  by simp

lemma str_at_nth: "str_at m p cs \<Longrightarrow> i < length cs \<Longrightarrow> m (p + of_nat i) = cs ! i \<and> cs ! i \<noteq> 0"
proof (induction cs arbitrary: p i)
  case (Cons c cs)
  then show ?case by (cases i) (auto simp: ptr_Suc simp del: of_nat_Suc)
qed simp

lemma str_at_drop: "str_at m p cs \<Longrightarrow> i \<le> length cs \<Longrightarrow> str_at m (p + of_nat i) (drop i cs)"
proof (induction cs arbitrary: p i)
  case (Cons c cs)
  then show ?case by (cases i) (simp_all add: ptr_Suc del: of_nat_Suc)
qed simp

lemma str_at_nonzero: "str_at m p cs \<Longrightarrow> 0 \<notin> set cs"
  by (induction cs arbitrary: p) auto

lemma str_at_cong: "str_at m p cs \<Longrightarrow> (\<And>i. i \<le> length cs \<Longrightarrow> m' (p + of_nat i) = m (p + of_nat i)) \<Longrightarrow> str_at m' p cs"
proof (induction cs arbitrary: p)
  case Nil
  then show ?case using Nil(2)[of 0] by simp
next
  case (Cons c cs)
  have "str_at m' (p + 1) cs"
    using Cons(1)[of "p + 1"] Cons(2) Cons(3)[of "Suc i" for i] by (simp add: ptr_Suc del: of_nat_Suc)
  then show ?case using Cons(2) Cons(3)[of 0] by simp
qed

lemma poke_nth: "i < length bs \<Longrightarrow> length bs \<le> 2 ^ 64 \<Longrightarrow> poke m a bs (a + of_nat i) = bs ! i"
  by (simp add: poke_def unat_of_nat)

lemma poke_str:
  "0 \<notin> set cs \<Longrightarrow> bs = xs @ cs @ 0 # ys \<Longrightarrow> length bs < 2 ^ 64 \<Longrightarrow>
     str_at (poke m a bs) (a + of_nat (length xs)) cs"
proof (induction cs arbitrary: xs)
  case Nil
  then have "poke m a bs (a + of_nat (length xs)) = bs ! length xs" by (intro poke_nth) simp_all
  then show ?case using Nil by (simp only: str_at.simps) simp
next
  case (Cons c cs)
  have "poke m a bs (a + of_nat (length xs)) = bs ! length xs" using Cons.prems by (intro poke_nth) simp_all
  moreover have "str_at (poke m a bs) (a + of_nat (length (xs @ [c]))) cs"
    using Cons.prems by (intro Cons.IH) auto
  ultimately show ?case using Cons.prems(1,2) by (simp add: add.assoc add.commute[of 1])
qed

end
