(* ===== verification/Ulib.thy ===== *)
theory Ulib
  imports UserOp
begin

unbundle bit_operations_syntax

text \<open>
  The library that user programs are linked with: \<open>user/ulib.c\<close>, \<open>user/printf.c\<close> and
  \<open>user/umalloc.c\<close>. A \<open>char\<close> is unsigned on RISC-V. Names that the kernel uses as well
  end in \<open>_u\<close>.
\<close>

section \<open>ulib.c\<close>

partial_function (option) strcpy :: "memory \<Rightarrow> addr \<Rightarrow> addr \<Rightarrow> memory option" where
  "strcpy m s t =
     (if m t \<noteq> 0 then strcpy (m(s := m t)) (s + 1) (t + 1) else Some (m(s := m t)))"

partial_function (option) strcmp :: "memory \<Rightarrow> addr \<Rightarrow> addr \<Rightarrow> int option" where
  "strcmp m p q =
     (if m p \<noteq> 0 \<and> m p = m q then strcmp m (p + 1) (q + 1) else Some (uint (m p) - uint (m q)))"

partial_function (option) strlen_u_from :: "memory \<Rightarrow> addr \<Rightarrow> uint \<Rightarrow> uint option" where
  "strlen_u_from m s n = (if m (s + scast n) \<noteq> 0 then strlen_u_from m s (n + 1) else Some n)"

definition strlen_u :: "memory \<Rightarrow> addr \<Rightarrow> uint option" where
  "strlen_u m s = strlen_u_from m s 0"

text \<open>The index \<open>i\<close> is an \<open>int\<close>, compared with \<open>n\<close> as unsigned.\<close>

definition memset_u :: "memory \<Rightarrow> addr \<Rightarrow> uint \<Rightarrow> uint \<Rightarrow> memory" where
  "memset_u m dst c n = fold (\<lambda>i m. m(dst + scast (of_nat i :: uint) := ucast c)) [0..<unat n] m"

partial_function (option) strchr :: "memory \<Rightarrow> addr \<Rightarrow> uchar \<Rightarrow> addr option" where
  "strchr m s c = (if m s = 0 then Some 0 else if m s = c then Some s else strchr m (s + 1) c)"

text \<open>The loop of \<open>gets\<close>; the result is \<open>i\<close>.\<close>

function gets_from :: "'w os \<Rightarrow> addr \<Rightarrow> int \<Rightarrow> int \<Rightarrow> uchar \<Rightarrow> ('w, int) prog" where
  "gets_from os buf mx i c =
     (if i + 1 < mx then
        ubind (syscall_u (os_read os 0 1)) (\<lambda>(cc, bs).
        if cc <s 1 then uret i
        else
          let c' = (case bs of [] \<Rightarrow> c | b # _ \<Rightarrow> b) in
          ubind (set_mem (\<lambda>m. m(buf + of_int i := c'))) (\<lambda>_.
          if c' = 10 \<or> c' = 13 then uret (i + 1) else gets_from os buf mx (i + 1) c'))
      else uret i)"
  by pat_completeness auto

termination gets_from
  by (relation "measure (\<lambda>(os, buf, mx, i, c). nat (mx - i))") auto

declare gets_from.simps [simp del]

definition gets :: "'w os \<Rightarrow> addr \<Rightarrow> int \<Rightarrow> ('w, unit) prog" where
  "gets os buf mx =
     ubind (gets_from os buf mx 0 0) (\<lambda>i. set_mem (\<lambda>m. m(buf + of_int i := 0)))"

definition stat_u :: "'w os \<Rightarrow> addr \<Rightarrow> addr \<Rightarrow> ('w, uint) prog" where
  "stat_u os n st =
     ubind (open_u os n O_RDONLY) (\<lambda>fd.
     if fd <s 0 then uret (- 1)
     else
       ubind (fstat_u os fd st) (\<lambda>r.
       ubind (syscall_u (os_close os fd)) (\<lambda>_.
       uret r)))"

partial_function (option) atoi_from :: "memory \<Rightarrow> addr \<Rightarrow> uint \<Rightarrow> uint option" where
  "atoi_from m s n =
     (if 48 \<le> m s \<and> m s \<le> 57 then atoi_from m (s + 1) (n * 10 + ucast (m s) - 48) else Some n)"

definition atoi :: "memory \<Rightarrow> addr \<Rightarrow> uint option" where
  "atoi m s = atoi_from m s 0"

definition memmove_u :: "memory \<Rightarrow> addr \<Rightarrow> addr \<Rightarrow> uint \<Rightarrow> memory" where
  "memmove_u m vdst vsrc n =
     (if vsrc > vdst then memmove_fwd m vdst vsrc (nat (sint n))
      else memmove_bwd m (vdst + scast n) (vsrc + scast n) (nat (sint n)))"

fun memcmp_u :: "memory \<Rightarrow> addr \<Rightarrow> addr \<Rightarrow> nat \<Rightarrow> int" where
  "memcmp_u m s1 s2 0 = 0"
| "memcmp_u m s1 s2 (Suc n) =
     (if m s1 \<noteq> m s2 then uint (m s1) - uint (m s2) else memcmp_u m (s1 + 1) (s2 + 1) n)"

definition memcpy_u :: "memory \<Rightarrow> addr \<Rightarrow> addr \<Rightarrow> uint \<Rightarrow> memory" where
  "memcpy_u m dst src n = memmove_u m dst src n"


section \<open>printf.c\<close>

definition digits_u :: "nat \<Rightarrow> uchar" where
  "digits_u i = lit ''0123456789ABCDEF'' ! i"

definition putc :: "'w os \<Rightarrow> uint \<Rightarrow> uchar \<Rightarrow> ('w, unit) prog" where
  "putc os fd c = ubind (syscall_u (os_write os fd [c])) (\<lambda>_. uret ())"

text \<open>The contents of \<open>buf\<close> in \<open>printint\<close>; the base is 10 or 16.\<close>

function printint_u_digits :: "nat \<Rightarrow> nat \<Rightarrow> uchar list" where
  "printint_u_digits base x =
     digits_u (x mod base) #
       (if base \<le> 1 \<or> x div base = 0 then [] else printint_u_digits base (x div base))"
  by pat_completeness auto

termination printint_u_digits
proof (relation "measure snd", goal_cases)
  case (2 base x)
  then have "1 < base" by simp
  moreover have "0 < x" using 2 by (cases x) auto
  ultimately show ?case by (simp add: div_less_dividend)
qed simp

declare printint_u_digits.simps [simp del]

definition printint_u :: "'w os \<Rightarrow> uint \<Rightarrow> uint \<Rightarrow> nat \<Rightarrow> bool \<Rightarrow> ('w, unit) prog" where
  "printint_u os fd xx base sg =
     (let neg = sg \<and> xx <s 0;
          x = (if neg then - xx else xx);
          buf = printint_u_digits base (unat x) @ (if neg then lit ''-'' else [])
      in ufor (rev buf) (putc os fd))"

definition printptr_u :: "'w os \<Rightarrow> uint \<Rightarrow> uint64 \<Rightarrow> ('w, unit) prog" where
  "printptr_u os fd x =
     ubind (putc os fd (of_char (CHR ''0''))) (\<lambda>_.
     ubind (putc os fd (of_char (CHR ''x''))) (\<lambda>_.
     ufor [0..<16] (\<lambda>i. putc os fd (digits_u (unat (drop_bit 60 (push_bit (4 * i) x)))))))"

partial_function (option) put_string :: "'w os \<Rightarrow> uint \<Rightarrow> addr \<Rightarrow> ('w, unit) prog" where
  "put_string os fd s w =
     ubind (mem_u (\<lambda>m. m s)) (\<lambda>c.
     if c \<noteq> 0 then ubind (putc os fd c) (\<lambda>_. put_string os fd (s + 1)) else uret ()) w"

text \<open>
  The variable arguments are 64-bit values; to read one that was not passed has no meaning in C.
  \<open>state\<close> holds after a percent sign.
\<close>

fun vprintf_from :: "'w os \<Rightarrow> uint \<Rightarrow> uchar list \<Rightarrow> bool \<Rightarrow> uint64 list \<Rightarrow> ('w, unit) prog" where
  "vprintf_from os fd [] state ap = uret ()"
| "vprintf_from os fd (c # fmt) False ap =
     (if c = of_char (CHR ''%'') then vprintf_from os fd fmt True ap
      else ubind (putc os fd c) (\<lambda>_. vprintf_from os fd fmt False ap))"
| "vprintf_from os fd (c # fmt) True ap =
     (if c \<in> set (lit ''dlxpsc'') then
        (case ap of
           [] \<Rightarrow> undef
         | a # ap' \<Rightarrow>
             ubind
               (if c = of_char (CHR ''d'') then printint_u os fd (ucast a) 10 True
                else if c = of_char (CHR ''l'') then printint_u os fd (ucast a) 10 False
                else if c = of_char (CHR ''x'') then printint_u os fd (ucast a) 16 False
                else if c = of_char (CHR ''p'') then printptr_u os fd a
                else if c = of_char (CHR ''s'') then
                  (if a = 0 then ufor (lit ''(null)'') (putc os fd) else put_string os fd a)
                else putc os fd (ucast a)) (\<lambda>_.
             vprintf_from os fd fmt False ap'))
      else if c = of_char (CHR ''%'') then
        ubind (putc os fd c) (\<lambda>_. vprintf_from os fd fmt False ap)
      else
        ubind (putc os fd (of_char (CHR ''%''))) (\<lambda>_.
        ubind (putc os fd c) (\<lambda>_.
        vprintf_from os fd fmt False ap)))"

definition vprintf :: "'w os \<Rightarrow> uint \<Rightarrow> uchar list \<Rightarrow> uint64 list \<Rightarrow> ('w, unit) prog" where
  "vprintf os fd fmt ap = vprintf_from os fd fmt False ap"

definition fprintf_u :: "'w os \<Rightarrow> uint \<Rightarrow> string \<Rightarrow> uint64 list \<Rightarrow> ('w, unit) prog" where
  "fprintf_u os fd fmt ap = vprintf os fd (lit fmt) ap"

definition printf_u :: "'w os \<Rightarrow> string \<Rightarrow> uint64 list \<Rightarrow> ('w, unit) prog" where
  "printf_u os fmt ap = vprintf os 1 (lit fmt) ap"


section \<open>umalloc.c\<close>

text \<open>
  A header takes 16 bytes: the pointer \<open>s.ptr\<close> and after it the 32-bit \<open>s.size\<close>. The
  static variables \<open>base\<close> and \<open>freep\<close> lie at addresses that the linker chooses.
\<close>

record malloc_vars =
  base_at :: addr
  freep_at :: addr

definition load32 :: "memory \<Rightarrow> addr \<Rightarrow> uint" where
  "load32 m a = ucast (load64 m a)"

definition store32 :: "memory \<Rightarrow> addr \<Rightarrow> uint \<Rightarrow> memory" where
  "store32 m a v = (\<lambda>x. if x - a < 4 then ucast (drop_bit (8 * unat (x - a)) v) else m x)"

definition s_ptr :: "memory \<Rightarrow> addr \<Rightarrow> addr" where
  "s_ptr m p = load64 m p"

definition s_size :: "memory \<Rightarrow> addr \<Rightarrow> uint" where
  "s_size m p = load32 m (p + 8)"

definition set_ptr :: "addr \<Rightarrow> addr \<Rightarrow> memory \<Rightarrow> memory" where
  "set_ptr p q m = store64 m p q"

definition set_size :: "addr \<Rightarrow> uint \<Rightarrow> memory \<Rightarrow> memory" where
  "set_size p n m = store32 m (p + 8) n"

definition hdr_add :: "addr \<Rightarrow> uint \<Rightarrow> addr" where
  "hdr_add p n = p + 16 * ucast n"

partial_function (option) free_find :: "memory \<Rightarrow> addr \<Rightarrow> addr \<Rightarrow> addr option" where
  "free_find m bp p =
     (if bp > p \<and> bp < s_ptr m p then Some p
      else if p \<ge> s_ptr m p \<and> (bp > p \<or> bp < s_ptr m p) then Some p
      else free_find m bp (s_ptr m p))"

definition free_u :: "malloc_vars \<Rightarrow> memory \<Rightarrow> addr \<Rightarrow> memory option" where
  "free_u g m ap =
     (let bp = ap - 16 in
      Option.bind (free_find m bp (load64 m (freep_at g))) (\<lambda>p.
      let m1 = (if hdr_add bp (s_size m bp) = s_ptr m p then
                  let m' = set_size bp (s_size m bp + s_size m (s_ptr m p)) m
                  in set_ptr bp (s_ptr m' (s_ptr m' p)) m'
                else set_ptr bp (s_ptr m p) m);
          m2 = (if hdr_add p (s_size m1 p) = bp then
                  let m' = set_size p (s_size m1 p + s_size m1 bp) m1
                  in set_ptr p (s_ptr m' bp) m'
                else set_ptr p bp m1)
      in Some (store64 m2 (freep_at g) p)))"

definition morecore :: "'w os \<Rightarrow> malloc_vars \<Rightarrow> uint \<Rightarrow> ('w, addr) prog" where
  "morecore os g nu =
     (let nu = (if nu < 4096 then 4096 else nu) in
      ubind (syscall_u (os_sbrk os (nu * 16))) (\<lambda>p.
      if p = - 1 then uret 0
      else
        ubind (set_mem (set_size p nu)) (\<lambda>_.
        ubind (calc_mem (\<lambda>m. free_u g m (p + 16))) (\<lambda>_.
        mem_u (\<lambda>m. load64 m (freep_at g))))))"

partial_function (option) malloc_loop :: "'w os \<Rightarrow> malloc_vars \<Rightarrow> uint \<Rightarrow> addr \<Rightarrow> addr \<Rightarrow> ('w, addr) prog" where
  "malloc_loop os g nunits prevp p w =
     ubind (mem_u (\<lambda>m. m)) (\<lambda>m.
     if s_size m p \<ge> nunits then
       if s_size m p = nunits then
         ubind (set_mem (set_ptr prevp (s_ptr m p))) (\<lambda>_.
         ubind (set_mem (\<lambda>m. store64 m (freep_at g) prevp)) (\<lambda>_.
         uret (p + 16)))
       else
         let rest = s_size m p - nunits; q = hdr_add p rest in
         ubind (set_mem (set_size p rest)) (\<lambda>_.
         ubind (set_mem (set_size q nunits)) (\<lambda>_.
         ubind (set_mem (\<lambda>m. store64 m (freep_at g) prevp)) (\<lambda>_.
         uret (q + 16))))
     else if p = load64 m (freep_at g) then
       ubind (morecore os g nunits) (\<lambda>p.
       if p = 0 then uret 0
       else ubind (mem_u (\<lambda>m. s_ptr m p)) (\<lambda>q. malloc_loop os g nunits p q))
     else malloc_loop os g nunits p (s_ptr m p)) w"

definition malloc :: "'w os \<Rightarrow> malloc_vars \<Rightarrow> uint \<Rightarrow> ('w, addr) prog" where
  "malloc os g nbytes =
     (let nunits = ucast ((ucast nbytes + 16 - 1) div 16 + 1 :: uint64) in
      ubind (mem_u (\<lambda>m. load64 m (freep_at g))) (\<lambda>prevp.
      ubind (if prevp = 0 then
               ubind (set_mem (set_ptr (base_at g) (base_at g))) (\<lambda>_.
               ubind (set_mem (\<lambda>m. store64 m (freep_at g) (base_at g))) (\<lambda>_.
               ubind (set_mem (set_size (base_at g) 0)) (\<lambda>_.
               uret (base_at g))))
             else uret prevp) (\<lambda>prevp.
      ubind (mem_u (\<lambda>m. s_ptr m prevp)) (\<lambda>p.
      malloc_loop os g nunits prevp p))))"

end
