(* ===== verification/UlibProps.thy ===== *)
theory UlibProps
  imports Ulib
begin

text \<open>What the string routines of \<open>user/ulib.c\<close> compute on null-terminated strings in memory.\<close>

lemma scast_of_nat_ptr: "i < 2 ^ 31 \<Longrightarrow> scast (of_nat i :: uint) = (of_nat i :: addr)"
proof -
  assume "i < 2 ^ 31"
  then have "sint (of_nat i :: uint) = int i"
    by (simp add: signed_of_nat signed_take_bit_int_eq_self)
  then show ?thesis by (simp add: scast_eq)
qed

lemma strlen_u_from_str:
  "str_at m (p + of_nat i) cs \<Longrightarrow> i + length cs < 2 ^ 31 \<Longrightarrow>
     strlen_u_from m p (of_nat i) = Some (of_nat (i + length cs))"
proof (induction cs arbitrary: i)
  case Nil
  then show ?case by (simp add: strlen_u_from.simps[of m] scast_of_nat_ptr)
next
  case (Cons c cs)
  have "str_at m (p + of_nat (Suc i)) cs" using Cons.prems(1) by (simp add: algebra_simps)
  from Cons.IH[OF this] have "strlen_u_from m p (of_nat (Suc i)) = Some (of_nat (Suc i + length cs))"
    using Cons.prems(2) by simp
  then show ?case
    using Cons.prems strlen_u_from.simps[of m p "of_nat i"] by (simp add: scast_of_nat_ptr add.commute)
qed

lemma strlen_u_str: "str_at m p cs \<Longrightarrow> length cs < 2 ^ 31 \<Longrightarrow> strlen_u m p = Some (of_nat (length cs))"
  using strlen_u_from_str[of m p 0 cs] by (simp add: strlen_u_def)

text \<open>The order of strings by their first differing character.\<close>

definition str_less :: "uchar list \<Rightarrow> uchar list \<Rightarrow> bool" where
  "str_less cs ds \<longleftrightarrow> (cs, ds) \<in> lexord {(a, b). a < b}"

lemma uint_pos: "(c :: uchar) \<noteq> 0 \<Longrightarrow> 0 < uint c"
  using unsigned_greater_eq[of c] by (simp add: less_le unsigned_eq_0_iff)

lemma strcmp_str:
  "str_at m p cs \<Longrightarrow> str_at m q ds \<Longrightarrow>
     \<exists>v. strcmp m p q = Some v \<and> (v = 0 \<longleftrightarrow> cs = ds) \<and> (v < 0 \<longleftrightarrow> str_less cs ds)"
proof (induction cs arbitrary: p q ds)
  case Nil
  then show ?case
    by (cases ds) (simp_all add: strcmp.simps[of m p] str_less_def uint_pos less_imp_neq[OF uint_pos, symmetric])
next
  case (Cons c cs)
  show ?case
  proof (cases ds)
    case Nil
    then show ?thesis using Cons.prems
      by (simp add: strcmp.simps[of m p] str_less_def uint_pos less_imp_neq[OF uint_pos, symmetric] less_imp_le not_less)
  next
    case (Cons d ds')
    then show ?thesis
      using Cons.prems Cons.IH[of "p + 1" "q + 1" ds'] 
      by (cases "c = d") (simp_all add: strcmp.simps[of m p] str_less_def word_less_def word_uint_eq_iff)
  qed
qed

lemma strchr_str:
  "str_at m p cs \<Longrightarrow> c \<noteq> 0 \<Longrightarrow>
     strchr m p c = Some (if c \<in> set cs then p + of_nat (length (takeWhile (\<lambda>d. d \<noteq> c) cs)) else 0)"
  by (induction cs arbitrary: p) (simp_all add: strchr.simps[of m] algebra_simps)

lemma strcpy_str:
  assumes "str_at m t cs" "\<forall>i\<le>length cs. \<forall>j\<le>length cs. s + of_nat i \<noteq> t + of_nat j" "length cs < 2 ^ 64"
  shows "strcpy m s t = Some (poke m s (cs @ [0]))"
  using assms
proof (induction cs arbitrary: m s t)
  case Nil
  have "x = s \<longleftrightarrow> unat (x - s) = 0" for x by (simp add: unat_eq_0)
  then have "m(s := 0) = poke m s [0]" by (intro ext) (simp add: poke_def)
  then show ?case using Nil by (simp add: strcpy.simps[of m])
next
  case (Cons c cs)
  let ?m = "m(s := c)"
  have ap: "s + of_nat i \<noteq> t + of_nat j" if "i \<le> Suc (length cs)" "j \<le> Suc (length cs)" for i j
    using Cons.prems(2) that by simp
  have str: "str_at ?m (t + 1) cs"
  proof (rule str_at_cong[of m])
    show "str_at m (t + 1) cs" using Cons.prems(1) by simp
    show "?m (t + 1 + of_nat i) = m (t + 1 + of_nat i)" if "i \<le> length cs" for i
      using ap[of 0 "Suc i"] that by (auto simp: add.assoc)
  qed
  have "\<forall>i\<le>length cs. \<forall>j\<le>length cs. s + 1 + of_nat i \<noteq> t + 1 + of_nat j"
    using ap[of "Suc i" "Suc j" for i j] by (simp add: add.assoc)
  from Cons.IH[OF str this] Cons.prems have IH: "strcpy ?m (s + 1) (t + 1) = Some (poke ?m (s + 1) (cs @ [0]))"
    by (simp del: fun_upd_apply)
  have "poke ?m (s + 1) (cs @ [0]) = poke m s ((c # cs) @ [0])"
  proof (rule ext)
    fix x
    show "poke ?m (s + 1) (cs @ [0]) x = poke m s ((c # cs) @ [0]) x"
    proof (cases "x = s")
      case True
      have "unat (s - (s + 1)) = 2 ^ 64 - 1" by (simp add: unat_minus_one_word)
      then show ?thesis using True Cons.prems(3) by (simp add: poke_def)
    next
      case False
      then have "unat (x - s) = Suc (unat (x - (s + 1)))" by (rule unat_sub_Suc)
      then show ?thesis using False by (simp add: poke_def)
    qed
  qed
  then show ?case unfolding strcpy.simps[of m s t] using Cons.prems(1) IH by (simp del: fun_upd_apply)
qed

lemma memmove_u_copied:
  assumes n: "sint n = int k" and "unat dst + k \<le> 2 ^ 64" "unat src + k \<le> 2 ^ 64"
  shows "memmove_u m dst src n = copied m dst src k"
proof -
  have sn: "scast n = (of_nat k :: addr)" "nat (sint n) = k" using n by (simp_all add: scast_eq)
  have le: "k \<le> 2 ^ 64" using assms(2) by linarith
  show ?thesis
  proof (cases "src > dst")
    case True
    then have "unat (dst - src) = 2 ^ 64 + unat dst - unat src" by (intro unat_sub_wrap) simp
    then have "k \<le> unat (dst - src)" using assms(3) by linarith
    then show ?thesis unfolding memmove_u_def sn using True le by (simp only: if_True memmove_fwd_copied simp_thms)
  next
    case False
    have "dst = src \<or> k \<le> unat (src - dst)"
    proof (cases "dst = src")
      case neq: False
      then have "unat (src - dst) = 2 ^ 64 + unat src - unat dst" using False by (intro unat_sub_wrap) simp
      then show ?thesis using assms(2) by linarith
    qed simp
    then show ?thesis unfolding memmove_u_def sn using False le
      by (simp only: if_False memmove_bwd_copied simp_thms)
  qed
qed

text \<open>
  C29. On null-terminated strings \<open>cs\<close> at \<open>s\<close> and \<open>ds\<close> at \<open>t\<close>, the string routines of the
  user library return: \<open>strlen\<close> gives the length, \<open>strcmp\<close> a number that is zero exactly for
  equal strings and negative exactly when the first string comes first in the lexicographic
  order of unsigned characters, \<open>strchr\<close> the address of the first occurrence or null, and
  \<open>strcpy\<close> to an array apart from the source writes the characters and the null byte and
  nothing else. \<open>memmove\<close> leaves in the destination what the source held before, for regions
  that overlap in either way.
\<close>

theorem ulib_strings:
  assumes "str_at m s cs" "str_at m t ds" "length cs < 2 ^ 31" "c \<noteq> 0"
    and "\<forall>i\<le>length cs. \<forall>j\<le>length cs. d + of_nat i \<noteq> s + of_nat j"
    and "sint n = int k" "unat dst + k \<le> 2 ^ 64" "unat src + k \<le> 2 ^ 64"
  shows "strlen_u m s = Some (of_nat (length cs)) \<and>
    (\<exists>v. strcmp m s t = Some v \<and> (v = 0 \<longleftrightarrow> cs = ds) \<and> (v < 0 \<longleftrightarrow> str_less cs ds)) \<and>
    strchr m s c = Some (if c \<in> set cs then s + of_nat (length (takeWhile (\<lambda>d. d \<noteq> c) cs)) else 0) \<and>
    strcpy m d s = Some (poke m d (cs @ [0])) \<and>
    memmove_u m dst src n = copied m dst src k"
  using strlen_u_str[OF assms(1,3)] strcmp_str[OF assms(1,2)] strchr_str[OF assms(1,4)]
    strcpy_str[OF assms(1,5)] memmove_u_copied[OF assms(6-8)] assms(3) by simp

definition ulib_mem :: memory where
  "ulib_mem = poke (\<lambda>_. 0) 100 (lit ''kernel'' @ 0 # lit ''kill'' @ [0])"

lemma ulib_mem_apart:
  assumes "i \<le> 6" "j \<le> 6"
  shows "(300 :: addr) + of_nat i \<noteq> 100 + of_nat j"
proof -
  have "i \<in> {0, 1, 2, 3, 4, 5, 6}" "j \<in> {0, 1, 2, 3, 4, 5, 6}" using assms by auto
  then show ?thesis by auto
qed

theorem ulib_strings_witness:
  "strlen_u ulib_mem 100 = Some 6 \<and> (\<exists>v. strcmp ulib_mem 100 107 = Some v \<and> v < 0) \<and>
   strchr ulib_mem 100 (of_char (CHR ''n'')) = Some 103 \<and>
   strcpy ulib_mem 300 100 = Some (poke ulib_mem 300 (lit ''kernel'' @ [0])) \<and>
   memmove_u ulib_mem 102 100 5 = copied ulib_mem 102 100 5"
proof -
  have s: "str_at ulib_mem 100 (lit ''kernel'')" "str_at ulib_mem 107 (lit ''kill'')"
    by (simp_all add: ulib_mem_def lit_def poke_def)
  have ap: "\<forall>i\<le>length (lit ''kernel''). \<forall>j\<le>length (lit ''kernel''). (300 :: addr) + of_nat i \<noteq> 100 + of_nat j"
    using ulib_mem_apart by (simp add: lit_def)
  have c: "length (lit ''kernel'') = 6" "of_char (CHR ''n'') \<noteq> (0 :: uchar)" "str_less (lit ''kernel'') (lit ''kill'')"
    "of_char (CHR ''n'') \<in> set (lit ''kernel'')"
    "length (takeWhile (\<lambda>d. d \<noteq> of_char (CHR ''n'')) (lit ''kernel'')) = 3"
    by (simp_all add: lit_def str_less_def)
  have "length (lit ''kernel'') < 2 ^ 31" "sint (5 :: uint) = int 5" "unat (102 :: addr) + 5 \<le> 2 ^ 64"
    "unat (100 :: addr) + 5 \<le> 2 ^ 64" using c(1) by simp_all
  note R = ulib_strings[OF s this(1) c(2) ap this(2-4)]
  have "\<exists>v. strcmp ulib_mem 100 107 = Some v \<and> v < 0" using R c(3) by blast
  moreover have "strlen_u ulib_mem 100 = Some 6" using conjunct1[OF R] unfolding c(1) by simp
  moreover have "strchr ulib_mem 100 (of_char (CHR ''n'')) = Some 103"
    using conjunct1[OF conjunct2[OF conjunct2[OF R]]] unfolding c(5) if_P[OF c(4)] by simp
  ultimately show ?thesis using conjunct2[OF conjunct2[OF conjunct2[OF R]]] by blast
qed

end
