(* ===== verification/Programs.thy ===== *)
theory Programs
  imports Ulib Fs
begin

text \<open>
  The user programs \<open>cat\<close>, \<open>echo\<close>, \<open>grep\<close>, \<open>init\<close>, \<open>kill\<close>, \<open>ln\<close>, \<open>ls\<close>,
  \<open>mkdir\<close>, \<open>rm\<close>, \<open>sleep\<close>, \<open>wc\<close> and \<open>zombie\<close>. The arguments of \<open>main\<close> are the list of
  pointers \<open>argv\<close>; static arrays, and local variables whose address is taken, lie at
  addresses that are arguments.
\<close>

definition nl :: string where "nl = [CHR 0x0A]"

section \<open>cat\<close>

partial_function (option) cat_loop :: "'w os \<Rightarrow> addr \<Rightarrow> uint \<Rightarrow> ('w, uint) prog" where
  "cat_loop os buf fd w =
     ubind (read_u os fd buf 512) (\<lambda>n.
     if 0 <s n then
       ubind (write_u os 1 buf n) (\<lambda>r.
       if r \<noteq> n then
         ubind (fprintf_u os 2 (''cat: write error'' @ nl) []) (\<lambda>_. exit_u 1)
       else cat_loop os buf fd)
     else uret n) w"

definition cat :: "'w os \<Rightarrow> addr \<Rightarrow> uint \<Rightarrow> ('w, unit) prog" where
  "cat os buf fd =
     ubind (cat_loop os buf fd) (\<lambda>n.
     if n <s 0 then
       ubind (fprintf_u os 2 (''cat: read error'' @ nl) []) (\<lambda>_. exit_u 1)
     else uret ())"

definition cat_main :: "'w os \<Rightarrow> addr \<Rightarrow> addr list \<Rightarrow> ('w, unit) prog" where
  "cat_main os buf argv =
     (if length argv \<le> 1 then ubind (cat os buf 0) (\<lambda>_. exit_u 0)
      else
        ubind (ufor (tl argv) (\<lambda>arg.
          ubind (open_u os arg 0) (\<lambda>fd.
          if fd <s 0 then
            ubind (fprintf_u os 2 (''cat: cannot open %s'' @ nl) [arg]) (\<lambda>_. exit_u 1)
          else
            ubind (cat os buf fd) (\<lambda>_.
            ubind (syscall_u (os_close os fd)) (\<lambda>_.
            uret ()))))) (\<lambda>_.
        exit_u 0))"

section \<open>echo\<close>

definition echo_main :: "'w os \<Rightarrow> addr list \<Rightarrow> ('w, unit) prog" where
  "echo_main os argv =
     ubind (ufor [1..<length argv] (\<lambda>i.
       ubind (calc (\<lambda>m. strlen_u m (argv ! i))) (\<lambda>len.
       ubind (write_u os 1 (argv ! i) len) (\<lambda>_.
       ubind (if i + 1 < length argv then syscall_u (os_write os 1 (lit '' ''))
              else syscall_u (os_write os 1 (lit nl))) (\<lambda>_.
       uret ()))))) (\<lambda>_.
     exit_u 0)"

section \<open>grep\<close>

text \<open>
  \<open>matchhere\<close> and \<open>matchstar\<close> call each other: \<open>match_at\<close> is the former without a
  character and the latter with one.
\<close>

partial_function (option) match_at :: "memory \<Rightarrow> uchar option \<Rightarrow> addr \<Rightarrow> addr \<Rightarrow> bool option" where
  "match_at m star re text =
     (case star of
        None \<Rightarrow>
          if m re = 0 then Some True
          else if m (re + 1) = of_char (CHR ''*'') then match_at m (Some (m re)) (re + 2) text
          else if m re = of_char (CHR ''$'') \<and> m (re + 1) = 0 then Some (m text = 0)
          else if m text \<noteq> 0 \<and> (m re = of_char (CHR ''.'') \<or> m re = m text) then
            match_at m None (re + 1) (text + 1)
          else Some False
      | Some c \<Rightarrow>
          Option.bind (match_at m None re text) (\<lambda>b.
          if b then Some True
          else if m text \<noteq> 0 \<and> (m text = c \<or> c = of_char (CHR ''.'')) then
            match_at m (Some c) re (text + 1)
          else Some False))"

definition matchhere :: "memory \<Rightarrow> addr \<Rightarrow> addr \<Rightarrow> bool option" where
  "matchhere m re text = match_at m None re text"

definition matchstar :: "memory \<Rightarrow> uchar \<Rightarrow> addr \<Rightarrow> addr \<Rightarrow> bool option" where
  "matchstar m c re text = match_at m (Some c) re text"

partial_function (option) match_from :: "memory \<Rightarrow> addr \<Rightarrow> addr \<Rightarrow> bool option" where
  "match_from m re text =
     Option.bind (matchhere m re text) (\<lambda>b.
     if b then Some True
     else if m text \<noteq> 0 then match_from m re (text + 1)
     else Some False)"

definition match :: "memory \<Rightarrow> addr \<Rightarrow> addr \<Rightarrow> bool option" where
  "match m re text =
     (if m re = of_char (CHR ''^'') then matchhere m (re + 1) text else match_from m re text)"

text \<open>The inner loop of \<open>grep\<close>, over the lines in the buffer; the result is \<open>p\<close>.\<close>

partial_function (option) grep_lines :: "'w os \<Rightarrow> addr \<Rightarrow> addr \<Rightarrow> ('w, addr) prog" where
  "grep_lines os pattern p w =
     ubind (calc (\<lambda>m. strchr m p 10)) (\<lambda>q.
     if q \<noteq> 0 then
       ubind (set_mem (\<lambda>m. m(q := 0))) (\<lambda>_.
       ubind (calc (\<lambda>m. match m pattern p)) (\<lambda>b.
       ubind (if b then
                ubind (set_mem (\<lambda>m. m(q := 10))) (\<lambda>_.
                ubind (write_u os 1 p (ucast (q + 1 - p))) (\<lambda>_.
                uret ()))
              else uret ()) (\<lambda>_.
       grep_lines os pattern (q + 1))))
     else uret p) w"

partial_function (option) grep_from :: "'w os \<Rightarrow> addr \<Rightarrow> addr \<Rightarrow> uint \<Rightarrow> uint \<Rightarrow> ('w, unit) prog" where
  "grep_from os buf pattern fd m w =
     ubind (read_u os fd (buf + scast m) (1024 - m - 1)) (\<lambda>n.
     if 0 <s n then
       let m = m + n in
       ubind (set_mem (\<lambda>mm. mm(buf + scast m := 0))) (\<lambda>_.
       ubind (grep_lines os pattern buf) (\<lambda>p.
       if 0 <s m then
         let m = m - ucast (p - buf) in
         ubind (set_mem (\<lambda>mm. memmove_u mm buf p m)) (\<lambda>_.
         grep_from os buf pattern fd m)
       else grep_from os buf pattern fd m))
     else uret ()) w"

definition grep :: "'w os \<Rightarrow> addr \<Rightarrow> addr \<Rightarrow> uint \<Rightarrow> ('w, unit) prog" where
  "grep os buf pattern fd = grep_from os buf pattern fd 0"

definition grep_main :: "'w os \<Rightarrow> addr \<Rightarrow> addr list \<Rightarrow> ('w, unit) prog" where
  "grep_main os buf argv =
     (if length argv \<le> 1 then
        ubind (fprintf_u os 2 (''usage: grep pattern [file ...]'' @ nl) []) (\<lambda>_. exit_u 1)
      else if length argv \<le> 2 then
        ubind (grep os buf (argv ! 1) 0) (\<lambda>_. exit_u 0)
      else
        ubind (ufor (drop 2 argv) (\<lambda>arg.
          ubind (open_u os arg 0) (\<lambda>fd.
          if fd <s 0 then
            ubind (printf_u os (''grep: cannot open %s'' @ nl) [arg]) (\<lambda>_. exit_u 1)
          else
            ubind (grep os buf (argv ! 1) fd) (\<lambda>_.
            ubind (syscall_u (os_close os fd)) (\<lambda>_.
            uret ()))))) (\<lambda>_.
        exit_u 0))"

section \<open>init\<close>

text \<open>The inner loop of \<open>init\<close> waits for the shell; other children are orphans.\<close>

partial_function (option) init_wait :: "'w os \<Rightarrow> uint \<Rightarrow> ('w, unit) prog" where
  "init_wait os child w =
     ubind (syscall_u (os_wait os 0)) (\<lambda>wpid.
     if wpid = child then uret ()
     else if wpid <s 0 then
       ubind (printf_u os (''init: wait returned an error'' @ nl) []) (\<lambda>_. exit_u 1)
     else init_wait os child) w"

partial_function (option) init_loop :: "'w os \<Rightarrow> ('w, unit) prog" where
  "init_loop os w =
     ubind (printf_u os (''init: starting sh'' @ nl) []) (\<lambda>_.
     ubind (syscall_u (os_fork os)) (\<lambda>child.
     if child <s 0 then
       ubind (printf_u os (''init: fork failed'' @ nl) []) (\<lambda>_. exit_u 1)
     else if child = 0 then
       ubind (exec_u os (lit ''sh'') [lit ''sh'']) (\<lambda>_.
       ubind (printf_u os (''init: exec sh failed'' @ nl) []) (\<lambda>_. exit_u 1))
     else
       ubind (init_wait os child) (\<lambda>_. init_loop os))) w"

definition init_main :: "'w os \<Rightarrow> ('w, unit) prog" where
  "init_main os =
     ubind (syscall_u (os_open os (lit ''console'') O_RDWR)) (\<lambda>r.
     ubind (if r <s 0 then
              ubind (syscall_u (os_mknod os (lit ''console'') 1 0)) (\<lambda>_.
              syscall_u (os_open os (lit ''console'') O_RDWR))
            else uret 0) (\<lambda>_.
     ubind (syscall_u (os_dup os 0)) (\<lambda>_.
     ubind (syscall_u (os_dup os 0)) (\<lambda>_.
     init_loop os))))"

section \<open>kill, ln, mkdir, rm, sleep and zombie\<close>

definition kill_main :: "'w os \<Rightarrow> addr list \<Rightarrow> ('w, unit) prog" where
  "kill_main os argv =
     (if length argv < 2 then
        ubind (fprintf_u os 2 (''usage: kill pid...'' @ nl) []) (\<lambda>_. exit_u 1)
      else
        ubind (ufor (tl argv) (\<lambda>arg.
          ubind (calc (\<lambda>m. atoi m arg)) (\<lambda>child.
          ubind (syscall_u (os_kill os child)) (\<lambda>_.
          uret ())))) (\<lambda>_.
        exit_u 0))"

definition ln_main :: "'w os \<Rightarrow> addr list \<Rightarrow> ('w, unit) prog" where
  "ln_main os argv =
     (if length argv \<noteq> 3 then
        ubind (fprintf_u os 2 (''Usage: ln old new'' @ nl) []) (\<lambda>_. exit_u 1)
      else
        ubind (calc (\<lambda>m. string_at m (argv ! 1))) (\<lambda>old.
        ubind (calc (\<lambda>m. string_at m (argv ! 2))) (\<lambda>new.
        ubind (syscall_u (os_link os old new)) (\<lambda>r.
        ubind (if r <s 0 then fprintf_u os 2 (''link %s %s: failed'' @ nl) [argv ! 1, argv ! 2]
               else uret ()) (\<lambda>_.
        exit_u 0)))))"

text \<open>The loops of \<open>mkdir\<close> and \<open>rm\<close> end at the first failure.\<close>

fun mkdir_loop :: "'w os \<Rightarrow> addr list \<Rightarrow> ('w, unit) prog" where
  "mkdir_loop os [] = uret ()"
| "mkdir_loop os (arg # args) =
     ubind (calc (\<lambda>m. string_at m arg)) (\<lambda>path.
     ubind (syscall_u (os_mkdir os path)) (\<lambda>r.
     if r <s 0 then fprintf_u os 2 (''mkdir: %s failed to create'' @ nl) [arg]
     else mkdir_loop os args))"

definition mkdir_main :: "'w os \<Rightarrow> addr list \<Rightarrow> ('w, unit) prog" where
  "mkdir_main os argv =
     (if length argv < 2 then
        ubind (fprintf_u os 2 (''Usage: mkdir files...'' @ nl) []) (\<lambda>_. exit_u 1)
      else ubind (mkdir_loop os (tl argv)) (\<lambda>_. exit_u 0))"

fun rm_loop :: "'w os \<Rightarrow> addr list \<Rightarrow> ('w, unit) prog" where
  "rm_loop os [] = uret ()"
| "rm_loop os (arg # args) =
     ubind (calc (\<lambda>m. string_at m arg)) (\<lambda>path.
     ubind (syscall_u (os_unlink os path)) (\<lambda>r.
     if r <s 0 then fprintf_u os 2 (''rm: %s failed to delete'' @ nl) [arg]
     else rm_loop os args))"

definition rm_main :: "'w os \<Rightarrow> addr list \<Rightarrow> ('w, unit) prog" where
  "rm_main os argv =
     (if length argv < 2 then
        ubind (fprintf_u os 2 (''Usage: rm files...'' @ nl) []) (\<lambda>_. exit_u 1)
      else ubind (rm_loop os (tl argv)) (\<lambda>_. exit_u 0))"

definition sleep_main :: "'w os \<Rightarrow> addr list \<Rightarrow> ('w, unit) prog" where
  "sleep_main os argv =
     (if length argv \<noteq> 2 then
        ubind (printf_u os (''Sleep needs one argument!'' @ nl) []) (\<lambda>_. exit_u (- 1))
      else
        ubind (calc (\<lambda>m. atoi m (argv ! 1))) (\<lambda>ticks.
        ubind (syscall_u (os_sleep os ticks)) (\<lambda>_.
        ubind (printf_u os (''(nothing happens for a little while)'' @ nl) []) (\<lambda>_.
        exit_u 0))))"

definition zombie_main :: "'w os \<Rightarrow> ('w, unit) prog" where
  "zombie_main os =
     ubind (syscall_u (os_fork os)) (\<lambda>child.
     ubind (if 0 <s child then syscall_u (os_sleep os 5) else uret 0) (\<lambda>_.
     exit_u 0))"

section \<open>ls\<close>

record ls_vars =
  fmt_buf :: addr
  ls_buf :: addr
  ls_de :: addr
  ls_st :: addr
  ls_dot :: addr

partial_function (option) fmtname_last :: "memory \<Rightarrow> addr \<Rightarrow> addr \<Rightarrow> addr option" where
  "fmtname_last m path p =
     (if p \<ge> path \<and> m p \<noteq> of_char (CHR ''/'') then fmtname_last m path (p - 1) else Some p)"

definition fmtname :: "ls_vars \<Rightarrow> addr \<Rightarrow> ('w, addr) prog" where
  "fmtname v path =
     ubind (calc (\<lambda>m. strlen_u m path)) (\<lambda>len.
     ubind (calc (\<lambda>m. fmtname_last m path (path + ucast len))) (\<lambda>p.
     let p = p + 1 in
     ubind (calc (\<lambda>m. strlen_u m p)) (\<lambda>n.
     if n \<ge> of_nat DIRSIZ then uret p
     else
       ubind (set_mem (\<lambda>m. memmove_u m (fmt_buf v) p n)) (\<lambda>_.
       ubind (set_mem (\<lambda>m. memset_u m (fmt_buf v + ucast n) 32 (of_nat DIRSIZ - n))) (\<lambda>_.
       uret (fmt_buf v))))))"

text \<open>Fields of \<open>struct stat\<close> and \<open>struct dirent\<close> in memory.\<close>

definition ls_type :: "memory \<Rightarrow> ls_vars \<Rightarrow> ushort" where
  "ls_type m v = ucast (load32 m (ls_st v + 8))"

definition ls_ino :: "memory \<Rightarrow> ls_vars \<Rightarrow> uint" where
  "ls_ino m v = load32 m (ls_st v + 4)"

definition ls_size :: "memory \<Rightarrow> ls_vars \<Rightarrow> uint64" where
  "ls_size m v = load64 m (ls_st v + 16)"

definition ls_inum :: "memory \<Rightarrow> ls_vars \<Rightarrow> ushort" where
  "ls_inum m v = ucast (load32 m (ls_de v))"

partial_function (option) ls_entries :: "'w os \<Rightarrow> ls_vars \<Rightarrow> uint \<Rightarrow> addr \<Rightarrow> ('w, unit) prog" where
  "ls_entries os v fd p w =
     ubind (read_u os fd (ls_de v) 16) (\<lambda>n.
     if n \<noteq> 16 then uret ()
     else
       ubind (mem_u (\<lambda>m. ls_inum m v)) (\<lambda>inum.
       if inum = 0 then ls_entries os v fd p
       else
         ubind (set_mem (\<lambda>m. memmove_u m p (ls_de v + 2) (of_nat DIRSIZ))) (\<lambda>_.
         ubind (set_mem (\<lambda>m. m(p + of_nat DIRSIZ := 0))) (\<lambda>_.
         ubind (stat_u os (ls_buf v) (ls_st v)) (\<lambda>r.
         if r <s 0 then
           ubind (printf_u os (''ls: cannot stat %s'' @ nl) [ls_buf v]) (\<lambda>_.
           ls_entries os v fd p)
         else
           ubind (fmtname v (ls_buf v)) (\<lambda>name.
           ubind (mem_u (\<lambda>m. [name, scast (ls_type m v), ucast (ls_ino m v), ls_size m v])) (\<lambda>args.
           ubind (printf_u os (''%s %d %d %d'' @ nl) args) (\<lambda>_.
           ls_entries os v fd p)))))))) w"

definition ls :: "'w os \<Rightarrow> ls_vars \<Rightarrow> addr \<Rightarrow> ('w, unit) prog" where
  "ls os v path =
     ubind (open_u os path 0) (\<lambda>fd.
     if fd <s 0 then fprintf_u os 2 (''ls: cannot open %s'' @ nl) [path]
     else
       ubind (fstat_u os fd (ls_st v)) (\<lambda>r.
       if r <s 0 then
         ubind (fprintf_u os 2 (''ls: cannot stat %s'' @ nl) [path]) (\<lambda>_.
         ubind (syscall_u (os_close os fd)) (\<lambda>_. uret ()))
       else
         ubind (mem_u (\<lambda>m. ls_type m v)) (\<lambda>t.
         ubind
           (if t = T_FILE then
              ubind (fmtname v path) (\<lambda>name.
              ubind (mem_u (\<lambda>m. [name, scast (ls_type m v), ucast (ls_ino m v), ls_size m v])) (\<lambda>args.
              printf_u os (''%s %d %d %l'' @ nl) args))
            else if t = T_DIR then
              ubind (calc (\<lambda>m. strlen_u m path)) (\<lambda>len.
              if ucast len + 1 + 14 + 1 > (512 :: uint64) then printf_u os (''ls: path too long'' @ nl) []
              else
                ubind (calc_mem (\<lambda>m. strcpy m (ls_buf v) path)) (\<lambda>_.
                ubind (calc (\<lambda>m. strlen_u m (ls_buf v))) (\<lambda>len.
                let p = ls_buf v + ucast len in
                ubind (set_mem (\<lambda>m. m(p := of_char (CHR ''/'')))) (\<lambda>_.
                ls_entries os v fd (p + 1)))))
            else uret ()) (\<lambda>_.
         ubind (syscall_u (os_close os fd)) (\<lambda>_. uret ())))))"

definition ls_main :: "'w os \<Rightarrow> ls_vars \<Rightarrow> addr list \<Rightarrow> ('w, unit) prog" where
  "ls_main os v argv =
     (if length argv < 2 then ubind (ls os v (ls_dot v)) (\<lambda>_. exit_u 0)
      else ubind (ufor (tl argv) (ls os v)) (\<lambda>_. exit_u 0))"

section \<open>wc\<close>

type_synonym wc_count = "uint \<times> uint \<times> uint \<times> bool"

definition wc_byte :: "uchar \<Rightarrow> wc_count \<Rightarrow> wc_count" where
  "wc_byte b = (\<lambda>(l, w, c, inword).
     let c = c + 1; l = (if b = 10 then l + 1 else l) in
     if b \<in> {32, 13, 9, 10, 11} then (l, w, c, False)
     else if \<not> inword then (l, w + 1, c, True)
     else (l, w, c, inword))"

partial_function (option) wc_loop :: "'w os \<Rightarrow> addr \<Rightarrow> uint \<Rightarrow> wc_count \<Rightarrow> ('w, uint \<times> wc_count) prog" where
  "wc_loop os buf fd cnt w =
     ubind (read_u os fd buf 512) (\<lambda>n.
     if 0 <s n then
       ubind (mem_u (\<lambda>m. bytes_at m buf (unat n))) (\<lambda>bs.
       wc_loop os buf fd (fold wc_byte bs cnt))
     else uret (n, cnt)) w"

definition wc :: "'w os \<Rightarrow> addr \<Rightarrow> uint \<Rightarrow> addr \<Rightarrow> ('w, unit) prog" where
  "wc os buf fd name =
     ubind (wc_loop os buf fd (0, 0, 0, False)) (\<lambda>(n, (l, w, c, inword)).
     if n <s 0 then
       ubind (printf_u os (''wc: read error'' @ nl) []) (\<lambda>_. exit_u 1)
     else printf_u os (''%d %d %d %s'' @ nl) [ucast l, ucast w, ucast c, name])"

text \<open>\<open>nostr\<close> is the address of the literal \<open>""\<close>.\<close>

definition wc_main :: "'w os \<Rightarrow> addr \<Rightarrow> addr \<Rightarrow> addr list \<Rightarrow> ('w, unit) prog" where
  "wc_main os buf nostr argv =
     (if length argv \<le> 1 then ubind (wc os buf 0 nostr) (\<lambda>_. exit_u 0)
      else
        ubind (ufor (tl argv) (\<lambda>arg.
          ubind (open_u os arg 0) (\<lambda>fd.
          if fd <s 0 then
            ubind (printf_u os (''wc: cannot open %s'' @ nl) [arg]) (\<lambda>_. exit_u 1)
          else
            ubind (wc os buf fd arg) (\<lambda>_.
            ubind (syscall_u (os_close os fd)) (\<lambda>_.
            uret ()))))) (\<lambda>_.
        exit_u 0))"

end
