(* ===== verification/GrepProps.thy ===== *)
theory GrepProps
  imports Programs
begin

text \<open>
  \<open>match\<close> of \<open>user/grep.c\<close> decides the language of the pattern: a reference semantics of
  patterns as sets of strings, and the proof that the matcher ends and agrees with it.
\<close>

section \<open>Patterns\<close>

abbreviation star_char :: uchar where "star_char \<equiv> 42"
abbreviation dollar_char :: uchar where "dollar_char \<equiv> 36"
abbreviation dot_char :: uchar where "dot_char \<equiv> 46"
abbreviation caret_char :: uchar where "caret_char \<equiv> 94"

text \<open>
  The items of a pattern: a character (the dot stands for any), with a flag that holds when a
  star follows it; and whether the pattern ends with a dollar sign as an anchor.
\<close>

type_synonym item = "uchar \<times> bool"

fun items :: "uchar list \<Rightarrow> item list \<times> bool" where
  "items [] = ([], False)"
| "items [c] = (if c = dollar_char then ([], True) else ([(c, False)], False))"
| "items (c # d # r) =
     (if d = star_char then apfst (Cons (c, True)) (items r)
      else apfst (Cons (c, False)) (items (d # r)))"

definition accepts :: "uchar \<Rightarrow> uchar \<Rightarrow> bool" where
  "accepts i c \<longleftrightarrow> i = dot_char \<or> i = c"

fun lang :: "item list \<Rightarrow> uchar list set" where
  "lang [] = {[]}"
| "lang ((i, False) # is) = {c # u | c u. accepts i c \<and> u \<in> lang is}"
| "lang ((i, True) # is) = {v @ u | v u. (\<forall>c\<in>set v. accepts i c) \<and> u \<in> lang is}"

text \<open>The text has a part in the language, at its start if the pattern begins with a caret and
  at its end if it ends with the anchor.\<close>

definition here :: "uchar list \<Rightarrow> uchar list \<Rightarrow> bool" where
  "here r t \<longleftrightarrow> (\<exists>u b. t = u @ b \<and> u \<in> lang (fst (items r)) \<and> (snd (items r) \<longrightarrow> b = []))"

definition matches :: "uchar list \<Rightarrow> uchar list \<Rightarrow> bool" where
  "matches r t \<longleftrightarrow>
     (if r \<noteq> [] \<and> hd r = caret_char then here (tl r) t else (\<exists>a b. t = a @ b \<and> here r b))"

section \<open>Equations for the reference\<close>

lemma here_Nil [simp]: "here [] t"
  by (simp add: here_def)

lemma here_dollar [simp]: "here [dollar_char] t \<longleftrightarrow> t = []"
  by (simp add: here_def)

lemma here_plain:
  assumes "r = [] \<longrightarrow> c \<noteq> dollar_char" "r = [] \<or> hd r \<noteq> star_char"
  shows "here (c # r) t \<longleftrightarrow> (\<exists>d t'. t = d # t' \<and> accepts c d \<and> here r t')"
proof -
  have it: "items (c # r) = apfst (Cons (c, False)) (items r)" using assms by (cases r) auto
  show ?thesis
  proof
    assume "here (c # r) t"
    then obtain d u b where "t = (d # u) @ b" "accepts c d" "u \<in> lang (fst (items r))" "snd (items r) \<longrightarrow> b = []"
      unfolding here_def it fst_apfst snd_apfst lang.simps by blast
    then show "\<exists>d t'. t = d # t' \<and> accepts c d \<and> here r t'"
      unfolding here_def by (intro exI[of _ d] exI[of _ "u @ b"]) (simp, blast)
  next
    assume "\<exists>d t'. t = d # t' \<and> accepts c d \<and> here r t'"
    then obtain d u b where t: "t = d # u @ b" "accepts c d" "u \<in> lang (fst (items r))" "snd (items r) \<longrightarrow> b = []"
      unfolding here_def by blast
    then have "t = (d # u) @ b \<and> d # u \<in> lang ((c, False) # fst (items r)) \<and> (snd (items r) \<longrightarrow> b = [])" by simp
    then show "here (c # r) t" unfolding here_def it fst_apfst snd_apfst by blast
  qed
qed

lemma here_star:
  "here (c # star_char # r) t \<longleftrightarrow> (\<exists>v t'. t = v @ t' \<and> (\<forall>d\<in>set v. accepts c d) \<and> here r t')"
proof -
  have it: "items (c # star_char # r) = apfst (Cons (c, True)) (items r)" by simp
  show ?thesis
  proof
    assume "here (c # star_char # r) t"
    then obtain v u b where "t = (v @ u) @ b" "\<forall>d\<in>set v. accepts c d" "u \<in> lang (fst (items r))"
      "snd (items r) \<longrightarrow> b = []"
      unfolding here_def it fst_apfst snd_apfst lang.simps by blast
    then show "\<exists>v t'. t = v @ t' \<and> (\<forall>d\<in>set v. accepts c d) \<and> here r t'"
      unfolding here_def by (intro exI[of _ v] exI[of _ "u @ b"]) (simp, blast)
  next
    assume "\<exists>v t'. t = v @ t' \<and> (\<forall>d\<in>set v. accepts c d) \<and> here r t'"
    then obtain v u b where t: "t = v @ u @ b" "\<forall>d\<in>set v. accepts c d" "u \<in> lang (fst (items r))"
      "snd (items r) \<longrightarrow> b = []"
      unfolding here_def by blast
    then have "v @ u \<in> lang ((c, True) # fst (items r))" unfolding lang.simps by blast
    with t show "here (c # star_char # r) t" unfolding here_def it fst_apfst snd_apfst
      by (intro exI[of _ "v @ u"] exI[of _ b]) (simp only: append_assoc simp_thms)
  qed
qed

lemma here_star_step:
  "here (c # star_char # r) t \<longleftrightarrow>
     here r t \<or> (\<exists>d t'. t = d # t' \<and> accepts c d \<and> here (c # star_char # r) t')"
proof
  assume "here (c # star_char # r) t"
  then obtain v t' where v: "t = v @ t'" "\<forall>d\<in>set v. accepts c d" "here r t'" unfolding here_star by blast
  then show "here r t \<or> (\<exists>d t'. t = d # t' \<and> accepts c d \<and> here (c # star_char # r) t')"
    by (cases v) (auto simp: here_star)
next
  assume "here r t \<or> (\<exists>d t'. t = d # t' \<and> accepts c d \<and> here (c # star_char # r) t')"
  then show "here (c # star_char # r) t"
  proof
    assume "here r t"
    then show ?thesis unfolding here_star by (intro exI[of _ "[]"] exI[of _ t]) simp
  next
    assume "\<exists>d t'. t = d # t' \<and> accepts c d \<and> here (c # star_char # r) t'"
    then obtain d t' v u where "t = d # t'" "accepts c d" "t' = v @ u" "\<forall>d\<in>set v. accepts c d" "here r u"
      unfolding here_star by blast
    then show ?thesis unfolding here_star by (intro exI[of _ "d # v"] exI[of _ u]) simp
  qed
qed

section \<open>The matcher\<close>

lemma match_star:
  assumes "\<And>q t. str_at m q t \<Longrightarrow> match_at m None re q = Some (here r t)"
  shows "str_at m tx t \<Longrightarrow> match_at m (Some c) re tx = Some (here (c # star_char # r) t)"
proof (induction t arbitrary: tx)
  case Nil
  then show ?case using assms[of tx "[]"] here_star_step[of c r "[]"] by (simp add: match_at.simps[of m "Some c" re tx])
next
  case (Cons d t)
  then show ?case
    using assms[OF Cons.prems] here_star_step[of c r "d # t"] Cons.IH[of "tx + 1"]
    by (auto simp: match_at.simps[of m "Some c" re tx] accepts_def)
qed

lemma match_here:
  "str_at m re r \<Longrightarrow> str_at m tx t \<Longrightarrow> match_at m None re tx = Some (here r t)"
proof (induction r arbitrary: re tx t rule: items.induct)
  case 1
  then show ?case by (simp add: match_at.simps[of m None re tx])
next
  case (2 c)
  show ?case
  proof (cases "c = dollar_char")
    case True
    then show ?thesis using 2 by (cases t) (simp_all add: match_at.simps[of m None re tx])
  next
    case False
    have "match_at m None (re + 1) (tx + 1) = Some True" using 2(1) by (simp add: match_at.simps[of m None "re + 1" "tx + 1"])
    then show ?thesis using False 2 here_plain[of "[]" c t]
      by (cases t) (auto simp: match_at.simps[of m None re tx] accepts_def)
  qed
next
  case (3 c d r)
  have re: "m re = c" "c \<noteq> 0" "m (re + 1) = d" "d \<noteq> 0" "str_at m (re + 2) r" "str_at m (re + 1) (d # r)"
    using 3(3) by (simp_all add: add.assoc)
  show ?case
  proof (cases "d = star_char")
    case True
    have "match_at m None (re + 2) q = Some (here r u)" if "str_at m q u" for q u
      using 3(1)[OF True re(5) that] .
    from match_star[OF this 3(4), of c] show ?thesis using re True by (simp add: match_at.simps[of m None re tx])
  next
    case False
    have IH: "match_at m None (re + 1) (tx + 1) = Some (here (d # r) u)" if "str_at m (tx + 1) u" for u
      using 3(2)[OF False re(6) that] .
    show ?thesis using re False 3(4) IH here_plain[of "d # r" c t]
      by (cases t) (auto simp: match_at.simps[of m None re tx] accepts_def)
  qed
qed

lemma match_from_str:
  assumes "str_at m re r"
  shows "str_at m tx t \<Longrightarrow> match_from m re tx = Some (\<exists>a b. t = a @ b \<and> here r b)"
proof (induction t arbitrary: tx)
  case Nil
  then show ?case using match_here[OF assms Nil] by (simp add: match_from.simps[of m re tx] matchhere_def)
next
  case (Cons d t)
  have "(\<exists>a b. d # t = a @ b \<and> here r b) \<longleftrightarrow> here r (d # t) \<or> (\<exists>a b. t = a @ b \<and> here r b)"
    by (metis append_Cons append_Nil append_eq_Cons_conv list.inject)
  then show ?case using match_here[OF assms Cons.prems] Cons
    by (simp add: match_from.simps[of m re tx] matchhere_def)
qed

text \<open>
  C30. For a null-terminated pattern and a null-terminated text, \<open>match\<close> ends and decides
  whether a part of the text is in the language of the pattern: a character stands for itself, a
  dot for any character, a star after a character or dot for any number of repetitions, a caret in
  front ties the part to the start of the text and a dollar sign at the end to its end.
\<close>

theorem match_decides_language:
  assumes "str_at m re r" "str_at m tx t"
  shows "match m re tx = Some (matches r t)"
proof (cases "r \<noteq> [] \<and> hd r = caret_char")
  case True
  then obtain r' where r: "r = caret_char # r'" by (cases r) auto
  then have "match_at m None (re + 1) tx = Some (here r' t)" using match_here assms by simp
  then show ?thesis using r assms(1) by (simp add: match_def matches_def matchhere_def)
next
  case False
  then have "m re \<noteq> caret_char" using assms(1) by (cases r) auto
  then show ?thesis using match_from_str[OF assms] False by (simp only: match_def matches_def if_False) simp
qed

definition grep_mem :: memory where
  "grep_mem = poke (\<lambda>_. 0) 100 (lit ''a.*c$'' @ 0 # lit ''xabbc'' @ [0])"

theorem match_decides_language_witness:
  "str_at grep_mem 100 (lit ''a.*c$'') \<and> str_at grep_mem 106 (lit ''xabbc'') \<and>
   match grep_mem 100 106 = Some True"
proof -
  have s: "str_at grep_mem 100 (lit ''a.*c$'')" "str_at grep_mem 106 (lit ''xabbc'')"
    by (simp_all add: grep_mem_def lit_def poke_def)
  have "here (lit ''c$'') (lit ''c'')" by (simp add: lit_def here_def accepts_def)
  then have "here (lit ''.*c$'') (lit ''bbc'')"
    using here_star[of dot_char "lit ''c$''" "lit ''bbc''"] 
    by (simp add: lit_def) (rule exI[of _ "lit ''bb''"], simp add: lit_def accepts_def)
  then have "here (lit ''a.*c$'') (lit ''abbc'')"
    using here_plain[of "lit ''.*c$''" "of_char (CHR ''a'')" "lit ''abbc''"] by (simp add: lit_def accepts_def)
  then have "matches (lit ''a.*c$'') (lit ''xabbc'')"
    unfolding matches_def by (simp add: lit_def) (rule exI[of _ "lit ''x''"], simp add: lit_def)
  with match_decides_language[OF s] s show ?thesis by simp
qed

end
