(* ===== verification/Sh.thy ===== *)
theory Sh
  imports Ulib
begin

unbundle bit_operations_syntax

text \<open>
  The shell, \<open>user/sh.c\<close>. The command line lies in memory at the address \<open>line\<close>; the
  pointers of the parser into it are offsets from there. A node that the constructors take from
  \<open>malloc\<close> is a value of type \<open>cmd\<close>.
\<close>

definition MAXARGS :: nat where "MAXARGS = 10"

text \<open>
  The lists of \<open>EXEC\<close> hold \<open>argv\<close> and \<open>eargv\<close> up to the null pointer. \<open>REDIR\<close> has the
  fields \<open>cmd\<close>, \<open>file\<close>, \<open>efile\<close>, \<open>mode\<close> and \<open>fd\<close>.
\<close>

datatype cmd =
    EXEC "nat list" "nat list"
  | REDIR cmd nat nat uint uint
  | PIPE cmd cmd
  | LIST cmd cmd
  | BACK cmd

section \<open>Running commands\<close>

definition panic_u :: "'w os \<Rightarrow> string \<Rightarrow> ('w, 'a) prog" where
  "panic_u os s =
     ubind (ufor (lit s) (putc os 2)) (\<lambda>_.
     ubind (putc os 2 10) (\<lambda>_.
     exit_u 1))"

definition fork1 :: "'w os \<Rightarrow> ('w, uint) prog" where
  "fork1 os =
     ubind (syscall_u (os_fork os)) (\<lambda>pid.
     if pid = - 1 then panic_u os ''fork'' else uret pid)"

definition close_u :: "'w os \<Rightarrow> uint \<Rightarrow> ('w, unit) prog" where
  "close_u os fd = ubind (syscall_u (os_close os fd)) (\<lambda>_. uret ())"

fun strings_at :: "memory \<Rightarrow> addr list \<Rightarrow> uchar list list option" where
  "strings_at m [] = Some []"
| "strings_at m (p # ps) =
     Option.bind (string_at m p) (\<lambda>cs. Option.bind (strings_at m ps) (\<lambda>css. Some (cs # css)))"

fun runcmd :: "'w os \<Rightarrow> addr \<Rightarrow> cmd \<Rightarrow> ('w, unit) prog" where
  "runcmd os line (EXEC argv eargv) =
     (case argv of
        [] \<Rightarrow> exit_u 1
      | a # _ \<Rightarrow>
          ubind (calc (\<lambda>m. string_at m (line + of_nat a))) (\<lambda>path.
          ubind (calc (\<lambda>m. strings_at m (map (\<lambda>q. line + of_nat q) argv))) (\<lambda>args.
          ubind (exec_u os path args) (\<lambda>_.
          ubind (fprintf_u os 2 (''exec %s failed'' @ [CHR 0x0A]) [line + of_nat a]) (\<lambda>_.
          exit_u 0)))))"
| "runcmd os line (REDIR cmd file efile mode fd) =
     ubind (close_u os fd) (\<lambda>_.
     ubind (open_u os (line + of_nat file) mode) (\<lambda>r.
     if r <s 0 then
       ubind (fprintf_u os 2 (''open %s failed'' @ [CHR 0x0A]) [line + of_nat file]) (\<lambda>_. exit_u 1)
     else
       ubind (runcmd os line cmd) (\<lambda>_. exit_u 0)))"
| "runcmd os line (LIST left right) =
     ubind (fork1 os) (\<lambda>pid.
     ubind (if pid = 0 then runcmd os line left else uret ()) (\<lambda>_.
     ubind (syscall_u (os_wait os 0)) (\<lambda>_.
     ubind (runcmd os line right) (\<lambda>_.
     exit_u 0))))"
| "runcmd os line (PIPE left right) =
     ubind (syscall_u (os_pipe os)) (\<lambda>(r, p0, p1).
     ubind (if r <s 0 then panic_u os ''pipe'' else uret ()) (\<lambda>_.
     ubind (fork1 os) (\<lambda>pid.
     ubind (if pid = 0 then
              ubind (close_u os 1) (\<lambda>_.
              ubind (syscall_u (os_dup os p1)) (\<lambda>_.
              ubind (close_u os p0) (\<lambda>_.
              ubind (close_u os p1) (\<lambda>_.
              runcmd os line left))))
            else uret ()) (\<lambda>_.
     ubind (fork1 os) (\<lambda>pid.
     ubind (if pid = 0 then
              ubind (close_u os 0) (\<lambda>_.
              ubind (syscall_u (os_dup os p0)) (\<lambda>_.
              ubind (close_u os p0) (\<lambda>_.
              ubind (close_u os p1) (\<lambda>_.
              runcmd os line right))))
            else uret ()) (\<lambda>_.
     ubind (close_u os p0) (\<lambda>_.
     ubind (close_u os p1) (\<lambda>_.
     ubind (syscall_u (os_wait os 0)) (\<lambda>_.
     ubind (syscall_u (os_wait os 0)) (\<lambda>_.
     exit_u 0))))))))))"
| "runcmd os line (BACK cmd) =
     ubind (fork1 os) (\<lambda>pid.
     ubind (if pid = 0 then runcmd os line cmd else uret ()) (\<lambda>_.
     exit_u 0))"

section \<open>Tokens\<close>

definition whitespace :: "uchar list" where "whitespace = [32, 9, 13, 10, 11]"
definition symbols :: "uchar list" where "symbols = lit ''<|>&;()''"

text \<open>\<open>while(s < es && strchr(whitespace, *s)) s++\<close>\<close>

function skip_ws :: "cstr \<Rightarrow> nat \<Rightarrow> nat \<Rightarrow> nat" where
  "skip_ws b es s = (if s < es \<and> b s \<in> set whitespace then skip_ws b es (s + 1) else s)"
  by pat_completeness auto

termination skip_ws
  by (relation "measure (\<lambda>(b, es, s). es - s)") auto

function skip_word :: "cstr \<Rightarrow> nat \<Rightarrow> nat \<Rightarrow> nat" where
  "skip_word b es s =
     (if s < es \<and> b s \<notin> set whitespace \<and> b s \<notin> set symbols then skip_word b es (s + 1) else s)"
  by pat_completeness auto

termination skip_word
  by (relation "measure (\<lambda>(b, es, s). es - s)") auto

declare skip_ws.simps [simp del] skip_word.simps [simp del]

text \<open>The result is the token, its start and its end, and the new value of \<open>*ps\<close>.\<close>

definition gettoken :: "cstr \<Rightarrow> nat \<Rightarrow> nat \<Rightarrow> uchar \<times> nat \<times> nat \<times> nat" where
  "gettoken b es s =
     (let q = skip_ws b es s;
          (tok, eq) =
            (if b q = 0 then (0, q)
             else if b q \<in> set (lit ''|();&<'') then (b q, q + 1)
             else if b q = of_char (CHR ''>'') then
               (if b (q + 1) = of_char (CHR ''>'') then (of_char (CHR ''+''), q + 2) else (b q, q + 1))
             else (of_char (CHR ''a''), skip_word b es q))
      in (tok, q, eq, skip_ws b es eq))"

definition peek_u :: "cstr \<Rightarrow> nat \<Rightarrow> nat \<Rightarrow> string \<Rightarrow> bool \<times> nat" where
  "peek_u b es s toks =
     (let s' = skip_ws b es s in (b s' \<noteq> 0 \<and> b s' \<in> set (lit toks), s'))"

section \<open>Parsing\<close>

text \<open>
  A parsing routine gives a command and the new value of \<open>*ps\<close>, or panics. Every call of the
  routines and every round of their loops takes one unit of fuel.
\<close>

datatype 'a parsed = POk 'a nat | PPanic string | PFuel

primrec pbind :: "'a parsed \<Rightarrow> ('a \<Rightarrow> nat \<Rightarrow> 'b parsed) \<Rightarrow> 'b parsed" where
  "pbind (POk a s) f = f a s"
| "pbind (PPanic e) f = PPanic e"
| "pbind PFuel f = PFuel"

fun parseredirs :: "nat \<Rightarrow> cstr \<Rightarrow> nat \<Rightarrow> cmd \<Rightarrow> nat \<Rightarrow> cmd parsed" where
  "parseredirs 0 b es cmd s = PFuel"
| "parseredirs (Suc n) b es cmd s =
     (case peek_u b es s ''<>'' of
        (False, s) \<Rightarrow> POk cmd s
      | (True, s) \<Rightarrow>
          (case gettoken b es s of (tok, _, _, s) \<Rightarrow>
           case gettoken b es s of (t, q, eq, s) \<Rightarrow>
           if t \<noteq> of_char (CHR ''a'') then PPanic ''missing file for redirection''
           else if tok = of_char (CHR ''<'') then
             parseredirs n b es (REDIR cmd q eq O_RDONLY 0) s
           else if tok = of_char (CHR ''>'') then
             parseredirs n b es (REDIR cmd q eq (O_WRONLY OR O_CREATE OR O_TRUNC) 1) s
           else if tok = of_char (CHR ''+'') then
             parseredirs n b es (REDIR cmd q eq (O_WRONLY OR O_CREATE) 1) s
           else parseredirs n b es cmd s))"

text \<open>\<open>parseexec\<close> changes the node that \<open>parseredirs\<close> has put inside others.\<close>

fun add_arg :: "nat \<Rightarrow> nat \<Rightarrow> cmd \<Rightarrow> cmd" where
  "add_arg q eq (EXEC argv eargv) = EXEC (argv @ [q]) (eargv @ [eq])"
| "add_arg q eq (REDIR cmd file efile mode fd) = REDIR (add_arg q eq cmd) file efile mode fd"
| "add_arg q eq cmd = cmd"

fun parseargs :: "nat \<Rightarrow> cstr \<Rightarrow> nat \<Rightarrow> nat \<Rightarrow> cmd \<Rightarrow> nat \<Rightarrow> cmd parsed" where
  "parseargs 0 b es argc node s = PFuel"
| "parseargs (Suc n) b es argc node s =
     (case peek_u b es s ''|)&;'' of
        (True, s) \<Rightarrow> POk node s
      | (False, s) \<Rightarrow>
          (case gettoken b es s of (tok, q, eq, s) \<Rightarrow>
           if tok = 0 then POk node s
           else if tok \<noteq> of_char (CHR ''a'') then PPanic ''syntax''
           else if argc + 1 \<ge> MAXARGS then PPanic ''too many args''
           else
             pbind (parseredirs n b es (add_arg q eq node) s) (\<lambda>node s.
             parseargs n b es (argc + 1) node s)))"

fun parsebacks :: "nat \<Rightarrow> cstr \<Rightarrow> nat \<Rightarrow> cmd \<Rightarrow> nat \<Rightarrow> cmd parsed" where
  "parsebacks 0 b es cmd s = PFuel"
| "parsebacks (Suc n) b es cmd s =
     (case peek_u b es s ''&'' of
        (False, s) \<Rightarrow> POk cmd s
      | (True, s) \<Rightarrow>
          (case gettoken b es s of (_, _, _, s) \<Rightarrow> parsebacks n b es (BACK cmd) s))"

fun parseline :: "nat \<Rightarrow> cstr \<Rightarrow> nat \<Rightarrow> nat \<Rightarrow> cmd parsed"
  and parsepipe :: "nat \<Rightarrow> cstr \<Rightarrow> nat \<Rightarrow> nat \<Rightarrow> cmd parsed"
  and parseexec :: "nat \<Rightarrow> cstr \<Rightarrow> nat \<Rightarrow> nat \<Rightarrow> cmd parsed"
  and parseblock :: "nat \<Rightarrow> cstr \<Rightarrow> nat \<Rightarrow> nat \<Rightarrow> cmd parsed" where
  "parseline 0 b es s = PFuel"
| "parseline (Suc n) b es s =
     pbind (parsepipe n b es s) (\<lambda>cmd s.
     pbind (parsebacks n b es cmd s) (\<lambda>cmd s.
     case peek_u b es s '';'' of
       (False, s) \<Rightarrow> POk cmd s
     | (True, s) \<Rightarrow>
         (case gettoken b es s of (_, _, _, s) \<Rightarrow>
          pbind (parseline n b es s) (\<lambda>cmd2 s. POk (LIST cmd cmd2) s))))"
| "parsepipe 0 b es s = PFuel"
| "parsepipe (Suc n) b es s =
     pbind (parseexec n b es s) (\<lambda>cmd s.
     case peek_u b es s ''|'' of
       (False, s) \<Rightarrow> POk cmd s
     | (True, s) \<Rightarrow>
         (case gettoken b es s of (_, _, _, s) \<Rightarrow>
          pbind (parsepipe n b es s) (\<lambda>cmd2 s. POk (PIPE cmd cmd2) s)))"
| "parseexec 0 b es s = PFuel"
| "parseexec (Suc n) b es s =
     (case peek_u b es s ''('' of
        (True, s) \<Rightarrow> parseblock n b es s
      | (False, s) \<Rightarrow>
          pbind (parseredirs n b es (EXEC [] []) s) (\<lambda>node s.
          parseargs n b es 0 node s))"
| "parseblock 0 b es s = PFuel"
| "parseblock (Suc n) b es s =
     (case peek_u b es s ''('' of
        (False, s) \<Rightarrow> PPanic ''parseblock''
      | (True, s) \<Rightarrow>
          (case gettoken b es s of (_, _, _, s) \<Rightarrow>
           pbind (parseline n b es s) (\<lambda>cmd s.
           case peek_u b es s '')'' of
             (False, s) \<Rightarrow> PPanic ''syntax - missing )''
           | (True, s) \<Rightarrow>
               (case gettoken b es s of (_, _, _, s) \<Rightarrow>
                parseredirs n b es cmd s))))"

fun nulterminate :: "addr \<Rightarrow> cmd \<Rightarrow> memory \<Rightarrow> memory" where
  "nulterminate line (EXEC argv eargv) m = fold (\<lambda>e m. m(line + of_nat e := 0)) eargv m"
| "nulterminate line (REDIR cmd file efile mode fd) m =
     (nulterminate line cmd m)(line + of_nat efile := 0)"
| "nulterminate line (PIPE left right) m = nulterminate line right (nulterminate line left m)"
| "nulterminate line (LIST left right) m = nulterminate line right (nulterminate line left m)"
| "nulterminate line (BACK cmd) m = nulterminate line cmd m"

text \<open>The fuel is enough for every line, as \<open>parse_fuel_enough\<close> below shows.\<close>

definition parse_fuel :: "nat \<Rightarrow> nat" where
  "parse_fuel len = 4 * len + 5"

definition parsecmd :: "'w os \<Rightarrow> addr \<Rightarrow> ('w, cmd) prog" where
  "parsecmd os line =
     ubind (calc (\<lambda>m. strlen_u m line)) (\<lambda>len.
     ubind (mem_u (\<lambda>m. (\<lambda>i. m (line + of_nat i)) :: cstr)) (\<lambda>b.
     let es = unat len in
     case parseline (parse_fuel es) b es 0 of
       PFuel \<Rightarrow> (\<lambda>_. None)
     | PPanic e \<Rightarrow> panic_u os e
     | POk cmd s \<Rightarrow>
         let s = snd (peek_u b es s '''') in
         if s \<noteq> es then
           ubind (fprintf_u os 2 (''leftovers: %s'' @ [CHR 0x0A]) [line + of_nat s]) (\<lambda>_.
           panic_u os ''syntax'')
         else
           ubind (set_mem (nulterminate line cmd)) (\<lambda>_.
           uret cmd)))"

section \<open>The main loop\<close>

definition getcmd :: "'w os \<Rightarrow> addr \<Rightarrow> uint \<Rightarrow> ('w, uint) prog" where
  "getcmd os buf nbuf =
     ubind (fprintf_u os 2 ''$ '' []) (\<lambda>_.
     ubind (set_mem (\<lambda>m. memset_u m buf 0 nbuf)) (\<lambda>_.
     ubind (gets os buf (sint nbuf)) (\<lambda>_.
     ubind (mem_u (\<lambda>m. m buf)) (\<lambda>c.
     uret (if c = 0 then - 1 else 0)))))"

partial_function (option) sh_open3 :: "'w os \<Rightarrow> ('w, unit) prog" where
  "sh_open3 os w =
     ubind (syscall_u (os_open os (lit ''console'') O_RDWR)) (\<lambda>fd.
     if fd <s 0 then uret ()
     else if 3 \<le>s fd then close_u os fd
     else sh_open3 os) w"

partial_function (option) sh_loop :: "'w os \<Rightarrow> addr \<Rightarrow> ('w, unit) prog" where
  "sh_loop os buf w =
     ubind (getcmd os buf 100) (\<lambda>r.
     if r <s 0 then uret ()
     else
       ubind (mem_u (\<lambda>m. bytes_at m buf 3)) (\<lambda>bs.
       if bs = lit ''cd '' then
         ubind (calc (\<lambda>m. strlen_u m buf)) (\<lambda>len.
         ubind (set_mem (\<lambda>m. m(buf + ucast (len - 1) := 0))) (\<lambda>_.
         ubind (calc (\<lambda>m. string_at m (buf + 3))) (\<lambda>dir.
         ubind (syscall_u (os_chdir os dir)) (\<lambda>r.
         ubind (if r <s 0 then fprintf_u os 2 (''cannot cd %s'' @ [CHR 0x0A]) [buf + 3] else uret ()) (\<lambda>_.
         sh_loop os buf)))))
       else
         ubind (fork1 os) (\<lambda>pid.
         ubind (if pid = 0 then ubind (parsecmd os buf) (runcmd os buf) else uret ()) (\<lambda>_.
         ubind (syscall_u (os_wait os 0)) (\<lambda>_.
         sh_loop os buf))))) w"

definition sh_main :: "'w os \<Rightarrow> addr \<Rightarrow> ('w, unit) prog" where
  "sh_main os buf =
     ubind (sh_open3 os) (\<lambda>_.
     ubind (sh_loop os buf) (\<lambda>_.
     exit_u 0))"

end
