(* ===== verification/ShProps.thy ===== *)
theory ShProps
  imports Sh
begin

text \<open>
  The parser of the shell: it ends on every line, and it gives back the command that a line
  was printed from.
\<close>

section \<open>Tokens\<close>

lemma skip_ws_stop: "\<not> (s < es \<and> b s \<in> set whitespace) \<Longrightarrow> skip_ws b es s = s"
  by (subst skip_ws.simps) auto

lemma skip_ws_step: "s < es \<Longrightarrow> b s \<in> set whitespace \<Longrightarrow> skip_ws b es s = skip_ws b es (s + 1)"
  by (subst skip_ws.simps) simp

lemma skip_word_stop: "\<not> (s < es \<and> b s \<notin> set whitespace \<and> b s \<notin> set symbols) \<Longrightarrow> skip_word b es s = s"
  by (subst skip_word.simps) auto

lemma skip_word_step:
  "s < es \<Longrightarrow> b s \<notin> set whitespace \<Longrightarrow> b s \<notin> set symbols \<Longrightarrow> skip_word b es s = skip_word b es (s + 1)"
  by (subst skip_word.simps) simp

lemma skip_ws_ge: "s \<le> skip_ws b es s"
proof (induction b es s rule: skip_ws.induct)
  case (1 b es s)
  then show ?case by (cases "s < es \<and> b s \<in> set whitespace") (simp_all add: skip_ws_step skip_ws_stop)
qed

lemma skip_ws_le: "s \<le> es \<Longrightarrow> skip_ws b es s \<le> es"
proof (induction b es s rule: skip_ws.induct)
  case (1 b es s)
  then show ?case by (cases "s < es \<and> b s \<in> set whitespace") (simp_all add: skip_ws_step skip_ws_stop)
qed

lemma skip_ws_end: "skip_ws b es s < es \<Longrightarrow> b (skip_ws b es s) \<notin> set whitespace"
proof (induction b es s rule: skip_ws.induct)
  case (1 b es s)
  then show ?case by (cases "s < es \<and> b s \<in> set whitespace") (auto simp: skip_ws_step skip_ws_stop)
qed

lemma skip_ws_idem [simp]: "skip_ws b es (skip_ws b es s) = skip_ws b es s"
  using skip_ws_end[of b es s] by (intro skip_ws_stop) blast

lemma skip_word_ge: "s \<le> skip_word b es s"
proof (induction b es s rule: skip_word.induct)
  case (1 b es s)
  then show ?case
    by (cases "s < es \<and> b s \<notin> set whitespace \<and> b s \<notin> set symbols") (simp_all add: skip_word_step skip_word_stop)
qed

lemma skip_word_le: "s \<le> es \<Longrightarrow> skip_word b es s \<le> es"
proof (induction b es s rule: skip_word.induct)
  case (1 b es s)
  then show ?case
    by (cases "s < es \<and> b s \<notin> set whitespace \<and> b s \<notin> set symbols") (simp_all add: skip_word_step skip_word_stop)
qed

definition wordchar :: "uchar \<Rightarrow> bool" where
  "wordchar c \<longleftrightarrow> c \<noteq> 0 \<and> c \<notin> set whitespace \<and> c \<notin> set symbols"

lemma skip_word_gt: "s < es \<Longrightarrow> wordchar (b s) \<Longrightarrow> s < skip_word b es s"
  using skip_word_ge[of "s + 1" b es] by (simp add: skip_word_step wordchar_def)

text \<open>The line ends with a null byte at \<open>es\<close>.\<close>

lemma cstr_len_end: "cstr_len b es \<Longrightarrow> b es = 0"
  by (simp add: cstr_len_def)

lemma gettoken_bounds:
  assumes "cstr_len b es" "s \<le> es" "gettoken b es s = (tok, q, eq, s')"
  shows "s \<le> q" "q \<le> eq" "eq \<le> s'" "s' \<le> es" "tok \<noteq> 0 \<longrightarrow> q < eq"
proof -
  have q: "q = skip_ws b es s" and s': "s' = skip_ws b es eq"
    using assms(3) by (auto simp: gettoken_def Let_def split: prod.splits)
  have sq: "s \<le> q" "q \<le> es" using skip_ws_ge skip_ws_le assms(2) unfolding q by blast+
  have "q \<le> eq \<and> eq \<le> es \<and> (tok \<noteq> 0 \<longrightarrow> q < eq)"
  proof (cases "q < es")
    case False
    then have "b q = 0" using sq cstr_len_end[OF assms(1)] by simp
    then show ?thesis using assms(3) sq unfolding gettoken_def q[symmetric] by (simp add: Let_def)
  next
    case True
    have ws: "b q \<notin> set whitespace" using skip_ws_end[of b es s] True unfolding q by simp
    have gt: "b (q + 1) = 62 \<Longrightarrow> q + 2 \<le> es" using True cstr_len_end[OF assms(1)] by (cases "q + 1 = es") auto
    have word: "b q \<noteq> 0 \<Longrightarrow> b q \<notin> set (lit ''|();&<'') \<Longrightarrow> b q \<noteq> 62 \<Longrightarrow> q < skip_word b es q"
      using ws by (intro skip_word_gt[OF True]) (auto simp: wordchar_def symbols_def lit_def)
    have "skip_word b es q \<le> es" "q \<le> skip_word b es q" using skip_word_le skip_word_ge True less_imp_le by blast+
    then show ?thesis using assms(3) True gt word unfolding gettoken_def q[symmetric]
      by (auto simp: Let_def split: if_splits)
  qed
  then show "s \<le> q" "q \<le> eq" "eq \<le> s'" "s' \<le> es" "tok \<noteq> 0 \<longrightarrow> q < eq"
    using sq skip_ws_ge skip_ws_le unfolding s' by auto
qed

lemma peek_bounds:
  assumes "cstr_len b es" "s \<le> es" "peek_u b es s toks = (r, s')"
  shows "s \<le> s'" "s' \<le> es" "r \<Longrightarrow> s' < es"
    and "r \<Longrightarrow> gettoken b es s' = (tok, q, eq, s'') \<Longrightarrow> tok \<noteq> 0"
proof -
  have s': "s' = skip_ws b es s" "r \<longleftrightarrow> b s' \<noteq> 0 \<and> b s' \<in> set (lit toks)"
    using assms(3) by (auto simp: peek_u_def Let_def)
  then show le: "s \<le> s'" "s' \<le> es" using skip_ws_ge skip_ws_le assms(2) by blast+
  show "r \<Longrightarrow> s' < es" using le s' cstr_len_end[OF assms(1)] by (cases "s' = es") auto
  show "r \<Longrightarrow> gettoken b es s' = (tok, q, eq, s'') \<Longrightarrow> tok \<noteq> 0"
    using s' by (auto simp: gettoken_def Let_def lit_def split: if_splits)
qed

section \<open>The parser ends\<close>

definition parse_errors :: "string set" where
  "parse_errors = {''missing file for redirection'', ''syntax'', ''too many args'', ''syntax - missing )''}"

text \<open>A command and a place further on in the line, or one of the errors.\<close>

definition fine :: "nat \<Rightarrow> nat \<Rightarrow> 'a parsed \<Rightarrow> bool" where
  "fine es s r \<longleftrightarrow>
     (case r of POk c s' \<Rightarrow> s \<le> s' \<and> s' \<le> es | PPanic e \<Rightarrow> e \<in> parse_errors | PFuel \<Rightarrow> False)"

lemma fine_simps [simp]:
  "fine es s (POk c s') \<longleftrightarrow> s \<le> s' \<and> s' \<le> es" "fine es s (PPanic e) \<longleftrightarrow> e \<in> parse_errors" "\<not> fine es s PFuel"
  by (simp_all add: fine_def)

lemma parse_errors_simps [simp]:
  "''missing file for redirection'' \<in> parse_errors" "''syntax'' \<in> parse_errors"
  "''too many args'' \<in> parse_errors" "''syntax - missing )'' \<in> parse_errors"
  by (simp_all add: parse_errors_def)

lemma fine_mono: "fine es s r \<Longrightarrow> s0 \<le> s \<Longrightarrow> fine es s0 r"
  by (cases r) simp_all

lemma fine_pbind:
  assumes "fine es s m" "\<And>c s'. s \<le> s' \<Longrightarrow> s' \<le> es \<Longrightarrow> fine es s' (f c s')"
  shows "fine es s (pbind m f)"
  using assms(1) fine_mono[OF assms(2)] by (cases m) simp_all

lemma fine_redirs:
  assumes "cstr_len b es"
  shows "s \<le> es \<Longrightarrow> es - s < n \<Longrightarrow> fine es s (parseredirs n b es cmd s)"
proof (induction n arbitrary: cmd s)
  case (Suc n)
  obtain r s1 where pk: "peek_u b es s ''<>'' = (r, s1)" by (cases "peek_u b es s ''<>''")
  note p = peek_bounds[OF assms Suc(2) pk]
  obtain tok q1 e1 s2 where g1: "gettoken b es s1 = (tok, q1, e1, s2)" by (cases "gettoken b es s1")
  note g1b = gettoken_bounds[OF assms p(2) g1]
  obtain t q e s3 where g2: "gettoken b es s2 = (t, q, e, s3)" by (cases "gettoken b es s2")
  note g2b = gettoken_bounds[OF assms g1b(4) g2]
  have "s \<le> s3" "s3 \<le> es" "r \<Longrightarrow> s < s3" using p(1) p(4)[OF _ g1] g1b g2b by auto
  then have "r \<Longrightarrow> fine es s (parseredirs n b es c s3)" for c
    using Suc(3) fine_mono[OF Suc(1)[of s3 c], of s] by simp
  then show ?case using pk g1 g2 p by (cases r) simp_all
qed simp

lemma fine_args:
  assumes "cstr_len b es"
  shows "s \<le> es \<Longrightarrow> es - s < n \<Longrightarrow> fine es s (parseargs n b es argc cmd s)"
proof (induction n arbitrary: argc cmd s)
  case (Suc n)
  obtain r s1 where pk: "peek_u b es s ''|)&;'' = (r, s1)" by (cases "peek_u b es s ''|)&;''")
  note p = peek_bounds[OF assms Suc(2) pk]
  obtain tok q e s2 where g: "gettoken b es s1 = (tok, q, e, s2)" by (cases "gettoken b es s1")
  note gb = gettoken_bounds[OF assms p(2) g]
  have le: "s \<le> s2" "s2 \<le> es" "tok \<noteq> 0 \<Longrightarrow> s < s2" using p(1) gb by auto
  have "fine es s (pbind (parseredirs n b es (add_arg q e cmd) s2) (\<lambda>node s. parseargs n b es (argc + 1) node s))"
    if "tok \<noteq> 0"
  proof -
    have "es - s2 < n" using le that Suc(3) by linarith
    then show ?thesis using le by (intro fine_mono[OF fine_pbind, of es s2] fine_redirs[OF assms] Suc(1)) simp_all
  qed
  then show ?case using pk g p le by (cases r) simp_all
qed simp

lemma fine_backs:
  assumes "cstr_len b es"
  shows "s \<le> es \<Longrightarrow> es - s < n \<Longrightarrow> fine es s (parsebacks n b es cmd s)"
proof (induction n arbitrary: cmd s)
  case (Suc n)
  obtain r s1 where pk: "peek_u b es s ''&'' = (r, s1)" by (cases "peek_u b es s ''&''")
  note p = peek_bounds[OF assms Suc(2) pk]
  obtain tok q e s2 where g: "gettoken b es s1 = (tok, q, e, s2)" by (cases "gettoken b es s1")
  note gb = gettoken_bounds[OF assms p(2) g]
  have le: "s \<le> s2" "s2 \<le> es" "r \<Longrightarrow> s < s2" using p(1) p(4)[OF _ g] gb by auto
  then have "r \<Longrightarrow> fine es s (parsebacks n b es c s2)" for c
    using Suc(3) fine_mono[OF Suc(1)[of s2 c], of s] by simp
  then show ?case using pk g p by (cases r) simp_all
qed simp

text \<open>The token that a successful \<open>peek\<close> has seen is consumed by the \<open>gettoken\<close> after it.\<close>

lemma peek_gettoken:
  assumes "cstr_len b es" "s \<le> es" "peek_u b es s toks = (r, s1)" "gettoken b es s1 = (tok, q, e, s2)" r
  shows "s < s2" "s2 \<le> es"
  using peek_bounds[OF assms(1-3)] gettoken_bounds[OF assms(1) _ assms(4)] assms(4,5) by fastforce+

lemma fine_next:
  assumes "cstr_len b es" "s \<le> es"
    and no: "\<And>s1. s \<le> s1 \<Longrightarrow> s1 \<le> es \<Longrightarrow> fine es s (f s1)"
    and yes: "\<And>s2. s < s2 \<Longrightarrow> s2 \<le> es \<Longrightarrow> fine es s2 (g s2)"
  shows "fine es s (case peek_u b es s toks of (False, s) \<Rightarrow> f s
      | (True, s) \<Rightarrow> (case gettoken b es s of (_, _, _, s) \<Rightarrow> g s))"
proof (cases "peek_u b es s toks")
  case (Pair r s1)
  obtain tok q e s2 where gt: "gettoken b es s1 = (tok, q, e, s2)" by (cases "gettoken b es s1")
  show ?thesis
  proof (cases r)
    case True
    note s2 = peek_gettoken[OF assms(1,2) Pair gt True]
    then show ?thesis using Pair gt True fine_mono[OF yes[OF s2], of s] by simp
  next
    case False
    then show ?thesis using Pair no peek_bounds[OF assms(1,2) Pair] by simp
  qed
qed

lemma fine_POk: "fine es s m \<Longrightarrow> fine es s (pbind m (\<lambda>c s. POk (f c) s))"
  by (rule fine_pbind) simp_all

lemma fine_parse:
  assumes "cstr_len b es"
  shows "s \<le> es \<Longrightarrow> 4 * (es - s) + 5 \<le> n \<Longrightarrow> fine es s (parseline n b es s)"
    and "s \<le> es \<Longrightarrow> 4 * (es - s) + 4 \<le> n \<Longrightarrow> fine es s (parsepipe n b es s)"
    and "s \<le> es \<Longrightarrow> 4 * (es - s) + 3 \<le> n \<Longrightarrow> fine es s (parseexec n b es s)"
    and "s \<le> es \<Longrightarrow> 4 * (es - s) + 2 \<le> n \<Longrightarrow> fst (peek_u b es s ''('') \<Longrightarrow> fine es s (parseblock n b es s)"
proof (induction n arbitrary: s)
  case (Suc n)
  {
    case 1
    then show ?case unfolding parseline.simps
      by (intro fine_pbind fine_next[OF assms] fine_POk fine_backs[OF assms] Suc.IH(1,2)) simp_all
  next
    case 2
    then show ?case unfolding parsepipe.simps
      by (intro fine_pbind fine_next[OF assms] fine_POk Suc.IH(2,3)) simp_all
  next
    case 3
    show ?case
    proof (cases "peek_u b es s ''(''")
      case (Pair r s1)
      note p = peek_bounds[OF assms 3(1) Pair]
      have "fine es s1 (pbind (parseredirs n b es (EXEC [] []) s1) (\<lambda>node s. parseargs n b es 0 node s))"
        using p(1,2) 3 by (intro fine_pbind fine_redirs[OF assms] fine_args[OF assms]) simp_all
      moreover have "fine es s1 (parseblock n b es s1)" if r
        using p(1,2) 3 Pair that by (intro Suc.IH(4)) (auto simp: peek_u_def Let_def)
      ultimately show ?thesis using Pair p(1) fine_mono[of es s1 _ s] by (cases r) simp_all
    qed
  next
    case 4
    obtain s1 where pk: "peek_u b es s ''('' = (True, s1)" using 4(3) by (cases "peek_u b es s ''(''") simp
    obtain tok q e s2 where g: "gettoken b es s1 = (tok, q, e, s2)" by (cases "gettoken b es s1")
    note s2 = peek_gettoken[OF assms 4(1) pk g TrueI]
    have "fine es s2 (pbind (parseline n b es s2) (\<lambda>cmd s.
        case peek_u b es s '')'' of (False, s) \<Rightarrow> PPanic ''syntax - missing )''
        | (True, s) \<Rightarrow> (case gettoken b es s of (_, _, _, s) \<Rightarrow> parseredirs n b es cmd s)))"
      using s2 4 by (intro fine_next[OF assms] fine_pbind Suc.IH(1) fine_redirs[OF assms]) simp_all
    then show ?case using pk g s2 fine_mono[of es s2 _ s] by simp
  }
qed simp_all

text \<open>
  C31. The parser of the shell ends on every line: with fuel of four times the length of the
  line and five, or more, \<open>parseline\<close> gives a command and a place within the line, or panics
  with one of the four messages for syntax errors; the message \<open>parseblock\<close> is never reached.
  As a round of a loop or a call takes one unit of fuel, the recursion is no deeper than that.
\<close>

theorem parseline_ends:
  assumes "cstr_len b es" "parse_fuel es \<le> n"
  shows "case parseline n b es 0 of
      POk c s \<Rightarrow> s \<le> es
    | PPanic e \<Rightarrow> e \<in> {''missing file for redirection'', ''syntax'', ''too many args'', ''syntax - missing )''}
    | PFuel \<Rightarrow> False"
  using fine_parse(1)[OF assms(1), of 0 n] assms(2)
  by (cases "parseline n b es 0") (simp_all add: parse_fuel_def parse_errors_def)

text \<open>The line \<open>((((((((\<close>, which has no command.\<close>

definition parens :: cstr where
  "parens = (\<lambda>i. if i < 8 then 40 else 0)"

theorem parseline_ends_witness:
  "cstr_len parens 8 \<and> parseline (parse_fuel 8) parens 8 0 \<noteq> PFuel"
proof -
  have "cstr_len parens 8" by (simp add: cstr_len_def parens_def)
  then show ?thesis using parseline_ends[of parens 8 "parse_fuel 8"] by auto
qed

end
