(* ===== verification/ShRound.thy ===== *)
theory ShRound
  imports ShProps UlibProps
begin

text \<open>Command lines as trees, their text, and the proof that the shell parses the text back.\<close>

section \<open>Command lines and their meaning\<close>

datatype redir = RIn "uchar list" | ROut "uchar list" | RApp "uchar list"

text \<open>
  A line is a pipeline with a number of ampersands, or this, a semicolon and a line; a
  pipeline is made of simple commands and of lines in parentheses; a simple command has
  redirections, then words that are each followed by redirections.
\<close>

datatype sline = LEnd spipe nat | LSeq spipe nat sline
and spipe = PEnd sexec | PBar sexec spipe
and sexec = Simple "redir list" "(uchar list \<times> redir list) list" | Block sline "redir list"

text \<open>What the shell runs, with its strings.\<close>

datatype tree =
    TExec "uchar list list"
  | TRedir tree "uchar list" uint uint
  | TPipe tree tree
  | TList tree tree
  | TBack tree

unbundle bit_operations_syntax

fun redir_tree :: "tree \<Rightarrow> redir \<Rightarrow> tree" where
  "redir_tree t (RIn w) = TRedir t w O_RDONLY 0"
| "redir_tree t (ROut w) = TRedir t w (O_WRONLY OR O_CREATE OR O_TRUNC) 1"
| "redir_tree t (RApp w) = TRedir t w (O_WRONLY OR O_CREATE) 1"

fun denote :: "sline \<Rightarrow> tree" and denote_pipe :: "spipe \<Rightarrow> tree" and denote_exec :: "sexec \<Rightarrow> tree" where
  "denote (LEnd p k) = (TBack ^^ k) (denote_pipe p)"
| "denote (LSeq p k l) = TList ((TBack ^^ k) (denote_pipe p)) (denote l)"
| "denote_pipe (PEnd x) = denote_exec x"
| "denote_pipe (PBar x p) = TPipe (denote_exec x) (denote_pipe p)"
| "denote_exec (Simple rs args) = foldl redir_tree (TExec (map fst args)) (rs @ concat (map snd args))"
| "denote_exec (Block l rs) = foldl redir_tree (denote l) rs"

section \<open>Their text\<close>

datatype tok = TSym uchar | TApp | TWord "uchar list"

fun redir_toks :: "redir \<Rightarrow> tok list" where
  "redir_toks (RIn w) = [TSym (of_char (CHR ''<'')), TWord w]"
| "redir_toks (ROut w) = [TSym (of_char (CHR ''>'')), TWord w]"
| "redir_toks (RApp w) = [TApp, TWord w]"

definition redirs_toks :: "redir list \<Rightarrow> tok list" where
  "redirs_toks rs = concat (map redir_toks rs)"

fun line_toks :: "sline \<Rightarrow> tok list" and pipe_toks :: "spipe \<Rightarrow> tok list" and exec_toks :: "sexec \<Rightarrow> tok list" where
  "line_toks (LEnd p k) = pipe_toks p @ replicate k (TSym (of_char (CHR ''&'')))"
| "line_toks (LSeq p k l) =
     pipe_toks p @ replicate k (TSym (of_char (CHR ''&''))) @ TSym (of_char (CHR '';'')) # line_toks l"
| "pipe_toks (PEnd x) = exec_toks x"
| "pipe_toks (PBar x p) = exec_toks x @ TSym (of_char (CHR ''|'')) # pipe_toks p"
| "exec_toks (Simple rs args) =
     redirs_toks rs @ concat (map (\<lambda>(w, rs). TWord w # redirs_toks rs) args)"
| "exec_toks (Block l rs) =
     TSym (of_char (CHR ''('')) # line_toks l @ TSym (of_char (CHR '')'')) # redirs_toks rs"

fun tok_text :: "tok \<Rightarrow> uchar list" where
  "tok_text (TSym c) = [c]"
| "tok_text TApp = lit ''>>''"
| "tok_text (TWord w) = w"

definition toks_text :: "tok list \<Rightarrow> uchar list" where
  "toks_text ts = concat (map (\<lambda>t. tok_text t @ [32]) ts)"

definition line_text :: "sline \<Rightarrow> uchar list" where
  "line_text l = toks_text (line_toks l)"

text \<open>Words are not empty, and simple commands have at most nine of them.\<close>

definition wf_word :: "uchar list \<Rightarrow> bool" where
  "wf_word w \<longleftrightarrow> w \<noteq> [] \<and> list_all wordchar w"

fun redir_word :: "redir \<Rightarrow> uchar list" where
  "redir_word (RIn w) = w"
| "redir_word (ROut w) = w"
| "redir_word (RApp w) = w"

definition wf_redirs :: "redir list \<Rightarrow> bool" where
  "wf_redirs rs \<longleftrightarrow> list_all (\<lambda>r. wf_word (redir_word r)) rs"

fun wf_line :: "sline \<Rightarrow> bool" and wf_pipe :: "spipe \<Rightarrow> bool" and wf_exec :: "sexec \<Rightarrow> bool" where
  "wf_line (LEnd p k) = wf_pipe p"
| "wf_line (LSeq p k l) = (wf_pipe p \<and> wf_line l)"
| "wf_pipe (PEnd x) = wf_exec x"
| "wf_pipe (PBar x p) = (wf_exec x \<and> wf_pipe p)"
| "wf_exec (Simple rs args) =
     (wf_redirs rs \<and> list_all (\<lambda>(w, rs). wf_word w \<and> wf_redirs rs) args \<and> length args < MAXARGS)"
| "wf_exec (Block l rs) = (wf_line l \<and> wf_redirs rs)"

section \<open>A token stream in the buffer\<close>

fun wf_tok :: "tok \<Rightarrow> bool" where
  "wf_tok (TSym c) = (c \<in> set symbols)"
| "wf_tok TApp = True"
| "wf_tok (TWord w) = wf_word w"

fun code :: "tok \<Rightarrow> uchar" where
  "code (TSym c) = c"
| "code TApp = of_char (CHR ''+'')"
| "code (TWord w) = of_char (CHR ''a'')"

definition range_ok :: "cstr \<Rightarrow> nat \<Rightarrow> nat \<Rightarrow> nat \<Rightarrow> bool" where
  "range_ok b es q e \<longleftrightarrow> q < e \<and> e \<le> es \<and> (\<forall>i. q \<le> i \<and> i < e \<longrightarrow> wordchar (b i)) \<and> \<not> wordchar (b e)"

definition seg :: "cstr \<Rightarrow> nat \<Rightarrow> nat \<Rightarrow> uchar list" where
  "seg b q e = map b [q..<e]"

text \<open>
  The buffer from \<open>s\<close>, which is not in front of white space, holds the tokens, one for each
  call of \<open>gettoken\<close>.
\<close>

fun holds :: "cstr \<Rightarrow> nat \<Rightarrow> nat \<Rightarrow> tok list \<Rightarrow> bool" where
  "holds b es s [] \<longleftrightarrow> s = es"
| "holds b es s (t # ts) \<longleftrightarrow>
     s < es \<and> skip_ws b es s = s \<and> wf_tok t \<and>
     (case gettoken b es s of (tok, q, e, s') \<Rightarrow>
        tok = code t \<and> (\<forall>w. t = TWord w \<longrightarrow> range_ok b es q e \<and> seg b q e = w) \<and> holds b es s' ts)"

lemma skip_ws_es [simp]: "skip_ws b es es = es"
  by (simp add: skip_ws_stop)

lemma holds_settled: "holds b es s ts \<Longrightarrow> skip_ws b es s = s \<and> s \<le> es"
  by (cases ts) auto

lemma skip_word_seg:
  "list_all wordchar w \<Longrightarrow> s + length w < es \<Longrightarrow> seg b s (s + length w) = w \<Longrightarrow> \<not> wordchar (b (s + length w)) \<Longrightarrow>
     (\<forall>i<es. b i \<noteq> 0) \<Longrightarrow> skip_word b es s = s + length w"
proof (induction w arbitrary: s)
  case Nil
  then show ?case by (auto intro!: skip_word_stop simp: wordchar_def)
next
  case (Cons c w)
  have "seg b s (s + length (c # w)) = b s # seg b (Suc s) (Suc s + length w)"
    by (simp add: seg_def upt_conv_Cons del: upt_Suc)
  then have c: "b s = c" "seg b (Suc s) (Suc s + length w) = w" using Cons.prems(3) by simp_all
  have "skip_word b es (Suc s) = Suc s + length w" using Cons.prems c(2) by (intro Cons.IH) simp_all
  then show ?case using Cons.prems(1,2) c(1) by (simp add: skip_word_step wordchar_def)
qed

lemma length_seg [simp]: "length (seg b q e) = e - q"
  by (simp add: seg_def)

lemma seg_append:
  assumes "seg b s es = xs @ ys" "s \<le> es"
  shows "s + length xs \<le> es" "seg b s (s + length xs) = xs" "seg b (s + length xs) es = ys"
proof -
  have len: "es - s = length xs + length ys" using arg_cong[OF assms(1), of length] by simp
  then show le: "s + length xs \<le> es" using assms(2) by linarith
  have "seg b s es = seg b s (s + length xs) @ seg b (s + length xs) es"
    using le upt_add_eq_append[of s "s + length xs" "es - (s + length xs)"]
    unfolding seg_def map_append[symmetric] by simp
  then show "seg b s (s + length xs) = xs" "seg b (s + length xs) es = ys" using assms(1) by simp_all
qed

lemma seg_Cons:
  assumes "seg b s es = c # ys" "s \<le> es"
  shows "s < es" "b s = c" "seg b (Suc s) es = ys"
  using seg_append[of b s es "[c]" ys] assms by (simp_all add: seg_def)

lemma symbols_cases:
  "c \<in> set symbols \<longleftrightarrow> c = 60 \<or> c = 124 \<or> c = 62 \<or> c = 38 \<or> c = 59 \<or> c = 40 \<or> c = 41"
  by (simp add: symbols_def lit_def)

lemma text_first:
  assumes "wf_tok t"
  shows "\<exists>c cs. tok_text t = c # cs \<and> c \<notin> set whitespace \<and> c \<noteq> 0"
  using assms by (cases t) (auto simp: symbols_cases whitespace_def lit_def wf_word_def wordchar_def neq_Nil_conv)

lemma gettoken_at:
  assumes "cstr_len b es" "wf_tok t" "seg b s es = tok_text t @ 32 # ys" "s \<le> es"
  shows "skip_ws b es s = s \<and> s < es \<and>
    (\<exists>e. gettoken b es s = (code t, s, e, skip_ws b es e) \<and> e = s + length (tok_text t) \<and>
      (\<forall>w. t = TWord w \<longrightarrow> range_ok b es s e \<and> seg b s e = w))"
proof -
  let ?e = "s + length (tok_text t)"
  note sl = seg_append[OF assms(3,4)]
  have sp: "?e < es" "b ?e = 32" using seg_Cons(1,2)[OF sl(3,1)] by simp_all
  obtain c cs where c: "tok_text t = c # cs" "c \<notin> set whitespace" "c \<noteq> 0" using text_first[OF assms(2)] by blast
  have bs: "b s = c" "s < es" using seg_Cons[of b s es c] assms(3,4) c by simp_all
  then have ws: "skip_ws b es s = s" using c by (intro skip_ws_stop) simp
  have nz: "\<forall>i<es. b i \<noteq> 0" using assms(1) by (simp add: cstr_len_def)
  have "\<exists>e. gettoken b es s = (code t, s, e, skip_ws b es e) \<and> e = ?e \<and>
      (\<forall>w. t = TWord w \<longrightarrow> range_ok b es s e \<and> seg b s e = w)"
  proof (cases t)
    case (TSym d)
    then have "d = c" "?e = s + 1" using c by simp_all
    then show ?thesis using TSym assms(2) bs ws sp c
      by (auto simp: gettoken_def Let_def symbols_cases lit_def)
  next
    case TApp
    then have "b s = 62" "?e = s + 2" using c bs by (auto simp: lit_def)
    moreover have "b (s + 1) = 62"
      using seg_Cons(2)[OF seg_Cons(3)[of b s es 62 "62 # 32 # ys"]] assms(3,4) TApp bs(2) by (simp add: lit_def)
    ultimately show ?thesis using TApp ws by (simp add: gettoken_def Let_def lit_def)
  next
    case (TWord w)
    have w: "list_all wordchar w" "w \<noteq> []" "tok_text t = w" using assms(2) TWord by (simp_all add: wf_word_def)
    have "\<not> wordchar (b ?e)" using sp by (simp add: wordchar_def whitespace_def)
    then have e: "skip_word b es s = ?e" using skip_word_seg[OF w(1), of s es b] sp sl w nz by simp
    have wc: "wordchar (b s)" using w c bs by (auto simp: wordchar_def)
    have "wordchar (b i)" if "s \<le> i" "i < ?e" for i
    proof -
      have "b i = w ! (i - s)" using sl(2) that w(3) nth_map[of "i - s" "[s..<?e]" b] by (simp add: seg_def)
      then show ?thesis using w that by (simp add: list_all_length)
    qed
    then have "range_ok b es s ?e" using w sp \<open>\<not> wordchar (b ?e)\<close> by (simp add: range_ok_def)
    moreover have "gettoken b es s = (97, s, ?e, skip_ws b es ?e)"
      using wc e ws by (simp add: gettoken_def Let_def wordchar_def symbols_def lit_def)
    ultimately show ?thesis using TWord sl(2) by simp
  qed
  with ws bs show ?thesis by blast
qed

lemma text_holds:
  assumes "cstr_len b es"
  shows "list_all wf_tok ts \<Longrightarrow> seg b s es = toks_text ts \<Longrightarrow> s \<le> es \<Longrightarrow> holds b es s ts"
proof (induction ts arbitrary: s)
  case Nil
  then have "length (seg b s es) = 0" by (simp only: toks_text_def list.map concat.simps list.size)
  then have "es - s = 0" by (simp only: length_seg)
  then show ?case using Nil by simp
next
  case (Cons t ts)
  have sl: "seg b s es = tok_text t @ 32 # toks_text ts" using Cons.prems(2) by (simp add: toks_text_def)
  let ?e = "s + length (tok_text t)"
  note e = seg_append[OF sl Cons.prems(3)]
  note sp = seg_Cons[OF e(3,1)]
  have IH: "holds b es (Suc ?e) ts" using Cons.prems(1) sp by (intro Cons.IH) simp_all
  have "skip_ws b es ?e = Suc ?e"
    using skip_ws_step[of ?e es b] sp holds_settled[OF IH] by (simp add: whitespace_def)
  then show ?case using gettoken_at[OF assms _ sl Cons.prems(3)] Cons.prems(1) IH by auto
qed

section \<open>Parsing the stream\<close>

fun first_in :: "string \<Rightarrow> tok list \<Rightarrow> bool" where
  "first_in toks [] = False"
| "first_in toks (TSym c # ts) = (c \<in> set (lit toks))"
| "first_in toks (TApp # ts) = (62 \<in> set (lit toks))"
| "first_in toks (TWord w # ts) = False"

lemma holds_char:
  assumes "holds b es s (t # ts)"
  shows "b s \<noteq> 0 \<and> (case t of TSym c \<Rightarrow> b s = c | TApp \<Rightarrow> b s = 62 | TWord w \<Rightarrow> b s \<notin> set symbols)"
proof -
  have g: "skip_ws b es s = s" "wf_tok t" "fst (gettoken b es s) = code t" using assms by (auto split: prod.splits)
  then show ?thesis
    by (cases t) (auto simp: gettoken_def Let_def symbols_cases lit_def split: if_splits)
qed

lemma peek_holds:
  assumes "cstr_len b es" "holds b es s ts" "set (lit toks) \<subseteq> set symbols"
  shows "peek_u b es s toks = (first_in toks ts, s)"
proof (cases ts)
  case Nil
  then show ?thesis using assms(2) cstr_len_end[OF assms(1)] by (simp add: peek_u_def)
next
  case (Cons t ts')
  then show ?thesis using assms(3) holds_char[of b es s t ts'] holds_settled[OF assms(2)] assms(2)
    by (cases t) (auto simp: peek_u_def)
qed

lemma gettoken_holds:
  assumes "holds b es s (t # ts)"
  obtains q e s' where "gettoken b es s = (code t, q, e, s')" "holds b es s' ts"
    "\<And>w. t = TWord w \<Longrightarrow> range_ok b es q e \<and> seg b q e = w"
  using assms by (auto split: prod.splits)

text \<open>The strings of a command lie in proper ranges of the buffer and make up the tree.\<close>

fun tree_of :: "cstr \<Rightarrow> cmd \<Rightarrow> tree" where
  "tree_of b (EXEC argv eargv) = TExec (map2 (seg b) argv eargv)"
| "tree_of b (REDIR c q e mode fd) = TRedir (tree_of b c) (seg b q e) mode fd"
| "tree_of b (PIPE l r) = TPipe (tree_of b l) (tree_of b r)"
| "tree_of b (LIST l r) = TList (tree_of b l) (tree_of b r)"
| "tree_of b (BACK c) = TBack (tree_of b c)"

fun good :: "cstr \<Rightarrow> nat \<Rightarrow> cmd \<Rightarrow> bool" where
  "good b es (EXEC argv eargv) \<longleftrightarrow> list_all2 (range_ok b es) argv eargv"
| "good b es (REDIR c q e mode fd) \<longleftrightarrow> good b es c \<and> range_ok b es q e"
| "good b es (PIPE l r) \<longleftrightarrow> good b es l \<and> good b es r"
| "good b es (LIST l r) \<longleftrightarrow> good b es l \<and> good b es r"
| "good b es (BACK c) \<longleftrightarrow> good b es c"

text \<open>A parsing routine that has enough fuel gives the tree \<open>t\<close> and leaves the tokens \<open>rest\<close>.\<close>

definition gives :: "cstr \<Rightarrow> nat \<Rightarrow> tok list \<Rightarrow> tree \<Rightarrow> cmd parsed \<Rightarrow> bool" where
  "gives b es rest t r \<longleftrightarrow>
     r = PFuel \<or> (\<exists>c s. r = POk c s \<and> holds b es s rest \<and> tree_of b c = t \<and> good b es c)"

lemma gives_PFuel [simp]: "gives b es rest t PFuel"
  by (simp add: gives_def)

lemma gives_POk: "holds b es s rest \<Longrightarrow> tree_of b c = t \<Longrightarrow> good b es c \<Longrightarrow> gives b es rest t (POk c s)"
  by (simp add: gives_def)

lemma gives_pbind:
  assumes "gives b es mid u m"
    and "\<And>c s. holds b es s mid \<Longrightarrow> tree_of b c = u \<Longrightarrow> good b es c \<Longrightarrow> gives b es rest t (f c s)"
  shows "gives b es rest t (pbind m f)"
  using assms(1) unfolding gives_def[of _ _ mid] by (auto intro: assms(2))

lemma redir_set: "set (lit ''<>'') \<subseteq> set symbols" "set (lit ''&'') \<subseteq> set symbols" "set (lit '';'') \<subseteq> set symbols"
    "set (lit ''|'') \<subseteq> set symbols" "set (lit ''('') \<subseteq> set symbols" "set (lit '')'') \<subseteq> set symbols"
    "set (lit ''|)&;'') \<subseteq> set symbols"
  by (simp_all add: lit_def symbols_def)

lemmas peek_toks = peek_holds[OF _ _ redir_set(1)] peek_holds[OF _ _ redir_set(2)] peek_holds[OF _ _ redir_set(3)]
  peek_holds[OF _ _ redir_set(4)] peek_holds[OF _ _ redir_set(5)] peek_holds[OF _ _ redir_set(6)]
  peek_holds[OF _ _ redir_set(7)]

lemma gives_redirs:
  assumes "cstr_len b es" "\<not> first_in ''<>'' rest"
  shows "holds b es s (redirs_toks rs @ rest) \<Longrightarrow> good b es c \<Longrightarrow>
    gives b es rest (foldl redir_tree (tree_of b c) rs) (parseredirs n b es c s)"
proof (induction rs arbitrary: n c s)
  case Nil
  then show ?case using peek_toks(1)[OF assms(1), of s rest] assms(2)
    by (cases n) (simp_all add: redirs_toks_def gives_POk)
next
  case (Cons r rs)
  show ?case
  proof (cases n)
    case (Suc n')
    obtain t where t: "redir_toks r = [t, TWord (redir_word r)]" by (cases r) simp_all
    then have h: "holds b es s (t # TWord (redir_word r) # redirs_toks rs @ rest)"
      using Cons.prems(1) by (simp only: redirs_toks_def list.map concat.simps append_Cons append_Nil append_assoc)
    obtain q1 e1 s1 where g1: "gettoken b es s = (code t, q1, e1, s1)"
      and h1: "holds b es s1 (TWord (redir_word r) # redirs_toks rs @ rest)"
      using h by (rule gettoken_holds)
    obtain q e s2 where g2: "gettoken b es s1 = (97, q, e, s2)" and h2: "holds b es s2 (redirs_toks rs @ rest)"
      and w: "range_ok b es q e" "seg b q e = redir_word r"
      by (rule gettoken_holds[OF h1]) simp
    have IH: "gives b es rest (foldl redir_tree (TRedir (tree_of b c) (redir_word r) mode fd) rs)
        (parseredirs n' b es (REDIR c q e mode fd) s2)" for mode fd
      using Cons.IH[OF h2, of "REDIR c q e mode fd" n'] Cons.prems(2) w by simp
    show ?thesis
      using Suc g1 g2 IH peek_toks(1)[OF assms(1) h] t by (cases r) (auto simp: lit_def)
  qed simp
qed

fun add_word :: "uchar list \<Rightarrow> tree \<Rightarrow> tree" where
  "add_word w (TExec ws) = TExec (ws @ [w])"
| "add_word w (TRedir t f mode fd) = TRedir (add_word w t) f mode fd"
| "add_word w t = t"

lemma tree_add_arg: "good b es c \<Longrightarrow> tree_of b (add_arg q e c) = add_word (seg b q e) (tree_of b c)"
  by (induction c) (auto dest: list_all2_lengthD)

lemma good_add_arg: "good b es c \<Longrightarrow> range_ok b es q e \<Longrightarrow> good b es (add_arg q e c)"
  by (induction c) (auto intro: list_all2_appendI)

lemma add_word_redirs: "add_word w (foldl redir_tree t rs) = foldl redir_tree (add_word w t) rs"
proof (induction rs arbitrary: t)
  case (Cons r rs)
  have "add_word w (redir_tree t r) = redir_tree (add_word w t) r" by (cases r) simp_all
  then show ?case using Cons by simp
qed simp

definition arg_step :: "uchar list \<times> redir list \<Rightarrow> tree \<Rightarrow> tree" where
  "arg_step a t = foldl redir_tree (add_word (fst a) t) (snd a)"

lemma fold_arg_step:
  "fold arg_step args (foldl redir_tree (TExec ws) rs) =
     foldl redir_tree (TExec (ws @ map fst args)) (rs @ concat (map snd args))"
proof (induction args arbitrary: ws rs)
  case (Cons a args)
  have "arg_step a (foldl redir_tree (TExec ws) rs) = foldl redir_tree (TExec (ws @ [fst a])) (rs @ snd a)"
    by (simp add: arg_step_def add_word_redirs)
  then show ?case using Cons[of "ws @ [fst a]" "rs @ snd a"] by simp
qed simp

definition args_toks :: "(uchar list \<times> redir list) list \<Rightarrow> tok list" where
  "args_toks args = concat (map (\<lambda>(w, rs). TWord w # redirs_toks rs) args)"

text \<open>What may come after a simple command.\<close>

definition follow :: "tok list \<Rightarrow> bool" where
  "follow rest \<longleftrightarrow> rest = [] \<or> first_in ''|)&;'' rest"

lemma follow_no:
  assumes "follow rest"
  shows "\<not> first_in ''<>'' rest" "\<not> first_in ''('' rest"
proof -
  have "rest = [] \<or> (\<exists>c ts. rest = TSym c # ts \<and> c \<in> set (lit ''|)&;''))"
    using assms by (cases "(''|)&;'', rest)" rule: first_in.cases) (auto simp: follow_def lit_def)
  then show "\<not> first_in ''<>'' rest" "\<not> first_in ''('' rest" by (auto simp: lit_def)
qed

lemma gettoken_end: "cstr_len b es \<Longrightarrow> gettoken b es es = (0, es, es, es)"
  by (simp add: gettoken_def cstr_len_end)

lemma gives_args:
  assumes "cstr_len b es" "follow rest"
  shows "holds b es s (args_toks args @ rest) \<Longrightarrow> good b es c \<Longrightarrow> argc + length args < MAXARGS \<Longrightarrow>
    gives b es rest (fold arg_step args (tree_of b c)) (parseargs n b es argc c s)"
proof (induction args arbitrary: n argc c s)
  case Nil
  then have h: "holds b es s rest" by (simp add: args_toks_def)
  show ?case
  proof (cases "rest = []")
    case True
    then show ?thesis using Nil h peek_toks(7)[OF assms(1) h] gettoken_end[OF assms(1)]
      by (cases n) (simp_all add: gives_POk)
  next
    case False
    then show ?thesis using Nil h peek_toks(7)[OF assms(1) h] assms(2)
      by (cases n) (simp_all add: gives_POk follow_def)
  qed
next
  case (Cons a args)
  obtain w rs where a: "a = (w, rs)" by (cases a)
  let ?rest = "args_toks args @ rest"
  have h: "holds b es s (TWord w # redirs_toks rs @ ?rest)"
    using Cons.prems(1) a by (simp only: args_toks_def list.map concat.simps prod.case append_Cons append_assoc)
  show ?case
  proof (cases n)
    case (Suc n')
    obtain q e s1 where g: "gettoken b es s = (97, q, e, s1)" and h1: "holds b es s1 (redirs_toks rs @ ?rest)"
      and w: "range_ok b es q e" "seg b q e = w"
      by (rule gettoken_holds[OF h]) simp
    have no: "\<not> first_in ''<>'' ?rest"
      using follow_no[OF assms(2)] by (cases args) (auto simp: args_toks_def)
    have good: "good b es (add_arg q e c)" using good_add_arg Cons.prems(2) w by blast
    have tree: "tree_of b (add_arg q e c) = add_word w (tree_of b c)" using tree_add_arg[OF Cons.prems(2)] w by simp
    have "gives b es ?rest (foldl redir_tree (add_word w (tree_of b c)) rs) (parseredirs n' b es (add_arg q e c) s1)"
      using gives_redirs[OF assms(1) no h1 good, of n'] tree by simp
    then have "gives b es rest (fold arg_step (a # args) (tree_of b c))
        (pbind (parseredirs n' b es (add_arg q e c) s1) (\<lambda>node s. parseargs n' b es (argc + 1) node s))"
    proof (rule gives_pbind)
      fix c' s' assume c': "holds b es s' ?rest" "tree_of b c' = foldl redir_tree (add_word w (tree_of b c)) rs" "good b es c'"
      then show "gives b es rest (fold arg_step (a # args) (tree_of b c)) (parseargs n' b es (argc + 1) c' s')"
        using Cons.IH[OF c'(1,3), of "argc + 1" n'] Cons.prems(3) a by (simp add: arg_step_def[of "(w, rs)"])
    qed
    then show ?thesis using Suc g peek_toks(7)[OF assms(1) h] Cons.prems(3) by simp
  qed simp
qed

lemma gives_backs:
  assumes "cstr_len b es" "\<not> first_in ''&'' rest"
  shows "holds b es s (replicate k (TSym 38) @ rest) \<Longrightarrow> good b es c \<Longrightarrow>
    gives b es rest ((TBack ^^ k) (tree_of b c)) (parsebacks n b es c s)"
proof (induction k arbitrary: n c s)
  case 0
  then show ?case using peek_toks(2)[OF assms(1), of s rest] assms(2) by (cases n) (simp_all add: gives_POk)
next
  case (Suc k)
  show ?case
  proof (cases n)
    case n: (Suc n')
    have h: "holds b es s (TSym 38 # replicate k (TSym 38) @ rest)" using Suc.prems(1) by simp
    obtain q e s1 where g: "gettoken b es s = (38, q, e, s1)" and h1: "holds b es s1 (replicate k (TSym 38) @ rest)"
      by (rule gettoken_holds[OF h]) simp
    have "gives b es rest ((TBack ^^ k) (TBack (tree_of b c))) (parsebacks n' b es (BACK c) s1)"
      using Suc.IH[OF h1, of "BACK c" n'] Suc.prems(2) by simp
    then show ?thesis using n g peek_toks(2)[OF assms(1) h] by (simp add: lit_def funpow_swap1)
  qed simp
qed

text \<open>What may come after a line.\<close>

definition line_end :: "tok list \<Rightarrow> bool" where
  "line_end rest \<longleftrightarrow> rest = [] \<or> (\<exists>ts. rest = TSym 41 # ts)"

lemma follow_line_end: "line_end rest \<Longrightarrow> follow rest"
  by (auto simp: line_end_def follow_def lit_def)

lemma line_end_no: "line_end rest \<Longrightarrow> \<not> first_in ''&'' rest \<and> \<not> first_in '';'' rest \<and> \<not> first_in ''|'' rest"
  by (auto simp: line_end_def lit_def)

text \<open>One level of each routine, given the routines that it calls.\<close>

lemma gives_seq:
  assumes len: "cstr_len b es" and h: "holds b es s (ts @ rest)" and rest: "line_end rest"
    and c: "tree_of b c = t" "good b es c"
    and ts: "ts = [] \<and> d = t \<or> (\<exists>l. ts = TSym 59 # line_toks l \<and> wf_line l \<and> d = TList t (denote l))"
    and line: "\<And>s l. holds b es s (line_toks l @ rest) \<Longrightarrow> wf_line l \<Longrightarrow>
        gives b es rest (denote l) (parseline n b es s)"
  shows "gives b es rest d (case peek_u b es s '';'' of (False, s) \<Rightarrow> POk c s
      | (True, s) \<Rightarrow> (case gettoken b es s of (_, _, _, s) \<Rightarrow>
          pbind (parseline n b es s) (\<lambda>cmd2 s. POk (LIST c cmd2) s)))"
  using ts
proof
  assume "ts = [] \<and> d = t"
  then show ?thesis using h c peek_toks(3)[OF len h] line_end_no[OF rest] by (simp add: gives_POk)
next
  assume "\<exists>l. ts = TSym 59 # line_toks l \<and> wf_line l \<and> d = TList t (denote l)"
  then obtain l where l: "ts = TSym 59 # line_toks l" "wf_line l" "d = TList t (denote l)" by blast
  have h': "holds b es s (TSym 59 # line_toks l @ rest)" using h l(1) by simp
  obtain q e s1 where g: "gettoken b es s = (59, q, e, s1)" and h1: "holds b es s1 (line_toks l @ rest)"
    by (rule gettoken_holds[OF h']) simp
  have "gives b es rest d (pbind (parseline n b es s1) (\<lambda>cmd2 s. POk (LIST c cmd2) s))"
    using l(3) c by (intro gives_pbind[OF line[OF h1 l(2)]] gives_POk) simp_all
  then show ?thesis using g peek_toks(3)[OF len h'] by (simp add: lit_def)
qed

lemma gives_line:
  assumes len: "cstr_len b es" and h: "holds b es s (line_toks l @ rest)" and wf: "wf_line l" and rest: "line_end rest"
    and pipe: "\<And>s p rest. holds b es s (pipe_toks p @ rest) \<Longrightarrow> wf_pipe p \<Longrightarrow> follow rest \<Longrightarrow>
        \<not> first_in ''|'' rest \<Longrightarrow> gives b es rest (denote_pipe p) (parsepipe n b es s)"
    and line: "\<And>s l. holds b es s (line_toks l @ rest) \<Longrightarrow> wf_line l \<Longrightarrow>
        gives b es rest (denote l) (parseline n b es s)"
  shows "gives b es rest (denote l) (parseline (Suc n) b es s)"
proof -
  obtain p k ts where l: "line_toks l = pipe_toks p @ replicate k (TSym 38) @ ts" "wf_pipe p"
    and ts: "ts = [] \<and> denote l = (TBack ^^ k) (denote_pipe p) \<or>
      (\<exists>l'. ts = TSym 59 # line_toks l' \<and> wf_line l' \<and> denote l = TList ((TBack ^^ k) (denote_pipe p)) (denote l'))"
  proof (cases l)
    case (LEnd p k)
    then show thesis using wf that[of p k "[]"] by simp
  next
    case (LSeq p k l')
    then show thesis using wf that[of p k "TSym 59 # line_toks l'"] by auto
  qed
  let ?mid = "replicate k (TSym 38) @ ts @ rest"
  have first: "follow ?mid" "\<not> first_in ''|'' ?mid" "\<not> first_in ''&'' (ts @ rest)"
    using ts rest by (cases k; auto simp: line_end_def follow_def lit_def)+
  have "gives b es ?mid (denote_pipe p) (parsepipe n b es s)" using h l first by (intro pipe) simp_all
  then show ?thesis unfolding parseline.simps
  proof (rule gives_pbind)
    fix c s assume c: "holds b es s ?mid" "tree_of b c = denote_pipe p" "good b es c"
    have "gives b es (ts @ rest) ((TBack ^^ k) (denote_pipe p)) (parsebacks n b es c s)"
      using gives_backs[OF len first(3) c(1,3)] c(2) by simp
    then show "gives b es rest (denote l) (pbind (parsebacks n b es c s) (\<lambda>cmd s.
        case peek_u b es s '';'' of (False, s) \<Rightarrow> POk cmd s
        | (True, s) \<Rightarrow> (case gettoken b es s of (_, _, _, s) \<Rightarrow>
            pbind (parseline n b es s) (\<lambda>cmd2 s. POk (LIST cmd cmd2) s))))"
      by (rule gives_pbind) (rule gives_seq[OF len _ rest _ _ ts line])
  qed
qed

lemma gives_pipe:
  assumes len: "cstr_len b es" and h: "holds b es s (pipe_toks p @ rest)" and wf: "wf_pipe p"
    and rest: "follow rest" "\<not> first_in ''|'' rest"
    and exec: "\<And>s x rest. holds b es s (exec_toks x @ rest) \<Longrightarrow> wf_exec x \<Longrightarrow> follow rest \<Longrightarrow>
        gives b es rest (denote_exec x) (parseexec n b es s)"
    and pipe: "\<And>s p. holds b es s (pipe_toks p @ rest) \<Longrightarrow> wf_pipe p \<Longrightarrow>
        gives b es rest (denote_pipe p) (parsepipe n b es s)"
  shows "gives b es rest (denote_pipe p) (parsepipe (Suc n) b es s)"
proof (cases p)
  case (PEnd x)
  have "gives b es rest (denote_exec x) (parseexec n b es s)" using h wf rest PEnd by (intro exec) simp_all
  then show ?thesis unfolding parsepipe.simps PEnd denote_pipe.simps
    by (rule gives_pbind) (simp add: peek_toks(4)[OF len] rest gives_POk)
next
  case (PBar x p')
  let ?mid = "TSym 124 # pipe_toks p' @ rest"
  have "gives b es ?mid (denote_exec x) (parseexec n b es s)"
    using h wf PBar by (intro exec) (simp_all add: follow_def lit_def)
  then show ?thesis unfolding parsepipe.simps
  proof (rule gives_pbind)
    fix c s assume c: "holds b es s ?mid" "tree_of b c = denote_exec x" "good b es c"
    obtain q e s1 where g: "gettoken b es s = (124, q, e, s1)" and h1: "holds b es s1 (pipe_toks p' @ rest)"
      by (rule gettoken_holds[OF c(1)]) simp
    have "gives b es rest (denote_pipe p) (pbind (parsepipe n b es s1) (\<lambda>cmd2 s. POk (PIPE c cmd2) s))"
      using PBar c wf by (intro gives_pbind[OF pipe[OF h1]] gives_POk) simp_all
    then show "gives b es rest (denote_pipe p) (case peek_u b es s ''|'' of (False, s) \<Rightarrow> POk c s
        | (True, s) \<Rightarrow> (case gettoken b es s of (_, _, _, s) \<Rightarrow>
            pbind (parsepipe n b es s) (\<lambda>cmd2 s. POk (PIPE c cmd2) s)))"
      using g peek_toks(4)[OF len c(1)] by (simp add: lit_def)
  qed
qed

lemma gives_block:
  assumes len: "cstr_len b es" and h: "holds b es s (TSym 40 # line_toks l @ TSym 41 # redirs_toks rs @ rest)"
    and wf: "wf_line l" and rest: "follow rest"
    and line: "\<And>s rest. holds b es s (line_toks l @ rest) \<Longrightarrow> line_end rest \<Longrightarrow>
        gives b es rest (denote l) (parseline n b es s)"
  shows "gives b es rest (foldl redir_tree (denote l) rs) (parseblock (Suc n) b es s)"
proof -
  let ?mid = "TSym 41 # redirs_toks rs @ rest"
  obtain q e s1 where g: "gettoken b es s = (40, q, e, s1)" and h1: "holds b es s1 (line_toks l @ ?mid)"
    by (rule gettoken_holds[OF h]) simp
  have "gives b es ?mid (denote l) (parseline n b es s1)" using h1 by (rule line) (simp add: line_end_def)
  then have "gives b es rest (foldl redir_tree (denote l) rs) (pbind (parseline n b es s1) (\<lambda>cmd s.
      case peek_u b es s '')'' of (False, s) \<Rightarrow> PPanic ''syntax - missing )''
      | (True, s) \<Rightarrow> (case gettoken b es s of (_, _, _, s) \<Rightarrow> parseredirs n b es cmd s)))"
  proof (rule gives_pbind)
    fix c s assume c: "holds b es s ?mid" "tree_of b c = denote l" "good b es c"
    obtain q' e' s2 where g': "gettoken b es s = (41, q', e', s2)" and h2: "holds b es s2 (redirs_toks rs @ rest)"
      by (rule gettoken_holds[OF c(1)]) simp
    have "gives b es rest (foldl redir_tree (denote l) rs) (parseredirs n b es c s2)"
      using gives_redirs[OF len follow_no(1)[OF rest] h2 c(3), of n] c(2) by simp
    then show "gives b es rest (foldl redir_tree (denote l) rs)
        (case peek_u b es s '')'' of (False, s) \<Rightarrow> PPanic ''syntax - missing )''
         | (True, s) \<Rightarrow> (case gettoken b es s of (_, _, _, s) \<Rightarrow> parseredirs n b es c s))"
      using g' peek_toks(6)[OF len c(1)] by (simp add: lit_def)
  qed
  then show ?thesis using g peek_toks(5)[OF len h] by (simp add: lit_def)
qed

lemma gives_simple:
  assumes len: "cstr_len b es" and h: "holds b es s (redirs_toks rs @ args_toks args @ rest)"
    and args: "length args < MAXARGS" and rest: "follow rest"
  shows "gives b es rest (foldl redir_tree (TExec (map fst args)) (rs @ concat (map snd args)))
    (parseexec (Suc n) b es s)"
proof -
  have no: "\<not> first_in ''<>'' (args_toks args @ rest)"
    using follow_no[OF rest] by (cases args) (auto simp: args_toks_def)
  have par: "\<not> first_in ''('' (redirs_toks rs @ args_toks args @ rest)"
  proof (cases rs)
    case Nil
    then show ?thesis using follow_no[OF rest] by (cases args) (auto simp: args_toks_def redirs_toks_def)
  next
    case (Cons r rs')
    then show ?thesis by (cases r) (simp_all add: redirs_toks_def lit_def)
  qed
  have "gives b es (args_toks args @ rest) (foldl redir_tree (TExec []) rs) (parseredirs n b es (EXEC [] []) s)"
    using gives_redirs[OF len no h, of "EXEC [] []" n] by simp
  then have "gives b es rest (foldl redir_tree (TExec (map fst args)) (rs @ concat (map snd args)))
      (pbind (parseredirs n b es (EXEC [] []) s) (\<lambda>node s. parseargs n b es 0 node s))"
  proof (rule gives_pbind)
    fix c s assume c: "holds b es s (args_toks args @ rest)" "tree_of b c = foldl redir_tree (TExec []) rs" "good b es c"
    show "gives b es rest (foldl redir_tree (TExec (map fst args)) (rs @ concat (map snd args))) (parseargs n b es 0 c s)"
      using gives_args[OF len rest c(1,3), of 0 n] args fold_arg_step[of args "[]" rs] c(2) by simp
  qed
  then show ?thesis using peek_toks(5)[OF len h] par by simp
qed

lemma gives_parse:
  assumes len: "cstr_len b es"
  shows "holds b es s (line_toks l @ rest) \<Longrightarrow> wf_line l \<Longrightarrow> line_end rest \<Longrightarrow>
      gives b es rest (denote l) (parseline n b es s)"
    and "holds b es s (pipe_toks p @ rest) \<Longrightarrow> wf_pipe p \<Longrightarrow> follow rest \<Longrightarrow> \<not> first_in ''|'' rest \<Longrightarrow>
      gives b es rest (denote_pipe p) (parsepipe n b es s)"
    and "holds b es s (exec_toks x @ rest) \<Longrightarrow> wf_exec x \<Longrightarrow> follow rest \<Longrightarrow>
      gives b es rest (denote_exec x) (parseexec n b es s)"
proof (induction n arbitrary: s l p x rest rule: less_induct)
  case (less n)
  {
    case 1
    then show ?case using gives_line[OF len 1] less(1,2)[of "n - 1"] by (cases n) simp_all
  next
    case 2
    then show ?case using gives_pipe[OF len 2] less(2,3)[of "n - 1"] by (cases n) simp_all
  next
    case 3
    show ?case
    proof (cases x)
      case (Simple rs args)
      then show ?thesis using 3 gives_simple[OF len, of s rs args rest] by (cases n) (simp_all add: args_toks_def)
    next
      case (Block l rs)
      then have h: "holds b es s (TSym 40 # line_toks l @ TSym 41 # redirs_toks rs @ rest)" using 3(1) by simp
      have "gives b es rest (denote_exec x) (parseblock k b es s)" if "k < n" for k
        using that Block 3 gives_block[OF len h _ 3(3), of "k - 1"] less(1)[of "k - 1"] by (cases k) simp_all
      then show ?thesis using peek_toks(5)[OF len h] by (cases n) (simp_all add: lit_def)
    qed
  }
qed

section \<open>The strings after nulterminate\<close>

text \<open>The tree as \<open>runcmd\<close> reads it from memory.\<close>

fun tree_mem :: "addr \<Rightarrow> memory \<Rightarrow> cmd \<Rightarrow> tree option" where
  "tree_mem line m (EXEC argv eargv) = map_option TExec (strings_at m (map (\<lambda>q. line + of_nat q) argv))"
| "tree_mem line m (REDIR c file efile mode fd) =
     Option.bind (tree_mem line m c) (\<lambda>t. map_option (\<lambda>f. TRedir t f mode fd) (string_at m (line + of_nat file)))"
| "tree_mem line m (PIPE l r) = Option.bind (tree_mem line m l) (\<lambda>t. map_option (TPipe t) (tree_mem line m r))"
| "tree_mem line m (LIST l r) = Option.bind (tree_mem line m l) (\<lambda>t. map_option (TList t) (tree_mem line m r))"
| "tree_mem line m (BACK c) = map_option TBack (tree_mem line m c)"

fun ends :: "cmd \<Rightarrow> nat set" where
  "ends (EXEC argv eargv) = set eargv"
| "ends (REDIR c file efile mode fd) = insert efile (ends c)"
| "ends (PIPE l r) = ends l \<union> ends r"
| "ends (LIST l r) = ends l \<union> ends r"
| "ends (BACK c) = ends c"

lemma ends_good: "good b es c \<Longrightarrow> e \<in> ends c \<Longrightarrow> e \<le> es \<and> \<not> wordchar (b e)"
  by (induction c) (auto simp: range_ok_def list_all2_conv_all_nth in_set_conv_nth)

lemma ptr_inj: "i < 2 ^ 64 \<Longrightarrow> j < 2 ^ 64 \<Longrightarrow> (line :: addr) + of_nat i = line + of_nat j \<longleftrightarrow> i = j"
  by (simp add: word_of_nat_eq_iff take_bit_nat_eq_self)

lemma fold_null:
  assumes "\<forall>e\<in>set es'. e < 2 ^ 64" "i < 2 ^ 64"
  shows "fold (\<lambda>e m. m((line :: addr) + of_nat e := 0)) es' m (line + of_nat i) =
    (if i \<in> set es' then 0 else m (line + of_nat i))"
  using assms(1)
proof (induction es' arbitrary: m)
  case (Cons e es')
  then show ?case using ptr_inj[OF assms(2), of e line] by auto
qed simp

lemma nulterminate_at:
  assumes "i < 2 ^ 64"
  shows "\<forall>e\<in>ends c. e < 2 ^ 64 \<Longrightarrow>
    nulterminate line c m (line + of_nat i) = (if i \<in> ends c then 0 else m (line + of_nat i))"
  using ptr_inj[OF assms] by (induction c arbitrary: m) (simp_all add: fold_null[OF _ assms])

lemma str_atI:
  "(\<And>i. i < length cs \<Longrightarrow> m (p + of_nat i) = cs ! i \<and> cs ! i \<noteq> 0) \<Longrightarrow> m (p + of_nat (length cs)) = 0 \<Longrightarrow>
     str_at m p cs"
proof (induction cs arbitrary: p)
  case (Cons c cs)
  have "str_at m (p + 1) cs"
    using Cons.prems(1)[of "Suc i" for i] Cons.prems(2) by (intro Cons.IH) (simp_all add: algebra_simps)
  then show ?case using Cons.prems(1)[of 0] by simp
qed simp

lemma range_string:
  assumes m: "\<And>i. i \<le> es \<Longrightarrow> m (line + of_nat i) = (if i \<in> E then 0 else b i)"
    and E: "\<And>e. e \<in> E \<Longrightarrow> \<not> wordchar (b e)" and r: "range_ok b es q e" "e \<in> E"
  shows "string_at m (line + of_nat q) = Some (seg b q e)"
proof (rule string_at_str, rule str_atI)
  have q: "q < e" "e \<le> es" "\<And>i. q \<le> i \<Longrightarrow> i < e \<Longrightarrow> wordchar (b i)" using r by (auto simp: range_ok_def)
  fix i assume "i < length (seg b q e)"
  then have i: "q + i < e" "seg b q e ! i = b (q + i)" by (simp_all add: seg_def)
  then have "wordchar (b (q + i))" using q by simp
  moreover from this have "q + i \<notin> E" using E by blast
  ultimately show "m (line + of_nat q + of_nat i) = seg b q e ! i \<and> seg b q e ! i \<noteq> 0"
    using m[of "q + i"] i q(2) by (simp add: wordchar_def add.assoc)
next
  have "q < e" "e \<le> es" using r by (auto simp: range_ok_def)
  then show "m (line + of_nat q + of_nat (length (seg b q e))) = 0"
    using m[of e] r(2) by (simp add: add.assoc of_nat_add[symmetric] del: of_nat_add)
qed

lemma tree_mem_tree_of:
  assumes m: "\<And>i. i \<le> es \<Longrightarrow> m (line + of_nat i) = (if i \<in> E then 0 else b i)"
    and E: "\<And>e. e \<in> E \<Longrightarrow> \<not> wordchar (b e)"
  shows "good b es c \<Longrightarrow> ends c \<subseteq> E \<Longrightarrow> tree_mem line m c = Some (tree_of b c)"
proof (induction c)
  case (EXEC argv eargv)
  then have "list_all2 (range_ok b es) argv eargv" "set eargv \<subseteq> E" by simp_all
  then have "strings_at m (map (\<lambda>q. line + of_nat q) argv) = Some (map2 (seg b) argv eargv)"
  proof (induction argv eargv rule: list_all2_induct)
    case (Cons q qs e es')
    then show ?case using range_string[of es m line E b q e, OF m E] by simp
  qed simp
  then show ?case by simp
qed (simp_all add: range_string[OF m E])

lemma wf_redirs_toks: "wf_redirs rs \<Longrightarrow> list_all wf_tok (redirs_toks rs)"
proof (induction rs)
  case (Cons r rs)
  then show ?case by (cases r) (simp_all add: wf_redirs_def redirs_toks_def symbols_cases)
qed (simp add: redirs_toks_def)

lemma wf_toks:
  "wf_line l \<Longrightarrow> list_all wf_tok (line_toks l)"
  "wf_pipe p \<Longrightarrow> list_all wf_tok (pipe_toks p)"
  "wf_exec x \<Longrightarrow> list_all wf_tok (exec_toks x)"
  by (induction l and p and x rule: line_toks_pipe_toks_exec_toks.induct)
    (auto simp: list_all_iff symbols_cases wf_redirs_toks[unfolded list_all_iff])

lemma parseline_text:
  assumes "wf_line l" "str_at m line (line_text l)" "length (line_text l) < 2 ^ 31"
  defines "b \<equiv> \<lambda>i. m (line + of_nat i)" and "es \<equiv> length (line_text l)"
  shows "\<exists>c. parseline (parse_fuel es) b es 0 = POk c es \<and> tree_of b c = denote l \<and> good b es c"
proof -
  have len: "cstr_len b es"
    using str_at_nth[OF assms(2)] str_at_drop[OF assms(2), of es] by (auto simp: cstr_len_def b_def es_def)
  have "seg b 0 es = line_text l"
    using str_at_nth[OF assms(2)] by (intro nth_equalityI) (simp_all add: seg_def es_def b_def)
  then have "holds b es 0 (line_toks l @ [])"
    using text_holds[OF len wf_toks(1)[OF assms(1)]] by (simp add: line_text_def)
  from gives_parse(1)[OF len this assms(1)] have "gives b es [] (denote l) (parseline (parse_fuel es) b es 0)"
    by (simp add: line_end_def)
  moreover have "parseline (parse_fuel es) b es 0 \<noteq> PFuel"
    using fine_parse(1)[OF len, of 0 "parse_fuel es"] by (auto simp: parse_fuel_def)
  ultimately show ?thesis by (auto simp: gives_def)
qed

text \<open>
  C32. The shell parses back what a command line means: for every line made of words,
  redirections, pipes, lists, background commands and parentheses, with at most nine words in each
  simple command, \<open>parsecmd\<close> on its text ends without an error and without output, and the
  strings in memory, each ended by the null byte that \<open>nulterminate\<close> writes, make up exactly
  that command.
\<close>

theorem parsecmd_roundtrip:
  assumes "wf_line l" "str_at (umem p) line (line_text l)" "length (line_text l) < 2 ^ 31"
  shows "\<exists>c. parsecmd os line p = Some (Val c (p\<lparr>umem := nulterminate line c (umem p)\<rparr>)) \<and>
    tree_mem line (nulterminate line c (umem p)) c = Some (denote l)"
proof -
  let ?b = "\<lambda>i. umem p (line + of_nat i)" and ?es = "length (line_text l)"
  obtain c where c: "parseline (parse_fuel ?es) ?b ?es 0 = POk c ?es" "tree_of ?b c = denote l" "good ?b ?es c"
    using parseline_text[OF assms] by blast
  have es: "unat (of_nat ?es :: uint) = ?es" using assms(3) by (simp add: unat_of_nat)
  have "parsecmd os line p = Some (Val c (p\<lparr>umem := nulterminate line c (umem p)\<rparr>))"
    using strlen_u_str[OF assms(2,3)] c(1) es
    by (simp add: parsecmd_def ubind_def calc_def mem_u_def set_mem_def Let_def peek_u_def)
  moreover have "tree_mem line (nulterminate line c (umem p)) c = Some (tree_of ?b c)"
    using ends_good[OF c(3)] assms(3) c(3)
    by (intro tree_mem_tree_of[of ?es _ line "ends c" ?b] nulterminate_at) force+
  ultimately show ?thesis using c(2) by auto
qed

text \<open>\<open>( cat < in ; ls -l ) | grep x >> out &\<close>\<close>

definition sample_line :: sline where
  "sample_line =
     LEnd (PBar
       (Block (LSeq (PEnd (Simple [] [(lit ''cat'', [RIn (lit ''in'')])])) 0
              (LEnd (PEnd (Simple [] [(lit ''ls'', []), (lit ''-l'', [])])) 0)) [])
       (PEnd (Simple [] [(lit ''grep'', []), (lit ''x'', [RApp (lit ''out'')])]))) 1"

definition sample_proc :: "unit uproc" where
  "sample_proc = \<lparr>umem = poke (\<lambda>_. 0) 4096 (line_text sample_line @ [0]), world = ()\<rparr>"

lemma sample_text: "line_text sample_line = lit ''( cat < in ; ls -l ) | grep x >> out & ''"
  by (simp add: sample_line_def line_text_def toks_text_def redirs_toks_def lit_def)

theorem parsecmd_roundtrip_witness:
  "wf_line sample_line \<and>
   (\<forall>os. \<exists>c m. parsecmd os 4096 sample_proc = Some (Val c (sample_proc\<lparr>umem := m\<rparr>)) \<and>
      tree_mem 4096 m c = Some (TBack (TPipe
        (TList (TRedir (TExec [lit ''cat'']) (lit ''in'') 0 0) (TExec [lit ''ls'', lit ''-l'']))
        (TRedir (TExec [lit ''grep'', lit ''x'']) (lit ''out'') 0x201 1))))"
proof -
  have wf: "wf_line sample_line"
    by (simp add: sample_line_def wf_redirs_def wf_word_def lit_def wordchar_def whitespace_def symbols_def MAXARGS_def)
  have "str_at (umem sample_proc) (4096 + of_nat (length ([] :: uchar list))) (line_text sample_line)"
    unfolding sample_proc_def uproc.simps
    by (rule poke_str[where ys = "[]"]) (simp_all add: sample_text lit_def)
  then have "str_at (umem sample_proc) 4096 (line_text sample_line)" by simp
  moreover have "length (line_text sample_line) < 2 ^ 31" by (simp add: sample_text lit_def)
  moreover have "denote sample_line = TBack (TPipe
        (TList (TRedir (TExec [lit ''cat'']) (lit ''in'') 0 0) (TExec [lit ''ls'', lit ''-l'']))
        (TRedir (TExec [lit ''grep'', lit ''x'']) (lit ''out'') 0x201 1))"
    by (simp add: sample_line_def O_RDONLY_def O_WRONLY_def O_CREATE_def)
  ultimately show ?thesis using parsecmd_roundtrip[OF wf] wf by metis
qed

end
