(* ===== verification/Mkfs.thy ===== *)
theory Mkfs
  imports UserOp Fs
begin

unbundle bit_operations_syntax

text \<open>
  \<open>mkfs/mkfs.c\<close>: the program that builds the first file system on the machine where the kernel
  is compiled. The image file is a sequence of sectors; the files to copy and the failures of
  the host are a parameter. Messages are left out. The host is little endian.
\<close>

section \<open>State\<close>

abbreviation FSSIZE :: uint where "FSSIZE \<equiv> 1000"
abbreviation NINODES :: uint where "NINODES \<equiv> 200"
definition nbitmap :: uint where "nbitmap = FSSIZE div (BSIZE * 8) + 1"
definition ninodeblocks :: uint where "ninodeblocks = NINODES div IPB + 1"
definition nlog :: uint where "nlog = word_of_int LOGSIZE"
definition nmeta :: uint where "nmeta = 2 + nlog + ninodeblocks + nbitmap"
definition nblocks :: uint where "nblocks = FSSIZE - nmeta"

text \<open>
  The host: whether the image can be created, what successive reads of a file give until the
  first that gives nothing, and which sectors of the image can be read and written.
\<close>

record host =
  creates :: "uchar list \<Rightarrow> bool"
  file_reads :: "uchar list \<Rightarrow> uchar list list option"
  io_ok :: "nat \<Rightarrow> bool"

text \<open>The image with its length in sectors, and the global variables that change.\<close>

record mkfs =
  image :: "nat \<Rightarrow> cstr"
  sectors :: nat
  msb :: superblock
  freeinode :: uint
  freeblock :: uint

record dinode =
  din_type :: ushort
  din_major :: ushort
  din_minor :: ushort
  din_nlink :: ushort
  din_size :: uint
  din_addrs :: "nat \<Rightarrow> uint"

definition mreads :: "(mkfs \<Rightarrow> 'a) \<Rightarrow> (mkfs, 'a) uop" where
  "mreads f s = Some (Val (f s) s)"

definition mset :: "(mkfs \<Rightarrow> mkfs) \<Rightarrow> (mkfs, unit) uop" where
  "mset f s = Some (Val () (f s))"

text \<open>\<open>exit\<close>, and a failed \<open>assert\<close>, which a shell reports as status 134.\<close>

definition mexit :: "uint \<Rightarrow> (mkfs, 'a) uop" where
  "mexit c s = Some (Exit c s)"

definition assert_fails :: "(mkfs, 'a) uop" where
  "assert_fails = mexit 134"

section \<open>Byte order\<close>

definition xshort :: "ushort \<Rightarrow> ushort" where
  "xshort x = ld16 ((\<lambda>_. 0)(0 := ucast x, 1 := ucast (drop_bit 8 x))) 0"

definition xint :: "uint \<Rightarrow> uint" where
  "xint x = ld32 ((\<lambda>_. 0)(0 := ucast x, 1 := ucast (drop_bit 8 x), 2 := ucast (drop_bit 16 x),
     3 := ucast (drop_bit 24 x))) 0"

section \<open>Sectors\<close>

text \<open>The product \<open>sec * BSIZE\<close> is a 32-bit number. A read at the end of the image is short.\<close>

abbreviation sector :: "uint \<Rightarrow> nat" where
  "sector sec \<equiv> unat (sec * BSIZE) div unat BSIZE"

definition wsect :: "host \<Rightarrow> uint \<Rightarrow> cstr \<Rightarrow> (mkfs, unit) uop" where
  "wsect h sec buf =
     (if \<not> io_ok h (sector sec) then mexit 1
      else mset (\<lambda>s. s\<lparr>image := (image s)(sector sec := (\<lambda>i. if i < unat BSIZE then buf i else 0)),
                      sectors := max (sectors s) (Suc (sector sec))\<rparr>))"

definition rsect :: "host \<Rightarrow> uint \<Rightarrow> (mkfs, cstr) uop" where
  "rsect h sec =
     ubind (mreads sectors) (\<lambda>n.
     if \<not> io_ok h (sector sec) \<or> n \<le> sector sec then mexit 1
     else mreads (\<lambda>s. image s (sector sec)))"

section \<open>Inodes\<close>

text \<open>The assignments \<open>*dip = *ip\<close> and \<open>*ip = *dip\<close> between a \<open>struct dinode\<close> and a place in a buffer.\<close>

definition set_dinode :: "dinode \<Rightarrow> nat \<Rightarrow> cstr \<Rightarrow> cstr" where
  "set_dinode din ofs d =
     put_addrs (din_addrs din) ofs (NDIRECT + 1)
       (st32 (st16 (st16 (st16 (st16 d ofs (din_type din)) (ofs + 2) (din_major din)) (ofs + 4) (din_minor din))
          (ofs + 6) (din_nlink din)) (ofs + 8) (din_size din))"

definition dinode_at :: "cstr \<Rightarrow> nat \<Rightarrow> dinode" where
  "dinode_at d ofs = \<lparr>din_type = ld16 d ofs, din_major = ld16 d (ofs + 2), din_minor = ld16 d (ofs + 4),
     din_nlink = ld16 d (ofs + 6), din_size = ld32 d (ofs + 8),
     din_addrs = (\<lambda>i. if i \<le> NDIRECT then ld32 d (ofs + 12 + 4 * i) else 0)\<rparr>"

definition winode :: "host \<Rightarrow> uint \<Rightarrow> dinode \<Rightarrow> (mkfs, unit) uop" where
  "winode h ino ip =
     ubind (mreads (\<lambda>s. IBLOCK ino (msb s))) (\<lambda>bn.
     ubind (rsect h bn) (\<lambda>buf.
     wsect h bn (set_dinode ip (dinode_off ino) buf)))"

definition rinode :: "host \<Rightarrow> uint \<Rightarrow> (mkfs, dinode) uop" where
  "rinode h ino =
     ubind (mreads (\<lambda>s. IBLOCK ino (msb s))) (\<lambda>bn.
     ubind (rsect h bn) (\<lambda>buf.
     uret (dinode_at buf (dinode_off ino))))"

definition mkfs_ialloc :: "host \<Rightarrow> ushort \<Rightarrow> (mkfs, uint) uop" where
  "mkfs_ialloc h type =
     ubind (mreads freeinode) (\<lambda>ino.
     ubind (mset (\<lambda>s. s\<lparr>freeinode := freeinode s + 1\<rparr>)) (\<lambda>_.
     ubind (winode h ino \<lparr>din_type = xshort type, din_major = 0, din_minor = 0, din_nlink = xshort 1,
       din_size = xint 0, din_addrs = (\<lambda>_. 0)\<rparr>) (\<lambda>_.
     uret ino)))"

section \<open>Blocks\<close>

text \<open>The bitmap of the first \<open>used\<close> blocks; \<open>used\<close> is an \<open>int\<close>.\<close>

fun bitmap_upto :: "nat \<Rightarrow> cstr" where
  "bitmap_upto 0 = (\<lambda>_. 0)"
| "bitmap_upto (Suc i) = (let buf = bitmap_upto i in buf(i div 8 := buf (i div 8) OR bit_mask i))"

definition mkfs_balloc :: "host \<Rightarrow> uint \<Rightarrow> (mkfs, unit) uop" where
  "mkfs_balloc h used =
     (if sint used \<ge> sint BSIZE * 8 then assert_fails
      else ubind (mreads (\<lambda>s. sb_bmapstart (msb s))) (\<lambda>b.
        wsect h b (bitmap_upto (nat (sint used)))))"

text \<open>\<open>freeblock++\<close>\<close>

definition next_block :: "(mkfs, uint) uop" where
  "next_block =
     ubind (mreads freeblock) (\<lambda>b.
     ubind (mset (\<lambda>s. s\<lparr>freeblock := freeblock s + 1\<rparr>)) (\<lambda>_.
     uret b))"

text \<open>The address of a block of the file, allocated when it is zero, as \<open>iappend\<close> computes it.\<close>

definition alloc_addr :: "dinode \<Rightarrow> nat \<Rightarrow> (mkfs, dinode) uop" where
  "alloc_addr din k =
     (if xint (din_addrs din k) = 0 then
        ubind next_block (\<lambda>b. uret (din\<lparr>din_addrs := (din_addrs din)(k := xint b)\<rparr>))
      else uret din)"

definition alloc_entry :: "host \<Rightarrow> uint \<Rightarrow> nat \<Rightarrow> cstr \<Rightarrow> (mkfs, cstr) uop" where
  "alloc_entry h x k indirect =
     (if ld32 indirect k = 0 then
        ubind next_block (\<lambda>b.
        ubind (wsect h x (st32 indirect k (xint b))) (\<lambda>_.
        uret (st32 indirect k (xint b))))
      else uret indirect)"

definition iappend_block :: "host \<Rightarrow> dinode \<Rightarrow> uint \<Rightarrow> (mkfs, dinode \<times> uint) uop" where
  "iappend_block h din fbn =
     (if unat fbn < NDIRECT then
        ubind (alloc_addr din (unat fbn)) (\<lambda>din.
        uret (din, xint (din_addrs din (unat fbn))))
      else
        let k = 4 * (unat fbn - NDIRECT) in
        ubind (alloc_addr din NDIRECT) (\<lambda>din.
        ubind (rsect h (xint (din_addrs din NDIRECT))) (\<lambda>indirect.
        ubind (alloc_entry h (xint (din_addrs din NDIRECT)) k indirect) (\<lambda>indirect.
        uret (din, xint (ld32 indirect k))))))"

definition append_chunk :: "uint \<Rightarrow> nat \<Rightarrow> nat" where
  "append_chunk off n = min n (unat ((off div BSIZE + 1) * BSIZE - off))"

lemma block_rest: "unat ((off div BSIZE + 1) * BSIZE - off) = 1024 - unat off mod 1024"
proof -
  have "(off div BSIZE + 1) * BSIZE - off = BSIZE - (off - off div BSIZE * BSIZE)" by (simp add: ring_distribs)
  also have "off - off div BSIZE * BSIZE = off mod BSIZE" by (simp add: minus_div_mult_eq_mod)
  finally have e: "(off div BSIZE + 1) * BSIZE - off = BSIZE - off mod BSIZE" .
  have "unat (off mod BSIZE) = unat off mod 1024" by (simp add: unat_mod BSIZE_def)
  moreover from this have "off mod BSIZE \<le> BSIZE" by (simp add: word_le_nat_alt BSIZE_def)
  ultimately show ?thesis unfolding e by (simp add: unat_sub BSIZE_def)
qed

lemma append_chunk_eq: "append_chunk off n = min n (1024 - unat off mod 1024)"
  by (simp add: append_chunk_def block_rest)

lemma append_chunk_pos: "0 < n \<Longrightarrow> 0 < append_chunk off n"
  by (simp add: append_chunk_eq)

text \<open>The loop of \<open>iappend\<close> on the bytes \<open>p\<close> that are left.\<close>

function iappend_loop :: "host \<Rightarrow> dinode \<Rightarrow> uint \<Rightarrow> uchar list \<Rightarrow> (mkfs, dinode \<times> uint) uop" where
  "iappend_loop h din off p =
     (if p = [] then uret (din, off) else
      let fbn = off div BSIZE; n1 = append_chunk off (length p) in
      if unat fbn \<ge> MAXFILE then assert_fails else
      ubind (iappend_block h din fbn) (\<lambda>(din, x).
      ubind (rsect h x) (\<lambda>buf.
      ubind (wsect h x (kcopy buf (unat (off - fbn * BSIZE)) (\<lambda>i. p ! i) n1)) (\<lambda>_.
      iappend_loop h din (off + of_nat n1) (drop n1 p)))))"
  by pat_completeness auto

termination iappend_loop
  by (relation "measure (\<lambda>(_, _, _, p). length p)") (simp_all add: append_chunk_pos)

declare iappend_loop.simps [simp del]

definition iappend :: "host \<Rightarrow> uint \<Rightarrow> uchar list \<Rightarrow> (mkfs, unit) uop" where
  "iappend h ino p =
     ubind (rinode h ino) (\<lambda>din.
     ubind (iappend_loop h din (xint (din_size din)) p) (\<lambda>(din, off).
     winode h ino (din\<lparr>din_size := xint off\<rparr>)))"

section \<open>The program\<close>

text \<open>A directory entry: the bytes of \<open>de\<close> after \<open>bzero\<close>, the number and the name.\<close>

definition dirent_bytes :: "uint \<Rightarrow> uchar list \<Rightarrow> uchar list" where
  "dirent_bytes ino name =
     (let n = xshort (ucast ino) in
      [ucast n, ucast (drop_bit 8 n)] @ take DIRSIZ (name @ replicate DIRSIZ 0))"

definition short_name :: "uchar list \<Rightarrow> uchar list" where
  "short_name arg = (if take 5 arg = lit ''user/'' then drop 5 arg else arg)"

definition skip_underscore :: "uchar list \<Rightarrow> uchar list" where
  "skip_underscore name = (case name of c # cs \<Rightarrow> if c = of_char (CHR ''_'') then cs else name | [] \<Rightarrow> name)"

definition add_file :: "host \<Rightarrow> uint \<Rightarrow> uchar list \<Rightarrow> (mkfs, unit) uop" where
  "add_file h rootino arg =
     (let shortname = short_name arg in
      if of_char (CHR ''/'') \<in> set shortname then assert_fails else
      case file_reads h arg of
        None \<Rightarrow> mexit 1
      | Some cs \<Rightarrow>
          ubind (mkfs_ialloc h T_FILE) (\<lambda>ino.
          ubind (iappend h rootino (dirent_bytes ino (skip_underscore shortname))) (\<lambda>_.
          ufor cs (iappend h ino))))"

definition mkfs_sb :: superblock where
  "mkfs_sb = \<lparr>sb_magic = FSMAGIC, sb_size = xint FSSIZE, sb_nblocks = xint nblocks, sb_ninodes = xint NINODES,
     sb_nlog = xint nlog, sb_logstart = xint 2, sb_inodestart = xint (2 + nlog),
     sb_bmapstart = xint (2 + nlog + ninodeblocks)\<rparr>"

definition superblock_bytes :: "superblock \<Rightarrow> cstr" where
  "superblock_bytes b =
     st32 (st32 (st32 (st32 (st32 (st32 (st32 (st32 (\<lambda>_. 0) 0 (sb_magic b)) 4 (sb_size b)) 8 (sb_nblocks b))
       12 (sb_ninodes b)) 16 (sb_nlog b)) 20 (sb_logstart b)) 24 (sb_inodestart b)) 28 (sb_bmapstart b)"

text \<open>The end of \<open>main\<close> rounds the size of the root directory up and writes the bitmap.\<close>

definition fix_root :: "host \<Rightarrow> uint \<Rightarrow> (mkfs, unit) uop" where
  "fix_root h rootino =
     ubind (rinode h rootino) (\<lambda>din.
     let off = xint (din_size din) in
     winode h rootino (din\<lparr>din_size := xint ((off div BSIZE + 1) * BSIZE)\<rparr>))"

definition mkfs_main :: "host \<Rightarrow> uchar list list \<Rightarrow> (mkfs, unit) uop" where
  "mkfs_main h argv =
     (if length argv < 2 then mexit 1
      else if \<not> creates h (argv ! 1) then mexit 1
      else
        ubind (mset (\<lambda>s. s\<lparr>image := (\<lambda>_ _. 0), sectors := 0, msb := mkfs_sb, freeblock := nmeta\<rparr>)) (\<lambda>_.
        ubind (ufor [0..<unat FSSIZE] (\<lambda>i. wsect h (of_nat i) (\<lambda>_. 0))) (\<lambda>_.
        ubind (mreads (superblock_bytes \<circ> msb)) (\<lambda>buf.
        ubind (wsect h 1 buf) (\<lambda>_.
        ubind (mkfs_ialloc h T_DIR) (\<lambda>rootino.
        if rootino \<noteq> ROOTINO then assert_fails else
        ubind (iappend h rootino (dirent_bytes rootino (lit ''.''))) (\<lambda>_.
        ubind (iappend h rootino (dirent_bytes rootino (lit ''..''))) (\<lambda>_.
        ubind (ufor (drop 2 argv) (add_file h rootino)) (\<lambda>_.
        ubind (fix_root h rootino) (\<lambda>_.
        ubind (mreads freeblock) (\<lambda>used.
        ubind (mkfs_balloc h used) (\<lambda>_.
        mexit 0))))))))))))"

text \<open>The global variables when the program starts.\<close>

definition mkfs_start :: mkfs where
  "mkfs_start = \<lparr>image = (\<lambda>_ _. 0), sectors = 0, msb = get_superblock (\<lambda>_. 0), freeinode = 1, freeblock = 0\<rparr>"

end
