(* ===== verification/MkfsImage.thy ===== *)
theory MkfsImage
  imports Mkfs FsRead
begin

unbundle bit_operations_syntax

text \<open>
  The blocks of an image that \<open>mkfs\<close> builds: which address each part of a file has, that no two
  parts share a block, and what the steps of \<open>iappend\<close> do to it.
\<close>

section \<open>The blocks of files\<close>

text \<open>
  Slot \<open>k\<close> of a file: the direct addresses, the address of the indirect block in slot 12, and
  the addresses in the indirect block from slot 13 on. \<open>dslot k\<close> is the slot of part \<open>k\<close>.
\<close>

definition slot :: "(nat \<Rightarrow> cstr) \<Rightarrow> (nat \<Rightarrow> uint) \<Rightarrow> nat \<Rightarrow> uint" where
  "slot v a k = (if k \<le> 12 then a k else if a 12 = 0 then 0 else ld32 (v (unat (a 12))) (4 * (k - 13)))"

definition dslot :: "nat \<Rightarrow> nat" where
  "dslot k = (if k < 12 then k else k + 1)"

text \<open>The slots that a file of \<open>n\<close> bytes needs, and their number.\<close>

definition needs :: "nat \<Rightarrow> nat set" where
  "needs n = {k. k < 269 \<and> (if k < 12 then 1024 * k < n else if k = 12 then 12288 < n else 1024 * (k - 1) < n)}"

definition blocks :: "nat \<Rightarrow> nat" where
  "blocks n = (n + 1023) div 1024 + (if 12288 < n then 1 else 0)"

definition trunc :: "cstr \<Rightarrow> cstr" where
  "trunc d = (\<lambda>i. if i < 1024 then d i else 0)"

text \<open>
  With the blocks from \<open>fb\<close> on free: file \<open>n\<close> has the addresses \<open>A n\<close> and uses the slots
  \<open>U n\<close>; its bytes are \<open>F n\<close>, and the rest of its last block is zero.
\<close>

definition slots_ok :: "nat \<Rightarrow> (nat \<Rightarrow> cstr) \<Rightarrow> (nat \<Rightarrow> nat \<Rightarrow> uint) \<Rightarrow> (nat \<Rightarrow> nat set) \<Rightarrow> bool" where
  "slots_ok fb v A U \<longleftrightarrow> 46 \<le> fb \<and> fb \<le> 1000 \<and> (\<forall>b\<ge>fb. v b = (\<lambda>_. 0)) \<and> (\<forall>n. U n \<subseteq> {..<269}) \<and>
     (\<forall>n k. k < 269 \<longrightarrow> (slot v (A n) k \<noteq> 0 \<longleftrightarrow> k \<in> U n)) \<and>
     (\<forall>n k. k \<in> U n \<longrightarrow> 46 \<le> unat (slot v (A n) k) \<and> unat (slot v (A n) k) < fb) \<and>
     (\<forall>n k m j. k \<in> U n \<longrightarrow> j \<in> U m \<longrightarrow> slot v (A n) k = slot v (A m) j \<longrightarrow> n = m \<and> k = j)"

definition byte_of :: "uchar list \<Rightarrow> nat \<Rightarrow> uchar" where
  "byte_of xs i = (if i < length xs then xs ! i else 0)"

definition bytes_ok :: "(nat \<Rightarrow> cstr) \<Rightarrow> (nat \<Rightarrow> nat \<Rightarrow> uint) \<Rightarrow> (nat \<Rightarrow> nat set) \<Rightarrow> (nat \<Rightarrow> uchar list) \<Rightarrow> bool" where
  "bytes_ok v A U F \<longleftrightarrow> (\<forall>n i. i < length (F n) \<longrightarrow> dslot (i div 1024) \<in> U n) \<and>
     (\<forall>n i. dslot (i div 1024) \<in> U n \<longrightarrow>
        v (unat (slot v (A n) (dslot (i div 1024)))) (i mod 1024) = byte_of (F n) i)"

lemma slots_okD:
  assumes "slots_ok fb v A U"
  shows "46 \<le> fb" "fb \<le> 1000" "fb \<le> b \<Longrightarrow> v b = (\<lambda>_. 0)" "k \<in> U n \<Longrightarrow> k < 269"
    "k < 269 \<Longrightarrow> slot v (A n) k \<noteq> 0 \<longleftrightarrow> k \<in> U n" "k \<in> U n \<Longrightarrow> 46 \<le> unat (slot v (A n) k)"
    "k \<in> U n \<Longrightarrow> unat (slot v (A n) k) < fb"
    "k \<in> U n \<Longrightarrow> j \<in> U m \<Longrightarrow> slot v (A n) k = slot v (A m) j \<Longrightarrow> n = m \<and> k = j"
  using assms unfolding slots_ok_def by blast+

lemma slot_top: "k \<le> 12 \<Longrightarrow> slot v a k = a k"
  by (simp add: slot_def)

lemma dslot_lt: "k < 268 \<Longrightarrow> dslot k < 269" "dslot k \<noteq> 12"
  by (auto simp: dslot_def)

lemma dslot_inj: "dslot j = dslot k \<longleftrightarrow> j = k"
  by (auto simp: dslot_def split: if_splits)

text \<open>A slot in use beyond the direct ones needs the indirect block.\<close>

lemma indirect_used:
  assumes "slots_ok fb v A U" "k \<in> U n" "12 < k"
  shows "12 \<in> U n"
proof -
  have "slot v (A n) k \<noteq> 0" using slots_okD(4,5)[OF assms(1)] assms(2) by blast
  then have "slot v (A n) 12 \<noteq> 0" using assms(3) by (auto simp: slot_def split: if_splits)
  then show ?thesis using slots_okD(5)[OF assms(1), of 12 n] by simp
qed

lemma fresh_uint: "fb \<le> 1000 \<Longrightarrow> unat (of_nat fb :: uint) = fb"
  by (simp add: unat_of_nat)

section \<open>Taking a block\<close>

text \<open>What taking block \<open>fb\<close> for slot \<open>k\<close> of file \<open>n\<close> has to do to the slots.\<close>

lemma take_slot:
  assumes ok: "slots_ok fb v A U" and fb: "fb < 1000" and k: "k < 269" "k \<notin> U n"
    and new: "slot v' (A' n) k = of_nat fb"
    and old: "\<And>m j. j < 269 \<Longrightarrow> (m, j) \<noteq> (n, k) \<Longrightarrow> slot v' (A' m) j = slot v (A m) j"
    and free: "\<And>b. fb < b \<Longrightarrow> v' b = (\<lambda>_. 0)"
  shows "slots_ok (Suc fb) v' A' (U(n := insert k (U n)))"
proof -
  note D = slots_okD[OF ok]
  have u: "unat (of_nat fb :: uint) = fb" using fb by (intro fresh_uint) simp
  then have nz: "(of_nat fb :: uint) \<noteq> 0" using D(1) by auto
  let ?U = "U(n := insert k (U n))" and ?s = "\<lambda>m j. slot v' (A' m) j"
  have new': "unat (?s n k) = fb" using new u by simp
  have oldD: "j < 269" "?s m j = slot v (A m) j" "46 \<le> unat (?s m j)" "unat (?s m j) < fb"
    if "j \<in> U m" "(m, j) \<noteq> (n, k)" for m j
    using D(4,6,7)[OF that(1)] old[of j m] that(2) by simp_all
  have used: "j \<in> U m \<and> (m, j) \<noteq> (n, k) \<or> m = n \<and> j = k" if "j \<in> ?U m" for m j
    using that k(2) by (auto split: if_splits)
  have range: "46 \<le> unat (?s m j) \<and> unat (?s m j) < Suc fb" if "j \<in> ?U m" for m j
    using used[OF that]
  proof
    assume "j \<in> U m \<and> (m, j) \<noteq> (n, k)"
    then show ?thesis using oldD(3,4)[of j m] by simp
  next
    assume "m = n \<and> j = k"
    then show ?thesis using new' D(1) by simp
  qed
  have distinct: "m = m' \<and> j = j'" if a: "j \<in> ?U m" "j' \<in> ?U m'" "?s m j = ?s m' j'" for m j m' j'
    using used[OF a(1)] used[OF a(2)]
  proof (elim disjE)
    assume o: "j \<in> U m \<and> (m, j) \<noteq> (n, k)" "j' \<in> U m' \<and> (m', j') \<noteq> (n, k)"
    then have "slot v (A m) j = slot v (A m') j'" using a(3) oldD(2) by simp
    then show ?thesis using D(8) o by blast
  next
    assume o: "j \<in> U m \<and> (m, j) \<noteq> (n, k)" "m' = n \<and> j' = k"
    then show ?thesis using oldD(4)[of j m] new' a(3) by simp
  next
    assume o: "m = n \<and> j = k" "j' \<in> U m' \<and> (m', j') \<noteq> (n, k)"
    then show ?thesis using oldD(4)[of j' m'] new' a(3) by simp
  qed simp
  have "?s m j \<noteq> 0 \<longleftrightarrow> j \<in> ?U m" if "j < 269" for m j
  proof (cases "(m, j) = (n, k)")
    case True
    then show ?thesis using new nz by simp
  next
    case False
    then have "j \<in> ?U m \<longleftrightarrow> j \<in> U m" by auto
    then show ?thesis using D(5)[OF that, of m] old[OF that False] by simp
  qed
  moreover have "?U m \<subseteq> {..<269}" for m using D(4)[of _ m] k(1) by auto
  moreover have "46 \<le> Suc fb" "Suc fb \<le> 1000" "\<forall>b\<ge>Suc fb. v' b = (\<lambda>_. 0)" using D(1) fb free by (simp_all add: Suc_le_eq)
  ultimately show ?thesis unfolding slots_ok_def using range distinct by blast
qed

lemma slot_addr_upd: "k \<le> 12 \<Longrightarrow> j < 269 \<Longrightarrow> j \<noteq> k \<Longrightarrow> k = 12 \<longrightarrow> (a 12 = 0 \<and> v (unat x) = (\<lambda>_. 0)) \<Longrightarrow>
    slot v (a(k := x)) j = slot v a j"
  by (auto simp: slot_def ld32_def)

lemma take_top:
  assumes ok: "slots_ok fb v A U" and fb: "fb < 1000" and k: "k \<le> 12" "k \<notin> U n"
  shows "slots_ok (Suc fb) v (A(n := (A n)(k := of_nat fb))) (U(n := insert k (U n)))"
proof (rule take_slot[OF ok fb _ k(2)])
  note D = slots_okD[OF ok]
  have z: "A n k = 0" using D(5)[of k n] k by (simp add: slot_top)
  have f: "v (unat (of_nat fb :: uint)) = (\<lambda>_. 0)" using D(3)[of fb] fresh_uint[of fb] fb by simp
  show "k < 269" using k by simp
  show "slot v ((A(n := (A n)(k := of_nat fb))) n) k = of_nat fb" using k by (simp add: slot_top)
  show "slot v ((A(n := (A n)(k := of_nat fb))) m) j = slot v (A m) j" if "j < 269" "(m, j) \<noteq> (n, k)" for m j
    using that z f k(1) slot_addr_upd[of k j "A n" v "of_nat fb"] by auto
  show "v b = (\<lambda>_. 0)" if "fb < b" for b using D(3)[of b] that by simp
qed

lemma slot_block_upd:
  assumes "x \<noteq> unat (a 12) \<or> (\<forall>i<256. k = i + 13 \<longrightarrow> ld32 (trunc d) (4 * i) = ld32 (v x) (4 * i))" "k < 269"
  shows "slot (v(x := trunc d)) a k = slot v a k"
  using assms by (auto simp: slot_def intro!: spec[where x = "k - 13"])

lemma ld32_trunc: "i + 4 \<le> 1024 \<Longrightarrow> ld32 (trunc d) i = ld32 d i"
  by (rule ld32_cong) (simp add: trunc_def)

lemma indirect_slots:
  assumes ok: "slots_ok fb v A U" and k: "12 < k" "12 \<in> U n" and j: "j < 269" "(m, j) \<noteq> (n, k)"
  defines "x \<equiv> unat (A n 12)"
  shows "slot (v(x := trunc (st32 (v x) (4 * (k - 13)) b))) (A m) j = slot v (A m) j"
proof (rule slot_block_upd[OF _ j(1)], cases "m = n")
  case True
  then show "x \<noteq> unat (A m 12) \<or> (\<forall>i<256. j = i + 13 \<longrightarrow> ld32 (trunc (st32 (v x) (4 * (k - 13)) b)) (4 * i) = ld32 (v x) (4 * i))"
    using j k by (auto simp: ld32_trunc intro!: ld32_st32_other)
next
  case False
  note D = slots_okD[OF ok]
  have "A m 12 \<noteq> A n 12"
  proof
    assume e: "A m 12 = A n 12"
    moreover have "A n 12 \<noteq> 0" using D(5)[of 12 n] k by (simp add: slot_top)
    ultimately have "12 \<in> U m" using D(5)[of 12 m] by (simp add: slot_top)
    then show False using D(8)[of 12 m 12 n] k e False by (simp add: slot_top)
  qed
  then show "x \<noteq> unat (A m 12) \<or> (\<forall>i<256. j = i + 13 \<longrightarrow> ld32 (trunc (st32 (v x) (4 * (k - 13)) b)) (4 * i) = ld32 (v x) (4 * i))"
    by (simp add: x_def word_unat_eq_iff)
qed

lemma take_indirect:
  assumes ok: "slots_ok fb v A U" and fb: "fb < 1000" and k: "12 < k" "k < 269" "k \<notin> U n" "12 \<in> U n"
  defines "x \<equiv> unat (A n 12)"
  shows "slots_ok (Suc fb) (v(x := trunc (st32 (v x) (4 * (k - 13)) (of_nat fb)))) A (U(n := insert k (U n)))"
proof (rule take_slot[OF ok fb k(2,3)])
  note D = slots_okD[OF ok]
  let ?v = "v(x := trunc (st32 (v x) (4 * (k - 13)) (of_nat fb)))"
  have nz: "A n 12 \<noteq> 0" using D(5)[of 12 n] k by (simp add: slot_top)
  then show "slot ?v (A n) k = of_nat fb" using k by (simp add: slot_def x_def ld32_trunc)
  show "slot ?v (A m) j = slot v (A m) j" if "j < 269" "(m, j) \<noteq> (n, k)" for m j
    unfolding x_def by (rule indirect_slots[OF ok k(1,4) that])
  have "x < fb" using D(7)[of 12 n] k by (simp add: slot_top x_def)
  then show "?v b = (\<lambda>_. 0)" if "fb < b" for b using D(3)[of b] that by simp
qed

section \<open>Writing data\<close>

lemma bytes_frame:
  assumes b: "bytes_ok v A U F" and U: "\<And>m. U m \<subseteq> U' m"
    and old: "\<And>m j. j \<in> U m \<Longrightarrow> slot v' (A' m) j = slot v (A m) j"
      "\<And>m j. j \<in> U m \<Longrightarrow> j \<noteq> 12 \<Longrightarrow> v' (unat (slot v (A m) j)) = v (unat (slot v (A m) j))"
    and new: "\<And>m j. j \<in> U' m \<Longrightarrow> j \<notin> U m \<Longrightarrow> j \<noteq> 12 \<Longrightarrow> v' (unat (slot v' (A' m) j)) = (\<lambda>_. 0)"
  shows "bytes_ok v' A' U' F"
  unfolding bytes_ok_def
proof (intro conjI allI impI)
  fix n i
  let ?k = "dslot (i div 1024)"
  have u: "i < length (F n) \<Longrightarrow> ?k \<in> U n" using b unfolding bytes_ok_def by blast
  then show "i < length (F n) \<Longrightarrow> ?k \<in> U' n" using U by blast
  assume k: "?k \<in> U' n"
  show "v' (unat (slot v' (A' n) ?k)) (i mod 1024) = byte_of (F n) i"
  proof (cases "?k \<in> U n")
    case True
    then have "v (unat (slot v (A n) ?k)) (i mod 1024) = byte_of (F n) i" using b unfolding bytes_ok_def by blast
    then show ?thesis using old[OF True] dslot_lt(2) by simp
  next
    case False
    then have "byte_of (F n) i = 0" using u by (auto simp: byte_of_def)
    then show ?thesis using new[OF k False dslot_lt(2)] by simp
  qed
qed

lemma bytes_take_top:
  assumes ok: "slots_ok fb v A U" and b: "bytes_ok v A U F" and k: "k \<le> 12" "k \<notin> U n" and fb: "fb < 1000"
  shows "bytes_ok v (A(n := (A n)(k := of_nat fb))) (U(n := insert k (U n))) F"
proof (rule bytes_frame[OF b])
  note D = slots_okD[OF ok]
  have z: "A n k = 0" using D(5)[of k n] k by (simp add: slot_top)
  have f: "v (unat (of_nat fb :: uint)) = (\<lambda>_. 0)" using D(3)[of fb] fresh_uint[of fb] fb by simp
  show "slot v ((A(n := (A n)(k := of_nat fb))) m) j = slot v (A m) j" if j: "j \<in> U m" for m j
  proof (cases "m = n")
    case True
    then have "j \<noteq> k" "j < 269" using j k(2) D(4) by blast+
    moreover from z f have "k = 12 \<longrightarrow> A n 12 = 0 \<and> v (unat (of_nat fb :: uint)) = (\<lambda>_. 0)" by blast
    ultimately show ?thesis using True slot_addr_upd[OF k(1), of j "A n" v "of_nat fb"] by simp
  qed simp
  show "v (unat (slot v ((A(n := (A n)(k := of_nat fb))) m) j)) = (\<lambda>_. 0)"
    if "j \<in> (U(n := insert k (U n))) m" "j \<notin> U m" for m j
    using that f k(1) by (cases "m = n") (auto simp: slot_top)
qed auto

lemma bytes_take_indirect:
  assumes ok: "slots_ok fb v A U" and b: "bytes_ok v A U F" and k: "12 < k" "k < 269" "k \<notin> U n" "12 \<in> U n"
    and fb: "fb < 1000"
  defines "x \<equiv> unat (A n 12)"
  shows "bytes_ok (v(x := trunc (st32 (v x) (4 * (k - 13)) (of_nat fb)))) A (U(n := insert k (U n))) F"
proof (rule bytes_frame[OF b])
  note D = slots_okD[OF ok]
  let ?v = "v(x := trunc (st32 (v x) (4 * (k - 13)) (of_nat fb)))"
  show "slot ?v (A m) j = slot v (A m) j" if j: "j \<in> U m" for m j
    unfolding x_def using j k(3) by (intro indirect_slots[OF ok k(1,4) D(4)[OF j]]) auto
  show "?v (unat (slot v (A m) j)) = v (unat (slot v (A m) j))" if j: "j \<in> U m" "j \<noteq> 12" for m j
  proof -
    have "slot v (A m) j \<noteq> slot v (A n) 12" using D(8)[OF j(1) k(4)] j(2) by blast
    then show ?thesis by (simp add: x_def slot_top word_unat_eq_iff)
  qed
  have nz: "A n 12 \<noteq> 0" "x < fb" using D(5,7)[of 12 n] k by (simp_all add: slot_top x_def)
  then have "slot ?v (A n) k = of_nat fb" "?v fb = (\<lambda>_. 0)"
    using k D(3)[of fb] by (simp_all add: slot_def x_def ld32_trunc)
  then show "?v (unat (slot ?v (A m) j)) = (\<lambda>_. 0)" if "j \<in> (U(n := insert k (U n))) m" "j \<notin> U m" for m j
    using that fresh_uint[of fb] fb by (cases "m = n") auto
qed auto

text \<open>Writing to a data block leaves all slots alone.\<close>

lemma write_slots:
  assumes ok: "slots_ok fb v A U" and k: "k \<in> U n" "k \<noteq> 12"
  defines "x \<equiv> unat (slot v (A n) k)"
  shows "slot (v(x := trunc d)) (A m) j = slot v (A m) j" "slots_ok fb (v(x := trunc d)) A U"
proof -
  note D = slots_okD[OF ok]
  have x: "46 \<le> x" "x < fb" using D(6,7)[OF k(1)] by (simp_all add: x_def)
  have "x \<noteq> unat (A m 12)" for m
  proof (cases "12 \<in> U m")
    case True
    then have "slot v (A n) k \<noteq> slot v (A m) 12" using D(8)[OF k(1) True] k(2) by blast
    then show ?thesis by (simp add: x_def slot_top word_unat_eq_iff)
  next
    case False
    then have "A m 12 = 0" using D(5)[of 12 m] by (simp add: slot_top)
    then show ?thesis using x by simp
  qed
  then have "unat (A m 12) \<noteq> x" for m by metis
  then show s: "slot (v(x := trunc d)) (A m) j = slot v (A m) j" for m j by (simp add: slot_def)
  have "(v(x := trunc d)) b = (\<lambda>_. 0)" if "fb \<le> b" for b using D(3)[OF that] that x by simp
  then show "slots_ok fb (v(x := trunc d)) A U" using ok unfolding slots_ok_def s by simp
qed

lemma write_bytes:
  assumes ok: "slots_ok fb v A U" and b: "bytes_ok v A U F" and k: "dslot (length (F n) div 1024) \<in> U n"
    and c: "c \<le> length p" "length (F n) mod 1024 + c \<le> 1024"
  defines "x \<equiv> unat (slot v (A n) (dslot (length (F n) div 1024)))"
  shows "bytes_ok (v(x := trunc (kcopy (v x) (length (F n) mod 1024) (\<lambda>i. p ! i) c))) A U (F(n := F n @ take c p))"
  unfolding bytes_ok_def
proof (intro conjI allI impI)
  fix m i
  note D = slots_okD[OF ok]
  define q r where "q = length (F n) div 1024" and "r = length (F n) mod 1024"
  have qr: "length (F n) = 1024 * q + r" by (simp add: q_def r_def)
  let ?k = "dslot (i div 1024)"
  let ?v = "v(x := trunc (kcopy (v x) (length (F n) mod 1024) (\<lambda>i. p ! i) c))" and ?F = "F(n := F n @ take c p)"
  have slot: "slot ?v (A m) j = slot v (A m) j" for m j
    unfolding x_def by (rule write_slots(1)[OF ok k dslot_lt(2)])
  show "?k \<in> U m" if i: "i < length (?F m)"
  proof (cases "i < length (F m)")
    case True
    then show ?thesis using b unfolding bytes_ok_def by blast
  next
    case False
    then have m: "m = n" using i by (auto split: if_splits)
    then have "i - length (F n) < 1024 - length (F n) mod 1024" using i False c by simp
    from same_block[OF this] False m have "i div 1024 = length (F n) div 1024" by simp
    then show ?thesis using k m by simp
  qed
  assume u: "?k \<in> U m"
  then have old: "v (unat (slot v (A m) ?k)) (i mod 1024) = byte_of (F m) i" using b unfolding bytes_ok_def by blast
  show "?v (unat (slot ?v (A m) ?k)) (i mod 1024) = byte_of (?F m) i"
  proof (cases "m = n \<and> i div 1024 = q")
    case True
    then have i: "i = 1024 * q + i mod 1024" using div_mult_mod_eq[of i 1024] by linarith
    have "?v (unat (slot ?v (A m) ?k)) (i mod 1024) =
        (if r \<le> i mod 1024 \<and> i mod 1024 < r + c then p ! (i mod 1024 - r) else byte_of (F n) i)"
      using True old unfolding slot by (simp add: x_def q_def r_def trunc_def kcopy_def)
    moreover have "i - length (F n) = i mod 1024 - r" using i qr by simp
    moreover have "i < length (F n) \<longleftrightarrow> i mod 1024 < r" "i < length (F n) + c \<longleftrightarrow> i mod 1024 < r + c" using i qr by linarith+
    ultimately show ?thesis using True c(1) by (auto simp: byte_of_def nth_append)
  next
    case False
    then have "slot v (A m) ?k \<noteq> slot v (A n) (dslot (length (F n) div 1024))"
      using D(8)[OF u k] dslot_inj[of "i div 1024" "length (F n) div 1024"] unfolding q_def by blast
    moreover have "byte_of (?F m) i = byte_of (F m) i"
    proof (cases "m = n")
      case True
      have "i div 1024 \<noteq> q" using False True by blast
      then have "\<not> (length (F n) \<le> i \<and> i < length (F n) + c)"
      proof (rule contrapos_nn)
        assume a: "length (F n) \<le> i \<and> i < length (F n) + c"
        then have "i - length (F n) < 1024 - length (F n) mod 1024" using c(2) by linarith
        from same_block[OF this] a show "i div 1024 = q" by (simp add: q_def)
      qed
      then show ?thesis using True c(1) by (auto simp: byte_of_def nth_append)
    qed simp
    ultimately show ?thesis using old unfolding slot by (simp add: x_def word_unat_eq_iff)
  qed
qed

section \<open>Sectors of the image\<close>

lemma xint_id [simp]: "xint x = x"
proof -
  have "xint x = ld32 (st32 (\<lambda>_. 0) 0 x) 0" unfolding xint_def by (rule ld32_cong) (auto simp: st32_def)
  then show ?thesis by simp
qed

lemma xshort_id [simp]: "xshort x = x"
proof -
  have "xshort x = ld16 (st16 (\<lambda>_. 0) 0 x) 0" unfolding xshort_def by (rule ld16_cong) (auto simp: st16_def)
  then show ?thesis by simp
qed

lemma sector_eq: "unat x < 1000 \<Longrightarrow> sector x = unat x"
proof -
  assume "unat x < 1000"
  then have "unat (x * BSIZE) = unat x * 1024" by (simp add: unat_word_ariths BSIZE_def)
  then show ?thesis by (simp add: BSIZE_def)
qed

text \<open>The state of the program once the image has its full length.\<close>

definition running :: "host \<Rightarrow> mkfs \<Rightarrow> bool" where
  "running h s \<longleftrightarrow> sectors s = 1000 \<and> msb s = mkfs_sb \<and> (\<forall>n<1000. io_ok h n)"

definition wrote :: "nat \<Rightarrow> cstr \<Rightarrow> mkfs \<Rightarrow> mkfs" where
  "wrote x d s = s\<lparr>image := (image s)(x := trunc d)\<rparr>"

lemma wrote_sel [simp]:
  "image (wrote x d s) = (image s)(x := trunc d)" "freeblock (wrote x d s) = freeblock s" "freeinode (wrote x d s) = freeinode s"
  "msb (wrote x d s) = msb s" "sectors (wrote x d s) = sectors s" "running h (wrote x d s) = running h s"
  by (simp_all add: wrote_def running_def)

lemma rsect_eq [simp]: "running h s \<Longrightarrow> unat x < 1000 \<Longrightarrow> rsect h x s = Some (Val (image s (unat x)) s)"
  by (simp add: rsect_def mreads_def ubind_def running_def sector_eq)

lemma wsect_eq [simp]: "running h s \<Longrightarrow> unat x < 1000 \<Longrightarrow> wsect h x d s = Some (Val () (wrote (unat x) d s))"
proof -
  assume a: "running h s" "unat x < 1000"
  have "sectors s = 1000" "io_ok h (unat x)" using a by (simp_all add: running_def)
  moreover from this a have "max (sectors s) (Suc (sector x)) = sectors s" by (simp add: sector_eq Suc_le_eq)
  moreover have "(\<lambda>i. if i < unat BSIZE then d i else 0) = trunc d" by (simp add: trunc_def BSIZE_def)
  ultimately show ?thesis using a(2) by (simp add: wsect_def mset_def wrote_def sector_eq)
qed

section \<open>Taking blocks\<close>

definition img_ok :: "mkfs \<Rightarrow> (nat \<Rightarrow> nat \<Rightarrow> uint) \<Rightarrow> (nat \<Rightarrow> nat set) \<Rightarrow> (nat \<Rightarrow> uchar list) \<Rightarrow> bool" where
  "img_ok s A U F \<longleftrightarrow> slots_ok (unat (freeblock s)) (image s) A U \<and> bytes_ok (image s) A U F"

text \<open>Nothing but free blocks and data blocks has changed.\<close>

definition grows :: "mkfs \<Rightarrow> mkfs \<Rightarrow> bool" where
  "grows s t \<longleftrightarrow> sectors t = sectors s \<and> msb t = msb s \<and> freeinode t = freeinode s \<and> (\<forall>b<46. image t b = image s b)"

lemma grows_refl [simp]: "grows s s"
  by (simp add: grows_def)

lemma grows_trans: "grows s t \<Longrightarrow> grows t u \<Longrightarrow> grows s u"
  by (simp add: grows_def)

lemma grows_running: "grows s t \<Longrightarrow> running h t = running h s"
  by (simp add: grows_def running_def)

lemma grows_wrote: "46 \<le> x \<Longrightarrow> grows s (wrote x d s)"
  by (simp add: grows_def)

definition took :: "mkfs \<Rightarrow> mkfs" where
  "took s = s\<lparr>freeblock := freeblock s + 1\<rparr>"

lemma took_sel [simp]:
  "image (took s) = image s" "freeinode (took s) = freeinode s" "freeblock (took s) = freeblock s + 1"
  "grows s (took s)" "running h (took s) = running h s"
  by (simp_all add: took_def grows_def running_def)

lemma next_block_eq: "next_block s = Some (Val (freeblock s) (took s))"
  by (simp add: next_block_def mreads_def mset_def took_def ubind_def)

lemma unat_took: "unat (freeblock s) < 1000 \<Longrightarrow> unat (freeblock s + 1) = Suc (unat (freeblock s))"
  by (simp add: unat_word_ariths)

lemma alloc_addr_ok:
  assumes ok: "img_ok s A U F" and a: "din_addrs din = A n" and k: "k \<le> 12" and fb: "k \<notin> U n \<Longrightarrow> unat (freeblock s) < 1000"
  shows "\<exists>x t. alloc_addr din k s = Some (Val (din\<lparr>din_addrs := (A n)(k := x)\<rparr>) t) \<and> image t = image s \<and>
    img_ok t (A(n := (A n)(k := x))) (U(n := insert k (U n))) F \<and> grows s t \<and> k \<in> insert k (U n) \<and>
    unat (freeblock t) = unat (freeblock s) + card ({k} - U n)"
proof -
  have D: "slots_ok (unat (freeblock s)) (image s) A U" "bytes_ok (image s) A U F" using ok by (simp_all add: img_ok_def)
  have z: "A n k \<noteq> 0 \<longleftrightarrow> k \<in> U n" using slots_okD(5)[OF D(1), of k n] k by (simp add: slot_top)
  show ?thesis
  proof (cases "k \<in> U n")
    case True
    then have u: "U(n := insert k (U n)) = U" "(A n)(k := A n k) = A n" "A(n := A n) = A" by (simp_all add: insert_absorb)
    have d: "din\<lparr>din_addrs := A n\<rparr> = din" unfolding a[symmetric] by simp
    have "alloc_addr din k s = Some (Val din s)" using True z a by (simp add: alloc_addr_def)
    then show ?thesis using True ok by (intro exI[of _ "A n k"] exI[of _ s]) (simp add: u d)
  next
    case False
    note f = fb[OF False]
    have "alloc_addr din k s = Some (Val (din\<lparr>din_addrs := (A n)(k := freeblock s)\<rparr>) (took s))"
      using False z a next_block_eq[of s] by (simp add: alloc_addr_def)
    moreover have "img_ok (took s) (A(n := (A n)(k := freeblock s))) (U(n := insert k (U n))) F"
      using take_top[OF D(1) f k False] bytes_take_top[OF D k False f] unat_took[OF f] by (simp add: img_ok_def)
    moreover have "card ({k} - U n) = 1" using False by (simp add: insert_Diff_if)
    ultimately show ?thesis using unat_took[OF f] by (intro exI[of _ "freeblock s"] exI[of _ "took s"]) simp
  qed
qed

text \<open>The slots that part \<open>q\<close> of a file needs.\<close>

definition want :: "nat \<Rightarrow> nat set" where
  "want q = (if q < 12 then {q} else {12, q + 1})"

lemma want_facts: "dslot q \<in> want q" "finite (want q)"
  by (simp_all add: want_def dslot_def)

lemma take_entry:
  assumes run: "running h s" and ok: "img_ok s A U F" and k: "12 < k" "k < 269" "12 \<in> U n" and a: "A n 12 = x"
    and fb: "unat (freeblock s) + card ({k} - U n) \<le> 1000"
  shows "\<exists>d t. alloc_entry h x (4 * (k - 13)) (image s (unat x)) s = Some (Val d t) \<and> ld32 d (4 * (k - 13)) = slot (image t) (A n) k \<and>
    img_ok t A (U(n := insert k (U n))) F \<and> grows s t \<and>
    unat (freeblock t) = unat (freeblock s) + card ({k} - U n)"
proof -
  have D: "slots_ok (unat (freeblock s)) (image s) A U" "bytes_ok (image s) A U F" using ok by (simp_all add: img_ok_def)
  have x: "x \<noteq> 0" "46 \<le> unat x" "unat x < unat (freeblock s)"
    using slots_okD(5-7)[OF D(1), of 12 n] k a by (simp_all add: slot_top)
  have xk: "unat x < 1000" using x(3) slots_okD(2)[OF D(1)] by linarith
  have l: "ld32 (image s (unat x)) (4 * (k - 13)) = slot (image s) (A n) k" using k x a by (simp add: slot_def)
  show ?thesis
  proof (cases "k \<in> U n")
    case True
    then have "U(n := insert k (U n)) = U" by (simp add: insert_absorb)
    moreover have "slot (image s) (A n) k \<noteq> 0" using slots_okD(5)[OF D(1) k(2)] True by blast
    ultimately show ?thesis using True ok l by (intro exI[of _ "image s (unat x)"] exI[of _ s]) (simp add: alloc_entry_def)
  next
    case False
    then have c: "card ({k} - U n) = 1" by (simp add: insert_Diff_if)
    then have f: "unat (freeblock s) < 1000" using fb by simp
    have z: "ld32 (image s (unat x)) (4 * (k - 13)) = 0" using slots_okD(5)[OF D(1) k(2), of n] False l by simp
    let ?d = "st32 (image s (unat x)) (4 * (k - 13)) (freeblock s)"
    let ?t = "wrote (unat x) ?d (took s)"
    have "img_ok ?t A (U(n := insert k (U n))) F"
      using take_indirect[OF D(1) f k(1,2) False k(3)] bytes_take_indirect[OF D k(1,2) False k(3) f] unat_took[OF f]
      by (simp add: img_ok_def a)
    moreover have "grows s ?t" using grows_trans[OF took_sel(4) grows_wrote[OF x(2)]] .
    moreover have "ld32 ?d (4 * (k - 13)) = slot (image ?t) (A n) k"
      using k x a by (simp add: slot_def ld32_trunc)
    ultimately show ?thesis using z c f run xk unat_took[OF f] next_block_eq[of s]
      by (intro exI[of _ ?d] exI[of _ ?t]) (simp add: alloc_entry_def)
  qed
qed

lemma iappend_block_ok:
  assumes run: "running h s" and ok: "img_ok s A U F" and a: "din_addrs din = A n" and q: "q < 268"
    and fb: "unat (freeblock s) + card (want q - U n) \<le> 1000"
  shows "\<exists>a t. iappend_block h din (of_nat q) s = Some (Val (din\<lparr>din_addrs := a\<rparr>, slot (image t) a (dslot q)) t) \<and>
    img_ok t (A(n := a)) (U(n := U n \<union> want q)) F \<and> grows s t \<and> (\<forall>i>12. a i = A n i) \<and>
    unat (freeblock t) = unat (freeblock s) + card (want q - U n)"
proof -
  have uq: "unat (of_nat q :: uint) = q" using q by (simp add: unat_of_nat)
  show ?thesis
  proof (cases "q < 12")
    case True
    then have w: "want q = {q}" "dslot q = q" by (simp_all add: want_def dslot_def)
    have "q \<notin> U n \<Longrightarrow> unat (freeblock s) < 1000" using fb unfolding w by (simp add: insert_Diff_if)
    from alloc_addr_ok[where k = q, OF ok a less_imp_le[OF True] this] obtain x t where
      t: "alloc_addr din q s = Some (Val (din\<lparr>din_addrs := (A n)(q := x)\<rparr>) t)"
        "img_ok t (A(n := (A n)(q := x))) (U(n := insert q (U n))) F" "grows s t"
        "unat (freeblock t) = unat (freeblock s) + card ({q} - U n)" by blast
    have "iappend_block h din (of_nat q) s =
        Some (Val (din\<lparr>din_addrs := (A n)(q := x)\<rparr>, slot (image t) ((A n)(q := x)) (dslot q)) t)"
      using True uq t(1) w(2) by (simp add: iappend_block_def NDIRECT_def slot_top)
    then show ?thesis using t True unfolding w by (intro exI[of _ "(A n)(q := x)"] exI[of _ t]) simp
  next
    case False
    then have w: "want q = {12, q + 1}" "dslot q = q + 1" "q - 12 = q + 1 - 13" by (simp_all add: want_def dslot_def)
    have c: "card (want q - U n) = card ({12} - U n) + card ({q + 1} - insert 12 (U n))"
      using False unfolding w by (simp add: insert_Diff_if)
    then have "12 \<notin> U n \<Longrightarrow> unat (freeblock s) < 1000" using fb by (simp add: insert_Diff_if)
    from alloc_addr_ok[where k = 12, OF ok a order_refl this] obtain x t where
      t: "alloc_addr din 12 s = Some (Val (din\<lparr>din_addrs := (A n)(12 := x)\<rparr>) t)"
        "img_ok t (A(n := (A n)(12 := x))) (U(n := insert 12 (U n))) F" "grows s t"
        "unat (freeblock t) = unat (freeblock s) + card ({12} - U n)" by blast
    let ?A = "A(n := (A n)(12 := x))" and ?U = "U(n := insert 12 (U n))"
    have run': "running h t" using run grows_running[OF t(3)] by simp
    have fb': "unat (freeblock t) + card ({q + 1} - ?U n) \<le> 1000" using fb c t(4) by simp
    have k: "12 < q + 1" "q + 1 < 269" "12 \<in> ?U n" "?A n 12 = x" using False q by simp_all
    from take_entry[OF run' t(2) k fb'] obtain d u where
      u: "alloc_entry h x (4 * (q + 1 - 13)) (image t (unat x)) t = Some (Val d u)" "ld32 d (4 * (q + 1 - 13)) = slot (image u) (?A n) (q + 1)"
        "img_ok u ?A (?U(n := insert (q + 1) (?U n))) F" "grows t u"
        "unat (freeblock u) = unat (freeblock t) + card ({q + 1} - ?U n)" by blast
    have xk: "unat x < 1000"
    proof -
      have ts: "slots_ok (unat (freeblock t)) (image t) ?A ?U" using t(2) by (simp add: img_ok_def)
      show ?thesis using slots_okD(7)[OF ts, of 12 n] slots_okD(2)[OF ts] by (simp add: slot_top)
    qed
    have "din_addrs (din\<lparr>din_addrs := (A n)(12 := x)\<rparr>) 12 = x" "\<not> unat (of_nat q :: uint) < NDIRECT" "NDIRECT = 12"
      using False uq by (simp_all add: NDIRECT_def)
    then have "iappend_block h din (of_nat q) s =
        Some (Val (din\<lparr>din_addrs := (A n)(12 := x)\<rparr>, slot (image u) ((A n)(12 := x)) (dslot q)) u)"
      using t(1) u(1,2) rsect_eq[OF run' xk] unfolding iappend_block_def Let_def xint_id uq w(2)
      by (simp add: w(3) fun_upd_same del: fun_upd_apply rsect_eq)
    moreover have "?U(n := insert (q + 1) (?U n)) = U(n := U n \<union> want q)" unfolding w by (simp add: insert_commute)
    ultimately show ?thesis using u(3,5) t(4) c grows_trans[OF t(3) u(4)]
      by (intro exI[of _ "(A n)(12 := x)"] exI[of _ u]) simp
  qed
qed

section \<open>Appending to a file\<close>

lemma part_grow:
  fixes L :: nat
  assumes "0 < c" "L mod 1024 + c \<le> 1024"
  shows "1024 * j < L + c \<longleftrightarrow> 1024 * j < L \<or> j = L div 1024"
proof -
  have L: "L = 1024 * (L div 1024) + L mod 1024" by simp
  have "j \<le> L div 1024" if "1024 * j < L + c" using that L assms by linarith
  moreover have "1024 * j < L" if "j < L div 1024" using that L by linarith
  moreover have "1024 * j < L + c" if "j \<le> L div 1024" using that L assms by linarith
  ultimately show ?thesis by (cases "j = L div 1024") auto
qed

lemma slot_cases:
  obtains "269 \<le> k" | "k = 12" | j where "j < 268" "k = dslot j"
proof -
  consider "269 \<le> k" | "k = 12" | "k < 12" | "12 < k" "k < 269" by linarith
  then show thesis
  proof cases
    case 3
    then show thesis using that(3)[of k] by (simp add: dslot_def)
  next
    case 4
    then show thesis using that(3)[of "k - 1"] by (simp add: dslot_def)
  qed (use that in auto)
qed

lemma needs_iff:
  "j < 268 \<Longrightarrow> dslot j \<in> needs n \<longleftrightarrow> 1024 * j < n" "12 \<in> needs n \<longleftrightarrow> 12288 < n" "269 \<le> k \<Longrightarrow> k \<notin> needs n"
  by (simp_all add: needs_def dslot_def)

lemma want_iff:
  "dslot j \<in> want q \<longleftrightarrow> j = q" "12 \<in> want q \<longleftrightarrow> 12 \<le> q" "269 \<le> k \<Longrightarrow> q < 268 \<Longrightarrow> k \<notin> want q"
  by (auto simp: want_def dslot_def)

lemma needs_grow:
  assumes c: "0 < c" "L mod 1024 + c \<le> 1024" and q: "L div 1024 < 268"
  shows "needs (L + c) = needs L \<union> want (L div 1024)"
proof (rule set_eqI)
  fix k
  have "12288 < L" if "12 < L div 1024" using that div_mult_mod_eq[of L 1024] by linarith
  then have i: "12288 < L + c \<longleftrightarrow> 12288 < L \<or> 12 \<le> L div 1024"
    using part_grow[OF c, of 12] by (cases "12 = L div 1024") auto
  show "k \<in> needs (L + c) \<longleftrightarrow> k \<in> needs L \<union> want (L div 1024)"
  proof (cases k rule: slot_cases)
    case 1
    then show ?thesis using needs_iff(3) want_iff(3)[OF 1 q] by blast
  next
    case 2
    show ?thesis unfolding Un_iff 2 needs_iff want_iff by (rule i)
  next
    case (3 j)
    then show ?thesis unfolding Un_iff 3(2) needs_iff(1)[OF 3(1)] want_iff by (intro part_grow[OF c])
  qed
qed

lemma ceil_part: "(n + 1023) div 1024 = n div 1024 + (if n mod 1024 = 0 then 0 else 1)" for n :: nat
proof -
  define q r where "q = n div 1024" and "r = n mod 1024"
  have n: "n = 1024 * q + r" "r < 1024" by (simp_all add: q_def r_def)
  have "(n + 1023) div 1024 = q + (if r = 0 then 0 else 1)"
    using n by (intro div_nat_eqI) auto
  then show ?thesis by (simp only: q_def r_def)
qed

lemma ceil_grow:
  fixes L :: nat
  assumes "0 < c" "L mod 1024 + c \<le> 1024"
  shows "(L + c + 1023) div 1024 = L div 1024 + 1"
proof -
  define q r where "q = L div 1024" and "r = L mod 1024"
  have L: "L = 1024 * q + r" by (simp add: q_def r_def)
  have "r + c \<le> 1024" using assms by (simp add: r_def)
  then have "(L + c + 1023) div 1024 = q + 1" using assms(1) L by (intro div_nat_eqI) auto
  then show ?thesis by (simp only: q_def)
qed

lemma blocks_grow:
  assumes c: "0 < c" "L mod 1024 + c \<le> 1024" and q: "L div 1024 < 268"
  shows "blocks (L + c) = blocks L + card (want (L div 1024) - needs L)"
proof -
  let ?q = "L div 1024"
  have L: "L = 1024 * ?q + L mod 1024" by simp
  have i: "12288 < L + c \<longleftrightarrow> 12288 < L \<or> 12 = ?q" using part_grow[OF c, of 12] by simp
  have big: "12 < ?q \<Longrightarrow> 12288 < L" using L by linarith
  have "1024 * ?q < L \<longleftrightarrow> L mod 1024 \<noteq> 0" using L by linarith
  then have d: "dslot ?q \<in> needs L \<longleftrightarrow> L mod 1024 \<noteq> 0" unfolding needs_iff(1)[OF q] .
  note t = needs_iff(2)[of L]
  have small: "\<not> 12288 < L" if "L mod 1024 = 0" "12 = ?q" using L that by linarith
  have small': "\<not> 12288 < L" if "?q < 12" using L that mod_less_divisor[of 1024 L] by linarith
  have big': "12288 < L" if "L mod 1024 \<noteq> 0" "12 = ?q" using L that by linarith
  show ?thesis unfolding blocks_def ceil_grow[OF c] ceil_part[of L] i
    using d t big small small' big' unfolding want_def dslot_def
    by (cases "?q < 12"; cases "L mod 1024 = 0"; cases "12 = ?q") (auto simp: insert_Diff_if)
qed

end
