(* ===== verification/MkfsProps.thy ===== *)
theory MkfsProps
  imports MkfsImage FsCodec
begin

unbundle bit_operations_syntax

text \<open>
  What \<open>mkfs\<close> builds: the image holds the super block, the root directory with the names of the
  files, their contents as the kernel finds them through the block addresses, and a bitmap of
  the blocks in use.
\<close>

section \<open>The loop of iappend\<close>

abbreviation needed :: "(nat \<Rightarrow> uchar list) \<Rightarrow> nat \<Rightarrow> nat set" where
  "needed F \<equiv> \<lambda>m. needs (length (F m))"

lemma iappend_chunk:
  assumes run: "running h s" and ok: "img_ok s A (needed F) F" and a: "din_addrs din = A n"
    and p: "p \<noteq> []" "length (F n) + length p \<le> 268 * 1024"
  defines "c \<equiv> append_chunk (of_nat (length (F n))) (length p)"
  assumes fb: "unat (freeblock s) + blocks (length (F n) + c) \<le> 1000 + blocks (length (F n))"
  shows "\<exists>a t. iappend_loop h din (of_nat (length (F n))) p s =
      iappend_loop h (din\<lparr>din_addrs := a\<rparr>) (of_nat (length (F n) + c)) (drop c p) t \<and>
    img_ok t (A(n := a)) (needed (F(n := F n @ take c p))) (F(n := F n @ take c p)) \<and> grows s t \<and>
    (\<forall>i>12. a i = A n i) \<and> unat (freeblock t) + blocks (length (F n)) = unat (freeblock s) + blocks (length (F n) + c)"
proof -
  define L where "L = length (F n)"
  let ?off = "of_nat L :: uint" and ?q = "L div 1024"
  have L: "L < 268 * 1024" using p unfolding L_def by (cases p) simp_all
  have off: "unat ?off = L" using L by (simp add: unat_of_nat)
  have c: "0 < c" "L mod 1024 + c \<le> 1024" "c \<le> length p"
    using p(1) append_chunk_pos[of "length p" ?off] mod_less_divisor[of 1024 L]
    unfolding c_def L_def[symmetric] append_chunk_eq off by auto
  have q: "?q < 268" using L by (simp add: less_mult_imp_div_less)
  have fbn: "?off div BSIZE = of_nat ?q" "unat (?off - ?off div BSIZE * BSIZE) = L mod 1024" "unat (?off div BSIZE) = ?q"
  proof -
    show u: "unat (?off div BSIZE) = ?q" using off by (simp add: unat_div BSIZE_def)
    from arg_cong[OF u, of "of_nat :: nat \<Rightarrow> uint"] show "?off div BSIZE = of_nat ?q" by simp
    show "unat (?off - ?off div BSIZE * BSIZE) = L mod 1024"
      unfolding minus_div_mult_eq_mod using off by (simp add: unat_mod BSIZE_def)
  qed
  note g = needs_grow[OF c(1,2) q] blocks_grow[OF c(1,2) q]
  have fb': "unat (freeblock s) + card (want ?q - needed F n) \<le> 1000"
    using fb unfolding L_def[symmetric] g(2) by simp
  from iappend_block_ok[OF run ok a q fb'] obtain b t where
    t: "iappend_block h din (of_nat ?q) s = Some (Val (din\<lparr>din_addrs := b\<rparr>, slot (image t) b (dslot ?q)) t)"
      "img_ok t (A(n := b)) ((needed F)(n := needed F n \<union> want ?q)) F" "grows s t" "\<forall>i>12. b i = A n i"
      "unat (freeblock t) = unat (freeblock s) + card (want ?q - needed F n)" by blast
  let ?F = "F(n := F n @ take c p)"
  have U: "(needed F)(n := needed F n \<union> want ?q) = needed ?F"
    using g(1) c(3) by (auto simp: L_def fun_eq_iff)
  have T: "slots_ok (unat (freeblock t)) (image t) (A(n := b)) (needed ?F)" "bytes_ok (image t) (A(n := b)) (needed ?F) F"
    using t(2) unfolding U img_ok_def by simp_all
  have k: "dslot (length (F n) div 1024) \<in> needed ?F n"
    using want_facts(1)[of ?q] fun_cong[OF U, of n] by (simp add: L_def) blast
  define x where "x = slot (image t) b (dslot ?q)"
  have x: "46 \<le> unat x" "unat x < 1000"
    using slots_okD(2)[OF T(1)] slots_okD(6,7)[OF T(1) k] by (simp_all add: x_def L_def)
  let ?d = "kcopy (image t (unat x)) (L mod 1024) (\<lambda>i. p ! i) c"
  let ?u = "wrote (unat x) ?d t"
  have "img_ok ?u (A(n := b)) (needed ?F) ?F"
    using write_slots(2)[OF T(1) k dslot_lt(2), of ?d] write_bytes[OF T k c(3)] c(2)
    by (simp add: img_ok_def x_def L_def)
  moreover have "grows s ?u" using grows_trans[OF t(3) grows_wrote[OF x(1)]] .
  moreover have "iappend_loop h din ?off p s = iappend_loop h (din\<lparr>din_addrs := b\<rparr>) (of_nat (L + c)) (drop c p) ?u"
    using t(1)[folded x_def] p(1) q x run grows_running[OF t(3), of h] fbn c_def[folded L_def, symmetric]
    unfolding iappend_loop.simps[of h din ?off p]
    by (simp add: Let_def MAXFILE_def NDIRECT_def NINDIRECT_def)
  ultimately show ?thesis using t(4,5) g(2) by (intro exI[of _ b] exI[of _ ?u]) (simp add: L_def)
qed

lemma blocks_mono: "m \<le> n \<Longrightarrow> blocks m \<le> blocks n"
  unfolding blocks_def by (intro add_mono div_le_mono) auto

lemma iappend_loop_ok:
  assumes "running h s" "img_ok s A (needed F) F" "din_addrs din = A n" "length (F n) + length p \<le> 268 * 1024"
    "unat (freeblock s) + blocks (length (F n) + length p) \<le> 1000 + blocks (length (F n))"
  shows "\<exists>a t. iappend_loop h din (of_nat (length (F n))) p s =
      Some (Val (din\<lparr>din_addrs := a\<rparr>, of_nat (length (F n) + length p)) t) \<and>
    img_ok t (A(n := a)) (needed (F(n := F n @ p))) (F(n := F n @ p)) \<and> grows s t \<and> (\<forall>i>12. a i = A n i) \<and>
    unat (freeblock t) + blocks (length (F n)) = unat (freeblock s) + blocks (length (F n) + length p)"
  using assms
proof (induction "length p" arbitrary: s A F din p rule: less_induct)
  case less
  note run = less(2) and ok = less(3) and a = less(4) and len = less(5) and fb = less(6)
  show ?case
  proof (cases "p = []")
    case True
    moreover have "din\<lparr>din_addrs := A n\<rparr> = din" unfolding a[symmetric] by simp
    ultimately show ?thesis using ok
      by (intro exI[of _ "A n"] exI[of _ s]) (simp add: iappend_loop.simps[of h din _ "[]"])
  next
    case False
    define c where "c = append_chunk (of_nat (length (F n))) (length p)"
    have c: "0 < c" "c \<le> length p" using False append_chunk_pos[of "length p"] by (simp_all add: c_def append_chunk_eq)
    have "blocks (length (F n) + c) \<le> blocks (length (F n) + length p)" using c by (intro blocks_mono) simp
    then have "unat (freeblock s) + blocks (length (F n) + c) \<le> 1000 + blocks (length (F n))" using fb by linarith
    from iappend_chunk[OF run ok a False len this[unfolded c_def]] obtain b u where
      u: "iappend_loop h din (of_nat (length (F n))) p s =
          iappend_loop h (din\<lparr>din_addrs := b\<rparr>) (of_nat (length (F n) + c)) (drop c p) u"
        "img_ok u (A(n := b)) (needed (F(n := F n @ take c p))) (F(n := F n @ take c p))" "grows s u" "\<forall>i>12. b i = A n i"
        "unat (freeblock u) + blocks (length (F n)) = unat (freeblock s) + blocks (length (F n) + c)"
      unfolding c_def by blast
    let ?F = "F(n := F n @ take c p)" and ?A = "A(n := b)"
    have L: "length (?F n) = length (F n) + c" "length (F n) + c + length (drop c p) = length (F n) + length p"
      using c by simp_all
    have IH: "running h u" "img_ok u ?A (needed ?F) ?F" "din_addrs (din\<lparr>din_addrs := b\<rparr>) = ?A n"
      "length (?F n) + length (drop c p) \<le> 268 * 1024"
      "unat (freeblock u) + blocks (length (?F n) + length (drop c p)) \<le> 1000 + blocks (length (?F n))"
      "length (drop c p) < length p"
      using run grows_running[OF u(3)] u(2) len L fb u(5) c by simp_all
    from less(1)[OF IH(6,1-5)] obtain a t where
      t: "iappend_loop h (din\<lparr>din_addrs := b\<rparr>) (of_nat (length (?F n))) (drop c p) u =
          Some (Val (din\<lparr>din_addrs := b\<rparr>\<lparr>din_addrs := a\<rparr>, of_nat (length (?F n) + length (drop c p))) t)"
        "img_ok t (?A(n := a)) (needed (?F(n := ?F n @ drop c p))) (?F(n := ?F n @ drop c p))" "grows u t"
        "\<forall>i>12. a i = ?A n i"
        "unat (freeblock t) + blocks (length (?F n)) = unat (freeblock u) + blocks (length (?F n) + length (drop c p))"
      by blast
    have F: "?F(n := ?F n @ drop c p) = F(n := F n @ p)" by simp
    show ?thesis using u(1,4,5) t(1,2,4,5) grows_trans[OF u(3) t(3)] unfolding F L
      by (intro exI[of _ a] exI[of _ t]) simp
  qed
qed

section \<open>Inodes on the image\<close>

definition dinode_on :: "mkfs \<Rightarrow> nat \<Rightarrow> dinode" where
  "dinode_on s n = dinode_at (image s (32 + n div 16)) (64 * (n mod 16))"

lemma mkfs_layout:
  "sb_inodestart mkfs_sb = 32" "sb_bmapstart mkfs_sb = 45" "nmeta = 46" "nblocks = 954" "nlog = 30"
  by (simp_all add: mkfs_sb_def nmeta_def nblocks_def nlog_def ninodeblocks_def nbitmap_def
      LOGSIZE_def IPB_def BSIZE_def)

lemma inode_place:
  assumes "n < 200"
  shows "unat (IBLOCK (of_nat n) mkfs_sb) = 32 + n div 16" "dinode_off (of_nat n) = 64 * (n mod 16)"
    "32 + n div 16 < 45" "64 * (n mod 16) + 64 \<le> 1024"
proof -
  have n: "unat (of_nat n :: uint) = n" using assms by (simp add: unat_of_nat)
  show b: "32 + n div 16 < 45" using assms by (simp add: less_mult_imp_div_less)
  have "unat (of_nat n div 16 :: uint) = n div 16" using n by (simp add: unat_div)
  then show "unat (IBLOCK (of_nat n) mkfs_sb) = 32 + n div 16" using b
    by (simp add: IBLOCK_def mkfs_layout IPB_def unat_word_ariths)
  show "dinode_off (of_nat n) = 64 * (n mod 16)" using n by (simp add: dinode_off_def IPB_def unat_mod)
  have "n mod 16 < 16" by simp
  then show "64 * (n mod 16) + 64 \<le> 1024" by linarith
qed

lemma rinode_eq: "running h s \<Longrightarrow> n < 200 \<Longrightarrow> rinode h (of_nat n) s = Some (Val (dinode_on s n) s)"
  using inode_place[of n] by (simp add: rinode_def mreads_def ubind_def dinode_on_def running_def)

lemma winode_eq:
  "running h s \<Longrightarrow> n < 200 \<Longrightarrow> winode h (of_nat n) din s =
   Some (Val () (wrote (32 + n div 16) (set_dinode din (64 * (n mod 16)) (image s (32 + n div 16))) s))"
  using inode_place[of n] rsect_eq[of h s "IBLOCK (of_nat n) mkfs_sb"] wsect_eq[of h s "IBLOCK (of_nat n) mkfs_sb"]
  by (simp add: winode_def mreads_def ubind_def running_def)

text \<open>The kernel's view of a \<open>struct dinode\<close>.\<close>

definition with_dinode :: "dinode \<Rightarrow> inode \<Rightarrow> inode" where
  "with_dinode din q = q\<lparr>itype := din_type din, imajor := din_major din, iminor := din_minor din, nlink := din_nlink din,
     isize := din_size din, iaddrs := (\<lambda>i. if i \<le> NDIRECT then din_addrs din i else iaddrs q i)\<rparr>"

lemma get_dinode_at: "get_dinode d ofs q = with_dinode (dinode_at d ofs) q"
  by (simp add: get_dinode_def with_dinode_def dinode_at_def cong: if_cong)

lemma set_dinode_put: "set_dinode din ofs d = put_dinode (with_dinode din q) ofs d"
proof -
  have "put_addrs a ofs n d = put_addrs b ofs n d" if "\<And>i. i < n \<Longrightarrow> a i = b i" for a b n d
    using that by (induction n) simp_all
  from this[of "NDIRECT + 1" "din_addrs din" "iaddrs (with_dinode din q)"]
  show ?thesis by (simp add: set_dinode_def put_dinode_def with_dinode_def del: put_addrs.simps)
qed

lemma with_dinode_inj:
  assumes "with_dinode a q = with_dinode b q" "\<And>i. NDIRECT < i \<Longrightarrow> din_addrs a i = din_addrs b i"
  shows "a = b"
proof -
  have "din_addrs a i = din_addrs b i" for i
    using arg_cong[OF assms(1), of "\<lambda>q. iaddrs q i"] assms(2)[of i] by (cases "i \<le> NDIRECT") (simp_all add: with_dinode_def)
  moreover have "din_type a = din_type b" "din_major a = din_major b" "din_minor a = din_minor b" "din_nlink a = din_nlink b"
    "din_size a = din_size b"
    using arg_cong[OF assms(1), of itype] arg_cong[OF assms(1), of imajor] arg_cong[OF assms(1), of iminor]
      arg_cong[OF assms(1), of nlink] arg_cong[OF assms(1), of isize] by (simp_all add: with_dinode_def)
  ultimately show ?thesis by (auto simp: fun_eq_iff intro: dinode.equality)
qed

lemma dinode_at_trunc: "ofs + 64 \<le> 1024 \<Longrightarrow> dinode_at (trunc d) ofs = dinode_at d ofs"
proof -
  assume o: "ofs + 64 \<le> 1024"
  then have "ld16 (trunc d) (ofs + k) = ld16 d (ofs + k)" if "k + 2 \<le> 64" for k
    using that by (intro ld16_cong) (simp add: trunc_def)
  from this[of 0] this[of 2] this[of 4] this[of 6] ld32_trunc[of "ofs + 8" d] o show ?thesis
    by (auto simp: dinode_at_def NDIRECT_def ld32_trunc fun_eq_iff)
qed

lemma dinode_at_set:
  assumes "\<And>i. NDIRECT < i \<Longrightarrow> din_addrs din i = 0"
  shows "dinode_at (set_dinode din ofs d) ofs = din"
    and "ofs + 64 \<le> ofs' \<or> ofs' + 64 \<le> ofs \<Longrightarrow> dinode_at (set_dinode din ofs d) ofs' = dinode_at d ofs'"
proof -
  have z: "NDIRECT < i \<Longrightarrow> din_addrs (dinode_at e o') i = 0" for e o' i by (simp add: dinode_at_def)
  have "with_dinode (dinode_at (set_dinode din ofs d) ofs) q = with_dinode din q" for q
    unfolding get_dinode_at[symmetric] set_dinode_put[of _ _ _ q] get_put_dinode
    by (simp add: disk_part_def with_dinode_def cong: if_cong)
  from with_dinode_inj[OF this] show "dinode_at (set_dinode din ofs d) ofs = din" using z assms by simp
  assume "ofs + 64 \<le> ofs' \<or> ofs' + 64 \<le> ofs"
  then have "with_dinode (dinode_at (set_dinode din ofs d) ofs') q = with_dinode (dinode_at d ofs') q" for q
    unfolding get_dinode_at[symmetric] set_dinode_put[of _ _ _ q] by (rule get_put_dinode_other)
  from with_dinode_inj[OF this] show "dinode_at (set_dinode din ofs d) ofs' = dinode_at d ofs'" using z by simp
qed

text \<open>Writing below the data blocks does not change files.\<close>

lemma img_ok_low:
  assumes ok: "img_ok s A U F" and x: "x < 46"
  shows "img_ok (wrote x d s) A U F"
proof -
  have S: "slots_ok (unat (freeblock s)) (image s) A U" "bytes_ok (image s) A U F" using ok by (simp_all add: img_ok_def)
  note D = slots_okD[OF S(1)]
  let ?v = "(image s)(x := trunc d)"
  have s: "slot ?v (A n) k = slot (image s) (A n) k" for n k
  proof (cases "12 \<in> U n")
    case True
    then have "unat (A n 12) \<noteq> x" using D(6)[of 12 n] x by (simp add: slot_top)
    then show ?thesis by (simp add: slot_def)
  next
    case False
    then have "A n 12 = 0" using D(5)[of 12 n] by (simp add: slot_top)
    then show ?thesis by (simp add: slot_def)
  qed
  have "\<forall>b\<ge>unat (freeblock s). ?v b = (\<lambda>_. 0)" using D(1,3) x by auto
  then have "slots_ok (unat (freeblock s)) ?v A U" using S(1) unfolding slots_ok_def s by simp
  moreover have "bytes_ok ?v A U F"
  proof (rule bytes_frame[OF S(2)])
    show "?v (unat (slot (image s) (A m) j)) = image s (unat (slot (image s) (A m) j))" if "j \<in> U m" for m j
      using D(6)[OF that] x by auto
  qed (auto simp: s)
  ultimately show ?thesis by (simp add: img_ok_def)
qed

section \<open>Files on the image\<close>

text \<open>
  The image holds the inodes \<open>D n\<close> of the files with contents \<open>F n\<close>, for the inode numbers
  given out so far.
\<close>

definition given :: "mkfs \<Rightarrow> nat \<Rightarrow> bool" where
  "given s n \<longleftrightarrow> 1 \<le> n \<and> n < unat (freeinode s)"

definition built :: "host \<Rightarrow> mkfs \<Rightarrow> (nat \<Rightarrow> dinode) \<Rightarrow> (nat \<Rightarrow> uchar list) \<Rightarrow> bool" where
  "built h s D F \<longleftrightarrow> running h s \<and> img_ok s (\<lambda>n. din_addrs (D n)) (needed F) F \<and> 1 \<le> unat (freeinode s) \<and>
     unat (freeinode s) \<le> 200 \<and> get_superblock (image s 1) = mkfs_sb \<and>
     (\<forall>n. given s n \<longrightarrow> dinode_on s n = D n \<and> din_size (D n) = of_nat (length (F n))) \<and>
     (\<forall>n. \<not> given s n \<longrightarrow> F n = [] \<and> din_addrs (D n) = (\<lambda>_. 0)) \<and> (\<forall>n i. 12 < i \<longrightarrow> din_addrs (D n) i = 0)"

lemma builtD:
  assumes "built h s D F"
  shows "running h s" "img_ok s (\<lambda>n. din_addrs (D n)) (needed F) F" "1 \<le> unat (freeinode s)" "unat (freeinode s) \<le> 200"
    "get_superblock (image s 1) = mkfs_sb" "given s n \<Longrightarrow> dinode_on s n = D n" "given s n \<Longrightarrow> din_size (D n) = of_nat (length (F n))"
    "\<not> given s n \<Longrightarrow> F n = []" "\<not> given s n \<Longrightarrow> din_addrs (D n) = (\<lambda>_. 0)" "12 < i \<Longrightarrow> din_addrs (D n) i = 0"
    "given s n \<Longrightarrow> n < 200"
  using assms unfolding built_def given_def by (blast, blast, blast, blast, blast, blast, blast, blast, blast, blast, linarith)

text \<open>Writing an inode block keeps the rest of the image.\<close>

lemma winode_built:
  assumes run: "running h s" and n: "n < 200" and z: "\<And>i. 12 < i \<Longrightarrow> din_addrs din i = 0"
  shows "\<exists>t. winode h (of_nat n) din s = Some (Val () t) \<and> running h t \<and> freeinode t = freeinode s \<and>
    freeblock t = freeblock s \<and> image t 1 = image s 1 \<and> (\<forall>A U F. img_ok s A U F \<longrightarrow> img_ok t A U F) \<and>
    (\<forall>m<200. dinode_on t m = (if m = n then din else dinode_on s m))"
proof -
  let ?d = "set_dinode din (64 * (n mod 16)) (image s (32 + n div 16))"
  let ?t = "wrote (32 + n div 16) ?d s"
  have z': "NDIRECT < i \<Longrightarrow> din_addrs din i = 0" for i using z by (simp add: NDIRECT_def)
  note p = inode_place[OF n]
  have "dinode_on ?t m = (if m = n then din else dinode_on s m)" if m: "m < 200" for m
  proof (cases "m div 16 = n div 16")
    case True
    have o: "64 * (m mod 16) + 64 \<le> 1024" using inode_place(4)[OF m] .
    have "dinode_on ?t m = dinode_at ?d (64 * (m mod 16))"
      using True by (simp add: dinode_on_def dinode_at_trunc[OF o])
    moreover have "m \<noteq> n \<Longrightarrow> m mod 16 \<noteq> n mod 16" using True by (metis div_mult_mod_eq)
    then have "m \<noteq> n \<Longrightarrow> 64 * (n mod 16) + 64 \<le> 64 * (m mod 16) \<or> 64 * (m mod 16) + 64 \<le> 64 * (n mod 16)" by linarith
    ultimately show ?thesis using dinode_at_set[OF z'] True by (auto simp: dinode_on_def)
  qed (auto simp: dinode_on_def)
  then show ?thesis using winode_eq[OF run n] run img_ok_low[of s _ _ _ "32 + n div 16" ?d] p(3) by (intro exI[of _ ?t]) simp
qed

lemma iappend_ok:
  assumes b: "built h s D F" and n: "given s n" and len: "length (F n) + length p \<le> 268 * 1024"
    and fb: "unat (freeblock s) + blocks (length (F n) + length p) \<le> 1000 + blocks (length (F n))"
  shows "\<exists>t a. iappend h (of_nat n) p s = Some (Val () t) \<and>
    built h t (D(n := D n\<lparr>din_addrs := a, din_size := of_nat (length (F n) + length p)\<rparr>)) (F(n := F n @ p)) \<and>
    freeinode t = freeinode s \<and>
    unat (freeblock t) + blocks (length (F n)) = unat (freeblock s) + blocks (length (F n) + length p)"
proof -
  note B = builtD[OF b]
  have n2: "n < 200" by (rule B(11)[OF n])
  obtain a u where u: "iappend_loop h (D n) (of_nat (length (F n))) p s =
      Some (Val (D n\<lparr>din_addrs := a\<rparr>, of_nat (length (F n) + length p)) u)"
    "img_ok u ((\<lambda>n. din_addrs (D n))(n := a)) (needed (F(n := F n @ p))) (F(n := F n @ p))" "grows s u"
    "\<forall>i>12. a i = din_addrs (D n) i"
    "unat (freeblock u) + blocks (length (F n)) = unat (freeblock s) + blocks (length (F n) + length p)"
    using iappend_loop_ok[OF B(1,2) refl len fb] by blast
  let ?din = "D n\<lparr>din_addrs := a, din_size := of_nat (length (F n) + length p)\<rparr>"
  have ru: "running h u" using B(1) grows_running[OF u(3)] by simp
  have gu: "freeinode u = freeinode s" "\<And>b. b < 46 \<Longrightarrow> image u b = image s b" using u(3) by (simp_all add: grows_def)
  have "12 < i \<Longrightarrow> din_addrs ?din i = 0" for i using u(4) B(10) by simp
  from winode_built[OF ru n2 this] obtain t where t: "winode h (of_nat n) ?din u = Some (Val () t)" "running h t"
    "freeinode t = freeinode u" "freeblock t = freeblock u" "image t 1 = image u 1"
    "\<forall>A U F. img_ok u A U F \<longrightarrow> img_ok t A U F" "\<forall>m<200. dinode_on t m = (if m = n then ?din else dinode_on u m)"
    by metis
  let ?D = "D(n := ?din)" and ?F = "F(n := F n @ p)"
  have A: "(\<lambda>m. din_addrs (?D m)) = (\<lambda>n. din_addrs (D n))(n := a)" by auto
  have gv: "given t = given s" using t(3) gu(1) by (simp add: given_def fun_eq_iff)
  have low: "dinode_on u m = dinode_on s m" if "m < 200" for m
    using gu(2) inode_place(3)[OF that] by (simp add: dinode_on_def)
  have "built h t ?D ?F"
    unfolding built_def A gv using t(2,3) t(6)[rule_format, OF u(2)] B(3-5) gu t(5)
  proof (intro conjI allI impI)
    show "dinode_on t m = ?D m" if "given s m" for m using t(7)[rule_format, OF B(11)[OF that]] low[OF B(11)[OF that]] B(6)[OF that] by simp
    show "din_size (?D m) = of_nat (length (?F m))" if "given s m" for m using B(7)[OF that] by simp
    show "?F m = []" "din_addrs (?D m) = (\<lambda>_. 0)" if "\<not> given s m" for m using B(8,9)[OF that] that n by auto
    show "din_addrs (?D m) i = 0" if "12 < i" for m i using that B(10)[OF that] u(4) by simp
  qed simp_all
  moreover have "iappend h (of_nat n) p s = Some (Val () t)"
    using rinode_eq[OF B(1) n2] B(6,7)[OF n] u(1) t(1) by (simp add: iappend_def)
  ultimately show ?thesis using t(3,4) gu(1) u(5) by (intro exI[of _ t] exI[of _ a]) simp
qed

definition new_dinode :: "ushort \<Rightarrow> dinode" where
  "new_dinode type = \<lparr>din_type = type, din_major = 0, din_minor = 0, din_nlink = 1, din_size = 0, din_addrs = (\<lambda>_. 0)\<rparr>"

lemma mkfs_ialloc_ok:
  assumes b: "built h s D F" and n: "unat (freeinode s) = n" "n < 200"
  shows "\<exists>t. mkfs_ialloc h type s = Some (Val (of_nat n) t) \<and> built h t (D(n := new_dinode type)) F \<and>
    unat (freeinode t) = Suc n \<and> freeblock t = freeblock s"
proof -
  note B = builtD[OF b]
  let ?s = "s\<lparr>freeinode := freeinode s + 1\<rparr>"
  have inc: "unat (freeinode s + 1) = Suc n" "freeinode s = of_nat n"
    using n by (simp_all add: unat_word_ariths word_unat_eq_iff unat_of_nat)
  have run: "running h ?s" "\<And>A U F. img_ok s A U F \<Longrightarrow> img_ok ?s A U F" "\<And>m. dinode_on ?s m = dinode_on s m"
    using B(1) by (simp_all add: running_def img_ok_def dinode_on_def)
  have z: "12 < i \<Longrightarrow> din_addrs (new_dinode type) i = 0" for i by (simp add: new_dinode_def)
  from winode_built[OF run(1) n(2) z] obtain t where
    t: "winode h (of_nat n) (new_dinode type) ?s = Some (Val () t)" "running h t" "freeinode t = freeinode ?s"
      "freeblock t = freeblock ?s" "image t 1 = image ?s 1" "\<forall>A U F. img_ok ?s A U F \<longrightarrow> img_ok t A U F"
      "\<forall>m<200. dinode_on t m = (if m = n then new_dinode type else dinode_on ?s m)" by metis
  have ng: "\<not> given s n" "given t m \<longleftrightarrow> given s m \<or> m = n" for m
    using n B(3) t(3) inc(1) by (auto simp: given_def)
  have A: "(\<lambda>m. din_addrs ((D(n := new_dinode type)) m)) = (\<lambda>m. din_addrs (D m))"
    using B(9)[OF ng(1)] by (auto simp: fun_eq_iff new_dinode_def)
  have "built h t (D(n := new_dinode type)) F"
    unfolding built_def A
  proof (intro conjI allI impI)
    show "img_ok t (\<lambda>m. din_addrs (D m)) (needed F) F" using t(6) run(2) B(2) by blast
    show "dinode_on t m = (D(n := new_dinode type)) m" if "given t m" for m
      using that ng t(7)[rule_format, of m] run(3) B(6,11)[of m] n(2) by auto
    show "din_size ((D(n := new_dinode type)) m) = of_nat (length (F m))" if "given t m" for m
      using that ng B(7)[of m] B(8)[OF ng(1)] by (auto simp: new_dinode_def)
    show "F m = []" if "\<not> given t m" for m using that ng B(8) by blast
    show "din_addrs ((D(n := new_dinode type)) m) = (\<lambda>_. 0)" if "\<not> given t m" for m using that ng B(9) by auto
    show "din_addrs ((D(n := new_dinode type)) m) i = 0" if "12 < i" for m i using that B(10) by (simp add: new_dinode_def)
  qed (use t n B inc in simp_all)
  moreover have "mkfs_ialloc h type s = Some (Val (of_nat n) t)"
    using t(1) inc(2) by (simp add: mkfs_ialloc_def mreads_def mset_def ubind_def new_dinode_def)
  ultimately show ?thesis using t(3,4) inc(1) by (intro exI[of _ t]) simp
qed

text \<open>The directory is inode 1, the others are files, and each has one link.\<close>

definition typed :: "mkfs \<Rightarrow> (nat \<Rightarrow> dinode) \<Rightarrow> bool" where
  "typed s D \<longleftrightarrow> (\<forall>n. given s n \<longrightarrow> din_type (D n) = (if n = 1 then T_DIR else T_FILE) \<and> din_nlink (D n) = 1)"

definition fs_built :: "host \<Rightarrow> mkfs \<Rightarrow> (nat \<Rightarrow> uchar list) \<Rightarrow> bool" where
  "fs_built h s F \<longleftrightarrow> (\<exists>D. built h s D F \<and> typed s D)"

lemma iappend_fs:
  assumes "fs_built h s F" "given s n" "length (F n) + length p \<le> 268 * 1024"
    "unat (freeblock s) + blocks (length (F n) + length p) \<le> 1000 + blocks (length (F n))"
  shows "\<exists>t. iappend h (of_nat n) p s = Some (Val () t) \<and> fs_built h t (F(n := F n @ p)) \<and> freeinode t = freeinode s \<and>
    unat (freeblock t) + blocks (length (F n)) = unat (freeblock s) + blocks (length (F n) + length p)"
proof -
  obtain D where D: "built h s D F" "typed s D" using assms(1) by (auto simp: fs_built_def)
  from iappend_ok[OF D(1) assms(2-4)] obtain t a where
    t: "iappend h (of_nat n) p s = Some (Val () t)"
      "built h t (D(n := D n\<lparr>din_addrs := a, din_size := of_nat (length (F n) + length p)\<rparr>)) (F(n := F n @ p))"
      "freeinode t = freeinode s"
      "unat (freeblock t) + blocks (length (F n)) = unat (freeblock s) + blocks (length (F n) + length p)" by blast
  have "typed t (D(n := D n\<lparr>din_addrs := a, din_size := of_nat (length (F n) + length p)\<rparr>))"
    using D(2) t(3) by (auto simp: typed_def given_def)
  then show ?thesis using t by (auto simp: fs_built_def)
qed

lemma appends_fs:
  assumes "fs_built h s F" "given s n" "length (F n) + length (concat cs) \<le> 268 * 1024"
    "unat (freeblock s) + blocks (length (F n) + length (concat cs)) \<le> 1000 + blocks (length (F n))"
  shows "\<exists>t. ufor cs (iappend h (of_nat n)) s = Some (Val () t) \<and> fs_built h t (F(n := F n @ concat cs)) \<and>
    freeinode t = freeinode s \<and>
    unat (freeblock t) + blocks (length (F n)) = unat (freeblock s) + blocks (length (F n) + length (concat cs))"
  using assms
proof (induction cs arbitrary: s F)
  case (Cons c cs)
  have "blocks (length (F n) + length c) \<le> blocks (length (F n) + length (concat (c # cs)))" by (rule blocks_mono) simp
  then have "unat (freeblock s) + blocks (length (F n) + length c) \<le> 1000 + blocks (length (F n))"
    using Cons.prems(4) by linarith
  from iappend_fs[OF Cons.prems(1,2) _ this] Cons.prems(3) obtain u where
    u: "iappend h (of_nat n) c s = Some (Val () u)" "fs_built h u (F(n := F n @ c))" "freeinode u = freeinode s"
      "unat (freeblock u) + blocks (length (F n)) = unat (freeblock s) + blocks (length (F n) + length c)" by auto
  have "given u n" using Cons.prems(2) u(3) by (simp add: given_def)
  from Cons.IH[OF u(2) this] u(4) Cons.prems(3,4) obtain t where
    "ufor cs (iappend h (of_nat n)) u = Some (Val () t)" "fs_built h t (F(n := F n @ c @ concat cs))" "freeinode t = freeinode u"
    "unat (freeblock t) + blocks (length (F n) + length c) =
      unat (freeblock u) + blocks (length (F n) + length c + length (concat cs))"
    by (auto simp: add.assoc fun_upd_same simp del: fun_upd_apply)
  then show ?case using u by (intro exI[of _ t]) (simp add: add.assoc del: fun_upd_apply)
qed simp

section \<open>The files given to the program\<close>

definition content :: "host \<Rightarrow> uchar list \<Rightarrow> uchar list" where
  "content h a = concat (the (file_reads h a))"

definition entry_name :: "uchar list \<Rightarrow> uchar list" where
  "entry_name a = skip_underscore (short_name a)"

definition good_arg :: "host \<Rightarrow> uchar list \<Rightarrow> bool" where
  "good_arg h a \<longleftrightarrow> of_char (CHR ''/'') \<notin> set (short_name a) \<and> file_reads h a \<noteq> None \<and> length (content h a) \<le> 268 * 1024"

text \<open>The entries of the directory for files with inode numbers from \<open>k\<close> on.\<close>

primrec dir_from :: "nat \<Rightarrow> uchar list list \<Rightarrow> uchar list" where
  "dir_from k [] = []"
| "dir_from k (a # as) = dirent_bytes (of_nat k) (entry_name a) @ dir_from (Suc k) as"

lemma dirent_bytes_length [simp]: "length (dirent_bytes n name) = 16"
  by (simp add: dirent_bytes_def Let_def DIRSIZ_def)

lemma dir_from_length [simp]: "length (dir_from k as) = 16 * length as"
  by (induction "as" arbitrary: k) simp_all

lemma blocks_0 [simp]: "blocks 0 = 0"
  by (simp add: blocks_def)

lemma add_file_fs:
  assumes b: "fs_built h s F" and k: "unat (freeinode s) = k" "k < 200" "1 < k" and a: "good_arg h a"
    and len: "length (F 1) + 16 \<le> 268 * 1024"
    and fb: "unat (freeblock s) + blocks (length (F 1) + 16) + blocks (length (content h a)) \<le> 1000 + blocks (length (F 1))"
  shows "\<exists>t. add_file h 1 a s = Some (Val () t) \<and>
    fs_built h t (F(1 := F 1 @ dirent_bytes (of_nat k) (entry_name a), k := content h a)) \<and> unat (freeinode t) = Suc k \<and>
    unat (freeblock t) + blocks (length (F 1)) = unat (freeblock s) + blocks (length (F 1) + 16) + blocks (length (content h a))"
proof -
  obtain cs where cs: "file_reads h a = Some cs" "content h a = concat cs" using a by (auto simp: good_arg_def content_def)
  obtain D where D: "built h s D F" "typed s D" using b by (auto simp: fs_built_def)
  have Fk: "F k = []" using builtD(8)[OF D(1), of k] k by (simp add: given_def)
  obtain s1 where s1: "mkfs_ialloc h T_FILE s = Some (Val (of_nat k) s1)" "built h s1 (D(k := new_dinode T_FILE)) F"
    "unat (freeinode s1) = Suc k" "freeblock s1 = freeblock s"
    using mkfs_ialloc_ok[OF D(1) k(1,2)] by blast
  have "typed s1 (D(k := new_dinode T_FILE))"
    using D(2) s1(3) k by (auto simp: typed_def given_def new_dinode_def less_Suc_eq)
  then have b1: "fs_built h s1 F" using s1(2) by (auto simp: fs_built_def)
  let ?e = "dirent_bytes (of_nat k) (entry_name a)"
  have g1: "given s1 1" using s1(3) k by (simp add: given_def)
  from iappend_fs[OF b1 g1, of ?e] len fb s1(4) obtain s2 where
    s2: "iappend h (of_nat 1) ?e s1 = Some (Val () s2)" "fs_built h s2 (F(1 := F 1 @ ?e))" "freeinode s2 = freeinode s1"
      "unat (freeblock s2) + blocks (length (F 1)) = unat (freeblock s) + blocks (length (F 1) + 16)" by auto
  have g2: "given s2 k" using s1(3) s2(3) k by (simp add: given_def)
  let ?F = "F(1 := F 1 @ ?e)"
  have Fk2: "?F k = []" using Fk k(3) by simp
  have "length (?F k) + length (concat cs) \<le> 268 * 1024"
    "unat (freeblock s2) + blocks (length (?F k) + length (concat cs)) \<le> 1000 + blocks (length (?F k))"
    using a fb s2(4) cs unfolding Fk2 by (simp_all add: good_arg_def)
  from appends_fs[OF s2(2) g2 this] obtain t where
    t: "ufor cs (iappend h (of_nat k)) s2 = Some (Val () t)" "fs_built h t (?F(k := concat cs))" "freeinode t = freeinode s2"
      "unat (freeblock t) = unat (freeblock s2) + blocks (length (concat cs))"
    unfolding Fk2 by (auto simp del: fun_upd_apply)
  have "add_file h 1 a s = Some (Val () t)"
    using a cs(1) s1(1) s2(1) t(1) by (simp add: add_file_def Let_def good_arg_def entry_name_def)
  then show ?thesis using t s2(3,4) s1(3) cs(2) by (intro exI[of _ t]) (simp del: fun_upd_apply)
qed

definition with_files :: "host \<Rightarrow> nat \<Rightarrow> uchar list list \<Rightarrow> (nat \<Rightarrow> uchar list) \<Rightarrow> nat \<Rightarrow> uchar list" where
  "with_files h k as F n =
     (if n = 1 then F 1 @ dir_from k as
      else if k \<le> n \<and> n < k + length as then content h (as ! (n - k)) else F n)"

lemma with_files_Cons:
  "1 < k \<Longrightarrow> with_files h (Suc k) as (F(1 := F 1 @ dirent_bytes (of_nat k) (entry_name a), k := content h a)) =
    with_files h k (a # as) F"
proof
  fix n assume "1 < k"
  then show "with_files h (Suc k) as (F(1 := F 1 @ dirent_bytes (of_nat k) (entry_name a), k := content h a)) n =
      with_files h k (a # as) F n"
    by (cases "n = k") (auto simp: with_files_def nth_Cons')
qed

lemma add_files_fs:
  assumes "fs_built h s F" "unat (freeinode s) = k" "k + length as \<le> 200" "1 < k" "\<forall>a\<in>set as. good_arg h a"
    "length (F 1) + 16 * length as \<le> 268 * 1024"
    "unat (freeblock s) + blocks (length (F 1) + 16 * length as) + (\<Sum>a\<leftarrow>as. blocks (length (content h a)))
       \<le> 1000 + blocks (length (F 1))"
  shows "\<exists>t. ufor as (add_file h 1) s = Some (Val () t) \<and> fs_built h t (with_files h k as F) \<and>
    unat (freeinode t) = k + length as \<and> unat (freeblock t) + blocks (length (F 1)) =
      unat (freeblock s) + blocks (length (F 1) + 16 * length as) + (\<Sum>a\<leftarrow>as. blocks (length (content h a)))"
  using assms
proof (induction "as" arbitrary: s F k)
  case Nil
  then have "with_files h k [] F = F" by (auto simp: with_files_def)
  then show ?case using Nil by simp
next
  case (Cons a "as")
  have "blocks (length (F 1) + 16) \<le> blocks (length (F 1) + 16 * length (a # as))" by (rule blocks_mono) simp
  then have fb: "unat (freeblock s) + blocks (length (F 1) + 16) + blocks (length (content h a)) \<le> 1000 + blocks (length (F 1))"
    using Cons.prems(7) by simp
  from add_file_fs[OF Cons.prems(1,2) _ Cons.prems(4) _ _ fb] Cons.prems obtain u where
    u: "add_file h 1 a s = Some (Val () u)"
      "fs_built h u (F(1 := F 1 @ dirent_bytes (of_nat k) (entry_name a), k := content h a))" "unat (freeinode u) = Suc k"
      "unat (freeblock u) + blocks (length (F 1)) = unat (freeblock s) + blocks (length (F 1) + 16) + blocks (length (content h a))"
    by auto
  let ?F = "F(1 := F 1 @ dirent_bytes (of_nat k) (entry_name a), k := content h a)"
  have F1: "length (?F 1) = length (F 1) + 16" using Cons.prems(4) by simp
  have "Suc k + length as \<le> 200" "1 < Suc k" "\<forall>a\<in>set as. good_arg h a" "length (?F 1) + 16 * length as \<le> 268 * 1024"
    "unat (freeblock u) + blocks (length (?F 1) + 16 * length as) + (\<Sum>a\<leftarrow>as. blocks (length (content h a)))
       \<le> 1000 + blocks (length (?F 1))"
    using Cons.prems u(4) unfolding F1 by (simp_all add: add.assoc)
  from Cons.IH[OF u(2,3) this, unfolded with_files_Cons[OF Cons.prems(4)] F1] obtain t where
    t: "ufor as (add_file h 1) u = Some (Val () t)" "fs_built h t (with_files h k (a # as) F)"
      "unat (freeinode t) = Suc k + length as"
      "unat (freeblock t) + blocks (length (F 1) + 16) = unat (freeblock u) + blocks (length (F 1) + 16 + 16 * length as) +
        (\<Sum>a\<leftarrow>as. blocks (length (content h a)))" by blast
  then show ?case using u by (intro exI[of _ t]) (simp add: add.assoc)
qed

section \<open>The image\<close>

lemma zero_sectors:
  assumes "\<forall>n<1000. io_ok h n" "image s = (\<lambda>_ _. 0)" "n \<le> 1000"
  shows "ufor [0..<n] (\<lambda>i. wsect h (of_nat i) (\<lambda>_. 0)) (s\<lparr>sectors := 0\<rparr>) = Some (Val () (s\<lparr>sectors := n\<rparr>))"
  using assms(3)
proof (induction n)
  case (Suc n)
  have app: "ufor (xs @ [x]) f = ubind (ufor xs f) (\<lambda>_. f x)" for xs :: "nat list" and x and f :: "nat \<Rightarrow> (mkfs, unit) uop"
    by (induction xs) (auto simp: fun_eq_iff ubind_def split: option.split urun.split)
  have n: "unat (of_nat n :: uint) = n" using Suc.prems by (simp add: unat_of_nat)
  then have "sector (of_nat n) = n" using sector_eq[of "of_nat n"] Suc.prems by simp
  then have "wsect h (of_nat n) (\<lambda>_. 0) (s\<lparr>sectors := n\<rparr>) = Some (Val () (s\<lparr>sectors := Suc n\<rparr>))"
    using assms(1,2) Suc.prems by (simp add: wsect_def mset_def fun_upd_idem cong: if_cong)
  then show ?case using Suc by (simp add: app)
qed simp

lemma superblock_stored: "get_superblock (trunc (superblock_bytes b)) = b"
proof -
  have "ld32 (trunc (superblock_bytes b)) (4 * i) = ld32 (superblock_bytes b) (4 * i)" if "i < 8" for i
    using that by (intro ld32_trunc) simp
  from this[of 0] this[of 1] this[of 2] this[of 3] this[of 4] this[of 5] this[of 6] this[of 7]
  show ?thesis by (simp add: get_superblock_def superblock_bytes_def ld32_st32_other)
qed

lemma empty_built:
  assumes "running h s" "freeinode s = 1" "freeblock s = 46" "\<And>b. 46 \<le> b \<Longrightarrow> image s b = (\<lambda>_. 0)"
    "get_superblock (image s 1) = mkfs_sb"
  shows "built h s (\<lambda>_. new_dinode 0) (\<lambda>_. [])"
proof -
  have n: "needs 0 = {}" by (auto simp: needs_def)
  have "slot v (\<lambda>_. 0) k = 0" for v k by (simp add: slot_def)
  then have "img_ok s (\<lambda>_ _. 0) (\<lambda>_. {}) (\<lambda>_. [])" using assms(3,4) by (simp add: img_ok_def slots_ok_def bytes_ok_def)
  then show ?thesis using assms n by (auto simp: built_def given_def new_dinode_def)
qed

text \<open>The bits of the bitmap.\<close>

lemma bit_mask_bit: "bit (bit_mask i) n \<longleftrightarrow> n = i mod 8"
proof -
  have "i mod 8 < 8" by simp
  then show ?thesis by (auto simp: bit_mask_def bit_simps)
qed

lemma mask_test: "(x :: uchar) AND bit_mask i \<noteq> 0 \<longleftrightarrow> bit x (i mod 8)"
proof -
  have "x AND bit_mask i \<noteq> 0 \<longleftrightarrow> (\<exists>n. bit (x AND bit_mask i) n)" by (metis bit_0_eq bot_apply bot_bool_def bit_eq_iff)
  then show ?thesis by (simp add: bit_and_iff bit_mask_bit)
qed

lemma bitmap_upto_bit: "bitmap_upto n (i div 8) AND bit_mask i \<noteq> 0 \<longleftrightarrow> i < n"
  unfolding mask_test
proof (induction n)
  case (Suc n)
  have "i div 8 = n div 8 \<and> i mod 8 = n mod 8 \<longleftrightarrow> i = n" by (metis div_mult_mod_eq)
  then show ?case using Suc by (auto simp: Let_def bit_or_iff bit_mask_bit less_Suc_eq)
qed simp

text \<open>
  What the kernel finds on an image: the inode \<open>n\<close>, and that it describes a file with the given
  contents, in blocks that are marked in use. The rest of the last block is zero.
\<close>

definition kernel_inode :: "(nat \<Rightarrow> cstr) \<Rightarrow> nat \<Rightarrow> inode \<Rightarrow> inode" where
  "kernel_inode img n = get_dinode (img (unat (IBLOCK (of_nat n) (get_superblock (img 1))))) (dinode_off (of_nat n))"

definition marked :: "(nat \<Rightarrow> cstr) \<Rightarrow> uint \<Rightarrow> bool" where
  "marked img b \<longleftrightarrow> (let bi = unat (b mod BPB) in
     img (unat (BBLOCK b (get_superblock (img 1)))) (bi div 8) AND bit_mask bi \<noteq> 0)"

definition holds_file :: "(nat \<Rightarrow> cstr) \<Rightarrow> nat \<Rightarrow> ushort \<Rightarrow> uint \<Rightarrow> uchar list \<Rightarrow> bool" where
  "holds_file img n type sz cs \<longleftrightarrow> (\<forall>q.
     let v = (\<lambda>b. img (unat b)); ip = kernel_inode img n q in
     itype ip = type \<and> nlink ip = 1 \<and> isize ip = sz \<and> (12 * 1024 < length cs \<longrightarrow> iaddrs ip NDIRECT \<noteq> 0 \<and> unat (iaddrs ip NDIRECT) < 1000) \<and>
     (\<forall>k. 1024 * k < length cs \<longrightarrow> 46 \<le> unat (baddr v ip k) \<and> unat (baddr v ip k) < 1000 \<and> marked img (baddr v ip k)) \<and>
     (\<forall>i. 1024 * (i div 1024) < length cs \<longrightarrow> file_byte v ip i = (if i < length cs then cs ! i else 0)))"

text \<open>No block is part of two files.\<close>

definition files_apart :: "(nat \<Rightarrow> cstr) \<Rightarrow> nat set \<Rightarrow> (nat \<Rightarrow> uchar list) \<Rightarrow> bool" where
  "files_apart img N F \<longleftrightarrow> (\<forall>n\<in>N. \<forall>m\<in>N. \<forall>q k j. 1024 * k < length (F n) \<longrightarrow> 1024 * j < length (F m) \<longrightarrow>
     baddr (\<lambda>b. img (unat b)) (kernel_inode img n q) k = baddr (\<lambda>b. img (unat b)) (kernel_inode img m q) j \<longrightarrow>
     n = m \<and> k = j)"

lemma kernel_inode_eq:
  "get_superblock (image t 1) = mkfs_sb \<Longrightarrow> n < 200 \<Longrightarrow> kernel_inode (image t) n q = with_dinode (dinode_on t n) q"
  by (simp add: kernel_inode_def inode_place get_dinode_at dinode_on_def)

lemma baddr_slot:
  assumes "slots_ok fb v A U" "dslot k \<in> U n" "\<And>i. i \<le> 12 \<Longrightarrow> iaddrs ip i = A n i"
  shows "baddr (\<lambda>b. v (unat b)) ip k = slot v (A n) (dslot k)"
proof (cases "k < 12")
  case True
  then show ?thesis using assms(3) by (simp add: baddr_def slot_def dslot_def NDIRECT_def)
next
  case False
  then have "12 \<in> U n" using indirect_used[OF assms(1,2)] by (simp add: dslot_def)
  then have "A n 12 \<noteq> 0" using slots_okD(5)[OF assms(1), of 12 n] by (simp add: slot_top)
  then show ?thesis using False assms(3)[of 12] by (simp add: baddr_def slot_def dslot_def NDIRECT_def)
qed

lemma marked_eq:
  assumes "get_superblock (image t 1) = mkfs_sb" "image t 45 = trunc (bitmap_upto n)" "unat b < 1000"
  shows "marked (image t) b \<longleftrightarrow> unat b < n"
proof -
  have "unat (b div BPB) = 0" "unat (b mod BPB) = unat b" using assms(3) by (simp_all add: unat_div unat_mod BPB_def)
  then have "b div BPB = 0" "unat (b mod BPB) = unat b" by (simp_all add: word_unat_eq_iff)
  moreover have "unat b div 8 < 1024" using assms(3) by simp
  ultimately show ?thesis using assms(1,2) bitmap_upto_bit[of n "unat b"]
    by (simp add: marked_def BBLOCK_def mkfs_layout trunc_def Let_def)
qed

text \<open>The image after the sizes and the bitmap have been written.\<close>

lemma holds_files:
  assumes ok: "img_ok t A (needed F) F" and sb: "get_superblock (image t 1) = mkfs_sb"
    and bm: "image t 45 = trunc (bitmap_upto (unat (freeblock t)))" and n: "n < 200" "length (F n) \<le> 268 * 1024"
    and din: "dinode_on t n = din" "din_addrs din = A n" "din_nlink din = 1"
  shows "holds_file (image t) n (din_type din) (din_size din) (F n)"
proof -
  have S: "slots_ok (unat (freeblock t)) (image t) A (needed F)" "bytes_ok (image t) A (needed F) F"
    using ok by (simp_all add: img_ok_def)
  note D = slots_okD[OF S(1)]
  have ip: "kernel_inode (image t) n q = with_dinode din q" for q using kernel_inode_eq[OF sb n(1)] din(1) by simp
  have ad: "i \<le> 12 \<Longrightarrow> iaddrs (with_dinode din q) i = A n i" for i q using din(2) by (simp add: with_dinode_def NDIRECT_def)
  have used: "dslot k \<in> needed F n" if "1024 * k < length (F n)" for k
    using needs_iff(1)[of k "length (F n)"] that n(2) by simp
  have ba: "baddr (\<lambda>b. image t (unat b)) (with_dinode din q) k = slot (image t) (A n) (dslot k)" if "1024 * k < length (F n)" for k q
    by (rule baddr_slot[OF S(1) used[OF that]]) (rule ad)
  have "46 \<le> unat (slot (image t) (A n) (dslot k)) \<and> unat (slot (image t) (A n) (dslot k)) < 1000 \<and> marked (image t) (slot (image t) (A n) (dslot k))" if "1024 * k < length (F n)" for k
    using D(2) D(6,7)[OF used[OF that]] marked_eq[OF sb bm, of "slot (image t) (A n) (dslot k)"] by simp
  moreover have "file_byte (\<lambda>b. image t (unat b)) (with_dinode din q) i = (if i < length (F n) then F n ! i else 0)"
    if "1024 * (i div 1024) < length (F n)" for i q
    using S(2) used[OF that] unfolding bytes_ok_def file_byte_def ba[OF that] byte_of_def by blast
  moreover have "iaddrs (with_dinode din q) NDIRECT \<noteq> 0 \<and> unat (iaddrs (with_dinode din q) NDIRECT) < 1000"
    if "12 * 1024 < length (F n)" for q
    using ad[of 12 q] D(2) D(5,7)[of 12 n] needs_iff(2)[of "length (F n)"] that by (simp add: slot_top NDIRECT_def)
  ultimately show ?thesis unfolding holds_file_def ip Let_def using ba din(3) by (simp add: with_dinode_def)
qed

lemma apart_files:
  assumes ok: "img_ok t A (needed F) F" and sb: "get_superblock (image t 1) = mkfs_sb"
    and N: "\<And>n. n \<in> N \<Longrightarrow> n < 200 \<and> length (F n) \<le> 268 * 1024 \<and> din_addrs (dinode_on t n) = A n"
  shows "files_apart (image t) N F"
  unfolding files_apart_def
proof (intro ballI allI impI)
  fix n m q k j
  assume n: "n \<in> N" "m \<in> N" "1024 * k < length (F n)" "1024 * j < length (F m)"
  assume e: "baddr (\<lambda>b. image t (unat b)) (kernel_inode (image t) n q) k = baddr (\<lambda>b. image t (unat b)) (kernel_inode (image t) m q) j"
  have S: "slots_ok (unat (freeblock t)) (image t) A (needed F)" using ok by (simp add: img_ok_def)
  have "k < 268" "j < 268" using N[OF n(1)] N[OF n(2)] n(3,4) by linarith+
  then have used: "dslot k \<in> needed F n" "dslot j \<in> needed F m" using n(3,4) by (simp_all add: needs_iff)
  have ad: "i \<le> 12 \<Longrightarrow> iaddrs (kernel_inode (image t) n q) i = A n i" if "n \<in> N" for i n
    using N[OF that] kernel_inode_eq[OF sb, of n q] by (simp add: with_dinode_def NDIRECT_def)
  have "slot (image t) (A n) (dslot k) = slot (image t) (A m) (dslot j)"
    using e baddr_slot[OF S used(1) ad[OF n(1)]] baddr_slot[OF S used(2) ad[OF n(2)]] by simp
  then show "n = m \<and> k = j" using slots_okD(8)[OF S used] dslot_inj by blast
qed

text \<open>The contents of the files on the image, and the size of the root directory.\<close>

definition mkfs_files :: "host \<Rightarrow> uchar list list \<Rightarrow> nat \<Rightarrow> uchar list" where
  "mkfs_files h as n =
     (if n = 1 then dirent_bytes 1 (lit ''.'') @ dirent_bytes 1 (lit ''..'') @ dir_from 2 as
      else if 2 \<le> n \<and> n < 2 + length as then content h (as ! (n - 2)) else [])"

definition root_size :: "uchar list list \<Rightarrow> uint" where
  "root_size as = of_nat ((16 * (length as + 2) div 1024 + 1) * 1024)"

definition mkfs_blocks :: "host \<Rightarrow> uchar list list \<Rightarrow> nat" where
  "mkfs_blocks h as = 46 + blocks (16 * (length as + 2)) + (\<Sum>a\<leftarrow>as. blocks (length (content h a)))"

text \<open>Up to the files given to the program.\<close>

lemma mkfs_prepares:
  assumes io: "\<forall>n<1000. io_ok h n" and img: "creates h img"
  shows "\<exists>s. mkfs_main h (prog # img # as) mkfs_start =
      ubind (ufor as (add_file h 1)) (\<lambda>_. ubind (fix_root h 1) (\<lambda>_. ubind (mreads freeblock) (\<lambda>used.
        ubind (mkfs_balloc h used) (\<lambda>_. mexit 0)))) s \<and>
    fs_built h s ((\<lambda>_. [])(1 := dirent_bytes 1 (lit ''.'') @ dirent_bytes 1 (lit ''..''))) \<and>
    unat (freeinode s) = 2 \<and> unat (freeblock s) = 47"
proof -
  let ?s = "mkfs_start\<lparr>image := (\<lambda>_ _. 0), msb := mkfs_sb, freeblock := nmeta\<rparr>"
  let ?s1 = "?s\<lparr>sectors := 1000\<rparr>"
  let ?s2 = "wrote 1 (superblock_bytes mkfs_sb) ?s1"
  have run: "running h ?s1" using io by (simp add: running_def)
  have z: "ufor [0..<unat FSSIZE] (\<lambda>i. wsect h (of_nat i) (\<lambda>_. 0)) (?s\<lparr>sectors := 0\<rparr>) = Some (Val () ?s1)"
    using zero_sectors[OF io, of ?s 1000] by (simp add: mkfs_layout)
  have e: "?s\<lparr>sectors := 0\<rparr> = mkfs_start\<lparr>image := (\<lambda>_ _. 0), sectors := 0, msb := mkfs_sb, freeblock := nmeta\<rparr>"
    "drop 2 (prog # img # as) = as" by (cases mkfs_start) (simp_all add: numeral_2_eq_2)
  have w: "wsect h 1 (superblock_bytes mkfs_sb) ?s1 = Some (Val () ?s2)" using wsect_eq[OF run, of 1] by simp
  have "built h ?s2 (\<lambda>_. new_dinode 0) (\<lambda>_. [])"
    using run superblock_stored by (intro empty_built) (simp_all add: mkfs_start_def mkfs_layout)
  from mkfs_ialloc_ok[OF this, of 1 T_DIR] obtain s3 where
    s3: "mkfs_ialloc h T_DIR ?s2 = Some (Val (of_nat 1) s3)" "built h s3 ((\<lambda>_. new_dinode 0)(1 := new_dinode T_DIR)) (\<lambda>_. [])"
      "unat (freeinode s3) = 2" "freeblock s3 = 46" by (auto simp: mkfs_start_def mkfs_layout numeral_2_eq_2)
  have "typed s3 ((\<lambda>_. new_dinode 0)(1 := new_dinode T_DIR))"
    using s3(3) by (auto simp: typed_def given_def new_dinode_def)
  then have b3: "fs_built h s3 (\<lambda>_. [])" using s3(2) by (auto simp: fs_built_def)
  have g3: "given s3 1" using s3(3) by (simp add: given_def)
  have bl: "blocks 16 = 1" "blocks 32 = 1" by (simp_all add: blocks_def)
  from iappend_fs[OF b3 g3, of "dirent_bytes 1 (lit ''.'')"] s3(4) bl obtain s4 where
    s4: "iappend h (of_nat 1) (dirent_bytes 1 (lit ''.'')) s3 = Some (Val () s4)"
      "fs_built h s4 ((\<lambda>_. [])(1 := dirent_bytes 1 (lit ''.'')))" "freeinode s4 = freeinode s3" "unat (freeblock s4) = 47" by auto
  have g4: "given s4 1" using g3 s4(3) by (simp add: given_def)
  from iappend_fs[OF s4(2) g4, of "dirent_bytes 1 (lit ''..'')"] s4(4) bl obtain s5 where
    s5: "iappend h (of_nat 1) (dirent_bytes 1 (lit ''..'')) s4 = Some (Val () s5)"
      "fs_built h s5 ((\<lambda>_. [])(1 := dirent_bytes 1 (lit ''.'') @ dirent_bytes 1 (lit ''..'')))" "freeinode s5 = freeinode s4"
      "unat (freeblock s5) = 47" by auto
  have "mkfs_main h (prog # img # as) mkfs_start =
      ubind (ufor as (add_file h 1)) (\<lambda>_. ubind (fix_root h 1) (\<lambda>_. ubind (mreads freeblock) (\<lambda>used.
        ubind (mkfs_balloc h used) (\<lambda>_. mexit 0)))) s5"
    using img z[unfolded e] e(2) w s3(1) s4(1) s5(1) by (simp add: mkfs_main_def mset_def mreads_def ubind_def[of "\<lambda>s. Some (Val _ _)"] ROOTINO_def)
  then show ?thesis using s5 s4(3) s3(3) by (intro exI[of _ s5]) (simp del: fun_upd_apply)
qed

lemma sint_small: "unat (x :: uint) < 2 ^ 31 \<Longrightarrow> sint x = int (unat x)"
proof -
  assume "unat x < 2 ^ 31"
  then have "int (unat x) < int (2 ^ 31)" by (simp only: of_nat_less_iff)
  then have "uint x < 2 ^ 31" by simp
  moreover have "- (2 ^ 31) \<le> uint x" using uint_ge_0[of x] by (rule order_trans[rotated]) simp
  ultimately have "signed_take_bit 31 (uint x) = uint x" by (intro signed_take_bit_int_eq_self)
  then show ?thesis by (simp add: sint_uint)
qed

lemma mkfs_balloc_eq:
  assumes "running h s" "unat used \<le> 1000"
  shows "mkfs_balloc h used s = Some (Val () (wrote 45 (bitmap_upto (unat used)) s))"
proof -
  have "sint used = int (unat used)" "sint BSIZE = 1024" using assms(2) by (simp_all add: sint_small BSIZE_def)
  moreover have "msb s = mkfs_sb" "uint used \<le> 1000"
    using assms(1) of_nat_mono[OF assms(2), where 'a = int] by (simp_all add: running_def)
  ultimately show ?thesis using assms by (simp add: mkfs_balloc_def mreads_def ubind_def mkfs_layout)
qed

lemma fix_root_ok:
  assumes b: "built h s D F" "given s 1" and len: "length (F 1) = 16 * (length as + 2)" "length as < 200"
  shows "\<exists>t. fix_root h 1 s = Some (Val () t) \<and> running h t \<and> freeinode t = freeinode s \<and>
    freeblock t = freeblock s \<and> image t 1 = image s 1 \<and> (\<forall>A U F. img_ok s A U F \<longrightarrow> img_ok t A U F) \<and>
    (\<forall>m<200. dinode_on t m = (if m = 1 then D 1\<lparr>din_size := root_size as\<rparr> else dinode_on s m))"
proof -
  note B = builtD[OF b(1)]
  define L where "L = 16 * (length as + 2)"
  have L: "L < 4096" using len(2) by (simp add: L_def)
  have r: "(of_nat L div BSIZE + 1) * BSIZE = root_size as"
  proof -
    have "unat (of_nat L div BSIZE :: uint) = L div 1024" using L by (simp add: unat_div BSIZE_def unat_of_nat)
    then have "of_nat L div BSIZE = (of_nat (L div 1024) :: uint)" by (metis of_nat_unat ucast_id)
    then show ?thesis by (simp add: root_size_def L_def BSIZE_def)
  qed
  have z: "din_addrs (D 1\<lparr>din_size := root_size as\<rparr>) i = 0" if "12 < i" for i using B(10)[OF that] by simp
  have w: "fix_root h 1 s = winode h (of_nat 1) (D 1\<lparr>din_size := root_size as\<rparr>) s"
    using rinode_eq[OF B(1), of 1] B(6,7)[OF b(2)] len(1) r by (simp add: fix_root_def L_def)
  have "(1 :: nat) < 200" by simp
  from winode_built[OF B(1) this z] show ?thesis unfolding w .
qed

lemma mkfs_image:
  assumes "\<forall>n<1000. io_ok h n" "creates h img" "\<forall>a\<in>set as. good_arg h a" "length as \<le> 198" "mkfs_blocks h as \<le> 1000"
  shows "\<exists>t. mkfs_main h (prog # img # as) mkfs_start = Some (Exit 0 t) \<and> get_superblock (image t 1) = mkfs_sb \<and>
    (\<forall>n. 1 \<le> n \<and> n < 2 + length as \<longrightarrow>
       holds_file (image t) n (if n = 1 then T_DIR else T_FILE)
         (if n = 1 then root_size as else of_nat (length (mkfs_files h as n))) (mkfs_files h as n)) \<and>
    files_apart (image t) {1..<2 + length as} (mkfs_files h as) \<and>
    (\<forall>b. unat b < 1000 \<longrightarrow> (marked (image t) b \<longleftrightarrow> unat b < mkfs_blocks h as))"
proof -
  let ?init = "(\<lambda>_. [])(1 := dirent_bytes 1 (lit ''.'') @ dirent_bytes 1 (lit ''..''))" and ?F = "mkfs_files h as"
  have F: "with_files h 2 as ?init = ?F"
  proof
    show "with_files h 2 as ?init n = ?F n" for n by (cases "n = 1") (simp_all add: with_files_def mkfs_files_def)
  qed
  obtain s where s: "mkfs_main h (prog # img # as) mkfs_start =
      ubind (ufor as (add_file h 1)) (\<lambda>_. ubind (fix_root h 1) (\<lambda>_. ubind (mreads freeblock) (\<lambda>used.
        ubind (mkfs_balloc h used) (\<lambda>_. mexit 0)))) s" "fs_built h s ?init" "unat (freeinode s) = 2" "unat (freeblock s) = 47"
    using mkfs_prepares[OF assms(1,2)] by blast
  have init: "length (?init 1) = 32" by simp
  have "blocks 32 = 1" by (simp add: blocks_def)
  then have c: "unat (freeblock s) + blocks (32 + 16 * length as) + (\<Sum>a\<leftarrow>as. blocks (length (content h a)))
      = mkfs_blocks h as + blocks 32" using s(4) by (simp add: mkfs_blocks_def algebra_simps)
  have p: "2 + length as \<le> 200" "(1 :: nat) < 2" "32 + 16 * length as \<le> 268 * 1024"
    "unat (freeblock s) + blocks (32 + 16 * length as) + (\<Sum>a\<leftarrow>as. blocks (length (content h a))) \<le> 1000 + blocks 32"
    using assms(4,5) c by simp_all
  from add_files_fs[OF s(2,3) p(1,2) assms(3), unfolded init F, OF p(3,4)] obtain u where
    u: "ufor as (add_file h 1) s = Some (Val () u)" "fs_built h u ?F" "unat (freeinode u) = 2 + length as"
      "unat (freeblock u) = mkfs_blocks h as" unfolding c by auto
  obtain D where D: "built h u D ?F" "typed u D" using u(2) by (auto simp: fs_built_def)
  note B = builtD[OF D(1)]
  have g: "given u n \<longleftrightarrow> 1 \<le> n \<and> n < 2 + length as" for n using u(3) by (simp add: given_def)
  have L: "length (?F 1) = 16 * (length as + 2)" "length as < 200" using assms(4) by (simp_all add: mkfs_files_def)
  have g1: "given u 1" using g by simp
  obtain v where
    v: "fix_root h 1 u = Some (Val () v)" "running h v" "freeinode v = freeinode u" "freeblock v = freeblock u" "image v 1 = image u 1"
      "\<forall>A U F. img_ok u A U F \<longrightarrow> img_ok v A U F"
      "\<forall>m<200. dinode_on v m = (if m = 1 then D 1\<lparr>din_size := root_size as\<rparr> else dinode_on u m)"
    using fix_root_ok[OF D(1) g1 L] by blast
  let ?t = "wrote 45 (bitmap_upto (unat (freeblock v))) v"
  let ?A = "\<lambda>n. din_addrs (D n)"
  have run: "mkfs_main h (prog # img # as) mkfs_start = Some (Exit 0 ?t)"
    using s(1) u(1,4) v(1,4) mkfs_balloc_eq[OF v(2), of "freeblock v"] assms(5)
    by (simp add: mreads_def mexit_def ubind_def)
  have sb: "get_superblock (image ?t 1) = mkfs_sb" using v(5) B(5) by simp
  have ok: "img_ok ?t ?A (needed ?F) ?F" using img_ok_low[OF v(6)[rule_format, OF B(2)], of 45] by simp
  have bm: "image ?t 45 = trunc (bitmap_upto (unat (freeblock ?t)))" by simp
  have din: "dinode_on ?t n = (if n = 1 then D 1\<lparr>din_size := root_size as\<rparr> else D n)" if "given u n" for n
  proof -
    have "dinode_on ?t n = dinode_on v n" using inode_place(3)[OF B(11)[OF that]] by (simp add: dinode_on_def)
    then show ?thesis using v(7)[rule_format, OF B(11)[OF that]] B(6)[OF that] by simp
  qed
  have len: "length (?F n) \<le> 268 * 1024" if "given u n" for n
    using that g L assms(3) by (cases "n = 1") (auto simp: mkfs_files_def good_arg_def)
  have "holds_file (image ?t) n (if n = 1 then T_DIR else T_FILE)
      (if n = 1 then root_size as else of_nat (length (?F n))) (?F n)" if n: "given u n" for n
  proof -
    let ?d = "if n = 1 then D 1\<lparr>din_size := root_size as\<rparr> else D n"
    have d: "din_type ?d = (if n = 1 then T_DIR else T_FILE)" "din_addrs ?d = ?A n" "din_nlink ?d = 1"
      using D(2) n unfolding typed_def by (cases "n = 1"; simp)+
    have "din_size ?d = (if n = 1 then root_size as else of_nat (length (?F n)))" using B(7)[OF n] by (cases "n = 1") simp_all
    then show ?thesis using holds_files[OF ok sb bm B(11)[OF n] len[OF n] din[OF n] d(2,3)] unfolding d(1) by simp
  qed
  moreover have "files_apart (image ?t) {1..<2 + length as} ?F"
  proof (rule apart_files[OF ok sb])
    fix n assume "n \<in> {1..<2 + length as}"
    then have n: "given u n" using g by simp
    have "din_addrs (dinode_on ?t n) = ?A n" unfolding din[OF n] by simp
    then show "n < 200 \<and> length (?F n) \<le> 268 * 1024 \<and> din_addrs (dinode_on ?t n) = ?A n" using B(11)[OF n] len[OF n] by blast
  qed
  moreover have "marked (image ?t) b \<longleftrightarrow> unat b < mkfs_blocks h as" if "unat b < 1000" for b
    using marked_eq[OF sb bm that] u(4) v(4) by simp
  ultimately show ?thesis using run sb unfolding g by (intro exI[of _ ?t] conjI allI impI)
qed

text \<open>
  C36. Building the file system: given an image that can be written and files that fit,
  \<open>mkfs\<close> exits with status 0, and the image is what the kernel expects. Its block 1 holds the
  super block; inode 1 is a directory with \<open>.\<close>, \<open>..\<close> and one entry for each file, followed by
  free entries; the inodes from 2 on are the files with their contents, as the kernel finds them
  through the direct and indirect addresses; no block is used twice, and the bitmap marks
  exactly the blocks in use.
\<close>

theorem mkfs_builds_fs:
  assumes "\<forall>n<1000. io_ok h n" "creates h img" "\<forall>a\<in>set as. good_arg h a" "length as \<le> 198" "mkfs_blocks h as \<le> 1000"
  shows "\<exists>t. mkfs_main h (prog # img # as) mkfs_start = Some (Exit 0 t) \<and> get_superblock (image t 1) = mkfs_sb \<and>
    (\<forall>n. 1 \<le> n \<and> n < 2 + length as \<longrightarrow>
       holds_file (image t) n (if n = 1 then T_DIR else T_FILE)
         (if n = 1 then root_size as else of_nat (length (mkfs_files h as n))) (mkfs_files h as n)) \<and>
    files_apart (image t) {1..<2 + length as} (mkfs_files h as) \<and>
    (\<forall>b. unat b < 1000 \<longrightarrow> (marked (image t) b \<longleftrightarrow> unat b < mkfs_blocks h as))"
  by (rule mkfs_image[OF assms])

definition host0 :: host where
  "host0 = \<lparr>creates = (\<lambda>_. True), file_reads = (\<lambda>_. Some [[104], [105]]), io_ok = (\<lambda>_. True)\<rparr>"

theorem mkfs_builds_fs_witness:
  "\<exists>t. mkfs_main host0 [[], [], lit ''user/_hi''] mkfs_start = Some (Exit 0 t) \<and>
     holds_file (image t) 2 T_FILE 2 [104, 105] \<and> marked (image t) 47 \<and> \<not> marked (image t) 48"
proof -
  let ?as = "[lit ''user/_hi'']"
  have c: "content host0 (lit ''user/_hi'') = [104, 105]" by (simp add: content_def host0_def)
  have "good_arg host0 (lit ''user/_hi'')"
    unfolding good_arg_def c by (simp add: host0_def short_name_def lit_def)
  moreover have b: "mkfs_blocks host0 ?as = 48" by (simp add: mkfs_blocks_def c blocks_def)
  ultimately obtain t where t: "mkfs_main host0 ([] # [] # ?as) mkfs_start = Some (Exit 0 t)"
    "\<forall>n. 1 \<le> n \<and> n < 2 + length ?as \<longrightarrow> holds_file (image t) n (if n = 1 then T_DIR else T_FILE)
         (if n = 1 then root_size ?as else of_nat (length (mkfs_files host0 ?as n))) (mkfs_files host0 ?as n)"
    "\<forall>b. unat b < 1000 \<longrightarrow> (marked (image t) b \<longleftrightarrow> unat b < mkfs_blocks host0 ?as)"
    using mkfs_builds_fs[of host0 "[]" ?as "[]"] by (auto simp: host0_def)
  have "mkfs_files host0 ?as 2 = [104, 105]" by (simp add: mkfs_files_def c)
  then show ?thesis using t(1) t(2)[rule_format, of 2] t(3)[rule_format, of 47] t(3)[rule_format, of 48] b by auto
qed

end
