(* ===== verification/MkfsKernel.thy ===== *)
theory MkfsKernel
  imports MkfsProps InodeRefs
begin

unbundle bit_operations_syntax

text \<open>
  The kernel on the image that \<open>mkfs\<close> built: it finds the files in the root directory by their
  names, and it reads their contents.
\<close>

section \<open>A mounted image\<close>

text \<open>The blocks of the device read as the sectors of the image, and all of them can be read.\<close>

definition mounted :: "nat \<Rightarrow> uint \<Rightarrow> 'z fs_scheme \<Rightarrow> (nat \<Rightarrow> cstr) \<Rightarrow> bool" where
  "mounted p dev s img \<longleftrightarrow> bufs_inv p dev s \<and>
     (\<forall>b. unat b < 1000 \<longrightarrow> view dev s b = img (unat b) \<and> can_get b (store_of dev s))"

text \<open>Entry \<open>ip\<close> of the inode cache holds inode \<open>n\<close> of the image.\<close>

definition loaded :: "uint \<Rightarrow> 'z fs_scheme \<Rightarrow> (nat \<Rightarrow> cstr) \<Rightarrow> nat \<Rightarrow> nat \<Rightarrow> bool" where
  "loaded dev s img n ip \<longleftrightarrow> idev (icache s ip) = dev \<and> (\<exists>q. icache s ip = kernel_inode img n q)"

lemma part_of: "1024 * (i div 1024) < n" if "i < n" for i n :: nat
  using that div_mult_mod_eq[of i 1024] by linarith

lemma holds_fileD:
  assumes "holds_file img n ty sz cs"
  defines "v \<equiv> \<lambda>b. img (unat b)"
  shows "itype (kernel_inode img n q) = ty" "isize (kernel_inode img n q) = sz"
    "12 * 1024 < length cs \<Longrightarrow> iaddrs (kernel_inode img n q) NDIRECT \<noteq> 0 \<and> unat (iaddrs (kernel_inode img n q) NDIRECT) < 1000"
    "1024 * k < length cs \<Longrightarrow> 46 \<le> unat (baddr v (kernel_inode img n q) k) \<and> unat (baddr v (kernel_inode img n q) k) < 1000"
    "1024 * (i div 1024) < length cs \<Longrightarrow> file_byte v (kernel_inode img n q) i = byte_of cs i"
  using assms(1) unfolding holds_file_def Let_def v_def byte_of_def by metis+

lemma mounted_file:
  assumes m: "mounted p dev s img" and f: "holds_file img n ty sz cs" and l: "loaded dev s img n ip" "length cs \<le> 268 * 1024"
  shows "1024 * k < length cs \<Longrightarrow> block_ok dev s (icache s ip) k"
    and "1024 * (i div 1024) < length cs \<Longrightarrow> file_byte (view dev s) (icache s ip) i = byte_of cs i"
    and "itype (icache s ip) = ty" "isize (icache s ip) = sz"
proof -
  obtain q where q: "icache s ip = kernel_inode img n q" using l(1) by (auto simp: loaded_def)
  let ?v = "\<lambda>b. img (unat b)" and ?ip = "kernel_inode img n q"
  note H = holds_fileD[OF f, where q = q]
  have v: "view dev s b = img (unat b)" "can_get b (store_of dev s)" if "unat b < 1000" for b
    using m that by (simp_all add: mounted_def)
  show "itype (icache s ip) = ty" "isize (icache s ip) = sz" using H(1,2) q by simp_all
  have big: "12 * 1024 < length cs" if "1024 * k < length cs" "12 \<le> k" for k using that by linarith
  have b: "baddr (view dev s) ?ip k = baddr ?v ?ip k" if "1024 * k < length cs" for k
  proof (cases "k < 12")
    case False
    then have "12 * 1024 < length cs" using big[OF that] by linarith
    then show ?thesis using H(3) v(1)[of "iaddrs ?ip NDIRECT"] False by (simp add: baddr_def NDIRECT_def)
  qed (simp add: baddr_def NDIRECT_def)
  show "block_ok dev s (icache s ip) k" if k: "1024 * k < length cs" for k
  proof -
    have "k < 268" using k l(2) by linarith
    moreover have "baddr ?v ?ip k \<noteq> 0" using H(4)[OF k] by auto
    moreover have "NDIRECT \<le> k \<longrightarrow> iaddrs ?ip NDIRECT \<noteq> 0 \<and> can_get (iaddrs ?ip NDIRECT) (store_of dev s)"
      using big[OF k] H(3) v(2) by (auto simp: NDIRECT_def)
    ultimately show ?thesis unfolding q block_ok_def b[OF k] using H(4)[OF k] v(2)
      by (simp add: MAXFILE_def NDIRECT_def NINDIRECT_def)
  qed
  show "file_byte (view dev s) (icache s ip) i = byte_of cs i" if k: "1024 * (i div 1024) < length cs" for i
    using H(4,5)[OF k] v(1) unfolding q file_byte_def b[OF k] by simp
qed

section \<open>Reading a file\<close>

lemma mounted_readi:
  assumes m: "mounted p dev s img" and f: "holds_file img n ty (of_nat (length cs)) cs" and l: "loaded dev s img n ip"
    and len: "length cs \<le> 268 * 1024"
  shows "\<exists>k t. readi ip False dst kbuf 0 cnt s = Ret (k, read_into kbuf 0 (unat k) (\<lambda>i. cs ! i)) t \<and>
    unat k = min (unat cnt) (length cs) \<and> same_fs p dev s t"
proof -
  note F = mounted_file[OF m f l len]
  have sz: "unat (isize (icache s ip)) = length cs" using F(4) len by (simp add: unat_of_nat)
  have inv: "bufs_inv p dev s" "idev (icache s ip) = dev" using m l by (simp_all add: mounted_def loaded_def)
  have ok: "blocks_ok dev s (icache s ip) (unat (0 :: uint)) (unat (isize (icache s ip)))"
    unfolding blocks_ok_def sz using F(1) part_of by blast
  have c: "0 \<le> isize (icache s ip) \<and> unat (0 :: uint) + unat cnt < 2 ^ 32" using unat_lt32[of cnt] by simp
  from readi_reads[OF inv ok, of cnt dst kbuf, unfolded if_P[OF c]] obtain t k where
    t: "readi ip False dst kbuf 0 cnt s =
        Ret (k, read_into kbuf 0 (unat k) (\<lambda>i. file_byte (view dev s) (icache s ip) (unat (0 :: uint) + i))) t"
      "unat k = min (unat cnt) (length cs)" "same_fs p dev s t" unfolding sz by auto
  have "file_byte (view dev s) (icache s ip) i = cs ! i" if "i < unat k" for i
    using F(2)[of i] part_of[of i "length cs"] that t(2) by (simp add: byte_of_def)
  then have "read_into kbuf 0 (unat k) (\<lambda>i. file_byte (view dev s) (icache s ip) (unat (0 :: uint) + i)) =
      read_into kbuf 0 (unat k) (\<lambda>i. cs ! i)" by (auto simp: read_into_def fun_eq_iff)
  then show ?thesis using t by auto
qed

section \<open>Finding a file\<close>

text \<open>The name and the inode number in entry \<open>j\<close> of the root directory.\<close>

definition dir_name :: "uchar list list \<Rightarrow> nat \<Rightarrow> uchar list" where
  "dir_name as j = (if j = 0 then lit ''.'' else if j = 1 then lit ''..'' else entry_name (as ! (j - 2)))"

definition dir_ino :: "nat \<Rightarrow> nat" where
  "dir_ino j = (if j < 2 then 1 else j)"

lemma dir_from_nth:
  "j < length as \<Longrightarrow> i < 16 \<Longrightarrow> dir_from k as ! (16 * j + i) = dirent_bytes (of_nat (k + j)) (entry_name (as ! j)) ! i"
proof (induction "as" arbitrary: j k)
  case (Cons a "as")
  show ?case
  proof (cases j)
    case (Suc j')
    have "dir_from k (a # as) ! (16 * j + i) = dir_from (Suc k) as ! (16 * j' + i)" by (simp add: Suc nth_append)
    then show ?thesis using Cons.IH[of j' "Suc k"] Cons.prems Suc by simp
  qed (use Cons.prems in \<open>simp add: nth_append\<close>)
qed simp

lemma root_nth:
  assumes "j < length as + 2" "i < 16"
  shows "mkfs_files h as 1 ! (16 * j + i) = dirent_bytes (of_nat (dir_ino j)) (dir_name as j) ! i"
proof -
  consider "j = 0" | "j = 1" | j' where "j = j' + 2" by (metis add_2_eq_Suc' less_2_cases_iff not0_implies_Suc One_nat_def)
  then show ?thesis
  proof cases
    case 3
    then have "mkfs_files h as 1 ! (16 * j + i) = dir_from 2 as ! (16 * j' + i)" by (simp add: mkfs_files_def nth_append)
    then show ?thesis using dir_from_nth[of j' "as" i 2] assms 3 by (simp add: dir_ino_def dir_name_def)
  qed (use assms(2) in \<open>simp_all add: mkfs_files_def nth_append dir_ino_def dir_name_def\<close>)
qed

lemma root_length: "length (mkfs_files h as 1) = 16 * (length as + 2)"
  by (simp add: mkfs_files_def)

lemma dirent_fields:
  assumes "\<And>i. i < 16 \<Longrightarrow> e i = dirent_bytes n name ! i"
  shows "de_inum e = ucast n" "i < DIRSIZ \<Longrightarrow> de_name e i = list_cstr name i"
proof -
  have "e 0 = ucast (ucast n :: ushort)" "e 1 = ucast (drop_bit 8 (ucast n :: ushort))"
    using assms[of 0] assms[of 1] by (simp_all add: dirent_bytes_def Let_def)
  then have "de_inum e = ld16 (st16 (\<lambda>_. 0) 0 (ucast n)) 0"
    unfolding de_inum_def by (intro ld16_cong) (auto simp: st16_def less_2_cases_iff)
  then show "de_inum e = ucast n" by simp
  show "de_name e i = list_cstr name i" if "i < DIRSIZ"
    using assms[of "2 + i"] that by (auto simp: de_name_def dirent_bytes_def Let_def DIRSIZ_def list_cstr_def nth_append)
qed

lemma cstr_eq_upto_cong: "(\<And>i. i < n \<Longrightarrow> q i = r i) \<Longrightarrow> cstr_eq_upto p q n = cstr_eq_upto p r n"
  by (auto simp: cstr_eq_upto_def)

lemma root_entries:
  assumes m: "mounted p dev s img" and f: "holds_file img 1 T_DIR sz (mkfs_files h as 1)" and l: "loaded dev s img 1 dp"
    and as: "length as \<le> 198"
  shows "j < length as + 2 \<Longrightarrow> names_entry (view dev s) (icache s dp) name j \<longleftrightarrow> cstr_eq_upto name (list_cstr (dir_name as j)) DIRSIZ"
    and "j < length as + 2 \<Longrightarrow> ucast (de_inum (dir_entry (view dev s) (icache s dp) j)) = (of_nat (dir_ino j) :: uint)"
proof -
  have "length (mkfs_files h as 1) \<le> 268 * 1024" unfolding root_length using as by simp
  note F = mounted_file[OF m f l this]
  let ?e = "dir_entry (view dev s) (icache s dp) j"
  assume j: "j < length as + 2"
  have b: "?e i = dirent_bytes (of_nat (dir_ino j)) (dir_name as j) ! i" if i: "i < 16" for i
  proof -
    have lt: "16 * j + i < length (mkfs_files h as 1)" unfolding root_length using i j by simp
    have "file_byte (view dev s) (icache s dp) (16 * j + i) = mkfs_files h as 1 ! (16 * j + i)"
      using F(2)[OF part_of[OF lt]] lt by (simp add: byte_of_def)
    then show ?thesis using i root_nth[OF j i] by (simp add: dir_entry_def read_into_def)
  qed
  have fld: "de_inum ?e = ucast (of_nat (dir_ino j) :: uint)" by (rule dirent_fields(1)) (rule b)
  have nm: "de_name ?e i = list_cstr (dir_name as j) i" if "i < DIRSIZ" for i by (rule dirent_fields(2)[OF _ that]) (rule b)
  have d: "0 < dir_ino j" "dir_ino j < 200" using j as by (auto simp: dir_ino_def)
  have n: "unat (of_nat (dir_ino j) :: uint) = dir_ino j" using d(2) by (intro fresh_uint) simp
  have u: "unat (ucast (of_nat (dir_ino j) :: uint) :: ushort) = dir_ino j"
    unfolding unsigned_ucast_eq n using d(2) by (intro take_bit_nat_eq_self) simp
  have w: "unat (ucast (ucast (of_nat (dir_ino j) :: uint) :: ushort) :: uint) = dir_ino j"
    using d(2) by (subst unsigned_ucast_eq, unfold u, intro take_bit_nat_eq_self) simp
  have "(ucast (of_nat (dir_ino j) :: uint) :: ushort) \<noteq> 0" using d(1) u by (metis unat_0 less_irrefl)
  then show "names_entry (view dev s) (icache s dp) name j \<longleftrightarrow> cstr_eq_upto name (list_cstr (dir_name as j)) DIRSIZ"
    unfolding names_entry_def fld using cstr_eq_upto_cong[of DIRSIZ "de_name ?e", OF nm] by blast
  show "ucast (de_inum ?e) = (of_nat (dir_ino j) :: uint)"
    unfolding fld word_unat_eq_iff w n ..
qed

text \<open>The directory can be read up to its rounded size when its entries do not fill the last block.\<close>

lemma root_blocks:
  assumes m: "mounted p dev s img" and f: "holds_file img 1 T_DIR (root_size as) (mkfs_files h as 1)" and l: "loaded dev s img 1 dp"
    and as: "length as \<le> 198" "16 * (length as + 2) mod 1024 \<noteq> 0"
  obtains k where "blocks_ok dev s (icache s dp) 0 (unat (isize (icache s dp)))" "unat (isize (icache s dp)) = 16 * k"
    "length as + 2 \<le> k" "itype (icache s dp) = T_DIR"
proof -
  define L where "L = 16 * (length as + 2)"
  have len: "length (mkfs_files h as 1) = L" by (simp only: root_length L_def)
  have "length (mkfs_files h as 1) \<le> 268 * 1024" unfolding len using as(1) by (simp add: L_def)
  note F = mounted_file[OF m f l this]
  have L: "L = L div 1024 * 1024 + L mod 1024" "L < 4096" "L mod 1024 \<noteq> 0" using as by (simp_all add: L_def)
  have "(L div 1024 + 1) * 1024 < 2 ^ 32" using L(2) div_le_dividend[of L 1024] by simp
  moreover have "unat (of_nat N :: uint) = N" if "N < 2 ^ 32" for N using that by (simp add: unat_of_nat)
  ultimately have "unat (of_nat ((L div 1024 + 1) * 1024) :: uint) = (L div 1024 + 1) * 1024" by blast
  then have sz: "unat (isize (icache s dp)) = (L div 1024 + 1) * 1024"
    unfolding F(4) root_size_def L_def .
  have "block_ok dev s (icache s dp) (i div 1024)" if "i < (L div 1024 + 1) * 1024" for i
  proof -
    have "i div 1024 \<le> L div 1024" using that by (simp add: less_mult_imp_div_less less_Suc_eq_le flip: Suc_eq_plus1)
    then have "1024 * (i div 1024) < L" using L(1,3) by linarith
    then show ?thesis using F(1) len by simp
  qed
  then have "blocks_ok dev s (icache s dp) 0 (unat (isize (icache s dp)))" unfolding blocks_ok_def sz by blast
  moreover have "unat (isize (icache s dp)) = 16 * (64 * (L div 1024 + 1))" using sz by simp
  moreover have "length as + 2 \<le> 64 * (L div 1024 + 1)" 
  proof -
    have "n + 2 \<le> 64 * (q + 1)" if "16 * (n + 2) = q * 1024 + r" "r < 1024" for n q r :: nat
      using that by (simp add: algebra_simps)
    from this[of _ "L div 1024" "L mod 1024"] show ?thesis using L(1) unfolding L_def by simp
  qed
  ultimately show thesis using that[of "64 * (L div 1024 + 1)"] F(3) by blast
qed

lemma find_at:
  "i < k \<Longrightarrow> P i \<Longrightarrow> (\<And>j. j < i \<Longrightarrow> \<not> P j) \<Longrightarrow> find P [0..<k] = Some i"
  by (auto simp: find_Some_iff intro!: exI[of _ i])

lemma cstr_eq_upto_refl [simp]: "cstr_eq_upto p p n"
  by (simp add: cstr_eq_upto_def)

text \<open>
  C37. The kernel on the image that \<open>mkfs\<close> built. On a device whose blocks are the sectors of the
  image, with the root directory in the inode cache, \<open>dirlookup\<close> of the name of a file returns the
  inode number of the file, unless an entry before it has the same name or no entry of the inode
  cache is free; and \<open>readi\<close> of the inode of a file gives the bytes that the file had on the host,
  up to the number asked for. The first part asks that the entries of the directory do not end
  on a block boundary, since \<open>mkfs\<close> rounds the size of the directory past it.
\<close>

theorem kernel_reads_mkfs_image:
  assumes img: "mkfs_main h (prog # out # as) mkfs_start = Some (Exit 0 t)"
    and host: "\<forall>n<1000. io_ok h n" "creates h out" "\<forall>a\<in>set as. good_arg h a" "length as \<le> 198" "mkfs_blocks h as \<le> 1000"
    and m: "mounted p dev s (image t)" and i: "i < length as"
  shows "(loaded dev s (image t) 1 dp \<longrightarrow> 16 * (length as + 2) mod 1024 \<noteq> 0 \<longrightarrow>
      locks s L_icache = free_lock \<longrightarrow> icache_wf (icache s) \<longrightarrow> \<not> no_slot (icache s) dev (of_nat (i + 2)) \<longrightarrow>
      (\<forall>j<i + 2. \<not> cstr_eq_upto (list_cstr (entry_name (as ! i))) (list_cstr (dir_name as j)) DIRSIZ) \<longrightarrow>
      (\<exists>ip u. dirlookup dp (list_cstr (entry_name (as ! i))) s = Ret (Some (ip, of_nat (16 * (i + 2)))) u \<and>
        is_entry (icache u) dev (of_nat (i + 2)) ip)) \<and>
    (loaded dev s (image t) (i + 2) ip \<longrightarrow>
      (\<exists>k u. readi ip False dst kbuf 0 cnt s = Ret (k, read_into kbuf 0 (unat k) (\<lambda>j. content h (as ! i) ! j)) u \<and>
        unat k = min (unat cnt) (length (content h (as ! i)))))"
proof -
  obtain t' where "mkfs_main h (prog # out # as) mkfs_start = Some (Exit 0 t')"
    and t': "\<forall>n. 1 \<le> n \<and> n < 2 + length as \<longrightarrow> holds_file (image t') n (if n = 1 then T_DIR else T_FILE)
       (if n = 1 then root_size as else of_nat (length (mkfs_files h as n))) (mkfs_files h as n)"
    using mkfs_image[OF host] by blast
  then have "t' = t" using img by simp
  note H = t'[rule_format, unfolded \<open>t' = t\<close>]
  have root: "holds_file (image t) 1 T_DIR (root_size as) (mkfs_files h as 1)" using H[of 1] by simp
  have c: "mkfs_files h as (i + 2) = content h (as ! i)" using i by (simp add: mkfs_files_def)
  have hf: "holds_file (image t) (i + 2) T_FILE (of_nat (length (content h (as ! i)))) (content h (as ! i))"
    using H[of "i + 2"] i unfolding c by simp
  have len: "length (content h (as ! i)) \<le> 268 * 1024" using host(3) i by (simp add: good_arg_def)
  show ?thesis
  proof (intro conjI impI)
    assume "loaded dev s (image t) (i + 2) ip"
    from mounted_readi[OF m hf this len] show "\<exists>k u. readi ip False dst kbuf 0 cnt s =
        Ret (k, read_into kbuf 0 (unat k) (\<lambda>j. content h (as ! i) ! j)) u \<and> unat k = min (unat cnt) (length (content h (as ! i)))"
      by blast
  next
    assume l: "loaded dev s (image t) 1 dp" and fit: "16 * (length as + 2) mod 1024 \<noteq> 0"
      and lk: "locks s L_icache = free_lock" "icache_wf (icache s)" "\<not> no_slot (icache s) dev (of_nat (i + 2))"
      and uniq: "\<forall>j<i + 2. \<not> cstr_eq_upto (list_cstr (entry_name (as ! i))) (list_cstr (dir_name as j)) DIRSIZ"
    let ?name = "list_cstr (entry_name (as ! i))"
    obtain k where k: "blocks_ok dev s (icache s dp) 0 (unat (isize (icache s dp)))" "unat (isize (icache s dp)) = 16 * k"
      "length as + 2 \<le> k" "itype (icache s dp) = T_DIR" using root_blocks[OF m root l host(4) fit] by blast
    note E = root_entries[OF m root l host(4)]
    have me: "dir_name as (i + 2) = entry_name (as ! i)" "dir_ino (i + 2) = i + 2" by (simp_all add: dir_name_def dir_ino_def)
    have "find (names_entry (view dev s) (icache s dp) ?name) [0..<k] = Some (i + 2)"
    proof (rule find_at)
      show "i + 2 < k" using i k(3) by simp
      show "names_entry (view dev s) (icache s dp) ?name (i + 2)" using E(1)[of "i + 2" ?name] i unfolding me by simp
      show "\<not> names_entry (view dev s) (icache s dp) ?name j" if "j < i + 2" for j using E(1)[of j ?name] uniq that i by simp
    qed
    moreover have "ucast (de_inum (dir_entry (view dev s) (icache s dp) (i + 2))) = (of_nat (i + 2) :: uint)"
      using E(2)[of "i + 2"] i unfolding me by simp
    moreover have "bufs_inv p dev s" "idev (icache s dp) = dev" using m l by (simp_all add: mounted_def loaded_def)
    ultimately show "\<exists>ip u. dirlookup dp ?name s = Ret (Some (ip, of_nat (16 * (i + 2)))) u \<and> is_entry (icache u) dev (of_nat (i + 2)) ip"
      using dirlookup_result[OF _ _ k(4,1,2) lk(1,2), of p ?name] lk(3) by (simp only: option.case if_False) blast
  qed
qed

text \<open>The image of one file, with the root directory and the file in the inode cache.\<close>

definition image_fs :: "(nat \<Rightarrow> cstr) \<Rightarrow> fs" where
  "image_fs img = fs0 img (\<lambda>i. if i < 2 then kernel_inode img (i + 1) (dir_inodes i) else dir_inodes i)"

lemma image_fs_facts:
  "mounted 0 1 (image_fs img) img" "loaded 1 (image_fs img) img 1 0" "loaded 1 (image_fs img) img 2 1"
  "locks (image_fs img) lk = free_lock" "icache_wf (icache (image_fs img))" "\<not> no_slot (icache (image_fs img)) 1 n"
proof -
  have f: "iref (kernel_inode img n q) = iref q" "idev (kernel_inode img n q) = idev q" for n q
    by (simp_all add: kernel_inode_def get_dinode_def)
  show "mounted 0 1 (image_fs img) img" by (simp add: mounted_def image_fs_def fs0_view fs0_can_get)
  show "loaded 1 (image_fs img) img 1 0" "loaded 1 (image_fs img) img 2 1"
    using f(2) by (auto simp: loaded_def image_fs_def dir_inodes_def numeral_2_eq_2)
  show "locks (image_fs img) lk = free_lock" by (simp add: image_fs_def)
  have "iref (icache (image_fs img) i) = (if i = 0 then 1 else 0)" for i
    using f(1) by (simp add: image_fs_def dir_inodes_def)
  then show "icache_wf (icache (image_fs img))" "\<not> no_slot (icache (image_fs img)) 1 n"
    by (auto simp: icache_wf_def no_slot_def NINODE_def intro!: exI[of _ 1])
qed

theorem kernel_reads_mkfs_image_witness:
  "\<exists>t ip u k v kbuf. mkfs_main host0 [[], [], lit ''user/_hi''] mkfs_start = Some (Exit 0 t) \<and>
     dirlookup 0 (list_cstr (lit ''hi'')) (image_fs (image t)) = Ret (Some (ip, 32)) u \<and> is_entry (icache u) 1 2 ip \<and>
     readi 1 False 0 (\<lambda>_. 0) 0 100 (image_fs (image t)) = Ret (2, kbuf) v \<and> kbuf 0 = 104 \<and> kbuf 1 = 105"
proof -
  let ?a = "lit ''user/_hi''"
  have c: "content host0 ?a = [104, 105]" by (simp add: content_def host0_def)
  have nm: "entry_name ?a = lit ''hi''" by (simp add: entry_name_def short_name_def skip_underscore_def lit_def)
  have good: "good_arg host0 ?a" unfolding good_arg_def c by (simp add: host0_def short_name_def lit_def)
  have b: "mkfs_blocks host0 [?a] \<le> 1000" by (simp add: mkfs_blocks_def c blocks_def)
  have io: "\<forall>n<1000. io_ok host0 n" "creates host0 []" by (simp_all add: host0_def)
  obtain t where t: "mkfs_main host0 ([] # [] # [?a]) mkfs_start = Some (Exit 0 t)"
    using mkfs_image[OF io, of "[?a]" "[]"] good b by auto
  let ?s = "image_fs (image t)"
  have uniq: "\<not> cstr_eq_upto (list_cstr (lit ''hi'')) (list_cstr (dir_name [?a] j)) DIRSIZ" if "j < 2" for j
    using that by (auto simp: cstr_eq_upto_def dir_name_def list_cstr_def lit_def DIRSIZ_def intro!: exI[of _ 0])
  have p: "\<forall>a\<in>set [?a]. good_arg host0 a" "length [?a] \<le> 198" "0 < length [?a]" by (simp_all add: good)
  note K = kernel_reads_mkfs_image[OF t io p(1,2) b image_fs_facts(1) p(3), of 0 1 0 "\<lambda>_. 0" 100]
  obtain ip u where u: "dirlookup 0 (list_cstr (lit ''hi'')) ?s = Ret (Some (ip, 32)) u" "is_entry (icache u) 1 2 ip"
    using K image_fs_facts(2,4-6)[of "image t"] uniq by (auto simp: nm)
  have "loaded 1 ?s (image t) (0 + 2) 1" using image_fs_facts(3) by (simp only: add_0)
  from K[THEN conjunct2, THEN mp, OF this]
  obtain k v where v: "readi 1 False 0 (\<lambda>_. 0) 0 100 ?s = Ret (k, read_into (\<lambda>_. 0) 0 (unat k) (\<lambda>j. [104, 105] ! j)) v"
    "unat k = min (unat (100 :: uint)) (length (content host0 ([?a] ! 0)))" unfolding nth_Cons_0 c by blast
  from v(2) have "k = 2" by (simp add: c word_unat_eq_iff)
  then show ?thesis using t u v by (auto simp: read_into_def)
qed

end
