(* ===== verification/Spec2Isabelle.thy ===== *)
theory Spec2Isabelle
  imports CopyUser ProcSched LogReserve BufProps ConsoleProps Paths InodeRefs Trap UlibProps GrepProps ShRound MkfsKernel
begin

text \<open>
  This development models the xv6 kernel of this repository (\<open>src/kernel\<close>), the user library,
  the shell and the small user programs (\<open>src/user\<close>), and the program that builds the first file
  system (\<open>src/mkfs\<close>), and proves what makes them correct.

  \<^bold>\<open>Kernel operations.\<close> A function of the kernel is an operation on a state
  (\<open>XV6_Prelude\<close>): it returns a value and a new state (\<open>Ret\<close>), panics (\<open>Panic\<close>), switches to
  another context with the rest of the function as a continuation (\<open>Swtch\<close>), or waits for another
  CPU (\<open>Spin\<close>). Operations are composed by \<open>bind\<close> in the order of the C statements; \<open>for_each\<close> and
  \<open>for_first\<close> are the loops over a list without and with an early exit. Integers are words of the
  width they have in C. An \<open>int\<close> that the code uses as a count or a result and that stays in range
  is an \<open>int\<close>.

  \<^bold>\<open>State.\<close> The state of the kernel is a record that grows from layer to layer, so that an
  operation mentions only the layers it uses: \<open>machine\<close> (memory, control registers, CPUs, spin
  locks), \<open>kmem\<close> (free list), \<open>kvm\<close> (kernel page table), \<open>procs\<close> (process table, ticks), \<open>sleeplocks\<close>,
  \<open>console\<close> (UART and line buffers, the log of device accesses), \<open>bio\<close> (buffer cache, disk), \<open>log\<close>,
  \<open>fs\<close> (super block, inode cache), \<open>files\<close> (open files, pipes), \<open>vdisk\<close> (the rings of the disk
  driver), \<open>kernel\<close> (the flag of \<open>forkret\<close>) and \<open>mmode\<close> (machine-mode registers).

  \<^bold>\<open>Theories of the kernel\<close>, with the source they model and the lemmas about it:

  \<^item> \<open>XV6_Prelude\<close>: types, operations, their weakest preconditions, words and memory.
    \<open>RiscV\<close>: \<open>riscv.h\<close>, \<open>memlayout.h\<close>.
  \<^item> \<open>CString\<close>: \<open>string.c\<close>; the locale \<open>mem_copy\<close> states what a copy that may overlap promises.
  \<^item> \<open>Spinlock\<close>: \<open>spinlock.c\<close> and the CPUs. \<open>push_off\<close> and \<open>pop_off\<close> nest; a step relation
    of several harts shows mutual exclusion.
  \<^item> \<open>Kalloc\<close>: \<open>kalloc.c\<close>, with the free list threaded through memory. The locale \<open>page_pool\<close> is
    the contract of an allocator; a step relation of page owners shows that no page is given out
    twice or lost.
  \<^item> \<open>Vm\<close>: \<open>vm.c\<close>. \<open>PageTable\<close> gives page tables their meaning as a map, \<open>AddrSpace\<close> and \<open>UserVm\<close>
    show what the operations do to it, up to returning every page, and \<open>CopyUser\<close> treats
    \<open>copyin\<close>, \<open>copyout\<close> and \<open>copyinstr\<close> for every pointer and length.
  \<^item> \<open>Proc\<close>, \<open>ProcLife\<close>: \<open>proc.c\<close>. \<open>ProcSched\<close>: sleep and wakeup, the scheduler, and a step
    relation that shows that no process runs on two CPUs.
  \<^item> \<open>Sleeplock\<close>: \<open>sleeplock.c\<close>; \<open>SleepProto\<close>: its protocol, and loops that sleep.
  \<^item> \<open>Console\<close>: \<open>uart.c\<close>, \<open>printf.c\<close>, \<open>console.c\<close>, \<open>plic.c\<close>. \<open>ConsoleProps\<close>: digits, the transmit queue, line editing, reading a line. \<open>Ring\<close>: the locale \<open>fifo\<close> of bounded queues,
    interpreted for pipes and for the transmit buffer.
  \<^item> \<open>Bio\<close>: \<open>bio.c\<close>. \<open>BufCache\<close>, \<open>BufProps\<close>: the cache refines a store of blocks with
    locks and reference counts; the locale \<open>block_store\<close> is what the layers above rely on.
  \<^item> \<open>Log\<close>: \<open>log.c\<close>. \<open>LogCrash\<close>: a crash after any disk write of a commit, followed by recovery,
    leaves all of a transaction or nothing. \<open>LogReserve\<close>: the space reserved suffices.
  \<^item> \<open>Fs\<close>: \<open>fs.c\<close>. \<open>BlockCodec\<close>, \<open>FsCodec\<close>: the disk format. \<open>FsRead\<close>: \<open>bmap\<close> and \<open>readi\<close>.
    \<open>InodeRefs\<close>: the inode cache and \<open>dirlookup\<close>. \<open>Paths\<close>: \<open>skipelem\<close> and \<open>namex\<close>.
  \<^item> \<open>File\<close>: \<open>file.c\<close>, \<open>pipe.c\<close>. \<open>FileProps\<close>, \<open>PipeProps\<close>: open files, and pipes as queues.
  \<^item> \<open>VirtioDisk\<close>: \<open>virtio_disk.c\<close>. \<open>Exec\<close>: \<open>exec.c\<close>. \<open>Syscall\<close>: \<open>syscall.c\<close>, \<open>sysproc.c\<close>,
    \<open>sysfile.c\<close>. \<open>Trap\<close>: \<open>trap.c\<close>, \<open>start.c\<close>, \<open>main.c\<close>.

  \<^bold>\<open>User side.\<close> \<open>UserOp\<close>: a program has a flat memory and makes system calls, which are a
  parameter, the record \<open>os\<close>; a run returns, exits, is replaced by \<open>exec\<close>, does something undefined,
  or does not end. \<open>Ulib\<close>: \<open>ulib.c\<close>, \<open>printf.c\<close>, \<open>umalloc.c\<close>; \<open>UlibProps\<close>: the string routines.
  \<open>Programs\<close>: \<open>cat\<close>, \<open>echo\<close>, \<open>grep\<close>, \<open>init\<close>, \<open>kill\<close>, \<open>ln\<close>, \<open>ls\<close>, \<open>mkdir\<close>, \<open>rm\<close>, \<open>sleep\<close>, \<open>wc\<close> and \<open>zombie\<close>;
  \<open>GrepProps\<close>: \<open>match\<close> decides the language of a pattern. \<open>Sh\<close>: \<open>sh.c\<close>; \<open>ShProps\<close>, \<open>ShRound\<close>: the
  parser ends on every line and gives back the command that a line was printed from.

  \<^bold>\<open>mkfs.\<close> \<open>Mkfs\<close>: \<open>mkfs.c\<close> with the host as a parameter. \<open>MkfsImage\<close>, \<open>MkfsProps\<close>: the image it
  builds is what the kernel's \<open>get_superblock\<close>, \<open>get_dinode\<close> and \<open>baddr\<close> expect, file by file. \<open>MkfsKernel\<close>:
  on that image the kernel's \<open>dirlookup\<close> finds every file by its name and \<open>readi\<close> returns its bytes.

  \<^bold>\<open>Bounds.\<close> Loops whose length the code fixes recurse on it: the lists of buffers (\<open>NBUF + 1\<close>
  rounds), descriptor chains (\<open>NUM + 1\<close>), \<open>freewalk\<close> (three levels), the transmit buffer
  (\<open>UART_TX_BUF_SIZE\<close>). The lemmas show that these bounds are not reached in the states of the
  invariants. Loops that wait for another process or a device are bounded by the state component
  \<open>patience\<close>; running out of it is the outcome \<open>Spin\<close>, and the theorems ask for as much as the loop
  needs and hold for every larger value. The parser of the shell has the fuel \<open>4 * n + 5\<close> for a line
  of \<open>n\<close> characters, which is shown to be enough for every line. Loops of user programs that need not
  end are \<open>partial_function\<close>s.

  \<^bold>\<open>Parameters.\<close> The devices are not part of the sources: the registers of the UART, the
  interrupt controller and the disk are read from the component \<open>iodev\<close>, a function of the accesses
  made so far. The file system uses the disk through \<open>disk_rw\<close>, the contract of \<open>virtio_disk_rw\<close>: transfer
  the block of a buffer and clear its flag. The driver itself is modelled in \<open>VirtioDisk\<close> against
  the device parameter.

  \<^bold>\<open>Not modelled.\<close> The assembly (\<open>entry.S\<close>, \<open>kernelvec.S\<close>, \<open>trampoline.S\<close>, \<open>swtch.S\<close>, \<open>initcode.S\<close>):
  saving and restoring registers is not visible in the model, a context switch is the outcome
  \<open>Swtch\<close>, and \<open>initcode\<close> enters as the bytes that \<open>userinit\<close> copies. The accessors of single
  control registers in \<open>riscv.h\<close> are record updates. \<open>ramdisk.c\<close> is not linked into the kernel.
  The test programs (\<open>usertests.c\<close>, \<open>grind.c\<close>, \<open>forktest.c\<close>, \<open>stressfs.c\<close> and others) exercise the system
  calls and have no contract of their own. \<open>usys.pl\<close> generates the stubs of the system calls at
  build time. Messages that the kernel prints on a panic, and the messages of \<open>mkfs\<close>, are left out.
\<close>

end
